(* ===== verification/L4_Prelude.thy ===== *)
theory L4_Prelude
  imports Main "HOL-Library.Word"
begin

text \<open>
  What the component theories share: names for the machine integers of the C++ code, the
  outcomes an operation can have, the little-endian byte representation of an integer (the
  code writes integers to byte buffers with a pointer cast, on a little-endian host), and
  generic lemmas on lists, words and maps.
\<close>

unbundle bit_operations_syntax

section \<open>Machine integers and outcomes\<close>

type_synonym u8 = "8 word"
type_synonym u16 = "16 word"
type_synonym u32 = "32 word"
type_synonym u64 = "64 word"

text \<open>
  The ways an operation can fail. \<open>RuntimeException\<close> is the exception class of the library
  with its message, \<open>AssertFailed\<close> an \<open>assert\<close> whose condition is false, and \<open>BadAccess\<close>
  a read or write outside a live object, which C++ leaves undefined.
\<close>

datatype error = RuntimeException string | AssertFailed string | BadAccess

type_synonym 'a res = "error + 'a"

named_theorems l4_defs \<open>definitions that a component's proofs unfold together\<close>

fun bind_res :: "'a res \<Rightarrow> ('a \<Rightarrow> 'b res) \<Rightarrow> 'b res" where
  "bind_res (Inl e) f = Inl e"
| "bind_res (Inr x) f = f x"

lemma bind_res_Inr_iff: "bind_res m f = Inr y \<longleftrightarrow> (\<exists>x. m = Inr x \<and> f x = Inr y)"
  by (cases m) auto

lemma bind_res_Inl_iff: "bind_res m f = Inl e \<longleftrightarrow> m = Inl e \<or> (\<exists>x. m = Inr x \<and> f x = Inl e)"
  by (cases m) auto

text \<open>
  A string up to its first NUL character: what is left of a \<open>std::string\<close> that is passed on as
  \<open>c_str()\<close>, and the string that a pointer to characters stands for.
\<close>

definition c_str :: "string \<Rightarrow> string" where
  "c_str s = takeWhile (\<lambda>c. c \<noteq> CHR 0x00) s"

section \<open>Little-endian bytes\<close>

text \<open>
  \<open>le_bytes n w\<close> is the first \<open>n\<close> bytes of the object representation of \<open>w\<close>, and \<open>le_word\<close>
  reads such bytes back.
\<close>

fun le_bytes :: "nat \<Rightarrow> 'w::len word \<Rightarrow> u8 list" where
  "le_bytes 0 w = []"
| "le_bytes (Suc n) w = ucast w # le_bytes n (drop_bit 8 w)"

fun le_word :: "u8 list \<Rightarrow> 'w::len word" where
  "le_word [] = 0"
| "le_word (b # bs) = ucast b OR push_bit 8 (le_word bs)"

lemma length_le_bytes [simp]: "length (le_bytes n w) = n"
  by (induction n arbitrary: w) auto

lemma le_bytes_nth: "i < n \<Longrightarrow> le_bytes n w ! i = ucast (drop_bit (8 * i) w)"
proof (induction n arbitrary: i w)
  case 0
  then show ?case by simp
next
  case (Suc n)
  then show ?case by (cases i) (simp_all add: add.commute)
qed

lemma bit_le_word:
  fixes bs :: "u8 list"
  shows "bit (le_word bs :: 'w::len word) i \<longleftrightarrow>
    i < LENGTH('w) \<and> i div 8 < length bs \<and> bit (bs ! (i div 8)) (i mod 8)"
proof (induction bs arbitrary: i)
  case Nil
  then show ?case by simp
next
  case (Cons b bs)
  show ?case
  proof (cases "i < 8")
    case True
    then show ?thesis by (auto simp: bit_simps)
  next
    case False
    then have "i div 8 = Suc ((i - 8) div 8)" and "i mod 8 = (i - 8) mod 8"
      by (simp_all add: le_div_geq le_mod_geq)
    moreover have "\<not> bit b i"
      using False bit_imp_le_length [of b i] by auto
    ultimately show ?thesis
      using False by (auto simp: bit_simps Cons.IH)
  qed
qed

lemma le_word_le_bytes:
  fixes w :: "'w::len word"
  assumes "LENGTH('w) \<le> 8 * n"
  shows "le_word (le_bytes n w) = w"
proof (rule bit_word_eqI)
  fix i
  assume i: "i < LENGTH('w)"
  then have n: "i div 8 < n"
    using assms by linarith
  have "bit (ucast (drop_bit (8 * (i div 8)) w) :: u8) (i mod 8) = bit w (8 * (i div 8) + i mod 8)"
    by (simp add: bit_simps)
  with i n show "bit (le_word (le_bytes n w) :: 'w word) i = bit w i"
    by (simp add: bit_le_word le_bytes_nth)
qed

lemma le_bytes_le_word:
  assumes "8 * length bs \<le> LENGTH('w)"
  shows "le_bytes (length bs) (le_word bs :: 'w::len word) = bs"
proof (rule nth_equalityI)
  fix i
  assume "i < length (le_bytes (length bs) (le_word bs :: 'w word))"
  then have i: "i < length bs" by simp
  have "ucast (drop_bit (8 * i) (le_word bs :: 'w word)) = bs ! i"
  proof (rule bit_word_eqI)
    fix n
    assume "n < LENGTH(8)"
    then have "n < 8" by simp
    moreover have "(8 * i + n) div 8 = i" "(8 * i + n) mod 8 = n"
      using \<open>n < 8\<close> by (simp_all add: div_nat_eqI)
    ultimately show "bit (ucast (drop_bit (8 * i) (le_word bs :: 'w word)) :: u8) n = bit (bs ! i) n"
      using assms i by (auto simp: bit_simps bit_le_word)
  qed
  with i show "le_bytes (length bs) (le_word bs :: 'w word) ! i = bs ! i"
    by (simp add: le_bytes_nth)
qed simp

lemma le_word_inject:
  assumes "length bs = length cs" and "8 * length bs \<le> LENGTH('w)"
  shows "(le_word bs :: 'w::len word) = le_word cs \<longleftrightarrow> bs = cs"
  using le_bytes_le_word [of bs, where ?'w = 'w] le_bytes_le_word [of cs, where ?'w = 'w] assms
  by metis

lemma ucast_of_unat: "unat w = n \<Longrightarrow> (ucast w :: 'w::len word) = of_nat n"
  by (metis of_nat_unat)

section \<open>Lists\<close>

text \<open>A window that lies before or behind the middle part of a list does not see it.\<close>

lemma window_outside:
  assumes "length x = length y" and "m + n \<le> length p \<or> length p + length x \<le> m"
  shows "take n (drop m (p @ x @ s)) = take n (drop m (p @ y @ s))"
  using assms by auto

lemma all_less_list: "(\<forall>i<n. P i) \<longleftrightarrow> list_all P [0..<n]"
  by (auto simp: list_all_iff)

lemma fold_cong_except:
  assumes k: "k < n"
    and same: "\<And>i. i < n \<Longrightarrow> i \<noteq> k \<Longrightarrow> f i = g i"
    and inj: "\<And>i a b. g i a = g i b \<longleftrightarrow> a = b"
  shows "fold f [0..<n] h = fold g [0..<n] h \<longleftrightarrow>
    f k (fold g [0..<k] h) = g k (fold g [0..<k] h)"
proof -
  have split: "[0..<n] = [0..<k] @ k # [Suc k..<n]"
    using k by (metis le_add1 less_imp_add_positive plus_nat.add_0 upt_add_eq_append upt_conv_Cons)
  have left: "fold f [0..<k] h = fold g [0..<k] h"
    using k by (intro fold_cong) (auto intro: same)
  have right: "fold f [Suc k..<n] a = fold g [Suc k..<n] a" for a
    by (intro fold_cong) (auto intro: same)
  have inj_fold: "fold g xs a = fold g xs b \<longleftrightarrow> a = b" for xs a b
    by (induction xs arbitrary: a b) (simp_all add: inj)
  show ?thesis
    by (simp add: split left right inj_fold)
qed

section \<open>Byte buffers\<close>

text \<open>
  A write of bytes at an offset of a buffer, and a read of a number of bytes at an offset.
  Outside the buffer both are \<open>BadAccess\<close>.
\<close>

definition put_bytes :: "nat \<Rightarrow> u8 list \<Rightarrow> u8 list \<Rightarrow> u8 list res" where
  "put_bytes off bs buf =
     (if off + length bs \<le> length buf
      then Inr (take off buf @ bs @ drop (off + length bs) buf) else Inl BadAccess)"

definition get_bytes :: "nat \<Rightarrow> nat \<Rightarrow> u8 list \<Rightarrow> u8 list res" where
  "get_bytes off n buf =
     (if off + n \<le> length buf then Inr (take n (drop off buf)) else Inl BadAccess)"

lemma put_bytes_at_end:
  "length a = off \<Longrightarrow> length bs \<le> length r \<Longrightarrow>
    put_bytes off bs (a @ r) = Inr (a @ bs @ drop (length bs) r)"
  by (simp add: put_bytes_def)

lemma get_bytes_at_end:
  "length a = off \<Longrightarrow> length b = n \<Longrightarrow> get_bytes off n (a @ b @ r) = Inr b"
  by (simp add: get_bytes_def)

lemma length_put_bytes: "put_bytes off bs buf = Inr buf' \<Longrightarrow> length buf' = length buf"
  by (auto simp: put_bytes_def split: if_splits)

end
