(* ===== verification/L4_Record.thy ===== *)
theory L4_Record
  imports L4_Prelude
begin

text \<open>
  Keys, values and records: the blobs of \<open>inc/L4/HashTable/IHashTable.h\<close> and the
  \<open>RecordSerializer\<close> of \<open>inc/L4/HashTable/Common/Record.h\<close>, which lays a record out in a byte
  buffer: the sizes (unless they are fixed by the table's setting), the key, the metadata of a
  cached record, the value. The lemmas give the layout, the round trip, and the error cases.
\<close>

section \<open>Blobs and records\<close>

text \<open>
  A blob is the list of its \<open>m_size\<close> bytes. \<open>Key\<close> has a 16-bit and \<open>Value\<close> a 32-bit size, so
  a key has fewer than \<open>2 ^ 16\<close> and a value fewer than \<open>2 ^ 32\<close> bytes.
\<close>

type_synonym Key = "u8 list"
type_synonym Value = "u8 list"

definition valid_key :: "Key \<Rightarrow> bool" where
  "valid_key k \<longleftrightarrow> length k < 2 ^ 16"

definition valid_value :: "Value \<Rightarrow> bool" where
  "valid_value v \<longleftrightarrow> length v < 2 ^ 32"

definition ksize :: "Key \<Rightarrow> u16" where
  "ksize k = of_nat (length k)"

definition vsize :: "Value \<Rightarrow> u32" where
  "vsize v = of_nat (length v)"

definition Blob_eq :: "u8 list \<Rightarrow> u8 list \<Rightarrow> bool" where
  "Blob_eq a b \<longleftrightarrow> length a = length b \<and> take (length a) a = take (length a) b"

record Record =
  m_key :: Key
  m_value :: Value

section \<open>The serializer\<close>

record RecordSerializer =
  m_fixedKeySize :: u16
  m_fixedValueSize :: u32
  m_metadataSize :: u32

definition sizeof_KeySize :: nat where
  "sizeof_KeySize = 2"

definition sizeof_ValueSize :: nat where
  "sizeof_ValueSize = 4"

text \<open>
  \<open>m_fixedValueSize + m_metadataSize\<close> is a 32-bit sum, the other sums are of type \<open>size_t\<close>.
\<close>

definition CalculateBufferSize :: "RecordSerializer \<Rightarrow> Key \<Rightarrow> Value \<Rightarrow> u64" where
  "CalculateBufferSize rs key value =
     (if m_fixedKeySize rs \<noteq> 0 then ucast (m_fixedKeySize rs)
      else ucast (ksize key) + of_nat sizeof_KeySize) +
     (if m_fixedValueSize rs \<noteq> 0 then ucast (m_fixedValueSize rs + m_metadataSize rs)
      else ucast (vsize value) + of_nat sizeof_ValueSize + ucast (m_metadataSize rs))"

definition CalculateRecordOverhead :: "RecordSerializer \<Rightarrow> nat" where
  "CalculateRecordOverhead rs =
     (if m_fixedKeySize rs \<noteq> 0 then 0 else sizeof_KeySize) +
     (if m_fixedValueSize rs \<noteq> 0 then 0 else sizeof_ValueSize)"

definition Validate :: "RecordSerializer \<Rightarrow> Key \<Rightarrow> Value \<Rightarrow> unit res" where
  "Validate rs key value =
     (if (m_fixedKeySize rs \<noteq> 0 \<and> ksize key \<noteq> m_fixedKeySize rs) \<or>
         (m_fixedValueSize rs \<noteq> 0 \<and> vsize value \<noteq> m_fixedValueSize rs)
      then Inl (RuntimeException ''Invalid key or value sizes are given.'')
      else Inr ())"

definition ValidateMeta :: "RecordSerializer \<Rightarrow> Key \<Rightarrow> Value \<Rightarrow> Value \<Rightarrow> unit res" where
  "ValidateMeta rs key value metaValue =
     bind_res (Validate rs key value) (\<lambda>_.
       if m_metadataSize rs \<noteq> vsize metaValue
       then Inl (RuntimeException ''Invalid meta value size is given.'')
       else Inr ())"

definition SerializeSizes ::
  "RecordSerializer \<Rightarrow> u8 list \<Rightarrow> u16 \<Rightarrow> u32 \<Rightarrow> (u8 list \<times> nat) res" where
  "SerializeSizes rs buffer keySize valueSize =
     bind_res (if m_fixedKeySize rs = 0
               then bind_res (put_bytes 0 (le_bytes sizeof_KeySize keySize) buffer)
                 (\<lambda>b. Inr (b, sizeof_KeySize))
               else Inr (buffer, 0)) (\<lambda>(b, cur).
     if m_fixedValueSize rs = 0
     then bind_res (put_bytes cur (le_bytes sizeof_ValueSize valueSize) b)
       (\<lambda>b. Inr (b, cur + sizeof_ValueSize))
     else Inr (b, cur))"

definition assert_res :: "bool \<Rightarrow> string \<Rightarrow> unit res" where
  "assert_res c what = (if c then Inr () else Inl (AssertFailed what))"

text \<open>The buffer is the allocated memory with its previous contents, so its length is its size.\<close>

definition Serialize :: "RecordSerializer \<Rightarrow> Key \<Rightarrow> Value \<Rightarrow> u8 list \<Rightarrow> u64 \<Rightarrow> u8 list res" where
  "Serialize rs key value buffer bufferSize =
     bind_res (Validate rs key value) (\<lambda>_.
     bind_res (assert_res (CalculateBufferSize rs key value \<le> bufferSize)
       ''CalculateBufferSize(key, value) <= bufferSize'') (\<lambda>_.
     bind_res (SerializeSizes rs buffer (ksize key) (vsize value)) (\<lambda>(b, start).
     bind_res (put_bytes start key b) (\<lambda>b.
     put_bytes (start + length key) value b))))"

definition SerializeMeta ::
  "RecordSerializer \<Rightarrow> Key \<Rightarrow> Value \<Rightarrow> Value \<Rightarrow> u8 list \<Rightarrow> u64 \<Rightarrow> u8 list res" where
  "SerializeMeta rs key value metaValue buffer bufferSize =
     bind_res (ValidateMeta rs key value metaValue) (\<lambda>_.
     bind_res (assert_res (CalculateBufferSize rs key value \<le> bufferSize)
       ''CalculateBufferSize(key, value) <= bufferSize'') (\<lambda>_.
     bind_res (SerializeSizes rs buffer (ksize key) (vsize value + vsize metaValue)) (\<lambda>(b, start).
     bind_res (put_bytes start key b) (\<lambda>b.
     bind_res (put_bytes (start + length key) metaValue b) (\<lambda>b.
     put_bytes (start + length key + length metaValue) value b)))))"

definition Deserialize :: "RecordSerializer \<Rightarrow> u8 list \<Rightarrow> Record res" where
  "Deserialize rs buffer =
     bind_res (if m_fixedKeySize rs \<noteq> 0 then Inr (m_fixedKeySize rs, 0)
               else bind_res (get_bytes 0 sizeof_KeySize buffer)
                 (\<lambda>bs. Inr (le_word bs, sizeof_KeySize))) (\<lambda>(keySize, off).
     bind_res (if m_fixedValueSize rs \<noteq> 0 then Inr (m_fixedValueSize rs + m_metadataSize rs, off)
               else bind_res (get_bytes off sizeof_ValueSize buffer)
                 (\<lambda>bs. Inr (le_word bs, off + sizeof_ValueSize))) (\<lambda>(valueSize, off).
     bind_res (get_bytes off (unat keySize) buffer) (\<lambda>key.
     bind_res (get_bytes (off + unat keySize) (unat valueSize) buffer) (\<lambda>value.
     Inr \<lparr>m_key = key, m_value = value\<rparr>))))"

section \<open>Basic facts\<close>

lemmas sizeof_defs = sizeof_KeySize_def sizeof_ValueSize_def

lemma Blob_eq_iff [simp]: "Blob_eq a b \<longleftrightarrow> a = b"
  by (auto simp: Blob_eq_def)

lemma unat_ksize: "valid_key k \<Longrightarrow> unat (ksize k) = length k"
  by (simp add: ksize_def valid_key_def unat_of_nat)

lemma unat_vsize: "valid_value v \<Longrightarrow> unat (vsize v) = length v"
  by (simp add: vsize_def valid_value_def unat_of_nat)

lemma vsize_append: "vsize a + vsize b = vsize (a @ b)"
  by (simp add: vsize_def)

text \<open>The size fields that precede the key, as bytes.\<close>

definition size_header :: "RecordSerializer \<Rightarrow> u16 \<Rightarrow> u32 \<Rightarrow> u8 list" where
  "size_header rs ks vs =
     (if m_fixedKeySize rs = 0 then le_bytes sizeof_KeySize ks else []) @
     (if m_fixedValueSize rs = 0 then le_bytes sizeof_ValueSize vs else [])"

lemma length_size_header [simp]: "length (size_header rs ks vs) = CalculateRecordOverhead rs"
  by (simp add: size_header_def CalculateRecordOverhead_def)

lemma SerializeSizes_eq:
  assumes "CalculateRecordOverhead rs \<le> length buf"
  shows "SerializeSizes rs buf ks vs =
    Inr (size_header rs ks vs @ drop (CalculateRecordOverhead rs) buf, CalculateRecordOverhead rs)"
  using assms
  by (auto simp: SerializeSizes_def size_header_def CalculateRecordOverhead_def put_bytes_def
      sizeof_defs)

text \<open>A whole record as bytes; for a cached record \<open>mv\<close> is the metadata followed by the value.\<close>

definition record_bytes :: "RecordSerializer \<Rightarrow> Key \<Rightarrow> Value \<Rightarrow> u8 list" where
  "record_bytes rs k mv = size_header rs (ksize k) (vsize mv) @ k @ mv"

lemma length_record_bytes [simp]:
  "length (record_bytes rs k mv) = CalculateRecordOverhead rs + length k + length mv"
  by (simp add: record_bytes_def)

lemma put_bytes_after:
  "length a \<le> length buf \<Longrightarrow> length a + length bs \<le> length buf \<Longrightarrow>
    put_bytes (length a) bs (a @ drop (length a) buf) = Inr ((a @ bs) @ drop (length (a @ bs)) buf)"
  by (simp add: put_bytes_def add.commute)

lemma Serialize_eq:
  assumes "Validate rs k v = Inr ()" and "CalculateBufferSize rs k v \<le> n"
    and fits: "CalculateRecordOverhead rs + length k + length v \<le> length buf"
  shows "Serialize rs k v buf n =
    Inr (record_bytes rs k v @ drop (length (record_bytes rs k v)) buf)"
proof -
  let ?h = "size_header rs (ksize k) (vsize v)"
  have sizes: "SerializeSizes rs buf (ksize k) (vsize v) = Inr (?h @ drop (length ?h) buf, length ?h)"
    using fits by (simp add: SerializeSizes_eq)
  have key: "put_bytes (length ?h) k (?h @ drop (length ?h) buf) =
      Inr ((?h @ k) @ drop (length (?h @ k)) buf)"
    by (rule put_bytes_after) (use fits in auto)
  have val: "put_bytes (length (?h @ k)) v ((?h @ k) @ drop (length (?h @ k)) buf) =
      Inr (((?h @ k) @ v) @ drop (length ((?h @ k) @ v)) buf)"
    by (rule put_bytes_after) (use fits in auto)
  show ?thesis
    using assms(1,2) key val
    by (simp add: Serialize_def assert_res_def sizes record_bytes_def)
qed

lemma SerializeMeta_eq:
  assumes "ValidateMeta rs k v m = Inr ()" and "CalculateBufferSize rs k v \<le> n"
    and fits: "CalculateRecordOverhead rs + length k + length m + length v \<le> length buf"
  shows "SerializeMeta rs k v m buf n =
    Inr (record_bytes rs k (m @ v) @ drop (length (record_bytes rs k (m @ v))) buf)"
proof -
  let ?h = "size_header rs (ksize k) (vsize (m @ v))"
  have mv: "vsize v + vsize m = vsize (m @ v)"
    by (simp add: vsize_append [symmetric] add.commute)
  have sizes: "SerializeSizes rs buf (ksize k) (vsize (m @ v)) =
      Inr (?h @ drop (length ?h) buf, length ?h)"
    using fits by (simp add: SerializeSizes_eq)
  have key: "put_bytes (length ?h) k (?h @ drop (length ?h) buf) =
      Inr ((?h @ k) @ drop (length (?h @ k)) buf)"
    by (rule put_bytes_after) (use fits in auto)
  have meta: "put_bytes (length (?h @ k)) m ((?h @ k) @ drop (length (?h @ k)) buf) =
      Inr (((?h @ k) @ m) @ drop (length ((?h @ k) @ m)) buf)"
    by (rule put_bytes_after) (use fits in auto)
  have val: "put_bytes (length ((?h @ k) @ m)) v (((?h @ k) @ m) @ drop (length ((?h @ k) @ m)) buf) =
      Inr ((((?h @ k) @ m) @ v) @ drop (length (((?h @ k) @ m) @ v)) buf)"
    by (rule put_bytes_after) (use fits in auto)
  show ?thesis
    using assms(1,2) key meta val
    by (simp add: SerializeMeta_def assert_res_def mv sizes record_bytes_def add.assoc)
qed

text \<open>The sizes a serializer accepts for a key and what is stored as the value.\<close>

definition sizes_ok :: "RecordSerializer \<Rightarrow> Key \<Rightarrow> Value \<Rightarrow> bool" where
  "sizes_ok rs k mv \<longleftrightarrow> valid_key k \<and> valid_value mv \<and>
     (m_fixedKeySize rs \<noteq> 0 \<longrightarrow> ksize k = m_fixedKeySize rs) \<and>
     (m_fixedValueSize rs \<noteq> 0 \<longrightarrow> vsize mv = m_fixedValueSize rs + m_metadataSize rs)"

lemma Deserialize_record_bytes:
  assumes "sizes_ok rs k mv"
  shows "Deserialize rs (record_bytes rs k mv @ rest) = Inr \<lparr>m_key = k, m_value = mv\<rparr>"
proof -
  have k: "unat (ksize k) = length k" and v: "unat (vsize mv) = length mv"
    using assms by (simp_all add: sizes_ok_def unat_ksize unat_vsize)
  have ks: "(le_word (le_bytes 2 (ksize k)) :: u16) = ksize k"
    and vs: "(le_word (le_bytes 4 (vsize mv)) :: u32) = vsize mv"
    by (simp_all add: le_word_le_bytes)
  show ?thesis
    using assms k v ks vs
    by (auto simp: Deserialize_def record_bytes_def size_header_def sizeof_defs sizes_ok_def
        get_bytes_def)
qed

lemma Deserialize_record_bytes_exact:
  "sizes_ok rs k mv \<Longrightarrow> Deserialize rs (record_bytes rs k mv) = Inr \<lparr>m_key = k, m_value = mv\<rparr>"
  using Deserialize_record_bytes [of rs k mv "[]"] by simp

lemma CalculateBufferSize_eq:
  assumes "Validate rs k v = Inr ()" "valid_key k" "valid_value v"
    and no_wrap: "m_fixedValueSize rs \<noteq> 0 \<longrightarrow> length v + unat (m_metadataSize rs) < 2 ^ 32"
  shows "CalculateBufferSize rs k v =
    of_nat (CalculateRecordOverhead rs + length k + length v + unat (m_metadataSize rs))"
proof -
  have fk: "unat (m_fixedKeySize rs) = length k" if "m_fixedKeySize rs \<noteq> 0"
    using assms(1,2) that unat_ksize [of k] by (auto simp: Validate_def split: if_splits)
  have fv: "unat (m_fixedValueSize rs) = length v" if "m_fixedValueSize rs \<noteq> 0"
    using assms(1,3) that unat_vsize [of v] by (auto simp: Validate_def split: if_splits)
  have key: "(if m_fixedKeySize rs \<noteq> 0 then ucast (m_fixedKeySize rs)
      else ucast (ksize k) + of_nat sizeof_KeySize) =
      (of_nat ((if m_fixedKeySize rs \<noteq> 0 then 0 else sizeof_KeySize) + length k) :: u64)"
    using fk [THEN ucast_of_unat] unat_ksize [OF assms(2), THEN ucast_of_unat] by auto
  have "unat (m_fixedValueSize rs + m_metadataSize rs) = length v + unat (m_metadataSize rs)"
    if "m_fixedValueSize rs \<noteq> 0"
    using that fv no_wrap unat_add_lem [of "m_fixedValueSize rs" "m_metadataSize rs"] by simp
  then have val: "(if m_fixedValueSize rs \<noteq> 0 then ucast (m_fixedValueSize rs + m_metadataSize rs)
      else ucast (vsize v) + of_nat sizeof_ValueSize + ucast (m_metadataSize rs)) =
      (of_nat ((if m_fixedValueSize rs \<noteq> 0 then 0 else sizeof_ValueSize) + length v +
        unat (m_metadataSize rs)) :: u64)"
    using unat_vsize [OF assms(3), THEN ucast_of_unat] ucast_of_unat [OF refl, of "m_metadataSize rs"]
    by (auto dest!: ucast_of_unat)
  show ?thesis
    unfolding CalculateBufferSize_def key val by (simp add: CalculateRecordOverhead_def)
qed


lemma buffer_size_nat:
  assumes "Validate rs k v = Inr ()" "valid_key k" "valid_value v"
    and "length v + unat (m_metadataSize rs) < 2 ^ 32"
  shows "unat (CalculateBufferSize rs k v) =
    CalculateRecordOverhead rs + length k + length v + unat (m_metadataSize rs)"
proof -
  have "CalculateRecordOverhead rs \<le> 6"
    by (simp add: CalculateRecordOverhead_def sizeof_defs)
  moreover have "length k < 2 ^ 16"
    using assms(2) by (simp add: valid_key_def)
  ultimately have "CalculateRecordOverhead rs + length k + length v + unat (m_metadataSize rs) < 2 ^ 64"
    using assms(4) by simp
  then show ?thesis
    using assms by (simp add: CalculateBufferSize_eq unat_of_nat del: of_nat_add)
qed

lemma Validate_cases:
  obtains "Validate rs k v = Inr ()" |
    "Validate rs k v = Inl (RuntimeException ''Invalid key or value sizes are given.'')"
  by (cases "Validate rs k v") (auto simp: Validate_def split: if_splits)

lemma Serialize_Validate:
  "Validate rs k v = Inl e \<Longrightarrow> Serialize rs k v buf n = Inl e"
  by (simp add: Serialize_def)

lemma sizes_ok_of_Validate:
  assumes "Validate rs k v = Inr ()" "valid_key k" "valid_value (m @ v)"
    and "vsize m = m_metadataSize rs"
  shows "sizes_ok rs k (m @ v)"
  using assms
  by (auto simp: Validate_def sizes_ok_def vsize_append [symmetric] add.commute split: if_splits)

section \<open>Properties\<close>

text \<open>C24: a key and value that pass \<open>Validate\<close>, serialized into any buffer of exactly
  \<open>CalculateBufferSize\<close> bytes, are what \<open>Deserialize\<close> reads from the result; the buffer is
  never overrun.\<close>

theorem Serialize_Deserialize:
  assumes "Validate rs k v = Inr ()" "valid_key k" "valid_value v" "m_metadataSize rs = 0"
    and buf: "length buf = unat (CalculateBufferSize rs k v)"
  shows "\<exists>b. Serialize rs k v buf (CalculateBufferSize rs k v) = Inr b \<and>
    length b = length buf \<and> Deserialize rs b = Inr \<lparr>m_key = k, m_value = v\<rparr>"
proof -
  have len: "length buf = length (record_bytes rs k v)"
    using assms by (simp add: buffer_size_nat valid_value_def)
  have "Serialize rs k v buf (CalculateBufferSize rs k v) = Inr (record_bytes rs k v @ [])"
    using Serialize_eq [of rs k v "CalculateBufferSize rs k v" buf] assms len by simp
  moreover have "sizes_ok rs k v"
    using sizes_ok_of_Validate [of rs k v "[]"] assms by (simp add: vsize_def)
  ultimately show ?thesis
    using len by (auto simp: Deserialize_record_bytes_exact)
qed

theorem Serialize_Deserialize_witness:
  "\<exists>b. Serialize \<lparr>m_fixedKeySize = 0, m_fixedValueSize = 0, m_metadataSize = 0\<rparr> [1, 2] [3]
      (replicate 9 0) (CalculateBufferSize \<lparr>m_fixedKeySize = 0, m_fixedValueSize = 0, m_metadataSize = 0\<rparr> [1, 2] [3]) = Inr b \<and>
    length b = length (replicate 9 (0 :: u8)) \<and>
    Deserialize \<lparr>m_fixedKeySize = 0, m_fixedValueSize = 0, m_metadataSize = 0\<rparr> b =
      Inr \<lparr>m_key = [1, 2], m_value = [3]\<rparr>"
  by (rule Serialize_Deserialize)
    (simp_all add: Validate_def valid_key_def valid_value_def CalculateBufferSize_def ksize_def
      vsize_def sizeof_defs)

text \<open>The serialization of a cached record puts the metadata between key and value:
  \<open>Deserialize\<close> returns the key, and the metadata followed by the value.\<close>

theorem SerializeMeta_Deserialize:
  assumes "ValidateMeta rs k v m = Inr ()" "valid_key k" "valid_value (m @ v)" "valid_value m"
    and buf: "length buf = unat (CalculateBufferSize rs k v)"
  shows "\<exists>b. SerializeMeta rs k v m buf (CalculateBufferSize rs k v) = Inr b \<and>
    length b = length buf \<and> Deserialize rs b = Inr \<lparr>m_key = k, m_value = m @ v\<rparr>"
proof -
  have v: "Validate rs k v = Inr ()" and m: "vsize m = m_metadataSize rs"
    using assms(1) by (auto simp: ValidateMeta_def bind_res_Inr_iff split: if_splits)
  have ml: "unat (m_metadataSize rs) = length m"
    using unat_vsize [OF assms(4)] m by simp
  have len: "length buf = length (record_bytes rs k (m @ v))"
    using assms(2,3) buf v ml by (simp add: buffer_size_nat valid_value_def)
  have "SerializeMeta rs k v m buf (CalculateBufferSize rs k v) = Inr (record_bytes rs k (m @ v) @ [])"
    using SerializeMeta_eq [of rs k v m "CalculateBufferSize rs k v" buf] assms(1) len by simp
  moreover have "sizes_ok rs k (m @ v)"
    using sizes_ok_of_Validate [OF v assms(2,3) m] .
  ultimately show ?thesis
    using len by (auto simp: Deserialize_record_bytes_exact)
qed

theorem SerializeMeta_Deserialize_witness:
  "\<exists>b. SerializeMeta \<lparr>m_fixedKeySize = 2, m_fixedValueSize = 1, m_metadataSize = 4\<rparr> [1, 2] [3] [9, 8, 7, 6]
      (replicate 7 0) (CalculateBufferSize \<lparr>m_fixedKeySize = 2, m_fixedValueSize = 1, m_metadataSize = 4\<rparr> [1, 2] [3]) = Inr b \<and>
    length b = length (replicate 7 (0 :: u8)) \<and>
    Deserialize \<lparr>m_fixedKeySize = 2, m_fixedValueSize = 1, m_metadataSize = 4\<rparr> b =
      Inr \<lparr>m_key = [1, 2], m_value = [9, 8, 7, 6] @ [3]\<rparr>"
  by (rule SerializeMeta_Deserialize)
    (simp_all add: ValidateMeta_def Validate_def valid_key_def valid_value_def
      CalculateBufferSize_def ksize_def vsize_def sizeof_defs)

end
