(* ===== verification/L4_PerfCounter.thy ===== *)
theory L4_PerfCounter
  imports L4_Prelude
begin

text \<open>
  The performance counters of \<open>inc/L4/Log/PerfCounter.h\<close>. A \<open>PerfCounters\<close> object is an array
  of 64-bit atomic integers indexed by an enumeration: here a function from the enumeration to
  64-bit words, read as signed values. Updates wrap as the atomic operations do. \<open>Max\<close> and
  \<open>Min\<close> are compare-and-exchange loops; their model takes the values that other threads leave in
  the counter between two attempts.
\<close>

section \<open>The counter enumerations\<close>

datatype ServerPerfCounter =
  ClientConnectionsCount
| OldestEpochCounterInQueue
| LatestEpochCounterInQueue
| PendingActionsCount
| LastPerformedActionsCount

definition c_serverPerfCounterNames :: "string list" where
  "c_serverPerfCounterNames =
     [''ClientConnectionsCount'', ''OldestEpochCounterInQueue'', ''LatestEpochCounterInQueue'',
      ''PendingActionsCount'', ''LastPerformedActionsCount'']"

datatype HashTablePerfCounter =
  RecordsCount
| BucketsCount
| TotalKeySize
| TotalValueSize
| TotalIndexSize
| ChainingEntriesCount
| MinKeySize
| MaxKeySize
| MinValueSize
| MaxValueSize
| MaxBucketChainLength
| RecordsCountLoadedFromSerializer
| RecordsCountSavedFromSerializer
| CacheHitCount
| CacheMissCount
| EvictedRecordsCount

definition c_hashTablePerfCounterNames :: "string list" where
  "c_hashTablePerfCounterNames =
     [''RecordsCount'', ''BucketsCount'', ''TotalKeySize'', ''TotalValueSize'',
      ''TotalIndexSize'', ''ChainingEntriesCount'', ''MinKeySize'', ''MaxKeySize'',
      ''MinValueSize'', ''MaxValueSize'', ''MaxBucketChainLength'',
      ''RecordsCountLoadedFromSerializer'', ''RecordsCountSavedFromSerializer'',
      ''CacheHitCount'', ''CacheMissCount'', ''EvictedRecordsCount'']"

text \<open>
  The counters of a table are ordered as their enumeration, whose values index the array of the counters
  and the array of their names.
\<close>

primrec counter_index :: "HashTablePerfCounter \<Rightarrow> nat" where
  "counter_index RecordsCount = 0"
| "counter_index BucketsCount = 1"
| "counter_index TotalKeySize = 2"
| "counter_index TotalValueSize = 3"
| "counter_index TotalIndexSize = 4"
| "counter_index ChainingEntriesCount = 5"
| "counter_index MinKeySize = 6"
| "counter_index MaxKeySize = 7"
| "counter_index MinValueSize = 8"
| "counter_index MaxValueSize = 9"
| "counter_index MaxBucketChainLength = 10"
| "counter_index RecordsCountLoadedFromSerializer = 11"
| "counter_index RecordsCountSavedFromSerializer = 12"
| "counter_index CacheHitCount = 13"
| "counter_index CacheMissCount = 14"
| "counter_index EvictedRecordsCount = 15"

lemma counter_index_inject: "counter_index c = counter_index d \<Longrightarrow> c = d"
  by (cases c; cases d) simp_all

instantiation HashTablePerfCounter :: linorder
begin

definition less_eq_HashTablePerfCounter :: "HashTablePerfCounter \<Rightarrow> HashTablePerfCounter \<Rightarrow> bool" where
  "less_eq_HashTablePerfCounter c d \<longleftrightarrow> counter_index c \<le> counter_index d"

definition less_HashTablePerfCounter :: "HashTablePerfCounter \<Rightarrow> HashTablePerfCounter \<Rightarrow> bool" where
  "less_HashTablePerfCounter c d \<longleftrightarrow> counter_index c < counter_index d"

instance
  by standard (auto simp: less_eq_HashTablePerfCounter_def less_HashTablePerfCounter_def dest: counter_index_inject)

end

definition all_counters :: "HashTablePerfCounter list" where
  "all_counters = [RecordsCount, BucketsCount, TotalKeySize, TotalValueSize, TotalIndexSize, ChainingEntriesCount, MinKeySize,
     MaxKeySize, MinValueSize, MaxValueSize, MaxBucketChainLength, RecordsCountLoadedFromSerializer, RecordsCountSavedFromSerializer,
     CacheHitCount, CacheMissCount, EvictedRecordsCount]"

lemma all_counters_sorted: "sorted_wrt (<) all_counters" and all_counters_index: "all_counters ! counter_index c = c"
  by (simp_all add: all_counters_def less_HashTablePerfCounter_def) (cases c; simp)

lemma set_all_counters: "set all_counters = UNIV"
  by (rule set_eqI, case_tac x) (simp_all add: all_counters_def)

lemma counter_name_index: "counter_index c < length c_hashTablePerfCounterNames" and "distinct c_hashTablePerfCounterNames"
  by (cases c; simp add: c_hashTablePerfCounterNames_def) (simp add: c_hashTablePerfCounterNames_def)

section \<open>Operations\<close>

type_synonym TValue = u64
type_synonym 'c PerfCounters = "'c \<Rightarrow> TValue"
type_synonym ServerPerfData = "ServerPerfCounter PerfCounters"
type_synonym HashTablePerfData = "HashTablePerfCounter PerfCounters"

definition PerfCounters_init :: "'c PerfCounters" where
  "PerfCounters_init = (\<lambda>_. 0)"

definition pc_Get :: "'c PerfCounters \<Rightarrow> 'c \<Rightarrow> TValue" where
  "pc_Get pd c = pd c"

definition pc_Set :: "'c PerfCounters \<Rightarrow> 'c \<Rightarrow> TValue \<Rightarrow> 'c PerfCounters" where
  "pc_Set pd c v = pd(c := v)"

definition pc_Increment :: "'c PerfCounters \<Rightarrow> 'c \<Rightarrow> 'c PerfCounters" where
  "pc_Increment pd c = pd(c := pd c + 1)"

definition pc_Decrement :: "'c PerfCounters \<Rightarrow> 'c \<Rightarrow> 'c PerfCounters" where
  "pc_Decrement pd c = pd(c := pd c - 1)"

definition pc_Add :: "'c PerfCounters \<Rightarrow> 'c \<Rightarrow> TValue \<Rightarrow> 'c PerfCounters" where
  "pc_Add pd c v = (if v \<noteq> 0 then pd(c := pd c + v) else pd)"

definition pc_Subtract :: "'c PerfCounters \<Rightarrow> 'c \<Rightarrow> TValue \<Rightarrow> 'c PerfCounters" where
  "pc_Subtract pd c v = (if v \<noteq> 0 then pd(c := pd c - v) else pd)"

text \<open>
  One \<open>compare_exchange_strong\<close> on a counter that holds \<open>counter\<close>: the new value of the counter,
  and \<open>None\<close> on success or \<open>Some\<close> of the value that is loaded into \<open>expected\<close> on failure.
\<close>

definition compare_exchange :: "TValue \<Rightarrow> TValue \<Rightarrow> TValue \<Rightarrow> TValue \<times> TValue option" where
  "compare_exchange counter expected desired =
     (if counter = expected then (desired, None) else (counter, Some counter))"

text \<open>
  The loops of \<open>Max\<close> and \<open>Min\<close>. \<open>envs\<close> lists what other threads have made of the counter when
  each attempt reads it; with \<open>envs\<close> used up, nobody else writes. The result is the counter's
  value when the loop returns, and what is left of \<open>envs\<close>: an attempt uses one value.
\<close>

function Max_loop :: "TValue \<Rightarrow> TValue \<Rightarrow> TValue \<Rightarrow> TValue list \<Rightarrow> TValue \<times> TValue list" where
  "Max_loop startValue value counter envs =
     (if sint value < sint startValue then (counter, envs)
      else let seen = (case envs of [] \<Rightarrow> counter | e # _ \<Rightarrow> e)
           in case compare_exchange seen startValue value of
                (counter', None) \<Rightarrow> (counter', tl envs)
              | (counter', Some latest) \<Rightarrow> Max_loop latest value counter' (tl envs))"
  by pat_completeness auto
termination
  by (relation "measure (\<lambda>(start, v, counter, envs).
        2 * length envs + (if counter = start then 0 else 1))")
    (auto simp: compare_exchange_def split: list.splits if_splits)

function Min_loop :: "TValue \<Rightarrow> TValue \<Rightarrow> TValue \<Rightarrow> TValue list \<Rightarrow> TValue \<times> TValue list" where
  "Min_loop startValue value counter envs =
     (if sint startValue < sint value then (counter, envs)
      else let seen = (case envs of [] \<Rightarrow> counter | e # _ \<Rightarrow> e)
           in case compare_exchange seen startValue value of
                (counter', None) \<Rightarrow> (counter', tl envs)
              | (counter', Some latest) \<Rightarrow> Min_loop latest value counter' (tl envs))"
  by pat_completeness auto
termination
  by (relation "measure (\<lambda>(start, v, counter, envs).
        2 * length envs + (if counter = start then 0 else 1))")
    (auto simp: compare_exchange_def split: list.splits if_splits)

declare Max_loop.simps [simp del] Min_loop.simps [simp del]

definition pc_Max :: "'c PerfCounters \<Rightarrow> 'c \<Rightarrow> TValue \<Rightarrow> 'c PerfCounters" where
  "pc_Max pd c v = pd(c := fst (Max_loop (pd c) v (pd c) []))"

definition pc_Min :: "'c PerfCounters \<Rightarrow> 'c \<Rightarrow> TValue \<Rightarrow> 'c PerfCounters" where
  "pc_Min pd c v = pd(c := fst (Min_loop (pd c) v (pd c) []))"

text \<open>The largest \<open>std::int64_t\<close>, and the constructor of \<open>HashTablePerfData\<close>.\<close>

definition TValue_max :: TValue where
  "TValue_max = 0x7FFFFFFFFFFFFFFF"

definition HashTablePerfData_init :: HashTablePerfData where
  "HashTablePerfData_init =
     pc_Set (pc_Set (pc_Set PerfCounters_init MinValueSize TValue_max) MinKeySize TValue_max)
       MaxBucketChainLength 1"

lemmas pc_defs = pc_Get_def pc_Set_def pc_Increment_def pc_Decrement_def pc_Add_def
  pc_Subtract_def pc_Max_def pc_Min_def

section \<open>What the loops compute\<close>

lemma Max_loop_alone:
  "Max_loop s v s [] = (if sint v < sint s then s else v, [])"
  by (simp add: Max_loop.simps compare_exchange_def)

lemma Min_loop_alone:
  "Min_loop s v s [] = (if sint s < sint v then s else v, [])"
  by (simp add: Min_loop.simps compare_exchange_def)

lemma sint_pc_Max: "sint (pc_Max pd c v c) = max (sint (pd c)) (sint v)"
  by (simp add: pc_Max_def Max_loop_alone)

lemma sint_pc_Min: "sint (pc_Min pd c v c) = min (sint (pd c)) (sint v)"
  by (simp add: pc_Min_def Min_loop_alone)

lemma pc_frame [simp]:
  "c' \<noteq> c \<Longrightarrow> pc_Set pd c v c' = pd c'"
  "c' \<noteq> c \<Longrightarrow> pc_Increment pd c c' = pd c'"
  "c' \<noteq> c \<Longrightarrow> pc_Decrement pd c c' = pd c'"
  "c' \<noteq> c \<Longrightarrow> pc_Add pd c v c' = pd c'"
  "c' \<noteq> c \<Longrightarrow> pc_Subtract pd c v c' = pd c'"
  "c' \<noteq> c \<Longrightarrow> pc_Max pd c v c' = pd c'"
  "c' \<noteq> c \<Longrightarrow> pc_Min pd c v c' = pd c'"
  by (simp_all add: pc_defs)

lemma pc_hit [simp]:
  "pc_Set pd c v c = v"
  "pc_Increment pd c c = pd c + 1"
  "pc_Decrement pd c c = pd c - 1"
  "pc_Add pd c v c = pd c + v"
  "pc_Subtract pd c v c = pd c - v"
  by (simp_all add: pc_defs)

text \<open>
  With interference: each loop replaces the value that its last attempt reads, which another thread may have
  stored since the first, by the larger or the smaller of that value and the given one.
\<close>

lemma Max_loop_result:
  "startValue = counter \<Longrightarrow> \<exists>used. envs = used @ snd (Max_loop startValue v counter envs) \<and>
    fst (Max_loop startValue v counter envs) \<in> {v, last (counter # used)} \<and>
    sint (fst (Max_loop startValue v counter envs)) = max (sint v) (sint (last (counter # used)))"
proof (induction startValue v counter envs rule: Max_loop.induct)
  case (1 start v counter envs)
  note unfold = Max_loop.simps [of counter v counter]
  show ?case
  proof (cases envs)
    case Nil
    then show ?thesis
      using "1.prems" by (auto simp: Max_loop_alone)
  next
    case (Cons e es)
    consider (returns) "sint v < sint start" | (stores) "\<not> sint v < sint start" "e = start" | (again) "\<not> sint v < sint start" "e \<noteq> start"
      by blast
    then show ?thesis
    proof cases
      case returns
      then show ?thesis
        using "1.prems" by (intro exI [of _ "[]"]) (simp add: unfold)
    next
      case stores
      then show ?thesis
        using "1.prems" by (intro exI [of _ "[e]"]) (simp add: unfold compare_exchange_def Cons)
    next
      case again
      then have step: "Max_loop start v counter (e # es) = Max_loop e v e es"
        by (simp add: unfold compare_exchange_def Cons "1.prems")
      obtain used where "es = used @ snd (Max_loop e v e es)" "fst (Max_loop e v e es) \<in> {v, last (e # used)}"
        "sint (fst (Max_loop e v e es)) = max (sint v) (sint (last (e # used)))"
        using "1.IH" [of e] again by (simp add: compare_exchange_def Cons) blast
      then show ?thesis
        unfolding Cons step by (intro exI [of _ "e # used"]) simp
    qed
  qed
qed

lemma Min_loop_result:
  "startValue = counter \<Longrightarrow> \<exists>used. envs = used @ snd (Min_loop startValue v counter envs) \<and>
    fst (Min_loop startValue v counter envs) \<in> {v, last (counter # used)} \<and>
    sint (fst (Min_loop startValue v counter envs)) = min (sint v) (sint (last (counter # used)))"
proof (induction startValue v counter envs rule: Min_loop.induct)
  case (1 start v counter envs)
  note unfold = Min_loop.simps [of counter v counter]
  show ?case
  proof (cases envs)
    case Nil
    then show ?thesis
      using "1.prems" by (auto simp: Min_loop_alone)
  next
    case (Cons e es)
    consider (returns) "sint start < sint v" | (stores) "\<not> sint start < sint v" "e = start" | (again) "\<not> sint start < sint v" "e \<noteq> start"
      by blast
    then show ?thesis
    proof cases
      case returns
      then show ?thesis
        using "1.prems" by (intro exI [of _ "[]"]) (simp add: unfold)
    next
      case stores
      then show ?thesis
        using "1.prems" by (intro exI [of _ "[e]"]) (simp add: unfold compare_exchange_def Cons)
    next
      case again
      then have step: "Min_loop start v counter (e # es) = Min_loop e v e es"
        by (simp add: unfold compare_exchange_def Cons "1.prems")
      obtain used where "es = used @ snd (Min_loop e v e es)" "fst (Min_loop e v e es) \<in> {v, last (e # used)}"
        "sint (fst (Min_loop e v e es)) = min (sint v) (sint (last (e # used)))"
        using "1.IH" [of e] again by (simp add: compare_exchange_def Cons) blast
      then show ?thesis
        unfolding Cons step by (intro exI [of _ "e # used"]) simp
    qed
  qed
qed

section \<open>Properties\<close>

text \<open>C36: \<open>Max\<close> and \<open>Min\<close> are atomic, whatever other threads store in the counter meanwhile: a loop returns after it has
  read some of the values they stored, each once and in their order, and leaves the maximum (the minimum) of the given value and
  of the last value it has read. The update of another thread that the counter holds then is not overwritten by less.\<close>

theorem Max_Min_atomic:
  "(\<exists>used. envs = used @ snd (Max_loop counter value counter envs) \<and>
      fst (Max_loop counter value counter envs) \<in> {value, last (counter # used)} \<and>
      sint (fst (Max_loop counter value counter envs)) = max (sint value) (sint (last (counter # used)))) \<and>
   (\<exists>used. envs = used @ snd (Min_loop counter value counter envs) \<and>
      fst (Min_loop counter value counter envs) \<in> {value, last (counter # used)} \<and>
      sint (fst (Min_loop counter value counter envs)) = min (sint value) (sint (last (counter # used))))"
  by (intro conjI Max_loop_result Min_loop_result refl)

end
