(* ===== verification/L4_SharedHashTable.thy ===== *)
theory L4_SharedHashTable
  imports L4_Record L4_PerfCounter
begin

text \<open>
  The data structure of \<open>inc/L4/HashTable/Common/SharedHashTable.h\<close>: buckets, each a chain of
  entries with sixteen tags and sixteen data pointers, the setting, the mutexes and the
  performance counters. A chain linked by \<open>m_next\<close> is the list of its entries, the bucket's own
  entry first. A data pointer is an address into the memory that holds the record buffers, so
  sharing and releasing a buffer are visible in the model.
\<close>

section \<open>Memory\<close>

type_synonym addr = nat
type_synonym memory = "addr \<Rightarrow> u8 list option"

text \<open>
  The allocator is a template parameter of the table. \<open>alloc h n\<close> is the address it returns for
  \<open>n\<close> bytes and what those bytes hold before they are written. What the table relies on is that
  the address is not in use and that the block has the size asked for.
\<close>

type_synonym allocator = "memory \<Rightarrow> nat \<Rightarrow> addr \<times> u8 list"

definition good_alloc :: "allocator \<Rightarrow> bool" where
  "good_alloc alloc \<longleftrightarrow> (\<forall>h n. finite (dom h) \<longrightarrow>
     h (fst (alloc h n)) = None \<and> length (snd (alloc h n)) = n)"

text \<open>One allocator that meets the contract: the lowest free address, zeroed.\<close>

definition first_fit :: allocator where
  "first_fit h n = (LEAST a. h a = None, replicate n 0)"

lemma good_alloc_first_fit: "good_alloc first_fit"
proof -
  have "h (LEAST a. h a = None) = None" if "finite (dom h)" for h :: memory
  proof -
    have "\<exists>a. a \<notin> dom h"
      using that by (meson ex_new_if_finite infinite_UNIV_nat)
    then show ?thesis
      by (metis (mono_tags, lifting) LeastI domIff)
  qed
  then show ?thesis
    by (simp add: good_alloc_def first_fit_def)
qed

definition dealloc :: "addr \<Rightarrow> memory \<Rightarrow> memory res" where
  "dealloc a h = (case h a of None \<Rightarrow> Inl BadAccess | Some _ \<Rightarrow> Inr (h(a := None)))"

section \<open>Entries, settings and tables\<close>

definition c_numDataPerEntry :: nat where
  "c_numDataPerEntry = 16"

record 'd Entry =
  m_tags :: "u8 list"
  m_dataList :: "'d option list"

definition new_Entry :: "'d Entry" where
  "new_Entry = \<lparr>m_tags = replicate c_numDataPerEntry 0, m_dataList = replicate c_numDataPerEntry None\<rparr>"

text \<open>\<open>static_assert(sizeof(Entry) == 152)\<close>: the tags, the data pointers and \<open>m_next\<close>.\<close>

definition sizeof_Entry :: nat where
  "sizeof_Entry = c_numDataPerEntry + 8 * c_numDataPerEntry + 8"

record Setting =
  m_numBuckets :: u32
  m_numBucketsPerMutex :: u32
  s_fixedKeySize :: u16
  s_fixedValueSize :: u32

definition default_Setting :: Setting where
  "default_Setting = \<lparr>m_numBuckets = 1, m_numBucketsPerMutex = 1, s_fixedKeySize = 0,
     s_fixedValueSize = 0\<rparr>"

record SharedHashTable =
  m_setting :: Setting
  m_buckets :: "addr Entry list list"
  m_mutexes :: nat
  m_perfData :: HashTablePerfData

text \<open>
  The constructor. The sizes of a mutex and of the table object depend on the platform and are
  parameters; they only enter the \<open>TotalIndexSize\<close> counter.
\<close>

definition num_mutexes :: "Setting \<Rightarrow> u32" where
  "num_mutexes s = max (m_numBuckets s div max (m_numBucketsPerMutex s) 1) 1"

definition SharedHashTable_new :: "nat \<Rightarrow> nat \<Rightarrow> Setting \<Rightarrow> SharedHashTable" where
  "SharedHashTable_new sizeof_Mutex sizeof_Table setting =
     (let buckets = replicate (unat (m_numBuckets setting)) [new_Entry];
          mutexes = unat (num_mutexes setting);
          pd = pc_Set HashTablePerfData_init BucketsCount (of_nat (length buckets));
          pd = pc_Set pd TotalIndexSize
                 (of_nat (length buckets * sizeof_Entry + mutexes * sizeof_Mutex + sizeof_Table))
      in \<lparr>m_setting = setting, m_buckets = buckets, m_mutexes = mutexes, m_perfData = pd\<rparr>)"

definition GetMutex :: "SharedHashTable \<Rightarrow> nat \<Rightarrow> nat" where
  "GetMutex T index = index mod m_mutexes T"

text \<open>Access to a bucket by index.\<close>

definition bucket_at :: "SharedHashTable \<Rightarrow> nat \<Rightarrow> addr Entry list res" where
  "bucket_at T i = (if i < length (m_buckets T) then Inr (m_buckets T ! i) else Inl BadAccess)"

section \<open>Destruction\<close>

text \<open>
  \<open>Entry::Release\<close> deletes the records of the chained entries, entry by entry, and then the
  records of the bucket's own entry. Deleting a buffer that is not allocated is \<open>BadAccess\<close>.
\<close>

fun delete_data :: "addr option list \<Rightarrow> memory \<Rightarrow> memory res" where
  "delete_data [] h = Inr h"
| "delete_data (None # ds) h = delete_data ds h"
| "delete_data (Some a # ds) h = bind_res (dealloc a h) (delete_data ds)"

fun release_chain :: "addr Entry list \<Rightarrow> memory \<Rightarrow> memory res" where
  "release_chain [] h = Inr h"
| "release_chain (e # es) h = bind_res (delete_data (m_dataList e) h) (release_chain es)"

definition Release :: "addr Entry list \<Rightarrow> memory \<Rightarrow> memory res" where
  "Release bucket h =
     bind_res (release_chain (tl bucket) h) (delete_data (m_dataList (hd bucket)))"

fun release_buckets :: "addr Entry list list \<Rightarrow> memory \<Rightarrow> memory res" where
  "release_buckets [] h = Inr h"
| "release_buckets (b # bs) h = bind_res (Release b h) (release_buckets bs)"

definition SharedHashTable_destroy :: "SharedHashTable \<Rightarrow> memory \<Rightarrow> memory res" where
  "SharedHashTable_destroy T h = release_buckets (m_buckets T) h"

section \<open>The slots of a chain as one list\<close>

type_synonym slot = "u8 \<times> addr option"

definition entry_slots :: "addr Entry \<Rightarrow> slot list" where
  "entry_slots e = zip (m_tags e) (m_dataList e)"

definition chain_slots :: "addr Entry list \<Rightarrow> slot list" where
  "chain_slots es = concat (map entry_slots es)"

definition slot_addrs :: "slot list \<Rightarrow> addr list" where
  "slot_addrs sl = concat (map (\<lambda>(t, d). case d of None \<Rightarrow> [] | Some a \<Rightarrow> [a]) sl)"

definition entry_ok :: "addr Entry \<Rightarrow> bool" where
  "entry_ok e \<longleftrightarrow> length (m_tags e) = c_numDataPerEntry \<and> length (m_dataList e) = c_numDataPerEntry"

definition chain_ok :: "addr Entry list \<Rightarrow> bool" where
  "chain_ok es \<longleftrightarrow> es \<noteq> [] \<and> (\<forall>e\<in>set es. entry_ok e)"

definition table_addrs :: "SharedHashTable \<Rightarrow> addr list" where
  "table_addrs T = concat (map (\<lambda>b. slot_addrs (chain_slots b)) (m_buckets T))"

lemma chain_slots_simps [simp]:
  "chain_slots [] = []"
  "chain_slots (e # es) = entry_slots e @ chain_slots es"
  "chain_slots (es @ fs) = chain_slots es @ chain_slots fs"
  by (simp_all add: chain_slots_def)

lemma slot_addrs_simps [simp]:
  "slot_addrs [] = []"
  "slot_addrs ((t, None) # sl) = slot_addrs sl"
  "slot_addrs ((t, Some a) # sl) = a # slot_addrs sl"
  "slot_addrs (sl @ sl') = slot_addrs sl @ slot_addrs sl'"
  by (simp_all add: slot_addrs_def)

lemma in_slot_addrs: "a \<in> set (slot_addrs sl) \<longleftrightarrow> (\<exists>t. (t, Some a) \<in> set sl)"
  by (force simp: slot_addrs_def split: option.splits)

lemma entry_ok_new [simp]: "entry_ok new_Entry"
  by (simp add: entry_ok_def new_Entry_def)

lemma length_entry_slots [simp]: "entry_ok e \<Longrightarrow> length (entry_slots e) = 16"
  by (simp add: entry_slots_def entry_ok_def c_numDataPerEntry_def)

lemma entry_slots_nth:
  "entry_ok e \<Longrightarrow> i < 16 \<Longrightarrow> entry_slots e ! i = (m_tags e ! i, m_dataList e ! i)"
  by (simp add: entry_slots_def entry_ok_def c_numDataPerEntry_def)

lemma entry_slots_new: "entry_slots new_Entry = replicate 16 (0, None)"
  by (simp add: entry_slots_def new_Entry_def c_numDataPerEntry_def)

lemma slot_addrs_new [simp]: "slot_addrs (entry_slots new_Entry) = []"
  by (simp add: entry_slots_new slot_addrs_def)

lemma length_chain_slots:
  "\<forall>e\<in>set es. entry_ok e \<Longrightarrow> length (chain_slots es) = 16 * length es"
  by (induction es) simp_all

lemma chain_slots_nth:
  assumes "\<forall>e\<in>set es. entry_ok e" "j < length es" "i < 16"
  shows "chain_slots es ! (16 * j + i) = (m_tags (es ! j) ! i, m_dataList (es ! j) ! i)"
  using assms
proof (induction es arbitrary: j)
  case Nil
  then show ?case by simp
next
  case (Cons e es)
  then show ?case
    by (cases j) (simp_all add: nth_append entry_slots_nth)
qed

text \<open>Overwriting one slot of a chain.\<close>

definition upd_slot :: "'d Entry list \<Rightarrow> nat \<Rightarrow> nat \<Rightarrow> 'd option \<Rightarrow> u8 \<Rightarrow> 'd Entry list" where
  "upd_slot es j i d t =
     es[j := (es ! j)\<lparr>m_tags := (m_tags (es ! j))[i := t], m_dataList := (m_dataList (es ! j))[i := d]\<rparr>]"

lemma length_upd_slot [simp]: "length (upd_slot es j i d t) = length es"
  by (simp add: upd_slot_def)

lemma upd_slot_entry_ok:
  assumes "\<forall>e\<in>set es. entry_ok e" "j < length es"
  shows "\<forall>e\<in>set (upd_slot es j i d t). entry_ok e"
proof
  fix e
  assume "e \<in> set (upd_slot es j i d t)"
  then have "e \<in> set es \<or> e = (es ! j)\<lparr>m_tags := (m_tags (es ! j))[i := t],
      m_dataList := (m_dataList (es ! j))[i := d]\<rparr>"
    unfolding upd_slot_def using set_update_subset_insert by fast
  moreover have "entry_ok (es ! j)"
    using assms by simp
  ultimately show "entry_ok e"
    using assms(1) by (auto simp: entry_ok_def)
qed

lemma chain_slots_upd:
  assumes "\<forall>e\<in>set es. entry_ok e" "j < length es" "i < 16"
  shows "chain_slots (upd_slot es j i d t) = (chain_slots es)[16 * j + i := (t, d)]"
  using assms
proof (induction es arbitrary: j)
  case Nil
  then show ?case by simp
next
  case (Cons e es)
  show ?case
  proof (cases j)
    case 0
    with Cons.prems show ?thesis
      by (simp add: upd_slot_def entry_slots_def entry_ok_def c_numDataPerEntry_def
          list_update_append zip_update)
  next
    case (Suc j')
    with Cons.prems Cons.IH [of j'] show ?thesis
      by (simp add: upd_slot_def list_update_append)
  qed
qed

end
