(* ===== verification/L4_Murmur.thy ===== *)
theory L4_Murmur
  imports L4_Prelude
begin

text \<open>
  The hash functions of \<open>src/MurmurHash3.cpp\<close>. A key is its list of bytes (the pointer and the
  length of the C++ interface), a block is read from the bytes in little-endian order, and a
  loop over the blocks is a fold over their indices. The hash table uses
  \<open>MurmurHash3_x64_128\<close>. The lemmas give the inverses of the mixing steps: every step of the
  hash loses no information, so two keys that differ in one aligned block never collide.
\<close>

section \<open>Rotations, block reads and finalization\<close>

definition rotl32 :: "u32 \<Rightarrow> nat \<Rightarrow> u32" where
  "rotl32 x r = push_bit r x OR drop_bit (32 - r) x"

definition rotl64 :: "u64 \<Rightarrow> nat \<Rightarrow> u64" where
  "rotl64 x r = push_bit r x OR drop_bit (64 - r) x"

definition getblock32 :: "u8 list \<Rightarrow> nat \<Rightarrow> u32" where
  "getblock32 p i = le_word (take 4 (drop (4 * i) p))"

definition getblock64 :: "u8 list \<Rightarrow> nat \<Rightarrow> u64" where
  "getblock64 p i = le_word (take 8 (drop (8 * i) p))"

definition fmix32 :: "u32 \<Rightarrow> u32" where
  "fmix32 h =
     (let h = h XOR drop_bit 16 h;
          h = h * 0x85ebca6b;
          h = h XOR drop_bit 13 h;
          h = h * 0xc2b2ae35;
          h = h XOR drop_bit 16 h
      in h)"

definition fmix64 :: "u64 \<Rightarrow> u64" where
  "fmix64 k =
     (let k = k XOR drop_bit 33 k;
          k = k * 0xff51afd7ed558ccd;
          k = k XOR drop_bit 33 k;
          k = k * 0xc4ceb9fe1a85ec53;
          k = k XOR drop_bit 33 k
      in k)"

section \<open>The 32-bit hash\<close>

definition mix_x86_32 :: "u32 \<Rightarrow> u32" where
  "mix_x86_32 k1 = rotl32 (k1 * 0xcc9e2d51) 15 * 0x1b873593"

definition body_x86_32 :: "u8 list \<Rightarrow> nat \<Rightarrow> u32 \<Rightarrow> u32" where
  "body_x86_32 blocks i h1 =
     (let h1 = h1 XOR mix_x86_32 (getblock32 blocks i);
          h1 = rotl32 h1 13
      in h1 * 5 + 0xe6546b64)"

definition tail_x86_32 :: "u8 list \<Rightarrow> nat \<Rightarrow> u32 \<Rightarrow> u32" where
  "tail_x86_32 tail len3 h1 =
     (let k1 = 0;
          k1 = (if 3 \<le> len3 then k1 XOR push_bit 16 (ucast (tail ! 2)) else k1);
          k1 = (if 2 \<le> len3 then k1 XOR push_bit 8 (ucast (tail ! 1)) else k1)
      in if 1 \<le> len3 then h1 XOR mix_x86_32 (k1 XOR ucast (tail ! 0)) else h1)"

definition MurmurHash3_x86_32 :: "u8 list \<Rightarrow> u32 \<Rightarrow> u32" where
  "MurmurHash3_x86_32 data seed =
     (let len = length data;
          nblocks = len div 4;
          h1 = fold (body_x86_32 data) [0..<nblocks] seed;
          h1 = tail_x86_32 (drop (nblocks * 4) data) (len mod 4) h1
      in fmix32 (h1 XOR of_nat len))"

section \<open>The 128-bit hash for 64-bit hosts\<close>

definition mix1_x64_128 :: "u64 \<Rightarrow> u64" where
  "mix1_x64_128 k1 = rotl64 (k1 * 0x87c37b91114253d5) 31 * 0x4cf5ad432745937f"

definition mix2_x64_128 :: "u64 \<Rightarrow> u64" where
  "mix2_x64_128 k2 = rotl64 (k2 * 0x4cf5ad432745937f) 33 * 0x87c37b91114253d5"

definition body_x64_128 :: "u8 list \<Rightarrow> nat \<Rightarrow> u64 \<times> u64 \<Rightarrow> u64 \<times> u64" where
  "body_x64_128 blocks i h =
     (let (h1, h2) = h;
          k1 = getblock64 blocks (i * 2 + 0);
          k2 = getblock64 blocks (i * 2 + 1);
          h1 = h1 XOR mix1_x64_128 k1;
          h1 = (rotl64 h1 27 + h2) * 5 + 0x52dce729;
          h2 = h2 XOR mix2_x64_128 k2;
          h2 = (rotl64 h2 31 + h1) * 5 + 0x38495ab5
      in (h1, h2))"

text \<open>
  The tail is a \<open>switch\<close> on \<open>len & 15\<close> that falls through: the case of a byte runs for every
  larger value too, in descending order, and the mixing of \<open>k2\<close> (\<open>k1\<close>) runs when any of its
  bytes is there.
\<close>

definition tail_byte :: "u8 list \<Rightarrow> nat \<Rightarrow> nat \<Rightarrow> nat \<Rightarrow> 'w::len word \<Rightarrow> 'w word" where
  "tail_byte tail len15 i shift k =
     (if i < len15 then k XOR push_bit shift (ucast (tail ! i)) else k)"

definition tail_x64_128 :: "u8 list \<Rightarrow> nat \<Rightarrow> u64 \<times> u64 \<Rightarrow> u64 \<times> u64" where
  "tail_x64_128 tail len15 h =
     (let (h1, h2) = h;
          k2 = tail_byte tail len15 14 48 0;
          k2 = tail_byte tail len15 13 40 k2;
          k2 = tail_byte tail len15 12 32 k2;
          k2 = tail_byte tail len15 11 24 k2;
          k2 = tail_byte tail len15 10 16 k2;
          k2 = tail_byte tail len15 9 8 k2;
          k2 = tail_byte tail len15 8 0 k2;
          h2 = (if 9 \<le> len15 then h2 XOR mix2_x64_128 k2 else h2);
          k1 = tail_byte tail len15 7 56 0;
          k1 = tail_byte tail len15 6 48 k1;
          k1 = tail_byte tail len15 5 40 k1;
          k1 = tail_byte tail len15 4 32 k1;
          k1 = tail_byte tail len15 3 24 k1;
          k1 = tail_byte tail len15 2 16 k1;
          k1 = tail_byte tail len15 1 8 k1;
          k1 = tail_byte tail len15 0 0 k1;
          h1 = (if 1 \<le> len15 then h1 XOR mix1_x64_128 k1 else h1)
      in (h1, h2))"

definition cross_add2 :: "u64 \<times> u64 \<Rightarrow> u64 \<times> u64" where
  "cross_add2 h = (let (h1, h2) = h; h1 = h1 + h2; h2 = h2 + h1 in (h1, h2))"

definition final_x64_128 :: "nat \<Rightarrow> u64 \<times> u64 \<Rightarrow> u64 \<times> u64" where
  "final_x64_128 len h =
     (let (h1, h2) = h;
          (h1, h2) = cross_add2 (h1 XOR of_nat len, h2 XOR of_nat len)
      in cross_add2 (fmix64 h1, fmix64 h2))"

definition MurmurHash3_x64_128 :: "u8 list \<Rightarrow> u32 \<Rightarrow> u64 \<times> u64" where
  "MurmurHash3_x64_128 data seed =
     (let len = length data;
          nblocks = len div 16;
          h = fold (body_x64_128 data) [0..<nblocks] (ucast seed, ucast seed);
          h = tail_x64_128 (drop (nblocks * 16) data) (len mod 16) h
      in final_x64_128 len h)"

section \<open>The 128-bit hash for 32-bit hosts\<close>

type_synonym lanes = "u32 \<times> u32 \<times> u32 \<times> u32"

definition mix1_x86_128 :: "u32 \<Rightarrow> u32" where
  "mix1_x86_128 k = rotl32 (k * 0x239b961b) 15 * 0xab0e9789"

definition mix2_x86_128 :: "u32 \<Rightarrow> u32" where
  "mix2_x86_128 k = rotl32 (k * 0xab0e9789) 16 * 0x38b34ae5"

definition mix3_x86_128 :: "u32 \<Rightarrow> u32" where
  "mix3_x86_128 k = rotl32 (k * 0x38b34ae5) 17 * 0xa1e38b93"

definition mix4_x86_128 :: "u32 \<Rightarrow> u32" where
  "mix4_x86_128 k = rotl32 (k * 0xa1e38b93) 18 * 0x239b961b"

definition body_x86_128 :: "u8 list \<Rightarrow> nat \<Rightarrow> lanes \<Rightarrow> lanes" where
  "body_x86_128 blocks i h =
     (let (h1, h2, h3, h4) = h;
          k1 = getblock32 blocks (i * 4 + 0);
          k2 = getblock32 blocks (i * 4 + 1);
          k3 = getblock32 blocks (i * 4 + 2);
          k4 = getblock32 blocks (i * 4 + 3);
          h1 = h1 XOR mix1_x86_128 k1;
          h1 = (rotl32 h1 19 + h2) * 5 + 0x561ccd1b;
          h2 = h2 XOR mix2_x86_128 k2;
          h2 = (rotl32 h2 17 + h3) * 5 + 0x0bcaa747;
          h3 = h3 XOR mix3_x86_128 k3;
          h3 = (rotl32 h3 15 + h4) * 5 + 0x96cd1c35;
          h4 = h4 XOR mix4_x86_128 k4;
          h4 = (rotl32 h4 13 + h1) * 5 + 0x32ac3b17
      in (h1, h2, h3, h4))"

definition tail_x86_128 :: "u8 list \<Rightarrow> nat \<Rightarrow> lanes \<Rightarrow> lanes" where
  "tail_x86_128 tail len15 h =
     (let (h1, h2, h3, h4) = h;
          k4 = tail_byte tail len15 14 16 0;
          k4 = tail_byte tail len15 13 8 k4;
          k4 = tail_byte tail len15 12 0 k4;
          h4 = (if 13 \<le> len15 then h4 XOR mix4_x86_128 k4 else h4);
          k3 = tail_byte tail len15 11 24 0;
          k3 = tail_byte tail len15 10 16 k3;
          k3 = tail_byte tail len15 9 8 k3;
          k3 = tail_byte tail len15 8 0 k3;
          h3 = (if 9 \<le> len15 then h3 XOR mix3_x86_128 k3 else h3);
          k2 = tail_byte tail len15 7 24 0;
          k2 = tail_byte tail len15 6 16 k2;
          k2 = tail_byte tail len15 5 8 k2;
          k2 = tail_byte tail len15 4 0 k2;
          h2 = (if 5 \<le> len15 then h2 XOR mix2_x86_128 k2 else h2);
          k1 = tail_byte tail len15 3 24 0;
          k1 = tail_byte tail len15 2 16 k1;
          k1 = tail_byte tail len15 1 8 k1;
          k1 = tail_byte tail len15 0 0 k1;
          h1 = (if 1 \<le> len15 then h1 XOR mix1_x86_128 k1 else h1)
      in (h1, h2, h3, h4))"

definition cross_add4 :: "lanes \<Rightarrow> lanes" where
  "cross_add4 h =
     (let (h1, h2, h3, h4) = h;
          h1 = h1 + h2; h1 = h1 + h3; h1 = h1 + h4
      in (h1, h2 + h1, h3 + h1, h4 + h1))"

definition final_x86_128 :: "nat \<Rightarrow> lanes \<Rightarrow> lanes" where
  "final_x86_128 len h =
     (let (h1, h2, h3, h4) = h;
          (h1, h2, h3, h4) = cross_add4 (h1 XOR of_nat len, h2 XOR of_nat len,
                                         h3 XOR of_nat len, h4 XOR of_nat len)
      in cross_add4 (fmix32 h1, fmix32 h2, fmix32 h3, fmix32 h4))"

definition MurmurHash3_x86_128 :: "u8 list \<Rightarrow> u32 \<Rightarrow> lanes" where
  "MurmurHash3_x86_128 data seed =
     (let len = length data;
          nblocks = len div 16;
          h = fold (body_x86_128 data) [0..<nblocks] (seed, seed, seed, seed);
          h = tail_x86_128 (drop (nblocks * 16) data) (len mod 16) h
      in final_x86_128 len h)"

section \<open>Every mixing step has an inverse\<close>

lemma mult_cancel_unit:
  fixes c d x y :: "'w::len word"
  assumes "c * d = 1"
  shows "x * c = y * c \<longleftrightarrow> x = y"
  by (metis assms mult.assoc mult.right_neutral)

lemma xor_left_cancel: "x XOR a = x XOR b \<longleftrightarrow> a = b" for x :: "'w::len word"
  by (metis xor.assoc xor.left_neutral xor_self_eq)

lemma xor_right_cancel: "a XOR x = b XOR x \<longleftrightarrow> a = b" for x :: "'w::len word"
  by (metis xor.assoc xor.right_neutral xor_self_eq)

lemma rotate_inverse:
  fixes x :: "'w::len word"
  assumes "0 < r" "r < LENGTH('w)"
  shows "drop_bit r (push_bit r x OR drop_bit (LENGTH('w) - r) x) OR
    push_bit (LENGTH('w) - r) (push_bit r x OR drop_bit (LENGTH('w) - r) x) = x"
proof (rule bit_word_eqI)
  fix n
  assume n: "n < LENGTH('w)"
  show "bit (drop_bit r (push_bit r x OR drop_bit (LENGTH('w) - r) x) OR
    push_bit (LENGTH('w) - r) (push_bit r x OR drop_bit (LENGTH('w) - r) x)) n = bit x n"
  proof (cases "r + n < LENGTH('w)")
    case True
    with n assms show ?thesis
      by (auto simp: bit_simps dest: bit_imp_le_length)
  next
    case False
    then have "LENGTH('w) - r + (n - (LENGTH('w) - r)) = n"
      using n by linarith
    with False n assms show ?thesis
      by (auto simp: bit_simps dest: bit_imp_le_length)
  qed
qed

lemma rotate_inject:
  fixes x y :: "'w::len word"
  assumes "0 < r" "r < LENGTH('w)"
  shows "push_bit r x OR drop_bit (LENGTH('w) - r) x = push_bit r y OR drop_bit (LENGTH('w) - r) y
    \<longleftrightarrow> x = y"
  using rotate_inverse [OF assms] by metis

lemma rotl32_inject: "0 < r \<Longrightarrow> r < 32 \<Longrightarrow> rotl32 x r = rotl32 y r \<longleftrightarrow> x = y"
  using rotate_inject [of r x y] by (simp add: rotl32_def)

lemma rotl64_inject: "0 < r \<Longrightarrow> r < 64 \<Longrightarrow> rotl64 x r = rotl64 y r \<longleftrightarrow> x = y"
  using rotate_inject [of r x y] by (simp add: rotl64_def)

text \<open>A shift by at least half the width makes \<open>x ^= x >> s\<close> its own inverse.\<close>

lemma xorshift_involutive:
  fixes x :: "'w::len word"
  assumes "LENGTH('w) \<le> 2 * s"
  shows "(x XOR drop_bit s x) XOR drop_bit s (x XOR drop_bit s x) = x"
  by (rule bit_word_eqI) (use assms in \<open>auto simp: bit_simps dest: bit_imp_le_length\<close>)

lemma xorshift_inject:
  fixes x y :: "'w::len word"
  assumes "LENGTH('w) \<le> 2 * s"
  shows "x XOR drop_bit s x = y XOR drop_bit s y \<longleftrightarrow> x = y"
  using xorshift_involutive [OF assms] by metis

lemma xorshift13_inverse:
  "(let y = x XOR drop_bit 13 x in y XOR drop_bit 13 y XOR drop_bit 26 y) = (x :: u32)"
  by (rule bit_word_eqI) (auto simp: bit_simps dest: bit_imp_le_length)

lemma xorshift13_inject: "x XOR drop_bit 13 x = y XOR drop_bit 13 y \<longleftrightarrow> x = (y :: u32)"
  using xorshift13_inverse [of x] xorshift13_inverse [of y] unfolding Let_def by metis

named_theorems mix_inject \<open>injectivity of the mixing steps\<close>

lemma fmix64_inject [mix_inject]: "fmix64 x = fmix64 y \<longleftrightarrow> x = y"
  by (simp add: fmix64_def Let_def xorshift_inject
      mult_cancel_unit [where c = "0xff51afd7ed558ccd" and d = "0x4f74430c22a54005"]
      mult_cancel_unit [where c = "0xc4ceb9fe1a85ec53" and d = "0x9cb4b2f8129337db"])

lemma fmix32_inject [mix_inject]: "fmix32 x = fmix32 y \<longleftrightarrow> x = y"
  by (simp add: fmix32_def Let_def xorshift_inject xorshift13_inject
      mult_cancel_unit [where c = "0x85ebca6b" and d = "0xa5cb9243"]
      mult_cancel_unit [where c = "0xc2b2ae35" and d = "0x7ed1b41d"])


lemma mix_x86_32_inject [mix_inject]: "mix_x86_32 x = mix_x86_32 y \<longleftrightarrow> x = y"
  by (simp add: mix_x86_32_def rotl32_inject
      mult_cancel_unit [where c = "0xcc9e2d51" and d = "0xdee13bb1"]
      mult_cancel_unit [where c = "0x1b873593" and d = "0x56ed309b"])

lemma mix_x64_128_inject [mix_inject]:
  "mix1_x64_128 x = mix1_x64_128 y \<longleftrightarrow> x = y"
  "mix2_x64_128 x = mix2_x64_128 y \<longleftrightarrow> x = y"
  by (simp_all add: mix1_x64_128_def mix2_x64_128_def rotl64_inject
      mult_cancel_unit [where c = "0x87c37b91114253d5" and d = "0xa98409e882ce4d7d"]
      mult_cancel_unit [where c = "0x4cf5ad432745937f" and d = "0xa81e14edd9de2c7f"])

lemma mix_x86_128_inject [mix_inject]:
  "mix1_x86_128 x = mix1_x86_128 y \<longleftrightarrow> x = y"
  "mix2_x86_128 x = mix2_x86_128 y \<longleftrightarrow> x = y"
  "mix3_x86_128 x = mix3_x86_128 y \<longleftrightarrow> x = y"
  "mix4_x86_128 x = mix4_x86_128 y \<longleftrightarrow> x = y"
  by (simp_all add: mix1_x86_128_def mix2_x86_128_def mix3_x86_128_def mix4_x86_128_def
      rotl32_inject
      mult_cancel_unit [where c = "0x239b961b" and d = "0x89c95413"]
      mult_cancel_unit [where c = "0xab0e9789" and d = "0xdf130eb9"]
      mult_cancel_unit [where c = "0x38b34ae5" and d = "0x747862ed"]
      mult_cancel_unit [where c = "0xa1e38b93" and d = "0x58d64a9b"])

lemmas step_inject = mix_inject xor_left_cancel xor_right_cancel rotl32_inject rotl64_inject
  mult_cancel_unit [where c = "5 :: u32" and d = "0xcccccccd"]
  mult_cancel_unit [where c = "5 :: u64" and d = "0xcccccccccccccccd"]

section \<open>The loop bodies and the finalization are injective\<close>

lemma body_x64_128_inject_state:
  "body_x64_128 d i g = body_x64_128 d i h \<longleftrightarrow> g = h"
  by (cases g; cases h) (auto simp: body_x64_128_def Let_def step_inject
      simp del: distrib_right_numeral distrib_left_numeral)

lemma body_x64_128_inject_block:
  "body_x64_128 d i h = body_x64_128 e i h \<longleftrightarrow>
     getblock64 d (2 * i) = getblock64 e (2 * i) \<and>
     getblock64 d (2 * i + 1) = getblock64 e (2 * i + 1)"
  by (cases h) (auto simp: body_x64_128_def Let_def step_inject mult.commute [of i]
      simp del: distrib_right_numeral distrib_left_numeral)

lemma tail_x64_128_inject:
  "tail_x64_128 t n g = tail_x64_128 t n h \<longleftrightarrow> g = h"
  by (cases g; cases h) (auto simp: tail_x64_128_def Let_def step_inject
      simp del: distrib_right_numeral distrib_left_numeral)

lemma cross_add2_inject: "cross_add2 g = cross_add2 h \<longleftrightarrow> g = h"
proof (rule inj_eq, rule inj_on_inverseI [where g = "\<lambda>(x, y). (x - (y - x), y - x)"])
  show "(case cross_add2 g of (x, y) \<Rightarrow> (x - (y - x), y - x)) = g" for g
    by (cases g) (simp add: cross_add2_def)
qed

lemma final_x64_128_inject:
  "final_x64_128 n g = final_x64_128 n h \<longleftrightarrow> g = h"
proof -
  obtain a b c d where gh: "g = (a, b)" "h = (c, d)"
    by (cases g; cases h)
  obtain a' b' c' d' where "cross_add2 (a XOR of_nat n, b XOR of_nat n) = (a', b')"
    "cross_add2 (c XOR of_nat n, d XOR of_nat n) = (c', d')"
    by (cases "cross_add2 (a XOR of_nat n, b XOR of_nat n)";
        cases "cross_add2 (c XOR of_nat n, d XOR of_nat n)")
  then show ?thesis
    using cross_add2_inject [of "(a XOR of_nat n, b XOR of_nat n)" "(c XOR of_nat n, d XOR of_nat n)"]
    by (simp add: gh final_x64_128_def cross_add2_inject step_inject)
qed

lemma body_x86_32_inject_state: "body_x86_32 d i g = body_x86_32 d i h \<longleftrightarrow> g = h"
  by (simp add: body_x86_32_def Let_def step_inject
      del: distrib_right_numeral distrib_left_numeral)

lemma body_x86_32_inject_block:
  "body_x86_32 d i h = body_x86_32 e i h \<longleftrightarrow> getblock32 d i = getblock32 e i"
  by (simp add: body_x86_32_def Let_def step_inject
      del: distrib_right_numeral distrib_left_numeral)

lemma tail_x86_32_inject: "tail_x86_32 t n g = tail_x86_32 t n h \<longleftrightarrow> g = h"
  by (simp add: tail_x86_32_def Let_def step_inject
      del: distrib_right_numeral distrib_left_numeral)

lemma body_x86_128_inject_state:
  "body_x86_128 d i g = body_x86_128 d i h \<longleftrightarrow> g = h"
  by (cases g; cases h) (auto simp: body_x86_128_def Let_def step_inject
      simp del: distrib_right_numeral distrib_left_numeral)

lemma body_x86_128_inject_block:
  "body_x86_128 d i h = body_x86_128 e i h \<longleftrightarrow>
     getblock32 d (4 * i) = getblock32 e (4 * i) \<and>
     getblock32 d (4 * i + 1) = getblock32 e (4 * i + 1) \<and>
     getblock32 d (4 * i + 2) = getblock32 e (4 * i + 2) \<and>
     getblock32 d (4 * i + 3) = getblock32 e (4 * i + 3)"
  by (cases h) (auto simp: body_x86_128_def Let_def step_inject mult.commute [of i]
      simp del: distrib_right_numeral distrib_left_numeral)

lemma tail_x86_128_inject:
  "tail_x86_128 t n g = tail_x86_128 t n h \<longleftrightarrow> g = h"
  by (cases g; cases h) (auto simp: tail_x86_128_def Let_def step_inject
      simp del: distrib_right_numeral distrib_left_numeral)

lemma cross_add4_inject: "cross_add4 g = cross_add4 h \<longleftrightarrow> g = h"
proof (rule inj_eq, rule inj_on_inverseI
    [where g = "\<lambda>(x, y, z, w). (x - (y - x) - (z - x) - (w - x), y - x, z - x, w - x)"])
  show "(case cross_add4 g of (x, y, z, w) \<Rightarrow>
      (x - (y - x) - (z - x) - (w - x), y - x, z - x, w - x)) = g" for g
    by (cases g) (simp add: cross_add4_def Let_def)
qed

lemma final_x86_128_inject:
  "final_x86_128 n g = final_x86_128 n h \<longleftrightarrow> g = h"
proof -
  define k :: u32 where "k = of_nat n"
  obtain a1 a2 a3 a4 b1 b2 b3 b4 where gh: "g = (a1, a2, a3, a4)" "h = (b1, b2, b3, b4)"
    by (metis prod_cases4)
  obtain a1' a2' a3' a4' b1' b2' b3' b4' where
    "cross_add4 (a1 XOR k, a2 XOR k, a3 XOR k, a4 XOR k) = (a1', a2', a3', a4')"
    "cross_add4 (b1 XOR k, b2 XOR k, b3 XOR k, b4 XOR k) = (b1', b2', b3', b4')"
    by (metis prod_cases4)
  then show ?thesis
    using cross_add4_inject [of "(a1 XOR k, a2 XOR k, a3 XOR k, a4 XOR k)"
        "(b1 XOR k, b2 XOR k, b3 XOR k, b4 XOR k)"]
    by (simp add: gh final_x86_128_def cross_add4_inject step_inject k_def [symmetric])
qed


section \<open>The tail reads the remaining bytes in little-endian order\<close>

lemma bit_tail_byte:
  fixes k :: "'w::len word"
  shows "bit (tail_byte tail len15 i (8 * j) k) n \<longleftrightarrow>
    (bit k n \<noteq> (i < len15 \<and> n div 8 = j \<and> n < LENGTH('w) \<and> bit (tail ! i) (n mod 8)))"
proof (cases "8 * j \<le> n")
  case True
  show ?thesis
  proof (cases "n - 8 * j < 8")
    case True
    then have "n div 8 = j"
      using \<open>8 * j \<le> n\<close> by (intro div_nat_eqI) auto
    then have "n mod 8 = n - 8 * j"
      by (metis minus_mult_div_eq_mod)
    note \<open>n div 8 = j\<close> this
    with \<open>8 * j \<le> n\<close> show ?thesis
      by (auto simp: tail_byte_def bit_simps dest: bit_imp_le_length)
  next
    case False
    then have "n div 8 \<noteq> j"
      using \<open>8 * j \<le> n\<close> by linarith
    moreover have "\<not> bit (tail ! i) (n - 8 * j)"
      using False bit_imp_le_length [of "tail ! i" "n - 8 * j"] by auto
    ultimately show ?thesis
      by (simp add: tail_byte_def bit_simps)
  qed
next
  case False
  then have "n div 8 \<noteq> j"
    by linarith
  with False show ?thesis
    by (simp add: tail_byte_def bit_simps)
qed

lemma bit_tail_bytes:
  fixes k :: "'w::len word"
  assumes "distinct js"
  shows "bit (fold (\<lambda>j. tail_byte tail len15 (off + j) (8 * j)) js k) n \<longleftrightarrow>
    (bit k n \<noteq> (n div 8 \<in> set js \<and> off + n div 8 < len15 \<and> n < LENGTH('w) \<and>
      bit (tail ! (off + n div 8)) (n mod 8)))"
  using assms by (induction js arbitrary: k) (auto simp: bit_tail_byte)

lemma tail_bytes_le_word:
  assumes "distinct js" "set js = {..<m}" "len15 = length tail"
  shows "fold (\<lambda>j. tail_byte tail len15 (off + j) (8 * j)) js 0 =
    (le_word (take m (drop off tail)) :: 'w::len word)"
proof (rule bit_word_eqI)
  fix n
  assume "n < LENGTH('w)"
  then have "bit (fold (\<lambda>j. tail_byte tail len15 (off + j) (8 * j)) js (0 :: 'w word)) n \<longleftrightarrow>
      n div 8 < m \<and> off + n div 8 < length tail \<and> bit (tail ! (off + n div 8)) (n mod 8)"
    by (auto simp: bit_tail_bytes [OF assms(1)] assms(2,3))
  moreover have "bit (le_word (take m (drop off tail)) :: 'w word) n \<longleftrightarrow>
      n div 8 < m \<and> off + n div 8 < length tail \<and> bit (tail ! (off + n div 8)) (n mod 8)"
    using \<open>n < LENGTH('w)\<close> by (simp add: bit_le_word) (auto simp: less_diff_conv add.commute)
  ultimately show "bit (fold (\<lambda>j. tail_byte tail len15 (off + j) (8 * j)) js (0 :: 'w word)) n =
      bit (le_word (take m (drop off tail)) :: 'w word) n"
    by simp
qed

lemma tail_x64_128_words:
  assumes len: "len15 = length tail" "len15 < 16"
  shows "tail_x64_128 tail len15 (h1, h2) =
    (if 1 \<le> len15 then h1 XOR mix1_x64_128 (le_word (take 8 tail)) else h1,
     if 9 \<le> len15 then h2 XOR mix2_x64_128 (le_word (drop 8 tail)) else h2)"
proof -
  have "fold (\<lambda>j. tail_byte tail len15 (0 + j) (8 * j)) [7, 6, 5, 4, 3, 2, 1, 0] 0 =
      (le_word (take 8 (drop 0 tail)) :: u64)"
    by (rule tail_bytes_le_word) (use len in auto)
  moreover have "fold (\<lambda>j. tail_byte tail len15 (8 + j) (8 * j)) [6, 5, 4, 3, 2, 1, 0] 0 =
      (le_word (take 7 (drop 8 tail)) :: u64)"
    by (rule tail_bytes_le_word) (use len in auto)
  moreover have "take 7 (drop 8 tail) = drop 8 tail"
    using len by simp
  ultimately show ?thesis
    by (simp add: tail_x64_128_def Let_def)
qed

section \<open>One differing block in the 32-bit variants\<close>

lemma getblock64_outside:
  assumes "length x = length y" "8 * i + 8 \<le> length p \<or> length p + length x \<le> 8 * i"
  shows "getblock64 (p @ x @ s) i = getblock64 (p @ y @ s) i"
  using window_outside [OF assms] by (simp add: getblock64_def)

lemma getblock32_outside:
  assumes "length x = length y" "4 * i + 4 \<le> length p \<or> length p + length x \<le> 4 * i"
  shows "getblock32 (p @ x @ s) i = getblock32 (p @ y @ s) i"
  using window_outside [OF assms] by (simp add: getblock32_def)

lemma x86_32_block_injective:
  assumes p: "4 dvd length p" and x: "length x = 4" and y: "length y = 4"
  shows "MurmurHash3_x86_32 (p @ x @ s) seed = MurmurHash3_x86_32 (p @ y @ s) seed \<longleftrightarrow> x = y"
proof -
  define d e n k where "d = p @ x @ s" and "e = p @ y @ s"
    and "n = length d div 4" and "k = length p div 4"
  have len: "length e = length d" "length p = 4 * k" "k < n"
    using p x y by (auto simp: d_def e_def n_def k_def)
  have same: "body_x86_32 d i = body_x86_32 e i" if "i \<noteq> k" for i
  proof -
    have "4 * i + 4 \<le> length p \<or> length p + length x \<le> 4 * i"
      using that len x by arith
    then have "getblock32 d i = getblock32 e i"
      unfolding d_def e_def by (intro getblock32_outside) (use x y in auto)
    then show ?thesis
      by (intro ext) (simp add: body_x86_32_inject_block)
  qed
  have block: "getblock32 (p @ z @ s) k = le_word z" if "length z = 4" for z
    using len that by (simp add: getblock32_def)
  have "MurmurHash3_x86_32 d seed = MurmurHash3_x86_32 e seed \<longleftrightarrow>
      fold (body_x86_32 d) [0..<n] seed = fold (body_x86_32 e) [0..<n] seed"
    using len x y by (simp add: MurmurHash3_x86_32_def Let_def step_inject tail_x86_32_inject
        n_def [symmetric]) (simp add: d_def e_def tail_x86_32_inject)
  also have "\<dots> \<longleftrightarrow> getblock32 d k = getblock32 e k"
    using fold_cong_except [OF \<open>k < n\<close> same body_x86_32_inject_state]
    by (simp add: body_x86_32_inject_block)
  also have "\<dots> \<longleftrightarrow> x = y"
    using x y by (simp only: d_def e_def block) (simp add: le_word_inject)
  finally show ?thesis
    by (simp add: d_def e_def)
qed

lemma x86_128_block_injective:
  assumes p: "16 dvd length p" and x: "length x = 16" and y: "length y = 16"
  shows "MurmurHash3_x86_128 (p @ x @ s) seed = MurmurHash3_x86_128 (p @ y @ s) seed \<longleftrightarrow> x = y"
proof -
  define d e n k where "d = p @ x @ s" and "e = p @ y @ s"
    and "n = length d div 16" and "k = length p div 16"
  define words where "words z = map (\<lambda>j. le_word (take 4 (drop (4 * j) z)) :: u32) [0, 1, 2, 3]"
    for z :: "u8 list"
  have len: "length e = length d" "length p = 16 * k" "k < n"
    using p x y by (auto simp: d_def e_def n_def k_def)
  have same: "body_x86_128 d i = body_x86_128 e i" if "i \<noteq> k" for i
  proof -
    have "16 * i + 16 \<le> length p \<or> length p + length x \<le> 16 * i"
      using that len x by arith
    then have "getblock32 d (4 * i + j) = getblock32 e (4 * i + j)" if "j < 4" for j
      unfolding d_def e_def by (intro getblock32_outside) (use x y that in auto)
    from this [of 0] this [of 1] this [of 2] this [of 3] show ?thesis
      by (intro ext) (simp add: body_x86_128_inject_block)
  qed
  have block: "getblock32 (p @ z @ s) (4 * k + j) = le_word (take 4 (drop (4 * j) z))"
    if "length z = 16" "j < 4" for z j
    using len that by (simp add: getblock32_def)
  have "MurmurHash3_x86_128 d seed = MurmurHash3_x86_128 e seed \<longleftrightarrow>
      fold (body_x86_128 d) [0..<n] (seed, seed, seed, seed) =
      fold (body_x86_128 e) [0..<n] (seed, seed, seed, seed)"
    using len x y by (simp add: MurmurHash3_x86_128_def Let_def final_x86_128_inject
        tail_x86_128_inject n_def [symmetric]) (simp add: d_def e_def tail_x86_128_inject)
  also have "\<dots> \<longleftrightarrow> words x = words y"
    using fold_cong_except [OF \<open>k < n\<close> same body_x86_128_inject_state]
      block [OF x, of 0] block [OF x, of 1] block [OF x, of 2] block [OF x, of 3]
      block [OF y, of 0] block [OF y, of 1] block [OF y, of 2] block [OF y, of 3]
    by (simp add: body_x86_128_inject_block words_def d_def e_def)
  also have "\<dots> \<longleftrightarrow> (\<forall>j\<in>{0, 1, 2, 3}. take 4 (drop (4 * j) x) = take 4 (drop (4 * j) y))"
    using x y by (simp add: words_def le_word_inject)
  also have "\<dots> \<longleftrightarrow> x = y"
  proof
    assume eq: "\<forall>j\<in>{0, 1, 2, 3}. take 4 (drop (4 * j) x) = take 4 (drop (4 * j) y)"
    show "x = y"
    proof (rule nth_equalityI)
      fix i
      assume "i < length x"
      then have "i div 4 \<in> {0, 1, 2, 3}" using x by auto
      then have "take 4 (drop (4 * (i div 4)) x) = take 4 (drop (4 * (i div 4)) y)"
        using eq by blast
      then have "take 4 (drop (4 * (i div 4)) x) ! (i mod 4) = take 4 (drop (4 * (i div 4)) y) ! (i mod 4)"
        by (rule arg_cong)
      then show "x ! i = y ! i"
        using x y \<open>i < length x\<close> by simp
    qed (simp add: x y)
  qed simp
  finally show ?thesis
    by (simp add: d_def e_def)
qed

text \<open>A known answer, as a check of the translation.\<close>

lemma MurmurHash3_x64_128_hello:
  "MurmurHash3_x64_128 [104, 101, 108, 108, 111] 0 = (0xcbd8a7b341bd9b02, 0x5b1e906a48ae1d19)"
  by code_simp

section \<open>Properties\<close>

text \<open>C37: two keys that differ in one aligned 16-byte block, and nowhere else, never have the same
  \<open>MurmurHash3_x64_128\<close>, whatever surrounds the block and whatever the seed.\<close>

theorem MurmurHash3_x64_128_block_injective:
  assumes p: "16 dvd length p" and x: "length x = 16" and y: "length y = 16"
  shows "MurmurHash3_x64_128 (p @ x @ s) seed = MurmurHash3_x64_128 (p @ y @ s) seed \<longleftrightarrow> x = y"
proof -
  define d e n k where "d = p @ x @ s" and "e = p @ y @ s"
    and "n = length d div 16" and "k = length p div 16"
  have len: "length e = length d" "length p = 16 * k" "k < n"
    using p x y by (auto simp: d_def e_def n_def k_def)
  have same: "body_x64_128 d i = body_x64_128 e i" if "i \<noteq> k" for i
  proof -
    have "16 * i + 16 \<le> length p \<or> length p + length x \<le> 16 * i"
      using that len x by arith
    then have "getblock64 d (2 * i) = getblock64 e (2 * i) \<and>
        getblock64 d (2 * i + 1) = getblock64 e (2 * i + 1)"
      unfolding d_def e_def by (intro conjI getblock64_outside) (use x y in auto)
    then show ?thesis
      by (intro ext) (simp add: body_x64_128_inject_block)
  qed
  have block: "getblock64 (p @ z @ s) (2 * k) = le_word (take 8 z)"
    "getblock64 (p @ z @ s) (2 * k + 1) = le_word (drop 8 z)" if "length z = 16" for z
    using len that by (simp_all add: getblock64_def)
  have tail: "drop (n * 16) d = drop (n * 16) e"
    using len x y by (simp add: d_def e_def)
  have "MurmurHash3_x64_128 d seed = MurmurHash3_x64_128 e seed \<longleftrightarrow>
      fold (body_x64_128 d) [0..<n] (ucast seed, ucast seed) =
      fold (body_x64_128 e) [0..<n] (ucast seed, ucast seed)"
    by (simp add: MurmurHash3_x64_128_def Let_def final_x64_128_inject tail_x64_128_inject
        tail len n_def [symmetric])
  also have "\<dots> \<longleftrightarrow> getblock64 d (2 * k) = getblock64 e (2 * k) \<and>
        getblock64 d (2 * k + 1) = getblock64 e (2 * k + 1)"
    using fold_cong_except [OF \<open>k < n\<close> same body_x64_128_inject_state]
    by (simp add: body_x64_128_inject_block)
  also have "\<dots> \<longleftrightarrow> take 8 x = take 8 y \<and> drop 8 x = drop 8 y"
    using x y by (simp only: d_def e_def block) (simp add: le_word_inject)
  also have "\<dots> \<longleftrightarrow> x = y"
    by (metis append_take_drop_id)
  finally show ?thesis
    by (simp add: d_def e_def)
qed

theorem MurmurHash3_x64_128_block_injective_witness:
  "MurmurHash3_x64_128 ([] @ replicate 16 1 @ [7]) 0 \<noteq> MurmurHash3_x64_128 ([] @ replicate 16 2 @ [7]) 0"
  using MurmurHash3_x64_128_block_injective [of "[]" "replicate 16 1" "replicate 16 2" "[7]" 0] by simp


text \<open>Two keys of the same length that differ only in the bytes behind the last full block
  never have the same \<open>MurmurHash3_x64_128\<close>; in particular no two keys of one length below 16
  bytes collide.\<close>

theorem MurmurHash3_x64_128_tail_injective:
  assumes p: "16 dvd length p" and len: "length x = length y" "length x < 16"
  shows "MurmurHash3_x64_128 (p @ x) seed = MurmurHash3_x64_128 (p @ y) seed \<longleftrightarrow> x = y"
proof -
  define n h where "n = length p div 16"
    and "h = fold (body_x64_128 (p @ x)) [0..<n] (ucast seed, ucast seed)"
  have n: "length (p @ z) div 16 = n" "length (p @ z) mod 16 = length z"
      "drop (n * 16) (p @ z) = z" if "length z < 16" for z :: "u8 list"
    using p that by (auto simp: n_def)
  have "fold (body_x64_128 (p @ y)) [0..<n] (ucast seed, ucast seed) = h"
    unfolding h_def
  proof (intro fold_cong ext)
    fix i g
    assume "i \<in> set [0..<n]"
    then have "16 * i + 16 \<le> length p"
      by (auto simp: n_def)
    then have "getblock64 (p @ y @ []) (2 * i) = getblock64 (p @ x @ []) (2 * i) \<and>
        getblock64 (p @ y @ []) (2 * i + 1) = getblock64 (p @ x @ []) (2 * i + 1)"
      by (intro conjI getblock64_outside) (use len in auto)
    then show "body_x64_128 (p @ y) i g = body_x64_128 (p @ x) i g"
      by (simp add: body_x64_128_inject_block)
  qed simp_all
  then have "MurmurHash3_x64_128 (p @ x) seed = MurmurHash3_x64_128 (p @ y) seed \<longleftrightarrow>
      tail_x64_128 x (length x) h = tail_x64_128 y (length x) h"
    using len by (simp add: MurmurHash3_x64_128_def Let_def n final_x64_128_inject h_def [symmetric]
        del: length_append drop_append) (simp add: final_x64_128_inject)
  also have "\<dots> \<longleftrightarrow> take 8 x = take 8 y \<and> drop 8 x = drop 8 y"
    using len by (cases h) (auto simp: tail_x64_128_words step_inject le_word_inject Suc_le_eq)
  also have "\<dots> \<longleftrightarrow> x = y"
    by (metis append_take_drop_id)
  finally show ?thesis .
qed

theorem MurmurHash3_x64_128_tail_injective_witness:
  "MurmurHash3_x64_128 ([] @ [1, 2, 3]) 0 \<noteq> MurmurHash3_x64_128 ([] @ [1, 2, 4]) 0"
  using MurmurHash3_x64_128_tail_injective [of "[]" "[1, 2, 3]" "[1, 2, 4]" 0] by simp

text \<open>The same block property for the two 32-bit variants: keys that differ in one aligned block
  (4 bytes for \<open>MurmurHash3_x86_32\<close>, 16 for \<open>MurmurHash3_x86_128\<close>) have different hashes.\<close>

theorem MurmurHash3_x86_block_injective:
  assumes "4 dvd length p" "length x = 4" "length y = 4"
    and "16 dvd length q" "length u = 16" "length v = 16"
  shows "(MurmurHash3_x86_32 (p @ x @ s) seed = MurmurHash3_x86_32 (p @ y @ s) seed \<longleftrightarrow> x = y) \<and>
    (MurmurHash3_x86_128 (q @ u @ s) seed = MurmurHash3_x86_128 (q @ v @ s) seed \<longleftrightarrow> u = v)"
proof
  show "MurmurHash3_x86_32 (p @ x @ s) seed = MurmurHash3_x86_32 (p @ y @ s) seed \<longleftrightarrow> x = y"
    by (rule x86_32_block_injective) (use assms in auto)
  show "MurmurHash3_x86_128 (q @ u @ s) seed = MurmurHash3_x86_128 (q @ v @ s) seed \<longleftrightarrow> u = v"
    by (rule x86_128_block_injective) (use assms in auto)
qed

theorem MurmurHash3_x86_block_injective_witness:
  "MurmurHash3_x86_32 ([] @ [1, 2, 3, 4] @ []) 0 \<noteq> MurmurHash3_x86_32 ([] @ [1, 2, 3, 5] @ []) 0 \<and>
   MurmurHash3_x86_128 ([] @ replicate 16 1 @ []) 0 \<noteq> MurmurHash3_x86_128 ([] @ replicate 16 2 @ []) 0"
  using MurmurHash3_x86_block_injective [of "[]" "[1, 2, 3, 4]" "[1, 2, 3, 5]"
      "[]" "replicate 16 1" "replicate 16 2" "[]" 0] by simp

end
