(* ===== verification/L4_ReadWrite.thy ===== *)
theory L4_ReadWrite
  imports L4_SharedHashTable L4_Murmur
begin

text \<open>
  The lock-free-read hash table of \<open>inc/L4/HashTable/ReadWrite/HashTable.h\<close>: \<open>Get\<close> of
  \<open>ReadOnlyHashTable\<close>, \<open>Add\<close> and \<open>Remove\<close> of \<open>WritableHashTable\<close>, with the records in byte buffers
  of the heap and the performance counters. The definitions come first, then the invariant
  \<open>table_ok\<close>, the abstract map \<open>table_map\<close> and what the loops compute; the operations are proved
  correct against the map in \<open>L4_TableOps\<close>.
\<close>

section \<open>State\<close>

text \<open>
  The table, the heap its buffers live in, and the state \<open>'e\<close> of the epoch action manager that
  the table was constructed with. \<open>RegisterAction\<close> is called with one kind of action only, the
  deallocation of a record buffer, so an action is the address of the buffer. An operation
  returns its outcome with the new state, because a state change before an exception stays.
\<close>

record 'e World =
  heap :: memory
  table :: SharedHashTable
  manager :: 'e

type_synonym 'e reg = "addr \<Rightarrow> 'e \<Rightarrow> unit res \<times> 'e"

definition load_record :: "RecordSerializer \<Rightarrow> memory \<Rightarrow> addr \<Rightarrow> Record res" where
  "load_record rs h a = (case h a of None \<Rightarrow> Inl BadAccess | Some buf \<Rightarrow> Deserialize rs buf)"

text \<open>The serializer that \<open>ReadOnlyHashTable\<close> makes from the table's setting by default.\<close>

definition default_serializer :: "SharedHashTable \<Rightarrow> RecordSerializer" where
  "default_serializer T = \<lparr>m_fixedKeySize = s_fixedKeySize (m_setting T),
     m_fixedValueSize = s_fixedValueSize (m_setting T), m_metadataSize = 0\<rparr>"

definition GetBucketInfo :: "SharedHashTable \<Rightarrow> Key \<Rightarrow> u32 \<times> u8" where
  "GetBucketInfo T key =
     (let (h0, h1) = MurmurHash3_x64_128 key 0
      in (ucast (h0 mod of_nat (length (m_buckets T))), ucast h1))"

section \<open>Look-up\<close>

text \<open>
  The two nested loops that \<open>Get\<close> and \<open>Remove\<close> share: over the data of an entry, and along the
  chain. The result is the position of the record, entry and index, and its value.
\<close>

fun find_entry ::
  "RecordSerializer \<Rightarrow> memory \<Rightarrow> u8 \<Rightarrow> Key \<Rightarrow> addr Entry \<Rightarrow> nat list \<Rightarrow> (nat \<times> Value) option res" where
  "find_entry rs h tag key e [] = Inr None"
| "find_entry rs h tag key e (i # is) =
     (if tag = m_tags e ! i then
        case m_dataList e ! i of
          None \<Rightarrow> find_entry rs h tag key e is
        | Some data \<Rightarrow> bind_res (load_record rs h data) (\<lambda>r.
            if Blob_eq (m_key r) key then Inr (Some (i, m_value r))
            else find_entry rs h tag key e is)
      else find_entry rs h tag key e is)"

fun find_chain ::
  "RecordSerializer \<Rightarrow> memory \<Rightarrow> u8 \<Rightarrow> Key \<Rightarrow> nat \<Rightarrow> addr Entry list \<Rightarrow> (nat \<times> nat \<times> Value) option res" where
  "find_chain rs h tag key j [] = Inr None"
| "find_chain rs h tag key j (e # es) =
     bind_res (find_entry rs h tag key e [0..<c_numDataPerEntry]) (\<lambda>found. case found of
       Some (i, v) \<Rightarrow> Inr (Some (j, i, v))
     | None \<Rightarrow> find_chain rs h tag key (Suc j) es)"

text \<open>\<open>Get\<close> returns \<open>Some\<close> of the value for true, \<open>None\<close> for false.\<close>

definition Get :: "RecordSerializer \<Rightarrow> 'e World \<Rightarrow> Key \<Rightarrow> Value option res" where
  "Get rs W key =
     (let (b, tag) = GetBucketInfo (table W) key
      in bind_res (bucket_at (table W) (unat b)) (\<lambda>chain.
         bind_res (find_chain rs (heap W) tag key 0 chain) (\<lambda>found.
         Inr (map_option (\<lambda>(j, i, v). v) found))))"

section \<open>Statistics of an operation\<close>

record Stat =
  st_keySize :: u16
  st_valueSize :: u32
  st_oldValueSize :: u32
  st_chainIndex :: u32
  st_isNewEntryAdded :: bool

definition Stat_new :: "u16 \<Rightarrow> u32 \<Rightarrow> u32 \<Rightarrow> Stat" where
  "Stat_new ks vs old = \<lparr>st_keySize = ks, st_valueSize = vs, st_oldValueSize = old,
     st_chainIndex = 0, st_isNewEntryAdded = False\<rparr>"

definition UpdatePerfDataForAdd ::
  "RecordSerializer \<Rightarrow> Stat \<Rightarrow> HashTablePerfData \<Rightarrow> HashTablePerfData" where
  "UpdatePerfDataForAdd rs stat pd =
     (let pd =
        (if st_oldValueSize stat \<noteq> 0 then
           pc_Add pd TotalValueSize (ucast (st_valueSize stat) - ucast (st_oldValueSize stat))
         else
           let pd = pc_Add pd TotalKeySize (ucast (st_keySize stat));
               pd = pc_Add pd TotalValueSize (ucast (st_valueSize stat));
               pd = pc_Add pd TotalIndexSize (of_nat (CalculateRecordOverhead rs +
                      (if st_isNewEntryAdded stat then sizeof_Entry else 0)));
               pd = pc_Min pd MinKeySize (ucast (st_keySize stat));
               pd = pc_Max pd MaxKeySize (ucast (st_keySize stat));
               pd = pc_Increment pd RecordsCount
           in if st_isNewEntryAdded stat then
                let pd = pc_Increment pd ChainingEntriesCount
                in if st_chainIndex stat > 1
                   then pc_Max pd MaxBucketChainLength (ucast (st_chainIndex stat)) else pd
              else pd);
        pd = pc_Min pd MinValueSize (ucast (st_valueSize stat))
      in pc_Max pd MaxValueSize (ucast (st_valueSize stat)))"

definition UpdatePerfDataForRemove ::
  "RecordSerializer \<Rightarrow> Stat \<Rightarrow> HashTablePerfData \<Rightarrow> HashTablePerfData" where
  "UpdatePerfDataForRemove rs stat pd =
     (let pd = pc_Decrement pd RecordsCount;
          pd = pc_Subtract pd TotalKeySize (ucast (st_keySize stat));
          pd = pc_Subtract pd TotalValueSize (ucast (st_valueSize stat))
      in pc_Subtract pd TotalIndexSize (of_nat (CalculateRecordOverhead rs)))"

section \<open>Changing the table\<close>

text \<open>
  \<open>UpdateRecord\<close> on entry \<open>j\<close> of the chain \<open>es\<close>: the old data pointer, and the chain with the new
  pointer and tag at index \<open>i\<close>.
\<close>

definition UpdateRecord ::
  "addr Entry list \<Rightarrow> nat \<Rightarrow> nat \<Rightarrow> addr option \<Rightarrow> u8 \<Rightarrow> addr option \<times> addr Entry list" where
  "UpdateRecord es j i newRecord newTag =
     (m_dataList (es ! j) ! i, upd_slot es j i newRecord newTag)"

definition set_bucket :: "nat \<Rightarrow> addr Entry list \<Rightarrow> SharedHashTable \<Rightarrow> SharedHashTable" where
  "set_bucket b es T = T\<lparr>m_buckets := (m_buckets T)[b := es]\<rparr>"

definition ReleaseRecord :: "'e reg \<Rightarrow> addr option \<Rightarrow> 'e World \<Rightarrow> unit res \<times> 'e World" where
  "ReleaseRecord reg record W = (case record of
     None \<Rightarrow> (Inr (), W)
   | Some a \<Rightarrow> let (r, m) = reg a (manager W) in (r, W\<lparr>manager := m\<rparr>))"

text \<open>\<open>Remove(entry, index)\<close>, for entry \<open>j\<close> of bucket \<open>b\<close>.\<close>

definition Remove_at ::
  "RecordSerializer \<Rightarrow> 'e reg \<Rightarrow> nat \<Rightarrow> nat \<Rightarrow> nat \<Rightarrow> 'e World \<Rightarrow> unit res \<times> 'e World" where
  "Remove_at rs reg b j i W =
     (let (old, es) = UpdateRecord (m_buckets (table W) ! b) j i None 0;
          W = W\<lparr>table := set_bucket b es (table W)\<rparr>
      in case old of
           None \<Rightarrow> (Inl (AssertFailed ''recordToDelete != nullptr''), W)
         | Some a \<Rightarrow> (case load_record rs (heap W) a of
             Inl e \<Rightarrow> (Inl e, W)
           | Inr r \<Rightarrow>
               let stat = Stat_new (ksize (m_key r)) (vsize (m_value r)) 0;
                   pd = UpdatePerfDataForRemove rs stat (m_perfData (table W))
               in ReleaseRecord reg old (W\<lparr>table := (table W)\<lparr>m_perfData := pd\<rparr>\<rparr>)))"

definition Remove :: "RecordSerializer \<Rightarrow> 'e reg \<Rightarrow> 'e World \<Rightarrow> Key \<Rightarrow> bool res \<times> 'e World" where
  "Remove rs reg W key =
     (let (b, tag) = GetBucketInfo (table W) key
      in case bind_res (bucket_at (table W) (unat b)) (find_chain rs (heap W) tag key 0) of
           Inl e \<Rightarrow> (Inl e, W)
         | Inr None \<Rightarrow> (Inr False, W)
         | Inr (Some (j, i, _)) \<Rightarrow>
             let (r, W') = Remove_at rs reg (unat b) j i W in (bind_res r (\<lambda>_. Inr True), W'))"

text \<open>
  The loops of \<open>Add\<close>. \<open>entryToUpdate\<close> with \<open>curDataIndex\<close> is a position or none. The inner loop
  notes the first free position and stops at the record with the key.
\<close>

fun add_entry ::
  "RecordSerializer \<Rightarrow> memory \<Rightarrow> u8 \<Rightarrow> Key \<Rightarrow> nat \<Rightarrow> addr Entry \<Rightarrow> nat list \<Rightarrow>
    (nat \<times> nat) option \<Rightarrow> u32 \<Rightarrow> ((nat \<times> nat) option \<times> u32) res" where
  "add_entry rs h tag key j e [] upd old = Inr (upd, old)"
| "add_entry rs h tag key j e (i # is) upd old =
     (case m_dataList e ! i of
        None \<Rightarrow> add_entry rs h tag key j e is (if upd = None then Some (j, i) else upd) old
      | Some data \<Rightarrow>
          if m_tags e ! i = tag then
            bind_res (load_record rs h data) (\<lambda>r.
              if Blob_eq key (m_key r) then Inr (Some (j, i), vsize (m_value r))
              else add_entry rs h tag key j e is upd old)
          else add_entry rs h tag key j e is upd old)"

lemma add_entry_keeps: "add_entry rs h tag key j e is (Some p) old \<noteq> Inr (None, old')"
  by (induction "is" arbitrary: old p)
    (auto simp: bind_res_Inr_iff split: option.splits if_splits)

lemma add_entry_None:
  "add_entry rs h tag key j e is upd old = Inr (None, old') \<Longrightarrow>
    i \<in> set is \<Longrightarrow> m_dataList e ! i \<noteq> None"
  by (induction "is" arbitrary: upd)
    (auto simp: bind_res_Inr_iff add_entry_keeps split: option.splits if_splits)

text \<open>
  The outer loop. At the end of the chain with no position found, a new entry is linked, and the
  next round visits it.
\<close>

definition has_free :: "'d Entry \<Rightarrow> bool" where
  "has_free e \<longleftrightarrow> (\<exists>i\<in>set [0..<c_numDataPerEntry]. m_dataList e ! i = None)"

lemma has_free_new [simp]: "has_free new_Entry"
  by (simp add: has_free_def new_Entry_def c_numDataPerEntry_def) (rule exI [of _ 0], simp)

lemma add_entry_full:
  "add_entry rs h tag key j e [0..<c_numDataPerEntry] upd old = Inr (None, old') \<Longrightarrow> \<not> has_free e"
  unfolding has_free_def by (meson add_entry_None)

function add_chain ::
  "RecordSerializer \<Rightarrow> memory \<Rightarrow> u8 \<Rightarrow> Key \<Rightarrow> nat \<Rightarrow> addr Entry list \<Rightarrow> Stat \<Rightarrow>
    (nat \<times> nat) option \<Rightarrow> (Stat \<times> (nat \<times> nat) option) res" where
  "add_chain rs h tag key j [] stat upd = Inr (stat, upd)"
| "add_chain rs h tag key j (e # es) stat upd =
     (let stat = stat\<lparr>st_chainIndex := st_chainIndex stat + 1\<rparr>
      in case add_entry rs h tag key j e [0..<c_numDataPerEntry] upd (st_oldValueSize stat) of
           Inl err \<Rightarrow> Inl err
         | Inr (upd, old) \<Rightarrow>
             let stat = stat\<lparr>st_oldValueSize := old\<rparr>
             in if old \<noteq> 0 then Inr (stat, upd)
                else if upd = None \<and> es = [] then
                  add_chain rs h tag key (Suc j) [new_Entry] (stat\<lparr>st_isNewEntryAdded := True\<rparr>) upd
                else add_chain rs h tag key (Suc j) es stat upd)"
  by pat_completeness auto
termination
  by (relation "measure (\<lambda>(rs, h, tag, key, j, es, stat, upd).
        2 * length es + (if \<exists>e\<in>set es. has_free e then 0 else 1))")
    (auto dest: add_entry_full)

declare add_chain.simps(2) [simp del]

text \<open>\<open>Add(recordToAdd)\<close>.\<close>

definition Add_record :: "RecordSerializer \<Rightarrow> 'e reg \<Rightarrow> addr \<Rightarrow> 'e World \<Rightarrow> unit res \<times> 'e World" where
  "Add_record rs reg recordToAdd W =
     (case load_record rs (heap W) recordToAdd of
        Inl e \<Rightarrow> (Inl e, W)
      | Inr newRecord \<Rightarrow>
          let (b, tag) = GetBucketInfo (table W) (m_key newRecord);
              stat = Stat_new (ksize (m_key newRecord)) (vsize (m_value newRecord)) 0
          in case bucket_at (table W) (unat b) of
               Inl e \<Rightarrow> (Inl e, W)
             | Inr chain \<Rightarrow>
          case add_chain rs (heap W) tag (m_key newRecord) 0 chain stat None of
               Inl e \<Rightarrow> (Inl e, W)
             | Inr (stat, upd) \<Rightarrow>
          let chain = (if st_isNewEntryAdded stat then chain @ [new_Entry] else chain)
          in case upd of
               None \<Rightarrow> (Inl (AssertFailed ''entryToUpdate != nullptr''),
                 W\<lparr>table := set_bucket (unat b) chain (table W)\<rparr>)
             | Some (j, i) \<Rightarrow>
          let (recordToDelete, chain) = UpdateRecord chain j i (Some recordToAdd) tag;
              T = set_bucket (unat b) chain (table W);
              T = T\<lparr>m_perfData := UpdatePerfDataForAdd rs stat (m_perfData T)\<rparr>
          in ReleaseRecord reg recordToDelete (W\<lparr>table := T\<rparr>))"

text \<open>
  \<open>CreateRecordBuffer\<close>: the buffer is allocated first, so it stays allocated when \<open>Serialize\<close>
  throws.
\<close>

definition CreateRecordBuffer ::
  "RecordSerializer \<Rightarrow> allocator \<Rightarrow> Key \<Rightarrow> Value \<Rightarrow> memory \<Rightarrow> addr res \<times> memory" where
  "CreateRecordBuffer rs alloc key value h =
     (let bufferSize = CalculateBufferSize rs key value;
          (a, content) = alloc h (unat bufferSize);
          h = h(a \<mapsto> content)
      in case Serialize rs key value content bufferSize of
           Inl e \<Rightarrow> (Inl e, h)
         | Inr buf \<Rightarrow> (Inr a, h(a \<mapsto> buf)))"

definition Add :: "RecordSerializer \<Rightarrow> allocator \<Rightarrow> 'e reg \<Rightarrow> 'e World \<Rightarrow> Key \<Rightarrow> Value \<Rightarrow> unit res \<times> 'e World" where
  "Add rs alloc reg W key value =
     (let (r, h) = CreateRecordBuffer rs alloc key value (heap W);
          W = W\<lparr>heap := h\<rparr>
      in case r of Inl e \<Rightarrow> (Inl e, W) | Inr a \<Rightarrow> Add_record rs reg a W)"

end
