(* ===== verification/L4_TableOps.thy ===== *)
theory L4_TableOps
  imports L4_ReadWrite
begin

text \<open>
  The correctness of the hash table operations: the invariant \<open>table_ok\<close>, the abstract map
  \<open>table_map\<close> from keys to values that a table stands for, what the look-up and insertion loops
  compute, and the operations against the map.
\<close>

section \<open>Abstraction and invariant\<close>

definition rec_of :: "RecordSerializer \<Rightarrow> memory \<Rightarrow> addr \<Rightarrow> (Key \<times> Value) list" where
  "rec_of rs h a = (case load_record rs h a of Inl _ \<Rightarrow> [] | Inr r \<Rightarrow> [(m_key r, m_value r)])"

definition slots_kvs :: "RecordSerializer \<Rightarrow> memory \<Rightarrow> slot list \<Rightarrow> (Key \<times> Value) list" where
  "slots_kvs rs h sl = concat (map (rec_of rs h) (slot_addrs sl))"

definition bucket_kvs :: "RecordSerializer \<Rightarrow> memory \<Rightarrow> addr Entry list \<Rightarrow> (Key \<times> Value) list" where
  "bucket_kvs rs h es = slots_kvs rs h (chain_slots es)"

definition table_kvs :: "RecordSerializer \<Rightarrow> memory \<Rightarrow> SharedHashTable \<Rightarrow> (Key \<times> Value) list" where
  "table_kvs rs h T = concat (map (bucket_kvs rs h) (m_buckets T))"

definition table_map :: "RecordSerializer \<Rightarrow> 'e World \<Rightarrow> Key \<rightharpoonup> Value" where
  "table_map rs W = map_of (table_kvs rs (heap W) (table W))"

text \<open>A slot in bucket \<open>b\<close> is empty or holds a readable record that belongs there, with its tag.\<close>

definition slot_ok :: "RecordSerializer \<Rightarrow> memory \<Rightarrow> SharedHashTable \<Rightarrow> nat \<Rightarrow> slot \<Rightarrow> bool" where
  "slot_ok rs h T b s = (case snd s of None \<Rightarrow> True | Some a \<Rightarrow>
     (case load_record rs h a of Inl _ \<Rightarrow> False
      | Inr r \<Rightarrow> unat (fst (GetBucketInfo T (m_key r))) = b \<and> snd (GetBucketInfo T (m_key r)) = fst s))"

definition bucket_ok :: "RecordSerializer \<Rightarrow> memory \<Rightarrow> SharedHashTable \<Rightarrow> nat \<Rightarrow> addr Entry list \<Rightarrow> bool" where
  "bucket_ok rs h T b es \<longleftrightarrow> chain_ok es \<and> list_all (slot_ok rs h T b) (chain_slots es) \<and>
     distinct (map fst (bucket_kvs rs h es))"

definition table_ok :: "RecordSerializer \<Rightarrow> 'e World \<Rightarrow> bool" where
  "table_ok rs W \<longleftrightarrow> m_buckets (table W) \<noteq> [] \<and> length (m_buckets (table W)) < 2 ^ 32 \<and>
     (\<forall>b < length (m_buckets (table W)).
        bucket_ok rs (heap W) (table W) b (m_buckets (table W) ! b)) \<and>
     distinct (table_addrs (table W)) \<and> finite (dom (heap W))"

lemma slots_kvs_simps [simp]:
  "slots_kvs rs h [] = []"
  "slots_kvs rs h ((t, None) # sl) = slots_kvs rs h sl"
  "slots_kvs rs h ((t, Some a) # sl) = rec_of rs h a @ slots_kvs rs h sl"
  "slots_kvs rs h (sl @ sl') = slots_kvs rs h sl @ slots_kvs rs h sl'"
  by (simp_all add: slots_kvs_def)

lemma rec_of_load: "load_record rs h a = Inr r \<Longrightarrow> rec_of rs h a = [(m_key r, m_value r)]"
  by (simp add: rec_of_def)

lemma in_rec_of: "(k, v) \<in> set (rec_of rs h a) \<longleftrightarrow> load_record rs h a = Inr \<lparr>m_key = k, m_value = v\<rparr>"
proof (cases "load_record rs h a")
  case (Inr r)
  then show ?thesis by (cases r) (auto simp: rec_of_def)
qed (simp add: rec_of_def)

lemma in_slots_kvs: "(k, v) \<in> set (slots_kvs rs h sl) \<longleftrightarrow>
    (\<exists>t a. (t, Some a) \<in> set sl \<and> load_record rs h a = Inr \<lparr>m_key = k, m_value = v\<rparr>)"
  by (auto simp: slots_kvs_def in_slot_addrs in_rec_of) (metis in_rec_of in_slot_addrs)+

text \<open>The bucket of a key is in range.\<close>

lemma GetBucketInfo_length:
  "length (m_buckets T) = length (m_buckets T') \<Longrightarrow> GetBucketInfo T = GetBucketInfo T'"
  by (rule ext) (simp add: GetBucketInfo_def)

lemma GetBucketInfo_range:
  assumes "m_buckets T \<noteq> []" "length (m_buckets T) < 2 ^ 32"
  shows "unat (fst (GetBucketInfo T key)) < length (m_buckets T)"
proof -
  obtain h0 h1 where h: "MurmurHash3_x64_128 key 0 = (h0, h1)"
    by (cases "MurmurHash3_x64_128 key 0")
  have "unat (of_nat (length (m_buckets T)) :: u64) = length (m_buckets T)"
    using assms(2) by (simp add: unat_of_nat)
  then have "unat (h0 mod of_nat (length (m_buckets T))) = unat h0 mod length (m_buckets T)"
    by (simp add: unat_mod)
  moreover have "unat h0 mod length (m_buckets T) < length (m_buckets T)"
    using assms(1) by simp
  ultimately have lt: "unat (h0 mod of_nat (length (m_buckets T))) < length (m_buckets T)"
    by simp
  then have "unat (ucast (h0 mod of_nat (length (m_buckets T))) :: u32) =
      unat (h0 mod of_nat (length (m_buckets T)))"
    using assms(2) by (simp add: unsigned_ucast_eq take_bit_nat_eq_self)
  with lt h show ?thesis
    by (simp add: GetBucketInfo_def)
qed

section \<open>Positions of a key\<close>

definition ematch ::
  "RecordSerializer \<Rightarrow> memory \<Rightarrow> u8 \<Rightarrow> Key \<Rightarrow> addr Entry \<Rightarrow> nat \<Rightarrow> addr \<Rightarrow> Value \<Rightarrow> bool" where
  "ematch rs h tag key e i a v \<longleftrightarrow> m_tags e ! i = tag \<and> m_dataList e ! i = Some a \<and>
     load_record rs h a = Inr \<lparr>m_key = key, m_value = v\<rparr>"

definition match_at ::
  "RecordSerializer \<Rightarrow> memory \<Rightarrow> u8 \<Rightarrow> Key \<Rightarrow> addr Entry list \<Rightarrow> nat \<Rightarrow> nat \<Rightarrow> addr \<Rightarrow> Value \<Rightarrow> bool" where
  "match_at rs h tag key es j i a v \<longleftrightarrow> j < length es \<and> i < c_numDataPerEntry \<and>
     ematch rs h tag key (es ! j) i a v"

definition loads :: "RecordSerializer \<Rightarrow> memory \<Rightarrow> addr Entry \<Rightarrow> bool" where
  "loads rs h e \<longleftrightarrow> (\<forall>i<c_numDataPerEntry. \<forall>a. m_dataList e ! i = Some a \<longrightarrow>
     (\<exists>r. load_record rs h a = Inr r))"

lemma match_at_Cons:
  "match_at rs h tag key (e # es) j i a v \<longleftrightarrow>
    (j = 0 \<and> i < c_numDataPerEntry \<and> ematch rs h tag key e i a v) \<or>
    (\<exists>j'. j = Suc j' \<and> match_at rs h tag key es j' i a v)"
  by (cases j) (auto simp: match_at_def)

lemma match_at_Nil [simp]: "\<not> match_at rs h tag key [] j i a v"
  by (simp add: match_at_def)

lemma loads_new [simp]: "loads rs h new_Entry"
  by (simp add: loads_def new_Entry_def)

lemma no_ematch_new: "i < c_numDataPerEntry \<Longrightarrow> \<not> ematch rs h tag key new_Entry i a v"
  by (simp add: ematch_def new_Entry_def)

lemma find_entry_spec:
  assumes "\<forall>i\<in>set is. \<forall>a. m_dataList e ! i = Some a \<longrightarrow> (\<exists>r. load_record rs h a = Inr r)"
  shows "(\<exists>i\<in>set is. \<exists>a v. ematch rs h tag key e i a v \<and>
      find_entry rs h tag key e is = Inr (Some (i, v))) \<or>
    ((\<forall>i\<in>set is. \<forall>a v. \<not> ematch rs h tag key e i a v) \<and>
      find_entry rs h tag key e is = Inr None)"
  using assms
proof (induction "is")
  case Nil
  then show ?case by simp
next
  case (Cons i "is")
  have IH: "(\<exists>i\<in>set is. \<exists>a v. ematch rs h tag key e i a v \<and>
      find_entry rs h tag key e is = Inr (Some (i, v))) \<or>
    ((\<forall>i\<in>set is. \<forall>a v. \<not> ematch rs h tag key e i a v) \<and>
      find_entry rs h tag key e is = Inr None)"
    using Cons by simp
  show ?case
  proof (cases "\<exists>a v. ematch rs h tag key e i a v")
    case True
    then show ?thesis by (auto simp: ematch_def)
  next
    case False
    have "find_entry rs h tag key e (i # is) = find_entry rs h tag key e is"
    proof (cases "m_dataList e ! i")
      case (Some a)
      with Cons.prems obtain r where "load_record rs h a = Inr r" by auto
      with False Some show ?thesis
        by (cases r) (auto simp: ematch_def)
    qed simp
    with IH False show ?thesis by auto
  qed
qed

lemma find_chain_spec:
  assumes "\<forall>e\<in>set es. loads rs h e"
  shows "(\<exists>j' i a v. match_at rs h tag key es j' i a v \<and>
      find_chain rs h tag key j es = Inr (Some (j + j', i, v))) \<or>
    ((\<forall>j' i a v. \<not> match_at rs h tag key es j' i a v) \<and>
      find_chain rs h tag key j es = Inr None)"
  using assms
proof (induction es arbitrary: j)
  case Nil
  then show ?case by simp
next
  case (Cons e es)
  have "\<forall>i\<in>set [0..<c_numDataPerEntry]. \<forall>a. m_dataList e ! i = Some a \<longrightarrow> (\<exists>r. load_record rs h a = Inr r)"
    using Cons.prems by (simp add: loads_def)
  from find_entry_spec [OF this, of tag key] consider
      i a v where "i < c_numDataPerEntry" "ematch rs h tag key e i a v"
        "find_entry rs h tag key e [0..<c_numDataPerEntry] = Inr (Some (i, v))"
    | "\<forall>i<c_numDataPerEntry. \<forall>a v. \<not> ematch rs h tag key e i a v"
        "find_entry rs h tag key e [0..<c_numDataPerEntry] = Inr None"
    by auto
  then show ?case
  proof cases
    case 1
    then show ?thesis
      by (force simp: match_at_Cons)
  next
    case 2
    then have step: "find_chain rs h tag key j (e # es) = find_chain rs h tag key (Suc j) es"
      by simp
    have shift: "match_at rs h tag key (e # es) j' i a v \<longleftrightarrow>
        (\<exists>j''. j' = Suc j'' \<and> match_at rs h tag key es j'' i a v)" for j' i a v
      using 2(1) by (auto simp: match_at_Cons)
    have "\<forall>e\<in>set es. loads rs h e"
      using Cons.prems by simp
    from Cons.IH [OF this, of "Suc j"] show ?thesis
      unfolding step shift by force
  qed
qed

section \<open>What the loops of Add compute\<close>

lemma add_entry_spec:
  assumes "\<forall>i\<in>set is. \<forall>a. m_dataList e ! i = Some a \<longrightarrow> (\<exists>r. load_record rs h a = Inr r)"
  shows "(\<exists>i\<in>set is. \<exists>a v. ematch rs h tag key e i a v \<and>
      add_entry rs h tag key j e is upd old = Inr (Some (j, i), vsize v)) \<or>
    ((\<forall>i\<in>set is. \<forall>a v. \<not> ematch rs h tag key e i a v) \<and>
      (upd \<noteq> None \<and> add_entry rs h tag key j e is upd old = Inr (upd, old) \<or>
       upd = None \<and> (\<exists>i\<in>set is. m_dataList e ! i = None \<and>
         add_entry rs h tag key j e is upd old = Inr (Some (j, i), old)) \<or>
       upd = None \<and> (\<forall>i\<in>set is. m_dataList e ! i \<noteq> None) \<and>
         add_entry rs h tag key j e is upd old = Inr (None, old)))"
    (is "?found is upd \<or> (?none is \<and> ?rest is upd)")
  using assms
proof (induction "is" arbitrary: upd)
  case Nil
  then show ?case by auto
next
  case (Cons i "is")
  have IH: "?found is upd' \<or> (?none is \<and> ?rest is upd')" for upd'
    using Cons by simp
  show ?case
  proof (cases "m_dataList e ! i")
    case None
    have step: "add_entry rs h tag key j e (i # is) upd old =
        add_entry rs h tag key j e is (if upd = None then Some (j, i) else upd) old"
      by (simp add: None)
    have no: "\<not> ematch rs h tag key e i a v" for a v
      by (simp add: ematch_def None)
    show ?thesis
      unfolding step using IH [of "if upd = None then Some (j, i) else upd"] no None
      by (cases upd) auto
  next
    case (Some a)
    with Cons.prems obtain k v where r: "load_record rs h a = Inr \<lparr>m_key = k, m_value = v\<rparr>"
      by (metis Record.cases list.set_intros(1))
    show ?thesis
    proof (cases "m_tags e ! i = tag \<and> k = key")
      case True
      then have "ematch rs h tag key e i a v"
        by (simp add: ematch_def Some r)
      moreover have "add_entry rs h tag key j e (i # is) upd old = Inr (Some (j, i), vsize v)"
        using True by (simp add: Some r)
      ultimately show ?thesis by auto
    next
      case False
      then have "\<not> ematch rs h tag key e i a v" for a v
        using Some r by (auto simp: ematch_def)
      moreover have "add_entry rs h tag key j e (i # is) upd old =
          add_entry rs h tag key j e is upd old"
        using False by (auto simp: Some r)
      ultimately show ?thesis
        using IH [of upd] Some by auto
    qed
  qed
qed

text \<open>The case distinction in the form the outer loop uses.\<close>

lemma add_entry_cases:
  assumes "loads rs h e"
  obtains (found) i a v where "i < c_numDataPerEntry" "ematch rs h tag key e i a v"
      "add_entry rs h tag key j e [0..<c_numDataPerEntry] upd old = Inr (Some (j, i), vsize v)"
  | (kept) "\<forall>i<c_numDataPerEntry. \<forall>a v. \<not> ematch rs h tag key e i a v" "upd \<noteq> None"
      "add_entry rs h tag key j e [0..<c_numDataPerEntry] upd old = Inr (upd, old)"
  | (free) i where "\<forall>i<c_numDataPerEntry. \<forall>a v. \<not> ematch rs h tag key e i a v" "upd = None"
      "i < c_numDataPerEntry" "m_dataList e ! i = None"
      "add_entry rs h tag key j e [0..<c_numDataPerEntry] upd old = Inr (Some (j, i), old)"
  | (full) "\<forall>i<c_numDataPerEntry. \<forall>a v. \<not> ematch rs h tag key e i a v" "upd = None"
      "\<forall>i<c_numDataPerEntry. m_dataList e ! i \<noteq> None"
      "add_entry rs h tag key j e [0..<c_numDataPerEntry] upd old = Inr (None, old)"
proof -
  have "\<forall>i\<in>set [0..<c_numDataPerEntry]. \<forall>a. m_dataList e ! i = Some a \<longrightarrow> (\<exists>r. load_record rs h a = Inr r)"
    using assms by (simp add: loads_def)
  note spec = add_entry_spec [OF this, of tag key j upd old]
  show ?thesis
    using spec
    by (elim disjE conjE bexE exE)
      (rule found kept free full; simp add: Ball_def; fail)+
qed

definition free_at :: "addr Entry list \<Rightarrow> nat \<Rightarrow> nat \<Rightarrow> bool" where
  "free_at es j i \<longleftrightarrow> j < length es \<and> i < c_numDataPerEntry \<and> m_dataList (es ! j) ! i = None"

lemma free_at_Cons:
  "free_at (e # es) j i \<longleftrightarrow> (j = 0 \<and> i < c_numDataPerEntry \<and> m_dataList e ! i = None) \<or>
    (\<exists>j'. j = Suc j' \<and> free_at es j' i)"
  by (cases j) (auto simp: free_at_def)

lemma free_at_Nil [simp]: "\<not> free_at [] j i"
  by (simp add: free_at_def)

text \<open>
  The outcome of the outer loop from entry \<open>j\<close> on, with the rest \<open>es\<close> of the chain: the position
  of the key's record, the position noted before, a free position, or a new entry at the end.
\<close>

inductive add_outcome ::
  "RecordSerializer \<Rightarrow> memory \<Rightarrow> u8 \<Rightarrow> Key \<Rightarrow> nat \<Rightarrow> addr Entry list \<Rightarrow> Stat \<Rightarrow> (nat \<times> nat) option \<Rightarrow>
    Stat \<Rightarrow> nat \<times> nat \<Rightarrow> bool"
  for rs h tag key j es stat upd where
  Replace: "match_at rs h tag key es j' i a v \<Longrightarrow> st_oldValueSize stat' = vsize v \<Longrightarrow>
    \<not> st_isNewEntryAdded stat' \<Longrightarrow>
    add_outcome rs h tag key j es stat upd stat' (j + j', i)"
| Noted: "\<forall>j' i a v. \<not> match_at rs h tag key es j' i a v \<Longrightarrow> st_oldValueSize stat' = 0 \<Longrightarrow>
    \<not> st_isNewEntryAdded stat' \<Longrightarrow> upd = Some p \<Longrightarrow>
    add_outcome rs h tag key j es stat upd stat' p"
| Free: "\<forall>j' i a v. \<not> match_at rs h tag key es j' i a v \<Longrightarrow> st_oldValueSize stat' = 0 \<Longrightarrow>
    \<not> st_isNewEntryAdded stat' \<Longrightarrow> upd = None \<Longrightarrow> free_at es j' i \<Longrightarrow>
    add_outcome rs h tag key j es stat upd stat' (j + j', i)"
| Chained: "\<forall>j' i a v. \<not> match_at rs h tag key es j' i a v \<Longrightarrow> st_oldValueSize stat' = 0 \<Longrightarrow>
    st_isNewEntryAdded stat' \<Longrightarrow> upd = None \<Longrightarrow> \<forall>j' i. \<not> free_at es j' i \<Longrightarrow>
    st_chainIndex stat' = st_chainIndex stat + of_nat (length es) + 1 \<Longrightarrow>
    add_outcome rs h tag key j es stat upd stat' (j + length es, 0)"

text \<open>The loop on the new entry takes its first position.\<close>

lemma add_entry_new:
  "add_entry rs h tag key j new_Entry [0..<c_numDataPerEntry] None old = Inr (Some (j, 0), old)"
proof -
  have all: "m_dataList new_Entry ! i = None" if "i < 16" for i
    using that by (simp add: new_Entry_def c_numDataPerEntry_def)
  have some: "add_entry rs h tag key j new_Entry is (Some p) old = Inr (Some p, old)"
    if "\<forall>i\<in>set is. i < 16" for "is" p
    using that by (induction "is") (simp_all add: all)
  have "[0..<c_numDataPerEntry] = 0 # [1..<16]"
    by (simp add: c_numDataPerEntry_def upt_conv_Cons)
  then show ?thesis
    by (simp add: all some)
qed

text \<open>An outcome for the rest of a chain, after an entry that changes nothing or sets the position.\<close>

lemma add_outcome_skip:
  assumes "add_outcome rs h tag key (Suc j) es (stat\<lparr>st_chainIndex := st_chainIndex stat + 1, st_oldValueSize := 0\<rparr>) upd stat' p"
    and none: "\<forall>i<c_numDataPerEntry. \<forall>a v. \<not> ematch rs h tag key e i a v"
    and full: "upd = None \<Longrightarrow> \<forall>i<c_numDataPerEntry. m_dataList e ! i \<noteq> None"
  shows "add_outcome rs h tag key j (e # es) stat upd stat' p"
proof -
  have shift: "match_at rs h tag key (e # es) j' i a v \<longleftrightarrow>
      (\<exists>j''. j' = Suc j'' \<and> match_at rs h tag key es j'' i a v)" for j' i a v
    using none by (auto simp: match_at_Cons)
  from assms(1) show ?thesis
  proof (cases rule: add_outcome.cases)
    case (Replace j' i a v)
    then show ?thesis
      using add_outcome.Replace [of rs h tag key "e # es" "Suc j'" i a v stat' j stat upd] shift
      by simp
  next
    case Noted
    then show ?thesis
      by (intro add_outcome.Noted) (auto simp: shift)
  next
    case (Free j' i)
    then show ?thesis
      using add_outcome.Free [of rs h tag key "e # es" stat' upd "Suc j'" i j stat] shift
      by (auto simp: free_at_Cons)
  next
    case Chained
    then show ?thesis
      using add_outcome.Chained [of rs h tag key "e # es" stat' upd stat j] shift full
      by (auto simp: free_at_Cons add.commute)
  qed
qed

lemma add_outcome_here:
  assumes "add_outcome rs h tag key (Suc j) es stat1 (Some (j, i)) stat' p"
    and "i < c_numDataPerEntry" "ematch rs h tag key e i a []"
  shows "add_outcome rs h tag key j (e # es) stat upd stat' p"
  using assms(1)
proof (cases rule: add_outcome.cases)
  case (Replace j' i' a' v')
  then show ?thesis
    using add_outcome.Replace [of rs h tag key "e # es" "Suc j'" i' a' v' stat' j stat upd]
    by (simp add: match_at_Cons)
next
  case Noted
  then show ?thesis
    using assms(2,3) add_outcome.Replace [of rs h tag key "e # es" 0 i a "[]" stat' j stat upd]
    by (simp add: match_at_Cons vsize_def)
qed simp_all

lemma add_outcome_free:
  assumes "add_outcome rs h tag key (Suc j) es stat1 (Some (j, i)) stat' p"
    and none: "\<forall>i<c_numDataPerEntry. \<forall>a v. \<not> ematch rs h tag key e i a v"
    and "i < c_numDataPerEntry" "m_dataList e ! i = None"
  shows "add_outcome rs h tag key j (e # es) stat None stat' p"
  using assms(1)
proof (cases rule: add_outcome.cases)
  case (Replace j' i' a' v')
  then show ?thesis
    using add_outcome.Replace [of rs h tag key "e # es" "Suc j'" i' a' v' stat' j stat None]
    by (simp add: match_at_Cons)
next
  case Noted
  then show ?thesis
    using assms(2-4) add_outcome.Free [of rs h tag key "e # es" stat' None 0 i j stat]
    by (auto simp: match_at_Cons free_at_Cons)
qed simp_all

lemma Deserialize_valid:
  assumes "Deserialize rs buf = Inr r"
  shows "valid_key (m_key r) \<and> valid_value (m_value r)"
proof -
  have get: "length bs = n" if "get_bytes off n b = Inr bs" for off n b bs
    using that by (auto simp: get_bytes_def split: if_splits)
  have "unat (w :: u16) < 65536" for w
    using unsigned_less [of w] by simp
  moreover have "unat (w :: u32) < 4294967296" for w
    using unsigned_less [of w] by simp
  ultimately show ?thesis
    using assms
    by (auto simp: Deserialize_def bind_res_Inr_iff valid_key_def valid_value_def dest!: get)
qed

lemma load_valid:
  "load_record rs h a = Inr \<lparr>m_key = k, m_value = v\<rparr> \<Longrightarrow> valid_key k \<and> valid_value v"
  using Deserialize_valid by (fastforce simp: load_record_def split: option.splits)

lemma vsize_0_iff: "valid_value v \<Longrightarrow> vsize v = 0 \<longleftrightarrow> v = []"
  using unat_vsize [of v] by (auto simp: vsize_def)

lemma add_chain_spec:
  assumes "\<forall>e\<in>set es. loads rs h e" "es \<noteq> [] \<or> upd \<noteq> None"
    and "st_oldValueSize stat = 0" "\<not> st_isNewEntryAdded stat"
  shows "\<exists>stat' p. add_chain rs h tag key j es stat upd = Inr (stat', Some p) \<and>
    add_outcome rs h tag key j es stat upd stat' p \<and>
    st_keySize stat' = st_keySize stat \<and> st_valueSize stat' = st_valueSize stat"
  using assms
proof (induction es arbitrary: j stat upd)
  case Nil
  then show ?case
    using add_outcome.Noted [of rs h tag key "[]" stat upd] by auto
next
  case (Cons e es)
  let ?stat = "stat\<lparr>st_chainIndex := st_chainIndex stat + 1, st_oldValueSize := 0\<rparr>"
  have IH: "\<exists>stat' p. add_chain rs h tag key (Suc j) es ?stat upd' = Inr (stat', Some p) \<and>
      add_outcome rs h tag key (Suc j) es ?stat upd' stat' p \<and>
      st_keySize stat' = st_keySize stat \<and> st_valueSize stat' = st_valueSize stat"
    if "es \<noteq> [] \<or> upd' \<noteq> None" for upd'
    using Cons.IH [of upd' ?stat "Suc j"] Cons.prems that by simp
  have "loads rs h e"
    using Cons.prems by simp
  then show ?case
  proof (cases rule: add_entry_cases [where tag = tag and key = key and upd = upd and old = 0 and j = j])
    case (found i a v)
    have v: "vsize v = 0 \<longleftrightarrow> v = []"
      using found(2) load_valid vsize_0_iff unfolding ematch_def by blast
    show ?thesis
    proof (cases "v = []")
      case True
      then have "add_chain rs h tag key j (e # es) stat upd =
          add_chain rs h tag key (Suc j) es ?stat (Some (j, i))"
        using found(3) Cons.prems(3) v by (simp add: add_chain.simps(2))
      with IH [of "Some (j, i)"] found True show ?thesis
        by (auto intro: add_outcome_here)
    next
      case False
      then have "add_chain rs h tag key j (e # es) stat upd =
          Inr (stat\<lparr>st_chainIndex := st_chainIndex stat + 1, st_oldValueSize := vsize v\<rparr>, Some (j, i))"
        using found(3) Cons.prems(3) v by (simp add: add_chain.simps(2))
      moreover have "add_outcome rs h tag key j (e # es) stat upd
          (stat\<lparr>st_chainIndex := st_chainIndex stat + 1, st_oldValueSize := vsize v\<rparr>) (j + 0, i)"
        using found(1,2) Cons.prems(4) by (intro add_outcome.Replace [of _ _ _ _ _ _ _ a v]) (simp_all add: match_at_Cons)
      ultimately show ?thesis by simp
    qed
  next
    case kept
    then have "add_chain rs h tag key j (e # es) stat upd =
        add_chain rs h tag key (Suc j) es ?stat upd"
      using Cons.prems(3) by (auto simp: add_chain.simps(2) Let_def)
    with IH [of upd] kept show ?thesis
      by (auto intro: add_outcome_skip)
  next
    case (free i)
    then have "add_chain rs h tag key j (e # es) stat upd =
        add_chain rs h tag key (Suc j) es ?stat (Some (j, i))"
      using Cons.prems(3) by (simp add: add_chain.simps(2))
    with IH [of "Some (j, i)"] free show ?thesis
      by (auto intro: add_outcome_free)
  next
    case full
    show ?thesis
    proof (cases "es = []")
      case True
      let ?new = "?stat\<lparr>st_isNewEntryAdded := True, st_chainIndex := st_chainIndex ?stat + 1\<rparr>"
      have "add_chain rs h tag key j (e # es) stat upd = Inr (?new, Some (Suc j, 0))"
        using full Cons.prems(3) True by (simp add: add_chain.simps(2) add_entry_new Let_def)
      moreover have "add_outcome rs h tag key j (e # es) stat upd ?new (j + length (e # es), 0)"
        using full True by (intro add_outcome.Chained) (auto simp: match_at_Cons free_at_Cons)
      ultimately show ?thesis
        using True by simp
    next
      case False
      then have "add_chain rs h tag key j (e # es) stat upd =
          add_chain rs h tag key (Suc j) es ?stat upd"
        using full Cons.prems(3) by (simp add: add_chain.simps(2))
      with IH [of upd] full False show ?thesis
        using add_outcome_skip [OF _ full(1)] by metis
    qed
  qed
qed

section \<open>The bucket of a key\<close>

abbreviation key_bucket :: "SharedHashTable \<Rightarrow> Key \<Rightarrow> nat" where
  "key_bucket T key \<equiv> unat (fst (GetBucketInfo T key))"

abbreviation key_chain :: "SharedHashTable \<Rightarrow> Key \<Rightarrow> addr Entry list" where
  "key_chain T key \<equiv> m_buckets T ! key_bucket T key"

lemma table_ok_range: "table_ok rs W \<Longrightarrow> key_bucket (table W) key < length (m_buckets (table W))"
  by (simp add: table_ok_def GetBucketInfo_range)

lemma table_ok_bucket:
  "table_ok rs W \<Longrightarrow> b < length (m_buckets (table W)) \<Longrightarrow>
    bucket_ok rs (heap W) (table W) b (m_buckets (table W) ! b)"
  by (simp add: table_ok_def)

lemma bucket_at_key: "table_ok rs W \<Longrightarrow> bucket_at (table W) (key_bucket (table W) key) = Inr (key_chain (table W) key)"
  by (simp add: bucket_at_def table_ok_range)

text \<open>Positions and slots.\<close>

lemma chain_position:
  assumes "chain_ok es" "(t, d) \<in> set (chain_slots es)"
  obtains j i where "j < length es" "i < c_numDataPerEntry" "m_tags (es ! j) ! i = t"
    "m_dataList (es ! j) ! i = d"
proof -
  have all: "\<forall>e\<in>set es. entry_ok e"
    using assms(1) by (simp add: chain_ok_def)
  obtain p where p: "p < 16 * length es" "chain_slots es ! p = (t, d)"
    using assms(2) by (metis all in_set_conv_nth length_chain_slots)
  have "p = 16 * (p div 16) + p mod 16" "p div 16 < length es" "p mod 16 < 16"
    using p(1) by auto
  with p(2) chain_slots_nth [OF all, of "p div 16" "p mod 16"]
  show ?thesis
    using that [of "p div 16" "p mod 16"] by (simp add: c_numDataPerEntry_def)
qed

lemma position_slot:
  assumes "chain_ok es" "j < length es" "i < c_numDataPerEntry"
  obtains xs ys where
    "chain_slots es = xs @ (m_tags (es ! j) ! i, m_dataList (es ! j) ! i) # ys"
    "\<And>d t. chain_slots (upd_slot es j i d t) = xs @ (t, d) # ys"
proof -
  have all: "\<forall>e\<in>set es. entry_ok e" and i: "i < 16"
    using assms by (simp_all add: chain_ok_def c_numDataPerEntry_def)
  let ?p = "16 * j + i"
  have "?p < length (chain_slots es)"
    using assms(2) i by (simp add: length_chain_slots [OF all])
  then have "chain_slots es = take ?p (chain_slots es) @ chain_slots es ! ?p # drop (Suc ?p) (chain_slots es)"
    and "(chain_slots es)[?p := s] = take ?p (chain_slots es) @ s # drop (Suc ?p) (chain_slots es)" for s
    by (simp_all add: id_take_nth_drop upd_conv_take_nth_drop)
  then show ?thesis
    using that chain_slots_nth [OF all assms(2) i] chain_slots_upd [OF all assms(2) i] by metis
qed

lemma bucket_slot:
  "bucket_ok rs h T b es \<Longrightarrow> (t, Some a) \<in> set (chain_slots es) \<Longrightarrow>
    \<exists>r. load_record rs h a = Inr r \<and> unat (fst (GetBucketInfo T (m_key r))) = b \<and>
      snd (GetBucketInfo T (m_key r)) = t"
  unfolding bucket_ok_def list_all_iff
  by (cases "load_record rs h a") (auto simp: slot_ok_def dest!: bspec)

lemma bucket_ok_loads:
  assumes "bucket_ok rs h T b es"
  shows "\<forall>e\<in>set es. loads rs h e"
proof (clarsimp simp: loads_def)
  fix e i a
  assume e: "e \<in> set es" "i < c_numDataPerEntry" "m_dataList e ! i = Some a"
  then obtain j where j: "j < length es" "es ! j = e"
    by (metis in_set_conv_nth)
  have ok: "chain_ok es"
    using assms by (simp add: bucket_ok_def)
  obtain xs ys where "chain_slots es = xs @ (m_tags (es ! j) ! i, m_dataList (es ! j) ! i) # ys"
    using position_slot [OF ok j(1) e(2)] by metis
  then show "\<exists>r. load_record rs h a = Inr r"
    using bucket_slot [OF assms, of "m_tags e ! i" a] e(3) j(2) by auto
qed

lemma bucket_kvs_match:
  assumes ok: "bucket_ok rs h T b es" and b: "GetBucketInfo T key = (b', tag)"
  shows "(key, v) \<in> set (bucket_kvs rs h es) \<longleftrightarrow> (\<exists>j i a. match_at rs h tag key es j i a v)"
proof
  assume "(key, v) \<in> set (bucket_kvs rs h es)"
  then obtain t a where ta: "(t, Some a) \<in> set (chain_slots es)"
      "load_record rs h a = Inr \<lparr>m_key = key, m_value = v\<rparr>"
    by (auto simp: bucket_kvs_def in_slots_kvs)
  have "t = tag"
    using bucket_slot [OF ok ta(1)] ta(2) b by auto
  obtain j i where "j < length es" "i < c_numDataPerEntry" "m_tags (es ! j) ! i = t"
      "m_dataList (es ! j) ! i = Some a"
    using chain_position [OF _ ta(1)] ok by (auto simp: bucket_ok_def)
  then show "\<exists>j i a. match_at rs h tag key es j i a v"
    using ta(2) \<open>t = tag\<close> unfolding match_at_def ematch_def by blast
next
  assume "\<exists>j i a. match_at rs h tag key es j i a v"
  then obtain j i a where m: "match_at rs h tag key es j i a v"
    by blast
  have ok': "chain_ok es"
    using ok by (simp add: bucket_ok_def)
  obtain xs ys where "chain_slots es = xs @ (m_tags (es ! j) ! i, m_dataList (es ! j) ! i) # ys"
    using m position_slot [OF ok', of j i] unfolding match_at_def by metis
  then show "(key, v) \<in> set (bucket_kvs rs h es)"
    using m by (auto simp: bucket_kvs_def in_slots_kvs in_rec_of match_at_def ematch_def)
qed

lemma bucket_keys:
  assumes "bucket_ok rs h T b es" "key \<in> fst ` set (bucket_kvs rs h es)"
  shows "unat (fst (GetBucketInfo T key)) = b"
proof -
  obtain v where "(key, v) \<in> set (bucket_kvs rs h es)"
    using assms(2) by auto
  then obtain t a where ta: "(t, Some a) \<in> set (chain_slots es)"
      "load_record rs h a = Inr \<lparr>m_key = key, m_value = v\<rparr>"
    by (auto simp: bucket_kvs_def in_slots_kvs)
  then show ?thesis
    using bucket_slot [OF assms(1) ta(1)] by auto
qed

lemma map_of_concat_only:
  "n < length bs \<Longrightarrow> (\<And>m. m < length bs \<Longrightarrow> m \<noteq> n \<Longrightarrow> key \<notin> fst ` set (f (bs ! m))) \<Longrightarrow>
    map_of (concat (map f bs)) key = map_of (f (bs ! n)) key"
proof (induction bs arbitrary: n)
  case Nil
  then show ?case by simp
next
  case (Cons b bs)
  show ?case
  proof (cases n)
    case 0
    have "key \<notin> fst ` set (concat (map f bs))"
    proof
      assume "key \<in> fst ` set (concat (map f bs))"
      then obtain b where "b \<in> set bs" "key \<in> fst ` set (f b)"
        by (auto simp: image_iff)
      then obtain m where "m < length bs" "key \<in> fst ` set (f (bs ! m))"
        by (metis in_set_conv_nth)
      with Cons.prems(2) [of "Suc m"] 0 show False by simp
    qed
    then have "map_of (concat (map f bs)) key = None"
      by (simp only: map_of_eq_None_iff not_False_eq_True)
    then show ?thesis
      using 0 by (simp add: map_add_def split: option.splits)
  next
    case (Suc n')
    have "map_of (concat (map f bs)) key = map_of (f (bs ! n')) key"
    proof (rule Cons.IH)
      show "n' < length bs"
        using Cons.prems(1) Suc by simp
      show "key \<notin> fst ` set (f (bs ! m))" if "m < length bs" "m \<noteq> n'" for m
        using Cons.prems(2) [of "Suc m"] that Suc by simp
    qed
    moreover have "map_of (f b) key = None"
      using Cons.prems(2) [of 0] Suc by (simp add: map_of_eq_None_iff)
    ultimately show ?thesis
      using Suc by (simp add: map_add_def split: option.splits)
  qed
qed

lemma table_map_bucket:
  assumes "table_ok rs W"
  shows "table_map rs W key = map_of (bucket_kvs rs (heap W) (key_chain (table W) key)) key"
  unfolding table_map_def table_kvs_def
proof (rule map_of_concat_only)
  show "key_bucket (table W) key < length (m_buckets (table W))"
    using table_ok_range [OF assms] .
  show "key \<notin> fst ` set (bucket_kvs rs (heap W) (m_buckets (table W) ! m))"
    if "m < length (m_buckets (table W))" "m \<noteq> key_bucket (table W) key" for m
    using bucket_keys [OF table_ok_bucket [OF assms that(1)]] that(2) by blast
qed

end
