(* ===== verification/L4_KeyValue.thy ===== *)
theory L4_KeyValue
  imports L4_Record
begin

text \<open>
  The contract of \<open>IReadOnlyHashTable\<close> and \<open>IWritableHashTable\<close> (\<open>inc/L4/HashTable/IHashTable.h\<close>)
  that the clients of a table rely on: with an invariant, a table stands for a map from keys to
  values; \<open>Get\<close> looks a key up, \<open>Add\<close> updates the map and \<open>Remove\<close> deletes from it. What the
  clients need is proved here once: the effect of a sequence of calls, and of filling a table
  from a list of records.
\<close>

datatype kv_op = Put Key Value | Del Key

text \<open>The value a sequence of calls leaves for a key, starting from the map \<open>m\<close>.\<close>

definition apply_op :: "kv_op \<Rightarrow> (Key \<rightharpoonup> Value) \<Rightarrow> (Key \<rightharpoonup> Value)" where
  "apply_op p m = (case p of Put k v \<Rightarrow> m(k \<mapsto> v) | Del k \<Rightarrow> m(k := None))"

primrec last_write :: "kv_op list \<Rightarrow> (Key \<rightharpoonup> Value) \<Rightarrow> (Key \<rightharpoonup> Value)" where
  "last_write [] m = m"
| "last_write (p # ops) m = last_write ops (apply_op p m)"

text \<open>A sequence of calls on a table with the given operations.\<close>

fun run_ops :: "('w \<Rightarrow> Key \<Rightarrow> Value \<Rightarrow> 'w) \<Rightarrow> ('w \<Rightarrow> Key \<Rightarrow> 'w) \<Rightarrow> kv_op list \<Rightarrow> 'w \<Rightarrow> 'w" where
  "run_ops put del [] w = w"
| "run_ops put del (Put k v # ops) w = run_ops put del ops (put w k v)"
| "run_ops put del (Del k # ops) w = run_ops put del ops (del w k)"

definition accepted :: "(Key \<Rightarrow> Value \<Rightarrow> bool) \<Rightarrow> kv_op list \<Rightarrow> bool" where
  "accepted accepts ops \<longleftrightarrow> (\<forall>k v. Put k v \<in> set ops \<longrightarrow> accepts k v)"

lemma accepted_simps [simp]:
  "accepted accepts []"
  "accepted accepts (Put k v # ops) \<longleftrightarrow> accepts k v \<and> accepted accepts ops"
  "accepted accepts (Del k # ops) \<longleftrightarrow> accepted accepts ops"
  by (auto simp: accepted_def)

definition key_of :: "kv_op \<Rightarrow> Key" where
  "key_of p = (case p of Put k v \<Rightarrow> k | Del k \<Rightarrow> k)"

lemma last_write_untouched:
  "k \<notin> key_of ` set ops \<Longrightarrow> last_write ops m k = m k"
  by (induction ops arbitrary: m) (auto simp: key_of_def apply_op_def split: kv_op.splits)

lemma last_write_append: "last_write (ops @ ops') m = last_write ops' (last_write ops m)"
  by (induction ops arbitrary: m) simp_all

lemma last_write_last:
  "k \<notin> key_of ` set ops' \<Longrightarrow> last_write (ops @ Put k v # ops') m k = Some v"
  "k \<notin> key_of ` set ops' \<Longrightarrow> last_write (ops @ Del k # ops') m k = None"
  by (simp_all add: last_write_append last_write_untouched apply_op_def)

locale kv_table =
  fixes inv :: "'w \<Rightarrow> bool"
    and absm :: "'w \<Rightarrow> Key \<rightharpoonup> Value"
    and accepts :: "Key \<Rightarrow> Value \<Rightarrow> bool"
    and get :: "'w \<Rightarrow> Key \<Rightarrow> Value option res"
    and put :: "'w \<Rightarrow> Key \<Rightarrow> Value \<Rightarrow> 'w"
    and del :: "'w \<Rightarrow> Key \<Rightarrow> 'w"
  assumes get_abs: "inv w \<Longrightarrow> get w k = Inr (absm w k)"
    and put_inv: "inv w \<Longrightarrow> accepts k v \<Longrightarrow> inv (put w k v)"
    and put_abs: "inv w \<Longrightarrow> accepts k v \<Longrightarrow> absm (put w k v) = (absm w)(k \<mapsto> v)"
    and del_inv: "inv w \<Longrightarrow> inv (del w k)"
    and del_abs: "inv w \<Longrightarrow> absm (del w k) = (absm w)(k := None)"
begin

lemma run_abs: "inv w \<Longrightarrow> accepted accepts ops \<Longrightarrow> inv (run_ops put del ops w) \<and> absm (run_ops put del ops w) = last_write ops (absm w)"
proof (induction ops arbitrary: w)
  case (Cons p ops)
  show ?case
  proof (cases p)
    case (Put k v)
    with Cons show ?thesis
      using put_inv [of w k v] put_abs [of w k v] by (simp add: apply_op_def)
  next
    case (Del k)
    with Cons show ?thesis
      using del_inv [of w k] del_abs [of w k] by (simp add: apply_op_def)
  qed
qed simp

lemma get_run:
  "inv w \<Longrightarrow> accepted accepts ops \<Longrightarrow> get (run_ops put del ops w) k = Inr (last_write ops (absm w) k)"
  using run_abs [of w ops] get_abs by simp

lemma get_put:
  "inv w \<Longrightarrow> accepts k v \<Longrightarrow> get (put w k v) k' = (if k' = k then Inr (Some v) else get w k')"
  by (simp add: get_abs put_inv put_abs)

lemma get_del:
  "inv w \<Longrightarrow> get (del w k) k' = (if k' = k then Inr None else get w k')"
  by (simp add: get_abs del_inv del_abs)

text \<open>Filling a table from records with different keys.\<close>

lemma run_puts:
  "inv w \<Longrightarrow> (\<forall>(k, v)\<in>set kvs. accepts k v) \<Longrightarrow> distinct (map fst kvs) \<Longrightarrow>
    absm (run_ops put del (map (\<lambda>(k, v). Put k v) kvs) w) = absm w ++ map_of kvs \<and>
    inv (run_ops put del (map (\<lambda>(k, v). Put k v) kvs) w)"
proof (induction kvs arbitrary: w)
  case Nil
  then show ?case by simp
next
  case (Cons kv kvs)
  obtain k v where kv: "kv = (k, v)"
    by (cases kv)
  have put: "inv (put w k v)" "absm (put w k v) = (absm w)(k \<mapsto> v)"
    using Cons.prems kv put_inv put_abs by auto
  have "k \<notin> dom (map_of kvs)"
    using Cons.prems(3) kv by (simp add: dom_map_of_conv_image_fst)
  then have "(absm w)(k \<mapsto> v) ++ map_of kvs = absm w ++ (map_of kvs)(k \<mapsto> v)"
    by (auto simp: fun_eq_iff map_add_def domIff split: option.splits)
  moreover have "absm (run_ops put del (map (\<lambda>(k, v). Put k v) kvs) (put w k v)) = absm (put w k v) ++ map_of kvs \<and>
      inv (run_ops put del (map (\<lambda>(k, v). Put k v) kvs) (put w k v))"
    using Cons.IH [OF put(1)] Cons.prems by auto
  ultimately show ?case
    using kv put(2) by (simp only: list.map prod.case run_ops.simps map_of.simps prod.sel)
qed

end

end
