(* ===== verification/L4_TableMap.thy ===== *)
theory L4_TableMap
  imports L4_TableOps L4_KeyValue
begin

text \<open>
  The operations of the table against the abstract map: \<open>Get\<close> looks a key up, \<open>Add\<close> updates the
  map at the key and \<open>Remove\<close> deletes it; every operation keeps \<open>table_ok\<close>, unlinks at most the
  one buffer it hands to the action manager, and never reads outside the memory.
\<close>

section \<open>Changing the heap or one bucket\<close>

lemma bucket_ok_length:
  assumes "length (m_buckets T) = length (m_buckets T')"
  shows "bucket_ok rs h T = bucket_ok rs h T'"
  by (intro ext) (unfold bucket_ok_def slot_ok_def GetBucketInfo_length [OF assms], rule refl)

text \<open>Only the buffers that the table points to matter.\<close>

lemma slots_kvs_heap:
  assumes "\<forall>a\<in>set (slot_addrs sl). h' a = h a"
  shows "slots_kvs rs h' sl = slots_kvs rs h sl"
proof -
  have "map (rec_of rs h') (slot_addrs sl) = map (rec_of rs h) (slot_addrs sl)"
    using assms by (intro map_cong refl) (simp add: rec_of_def load_record_def)
  then show ?thesis
    by (simp only: slots_kvs_def)
qed

lemma bucket_kvs_heap:
  "\<forall>a\<in>set (slot_addrs (chain_slots es)). h' a = h a \<Longrightarrow> bucket_kvs rs h' es = bucket_kvs rs h es"
  by (simp add: bucket_kvs_def slots_kvs_heap)

lemma in_table_addrs:
  "a \<in> set (table_addrs T) \<longleftrightarrow> (\<exists>b\<in>set (m_buckets T). a \<in> set (slot_addrs (chain_slots b)))"
  by (auto simp: table_addrs_def)

lemma table_kvs_heap:
  "\<forall>a\<in>set (table_addrs T). h' a = h a \<Longrightarrow> table_kvs rs h' T = table_kvs rs h T"
  unfolding table_kvs_def
  by (rule arg_cong [where f = concat], rule map_cong, rule refl, rule bucket_kvs_heap)
    (auto simp: in_table_addrs)

lemma slot_ok_heap:
  "(\<And>a. snd s = Some a \<Longrightarrow> h' a = h a) \<Longrightarrow> slot_ok rs h' T b s = slot_ok rs h T b s"
  by (cases "snd s") (simp_all add: slot_ok_def load_record_def)

lemma bucket_ok_heap:
  assumes "\<forall>a\<in>set (slot_addrs (chain_slots es)). h' a = h a"
  shows "bucket_ok rs h' T b es = bucket_ok rs h T b es"
proof -
  have "list_all (slot_ok rs h' T b) (chain_slots es) = list_all (slot_ok rs h T b) (chain_slots es)"
    using assms by (intro list.pred_cong refl slot_ok_heap) (metis in_slot_addrs prod.collapse)
  then show ?thesis
    by (simp add: bucket_ok_def bucket_kvs_heap [OF assms])
qed

lemma table_ok_heap:
  assumes "table_ok rs W" "\<forall>a\<in>set (table_addrs (table W)). heap W' a = heap W a"
    and "table W' = table W" "finite (dom (heap W'))"
  shows "table_ok rs W' \<and> table_map rs W' = table_map rs W"
proof -
  have "\<forall>a\<in>set (slot_addrs (chain_slots (m_buckets (table W) ! b))). heap W' a = heap W a"
    if "b < length (m_buckets (table W))" for b
    using assms(2) that by (auto simp: in_table_addrs)
  then have "bucket_ok rs (heap W') (table W) b (m_buckets (table W) ! b)"
    if "b < length (m_buckets (table W))" for b
    using assms(1) that bucket_ok_heap [of "m_buckets (table W) ! b" "heap W'" "heap W"]
    by (simp add: table_ok_def)
  then have "table_ok rs W'"
    using assms by (simp add: table_ok_def)
  moreover have "table_map rs W' = table_map rs W"
    using table_kvs_heap [OF assms(2)] by (simp add: table_map_def assms(3))
  ultimately show ?thesis ..
qed

lemma concat_map_split:
  assumes "b < length bs"
  shows "concat (map f bs) = concat (map f (take b bs)) @ f (bs ! b) @ concat (map f (drop (Suc b) bs))"
    and "concat (map f (bs[b := x])) = concat (map f (take b bs)) @ f x @ concat (map f (drop (Suc b) bs))"
proof -
  have "map f bs = map f (take b bs) @ f (bs ! b) # map f (drop (Suc b) bs)"
    using assms by (metis id_take_nth_drop list.simps(9) map_append)
  then show "concat (map f bs) = concat (map f (take b bs)) @ f (bs ! b) @ concat (map f (drop (Suc b) bs))"
    by (metis concat.simps(2) concat_append)
  show "concat (map f (bs[b := x])) = concat (map f (take b bs)) @ f x @ concat (map f (drop (Suc b) bs))"
    using assms by (simp add: upd_conv_take_nth_drop)
qed

lemma table_addrs_set_bucket:
  assumes "distinct (table_addrs T)" "b < length (m_buckets T)"
    and "m_buckets T' = (m_buckets T)[b := es]"
    and X: "set (slot_addrs (chain_slots es)) \<subseteq> insert a (set (slot_addrs (chain_slots (m_buckets T ! b))))"
    and "distinct (slot_addrs (chain_slots es))" "a \<notin> set (table_addrs T) \<or> a \<in> set (slot_addrs (chain_slots (m_buckets T ! b)))"
  shows "distinct (table_addrs T')"
    and "set (table_addrs T') = (set (table_addrs T) - set (slot_addrs (chain_slots (m_buckets T ! b)))) \<union>
      set (slot_addrs (chain_slots es))"
proof -
  obtain A B where AB: "table_addrs T = A @ slot_addrs (chain_slots (m_buckets T ! b)) @ B"
      "table_addrs T' = A @ slot_addrs (chain_slots es) @ B"
    unfolding table_addrs_def assms(3) using concat_map_split [OF assms(2)] by metis
  then show "distinct (table_addrs T')"
    using assms by auto
  show "set (table_addrs T') = (set (table_addrs T) - set (slot_addrs (chain_slots (m_buckets T ! b)))) \<union>
      set (slot_addrs (chain_slots es))"
    using AB assms(1) by auto
qed

lemma table_ok_set_bucket:
  assumes ok: "table_ok rs W" and b: "b < length (m_buckets (table W))"
    and new: "bucket_ok rs (heap W) (table W) b es"
    and W': "heap W' = heap W" "m_buckets (table W') = (m_buckets (table W))[b := es]"
    and dist: "distinct (table_addrs (table W'))"
  shows "table_ok rs W'"
    and "table_map rs W' key = (if key_bucket (table W) key = b
      then map_of (bucket_kvs rs (heap W) es) key else table_map rs W key)"
proof -
  have len: "length (m_buckets (table W')) = length (m_buckets (table W))"
    by (simp add: W')
  show ok': "table_ok rs W'"
    using ok new dist W' b unfolding table_ok_def
    by (auto simp: bucket_ok_length [OF len] nth_list_update)
  show "table_map rs W' key = (if key_bucket (table W) key = b
      then map_of (bucket_kvs rs (heap W) es) key else table_map rs W key)"
    using b by (simp add: table_map_bucket [OF ok] table_map_bucket [OF ok'] W'
        GetBucketInfo_length [OF len])
qed

section \<open>Get\<close>

lemma find_key:
  assumes "table_ok rs W" "GetBucketInfo (table W) key = (b, tag)"
  shows "(\<exists>j i a v. match_at rs (heap W) tag key (key_chain (table W) key) j i a v \<and>
      table_map rs W key = Some v \<and>
      find_chain rs (heap W) tag key 0 (key_chain (table W) key) = Inr (Some (j, i, v))) \<or>
    (table_map rs W key = None \<and> find_chain rs (heap W) tag key 0 (key_chain (table W) key) = Inr None)"
proof -
  have ok: "bucket_ok rs (heap W) (table W) (key_bucket (table W) key) (key_chain (table W) key)"
    using table_ok_bucket [OF assms(1) table_ok_range [OF assms(1)]] .
  have "distinct (map fst (bucket_kvs rs (heap W) (key_chain (table W) key)))"
    using ok by (simp add: bucket_ok_def)
  then have Some: "table_map rs W key = Some v \<longleftrightarrow>
      (\<exists>j i a. match_at rs (heap W) tag key (key_chain (table W) key) j i a v)" for v
    by (simp add: table_map_bucket [OF assms(1)] bucket_kvs_match [OF ok assms(2), symmetric])
  from find_chain_spec [OF bucket_ok_loads [OF ok], of tag key 0] show ?thesis
    using Some by (metis add_0 option.exhaust)
qed

lemma Get_correct: "table_ok rs W \<Longrightarrow> Get rs W key = Inr (table_map rs W key)"
  using find_key [of rs W key] bucket_at_key [of rs W key]
  by (cases "GetBucketInfo (table W) key") (force simp: Get_def)

section \<open>Replacing one slot\<close>

lemma map_of_hole:
  assumes "k \<notin> fst ` set xs" "k \<notin> fst ` set ys"
  shows "map_of (xs @ ys) = (map_of (xs @ (k, v) # ys))(k := None)"
    and "map_of (xs @ (k, w) # ys) = (map_of (xs @ (k, v) # ys))(k \<mapsto> w)"
    and "map_of (xs @ (k, w) # ys) = (map_of (xs @ ys))(k \<mapsto> w)"
proof -
  have "map_of xs k = None" "map_of ys k = None"
    using assms by (simp_all add: map_of_eq_None_iff)
  then show "map_of (xs @ ys) = (map_of (xs @ (k, v) # ys))(k := None)"
    and "map_of (xs @ (k, w) # ys) = (map_of (xs @ (k, v) # ys))(k \<mapsto> w)"
    and "map_of (xs @ (k, w) # ys) = (map_of (xs @ ys))(k \<mapsto> w)"
    by (auto simp: fun_eq_iff map_add_def split: option.splits)
qed

lemma bucket_ok_empty_slot:
  assumes ok: "bucket_ok rs h T b es"
    and es: "chain_slots es = xs @ (t0, Some a) # ys"
    and r: "load_record rs h a = Inr \<lparr>m_key = key, m_value = v\<rparr>"
    and es': "chain_ok es'" "chain_slots es' = xs @ (t, None) # ys"
  shows "bucket_ok rs h T b es'"
    and "map_of (bucket_kvs rs h es') = (map_of (bucket_kvs rs h es))(key := None)"
proof -
  have old: "bucket_kvs rs h es = slots_kvs rs h xs @ (key, v) # slots_kvs rs h ys"
    and new: "bucket_kvs rs h es' = slots_kvs rs h xs @ slots_kvs rs h ys"
    using rec_of_load [OF r] by (simp_all add: bucket_kvs_def es es')
  have dist: "distinct (map fst (slots_kvs rs h xs @ (key, v) # slots_kvs rs h ys))"
    using ok by (simp add: bucket_ok_def old)
  then show "map_of (bucket_kvs rs h es') = (map_of (bucket_kvs rs h es))(key := None)"
    unfolding old new by (intro map_of_hole) auto
  show "bucket_ok rs h T b es'"
    using ok dist by (simp add: bucket_ok_def es es' new) (simp add: slot_ok_def)
qed

lemma bucket_ok_fill_slot:
  assumes ok: "bucket_ok rs h T b es"
    and es: "chain_slots es = xs @ (t0, old) # ys"
    and old: "case old of None \<Rightarrow> map_of (bucket_kvs rs h es) key = None
      | Some a0 \<Rightarrow> \<exists>v. load_record rs h a0 = Inr \<lparr>m_key = key, m_value = v\<rparr>"
    and r: "load_record rs h a = Inr \<lparr>m_key = key, m_value = value\<rparr>"
    and b: "key_bucket T key = b" "snd (GetBucketInfo T key) = t"
    and es': "chain_ok es'" "chain_slots es' = xs @ (t, Some a) # ys"
  shows "bucket_ok rs h T b es'"
    and "map_of (bucket_kvs rs h es') = (map_of (bucket_kvs rs h es))(key \<mapsto> value)"
proof -
  have new: "bucket_kvs rs h es' = slots_kvs rs h xs @ (key, value) # slots_kvs rs h ys"
    using rec_of_load [OF r] by (simp add: bucket_kvs_def es')
  have slot: "slot_ok rs h T b (t, Some a)"
    using r b by (simp add: slot_ok_def)
  have "bucket_ok rs h T b es' \<and> map_of (bucket_kvs rs h es') = (map_of (bucket_kvs rs h es))(key \<mapsto> value)"
  proof (cases old)
    case None
    then have prev: "bucket_kvs rs h es = slots_kvs rs h xs @ slots_kvs rs h ys"
      by (simp add: bucket_kvs_def es)
    moreover have "key \<notin> fst ` set (bucket_kvs rs h es)"
      using old None by (simp add: map_of_eq_None_iff)
    ultimately have out: "key \<notin> fst ` set (slots_kvs rs h xs)" "key \<notin> fst ` set (slots_kvs rs h ys)"
      by auto
    have "bucket_ok rs h T b es'"
      using ok out slot by (auto simp: bucket_ok_def es es' new prev)
    with map_of_hole(3) [OF out, of "value"] show ?thesis
      by (simp only: prev new)
  next
    case (Some a0)
    with old obtain v where "load_record rs h a0 = Inr \<lparr>m_key = key, m_value = v\<rparr>"
      by auto
    then have prev: "bucket_kvs rs h es = slots_kvs rs h xs @ (key, v) # slots_kvs rs h ys"
      by (simp add: bucket_kvs_def es Some rec_of_load)
    have dist: "distinct (map fst (slots_kvs rs h xs @ (key, v) # slots_kvs rs h ys))"
      using ok by (simp add: bucket_ok_def prev)
    then have out: "key \<notin> fst ` set (slots_kvs rs h xs)" "key \<notin> fst ` set (slots_kvs rs h ys)"
      by auto
    have "bucket_ok rs h T b es'"
      using ok dist slot by (simp add: bucket_ok_def es es' new)
    with map_of_hole(2) [OF out, of "value" v] show ?thesis
      by (simp only: prev new)
  qed
  then show "bucket_ok rs h T b es'"
    and "map_of (bucket_kvs rs h es') = (map_of (bucket_kvs rs h es))(key \<mapsto> value)"
    by simp_all
qed

text \<open>Linking a new entry changes nothing but the chain.\<close>

lemma chain_ok_new: "chain_ok es \<Longrightarrow> chain_ok (es @ [new_Entry])"
  by (auto simp: chain_ok_def)

lemma slots_kvs_new: "slots_kvs rs h (entry_slots new_Entry) = []"
  by (simp add: slots_kvs_def)

lemma bucket_ok_new:
  assumes "bucket_ok rs h T b es"
  shows "bucket_ok rs h T b (es @ [new_Entry])"
    and "bucket_kvs rs h (es @ [new_Entry]) = bucket_kvs rs h es"
proof -
  show kvs: "bucket_kvs rs h (es @ [new_Entry]) = bucket_kvs rs h es"
    by (simp add: bucket_kvs_def slots_kvs_new)
  show "bucket_ok rs h T b (es @ [new_Entry])"
    using assms chain_ok_new by (simp add: bucket_ok_def kvs list_all_iff entry_slots_new slot_ok_def)
qed

section \<open>Remove\<close>

text \<open>
  What \<open>ReleaseRecord\<close> does to the world: nothing but the manager changes.
\<close>

lemma ReleaseRecord_Some:
  "ReleaseRecord reg (Some a) W = (fst (reg a (manager W)), W\<lparr>manager := snd (reg a (manager W))\<rparr>)"
  by (simp add: ReleaseRecord_def split_beta)

lemma ReleaseRecord_None [simp]: "ReleaseRecord reg None W = (Inr (), W)"
  by (simp add: ReleaseRecord_def)

lemma slot_addrs_in_table:
  "b < length (m_buckets T) \<Longrightarrow> set (slot_addrs (chain_slots (m_buckets T ! b))) \<subseteq> set (table_addrs T)"
  using nth_mem by (fastforce simp: in_table_addrs)

lemma distinct_bucket_addrs:
  assumes "distinct (table_addrs T)" "b < length (m_buckets T)"
  shows "distinct (slot_addrs (chain_slots (m_buckets T ! b)))"
  using assms concat_map_split(1) [OF assms(2), of "\<lambda>b. slot_addrs (chain_slots b)"]
  by (simp add: table_addrs_def)

text \<open>
  \<open>Remove(entry, index)\<close> at a position that holds a record: the record leaves the map, its
  buffer leaves the table and goes to the action manager, and the counters are updated.
\<close>

lemma Remove_at_correct:
  assumes ok: "table_ok rs W" and b: "b < length (m_buckets (table W))"
    and j: "j < length (m_buckets (table W) ! b)" and i: "i < c_numDataPerEntry"
    and a: "m_dataList (m_buckets (table W) ! b ! j) ! i = Some a"
    and r: "load_record rs (heap W) a = Inr \<lparr>m_key = key, m_value = v\<rparr>"
  shows "\<exists>W'. Remove_at rs reg b j i W = (fst (reg a (manager W)), W') \<and>
    manager W' = snd (reg a (manager W)) \<and> heap W' = heap W \<and> table_ok rs W' \<and>
    table_map rs W' = (table_map rs W)(key := None) \<and>
    a \<in> set (table_addrs (table W)) \<and> set (table_addrs (table W')) = set (table_addrs (table W)) - {a} \<and>
    map length (m_buckets (table W')) = map length (m_buckets (table W)) \<and>
    m_perfData (table W') = UpdatePerfDataForRemove rs (Stat_new (ksize key) (vsize v) 0) (m_perfData (table W))"
proof -
  let ?es = "m_buckets (table W) ! b"
  let ?es' = "upd_slot ?es j i None 0"
  define W' where "W' = W\<lparr>table := (set_bucket b ?es' (table W))\<lparr>m_perfData :=
    UpdatePerfDataForRemove rs (Stat_new (ksize key) (vsize v) 0) (m_perfData (table W))\<rparr>,
    manager := snd (reg a (manager W))\<rparr>"
  have bok: "bucket_ok rs (heap W) (table W) b ?es"
    using table_ok_bucket [OF ok b] .
  then have ch: "chain_ok ?es"
    by (simp add: bucket_ok_def)
  then have ch': "chain_ok ?es'"
    using upd_slot_entry_ok [of ?es j] j by (auto simp: chain_ok_def upd_slot_def)
  obtain xs ys where es: "chain_slots ?es = xs @ (m_tags (?es ! j) ! i, Some a) # ys"
    and es': "chain_slots ?es' = xs @ (0, None) # ys"
    using position_slot [OF ch j i] a by metis
  note new = bucket_ok_empty_slot [OF bok es r ch' es']
  have bs: "m_buckets (table W') = (m_buckets (table W))[b := ?es']"
    by (simp add: W'_def set_bucket_def)
  have dist: "distinct (table_addrs (table W))"
    using ok by (simp add: table_ok_def)
  have dist_b: "distinct (slot_addrs (chain_slots ?es))"
    using distinct_bucket_addrs [OF dist b] .
  then have da: "distinct (slot_addrs (chain_slots ?es'))"
    by (simp add: es es')
  have sub: "set (slot_addrs (chain_slots ?es')) \<subseteq> insert a (set (slot_addrs (chain_slots ?es)))"
    by (auto simp: es es')
  have a_in: "a \<in> set (slot_addrs (chain_slots ?es))"
    by (simp add: es)
  note addrs = table_addrs_set_bucket [OF dist b bs sub da disjI2 [OF a_in]]
  have W'_heap: "heap W' = heap W"
    by (simp add: W'_def)
  note tab = table_ok_set_bucket [OF ok b new(1) W'_heap bs addrs(1)]
  have "table_map rs W' k = ((table_map rs W)(key := None)) k" for k
    using tab(2) [of k] new(2) bucket_slot [OF bok, of "m_tags (?es ! j) ! i" a] es r
      table_map_bucket [OF ok, of k]
    by auto
  then have map: "table_map rs W' = (table_map rs W)(key := None)"
    by blast
  have set': "set (table_addrs (table W')) = set (table_addrs (table W)) - {a}"
    unfolding addrs(2) using slot_addrs_in_table [OF b] dist_b by (auto simp: es es')
  have "Remove_at rs reg b j i W = (fst (reg a (manager W)), W')"
    using a r by (simp add: Remove_at_def UpdateRecord_def ReleaseRecord_Some W'_def set_bucket_def)
  moreover have "manager W' = snd (reg a (manager W))"
    by (simp add: W'_def)
  moreover have "m_perfData (table W') = UpdatePerfDataForRemove rs (Stat_new (ksize key) (vsize v) 0) (m_perfData (table W))"
    by (simp add: W'_def)
  moreover have "map length (m_buckets (table W')) = map length (m_buckets (table W))"
    using b by (simp add: bs map_update) (metis length_map list_update_id nth_map)
  moreover have "a \<in> set (table_addrs (table W))"
    using slot_addrs_in_table [OF b] a_in by blast
  ultimately show ?thesis
    using W'_heap tab(1) map set' by blast
qed

text \<open>
  The effect of an operation on the table and its memory, as one fact: the buffer \<open>old\<close> (if any)
  has left the table and is what the action manager got, the buffers \<open>new\<close> have joined it, and the
  table stands for the map \<open>m\<close>.
\<close>

definition effect ::
  "RecordSerializer \<Rightarrow> 'e reg \<Rightarrow> 'e World \<Rightarrow> addr option \<Rightarrow> addr set \<Rightarrow> (Key \<rightharpoonup> Value) \<Rightarrow>
    unit res \<Rightarrow> 'e World \<Rightarrow> bool" where
  "effect rs reg W old new m r W' \<longleftrightarrow> table_ok rs W' \<and> table_map rs W' = m \<and>
     set_option old \<subseteq> set (table_addrs (table W)) \<and>
     set (table_addrs (table W')) = (set (table_addrs (table W)) - set_option old) \<union> new \<and>
     (r, manager W') = (case old of None \<Rightarrow> (Inr (), manager W) | Some a \<Rightarrow> reg a (manager W)) \<and>
     length (m_buckets (table W')) = length (m_buckets (table W)) \<and> m_setting (table W') = m_setting (table W)"

lemma Remove_at_effect:
  assumes ok: "table_ok rs W" and b: "b < length (m_buckets (table W))"
    and at: "j < length (m_buckets (table W) ! b)" "i < c_numDataPerEntry"
      "m_dataList (m_buckets (table W) ! b ! j) ! i = Some a"
    and r: "load_record rs (heap W) a = Inr \<lparr>m_key = key, m_value = v\<rparr>"
  obtains W' where "Remove_at rs reg b j i W = (fst (reg a (manager W)), W')"
    "effect rs reg W (Some a) {} ((table_map rs W)(key := None)) (fst (reg a (manager W))) W'"
    "heap W' = heap W" "a \<notin> set (table_addrs (table W'))"
    "map length (m_buckets (table W')) = map length (m_buckets (table W))"
    "m_perfData (table W') = UpdatePerfDataForRemove rs (Stat_new (ksize key) (vsize v) 0) (m_perfData (table W))"
    "m_buckets (table W') = (m_buckets (table W))[b := upd_slot (m_buckets (table W) ! b) j i None 0]"
proof -
  obtain W' where W': "Remove_at rs reg b j i W = (fst (reg a (manager W)), W')"
      "manager W' = snd (reg a (manager W))" "heap W' = heap W" "table_ok rs W'"
      "table_map rs W' = (table_map rs W)(key := None)" "a \<in> set (table_addrs (table W))"
      "set (table_addrs (table W')) = set (table_addrs (table W)) - {a}"
      "map length (m_buckets (table W')) = map length (m_buckets (table W))"
      "m_perfData (table W') = UpdatePerfDataForRemove rs (Stat_new (ksize key) (vsize v) 0) (m_perfData (table W))"
    using Remove_at_correct [OF ok b at r, of reg] by blast
  have new: "m_setting (table W') = m_setting (table W)"
      "m_buckets (table W') = (m_buckets (table W))[b := upd_slot (m_buckets (table W) ! b) j i None 0]"
    using W'(1) at r by (auto simp: Remove_at_def UpdateRecord_def ReleaseRecord_Some set_bucket_def)
  then have "effect rs reg W (Some a) {} ((table_map rs W)(key := None)) (fst (reg a (manager W))) W'"
    using W' by (simp add: effect_def)
  then show ?thesis
    using that W' new(2) by simp
qed

lemma Remove_cases:
  assumes ok: "table_ok rs W"
  obtains (absent) "table_map rs W key = None" "Remove rs reg W key = (Inr False, W)"
  | (present) v a W' where "table_map rs W key = Some v"
      "Remove rs reg W key = (bind_res (fst (reg a (manager W))) (\<lambda>_. Inr True), W')"
      "effect rs reg W (Some a) {} ((table_map rs W)(key := None)) (fst (reg a (manager W))) W'"
      "heap W' = heap W" "a \<notin> set (table_addrs (table W'))"
      "load_record rs (heap W) a = Inr \<lparr>m_key = key, m_value = v\<rparr>"
      "map length (m_buckets (table W')) = map length (m_buckets (table W))"
      "m_perfData (table W') = UpdatePerfDataForRemove rs (Stat_new (ksize key) (vsize v) 0) (m_perfData (table W))"
proof -
  obtain b tag where bt: "GetBucketInfo (table W) key = (b, tag)"
    by (cases "GetBucketInfo (table W) key")
  have bk: "bucket_at (table W) (unat b) = Inr (m_buckets (table W) ! unat b)"
    using bucket_at_key [OF ok, of key] bt by simp
  from find_key [OF ok bt] show ?thesis
  proof (elim disjE exE conjE)
    assume "table_map rs W key = None" "find_chain rs (heap W) tag key 0 (key_chain (table W) key) = Inr None"
    then show ?thesis
      using absent bt bk by (simp add: Remove_def)
  next
    fix j i a v
    assume m: "match_at rs (heap W) tag key (key_chain (table W) key) j i a v"
      and v: "table_map rs W key = Some v"
      and f: "find_chain rs (heap W) tag key 0 (key_chain (table W) key) = Inr (Some (j, i, v))"
    have b: "unat b < length (m_buckets (table W))"
      using table_ok_range [OF ok, of key] bt by simp
    have r: "load_record rs (heap W) a = Inr \<lparr>m_key = key, m_value = v\<rparr>"
      using m by (simp add: match_at_def ematch_def)
    have at: "j < length (m_buckets (table W) ! unat b)" "i < c_numDataPerEntry"
        "m_dataList (m_buckets (table W) ! unat b ! j) ! i = Some a"
      using m bt by (simp_all add: match_at_def ematch_def)
    obtain W' where W': "Remove_at rs reg (unat b) j i W = (fst (reg a (manager W)), W')"
        "effect rs reg W (Some a) {} ((table_map rs W)(key := None)) (fst (reg a (manager W))) W'"
        "heap W' = heap W" "a \<notin> set (table_addrs (table W'))"
        "map length (m_buckets (table W')) = map length (m_buckets (table W))"
        "m_perfData (table W') = UpdatePerfDataForRemove rs (Stat_new (ksize key) (vsize v) 0) (m_perfData (table W))"
      using Remove_at_effect [OF ok b at r, of reg] by blast
    have "Remove rs reg W key = (bind_res (fst (reg a (manager W))) (\<lambda>_. Inr True), W')"
      using f bt bk W'(1) by (simp add: Remove_def)
    then show ?thesis
      using present [OF v, of a W'] W' r by simp
  qed
qed

section \<open>Add\<close>

text \<open>The record at the position that \<open>Add\<close> chose, and what becomes of the chain.\<close>

lemma add_position:
  assumes ok: "bucket_ok rs h T b es" and bt: "GetBucketInfo T key = (b', tag)"
    and out: "add_outcome rs h tag key 0 es stat None stat' (j, i)"
  defines "es1 \<equiv> (if st_isNewEntryAdded stat' then es @ [new_Entry] else es)"
  shows "j < length es1 \<and> i < c_numDataPerEntry \<and>
    (case m_dataList (es1 ! j) ! i of
       None \<Rightarrow> map_of (bucket_kvs rs h es) key = None \<and> st_oldValueSize stat' = 0
     | Some a0 \<Rightarrow> \<exists>v. load_record rs h a0 = Inr \<lparr>m_key = key, m_value = v\<rparr> \<and>
         map_of (bucket_kvs rs h es) key = Some v \<and> st_oldValueSize stat' = vsize v \<and>
         \<not> st_isNewEntryAdded stat')"
proof -
  have dist: "distinct (map fst (bucket_kvs rs h es))"
    using ok by (simp add: bucket_ok_def)
  have Some: "map_of (bucket_kvs rs h es) key = Some v \<longleftrightarrow> (\<exists>j i a. match_at rs h tag key es j i a v)" for v
    using dist by (simp add: bucket_kvs_match [OF ok bt, symmetric])
  have absent: "map_of (bucket_kvs rs h es) key = None" if "\<forall>j i a v. \<not> match_at rs h tag key es j i a v"
    using Some that by (meson not_Some_eq)
  show ?thesis
    using out
  proof (cases rule: add_outcome.cases)
    case (Replace j' a v)
    then show ?thesis
      using Some [of v] by (auto simp: es1_def match_at_def ematch_def)
  next
    case (Free j')
    then show ?thesis
      using absent [OF Free(2)] by (simp add: es1_def free_at_def)
  next
    case Chained
    then show ?thesis
      using absent [OF Chained(3)] by (simp add: es1_def new_Entry_def c_numDataPerEntry_def)
  qed simp
qed

text \<open>
  What \<open>Add\<close> tells the counters, as a function of the old value of the key: a statistic that fits
  the operation.
\<close>

text \<open>
  A record stored at a position of the chain of its key, which may have got a new empty entry: at an
  empty position the key was not in the bucket, at another the record there has the key.
\<close>

lemma record_stored:
  assumes ok: "table_ok rs W" and r: "load_record rs (heap W) a = Inr \<lparr>m_key = key, m_value = v\<rparr>"
    and fresh: "a \<notin> set (table_addrs (table W))"
    and es1: "es1 = m_buckets (table W) ! key_bucket (table W) key \<or> es1 = m_buckets (table W) ! key_bucket (table W) key @ [new_Entry]"
    and at: "j < length es1" "i < c_numDataPerEntry"
    and old: "case m_dataList (es1 ! j) ! i of None \<Rightarrow> table_map rs W key = None
      | Some a0 \<Rightarrow> \<exists>v. load_record rs (heap W) a0 = Inr \<lparr>m_key = key, m_value = v\<rparr>"
    and W': "heap W' = heap W" "m_buckets (table W') = (m_buckets (table W))[key_bucket (table W) key :=
      upd_slot es1 j i (Some a) (snd (GetBucketInfo (table W) key))]"
  shows "table_ok rs W'" "table_map rs W' = (table_map rs W)(key \<mapsto> v)"
    "set_option (m_dataList (es1 ! j) ! i) \<subseteq> set (table_addrs (table W))"
    "set (table_addrs (table W')) = (set (table_addrs (table W)) - set_option (m_dataList (es1 ! j) ! i)) \<union> {a}"
proof -
  let ?T = "table W" and ?old = "m_dataList (es1 ! j) ! i" and ?tag = "snd (GetBucketInfo (table W) key)"
  let ?b = "key_bucket ?T key" and ?es' = "upd_slot es1 j i (Some a) ?tag"
  let ?es = "m_buckets ?T ! ?b"
  have b: "?b < length (m_buckets ?T)"
    using table_ok_range [OF ok] .
  have bok: "bucket_ok rs (heap W) ?T ?b ?es"
    using table_ok_bucket [OF ok b] .
  have bok1: "bucket_ok rs (heap W) ?T ?b es1" and kvs1: "bucket_kvs rs (heap W) es1 = bucket_kvs rs (heap W) ?es"
    and addrs1: "slot_addrs (chain_slots es1) = slot_addrs (chain_slots ?es)"
    using es1 bok bucket_ok_new [OF bok] by auto
  have ch: "chain_ok es1"
    using bok1 by (simp add: bucket_ok_def)
  then have ch': "chain_ok ?es'"
    using upd_slot_entry_ok [of es1 j] at by (auto simp: chain_ok_def upd_slot_def)
  obtain xs ys where es: "chain_slots es1 = xs @ (m_tags (es1 ! j) ! i, ?old) # ys"
    and es': "chain_slots ?es' = xs @ (?tag, Some a) # ys"
    using position_slot [OF ch at] by metis
  have old': "case ?old of None \<Rightarrow> map_of (bucket_kvs rs (heap W) es1) key = None
      | Some a0 \<Rightarrow> \<exists>v. load_record rs (heap W) a0 = Inr \<lparr>m_key = key, m_value = v\<rparr>"
    using old table_map_bucket [OF ok, of key] kvs1 by (simp split: option.splits)
  note new = bucket_ok_fill_slot [OF bok1 es old' r refl refl ch' es']
  have dist: "distinct (table_addrs ?T)"
    using ok by (simp add: table_ok_def)
  have d1: "distinct (slot_addrs (chain_slots es1))"
    using distinct_bucket_addrs [OF dist b] addrs1 by simp
  have da: "distinct (slot_addrs (chain_slots ?es'))"
    using fresh slot_addrs_in_table [OF b] addrs1 [symmetric] d1 by (cases ?old) (auto simp: es es')
  have sub: "set (slot_addrs (chain_slots ?es')) \<subseteq> insert a (set (slot_addrs (chain_slots ?es)))"
    unfolding addrs1 [symmetric] by (cases ?old) (auto simp: es es')
  note addrs = table_addrs_set_bucket [OF dist b W'(2) sub da disjI1 [OF fresh]]
  note tab = table_ok_set_bucket [OF ok b new(1) W' addrs(1)]
  show "table_ok rs W'"
    by (rule tab(1))
  have "table_map rs W' k = ((table_map rs W)(key \<mapsto> v)) k" for k
    using tab(2) [of k] new(2) table_map_bucket [OF ok, of k] kvs1 by auto
  then show "table_map rs W' = (table_map rs W)(key \<mapsto> v)"
    by blast
  show "set_option ?old \<subseteq> set (table_addrs ?T)"
    using slot_addrs_in_table [OF b] unfolding addrs1 [symmetric] by (cases ?old) (auto simp: es)
  show "set (table_addrs (table W')) = (set (table_addrs ?T) - set_option ?old) \<union> {a}"
    unfolding addrs(2) using slot_addrs_in_table [OF b] d1 by (cases ?old) (auto simp: es es' addrs1 [symmetric])
qed

text \<open>A chain without an empty position, the only one that \<open>Add\<close> makes longer.\<close>

definition full_chain :: "addr Entry list \<Rightarrow> bool" where
  "full_chain es \<longleftrightarrow> (\<forall>j i. \<not> free_at es j i)"

definition add_stat :: "Key \<Rightarrow> Value \<Rightarrow> Value option \<Rightarrow> nat \<Rightarrow> Stat \<Rightarrow> bool" where
  "add_stat key v old chain stat \<longleftrightarrow> st_keySize stat = ksize key \<and> st_valueSize stat = vsize v \<and>
     st_oldValueSize stat = (case old of None \<Rightarrow> 0 | Some v0 \<Rightarrow> vsize v0) \<and>
     (st_isNewEntryAdded stat \<longrightarrow> old = None \<and> st_chainIndex stat = of_nat (Suc chain))"

lemma Add_record_correct:
  fixes W :: "'e World"
  assumes ok: "table_ok rs W" and r: "load_record rs (heap W) a = Inr \<lparr>m_key = key, m_value = v\<rparr>"
    and fresh: "a \<notin> set (table_addrs (table W))"
  obtains res old stat and W' :: "'e World" where "Add_record rs reg a W = (res, W')"
    "effect rs reg W old {a} ((table_map rs W)(key \<mapsto> v)) res W'" "heap W' = heap W"
    "old = None \<longleftrightarrow> table_map rs W key = None"
    "\<And>a0. old = Some a0 \<Longrightarrow> \<exists>v0. load_record rs (heap W) a0 = Inr \<lparr>m_key = key, m_value = v0\<rparr>"
    "add_stat key v (table_map rs W key) (length (key_chain (table W) key)) stat"
    "m_perfData (table W') = UpdatePerfDataForAdd rs stat (m_perfData (table W))"
    "map length (m_buckets (table W')) = (if st_isNewEntryAdded stat
      then (map length (m_buckets (table W)))[key_bucket (table W) key := Suc (length (key_chain (table W) key))]
      else map length (m_buckets (table W)))"
    "st_isNewEntryAdded stat \<longrightarrow> full_chain (key_chain (table W) key)"
proof -
  obtain b' tag where bt: "GetBucketInfo (table W) key = (b', tag)"
    by (cases "GetBucketInfo (table W) key")
  let ?T = "table W"
  let ?b = "key_bucket ?T key"
  let ?es = "m_buckets ?T ! ?b"
  have b: "?b < length (m_buckets ?T)"
    using table_ok_range [OF ok] .
  have bok: "bucket_ok rs (heap W) ?T ?b ?es"
    using table_ok_bucket [OF ok b] .
  have "?es \<noteq> [] \<or> (None :: (nat \<times> nat) option) \<noteq> None"
    using bok by (simp add: bucket_ok_def chain_ok_def)
  from add_chain_spec [OF bucket_ok_loads [OF bok] this, of "Stat_new (ksize key) (vsize v) 0" tag key 0]
  obtain stat j i where chain: "add_chain rs (heap W) tag key 0 ?es (Stat_new (ksize key) (vsize v) 0) None =
      Inr (stat, Some (j, i))"
    and out: "add_outcome rs (heap W) tag key 0 ?es (Stat_new (ksize key) (vsize v) 0) None stat (j, i)"
    and st: "st_keySize stat = ksize key" "st_valueSize stat = vsize v"
    by (auto simp: Stat_new_def)
  define es1 where "es1 = (if st_isNewEntryAdded stat then ?es @ [new_Entry] else ?es)"
  define old where "old = m_dataList (es1 ! j) ! i"
  note pos = add_position [OF bok bt out, folded es1_def, folded old_def]
  have tmap: "table_map rs W key = map_of (bucket_kvs rs (heap W) ?es) key"
    using table_map_bucket [OF ok, of key] .
  have old_rec: "case old of None \<Rightarrow> table_map rs W key = None
      | Some a0 \<Rightarrow> \<exists>v. load_record rs (heap W) a0 = Inr \<lparr>m_key = key, m_value = v\<rparr>"
    using pos by (auto simp: tmap split: option.splits)
  let ?es' = "upd_slot es1 j i (Some a) tag"
  define T' where "T' = (set_bucket ?b ?es' ?T)\<lparr>m_perfData := UpdatePerfDataForAdd rs stat (m_perfData ?T)\<rparr>"
  define rW where "rW = ReleaseRecord reg old (W\<lparr>table := T'\<rparr>)"
  define W' where "W' = snd rW"
  have tabW': "table W' = T'" and heapW': "heap W' = heap W"
    and regW': "(fst rW, manager W') = (case old of None \<Rightarrow> (Inr (), manager W) | Some a \<Rightarrow> reg a (manager W))"
    by (cases old; simp add: W'_def rW_def ReleaseRecord_Some)+
  have bs: "m_buckets (table W') = (m_buckets ?T)[?b := ?es']"
    by (simp add: tabW' T'_def set_bucket_def)
  have es1: "es1 = ?es \<or> es1 = ?es @ [new_Entry]" and at: "j < length es1" "i < c_numDataPerEntry"
    using pos by (simp_all add: es1_def)
  have bs_tag: "m_buckets (table W') = (m_buckets ?T)[?b := upd_slot es1 j i (Some a) (snd (GetBucketInfo ?T key))]"
    using bs by (simp add: bt)
  note stored = record_stored [OF ok r fresh es1 at old_rec [unfolded old_def] heapW' bs_tag, folded old_def]
  have eff: "effect rs reg W old {a} ((table_map rs W)(key \<mapsto> v)) (fst rW) W'"
    using stored regW' bs by (simp add: effect_def tabW' T'_def set_bucket_def)
  have run: "Add_record rs reg a W = (fst rW, W')"
    using r bt bucket_at_key [OF ok, of key] chain
    by (cases "st_isNewEntryAdded stat")
      (simp_all add: Add_record_def es1_def UpdateRecord_def old_def rW_def W'_def T'_def set_bucket_def Let_def)
  have lens: "map length (m_buckets (table W')) = (if st_isNewEntryAdded stat
      then (map length (m_buckets ?T))[?b := Suc (length ?es)] else map length (m_buckets ?T))"
    using b by (auto simp: bs map_update es1_def) (metis length_map list_update_id nth_map)
  have stat: "add_stat key v (table_map rs W key) (length ?es) stat"
    using pos st out
    by (auto simp: add_stat_def tmap Stat_new_def split: option.splits elim!: add_outcome.cases)
  have full: "st_isNewEntryAdded stat \<longrightarrow> full_chain ?es"
    using out by (cases rule: add_outcome.cases) (auto simp: full_chain_def)
  show ?thesis
  proof (rule that [OF run eff heapW' _ _ stat _ lens full])
    show "old = None \<longleftrightarrow> table_map rs W key = None"
      using pos by (auto simp: tmap split: option.splits)
    show "\<exists>v0. load_record rs (heap W) a0 = Inr \<lparr>m_key = key, m_value = v0\<rparr>" if "old = Some a0" for a0
      using old_rec that by simp
    show "m_perfData (table W') = UpdatePerfDataForAdd rs stat (m_perfData ?T)"
      by (simp add: tabW' T'_def)
  qed
qed

text \<open>The arguments that \<open>Add\<close> accepts, and the allocator's contract.\<close>

definition addable :: "RecordSerializer \<Rightarrow> allocator \<Rightarrow> Key \<Rightarrow> Value \<Rightarrow> bool" where
  "addable rs alloc key v \<longleftrightarrow> good_alloc alloc \<and> valid_key key \<and> valid_value v \<and>
     Validate rs key v = Inr () \<and> m_metadataSize rs = 0"

lemma CreateRecordBuffer_ok:
  assumes "addable rs alloc key v" "finite (dom h)"
  obtains a where "h a = None" "a = fst (alloc h (unat (CalculateBufferSize rs key v)))"
    "CreateRecordBuffer rs alloc key v h = (Inr a, h(a \<mapsto> record_bytes rs key v))"
    "load_record rs (h(a \<mapsto> record_bytes rs key v)) a = Inr \<lparr>m_key = key, m_value = v\<rparr>"
proof -
  obtain a content where al: "alloc h (unat (CalculateBufferSize rs key v)) = (a, content)"
    by (cases "alloc h (unat (CalculateBufferSize rs key v))")
  have free: "h a = None" and len: "length content = unat (CalculateBufferSize rs key v)"
    using assms al unfolding addable_def good_alloc_def by (metis fst_conv snd_conv)+
  have len': "length content = length (record_bytes rs key v)"
    using assms(1) len by (simp add: addable_def buffer_size_nat valid_value_def)
  have "Serialize rs key v content (CalculateBufferSize rs key v) = Inr (record_bytes rs key v)"
    using Serialize_eq [of rs key v "CalculateBufferSize rs key v" content] assms(1) len'
    by (simp add: addable_def)
  then have "CreateRecordBuffer rs alloc key v h = (Inr a, h(a \<mapsto> record_bytes rs key v))"
    by (simp add: CreateRecordBuffer_def al)
  moreover have "sizes_ok rs key v"
    using sizes_ok_of_Validate [of rs key v "[]"] assms(1) by (simp add: addable_def vsize_def)
  then have "load_record rs (h(a \<mapsto> record_bytes rs key v)) a = Inr \<lparr>m_key = key, m_value = v\<rparr>"
    by (simp add: load_record_def Deserialize_record_bytes_exact)
  ultimately show ?thesis
    using that free al by simp
qed

lemma table_addrs_allocated:
  assumes "table_ok rs W"
  shows "set (table_addrs (table W)) \<subseteq> dom (heap W)"
proof
  fix a
  assume "a \<in> set (table_addrs (table W))"
  then obtain b where b: "b < length (m_buckets (table W))"
      "a \<in> set (slot_addrs (chain_slots (m_buckets (table W) ! b)))"
    unfolding in_table_addrs by (metis in_set_conv_nth)
  then obtain t where "(t, Some a) \<in> set (chain_slots (m_buckets (table W) ! b))"
    using in_slot_addrs by blast
  from bucket_slot [OF table_ok_bucket [OF assms b(1)] this]
  show "a \<in> dom (heap W)"
    by (auto simp: load_record_def split: option.splits)
qed

lemma Add_record_fresh:
  fixes W :: "'e World"
  assumes ok: "table_ok rs W" and a: "heap W a = None"
    and r: "load_record rs ((heap W)(a \<mapsto> bytes)) a = Inr \<lparr>m_key = key, m_value = v\<rparr>"
  obtains res old stat and W' :: "'e World" where "Add_record rs reg a (W\<lparr>heap := (heap W)(a \<mapsto> bytes)\<rparr>) = (res, W')"
    "heap W' = (heap W)(a \<mapsto> bytes)"
    "effect rs reg W old {a} ((table_map rs W)(key \<mapsto> v)) res W'"
    "old = None \<longleftrightarrow> table_map rs W key = None"
    "add_stat key v (table_map rs W key) (length (key_chain (table W) key)) stat"
    "m_perfData (table W') = UpdatePerfDataForAdd rs stat (m_perfData (table W))"
    "map length (m_buckets (table W')) = (if st_isNewEntryAdded stat
      then (map length (m_buckets (table W)))[key_bucket (table W) key := Suc (length (key_chain (table W) key))]
      else map length (m_buckets (table W)))"
    "st_isNewEntryAdded stat \<longrightarrow> full_chain (key_chain (table W) key)"
proof -
  have fin: "finite (dom (heap W))"
    using ok by (simp add: table_ok_def)
  define W1 where "W1 = W\<lparr>heap := (heap W)(a \<mapsto> bytes)\<rparr>"
  have fresh: "a \<notin> set (table_addrs (table W1))"
    using table_addrs_allocated [OF ok] a by (auto simp: W1_def)
  have W1: "table_ok rs W1" "table_map rs W1 = table_map rs W"
    using table_ok_heap [OF ok, of W1] fresh fin by (auto simp: W1_def)
  have r1: "load_record rs (heap W1) a = Inr \<lparr>m_key = key, m_value = v\<rparr>"
    using r by (simp add: W1_def)
  obtain res old stat W' where *: "Add_record rs reg a W1 = (res, W')"
    "effect rs reg W1 old {a} ((table_map rs W1)(key \<mapsto> v)) res W'" "heap W' = heap W1"
    "old = None \<longleftrightarrow> table_map rs W1 key = None"
    "add_stat key v (table_map rs W1 key) (length (key_chain (table W1) key)) stat"
    "m_perfData (table W') = UpdatePerfDataForAdd rs stat (m_perfData (table W1))"
    "map length (m_buckets (table W')) = (if st_isNewEntryAdded stat
      then (map length (m_buckets (table W1)))[key_bucket (table W1) key := Suc (length (key_chain (table W1) key))]
      else map length (m_buckets (table W1)))"
    "st_isNewEntryAdded stat \<longrightarrow> full_chain (key_chain (table W1) key)"
    using Add_record_correct [OF W1(1) r1 fresh, of reg] by metis
  have tab: "table W1 = table W" and man: "manager W1 = manager W"
    by (simp_all add: W1_def)
  have eff: "effect rs reg W old {a} ((table_map rs W)(key \<mapsto> v)) res W'"
    using *(2) unfolding effect_def tab man W1(2) .
  show ?thesis
    by (rule that [of res W' old stat])
      (use * eff in \<open>simp_all add: tab W1(2)\<close>, simp_all add: W1_def)
qed

lemma Add_cases:
  fixes W :: "'e World"
  assumes ok: "table_ok rs W" and add: "addable rs alloc key v"
  obtains res a old stat and W' :: "'e World" where "Add rs alloc reg W key v = (res, W')"
    "heap W a = None" "heap W' = (heap W)(a \<mapsto> record_bytes rs key v)"
    "effect rs reg W old {a} ((table_map rs W)(key \<mapsto> v)) res W'"
    "old = None \<longleftrightarrow> table_map rs W key = None"
    "add_stat key v (table_map rs W key) (length (key_chain (table W) key)) stat"
    "m_perfData (table W') = UpdatePerfDataForAdd rs stat (m_perfData (table W))"
    "map length (m_buckets (table W')) = (if st_isNewEntryAdded stat
      then (map length (m_buckets (table W)))[key_bucket (table W) key := Suc (length (key_chain (table W) key))]
      else map length (m_buckets (table W)))"
    "st_isNewEntryAdded stat \<longrightarrow> full_chain (key_chain (table W) key)"
proof -
  have fin: "finite (dom (heap W))"
    using ok by (simp add: table_ok_def)
  obtain a where a: "heap W a = None"
      "CreateRecordBuffer rs alloc key v (heap W) = (Inr a, (heap W)(a \<mapsto> record_bytes rs key v))"
      "load_record rs ((heap W)(a \<mapsto> record_bytes rs key v)) a = Inr \<lparr>m_key = key, m_value = v\<rparr>"
    using CreateRecordBuffer_ok [OF add fin] by metis
  have run: "Add rs alloc reg W key v = Add_record rs reg a (W\<lparr>heap := (heap W)(a \<mapsto> record_bytes rs key v)\<rparr>)"
    by (simp add: Add_def a(2))
  show ?thesis
    by (cases rule: Add_record_fresh [OF ok a(1,3), of reg]) (rule that [OF _ a(1)], simp_all add: run)
qed

text \<open>When the sizes are rejected, the table is as before; the buffer allocated for the record stays.\<close>

lemma table_ok_allocated:
  assumes ok: "table_ok rs W" and "heap W a = None"
  shows "table_ok rs (W\<lparr>heap := (heap W)(a \<mapsto> bytes)\<rparr>)" "table_map rs (W\<lparr>heap := (heap W)(a \<mapsto> bytes)\<rparr>) = table_map rs W"
proof -
  have "a \<notin> set (table_addrs (table W))" "finite (dom (heap W))"
    using table_addrs_allocated [OF ok] assms by (auto simp: table_ok_def)
  then have "table_ok rs (W\<lparr>heap := (heap W)(a \<mapsto> bytes)\<rparr>) \<and>
      table_map rs (W\<lparr>heap := (heap W)(a \<mapsto> bytes)\<rparr>) = table_map rs W"
    by (intro table_ok_heap [OF ok]) auto
  then show "table_ok rs (W\<lparr>heap := (heap W)(a \<mapsto> bytes)\<rparr>)" "table_map rs (W\<lparr>heap := (heap W)(a \<mapsto> bytes)\<rparr>) = table_map rs W"
    by simp_all
qed

lemma Add_rejected:
  assumes ok: "table_ok rs W" and "good_alloc alloc" and bad: "Validate rs key v = Inl e"
  obtains a bytes where "heap W a = None" "Add rs alloc reg W key v = (Inl e, W\<lparr>heap := (heap W)(a \<mapsto> bytes)\<rparr>)"
    "table_ok rs (W\<lparr>heap := (heap W)(a \<mapsto> bytes)\<rparr>)"
    "table_map rs (W\<lparr>heap := (heap W)(a \<mapsto> bytes)\<rparr>) = table_map rs W"
proof -
  obtain a bytes where al: "alloc (heap W) (unat (CalculateBufferSize rs key v)) = (a, bytes)"
    by (cases "alloc (heap W) (unat (CalculateBufferSize rs key v))")
  have fin: "finite (dom (heap W))"
    using ok by (simp add: table_ok_def)
  have free: "heap W a = None"
    using assms(2) fin al unfolding good_alloc_def by (metis fst_conv)
  have "Add rs alloc reg W key v = (Inl e, W\<lparr>heap := (heap W)(a \<mapsto> bytes)\<rparr>)"
    by (simp add: Add_def CreateRecordBuffer_def al Serialize_Validate [OF bad])
  then show ?thesis
    using that [OF free] table_ok_allocated [OF ok free] by simp
qed

section \<open>A new table, and the table contract\<close>

lemma no_slots [simp]: "slot_addrs (replicate n (t, None)) = []" "slots_kvs rs h (replicate n (t, None)) = []"
  by (induction n) simp_all

lemma table_addrs_new [simp]: "table_addrs (SharedHashTable_new sm st s) = []"
proof -
  have "concat (replicate m []) = []" for m
    by (induction m) simp_all
  then show ?thesis
    by (simp add: table_addrs_def SharedHashTable_new_def Let_def entry_slots_new)
qed

lemma table_ok_new:
  assumes "0 < m_numBuckets s" "finite (dom h)"
  shows "table_ok rs \<lparr>heap = h, table = SharedHashTable_new sm st s, manager = e\<rparr>"
    and "table_map rs \<lparr>heap = h, table = SharedHashTable_new sm st s, manager = e\<rparr> = Map.empty"
proof -
  have b: "m_buckets (SharedHashTable_new sm st s) = replicate (unat (m_numBuckets s)) [new_Entry]"
    by (simp add: SharedHashTable_new_def Let_def)
  have "unat (m_numBuckets s) < 2 ^ 32"
    using unsigned_less [of "m_numBuckets s"] by simp
  moreover have "0 < unat (m_numBuckets s)"
    using assms(1) by (simp add: unat_gt_0 word_neq_0_conv)
  moreover have "concat (replicate n []) = []" for n
    by (induction n) simp_all
  ultimately show "table_ok rs \<lparr>heap = h, table = SharedHashTable_new sm st s, manager = e\<rparr>"
    using assms(2)
    by (simp add: table_ok_def b bucket_ok_def chain_ok_def bucket_kvs_def slots_kvs_new
        table_addrs_def entry_slots_new slot_ok_def list_all_iff del: length_greater_0_conv)
  show "table_map rs \<lparr>heap = h, table = SharedHashTable_new sm st s, manager = e\<rparr> = Map.empty"
    using \<open>\<And>n. concat (replicate n []) = []\<close>
    by (simp add: table_map_def table_kvs_def b bucket_kvs_def slots_kvs_new)
qed

definition put_record :: "RecordSerializer \<Rightarrow> allocator \<Rightarrow> 'e reg \<Rightarrow> 'e World \<Rightarrow> Key \<Rightarrow> Value \<Rightarrow> 'e World" where
  "put_record rs alloc reg W key v = snd (Add rs alloc reg W key v)"

definition del_record :: "RecordSerializer \<Rightarrow> 'e reg \<Rightarrow> 'e World \<Rightarrow> Key \<Rightarrow> 'e World" where
  "del_record rs reg W key = snd (Remove rs reg W key)"

interpretation rw: kv_table "table_ok rs" "table_map rs" "addable rs alloc" "Get rs"
  "put_record rs alloc reg" "del_record rs reg"
proof unfold_locales
  show "Get rs W k = Inr (table_map rs W k)" if "table_ok rs W" for W :: "'a World" and k
    by (rule Get_correct [OF that])
  show "table_ok rs (put_record rs alloc reg W k v)" "table_map rs (put_record rs alloc reg W k v) = (table_map rs W)(k \<mapsto> v)"
    if "table_ok rs W" "addable rs alloc k v" for W k v
    by (rule Add_cases [OF that, of reg], simp add: put_record_def effect_def)+
  show "table_ok rs (del_record rs reg W k)" "table_map rs (del_record rs reg W k) = (table_map rs W)(k := None)"
    if "table_ok rs W" for W k
    using that by (cases rule: Remove_cases [OF that, of k reg]; simp add: del_record_def effect_def fun_upd_idem)+
qed

section \<open>Properties\<close>

text \<open>The settings and world of the examples: two buckets, variable sizes, an empty heap, and an
  action manager that queues what it is given.\<close>

definition demo_rs :: RecordSerializer where
  "demo_rs = \<lparr>m_fixedKeySize = 0, m_fixedValueSize = 0, m_metadataSize = 0\<rparr>"

definition demo_world :: "addr list World" where
  "demo_world = \<lparr>heap = Map.empty, table = SharedHashTable_new 80 248 \<lparr>m_numBuckets = 2,
     m_numBucketsPerMutex = 1, s_fixedKeySize = 0, s_fixedValueSize = 0\<rparr>, manager = []\<rparr>"

definition queue_reg :: "addr list reg" where
  "queue_reg a q = (Inr (), q @ [a])"

lemma table_ok_demo: "table_ok demo_rs demo_world" "table_map demo_rs demo_world = Map.empty"
  unfolding demo_world_def by (rule table_ok_new; simp)+

lemma addable_demo: "valid_key k \<Longrightarrow> valid_value v \<Longrightarrow> addable demo_rs first_fit k v"
  by (simp add: addable_def demo_rs_def Validate_def good_alloc_first_fit)

lemma demo_filled:
  assumes "valid_key k" "valid_value v"
  shows "table_ok demo_rs (put_record demo_rs first_fit queue_reg demo_world k v)"
    and "table_map demo_rs (put_record demo_rs first_fit queue_reg demo_world k v) = [k \<mapsto> v]"
  using rw.put_inv [OF table_ok_demo(1) addable_demo [OF assms], of queue_reg]
    rw.put_abs [OF table_ok_demo(1) addable_demo [OF assms], of queue_reg] table_ok_demo(2)
  by simp_all

text \<open>C5: after any sequence of \<open>Add\<close> and \<open>Remove\<close> calls on a new table, whatever the hashes,
  the chaining of entries and the behaviour of the action manager, \<open>Get\<close> returns for each key the
  value of the last \<open>Add\<close> of this key that no later \<open>Remove\<close> of it follows, and false for the
  other keys; no call reads outside the memory or fails an assertion.\<close>

theorem Get_after_operations:
  assumes "0 < m_numBuckets s" "finite (dom h)" "accepted (addable rs alloc) ops"
  shows "Get rs (run_ops (put_record rs alloc reg) (del_record rs reg) ops
      \<lparr>heap = h, table = SharedHashTable_new sm st s, manager = e\<rparr>) key =
    Inr (last_write ops Map.empty key)"
  using rw.get_run [OF table_ok_new(1) [OF assms(1,2), of rs sm st e] assms(3), of reg key]
    table_ok_new(2) [OF assms(1,2), of rs sm st e] by (simp only:)

theorem Get_after_operations_witness:
  "Get demo_rs (run_ops (put_record demo_rs first_fit queue_reg) (del_record demo_rs queue_reg)
      [Put [1] [2], Put [4] [5], Put [1] [3, 3], Del [4]]
      \<lparr>heap = Map.empty, table = SharedHashTable_new 80 248 \<lparr>m_numBuckets = 2, m_numBucketsPerMutex = 1,
        s_fixedKeySize = 0, s_fixedValueSize = 0\<rparr>, manager = []\<rparr>) [1] = Inr (Some [3, 3])"
  by (subst Get_after_operations) (simp_all add: addable_demo valid_key_def valid_value_def apply_op_def)

text \<open>\<open>Get\<close> on a well-formed table returns what the abstract map has for the key.\<close>

theorem Get_lookup:
  assumes "table_ok rs W"
  shows "Get rs W key = Inr (table_map rs W key)"
  by (rule Get_correct [OF assms])

theorem Get_lookup_witness:
  "Get demo_rs (put_record demo_rs first_fit queue_reg demo_world [1, 2] [3]) [1, 2] = Inr (Some [3]) \<and>
   Get demo_rs demo_world [1, 2] = Inr None"
  using Get_lookup [of demo_rs "put_record demo_rs first_fit queue_reg demo_world [1, 2] [3]" "[1, 2]"]
    Get_lookup [of demo_rs demo_world "[1, 2]"] demo_filled [of "[1, 2]" "[3]"] table_ok_demo
  by (simp add: valid_key_def valid_value_def)

text \<open>C8: \<open>Add\<close> of an acceptable key and value on a well-formed table leaves a well-formed table
  whose map is updated at the key. Exactly one buffer is allocated, at an address that was free, and
  it holds the serialized record. When the key was there, its old buffer leaves the table, stays
  allocated, and is the one thing registered with the action manager (whose outcome is the outcome of
  \<open>Add\<close>); otherwise nothing is registered.\<close>

theorem Add_updates_map:
  fixes W :: "'e World"
  assumes "table_ok rs W" "addable rs alloc key v"
  shows "\<exists>res a old (W' :: 'e World). Add rs alloc reg W key v = (res, W') \<and>
    table_ok rs W' \<and> table_map rs W' = (table_map rs W)(key \<mapsto> v) \<and>
    heap W a = None \<and> heap W' = (heap W)(a \<mapsto> record_bytes rs key v) \<and>
    set (table_addrs (table W')) = (set (table_addrs (table W)) - set_option old) \<union> {a} \<and>
    (old = None \<longleftrightarrow> table_map rs W key = None) \<and> set_option old \<subseteq> set (table_addrs (table W)) \<and>
    (res, manager W') = (case old of None \<Rightarrow> (Inr (), manager W) | Some a0 \<Rightarrow> reg a0 (manager W))"
proof (cases rule: Add_cases [OF assms, of reg])
  case (1 res a old stat W')
  then show ?thesis
    by (intro exI [of _ res] exI [of _ a] exI [of _ old] exI [of _ W']) (unfold effect_def, blast)
qed

theorem Add_updates_map_witness:
  "\<exists>res a old (W' :: addr list World). Add demo_rs first_fit queue_reg
      (put_record demo_rs first_fit queue_reg demo_world [1] [2]) [1] [3] = (res, W') \<and>
    table_ok demo_rs W' \<and> table_map demo_rs W' =
      (table_map demo_rs (put_record demo_rs first_fit queue_reg demo_world [1] [2]))([1] \<mapsto> [3]) \<and>
    heap (put_record demo_rs first_fit queue_reg demo_world [1] [2]) a = None \<and>
    heap W' = (heap (put_record demo_rs first_fit queue_reg demo_world [1] [2]))(a \<mapsto> record_bytes demo_rs [1] [3]) \<and>
    set (table_addrs (table W')) = (set (table_addrs (table
      (put_record demo_rs first_fit queue_reg demo_world [1] [2]))) - set_option old) \<union> {a} \<and>
    (old = None \<longleftrightarrow> table_map demo_rs (put_record demo_rs first_fit queue_reg demo_world [1] [2]) [1] = None) \<and>
    set_option old \<subseteq> set (table_addrs (table (put_record demo_rs first_fit queue_reg demo_world [1] [2]))) \<and>
    (res, manager W') = (case old of None \<Rightarrow> (Inr (), manager (put_record demo_rs first_fit queue_reg demo_world [1] [2]))
      | Some a0 \<Rightarrow> queue_reg a0 (manager (put_record demo_rs first_fit queue_reg demo_world [1] [2])))"
  by (rule Add_updates_map)
    (simp_all add: demo_filled addable_demo valid_key_def valid_value_def)

text \<open>C9: \<open>Remove\<close> on a well-formed table returns false and changes nothing when the key is not
  there. Otherwise the record leaves the map, its buffer, still allocated, leaves the table and is
  handed to the action manager, and the result is true unless registering the action threw.\<close>

theorem Remove_deletes:
  fixes W :: "'e World"
  assumes "table_ok rs W"
  shows "(table_map rs W key = None \<and> Remove rs reg W key = (Inr False, W)) \<or>
    (\<exists>a (W' :: 'e World). Remove rs reg W key = (bind_res (fst (reg a (manager W))) (\<lambda>_. Inr True), W') \<and>
      table_map rs W key \<noteq> None \<and> table_ok rs W' \<and> table_map rs W' = (table_map rs W)(key := None) \<and>
      a \<in> set (table_addrs (table W)) \<and> set (table_addrs (table W')) = set (table_addrs (table W)) - {a} \<and>
      heap W' = heap W \<and> manager W' = snd (reg a (manager W)))"
proof (rule Remove_cases [OF assms, of key reg])
  fix v a W'
  assume "table_map rs W key = Some v"
    "Remove rs reg W key = (bind_res (fst (reg a (manager W))) (\<lambda>_. Inr True), W')"
    "effect rs reg W (Some a) {} ((table_map rs W)(key := None)) (fst (reg a (manager W))) W'" "heap W' = heap W"
  then show ?thesis
    by (intro disjI2 exI [of _ a] exI [of _ W']) (auto simp: effect_def prod_eq_iff)
qed simp

theorem Remove_deletes_witness:
  "fst (Remove demo_rs queue_reg (put_record demo_rs first_fit queue_reg demo_world [1] [2]) [1]) = Inr True \<and>
   fst (Remove demo_rs queue_reg demo_world [1]) = Inr False"
proof -
  have *: "table_ok demo_rs (put_record demo_rs first_fit queue_reg demo_world [1] [2])"
    "table_map demo_rs (put_record demo_rs first_fit queue_reg demo_world [1] [2]) [1] = Some [2]"
    by (simp_all add: demo_filled valid_key_def valid_value_def)
  show ?thesis
    using Remove_deletes [OF *(1), of "[1]" queue_reg] *(2)
      Remove_deletes [OF table_ok_demo(1), of "[1]" queue_reg]
    by (elim disjE exE conjE) (simp_all add: queue_reg_def table_ok_demo(2))
qed

end
