(* ===== verification/L4_TablePerf.thy ===== *)
theory L4_TablePerf
  imports L4_TableMap
begin

text \<open>
  What the performance counters of a table say about its contents, the cases where they do not, a
  buffer that a rejected \<open>Add\<close> leaves behind, and the destruction of a table.
\<close>

section \<open>Counters and contents\<close>

definition chained :: "SharedHashTable \<Rightarrow> nat" where
  "chained T = sum_list (map (\<lambda>es. length es - 1) (m_buckets T))"

text \<open>
  \<open>base\<close> is the index size of the empty table, as the constructor computed it. The equations are
  between 64-bit words, so they hold even where a counter wraps.
\<close>

definition perf_ok :: "nat \<Rightarrow> RecordSerializer \<Rightarrow> 'e World \<Rightarrow> bool" where
  "perf_ok base rs W \<longleftrightarrow>
     (let m = table_map rs W; pd = m_perfData (table W) in
      pd RecordsCount = of_nat (card (dom m)) \<and>
      pd TotalKeySize = of_nat (\<Sum>k\<in>dom m. length k) \<and>
      pd TotalValueSize = of_nat (\<Sum>k\<in>dom m. length (the (m k))) \<and>
      pd ChainingEntriesCount = of_nat (chained (table W)) \<and>
      pd TotalIndexSize =
        of_nat (base + CalculateRecordOverhead rs * card (dom m) + sizeof_Entry * chained (table W)))"

lemma perf_ok_new:
  assumes "0 < m_numBuckets s" "finite (dom h)"
  shows "perf_ok (unat (m_numBuckets s) * sizeof_Entry + unat (num_mutexes s) * sm + st) rs
    \<lparr>heap = h, table = SharedHashTable_new sm st s, manager = e\<rparr>"
  using table_ok_new(2) [OF assms, of rs sm st e]
  by (simp add: perf_ok_def Let_def SharedHashTable_new_def HashTablePerfData_init_def
      PerfCounters_init_def chained_def sum_list_replicate)

lemma finite_table_map: "finite (dom (table_map rs W))"
  by (simp add: table_map_def finite_dom_map_of)

lemma sum_dom_upd:
  assumes "finite (dom m)"
  shows "(\<Sum>x\<in>dom (m(k \<mapsto> v)). f x ((m(k \<mapsto> v)) x)) + (if k \<in> dom m then f k (m k) else 0) =
    (\<Sum>x\<in>dom m. f x (m x)) + (f k (Some v) :: nat)"
proof -
  have same: "(\<Sum>x\<in>dom m - {k}. f x ((m(k \<mapsto> v)) x)) = (\<Sum>x\<in>dom m - {k}. f x (m x))"
    by (rule sum.cong) auto
  have "(\<Sum>x\<in>dom (m(k \<mapsto> v)). f x ((m(k \<mapsto> v)) x)) = f k (Some v) + (\<Sum>x\<in>dom m - {k}. f x (m x))"
    using assms same by (simp add: sum.insert_remove)
  moreover have "(\<Sum>x\<in>dom m. f x (m x)) = (if k \<in> dom m then f k (m k) else 0) + (\<Sum>x\<in>dom m - {k}. f x (m x))"
    using assms by (auto simp: sum.remove)
  ultimately show ?thesis
    by simp
qed

lemma sum_dom_del:
  assumes "finite (dom m)" "k \<in> dom m"
  shows "(\<Sum>x\<in>dom (m(k := None)). f x ((m(k := None)) x)) + f k (m k) = (\<Sum>x\<in>dom m. f x (m x) :: nat)"
proof -
  have "(\<Sum>x\<in>dom m - {k}. f x ((m(k := None)) x)) = (\<Sum>x\<in>dom m - {k}. f x (m x))"
    by (rule sum.cong) auto
  moreover have "dom (m(k := None)) = dom m - {k}"
    by auto
  ultimately show ?thesis
    using assms by (simp add: sum.remove add.commute)
qed

lemma ucast_ksize: "valid_key k \<Longrightarrow> (ucast (ksize k) :: u64) = of_nat (length k)"
  by (rule ucast_of_unat [OF unat_ksize])

lemma ucast_vsize: "valid_value v \<Longrightarrow> (ucast (vsize v) :: u64) = of_nat (length v)"
  by (rule ucast_of_unat [OF unat_vsize])

text \<open>The counters that \<open>perf_ok\<close> is about, after each kind of update.\<close>

lemma perf_add_replace:
  assumes "st_oldValueSize stat \<noteq> 0"
  shows "UpdatePerfDataForAdd rs stat pd RecordsCount = pd RecordsCount"
    "UpdatePerfDataForAdd rs stat pd TotalKeySize = pd TotalKeySize"
    "UpdatePerfDataForAdd rs stat pd TotalValueSize =
      pd TotalValueSize + (ucast (st_valueSize stat) - ucast (st_oldValueSize stat))"
    "UpdatePerfDataForAdd rs stat pd TotalIndexSize = pd TotalIndexSize"
    "UpdatePerfDataForAdd rs stat pd ChainingEntriesCount = pd ChainingEntriesCount"
  using assms by (simp_all add: UpdatePerfDataForAdd_def)

lemma perf_add_new:
  assumes "st_oldValueSize stat = 0"
  shows "UpdatePerfDataForAdd rs stat pd RecordsCount = pd RecordsCount + 1"
    "UpdatePerfDataForAdd rs stat pd TotalKeySize = pd TotalKeySize + ucast (st_keySize stat)"
    "UpdatePerfDataForAdd rs stat pd TotalValueSize = pd TotalValueSize + ucast (st_valueSize stat)"
    "UpdatePerfDataForAdd rs stat pd TotalIndexSize = pd TotalIndexSize +
      of_nat (CalculateRecordOverhead rs + (if st_isNewEntryAdded stat then sizeof_Entry else 0))"
    "UpdatePerfDataForAdd rs stat pd ChainingEntriesCount =
      pd ChainingEntriesCount + (if st_isNewEntryAdded stat then 1 else 0)"
  using assms by (simp_all add: UpdatePerfDataForAdd_def Let_def)

lemma perf_remove:
  "UpdatePerfDataForRemove rs stat pd RecordsCount = pd RecordsCount - 1"
  "UpdatePerfDataForRemove rs stat pd TotalKeySize = pd TotalKeySize - ucast (st_keySize stat)"
  "UpdatePerfDataForRemove rs stat pd TotalValueSize = pd TotalValueSize - ucast (st_valueSize stat)"
  "UpdatePerfDataForRemove rs stat pd TotalIndexSize = pd TotalIndexSize - of_nat (CalculateRecordOverhead rs)"
  "UpdatePerfDataForRemove rs stat pd ChainingEntriesCount = pd ChainingEntriesCount"
  by (simp_all add: UpdatePerfDataForRemove_def)

text \<open>The number of chained entries, from the lengths of the chains.\<close>

lemma chained_lengths: "chained T = sum_list (map (\<lambda>n. n - 1) (map length (m_buckets T)))"
  by (simp add: chained_def comp_def)

lemma chained_same: "map length (m_buckets T') = map length (m_buckets T) \<Longrightarrow> chained T' = chained T"
  by (simp only: chained_lengths)

lemma sum_list_upd_Suc:
  "b < length ns \<Longrightarrow> 0 < ns ! b \<Longrightarrow>
    sum_list (map (\<lambda>n. n - 1) (ns[b := Suc (ns ! b)])) = Suc (sum_list (map (\<lambda>n. n - 1) ns))"
proof (induction ns arbitrary: b)
  case Nil
  then show ?case by simp
next
  case (Cons n ns)
  then show ?case by (cases b) auto
qed

lemma chained_Suc:
  assumes "map length (m_buckets T') = (map length (m_buckets T))[b := Suc (length (m_buckets T ! b))]"
    and "b < length (m_buckets T)" "m_buckets T ! b \<noteq> []"
  shows "chained T' = Suc (chained T)"
  using assms sum_list_upd_Suc [of b "map length (m_buckets T)"] by (simp add: chained_lengths)

section \<open>Add and Remove keep the counters exact\<close>

lemma of_nat_eqI: "a + b = c + d \<Longrightarrow> (of_nat a :: u64) + of_nat b = of_nat c + of_nat d"
  by (simp only: of_nat_add [symmetric])

lemma removed_perf:
  assumes m': "table_map rs W' = (table_map rs W)(key := None)" and v: "table_map rs W key = Some v"
    and kv: "valid_key key" "valid_value v" and lens: "map length (m_buckets (table W')) = map length (m_buckets (table W))"
    and pd: "m_perfData (table W') = UpdatePerfDataForRemove rs (Stat_new (ksize key) (vsize v) 0) (m_perfData (table W))"
    and perf: "perf_ok base rs W"
  shows "perf_ok base rs W'"
proof -
  let ?m = "table_map rs W"
  have key: "key \<in> dom ?m"
    using v by auto
  have c: "card (dom (?m(key := None))) + 1 = card (dom ?m)"
    using sum_dom_del [OF finite_table_map key, of "\<lambda>_ _. 1"] by simp
  have k: "(\<Sum>k\<in>dom (?m(key := None)). length k) + length key = (\<Sum>k\<in>dom ?m. length k)"
    using sum_dom_del [OF finite_table_map key, of "\<lambda>k _. length k"] .
  have vs: "(\<Sum>k\<in>dom (?m(key := None)). length (the ((?m(key := None)) k))) + length v =
      (\<Sum>k\<in>dom ?m. length (the (?m k)))"
    using sum_dom_del [OF finite_table_map key, of "\<lambda>_ v. length (the v)"] v by simp
  note sums = c [symmetric] k [symmetric] vs [symmetric]
  show ?thesis
    using perf unfolding perf_ok_def Let_def m' pd perf_remove chained_same [OF lens] sums
    by (simp only: Stat_new_def Stat.simps ucast_ksize [OF kv(1)] ucast_vsize [OF kv(2)])
      (simp add: algebra_simps)
qed

lemma Remove_perf:
  assumes ok: "table_ok rs W" and perf: "perf_ok base rs W"
  shows "perf_ok base rs (del_record rs reg W key)"
proof (cases rule: Remove_cases [OF ok, of key reg])
  case 1
  then show ?thesis
    using perf by (simp add: del_record_def)
next
  case (2 v a W')
  have "table_map rs W' = (table_map rs W)(key := None)"
    using 2(3) by (simp add: effect_def)
  then show ?thesis
    using removed_perf [OF _ 2(1) _ _ 2(7,8) perf] load_valid [OF 2(6)] by (simp add: del_record_def 2(2))
qed

lemma chained_added:
  assumes ok: "table_ok rs W" and lens: "map length (m_buckets (table W')) = (if added
      then (map length (m_buckets (table W)))[key_bucket (table W) key := Suc (length (key_chain (table W) key))]
      else map length (m_buckets (table W)))"
  shows "chained (table W') = chained (table W) + (if added then 1 else 0)"
proof (cases added)
  case True
  have bk: "key_bucket (table W) key < length (m_buckets (table W))" "key_chain (table W) key \<noteq> []"
    using table_ok_range [OF ok, of key] table_ok_bucket [OF ok, of "key_bucket (table W) key"]
    by (simp_all add: bucket_ok_def chain_ok_def)
  from True lens have "map length (m_buckets (table W')) = (map length (m_buckets (table W)))
      [key_bucket (table W) key := Suc (length (key_chain (table W) key))]"
    by (simp only: if_True)
  from chained_Suc [OF this bk] True show ?thesis
    by simp
next
  case False
  with lens have "map length (m_buckets (table W')) = map length (m_buckets (table W))"
    by (simp only: if_False)
  from chained_same [OF this] False show ?thesis
    by simp
qed

lemma table_value_valid:
  assumes "table_map rs W k = Some v"
  shows "valid_value v"
proof -
  have "(k, v) \<in> set (table_kvs rs (heap W) (table W))"
    using assms unfolding table_map_def by (rule map_of_SomeD)
  then show ?thesis
    using load_valid by (auto simp: table_kvs_def bucket_kvs_def in_slots_kvs)
qed

lemma added_perf:
  assumes ok: "table_ok rs W" and perf: "perf_ok base rs W" and m': "table_map rs W' = (table_map rs W)(key \<mapsto> v)"
    and kv: "valid_key key" "valid_value v" and old_value: "table_map rs W key \<noteq> Some []"
    and stat: "add_stat key v (table_map rs W key) (length (key_chain (table W) key)) stat"
    and pd: "m_perfData (table W') = UpdatePerfDataForAdd rs stat (m_perfData (table W))"
    and lens: "map length (m_buckets (table W')) = (if st_isNewEntryAdded stat
      then (map length (m_buckets (table W)))[key_bucket (table W) key := Suc (length (key_chain (table W) key))]
      else map length (m_buckets (table W)))"
  shows "perf_ok base rs W'"
proof -
  let ?m = "table_map rs W"
  let ?m' = "?m(key \<mapsto> v)"
  have st: "st_keySize stat = ksize key" "st_valueSize stat = vsize v"
    using stat by (simp_all add: add_stat_def)
  have c: "card (dom ?m') + (if key \<in> dom ?m then 1 else 0) = card (dom ?m) + 1"
    using sum_dom_upd [OF finite_table_map [of rs W], where f = "\<lambda>_ _. 1" and k = key and v = v] by simp
  have k: "(\<Sum>k\<in>dom ?m'. length k) + (if key \<in> dom ?m then length key else 0) =
      (\<Sum>k\<in>dom ?m. length k) + length key"
    using sum_dom_upd [OF finite_table_map [of rs W], where f = "\<lambda>k _. length k" and k = key and v = v] .
  have vs: "(\<Sum>k\<in>dom ?m'. length (the (?m' k))) + (if key \<in> dom ?m then length (the (?m key)) else 0) =
      (\<Sum>k\<in>dom ?m. length (the (?m k))) + length v"
    using sum_dom_upd [OF finite_table_map [of rs W], where f = "\<lambda>_ v. length (the v)" and k = key and v = v] by simp
  show ?thesis
  proof (cases "?m key")
    case None
    then have old: "st_oldValueSize stat = 0" and out: "key \<notin> dom ?m"
      using stat by (auto simp: add_stat_def)
    have ch: "chained (table W') = chained (table W) + (if st_isNewEntryAdded stat then 1 else 0)"
      by (rule chained_added [OF ok lens])
    have sums: "card (dom ?m') = card (dom ?m) + 1" "(\<Sum>k\<in>dom ?m'. length k) = (\<Sum>k\<in>dom ?m. length k) + length key"
      "(\<Sum>k\<in>dom ?m'. length (the (?m' k))) = (\<Sum>k\<in>dom ?m. length (the (?m k))) + length v"
      using c k vs out by simp_all
    show ?thesis
      using perf unfolding perf_ok_def Let_def m' pd perf_add_new [OF old] ch sums
      by (simp only: st ucast_ksize [OF kv(1)] ucast_vsize [OF kv(2)])
        (simp add: algebra_simps)
  next
    case (Some v0)
    have v0: "valid_value v0"
      by (rule table_value_valid [OF Some])
    have old: "st_oldValueSize stat = vsize v0" "\<not> st_isNewEntryAdded stat" and "in": "key \<in> dom ?m"
      using stat Some by (auto simp: add_stat_def)
    have "vsize v0 \<noteq> 0"
      using old_value Some vsize_0_iff [OF v0] by simp
    then have old0: "st_oldValueSize stat \<noteq> 0"
      by (simp add: old)
    have sums: "card (dom ?m') = card (dom ?m)" "(\<Sum>k\<in>dom ?m'. length k) = (\<Sum>k\<in>dom ?m. length k)"
      and vs': "(\<Sum>k\<in>dom ?m'. length (the (?m' k))) + length v0 = (\<Sum>k\<in>dom ?m. length (the (?m k))) + length v"
      using c k vs "in" Some by simp_all
    have w: "of_nat (\<Sum>k\<in>dom ?m. length (the (?m k))) + (of_nat (length v) - of_nat (length v0)) =
        (of_nat (\<Sum>k\<in>dom ?m'. length (the (?m' k))) :: u64)"
      using of_nat_eqI [OF vs'] by (simp add: algebra_simps)
    have ch: "chained (table W') = chained (table W)"
      by (rule chained_same) (use lens old(2) in \<open>simp only: if_False\<close>)
    show ?thesis
      using perf unfolding perf_ok_def Let_def m' pd perf_add_replace [OF old0] ch sums
      by (simp only: st old ucast_vsize [OF kv(2)] ucast_vsize [OF v0] w)
  qed
qed

lemma Add_perf:
  assumes ok: "table_ok rs W" and add: "addable rs alloc key v" and perf: "perf_ok base rs W"
    and old_value: "table_map rs W key \<noteq> Some []"
  shows "perf_ok base rs (put_record rs alloc reg W key v)"
proof (cases rule: Add_cases [OF ok add, of reg])
  case (1 res a old stat W')
  have "table_map rs W' = (table_map rs W)(key \<mapsto> v)"
    using 1(4) by (simp add: effect_def)
  from added_perf [OF ok perf this _ _ old_value 1(6,7,8)] show ?thesis
    using add by (simp add: put_record_def 1(1) addable_def)
qed

lemma perf_run:
  assumes "table_ok rs W" "perf_ok base rs W" "accepted (\<lambda>k v. addable rs alloc k v \<and> v \<noteq> []) ops"
    and "\<forall>k. table_map rs W k \<noteq> Some []"
  shows "perf_ok base rs (run_ops (put_record rs alloc reg) (del_record rs reg) ops W)"
  using assms
proof (induction ops arbitrary: W)
  case (Cons p ops)
  show ?case
  proof (cases p)
    case (Put k v)
    with Cons.prems have kv: "addable rs alloc k v" "v \<noteq> []" and "table_map rs W k \<noteq> Some []"
      by auto
    then show ?thesis
      using Cons rw.put_inv [OF Cons.prems(1) kv(1), of reg] rw.put_abs [OF Cons.prems(1) kv(1), of reg]
        Add_perf [OF Cons.prems(1) kv(1) Cons.prems(2), of reg] Put
      by simp
  next
    case (Del k)
    then show ?thesis
      using Cons rw.del_inv [OF Cons.prems(1), of reg k] rw.del_abs [OF Cons.prems(1), of reg k]
        Remove_perf [OF Cons.prems(1,2), of reg k]
      by simp
  qed
qed simp

section \<open>Destruction\<close>

definition data_addrs :: "addr option list \<Rightarrow> addr list" where
  "data_addrs ds = concat (map (\<lambda>d. case d of None \<Rightarrow> [] | Some a \<Rightarrow> [a]) ds)"

lemma data_addrs_simps [simp]:
  "data_addrs [] = []"
  "data_addrs (None # ds) = data_addrs ds"
  "data_addrs (Some a # ds) = a # data_addrs ds"
  by (simp_all add: data_addrs_def)

lemma data_addrs_entry: "entry_ok e \<Longrightarrow> slot_addrs (entry_slots e) = data_addrs (m_dataList e)"
proof -
  have "length ts = length ds \<Longrightarrow> slot_addrs (zip ts ds) = data_addrs ds" for ts :: "u8 list" and ds
    by (induction ts ds rule: list_induct2) (auto simp: data_addrs_def slot_addrs_def)
  then show "entry_ok e \<Longrightarrow> ?thesis"
    by (simp add: entry_ok_def entry_slots_def)
qed

lemma delete_data_result:
  "distinct (data_addrs ds) \<Longrightarrow> set (data_addrs ds) \<subseteq> dom h \<Longrightarrow>
    delete_data ds h = Inr (h |` (- set (data_addrs ds)))"
proof (induction ds arbitrary: h)
  case Nil
  then show ?case by (simp add: restrict_map_def)
next
  case (Cons d ds)
  show ?case
  proof (cases d)
    case None
    with Cons show ?thesis by simp
  next
    case (Some a)
    with Cons.prems obtain x where "h a = Some x" and a: "a \<notin> set (data_addrs ds)"
      by auto
    then have dealloc: "dealloc a h = Inr (h(a := None))"
      by (simp add: dealloc_def)
    have "set (data_addrs ds) \<subseteq> dom (h(a := None))"
      using Cons.prems(2) Some a by auto
    moreover have "distinct (data_addrs ds)"
      using Cons.prems(1) Some by simp
    ultimately have "delete_data ds (h(a := None)) = Inr ((h(a := None)) |` (- set (data_addrs ds)))"
      by (intro Cons.IH)
    moreover have "(h(a := None)) |` (- set (data_addrs ds)) = h |` (- set (data_addrs (Some a # ds)))"
      by (rule ext) (simp add: restrict_map_def)
    ultimately show ?thesis
      by (simp only: Some delete_data.simps dealloc bind_res.simps)
  qed
qed

lemma release_chain_result:
  "\<forall>e\<in>set es. entry_ok e \<Longrightarrow> distinct (slot_addrs (chain_slots es)) \<Longrightarrow>
    set (slot_addrs (chain_slots es)) \<subseteq> dom h \<Longrightarrow>
    release_chain es h = Inr (h |` (- set (slot_addrs (chain_slots es))))"
proof (induction es arbitrary: h)
  case Nil
  then show ?case by (simp add: restrict_map_def)
next
  case (Cons e es)
  have "delete_data (m_dataList e) h = Inr (h |` (- set (slot_addrs (entry_slots e))))"
    using Cons.prems by (simp add: data_addrs_entry delete_data_result)
  moreover have "set (slot_addrs (chain_slots es)) \<subseteq> dom (h |` (- set (slot_addrs (entry_slots e))))"
    using Cons.prems by auto
  ultimately show ?case
    using Cons.IH [of "h |` (- set (slot_addrs (entry_slots e)))"] Cons.prems
    by (simp add: restrict_restrict Int_commute)
qed

lemma Release_result:
  assumes "chain_ok es" "distinct (slot_addrs (chain_slots es))" "set (slot_addrs (chain_slots es)) \<subseteq> dom h"
  shows "Release es h = Inr (h |` (- set (slot_addrs (chain_slots es))))"
proof -
  obtain e es' where es: "es = e # es'"
    using assms(1) by (cases es) (auto simp: chain_ok_def)
  have ok: "entry_ok e" "\<forall>e\<in>set es'. entry_ok e"
    using assms(1) es by (auto simp: chain_ok_def)
  have "release_chain es' h = Inr (h |` (- set (slot_addrs (chain_slots es'))))"
    using assms(2,3) ok es by (intro release_chain_result) auto
  moreover have "delete_data (m_dataList e) (h |` (- set (slot_addrs (chain_slots es')))) =
      Inr ((h |` (- set (slot_addrs (chain_slots es')))) |` (- set (slot_addrs (entry_slots e))))"
    using assms(2,3) ok es unfolding data_addrs_entry [OF ok(1)]
    by (intro delete_data_result) (auto simp: data_addrs_entry [OF ok(1)])
  ultimately show ?thesis
    by (simp add: Release_def es restrict_restrict Int_commute)
qed

lemma release_buckets_result:
  "\<forall>b\<in>set bs. chain_ok b \<Longrightarrow> distinct (concat (map (\<lambda>b. slot_addrs (chain_slots b)) bs)) \<Longrightarrow>
    set (concat (map (\<lambda>b. slot_addrs (chain_slots b)) bs)) \<subseteq> dom h \<Longrightarrow>
    release_buckets bs h = Inr (h |` (- set (concat (map (\<lambda>b. slot_addrs (chain_slots b)) bs))))"
proof (induction bs arbitrary: h)
  case Nil
  then show ?case by (simp add: restrict_map_def)
next
  case (Cons b bs)
  let ?rest = "concat (map (\<lambda>b. slot_addrs (chain_slots b)) bs)"
  have "Release b h = Inr (h |` (- set (slot_addrs (chain_slots b))))"
    using Cons.prems by (intro Release_result) auto
  moreover have "set ?rest \<subseteq> dom (h |` (- set (slot_addrs (chain_slots b))))"
    using Cons.prems(2,3) by auto
  then have "release_buckets bs (h |` (- set (slot_addrs (chain_slots b)))) =
      Inr ((h |` (- set (slot_addrs (chain_slots b)))) |` (- set ?rest))"
    using Cons.prems by (intro Cons.IH) auto
  ultimately show ?case
    by (simp add: restrict_restrict)
qed

lemma SharedHashTable_destroy_ok:
  assumes "table_ok rs W"
  shows "SharedHashTable_destroy (table W) (heap W) =
    Inr (heap W |` (- set (table_addrs (table W))))"
proof -
  have "\<forall>b\<in>set (m_buckets (table W)). chain_ok b"
    using assms by (metis bucket_ok_def in_set_conv_nth table_ok_bucket)
  moreover have "distinct (table_addrs (table W))"
    using assms by (simp add: table_ok_def)
  ultimately show ?thesis
    using table_addrs_allocated [OF assms] release_buckets_result [of "m_buckets (table W)" "heap W"]
    by (simp add: SharedHashTable_destroy_def table_addrs_def)
qed

section \<open>Properties\<close>

text \<open>C12: on a new table, after any sequence of \<open>Add\<close> calls with non-empty values and \<open>Remove\<close>
  calls, the counters describe the contents: the number of records, the total sizes of keys and
  values, the number of chained entries, and the index size, which is that of the empty table plus
  the record overheads and the chained entries.\<close>

theorem counters_after_operations:
  assumes "0 < m_numBuckets s" "finite (dom h)"
    and "accepted (\<lambda>k v. addable rs alloc k v \<and> v \<noteq> []) ops"
  shows "perf_ok (unat (m_numBuckets s) * sizeof_Entry + unat (num_mutexes s) * sm + st) rs
    (run_ops (put_record rs alloc reg) (del_record rs reg) ops
      \<lparr>heap = h, table = SharedHashTable_new sm st s, manager = e\<rparr>)"
  by (rule perf_run [OF table_ok_new(1) [OF assms(1,2)] perf_ok_new [OF assms(1,2)] assms(3)])
    (simp add: table_ok_new(2) [OF assms(1,2)])

theorem counters_after_operations_witness:
  "perf_ok (unat (2 :: u32) * sizeof_Entry + unat (num_mutexes \<lparr>m_numBuckets = 2, m_numBucketsPerMutex = 1,
      s_fixedKeySize = 0, s_fixedValueSize = 0\<rparr>) * 80 + 248) demo_rs
    (run_ops (put_record demo_rs first_fit queue_reg) (del_record demo_rs queue_reg)
      [Put [1] [2], Put [4] [5], Put [1] [3, 3], Del [4]]
      \<lparr>heap = Map.empty, table = SharedHashTable_new 80 248 \<lparr>m_numBuckets = 2, m_numBucketsPerMutex = 1,
        s_fixedKeySize = 0, s_fixedValueSize = 0\<rparr>, manager = []\<rparr>)"
  using counters_after_operations [of "\<lparr>m_numBuckets = 2, m_numBucketsPerMutex = 1,
      s_fixedKeySize = 0, s_fixedValueSize = 0\<rparr>" Map.empty demo_rs first_fit
      "[Put [1] [2], Put [4] [5], Put [1] [3, 3], Del [4]]" 80 248 queue_reg "[]"]
  by (simp add: addable_demo valid_key_def valid_value_def)

text \<open>Replacing a record whose value is empty counts as adding one: \<open>Add\<close> takes an old value
  size of zero for "no old record", so \<open>RecordsCount\<close> grows although the number of records does not.\<close>

theorem Add_over_empty_value:
  assumes "table_ok rs W" "addable rs alloc key v" "table_map rs W key = Some []"
  shows "m_perfData (table (put_record rs alloc reg W key v)) RecordsCount =
      m_perfData (table W) RecordsCount + 1 \<and>
    dom (table_map rs (put_record rs alloc reg W key v)) = dom (table_map rs W)"
proof (cases rule: Add_cases [OF assms(1,2), of reg])
  case (1 res a old stat W')
  have "st_oldValueSize stat = 0"
    using 1(6) assms(3) by (simp add: add_stat_def vsize_def)
  from perf_add_new(1) [OF this] 1 assms(3) show ?thesis
    by (auto simp: put_record_def effect_def)
qed

theorem Add_over_empty_value_witness:
  "m_perfData (table (put_record demo_rs first_fit queue_reg
      (put_record demo_rs first_fit queue_reg demo_world [1] []) [1] [2])) RecordsCount =
    m_perfData (table (put_record demo_rs first_fit queue_reg demo_world [1] [])) RecordsCount + 1"
  using Add_over_empty_value [of demo_rs "put_record demo_rs first_fit queue_reg demo_world [1] []" first_fit
      "[1]" "[2]" queue_reg]
  by (simp add: demo_filled addable_demo valid_key_def valid_value_def)

text \<open>An \<open>Add\<close> whose key or value does not have the fixed size throws and leaves the table as
  it was, but the buffer it allocated stays allocated: nothing points to it and nothing was
  registered to free it.\<close>

theorem Add_rejected_leaks:
  fixes W :: "'e World"
  assumes "table_ok rs W" "good_alloc alloc" "Validate rs key v = Inl err"
  shows "\<exists>a bytes (W' :: 'e World). Add rs alloc reg W key v = (Inl err, W') \<and> table W' = table W \<and>
    manager W' = manager W \<and> table_ok rs W' \<and> table_map rs W' = table_map rs W \<and>
    heap W a = None \<and> heap W' = (heap W)(a \<mapsto> bytes) \<and> a \<notin> set (table_addrs (table W'))"
proof (cases rule: Add_rejected [OF assms, of reg])
  case (1 a bytes)
  then have "a \<notin> set (table_addrs (table W))"
    using table_addrs_allocated [OF assms(1)] by auto
  with 1 show ?thesis
    by (intro exI [of _ a] exI [of _ bytes] exI [of _ "W\<lparr>heap := (heap W)(a \<mapsto> bytes)\<rparr>"]) simp
qed

lemma table_ok_demo_fixed:
  "table_ok \<lparr>m_fixedKeySize = 2, m_fixedValueSize = 0, m_metadataSize = 0\<rparr> demo_world"
  unfolding demo_world_def by (rule table_ok_new) simp_all

theorem Add_rejected_leaks_witness:
  "\<exists>a bytes (W' :: addr list World). Add \<lparr>m_fixedKeySize = 2, m_fixedValueSize = 0, m_metadataSize = 0\<rparr>
      first_fit queue_reg demo_world [1] [2] =
      (Inl (RuntimeException ''Invalid key or value sizes are given.''), W') \<and> table W' = table demo_world \<and>
    manager W' = manager demo_world \<and>
    table_ok \<lparr>m_fixedKeySize = 2, m_fixedValueSize = 0, m_metadataSize = 0\<rparr> W' \<and>
    table_map \<lparr>m_fixedKeySize = 2, m_fixedValueSize = 0, m_metadataSize = 0\<rparr> W' =
      table_map \<lparr>m_fixedKeySize = 2, m_fixedValueSize = 0, m_metadataSize = 0\<rparr> demo_world \<and>
    heap demo_world a = None \<and> heap W' = (heap demo_world)(a \<mapsto> bytes) \<and> a \<notin> set (table_addrs (table W'))"
  by (rule Add_rejected_leaks [OF table_ok_demo_fixed good_alloc_first_fit])
    (simp add: Validate_def ksize_def)

text \<open>C14: destroying a well-formed table frees exactly the buffers the table points to, each once,
  and nothing else.\<close>

theorem destroy_frees_records:
  assumes "table_ok rs W"
  shows "SharedHashTable_destroy (table W) (heap W) =
    Inr (heap W |` (- set (table_addrs (table W))))"
  by (rule SharedHashTable_destroy_ok [OF assms])

theorem destroy_frees_records_witness:
  "SharedHashTable_destroy (table (put_record demo_rs first_fit queue_reg demo_world [1] [2]))
      (heap (put_record demo_rs first_fit queue_reg demo_world [1] [2])) =
    Inr (heap (put_record demo_rs first_fit queue_reg demo_world [1] [2]) |`
      (- set (table_addrs (table (put_record demo_rs first_fit queue_reg demo_world [1] [2])))))"
  by (rule destroy_frees_records [of demo_rs]) (simp add: demo_filled valid_key_def valid_value_def)

end
