(* ===== verification/L4_Registry.thy ===== *)
theory L4_Registry
  imports L4_TablePerf "HOL-Library.Multiset"
begin

text \<open>
  The contract of \<open>inc/L4/Epoch/IEpochActionManager.h\<close> as the table uses it, and what follows for
  the memory of a table: every allocated record buffer is either in the table or queued for
  deallocation, and never both or twice.
\<close>

text \<open>\<open>queued m\<close> are the buffers whose deallocation is registered and has not run.\<close>

locale action_registry =
  fixes ok :: "'e \<Rightarrow> bool"
    and queued :: "'e \<Rightarrow> addr multiset"
    and register :: "addr \<Rightarrow> 'e \<Rightarrow> unit res \<times> 'e"
  assumes register_queues: "ok m \<Longrightarrow> register a m = (r, m') \<Longrightarrow>
    r = Inr () \<and> ok m' \<and> queued m' = add_mset a (queued m)"

definition accounted :: "('e \<Rightarrow> bool) \<Rightarrow> ('e \<Rightarrow> addr multiset) \<Rightarrow> 'e World \<Rightarrow> bool" where
  "accounted ok queued W \<longleftrightarrow> ok (manager W) \<and>
     mset_set (dom (heap W)) = mset (table_addrs (table W)) + queued (manager W)"

lemma mset_table_addrs: "table_ok rs W \<Longrightarrow> mset (table_addrs (table W)) = mset_set (set (table_addrs (table W)))"
  by (simp add: table_ok_def mset_set_set)

context action_registry
begin

lemma added_accounted:
  assumes ok: "table_ok rs W" and acc: "accounted ok queued W"
    and new_heap: "heap W a = None" "heap W' = (heap W)(a \<mapsto> bytes)" and eff: "effect rs register W old {a} m res W'"
  shows "res = Inr () \<and> accounted ok queued W'"
proof -
  let ?S = "set (table_addrs (table W))"
  have fin: "finite (dom (heap W))"
    using ok by (simp add: table_ok_def)
  have heap: "mset_set (dom (heap W')) = add_mset a (mset_set (dom (heap W)))"
    using fin new_heap by (simp add: domIff)
  have new: "a \<notin> ?S"
    using table_addrs_allocated [OF ok] new_heap(1) by auto
  have ok': "table_ok rs W'" and addrs: "set (table_addrs (table W')) = (?S - set_option old) \<union> {a}"
    and old: "set_option old \<subseteq> ?S"
    and man: "(res, manager W') = (case old of None \<Rightarrow> (Inr (), manager W) | Some a \<Rightarrow> register a (manager W))"
    using eff unfolding effect_def by blast+
  have tab: "mset (table_addrs (table W')) = add_mset a (mset_set (?S - set_option old))"
    using new by (simp add: mset_table_addrs [OF ok'] addrs)
  show ?thesis
  proof (cases old)
    case None
    then show ?thesis
      using acc man tab by (simp add: accounted_def heap mset_table_addrs [OF ok])
  next
    case (Some a0)
    then have "register a0 (manager W) = (res, manager W')"
      using man by simp
    with acc have reg: "res = Inr ()" "ok (manager W')" "queued (manager W') = add_mset a0 (queued (manager W))"
      using register_queues unfolding accounted_def by blast+
    have "mset_set ?S = add_mset a0 (mset_set (?S - {a0}))"
      using old Some by (simp add: mset_set.remove)
    then show ?thesis
      using acc tab reg Some by (simp add: accounted_def heap mset_table_addrs [OF ok])
  qed
qed

lemma Add_accounted:
  assumes ok: "table_ok rs W" and add: "addable rs alloc key v" and acc: "accounted ok queued W"
  shows "fst (Add rs alloc register W key v) = Inr () \<and>
    accounted ok queued (put_record rs alloc register W key v)"
proof (cases rule: Add_cases [OF ok add, of register])
  case (1 res a old stat W')
  from added_accounted [OF ok acc 1(2,3,4)] show ?thesis
    by (simp add: put_record_def 1(1))
qed

lemma removed_accounted:
  assumes ok: "table_ok rs W" and acc: "accounted ok queued W"
    and eff: "effect rs register W (Some a) {} m (fst (register a (manager W))) W'" and heap: "heap W' = heap W"
  shows "fst (register a (manager W)) = Inr () \<and> accounted ok queued W'"
proof -
  let ?S = "set (table_addrs (table W))"
  have ok': "table_ok rs W'" and addrs: "set (table_addrs (table W')) = ?S - {a}" and a: "a \<in> ?S"
    and man: "register a (manager W) = (fst (register a (manager W)), manager W')"
    using eff by (auto simp: effect_def)
  have reg: "fst (register a (manager W)) = Inr ()" "ok (manager W')"
      "queued (manager W') = add_mset a (queued (manager W))"
    using register_queues [OF _ man] acc by (simp_all add: accounted_def)
  have "mset_set ?S = add_mset a (mset_set (?S - {a}))"
    using a by (simp add: mset_set.remove)
  then show ?thesis
    using acc reg heap by (simp add: accounted_def mset_table_addrs [OF ok] mset_table_addrs [OF ok'] addrs)
qed

lemma Remove_accounted:
  assumes ok: "table_ok rs W" and acc: "accounted ok queued W"
  shows "fst (Remove rs register W key) = Inr (table_map rs W key \<noteq> None) \<and>
    accounted ok queued (del_record rs register W key)"
proof (cases rule: Remove_cases [OF ok, of key register])
  case 1
  then show ?thesis
    using acc by (simp add: del_record_def)
next
  case (2 v a W')
  from removed_accounted [OF ok acc 2(3,4)] show ?thesis
    using 2(1,2) by (simp add: del_record_def)
qed

lemma run_accounted:
  assumes "table_ok rs W" "accepted (addable rs alloc) ops" "accounted ok queued W"
  shows "accounted ok queued (run_ops (put_record rs alloc register) (del_record rs register) ops W)"
  using assms
proof (induction ops arbitrary: W)
  case (Cons p ops)
  show ?case
  proof (cases p)
    case (Put k v)
    then have kv: "addable rs alloc k v" and rest: "accepted (addable rs alloc) ops"
      using Cons.prems(2) by simp_all
    show ?thesis
      using Cons.IH [OF rw.put_inv [OF Cons.prems(1) kv] rest] Add_accounted [OF Cons.prems(1) kv Cons.prems(3)] Put
      by simp
  next
    case (Del k)
    then have rest: "accepted (addable rs alloc) ops"
      using Cons.prems(2) by simp
    show ?thesis
      using Cons.IH [OF rw.del_inv [OF Cons.prems(1)] rest] Remove_accounted [OF Cons.prems(1,3)] Del
      by simp
  qed
qed simp

end

section \<open>Running the registered deallocations\<close>

text \<open>The registered actions are run one after the other: \<open>deallocate(record)\<close> of each buffer.\<close>

fun run_releases :: "addr list \<Rightarrow> memory \<Rightarrow> memory res" where
  "run_releases [] h = Inr h"
| "run_releases (a # as) h = bind_res (dealloc a h) (run_releases as)"

lemma run_releases_delete: "run_releases as h = delete_data (map Some as) h"
proof (induction as arbitrary: h)
  case (Cons a as)
  then show ?case by (cases "dealloc a h") simp_all
qed simp

lemma data_addrs_map_Some [simp]: "data_addrs (map Some as) = as"
  by (induction as) simp_all

lemma run_releases_result:
  "distinct as \<Longrightarrow> set as \<subseteq> dom h \<Longrightarrow> run_releases as h = Inr (h |` (- set as))"
  by (simp add: run_releases_delete delete_data_result)

text \<open>
  Releasing part of what is queued frees each buffer once and leaves the buffers in use, \<open>X\<close>, and
  with them the tables, as they are.
\<close>

lemma release_buffers:
  assumes fin: "finite (dom h)" and acc: "mset_set (dom h) = X + (mset as + Q)"
  shows "run_releases as h = Inr (h |` (- set as))" "mset_set (dom (h |` (- set as))) = X + Q"
    "a \<in># X \<Longrightarrow> a \<notin> set as"
proof -
  have one: "count X a + (count (mset as) a + count Q a) \<le> 1" for a
  proof -
    have "count (mset_set (dom h)) a \<le> 1"
      by (simp add: count_mset_set')
    then show ?thesis
      by (simp add: acc)
  qed
  have dist: "distinct as"
  proof (unfold distinct_count_atmost_1, rule allI)
    fix a
    have "count (mset as) a \<le> 1"
      using one [of a] by simp
    moreover have "count (mset as) a = 0 \<longleftrightarrow> a \<notin> set as"
      by simp
    ultimately show "count (mset as) a = (if a \<in> set as then 1 else 0)"
      by (cases "count (mset as) a") auto
  qed
  have sub: "set as \<subseteq> dom h"
  proof
    fix a
    assume "a \<in> set as"
    then have "a \<in># mset_set (dom h)"
      by (simp add: acc)
    then show "a \<in> dom h"
      using fin by simp
  qed
  show "run_releases as h = Inr (h |` (- set as))"
    using run_releases_result [OF dist sub] .
  have "mset_set (dom h - set as) = mset_set (dom h) - mset_set (set as)"
    using fin sub by (rule mset_set_Diff)
  then show "mset_set (dom (h |` (- set as))) = X + Q"
    using dist by (simp add: Diff_eq [symmetric] acc mset_set_set)
  show "a \<notin> set as" if "a \<in># X"
  proof
    assume "a \<in> set as"
    then have "0 < count (mset as) a" "0 < count X a"
      using that by (simp_all add: count_greater_zero_iff)
    with one [of a] show False by simp
  qed
qed

lemma release_queued:
  assumes tab: "table_ok rs W" and acc: "mset_set (dom (heap W)) = mset (table_addrs (table W)) + Q"
    and Q: "Q = mset as + Q'"
  shows "run_releases as (heap W) = Inr (heap W |` (- set as))"
    and "mset_set (dom (heap W |` (- set as))) = mset (table_addrs (table W)) + Q'"
    and "table W' = table W \<Longrightarrow> heap W' = heap W |` (- set as) \<Longrightarrow>
      table_ok rs W' \<and> table_map rs W' = table_map rs W"
proof -
  have fin: "finite (dom (heap W))"
    using tab by (simp add: table_ok_def)
  note rel = release_buffers [OF fin acc [unfolded Q]]
  show "run_releases as (heap W) = Inr (heap W |` (- set as))"
    and "mset_set (dom (heap W |` (- set as))) = mset (table_addrs (table W)) + Q'"
    using rel(1,2) .
  have "a \<notin> set as" if "a \<in> set (table_addrs (table W))" for a
    using rel(3) [of a] that by simp
  then show "table W' = table W \<Longrightarrow> heap W' = heap W |` (- set as) \<Longrightarrow>
      table_ok rs W' \<and> table_map rs W' = table_map rs W"
    using fin by (intro table_ok_heap [OF tab]) simp_all
qed

end
