(* ===== verification/L4_EpochQueue.thy ===== *)
theory L4_EpochQueue
  imports L4_Prelude "HOL-Library.Multiset"
begin

text \<open>
  Epochs and their reference counts: \<open>EpochQueue\<close>, \<open>EpochRefManager\<close> and \<open>EpochCounterManager\<close> of
  \<open>inc/L4/Epoch/EpochQueue.h\<close> and \<open>EpochRefPolicy\<close> of \<open>inc/L4/Epoch/EpochRefPolicy.h\<close>. The ring of
  reference counts is a list of 32-bit words, the indices are 64-bit words. The contract of the
  queue is the locale \<open>epoch_refs\<close>: a queue represents the multiset of the epochs that are held.
\<close>

section \<open>The queue\<close>

record EpochQueue =
  m_frontIndex :: u64
  m_backIndex :: u64
  m_refCounts :: "u32 list"

definition EpochQueue_new :: "u64 \<Rightarrow> u32 \<Rightarrow> EpochQueue res" where
  "EpochQueue_new epochCounter queueSize =
     (if queueSize = 0 then Inl (RuntimeException ''Zero queue size is not allowed.'')
      else Inr \<lparr>m_frontIndex = epochCounter, m_backIndex = epochCounter,
        m_refCounts = replicate (unat queueSize) 0\<rparr>)"

definition ring_index :: "EpochQueue \<Rightarrow> u64 \<Rightarrow> nat" where
  "ring_index q epoch = unat epoch mod length (m_refCounts q)"

definition AddRef :: "EpochQueue \<Rightarrow> u64 \<times> EpochQueue" where
  "AddRef q =
     (let i = ring_index q (m_backIndex q)
      in (m_backIndex q, q\<lparr>m_refCounts := (m_refCounts q)[i := m_refCounts q ! i + 1]\<rparr>))"

definition RemoveRef :: "EpochQueue \<Rightarrow> u64 \<Rightarrow> unit res \<times> EpochQueue" where
  "RemoveRef q epochCounter =
     (let i = ring_index q epochCounter
      in if m_refCounts q ! i = 0 then (Inl (RuntimeException ''Reference counter is invalid.''), q)
         else (Inr (), q\<lparr>m_refCounts := (m_refCounts q)[i := m_refCounts q ! i - 1]\<rparr>))"

definition AddNewEpoch :: "EpochQueue \<Rightarrow> EpochQueue" where
  "AddNewEpoch q = q\<lparr>m_backIndex := m_backIndex q + 1\<rparr>"

lemma unat_Suc: "(x :: u64) < y \<Longrightarrow> unat (x + 1) = Suc (unat x)"
proof -
  assume "x < y"
  then have "unat x < unat y"
    by (simp add: word_less_nat_alt)
  moreover have "unat y < 2 ^ 64"
    using unsigned_less [of y] by simp
  ultimately show ?thesis
    using unat_add_lem [of x 1] by simp
qed

function RemoveUnreferenceEpochCounters :: "EpochQueue \<Rightarrow> u64 \<times> EpochQueue" where
  "RemoveUnreferenceEpochCounters q =
     (if m_backIndex q > m_frontIndex q then
        if m_refCounts q ! ring_index q (m_frontIndex q) = 0
        then RemoveUnreferenceEpochCounters (q\<lparr>m_frontIndex := m_frontIndex q + 1\<rparr>)
        else (m_frontIndex q, q)
      else (m_frontIndex q, q))"
  by pat_completeness auto

termination
proof (relation "measure (\<lambda>q. unat (m_backIndex q) - unat (m_frontIndex q))", simp)
  fix q :: EpochQueue
  assume "m_frontIndex q < m_backIndex q"
  moreover from this have "unat (m_frontIndex q + 1) = Suc (unat (m_frontIndex q))"
    by (rule unat_Suc)
  ultimately show "(q\<lparr>m_frontIndex := m_frontIndex q + 1\<rparr>, q) \<in>
      measure (\<lambda>q. unat (m_backIndex q) - unat (m_frontIndex q))"
    by (simp add: word_less_nat_alt)
qed

declare RemoveUnreferenceEpochCounters.simps [simp del]

section \<open>The reference policy\<close>

text \<open>
  An \<open>EpochRefPolicy\<close> is the epoch counter it holds, or the largest 64-bit value when it was moved
  from. The manager it refers to is the queue that the operations are given.
\<close>

type_synonym EpochRefPolicy = u64

definition const_max :: u64 where
  "const_max = 0xFFFFFFFFFFFFFFFF"

definition EpochRefPolicy_new :: "EpochQueue \<Rightarrow> EpochRefPolicy \<times> EpochQueue" where
  "EpochRefPolicy_new q = AddRef q"

definition EpochRefPolicy_move :: "EpochRefPolicy \<Rightarrow> EpochRefPolicy \<times> EpochRefPolicy" where
  "EpochRefPolicy_move p = (p, const_max)"

definition EpochRefPolicy_destroy :: "EpochRefPolicy \<Rightarrow> EpochQueue \<Rightarrow> unit res \<times> EpochQueue" where
  "EpochRefPolicy_destroy p q = (if p \<noteq> const_max then RemoveRef q p else (Inr (), q))"

section \<open>The contract\<close>

text \<open>
  \<open>rep q H\<close>: the queue \<open>q\<close> counts the references \<open>H\<close>, a multiset of epochs. The laws hold up to
  the bounds of the counters, \<open>2 ^ 32 - 1\<close> references at a time and epoch \<open>2 ^ 64 - 1\<close>.
\<close>

locale epoch_refs =
  fixes rep :: "'q \<Rightarrow> u64 multiset \<Rightarrow> bool"
    and oldest :: "'q \<Rightarrow> u64"
    and newest :: "'q \<Rightarrow> u64"
    and add_ref :: "'q \<Rightarrow> u64 \<times> 'q"
    and remove_ref :: "'q \<Rightarrow> u64 \<Rightarrow> unit res \<times> 'q"
    and new_epoch :: "'q \<Rightarrow> 'q"
    and advance :: "'q \<Rightarrow> u64 \<times> 'q"
  assumes rep_range: "rep q H \<Longrightarrow> oldest q \<le> newest q \<and> (\<forall>e\<in>#H. oldest q \<le> e \<and> e \<le> newest q)"
    and add_ref_rep: "rep q H \<Longrightarrow> size H < 2 ^ 32 - 1 \<Longrightarrow> add_ref q = (e, q') \<Longrightarrow>
      e = newest q \<and> rep q' (add_mset e H) \<and> oldest q' = oldest q \<and> newest q' = newest q"
    and remove_ref_rep: "rep q H \<Longrightarrow> e \<in># H \<Longrightarrow> remove_ref q e = (r, q') \<Longrightarrow>
      r = Inr () \<and> rep q' (H - {#e#}) \<and> oldest q' = oldest q \<and> newest q' = newest q"
    and new_epoch_rep: "rep q H \<Longrightarrow> newest q < 2 ^ 64 - 1 \<Longrightarrow>
      rep (new_epoch q) H \<and> oldest (new_epoch q) = oldest q \<and> newest (new_epoch q) = newest q + 1"
    and advance_rep: "rep q H \<Longrightarrow> advance q = (f, q') \<Longrightarrow>
      rep q' H \<and> oldest q' = f \<and> newest q' = newest q \<and> oldest q \<le> f \<and> (H = {#} \<longrightarrow> f = newest q)"
begin

text \<open>No advance passes an epoch that is held.\<close>

lemma advance_stops:
  assumes "rep q H" "advance q = (f, q')" "e \<in># H"
  shows "f \<le> e"
  using advance_rep [OF assms(1,2)] rep_range [of q' H] assms(3) by blast

text \<open>A reference taken and given back leaves the represented multiset as it was.\<close>

lemma add_remove:
  assumes "rep q H" "size H < 2 ^ 32 - 1" "add_ref q = (e, q')" "remove_ref q' e = (r, q'')"
  shows "r = Inr () \<and> rep q'' H"
  using add_ref_rep [OF assms(1-3)] remove_ref_rep [of q' "add_mset e H" e r q''] assms(4) by auto

end

section \<open>The queue meets the contract\<close>

definition slot_count :: "nat \<Rightarrow> u64 multiset \<Rightarrow> nat \<Rightarrow> nat" where
  "slot_count n H i = size (filter_mset (\<lambda>e. unat e mod n = i) H)"

definition queue_rep :: "EpochQueue \<Rightarrow> u64 multiset \<Rightarrow> bool" where
  "queue_rep q H \<longleftrightarrow> m_refCounts q \<noteq> [] \<and> size H < 2 ^ 32 \<and> m_frontIndex q \<le> m_backIndex q \<and>
     (\<forall>i < length (m_refCounts q). unat (m_refCounts q ! i) = slot_count (length (m_refCounts q)) H i) \<and>
     (\<forall>e\<in>#H. m_frontIndex q \<le> e \<and> e \<le> m_backIndex q)"

lemma slot_count_add:
  "slot_count n (add_mset e H) i = slot_count n H i + (if unat e mod n = i then 1 else 0)"
  by (simp add: slot_count_def)

lemma slot_count_le: "slot_count n H i \<le> size H"
  by (simp add: slot_count_def size_filter_mset_lesseq)

lemma slot_count_pos: "e \<in># H \<Longrightarrow> 0 < slot_count n H (unat e mod n)"
  using slot_count_add [of n e "H - {#e#}" "unat e mod n"] by simp

lemma ring_index_less: "m_refCounts q \<noteq> [] \<Longrightarrow> ring_index q e < length (m_refCounts q)"
  by (simp add: ring_index_def)

lemma AddRef_rep:
  assumes rep: "queue_rep q H" and small: "size H < 2 ^ 32 - 1" and step: "AddRef q = (e, q')"
  shows "e = m_backIndex q \<and> queue_rep q' (add_mset e H) \<and> m_frontIndex q' = m_frontIndex q \<and>
    m_backIndex q' = m_backIndex q"
proof -
  let ?n = "length (m_refCounts q)"
  let ?i = "ring_index q (m_backIndex q)"
  have e: "e = m_backIndex q" and q': "q' = q\<lparr>m_refCounts := (m_refCounts q)[?i := m_refCounts q ! ?i + 1]\<rparr>"
    using step by (auto simp: AddRef_def Let_def)
  have i: "?i < ?n"
    using rep by (simp add: queue_rep_def ring_index_less)
  then have "unat (m_refCounts q ! ?i) = slot_count ?n H ?i"
    using rep by (simp add: queue_rep_def)
  moreover have "slot_count ?n H ?i < 2 ^ 32 - 1"
    using slot_count_le [of ?n H ?i] small by simp
  ultimately have "unat (m_refCounts q ! ?i + 1) = Suc (slot_count ?n H ?i)"
    by (simp add: unat_word_ariths)
  then have "queue_rep q' (add_mset e H)"
    using rep small i unfolding queue_rep_def q' e
    by (auto simp: slot_count_add ring_index_def nth_list_update)
  then show ?thesis
    by (simp add: e q')
qed

lemma RemoveRef_rep:
  assumes rep: "queue_rep q H" and held: "e \<in># H" and step: "RemoveRef q e = (r, q')"
  shows "r = Inr () \<and> queue_rep q' (H - {#e#}) \<and> m_frontIndex q' = m_frontIndex q \<and>
    m_backIndex q' = m_backIndex q"
proof -
  let ?n = "length (m_refCounts q)"
  let ?i = "ring_index q e"
  obtain H' where H: "H = add_mset e H'"
    using held by (metis insert_DiffM)
  have i: "?i < ?n"
    using rep by (simp add: queue_rep_def ring_index_less)
  then have "unat (m_refCounts q ! ?i) = Suc (slot_count ?n H' ?i)"
    using rep by (simp add: queue_rep_def H slot_count_add ring_index_def)
  moreover from this have pos: "m_refCounts q ! ?i \<noteq> 0"
    by auto
  ultimately have less: "unat (m_refCounts q ! ?i - 1) = slot_count ?n H' ?i"
    by (simp add: unat_minus_one)
  then have q': "q' = q\<lparr>m_refCounts := (m_refCounts q)[?i := m_refCounts q ! ?i - 1]\<rparr>" and r: "r = Inr ()"
    using step pos by (auto simp: RemoveRef_def Let_def)
  have "queue_rep q' H'"
    using rep i less unfolding queue_rep_def q' H
    by (auto simp: slot_count_add ring_index_def nth_list_update)
  then show ?thesis
    by (simp add: r q' H)
qed

lemma AddNewEpoch_rep:
  assumes rep: "queue_rep q H" and bound: "m_backIndex q < 2 ^ 64 - 1"
  shows "queue_rep (AddNewEpoch q) H \<and> m_frontIndex (AddNewEpoch q) = m_frontIndex q \<and>
    m_backIndex (AddNewEpoch q) = m_backIndex q + 1"
proof -
  have "unat (m_backIndex q + 1) = Suc (unat (m_backIndex q))"
    using unat_Suc [OF bound] .
  then have "m_backIndex q \<le> m_backIndex q + 1"
    by (simp add: word_le_nat_alt)
  then show ?thesis
    using rep by (auto simp: AddNewEpoch_def queue_rep_def intro: order_trans)
qed

text \<open>One round of the loop.\<close>

lemma queue_rep_advance:
  assumes rep: "queue_rep q H" and less: "m_frontIndex q < m_backIndex q"
    and zero: "m_refCounts q ! ring_index q (m_frontIndex q) = 0"
  shows "queue_rep (q\<lparr>m_frontIndex := m_frontIndex q + 1\<rparr>) H"
proof -
  let ?i = "ring_index q (m_frontIndex q)"
  have i: "?i < length (m_refCounts q)"
    using rep by (simp add: queue_rep_def ring_index_less)
  have s: "unat (m_frontIndex q + 1) = Suc (unat (m_frontIndex q))"
    using less unat_Suc by blast
  have "unat (m_refCounts q ! ?i) = slot_count (length (m_refCounts q)) H ?i"
    using rep i by (simp add: queue_rep_def)
  with zero have "slot_count (length (m_refCounts q)) H ?i = 0"
    by simp
  then have out: "m_frontIndex q \<notin># H"
    using slot_count_pos [of "m_frontIndex q" H "length (m_refCounts q)"] by (auto simp: ring_index_def)
  have "m_frontIndex q + 1 \<le> e" if "e \<in># H" for e
  proof -
    have "m_frontIndex q \<le> e" "m_frontIndex q \<noteq> e"
      using rep out that by (auto simp: queue_rep_def)
    then have "unat (m_frontIndex q) < unat e"
      by (simp add: word_less_nat_alt [symmetric])
    with s show ?thesis
      by (simp add: word_le_nat_alt)
  qed
  moreover have "m_frontIndex q + 1 \<le> m_backIndex q"
    using less s by (simp add: word_le_nat_alt word_less_nat_alt)
  ultimately show ?thesis
    using rep by (simp add: queue_rep_def)
qed

lemma RemoveUnreference_rep:
  "queue_rep q H \<Longrightarrow> RemoveUnreferenceEpochCounters q = (f, q') \<Longrightarrow>
    queue_rep q' H \<and> m_frontIndex q' = f \<and> m_backIndex q' = m_backIndex q \<and> m_frontIndex q \<le> f \<and>
    (H = {#} \<longrightarrow> f = m_backIndex q)"
proof (induction q arbitrary: f q' rule: RemoveUnreferenceEpochCounters.induct)
  case (1 q)
  let ?next = "q\<lparr>m_frontIndex := m_frontIndex q + 1\<rparr>"
  let ?i = "ring_index q (m_frontIndex q)"
  have i: "?i < length (m_refCounts q)"
    using "1.prems"(1) by (simp add: queue_rep_def ring_index_less)
  show ?case
  proof (cases "m_frontIndex q < m_backIndex q \<and> m_refCounts q ! ?i = 0")
    case True
    then have run: "RemoveUnreferenceEpochCounters ?next = (f, q')"
      using "1.prems"(2) by (simp add: RemoveUnreferenceEpochCounters.simps [of q])
    have s: "unat (m_frontIndex q + 1) = Suc (unat (m_frontIndex q))"
      using True unat_Suc by blast
    have "queue_rep ?next H"
      using "1.prems"(1) True queue_rep_advance by blast
    from "1.IH" [OF _ _ this run] True have IH: "queue_rep q' H \<and> m_frontIndex q' = f \<and>
        m_backIndex q' = m_backIndex q \<and> m_frontIndex q + 1 \<le> f \<and> (H = {#} \<longrightarrow> f = m_backIndex q)"
      by simp
    moreover have "m_frontIndex q \<le> f"
      using IH s by (simp add: word_le_nat_alt)
    ultimately show ?thesis by simp
  next
    case False
    then have "(f, q') = (m_frontIndex q, q)"
      using "1.prems"(2) by (auto simp: RemoveUnreferenceEpochCounters.simps [of q] split: if_splits)
    moreover have "m_frontIndex q = m_backIndex q" if "H = {#}"
      using False "1.prems"(1) i that by (auto simp: queue_rep_def slot_count_def unat_eq_0)
    ultimately show ?thesis
      using "1.prems"(1) by simp
  qed
qed

lemma queue_range:
  "queue_rep q H \<Longrightarrow> m_frontIndex q \<le> m_backIndex q \<and> (\<forall>e\<in>#H. m_frontIndex q \<le> e \<and> e \<le> m_backIndex q)"
  by (simp add: queue_rep_def)

lemma EpochQueue_new_rep:
  "EpochQueue_new c n = Inr q \<Longrightarrow> queue_rep q {#} \<and> m_frontIndex q = c \<and> m_backIndex q = c"
  by (auto simp: EpochQueue_new_def queue_rep_def slot_count_def unat_eq_0 split: if_splits)

interpretation eq: epoch_refs queue_rep m_frontIndex m_backIndex AddRef RemoveRef AddNewEpoch
  RemoveUnreferenceEpochCounters
  by unfold_locales (rule queue_range AddRef_rep RemoveRef_rep AddNewEpoch_rep RemoveUnreference_rep; assumption)+

section \<open>Properties\<close>

lemma RemoveUnreference_scan:
  "RemoveUnreferenceEpochCounters q = (f, q') \<Longrightarrow> m_frontIndex q \<le> m_backIndex q \<Longrightarrow>
    q' = q\<lparr>m_frontIndex := f\<rparr> \<and> m_frontIndex q \<le> f \<and> f \<le> m_backIndex q \<and>
    (\<forall>e. m_frontIndex q \<le> e \<and> e < f \<longrightarrow> m_refCounts q ! ring_index q e = 0) \<and>
    (f = m_backIndex q \<or> m_refCounts q ! ring_index q f \<noteq> 0)"
proof (induction q arbitrary: f q' rule: RemoveUnreferenceEpochCounters.induct)
  case (1 q)
  let ?next = "q\<lparr>m_frontIndex := m_frontIndex q + 1\<rparr>"
  show ?case
  proof (cases "m_frontIndex q < m_backIndex q \<and> m_refCounts q ! ring_index q (m_frontIndex q) = 0")
    case True
    then have run: "RemoveUnreferenceEpochCounters ?next = (f, q')"
      using "1.prems"(1) by (simp add: RemoveUnreferenceEpochCounters.simps [of q])
    have s: "unat (m_frontIndex q + 1) = Suc (unat (m_frontIndex q))"
      using True unat_Suc by blast
    have le: "m_frontIndex ?next \<le> m_backIndex ?next"
      using True s by (simp add: word_le_nat_alt word_less_nat_alt)
    have "q' = ?next\<lparr>m_frontIndex := f\<rparr> \<and> m_frontIndex ?next \<le> f \<and> f \<le> m_backIndex ?next \<and>
        (\<forall>e. m_frontIndex ?next \<le> e \<and> e < f \<longrightarrow> m_refCounts ?next ! ring_index ?next e = 0) \<and>
        (f = m_backIndex ?next \<or> m_refCounts ?next ! ring_index ?next f \<noteq> 0)"
      using True by (intro "1.IH" [OF _ _ run le]) simp_all
    then have IH: "q' = q\<lparr>m_frontIndex := f\<rparr>" "m_frontIndex q + 1 \<le> f" "f \<le> m_backIndex q"
        "\<And>e. m_frontIndex q + 1 \<le> e \<Longrightarrow> e < f \<Longrightarrow> m_refCounts q ! ring_index q e = 0"
        "f = m_backIndex q \<or> m_refCounts q ! ring_index q f \<noteq> 0"
      by (simp_all add: ring_index_def)
    have "m_refCounts q ! ring_index q e = 0" if "m_frontIndex q \<le> e" "e < f" for e
    proof (cases "e = m_frontIndex q")
      case False
      with that(1) have "unat (m_frontIndex q) < unat e"
        by (simp add: word_less_nat_alt [symmetric] order.not_eq_order_implies_strict)
      with s IH(4) [of e] that(2) show ?thesis
        by (simp add: word_le_nat_alt)
    qed (use True in simp)
    moreover have "m_frontIndex q \<le> f"
      using IH(2) s by (simp add: word_le_nat_alt)
    ultimately show ?thesis
      using IH by blast
  next
    case False
    then have "(f, q') = (m_frontIndex q, q)"
      using "1.prems"(1) by (auto simp: RemoveUnreferenceEpochCounters.simps [of q] split: if_splits)
    then show ?thesis
      using False "1.prems"(2) by auto
  qed
qed

text \<open>\<open>RemoveUnreferenceEpochCounters\<close> returns, and advances the front to, the first epoch from
  the front on whose reference count is not zero, or the back when all counts up to it are zero; it
  changes nothing else. When the queue represents the held epochs, the result passes no held epoch,
  even when epochs share a slot of the ring.\<close>

theorem RemoveUnreference_correct:
  assumes "queue_rep q H" "RemoveUnreferenceEpochCounters q = (f, q')"
  shows "q' = q\<lparr>m_frontIndex := f\<rparr> \<and> m_frontIndex q \<le> f \<and> f \<le> m_backIndex q \<and>
    (\<forall>e. m_frontIndex q \<le> e \<and> e < f \<longrightarrow> m_refCounts q ! ring_index q e = 0) \<and>
    (f = m_backIndex q \<or> m_refCounts q ! ring_index q f \<noteq> 0) \<and>
    (\<forall>e\<in>#H. f \<le> e) \<and> queue_rep q' H"
  using RemoveUnreference_scan [OF assms(2)] eq.advance_stops [OF assms] eq.advance_rep [OF assms]
    queue_range [OF assms(1)]
  by blast

theorem RemoveUnreference_correct_witness:
  "\<exists>q'. RemoveUnreferenceEpochCounters \<lparr>m_frontIndex = 3, m_backIndex = 9, m_refCounts = [0, 1, 0, 0]\<rparr> = (5, q') \<and>
    queue_rep q' {#9#}"
proof -
  have rep: "queue_rep \<lparr>m_frontIndex = 3, m_backIndex = 9, m_refCounts = [0, 1, 0, 0]\<rparr> {#9#}"
    by (simp add: queue_rep_def slot_count_def all_less_list)
  have run: "RemoveUnreferenceEpochCounters \<lparr>m_frontIndex = 3, m_backIndex = 9, m_refCounts = [0, 1, 0, 0]\<rparr> =
      (5, \<lparr>m_frontIndex = 5, m_backIndex = 9, m_refCounts = [0, 1, 0, 0]\<rparr>)"
    by code_simp
  show ?thesis
    using RemoveUnreference_correct [OF rep run] run by blast
qed

text \<open>A reference policy holds exactly one reference for its whole life: the constructor adds it,
  a move hands it over, and of the two objects left by a move the destructor of the moved-from one
  does nothing and that of the other removes the reference without throwing. The sentinel value for
  a moved-from object restricts this to epochs below \<open>2 ^ 64 - 1\<close>.\<close>

theorem EpochRefPolicy_lifecycle:
  assumes "queue_rep q H" "size H < 2 ^ 32 - 1" "m_backIndex q \<noteq> const_max"
    and "EpochRefPolicy_new q = (p, q1)" "EpochRefPolicy_move p = (p', p0)"
  shows "queue_rep q1 (add_mset p H) \<and> EpochRefPolicy_destroy p0 q1 = (Inr (), q1) \<and>
    (\<exists>q2. EpochRefPolicy_destroy p' q1 = (Inr (), q2) \<and> queue_rep q2 H)"
proof -
  have add: "AddRef q = (p, q1)" and p': "p' = p" "p0 = const_max"
    using assms(4,5) by (simp_all add: EpochRefPolicy_new_def EpochRefPolicy_move_def)
  have held: "p = m_backIndex q" "queue_rep q1 (add_mset p H)"
    using eq.add_ref_rep [OF assms(1,2) add] by auto
  obtain r q2 where rem: "RemoveRef q1 p = (r, q2)"
    by (cases "RemoveRef q1 p")
  from eq.add_remove [OF assms(1,2) add rem] rem show ?thesis
    using held assms(3) by (simp add: EpochRefPolicy_destroy_def p')
qed

theorem EpochRefPolicy_lifecycle_witness:
  "\<exists>q2. EpochRefPolicy_destroy 0 \<lparr>m_frontIndex = 0, m_backIndex = 0, m_refCounts = [1, 0]\<rparr> = (Inr (), q2) \<and>
    queue_rep q2 {#}"
proof -
  have rep: "queue_rep \<lparr>m_frontIndex = 0, m_backIndex = 0, m_refCounts = [0, 0]\<rparr> {#}"
    by (simp add: queue_rep_def slot_count_def all_less_list)
  have new: "EpochRefPolicy_new \<lparr>m_frontIndex = 0, m_backIndex = 0, m_refCounts = [0, 0]\<rparr> =
      (0, \<lparr>m_frontIndex = 0, m_backIndex = 0, m_refCounts = [1, 0]\<rparr>)"
    by code_simp
  show ?thesis
    using EpochRefPolicy_lifecycle [OF rep _ _ new EpochRefPolicy_move_def [of 0]]
    by (simp add: const_max_def)
qed

end
