(* ===== verification/L4_Math.thy ===== *)
theory L4_Math
  imports L4_Prelude
begin

text \<open>
  The arithmetic helpers of \<open>inc/L4/Utils/Math.h\<close>: rounding to a multiple of a base, the test
  for a power of two, the bit-smearing computation of the next power of two, and the pointer
  arithmetic, each on the widths the code has. The lemmas say what they compute as numbers,
  and where the additions wrap.
\<close>

section \<open>Definitions\<close>

definition RoundUp :: "u64 \<Rightarrow> u64 \<Rightarrow> u64" where
  "RoundUp number base =
     (if base \<noteq> 0 then ((number + base - 1) div base) * base else number)"

definition RoundDown :: "u64 \<Rightarrow> u64 \<Rightarrow> u64" where
  "RoundDown number base = (if base \<noteq> 0 then (number div base) * base else number)"

definition IsPowerOfTwo :: "u64 \<Rightarrow> bool" where
  "IsPowerOfTwo number \<longleftrightarrow> number \<noteq> 0 \<and> number AND (number - 1) = 0"

definition NextHighestPowerOfTwo :: "u32 \<Rightarrow> u32" where
  "NextHighestPowerOfTwo v0 =
     (let val = v0 - 1;
          val = val OR drop_bit 1 val;
          val = val OR drop_bit 2 val;
          val = val OR drop_bit 4 val;
          val = val OR drop_bit 8 val;
          val = val OR drop_bit 16 val
      in val + 1)"

text \<open>
  Pointers are 64-bit addresses. \<open>Distance\<close> subtracts them as signed \<open>ptrdiff_t\<close> values: an
  overflow of that subtraction is undefined in C++, and is \<open>BadAccess\<close> here.
\<close>

definition PtrAdd :: "u64 \<Rightarrow> u64 \<Rightarrow> u64" where
  "PtrAdd ptr offset = ptr + offset"

definition PtrSubtract :: "u64 \<Rightarrow> u64 \<Rightarrow> u64" where
  "PtrSubtract ptr offset = ptr - offset"

definition Distance :: "u64 \<Rightarrow> u64 \<Rightarrow> u64 res" where
  "Distance lhs rhs =
     (let d = sint lhs - sint rhs
      in if \<bar>d\<bar> < 2 ^ 63 then Inr (word_of_int \<bar>d\<bar>) else Inl BadAccess)"

section \<open>Rounding\<close>

lemma unat_RoundDown: "base \<noteq> 0 \<Longrightarrow> unat (RoundDown number base) = (unat number div unat base) * unat base"
proof -
  assume "base \<noteq> 0"
  have "(unat number div unat base) * unat base < 2 ^ 64"
    using le_less_trans [OF div_times_less_eq_dividend unsigned_less [of number]] by simp
  then show ?thesis
    using \<open>base \<noteq> 0\<close> by (simp add: RoundDown_def unat_mult_lem [THEN iffD1] unat_div)
qed

lemma unat_RoundUp:
  assumes b: "base \<noteq> 0" and fits: "unat number + unat base \<le> 2 ^ 64"
  shows "unat (RoundUp number base) = ((unat number + unat base - 1) div unat base) * unat base"
proof -
  let ?s = "unat number + unat base - 1"
  have pos: "0 < unat base"
    using b by (simp add: unat_gt_0)
  have s: "unat (number + base - 1) = ?s"
  proof -
    have "number + base - 1 = of_nat ?s"
      using pos by (simp add: of_nat_diff)
    moreover have "?s < 2 ^ 64"
      using fits pos by linarith
    ultimately show ?thesis
      by (simp add: unat_of_nat)
  qed
  have "?s div unat base * unat base \<le> ?s"
    by simp
  then have "?s div unat base * unat base < 2 ^ 64"
    using fits pos by linarith
  then show ?thesis
    using b by (simp add: RoundUp_def unat_mult_lem [THEN iffD1] unat_div s)
qed

section \<open>Powers of two\<close>

lemma unat_exp_word: "n < LENGTH('w) \<Longrightarrow> unat (2 ^ n :: 'w::len word) = 2 ^ n"
proof -
  assume "n < LENGTH('w)"
  then have "(2::nat) ^ n < 2 ^ LENGTH('w)"
    by simp
  then show ?thesis
    using unat_of_nat [of "2 ^ n", where ?'a = 'w] by simp
qed

text \<open>The position of the highest set bit, as bounds on the value.\<close>

lemma highest_bit:
  assumes "0 < (n::nat)"
  obtains m where "2 ^ m \<le> n" and "n < 2 ^ Suc m"
proof -
  have "\<exists>m. 2 ^ m \<le> n \<and> n < 2 ^ Suc m"
    using ex_power_ivl1 [of 2 n] assms by auto
  then show ?thesis
    using that by blast
qed

lemma bit_of_highest: "2 ^ m \<le> (n::nat) \<Longrightarrow> n < 2 ^ Suc m \<Longrightarrow> bit n m"
proof -
  assume a: "2 ^ m \<le> n" "n < 2 ^ Suc m"
  have "n div 2 ^ m = 1"
  proof (rule div_nat_eqI)
    show "2 ^ m * 1 \<le> n" using a by simp
    show "n < 2 ^ m * Suc 1" using a by simp
  qed
  then show ?thesis
    by (simp add: bit_iff_odd)
qed

text \<open>One smearing step doubles the window of bits that a bit of the result collects.\<close>

lemma smear_step:
  fixes x y :: "'w::len word"
  assumes "\<And>i. bit y i \<longleftrightarrow> (\<exists>j<n. bit x (i + j))"
  shows "bit (y OR drop_bit n y) i \<longleftrightarrow> (\<exists>j<2 * n. bit x (i + j))"
proof
  assume "bit (y OR drop_bit n y) i"
  then consider "bit y i" | "bit y (n + i)"
    by (auto simp: bit_simps)
  then show "\<exists>j<2 * n. bit x (i + j)"
  proof cases
    case 1
    then show ?thesis
      using assms by (metis add_lessD1 less_add_Suc1 mult_2 trans_less_add1)
  next
    case 2
    then obtain j where "j < n" "bit x (n + i + j)"
      using assms by blast
    then show ?thesis
      by (intro exI [of _ "n + j"]) (simp add: ac_simps)
  qed
next
  assume "\<exists>j<2 * n. bit x (i + j)"
  then obtain j where j: "j < 2 * n" "bit x (i + j)"
    by blast
  show "bit (y OR drop_bit n y) i"
  proof (cases "j < n")
    case True
    with j assms show ?thesis by (auto simp: bit_simps)
  next
    case False
    then have "bit y (n + i)"
      using j assms [of "n + i"] by (intro iffD2 [OF assms] exI [of _ "j - n"]) (auto simp: ac_simps)
    then show ?thesis by (simp add: bit_simps)
  qed
qed


lemma bit_smear32:
  fixes x :: u32
  shows "bit (NextHighestPowerOfTwo (x + 1) - 1) i \<longleftrightarrow> (\<exists>j<32. bit x (i + j))"
proof -
  define y1 where "y1 = x OR drop_bit 1 x"
  define y2 where "y2 = y1 OR drop_bit 2 y1"
  define y3 where "y3 = y2 OR drop_bit 4 y2"
  define y4 where "y4 = y3 OR drop_bit 8 y3"
  define y5 where "y5 = y4 OR drop_bit 16 y4"
  have y1: "bit y1 i \<longleftrightarrow> (\<exists>j<2. bit x (i + j))" for i
    using smear_step [where n = 1 and x = x and y = x] by (simp add: y1_def)
  have y2: "bit y2 i \<longleftrightarrow> (\<exists>j<4. bit x (i + j))" for i
    using smear_step [where n = 2 and x = x and y = y1, OF y1] by (simp add: y2_def)
  have y3: "bit y3 i \<longleftrightarrow> (\<exists>j<8. bit x (i + j))" for i
    using smear_step [where n = 4 and x = x and y = y2, OF y2] by (simp add: y3_def)
  have y4: "bit y4 i \<longleftrightarrow> (\<exists>j<16. bit x (i + j))" for i
    using smear_step [where n = 8 and x = x and y = y3, OF y3] by (simp add: y4_def)
  have y5: "bit y5 i \<longleftrightarrow> (\<exists>j<32. bit x (i + j))"
    using smear_step [where n = 16 and x = x and y = y4, OF y4] by (simp add: y5_def)
  have "NextHighestPowerOfTwo (x + 1) - 1 = y5"
    by (simp add: NextHighestPowerOfTwo_def Let_def y1_def y2_def y3_def y4_def y5_def)
  with y5 show ?thesis by simp
qed

lemma bit_word_unat: "bit w i = bit (unat w) i"
  by (simp add: bit_simps)

lemma NextHighestPowerOfTwo_step:
  assumes m: "2 ^ m \<le> unat (v - 1)" "unat (v - 1) < 2 ^ Suc m"
  shows "NextHighestPowerOfTwo v = 2 ^ Suc m"
proof -
  have top: "bit (v - 1) m"
    using bit_of_highest [OF m] by (simp add: bit_word_unat)
  have above: "\<not> bit (v - 1) k" if "m < k" for k
  proof -
    have "unat (v - 1) < 2 ^ k"
      using m(2) that by (meson Suc_leI less_le_trans one_le_numeral power_increasing)
    then show ?thesis
      by (simp add: bit_word_unat bit_iff_odd)
  qed
  have "NextHighestPowerOfTwo v - 1 = mask (Suc m)"
  proof (rule bit_word_eqI)
    fix i
    assume i: "i < LENGTH(32)"
    have "(\<exists>j<32. bit (v - 1) (i + j)) \<longleftrightarrow> i \<le> m"
    proof
      assume "\<exists>j<32. bit (v - 1) (i + j)"
      then show "i \<le> m"
        using above by (metis le_add1 le_less_trans not_le)
    next
      assume "i \<le> m"
      moreover have "m < 32"
        using top bit_imp_le_length [of "v - 1" m] by simp
      ultimately show "\<exists>j<32. bit (v - 1) (i + j)"
        using top by (intro exI [of _ "m - i"]) auto
    qed
    with i show "bit (NextHighestPowerOfTwo v - 1) i = bit (mask (Suc m) :: u32) i"
      using bit_smear32 [of "v - 1" i] by (auto simp: bit_simps)
  qed
  then have "NextHighestPowerOfTwo v = mask (Suc m) + 1"
    by (metis diff_add_cancel)
  then show ?thesis
    by (simp add: mask_eq_decr_exp)
qed

lemma NextHighestPowerOfTwo_zero_iff:
  "NextHighestPowerOfTwo v = 0 \<longleftrightarrow> v = 0 \<or> 2 ^ 31 < unat v"
proof (cases "v = 1")
  case True
  then show ?thesis by (simp add: NextHighestPowerOfTwo_def)
next
  case False
  then have "0 < unat (v - 1)"
    by (simp add: unat_gt_0)
  then obtain m where m: "2 ^ m \<le> unat (v - 1)" "unat (v - 1) < 2 ^ Suc m"
    by (rule highest_bit)
  have "unat (v - 1) < 2 ^ 32"
    using unsigned_less [of "v - 1"] by simp
  then have "m < 32"
    using m(1) by (meson le_less_trans nat_power_less_imp_less zero_less_numeral)
  have v1: "v \<noteq> 0 \<Longrightarrow> unat (v - 1) = unat v - 1"
    by (simp add: unat_minus_one)
  have "(2 :: u32) ^ Suc m = 0 \<longleftrightarrow> m = 31"
    using \<open>m < 32\<close> by (auto simp: exp_eq_zero_iff simp del: power_Suc)
  moreover have "m = 31 \<longleftrightarrow> 2 ^ 31 \<le> unat (v - 1)"
  proof
    show "m = 31 \<Longrightarrow> 2 ^ 31 \<le> unat (v - 1)" using m(1) by simp
  next
    assume "2 ^ 31 \<le> unat (v - 1)"
    then have "(2::nat) ^ 31 < 2 ^ Suc m" using m(2) by (rule le_less_trans)
    then have "31 < Suc m" by (meson nat_power_less_imp_less zero_less_numeral)
    then show "m = 31" using \<open>m < 32\<close> by simp
  qed
  moreover have "2 ^ 31 \<le> unat (v - 1) \<longleftrightarrow> v = 0 \<or> 2 ^ 31 < unat v"
  proof (cases "v = 0")
    case True
    moreover have "unat (- 1 :: u32) = 2 ^ 32 - 1"
      by (simp add: unsigned_minus_1_eq_mask mask_eq_exp_minus_1)
    ultimately show ?thesis by simp
  next
    case False
    moreover have "0 < unat v"
      using False by (simp add: unat_gt_0)
    ultimately show ?thesis
      using v1 [OF False] by auto
  qed
  ultimately show ?thesis
    using NextHighestPowerOfTwo_step [OF m] by simp
qed


lemma and_mask_unat: "unat (w AND (2 ^ n - 1)) = unat w mod 2 ^ n" for w :: "'w::len word"
proof -
  have "w AND (2 ^ n - 1) = take_bit n w"
    by (simp only: mask_eq_decr_exp [symmetric] take_bit_eq_mask)
  then show ?thesis
    by (simp only: unsigned_take_bit_eq) (simp only: take_bit_eq_mod)
qed

lemma NextHighestPowerOfTwo_pow:
  assumes "0 < unat v" and "unat v \<le> 2 ^ 31"
  shows "\<exists>k. unat (NextHighestPowerOfTwo v) = 2 ^ k \<and> unat v \<le> 2 ^ k \<and>
    (\<forall>j. unat v \<le> 2 ^ j \<longrightarrow> k \<le> j)"
proof (cases "v = 1")
  case True
  then show ?thesis
    by (intro exI [of _ 0]) (simp add: NextHighestPowerOfTwo_def)
next
  case False
  then have nz: "0 < unat (v - 1)"
    by (simp add: unat_gt_0)
  have v1: "unat (v - 1) = unat v - 1"
    using assms by (simp add: unat_gt_0 unat_minus_one)
  from nz obtain m where m: "2 ^ m \<le> unat (v - 1)" "unat (v - 1) < 2 ^ Suc m"
    by (rule highest_bit)
  have "(2::nat) ^ m < 2 ^ 31"
    using m(1) v1 assms by linarith
  then have "Suc m < 32"
    using power_less_imp_less_exp [of "2::nat" m 31] by simp
  show ?thesis
  proof (intro exI [of _ "Suc m"] conjI allI impI)
    show "unat (NextHighestPowerOfTwo v) = 2 ^ Suc m"
      using \<open>Suc m < 32\<close> by (simp add: NextHighestPowerOfTwo_step [OF m] unat_exp_word
          del: power_Suc)
    show "unat v \<le> 2 ^ Suc m"
      using m(2) v1 by linarith
    fix j
    assume "unat v \<le> 2 ^ j"
    then have "(2::nat) ^ m < 2 ^ j"
      using m(1) v1 assms by linarith
    then show "Suc m \<le> j"
      using power_less_imp_less_exp [of "2::nat" m j] by simp
  qed
qed

lemma IsPowerOfTwo_pow: "IsPowerOfTwo number \<longleftrightarrow> (\<exists>k<64. number = 2 ^ k)"
proof
  assume p: "IsPowerOfTwo number"
  then have "0 < unat number"
    by (simp add: IsPowerOfTwo_def unat_gt_0)
  then obtain m where m: "2 ^ m \<le> unat number" "unat number < 2 ^ Suc m"
    by (rule highest_bit)
  have top: "bit number m"
    using bit_of_highest [OF m] by (simp add: bit_word_unat)
  have "unat number = 2 ^ m"
  proof (rule ccontr)
    assume "unat number \<noteq> 2 ^ m"
    then have "2 ^ m \<le> unat (number - 1)" "unat (number - 1) < 2 ^ Suc m"
      using m p by (simp_all add: IsPowerOfTwo_def unat_minus_one)
    then have "bit (number - 1) m"
      using bit_of_highest by (simp add: bit_word_unat)
    with top have "bit (number AND (number - 1)) m"
      by (simp add: bit_simps)
    with p show False
      by (simp add: IsPowerOfTwo_def)
  qed
  moreover have "m < 64"
    using top bit_imp_le_length [of number m] by simp
  ultimately show "\<exists>k<64. number = 2 ^ k"
    by (intro exI [of _ m]) (simp add: word_unat_eq_iff unat_exp_word)
next
  assume "\<exists>k<64. number = 2 ^ k"
  then obtain k where k: "k < 64" "number = 2 ^ k"
    by blast
  have "number AND (number - 1) = 0"
    by (rule bit_word_eqI) (simp add: k mask_eq_decr_exp [symmetric] bit_simps)
  with k show "IsPowerOfTwo number"
    by (simp add: IsPowerOfTwo_def exp_eq_zero_iff)
qed

section \<open>Properties\<close>

text \<open>For a positive argument up to \<open>2 ^ 31\<close>, \<open>NextHighestPowerOfTwo\<close> returns the least power
  of two that is not below it.\<close>

theorem NextHighestPowerOfTwo_least:
  assumes "0 < unat v" and "unat v \<le> 2 ^ 31"
  shows "\<exists>k. unat (NextHighestPowerOfTwo v) = 2 ^ k \<and> unat v \<le> 2 ^ k \<and>
    (\<forall>j. unat v \<le> 2 ^ j \<longrightarrow> k \<le> j)"
  by (rule NextHighestPowerOfTwo_pow [OF assms])

theorem NextHighestPowerOfTwo_least_witness:
  "\<exists>k. unat (NextHighestPowerOfTwo 200) = 2 ^ k \<and> unat (200 :: u32) \<le> 2 ^ k \<and>
    (\<forall>j. unat (200 :: u32) \<le> 2 ^ j \<longrightarrow> k \<le> j)"
  by (rule NextHighestPowerOfTwo_least) simp_all

text \<open>\<open>IsPowerOfTwo\<close> decides exactly the powers of two, zero excluded.\<close>

theorem IsPowerOfTwo_iff: "IsPowerOfTwo number \<longleftrightarrow> (\<exists>k<64. number = 2 ^ k)"
  by (rule IsPowerOfTwo_pow)

text \<open>\<open>RoundUp\<close> to a non-zero base returns the least multiple of the base that is not below
  the number, whenever the sum of the two does not exceed \<open>2 ^ 64\<close>.\<close>

theorem RoundUp_least_multiple:
  assumes "base \<noteq> 0" and "unat number + unat base \<le> 2 ^ 64"
  shows "unat base dvd unat (RoundUp number base) \<and> unat number \<le> unat (RoundUp number base) \<and>
    (\<forall>m. unat base dvd m \<and> unat number \<le> m \<longrightarrow> unat (RoundUp number base) \<le> m)"
proof -
  define b n r where "b = unat base" and "n = unat number" and "r = unat (RoundUp number base)"
  have b: "0 < b"
    using assms(1) by (simp add: b_def unat_gt_0)
  have r: "r = ((n + b - 1) div b) * b"
    using unat_RoundUp [OF assms] by (simp add: b_def n_def r_def)
  have split: "(n + b - 1) div b * b + (n + b - 1) mod b = n + b - 1"
    by simp
  have "(n + b - 1) mod b < b"
    using b by simp
  with split r have ge: "n \<le> r" and lt: "r < n + b"
    using b by linarith+
  have "r \<le> m" if "b dvd m" "n \<le> m" for m
  proof (rule ccontr)
    assume "\<not> r \<le> m"
    then have "m + b \<le> r"
      using r that(1) by (auto elim!: dvdE simp: mult.commute [of b])
        (metis Suc_leI add.commute mult_Suc mult_le_mono1 mult_less_cancel2 not_le)
    with lt that(2) show False by linarith
  qed
  with ge r show ?thesis
    unfolding b_def n_def r_def by auto
qed

theorem RoundUp_least_multiple_witness:
  "unat (10 :: u64) dvd unat (RoundUp 11 10) \<and> unat (11 :: u64) \<le> unat (RoundUp 11 10) \<and>
    unat (RoundUp 11 10) \<le> 20"
  using RoundUp_least_multiple [of 10 11] by (auto elim: allE [of _ 20])

end
