(* ===== verification/L4_EpochActions.thy ===== *)
theory L4_EpochActions
  imports L4_Math "HOL-Library.Multiset"
begin

text \<open>
  The deferred actions of \<open>src/EpochActionManager.cpp\<close>: actions are registered at an epoch in one
  of several queues, chosen round-robin, and performed when their epoch has passed. A queue is a
  \<open>std::map\<close> from epochs to vectors of actions: a list sorted by epoch. The type \<open>'a\<close> of actions
  is a parameter; \<open>PerformActions\<close> returns the actions in the order in which it runs them. The locks
  make each access to one queue atomic.
\<close>

section \<open>Queues of actions\<close>

type_synonym 'a EpochToActions = "(u64 \<times> 'a list) list"

record 'a EpochActionManager =
  m_epochToActionsList :: "'a EpochToActions list"
  m_counter :: u32

text \<open>
  The constructor. \<open>hardware\<close> is what \<open>std::thread::hardware_concurrency\<close> returns, which may be 0.
\<close>

definition EpochActionManager_new :: "u32 \<Rightarrow> u8 \<Rightarrow> 'a EpochActionManager res" where
  "EpochActionManager_new hardware numActionQueues =
     (let n = (if numActionQueues = 0 then ucast hardware else ucast numActionQueues) :: u16;
          n = ucast (NextHighestPowerOfTwo (ucast n)) :: u16
      in if n \<noteq> 0 \<and> IsPowerOfTwo (ucast n)
         then Inr \<lparr>m_epochToActionsList = replicate (unat n) [], m_counter = 0\<rparr>
         else Inl (AssertFailed ''newNumActionQueues != 0U && Utils::Math::IsPowerOfTwo(newNumActionQueues)''))"

text \<open>\<open>m[epochCounter].emplace_back(action)\<close> of the sorted map.\<close>

fun emplace_action :: "u64 \<Rightarrow> 'a \<Rightarrow> 'a EpochToActions \<Rightarrow> 'a EpochToActions" where
  "emplace_action c a [] = [(c, [a])]"
| "emplace_action c a ((c', as) # m) =
     (if c = c' then (c', as @ [a]) # m
      else if c < c' then (c, [a]) # (c', as) # m
      else (c', as) # emplace_action c a m)"

definition queue_index :: "nat \<Rightarrow> u32 \<Rightarrow> nat" where
  "queue_index n counter = unat (ucast (ucast counter AND (of_nat n - 1 :: u64)) :: u32)"

definition EpochActionManager_RegisterAction ::
  "u64 \<Rightarrow> 'a \<Rightarrow> 'a EpochActionManager \<Rightarrow> unit res \<times> 'a EpochActionManager" where
  "EpochActionManager_RegisterAction epochCounter action M =
     (let M = M\<lparr>m_counter := m_counter M + 1\<rparr>;
          i = queue_index (length (m_epochToActionsList M)) (m_counter M)
      in if i < length (m_epochToActionsList M)
         then (Inr (), M\<lparr>m_epochToActionsList := (m_epochToActionsList M)
                [i := emplace_action epochCounter action (m_epochToActionsList M ! i)]\<rparr>)
         else (Inl BadAccess, M))"

text \<open>The loop over one queue, up to \<open>lower_bound(epochCounter)\<close>: the actions moved out so far, and
  the queue that is left.\<close>

fun drain :: "u64 \<Rightarrow> 'a EpochToActions \<Rightarrow> 'a list \<Rightarrow> 'a list \<times> 'a EpochToActions" where
  "drain e [] acc = (acc, [])"
| "drain e ((c, as) # m) acc = (if c < e then drain e m (acc @ as) else (acc, (c, as) # m))"

fun drain_all :: "u64 \<Rightarrow> 'a EpochToActions list \<Rightarrow> 'a list \<Rightarrow> 'a list \<times> 'a EpochToActions list" where
  "drain_all e [] acc = (acc, [])"
| "drain_all e (m # ms) acc =
     (let (acc, m') = drain e m acc; (acc, ms') = drain_all e ms acc in (acc, m' # ms'))"

definition PerformActions :: "u64 \<Rightarrow> 'a EpochActionManager \<Rightarrow> 'a list \<times> u64 \<times> 'a EpochActionManager" where
  "PerformActions epochCounter M =
     (let (actionsToPerform, ms) = drain_all epochCounter (m_epochToActionsList M) []
      in (actionsToPerform, of_nat (length actionsToPerform), M\<lparr>m_epochToActionsList := ms\<rparr>))"

text \<open>\<open>ApplyActions\<close>: each action in turn, an action being what \<open>run\<close> makes of it on a state.\<close>

definition ApplyActions :: "('a \<Rightarrow> 's \<Rightarrow> 's res) \<Rightarrow> 'a list \<Rightarrow> 's \<Rightarrow> 's res" where
  "ApplyActions run actions s = fold (\<lambda>a r. bind_res r (run a)) actions (Inr s)"

section \<open>Well-formedness and contents\<close>

definition sorted_epochs :: "'a EpochToActions \<Rightarrow> bool" where
  "sorted_epochs m \<longleftrightarrow> sorted_wrt (<) (map fst m)"

definition actions_ok :: "'a EpochActionManager \<Rightarrow> bool" where
  "actions_ok M \<longleftrightarrow> (\<exists>k. length (m_epochToActionsList M) = 2 ^ k \<and> k < 32) \<and>
     (\<forall>m\<in>set (m_epochToActionsList M). sorted_epochs m)"

definition queue_items :: "'a EpochToActions \<Rightarrow> (u64 \<times> 'a) list" where
  "queue_items m = concat (map (\<lambda>(c, as). map (Pair c) as) m)"

definition all_items :: "'a EpochToActions list \<Rightarrow> (u64 \<times> 'a) list" where
  "all_items ms = concat (map queue_items ms)"

definition pending :: "'a EpochActionManager \<Rightarrow> (u64 \<times> 'a) multiset" where
  "pending M = mset (all_items (m_epochToActionsList M))"

lemma queue_items_simps [simp]:
  "queue_items [] = []"
  "queue_items ((c, as) # m) = map (Pair c) as @ queue_items m"
  by (simp_all add: queue_items_def)

lemma all_items_simps [simp]:
  "all_items [] = []"
  "all_items (m # ms) = queue_items m @ all_items ms"
  by (simp_all add: all_items_def)

lemma mset_emplace: "mset (queue_items (emplace_action c a m)) = add_mset (c, a) (mset (queue_items m))"
  by (induction m) auto

lemma set_emplace: "fst ` set (emplace_action c a m) = insert c (fst ` set m)"
  by (induction c a m rule: emplace_action.induct) (simp_all add: insert_commute)

lemma sorted_emplace: "sorted_epochs m \<Longrightarrow> sorted_epochs (emplace_action c a m)"
proof (induction m)
  case Nil
  then show ?case by (simp add: sorted_epochs_def)
next
  case (Cons ca m)
  obtain c' as where ca: "ca = (c', as)"
    by (cases ca)
  have tail: "sorted_epochs m" and less: "\<forall>x\<in>fst ` set m. c' < x"
    using Cons.prems by (auto simp: sorted_epochs_def ca)
  show ?case
  proof (cases "c' < c")
    case True
    then have "\<forall>x\<in>fst ` set (emplace_action c a m). c' < x"
      unfolding set_emplace using less by simp
    with Cons.IH [OF tail] True show ?thesis
      by (auto simp: sorted_epochs_def ca)
  next
    case False
    then have "c = c' \<or> c < c'"
      by auto
    with Cons.prems show ?thesis
      by (auto simp: sorted_epochs_def ca dest: order.strict_trans)
  qed
qed

lemma all_items_upd:
  "i < length ms \<Longrightarrow> mset (all_items (ms[i := m])) + mset (queue_items (ms ! i)) =
    mset (all_items ms) + mset (queue_items m)"
proof (induction ms arbitrary: i)
  case Nil
  then show ?case by simp
next
  case (Cons x xs)
  show ?case
  proof (cases i)
    case 0
    then show ?thesis by simp
  next
    case (Suc i')
    with Cons show ?thesis by (simp add: add.assoc)
  qed
qed

text \<open>The index is in range for a power of two of queues.\<close>

lemma queue_index_mask:
  assumes "k < 32"
  shows "queue_index (2 ^ k) counter = unat counter mod 2 ^ k"
proof -
  have small: "unat counter < 2 ^ 32"
    using unsigned_less [of counter] by simp
  then have "unat (ucast counter :: u64) = unat counter"
    by (simp add: unsigned_ucast_eq take_bit_nat_eq_self)
  then have mask: "unat (ucast counter AND (of_nat (2 ^ k) - 1 :: u64)) = unat counter mod 2 ^ k"
    using and_mask_unat [of "ucast counter :: u64" k] by simp
  moreover have "unat counter mod 2 ^ k < 2 ^ 32"
    using small by (meson le_less_trans mod_less_eq_dividend)
  ultimately show ?thesis
    unfolding queue_index_def unsigned_ucast_eq mask by (simp add: take_bit_nat_eq_self)
qed

section \<open>What registering and performing do\<close>

lemma RegisterAction_ok:
  assumes "actions_ok M"
  obtains M' where "EpochActionManager_RegisterAction c a M = (Inr (), M')" "actions_ok M'"
    "pending M' = add_mset (c, a) (pending M)"
    "length (m_epochToActionsList M') = length (m_epochToActionsList M)"
proof -
  let ?ms = "m_epochToActionsList M"
  define i where "i = queue_index (length ?ms) (m_counter M + 1)"
  obtain k where k: "length ?ms = 2 ^ k" "k < 32"
    using assms by (auto simp: actions_ok_def)
  then have i: "i < length ?ms"
    by (simp add: i_def queue_index_mask)
  let ?M' = "M\<lparr>m_counter := m_counter M + 1, m_epochToActionsList := ?ms[i := emplace_action c a (?ms ! i)]\<rparr>"
  have run: "EpochActionManager_RegisterAction c a M = (Inr (), ?M')"
    using i by (simp add: EpochActionManager_RegisterAction_def Let_def i_def)
  have old: "\<forall>m\<in>set ?ms. sorted_epochs m"
    using assms by (simp add: actions_ok_def)
  have "sorted_epochs m" if "m \<in> set (?ms[i := emplace_action c a (?ms ! i)])" for m
  proof -
    have "m = emplace_action c a (?ms ! i) \<or> m \<in> set ?ms"
      using that set_update_subset_insert [of ?ms i "emplace_action c a (?ms ! i)"] by auto
    moreover have "sorted_epochs (?ms ! i)"
      using old i by simp
    ultimately show ?thesis
      using old by (elim disjE) (simp_all add: sorted_emplace)
  qed
  then have "actions_ok ?M'"
    using k by (auto simp: actions_ok_def)
  moreover have "pending ?M' = add_mset (c, a) (pending M)"
    using all_items_upd [OF i, of "emplace_action c a (?ms ! i)"]
    by (simp add: pending_def mset_emplace)
  ultimately show ?thesis
    using that [OF run] by simp
qed

lemma queue_items_epochs: "(c, a) \<in> set (queue_items m) \<Longrightarrow> c \<in> fst ` set m"
  by (force simp: queue_items_def)

lemma drain_result:
  "sorted_epochs m \<Longrightarrow>
    fst (drain e m acc) = acc @ map snd (filter (\<lambda>(c, a). c < e) (queue_items m)) \<and>
    queue_items (snd (drain e m acc)) = filter (\<lambda>(c, a). \<not> c < e) (queue_items m) \<and>
    sorted_epochs (snd (drain e m acc))"
proof (induction m arbitrary: acc)
  case Nil
  then show ?case by (simp add: sorted_epochs_def)
next
  case (Cons ca m)
  obtain c as where ca: "ca = (c, as)"
    by (cases ca)
  have tail: "sorted_epochs m" and less: "\<And>c'. c' \<in> fst ` set m \<Longrightarrow> c < c'"
    using Cons.prems by (auto simp: sorted_epochs_def ca)
  show ?case
  proof (cases "c < e")
    case True
    then show ?thesis
      using Cons.IH [OF tail, of "acc @ as"] by (simp add: ca filter_map comp_def)
  next
    case False
    have "\<not> c' < e" if "(c', a) \<in> set (queue_items m)" for c' a
      using less [OF queue_items_epochs [OF that]] False by auto
    then have "filter (\<lambda>(c, a). c < e) (queue_items m) = []"
        "filter (\<lambda>(c, a). \<not> c < e) (queue_items m) = queue_items m"
      by (auto simp: filter_empty_conv filter_id_conv)
    then show ?thesis
      using False Cons.prems by (simp add: ca filter_map comp_def)
  qed
qed

lemma drain_all_result:
  "\<forall>m\<in>set ms. sorted_epochs m \<Longrightarrow>
    fst (drain_all e ms acc) = acc @ map snd (filter (\<lambda>(c, a). c < e) (all_items ms)) \<and>
    all_items (snd (drain_all e ms acc)) = filter (\<lambda>(c, a). \<not> c < e) (all_items ms) \<and>
    (\<forall>m\<in>set (snd (drain_all e ms acc)). sorted_epochs m) \<and>
    length (snd (drain_all e ms acc)) = length ms"
proof (induction ms arbitrary: acc)
  case Nil
  then show ?case by simp
next
  case (Cons m ms)
  then show ?case
    using drain_result [of m e acc] Cons.IH [of "fst (drain e m acc)"]
    by (simp add: case_prod_unfold)
qed

lemma PerformActions_ok:
  assumes "actions_ok M" "PerformActions e M = (done, n, M')"
  shows "mset done = image_mset snd (filter_mset (\<lambda>(c, a). c < e) (pending M))"
    and "pending M' = filter_mset (\<lambda>(c, a). \<not> c < e) (pending M)"
    and "actions_ok M'" and "n = of_nat (length done)"
    and "done = map snd (filter (\<lambda>(c, a). c < e) (all_items (m_epochToActionsList M)))"
proof -
  have "\<forall>m\<in>set (m_epochToActionsList M). sorted_epochs m"
    using assms(1) by (simp add: actions_ok_def)
  note all = drain_all_result [OF this, of e "[]"]
  have "done": "done = fst (drain_all e (m_epochToActionsList M) [])"
    and M': "M' = M\<lparr>m_epochToActionsList := snd (drain_all e (m_epochToActionsList M) [])\<rparr>"
    and n: "n = of_nat (length done)"
    using assms(2) by (auto simp: PerformActions_def split_beta)
  show list: "done = map snd (filter (\<lambda>(c, a). c < e) (all_items (m_epochToActionsList M)))"
    using all by (simp add: "done")
  show "mset done = image_mset snd (filter_mset (\<lambda>(c, a). c < e) (pending M))"
    unfolding list by (simp add: pending_def flip: mset_filter)
  show "pending M' = filter_mset (\<lambda>(c, a). \<not> c < e) (pending M)"
    using all by (simp add: M' pending_def mset_filter)
  show "actions_ok M'"
    using all assms(1) by (simp add: M' actions_ok_def)
  show "n = of_nat (length done)"
    by (fact n)
qed

section \<open>The constructor\<close>

lemma NextHighestPowerOfTwo_u16:
  fixes v :: u16
  assumes "v \<noteq> 0" "unat v \<le> 2 ^ 15"
  obtains k where "k \<le> 15" "unat (ucast (NextHighestPowerOfTwo (ucast v)) :: u16) = 2 ^ k"
    "unat v \<le> 2 ^ k" "\<And>j. unat v \<le> 2 ^ j \<Longrightarrow> k \<le> j"
proof -
  have v: "unat (ucast v :: u32) = unat v"
    using assms(2) by (simp add: unsigned_ucast_eq take_bit_nat_eq_self)
  have "0 < unat v"
    using assms(1) by (simp add: unat_gt_0)
  then obtain k where k: "unat (NextHighestPowerOfTwo (ucast v)) = 2 ^ k" "unat v \<le> 2 ^ k"
      "\<And>j. unat v \<le> 2 ^ j \<Longrightarrow> k \<le> j"
    using NextHighestPowerOfTwo_pow [of "ucast v"] assms(2) v by auto
  have "k \<le> 15"
    using k(3) [OF assms(2)] .
  then have "k < 16"
    by simp
  then have "unat (ucast (NextHighestPowerOfTwo (ucast v)) :: u16) = 2 ^ k"
    by (simp add: unsigned_ucast_eq k(1) take_bit_nat_eq_self)
  with that \<open>k \<le> 15\<close> k(2,3) show ?thesis
    by blast
qed

lemma power_word_unat: "k < LENGTH('w) \<Longrightarrow> (w :: 'w::len word) = 2 ^ k \<longleftrightarrow> unat w = 2 ^ k"
  by (metis unat_exp_word unsigned_word_eqI)

text \<open>The number of queues that the arguments ask for.\<close>

definition requested_queues :: "u32 \<Rightarrow> u8 \<Rightarrow> u16" where
  "requested_queues hardware numActionQueues =
     (if numActionQueues = 0 then ucast hardware else ucast numActionQueues)"

lemma EpochActionManager_new_ok:
  assumes "requested_queues hardware n \<noteq> 0" "unat (requested_queues hardware n) \<le> 2 ^ 15"
  obtains M k where "EpochActionManager_new hardware n = Inr M" "k \<le> 15"
    "length (m_epochToActionsList M) = 2 ^ k" "unat (requested_queues hardware n) \<le> 2 ^ k"
    "\<And>j. unat (requested_queues hardware n) \<le> 2 ^ j \<Longrightarrow> k \<le> j"
    "actions_ok M" "pending M = {#}"
proof -
  let ?q = "ucast (NextHighestPowerOfTwo (ucast (requested_queues hardware n))) :: u16"
  obtain k where k: "k \<le> 15" "unat ?q = 2 ^ k" "unat (requested_queues hardware n) \<le> 2 ^ k"
    "\<And>j. unat (requested_queues hardware n) \<le> 2 ^ j \<Longrightarrow> k \<le> j"
    using NextHighestPowerOfTwo_u16 [OF assms] by blast
  have "unat (ucast ?q :: u64) = 2 ^ k"
    using k(1,2) unsigned_less [of ?q] by (simp add: unsigned_ucast_eq [of ?q] take_bit_nat_eq_self)
  then have "(ucast ?q :: u64) = 2 ^ k"
    using k(1) by (subst power_word_unat) simp_all
  then have "IsPowerOfTwo (ucast ?q)"
    unfolding IsPowerOfTwo_pow using k(1) by (intro exI [of _ k]) simp
  moreover have "?q \<noteq> 0"
    using k(2) by (metis power_eq_0_iff unsigned_0 zero_neq_numeral)
  ultimately have new: "EpochActionManager_new hardware n =
      Inr \<lparr>m_epochToActionsList = replicate (unat ?q) [], m_counter = 0\<rparr>"
    by (simp add: EpochActionManager_new_def requested_queues_def Let_def)
  have "all_items (replicate m []) = []" for m
    by (induction m) simp_all
  then show ?thesis
    by (intro that [OF new k(1)]) (use k in \<open>auto simp: actions_ok_def pending_def sorted_epochs_def\<close>)
qed

lemma EpochActionManager_new_actions_ok:
  assumes "EpochActionManager_new hardware n = Inr M"
  shows "actions_ok M \<and> pending M = {#}"
proof -
  define q where "q = (ucast (NextHighestPowerOfTwo (ucast (requested_queues hardware n))) :: u16)"
  have pow: "IsPowerOfTwo (ucast q)" and M: "M = \<lparr>m_epochToActionsList = replicate (unat q) [], m_counter = 0\<rparr>"
    using assms by (auto simp: EpochActionManager_new_def requested_queues_def q_def Let_def split: if_splits)
  obtain k where k: "k < 64" "(ucast q :: u64) = 2 ^ k"
    using pow unfolding IsPowerOfTwo_pow by blast
  have small: "unat q < 2 ^ 16"
    using unsigned_less [of q] by simp
  have "unat (ucast q :: u64) = unat q"
    using small by (simp add: unsigned_ucast_eq take_bit_nat_eq_self)
  then have q: "unat q = 2 ^ k"
    using k by (simp add: unat_exp_word)
  then have "k < 16"
    using small power_less_imp_less_exp [of "2::nat" k 16] by simp
  moreover have "all_items (replicate m []) = []" for m
    by (induction m) simp_all
  ultimately show ?thesis
    by (auto simp: M q actions_ok_def pending_def sorted_epochs_def)
qed

section \<open>Properties\<close>

text \<open>The constructor makes the least power of two of queues that is not below the number asked
  for (the hardware concurrency, cut to 16 bits, when 0 is passed), if that number lies in
  1 .. \<open>2 ^ 15\<close>; with no hardware concurrency known (0) and 0 passed, its assertion fails.\<close>

theorem EpochActionManager_new_queues:
  shows "requested_queues hardware n \<noteq> 0 \<and> unat (requested_queues hardware n) \<le> 2 ^ 15 \<Longrightarrow>
    \<exists>(M :: 'a EpochActionManager) k. EpochActionManager_new hardware n = Inr M \<and> length (m_epochToActionsList M) = 2 ^ k \<and>
      unat (requested_queues hardware n) \<le> 2 ^ k \<and>
      (\<forall>j. unat (requested_queues hardware n) \<le> 2 ^ j \<longrightarrow> k \<le> j) \<and>
      (EpochActionManager_new 0 0 :: 'a EpochActionManager res) = Inl (AssertFailed
        ''newNumActionQueues != 0U && Utils::Math::IsPowerOfTwo(newNumActionQueues)'')"
proof -
  assume *: "requested_queues hardware n \<noteq> 0 \<and> unat (requested_queues hardware n) \<le> 2 ^ 15"
  have "(EpochActionManager_new 0 0 :: 'a EpochActionManager res) = Inl (AssertFailed
      ''newNumActionQueues != 0U && Utils::Math::IsPowerOfTwo(newNumActionQueues)'')"
    by (simp add: EpochActionManager_new_def NextHighestPowerOfTwo_def Let_def)
  moreover obtain M :: "'a EpochActionManager" and k where "EpochActionManager_new hardware n = Inr M"
    "length (m_epochToActionsList M) = 2 ^ k" "unat (requested_queues hardware n) \<le> 2 ^ k"
    "\<And>j. unat (requested_queues hardware n) \<le> 2 ^ j \<Longrightarrow> k \<le> j"
    using EpochActionManager_new_ok [of hardware n] * by metis
  ultimately show ?thesis
    by blast
qed

theorem EpochActionManager_new_queues_witness:
  "\<exists>M k. EpochActionManager_new 8 5 = Inr M \<and> length (m_epochToActionsList M) = 2 ^ k \<and> (5::nat) \<le> 2 ^ k \<and> k \<le> 3"
proof -
  have n: "requested_queues 8 5 = 5"
    by (simp add: requested_queues_def)
  show ?thesis
    using EpochActionManager_new_queues [of 8 5] unfolding n by (fastforce dest: spec [of _ 3])
qed

text \<open>\<open>PerformActions\<close> runs exactly the actions registered at an epoch below the given one, each
  as often as it was registered, keeps all the others, and returns how many it ran.\<close>

theorem PerformActions_exact:
  assumes "actions_ok M" "PerformActions e M = (done, n, M')"
  shows "mset done = image_mset snd (filter_mset (\<lambda>(c, a). c < e) (pending M)) \<and>
    pending M' = filter_mset (\<lambda>(c, a). \<not> c < e) (pending M) \<and> actions_ok M' \<and> n = of_nat (length done)"
  using PerformActions_ok [OF assms] by simp

theorem PerformActions_exact_witness:
  "\<exists>M'. PerformActions 5 \<lparr>m_epochToActionsList = [[(3, [''a'', ''b'']), (5, [''c''])], [(4, [''d''])]], m_counter = 9\<rparr> =
      ([''a'', ''b'', ''d''], 3, M') \<and> pending M' = {#(5, ''c'')#}"
proof -
  let ?M = "\<lparr>m_epochToActionsList = [[(3, [''a'', ''b'']), (5, [''c''])], [(4, [''d''])]], m_counter = 9\<rparr>"
  have ok: "actions_ok ?M"
    by (simp add: actions_ok_def sorted_epochs_def exI [of _ 1])
  have run: "PerformActions 5 ?M = ([''a'', ''b'', ''d''], 3,
      \<lparr>m_epochToActionsList = [[(5, [''c''])], []], m_counter = 9\<rparr>)"
    by code_simp
  show ?thesis
    using PerformActions_exact [OF ok run] run by (auto simp: pending_def)
qed

text \<open>A history of calls, and the list of the actions that were run in it.\<close>

datatype 'a action_op = Register u64 'a | Perform u64

fun action_history :: "'a action_op list \<Rightarrow> 'a EpochActionManager \<Rightarrow> 'a list \<times> 'a EpochActionManager" where
  "action_history [] M = ([], M)"
| "action_history (Register c a # ops) M = action_history ops (snd (EpochActionManager_RegisterAction c a M))"
| "action_history (Perform e # ops) M =
     (let (done, _, M) = PerformActions e M; (rest, M) = action_history ops M in (done @ rest, M))"

fun registered :: "'a action_op list \<Rightarrow> (u64 \<times> 'a) multiset" where
  "registered [] = {#}"
| "registered (Register c a # ops) = add_mset (c, a) (registered ops)"
| "registered (Perform e # ops) = registered ops"

lemma action_history_balance:
  "actions_ok M \<Longrightarrow> action_history ops M = (done, M') \<Longrightarrow>
    actions_ok M' \<and> mset done + image_mset snd (pending M') = image_mset snd (pending M + registered ops)"
proof (induction ops arbitrary: M "done")
  case Nil
  then show ?case by simp
next
  case (Cons p ops)
  show ?case
  proof (cases p)
    case (Register c a)
    obtain M1 where "EpochActionManager_RegisterAction c a M = (Inr (), M1)" "actions_ok M1"
        "pending M1 = add_mset (c, a) (pending M)"
      using RegisterAction_ok [OF Cons.prems(1)] by metis
    then show ?thesis
      using Cons Register by simp
  next
    case (Perform e)
    obtain d1 n M1 where run: "PerformActions e M = (d1, n, M1)"
      by (cases "PerformActions e M")
    note ok = PerformActions_ok [OF Cons.prems(1) run]
    obtain rest where rest: "action_history ops M1 = (rest, M')" "done = d1 @ rest"
      using Cons.prems(2) Perform run by (auto split: prod.splits)
    have "pending M = filter_mset (\<lambda>(c, a). c < e) (pending M) + filter_mset (\<lambda>(c, a). \<not> c < e) (pending M)"
      using multiset_partition [of "pending M" "\<lambda>(c, a). c < e"] by (simp add: case_prod_unfold)
    then have "image_mset snd (pending M) = mset d1 + image_mset snd (pending M1)"
      unfolding ok(1,2) by (metis image_mset_union)
    moreover have "actions_ok M' \<and> mset rest + image_mset snd (pending M') =
        image_mset snd (pending M1 + registered ops)"
      by (rule Cons.IH [OF ok(3) rest(1)])
    ultimately show ?thesis
      using Perform rest(2) by simp
  qed
qed

text \<open>Over any history of \<open>RegisterAction\<close> and \<open>PerformActions\<close> calls no action is lost or run
  twice: the actions run, together with those still pending, are those that were registered; and
  \<open>RegisterAction\<close> never fails or leaves the queues, however the counter wraps.\<close>

theorem actions_exactly_once:
  assumes "actions_ok M" "action_history ops M = (done, M')"
  shows "actions_ok M' \<and> mset done + image_mset snd (pending M') = image_mset snd (pending M + registered ops)"
  by (rule action_history_balance [OF assms])

theorem actions_exactly_once_witness:
  "\<exists>M'. action_history [Register 1 ''a'', Register 2 ''b'', Perform 2, Register 2 ''c'', Perform 3]
      \<lparr>m_epochToActionsList = [[], []], m_counter = 0xFFFFFFFF\<rparr> = ([''a'', ''c'', ''b''], M') \<and> pending M' = {#}"
proof -
  let ?M = "\<lparr>m_epochToActionsList = [[], []], m_counter = 0xFFFFFFFF\<rparr>"
  have ok: "actions_ok ?M"
    by (simp add: actions_ok_def sorted_epochs_def exI [of _ 1])
  have run: "action_history [Register 1 ''a'', Register 2 ''b'', Perform 2, Register 2 ''c'', Perform 3] ?M =
      ([''a'', ''c'', ''b''], \<lparr>m_epochToActionsList = [[], []], m_counter = 2\<rparr>)"
    by code_simp
  show ?thesis
    using actions_exactly_once [OF ok run] run by (simp add: pending_def)
qed

end
