(* ===== verification/L4_EpochManager.thy ===== *)
theory L4_EpochManager
  imports L4_Registry L4_EpochQueue L4_EpochActions
begin

text \<open>
  The epoch manager of \<open>inc/L4/LocalMemory/EpochManager.h\<close>: it joins the epoch queue and the action
  manager, registers actions at the current epoch, and its processing thread repeats \<open>Remove\<close> and
  \<open>Add\<close>. Here the operations run one at a time; their steps are interleaved in \<open>L4_EpochSafety\<close>.
  The last sections put the manager under a hash table whose actions are the deallocations of its
  buffers.
\<close>

section \<open>The manager\<close>

record EpochManagerConfig =
  m_epochQueueSize :: u32
  m_epochProcessingInterval :: nat
  m_numActionQueues :: u8

definition default_EpochManagerConfig :: EpochManagerConfig where
  "default_EpochManagerConfig = \<lparr>m_epochQueueSize = 1000, m_epochProcessingInterval = 1000,
     m_numActionQueues = 1\<rparr>"

record 'a EpochManager =
  m_currentEpochCounter :: u64
  m_epochQueue :: EpochQueue
  m_epochActionManager :: "'a EpochActionManager"
  em_perfData :: ServerPerfData

definition EpochManager_new :: "u32 \<Rightarrow> EpochManagerConfig \<Rightarrow> ServerPerfData \<Rightarrow> 'a EpochManager res" where
  "EpochManager_new hardware config perfData =
     bind_res (EpochQueue_new 0 (m_epochQueueSize config)) (\<lambda>q.
     bind_res (EpochActionManager_new hardware (m_numActionQueues config)) (\<lambda>M.
     Inr \<lparr>m_currentEpochCounter = 0, m_epochQueue = q, m_epochActionManager = M,
       em_perfData = perfData\<rparr>))"

definition RegisterAction :: "'a \<Rightarrow> 'a EpochManager \<Rightarrow> unit res \<times> 'a EpochManager" where
  "RegisterAction action E =
     (let (r, M) = EpochActionManager_RegisterAction (m_currentEpochCounter E) action (m_epochActionManager E);
          E = E\<lparr>m_epochActionManager := M\<rparr>
      in case r of Inl e \<Rightarrow> (Inl e, E)
         | Inr _ \<Rightarrow> (Inr (), E\<lparr>em_perfData := pc_Increment (em_perfData E) PendingActionsCount\<rparr>))"

definition EpochManager_Add :: "'a EpochManager \<Rightarrow> 'a EpochManager" where
  "EpochManager_Add E =
     (let E = E\<lparr>m_currentEpochCounter := m_currentEpochCounter E + 1\<rparr>
      in E\<lparr>m_epochQueue := AddNewEpoch (m_epochQueue E)\<rparr>)"

text \<open>The result is the list of actions that were run, and the manager after it.\<close>

definition EpochManager_Remove :: "'a EpochManager \<Rightarrow> 'a list \<times> 'a EpochManager" where
  "EpochManager_Remove E =
     (let (oldest, q) = RemoveUnreferenceEpochCounters (m_epochQueue E);
          (run, n, M) = PerformActions oldest (m_epochActionManager E);
          pd = pc_Subtract (em_perfData E) PendingActionsCount n;
          pd = pc_Set pd LastPerformedActionsCount n;
          pd = pc_Set pd OldestEpochCounterInQueue oldest;
          pd = pc_Set pd LatestEpochCounterInQueue (m_currentEpochCounter E)
      in (run, E\<lparr>m_epochQueue := q, m_epochActionManager := M, em_perfData := pd\<rparr>))"

text \<open>One round of the processing thread.\<close>

definition processing_tick :: "'a EpochManager \<Rightarrow> 'a list \<times> 'a EpochManager" where
  "processing_tick E = (let (run, E) = EpochManager_Remove E in (run, EpochManager_Add E))"

section \<open>Invariant\<close>

text \<open>\<open>H\<close> are the epochs that reference policies hold.\<close>

definition manager_ok :: "'a EpochManager \<Rightarrow> u64 multiset \<Rightarrow> bool" where
  "manager_ok E H \<longleftrightarrow> queue_rep (m_epochQueue E) H \<and> m_backIndex (m_epochQueue E) = m_currentEpochCounter E \<and>
     actions_ok (m_epochActionManager E) \<and> (\<forall>(c, a)\<in>#pending (m_epochActionManager E). c \<le> m_currentEpochCounter E) \<and>
     em_perfData E PendingActionsCount = of_nat (size (pending (m_epochActionManager E)))"

lemma manager_ok_new:
  assumes "EpochManager_new hardware config pd = Inr E" "pd PendingActionsCount = 0"
  shows "manager_ok E {#}" and "pending (m_epochActionManager E) = {#}" and "m_currentEpochCounter E = 0"
proof -
  obtain q M where q: "EpochQueue_new 0 (m_epochQueueSize config) = Inr q"
    and M: "EpochActionManager_new hardware (m_numActionQueues config) = Inr M"
    and E: "E = \<lparr>m_currentEpochCounter = 0, m_epochQueue = q, m_epochActionManager = M, em_perfData = pd\<rparr>"
    using assms(1) by (auto simp: EpochManager_new_def bind_res_Inr_iff)
  have "actions_ok M \<and> pending M = {#}"
    by (rule EpochActionManager_new_actions_ok [OF M])
  then show "manager_ok E {#}" "pending (m_epochActionManager E) = {#}" "m_currentEpochCounter E = 0"
    using EpochQueue_new_rep [OF q] assms(2) by (simp_all add: manager_ok_def E)
qed

lemma RegisterAction_manager:
  assumes ok: "manager_ok E H" and run: "RegisterAction a E = (r, E')"
  shows "r = Inr () \<and> manager_ok E' H \<and> m_currentEpochCounter E' = m_currentEpochCounter E \<and>
    m_epochQueue E' = m_epochQueue E \<and>
    pending (m_epochActionManager E') = add_mset (m_currentEpochCounter E, a) (pending (m_epochActionManager E))"
proof -
  have "actions_ok (m_epochActionManager E)"
    using ok by (simp add: manager_ok_def)
  then obtain M' where M': "EpochActionManager_RegisterAction (m_currentEpochCounter E) a (m_epochActionManager E) = (Inr (), M')"
      "actions_ok M'" "pending M' = add_mset (m_currentEpochCounter E, a) (pending (m_epochActionManager E))"
    by (rule RegisterAction_ok)
  then have "E' = E\<lparr>m_epochActionManager := M', em_perfData := pc_Increment (em_perfData E) PendingActionsCount\<rparr>" "r = Inr ()"
    using run by (auto simp: RegisterAction_def)
  with M' ok show ?thesis
    by (simp add: manager_ok_def add.commute)
qed

lemma EpochManager_Add_ok:
  assumes ok: "manager_ok E H" and bound: "m_currentEpochCounter E < 2 ^ 64 - 1"
  shows "manager_ok (EpochManager_Add E) H \<and>
    m_currentEpochCounter (EpochManager_Add E) = m_currentEpochCounter E + 1 \<and>
    m_epochActionManager (EpochManager_Add E) = m_epochActionManager E"
proof -
  have "m_currentEpochCounter E \<le> m_currentEpochCounter E + 1"
    using unat_Suc [OF bound] by (simp add: word_le_nat_alt)
  then show ?thesis
    using ok AddNewEpoch_rep [of "m_epochQueue E" H] bound
    by (auto simp: manager_ok_def EpochManager_Add_def Let_def intro: order_trans)
qed

lemma of_nat_size_diff:
  fixes A B :: "'b multiset"
  shows "(of_nat (size (A + B)) :: u64) - of_nat (size A) = of_nat (size B)"
  by simp

lemma EpochManager_Remove_ok:
  assumes ok: "manager_ok E H" and run: "EpochManager_Remove E = (run, E')"
  obtains f where "manager_ok E' H" "m_currentEpochCounter E' = m_currentEpochCounter E"
    "m_frontIndex (m_epochQueue E') = f" "\<forall>e\<in>#H. f \<le> e" "H = {#} \<longrightarrow> f = m_currentEpochCounter E"
    "mset run = image_mset snd (filter_mset (\<lambda>(c, a). c < f) (pending (m_epochActionManager E)))"
    "pending (m_epochActionManager E') = filter_mset (\<lambda>(c, a). \<not> c < f) (pending (m_epochActionManager E))"
proof -
  obtain f q where q: "RemoveUnreferenceEpochCounters (m_epochQueue E) = (f, q)"
    by (cases "RemoveUnreferenceEpochCounters (m_epochQueue E)")
  obtain d n M where M: "PerformActions f (m_epochActionManager E) = (d, n, M)"
    by (cases "PerformActions f (m_epochActionManager E)")
  have rep: "queue_rep (m_epochQueue E) H" and acts: "actions_ok (m_epochActionManager E)"
    using ok by (simp_all add: manager_ok_def)
  note adv = eq.advance_rep [OF rep q] and perf = PerformActions_ok [OF acts M]
  have d: "run = d" and E': "m_epochQueue E' = q" "m_epochActionManager E' = M"
      "m_currentEpochCounter E' = m_currentEpochCounter E"
      "em_perfData E' PendingActionsCount = em_perfData E PendingActionsCount - n"
    using run by (auto simp: EpochManager_Remove_def q M Let_def)
  let ?P = "pending (m_epochActionManager E)"
  have split: "?P = filter_mset (\<lambda>(c, a). c < f) ?P + pending M"
    unfolding perf(2) using multiset_partition [of ?P "\<lambda>(c, a). c < f"] by (simp add: case_prod_unfold)
  have "length d = size (filter_mset (\<lambda>(c, a). c < f) ?P)"
    using perf(1) by (metis size_image_mset size_mset)
  then have "of_nat (size ?P) - n = of_nat (size (pending M))"
    using perf(4) of_nat_size_diff [of "filter_mset (\<lambda>(c, a). c < f) ?P" "pending M"] split by simp
  then have "manager_ok E' H"
    using ok adv perf(3) unfolding manager_ok_def E' by (auto simp: perf(2))
  moreover have "\<forall>e\<in>#H. f \<le> e"
    using eq.advance_stops [OF rep q] by blast
  moreover have "H = {#} \<longrightarrow> f = m_currentEpochCounter E"
    using adv ok by (simp add: manager_ok_def)
  ultimately show ?thesis
    using adv perf E' d by (intro that [of f]) simp_all
qed

section \<open>Properties of the manager\<close>

text \<open>\<open>Remove\<close> runs only actions of epochs that all held references are past: when it runs an
  action registered at epoch \<open>c\<close>, every reference still held was taken at a later epoch. It runs
  every pending action of an epoch below the new front, each once, and \<open>PendingActionsCount\<close> stays the
  number of pending actions.\<close>

theorem Remove_respects_references:
  assumes "manager_ok E H" "EpochManager_Remove E = (run, E')"
  shows "manager_ok E' H \<and>
    (\<exists>P. pending (m_epochActionManager E) = P + pending (m_epochActionManager E') \<and> mset run = image_mset snd P \<and>
      (\<forall>(c, a)\<in>#P. \<forall>e\<in>#H. c < e) \<and>
      (\<forall>(c, a)\<in>#pending (m_epochActionManager E'). m_frontIndex (m_epochQueue E') \<le> c))"
proof (rule EpochManager_Remove_ok [OF assms])
  fix f
  assume *: "manager_ok E' H" "m_frontIndex (m_epochQueue E') = f" "\<forall>e\<in>#H. f \<le> e"
    "mset run = image_mset snd (filter_mset (\<lambda>(c, a). c < f) (pending (m_epochActionManager E)))"
    "pending (m_epochActionManager E') = filter_mset (\<lambda>(c, a). \<not> c < f) (pending (m_epochActionManager E))"
  let ?P = "filter_mset (\<lambda>(c, a). c < f) (pending (m_epochActionManager E))"
  have "pending (m_epochActionManager E) = ?P + pending (m_epochActionManager E')"
    unfolding *(5) using multiset_partition [of "pending (m_epochActionManager E)" "\<lambda>(c, a). c < f"]
    by (simp add: case_prod_unfold)
  moreover have "\<forall>(c, a)\<in>#?P. \<forall>e\<in>#H. c < e"
    using *(3) by (auto intro: order.strict_trans2)
  moreover have "\<forall>(c, a)\<in>#pending (m_epochActionManager E'). m_frontIndex (m_epochQueue E') \<le> c"
    by (auto simp: *(2,5))
  ultimately show ?thesis
    using *(1,4) by blast
qed

definition demo_manager :: "string EpochManager" where
  "demo_manager = \<lparr>m_currentEpochCounter = 3, m_epochQueue = \<lparr>m_frontIndex = 1, m_backIndex = 3, m_refCounts = [0, 0, 1, 0]\<rparr>,
     m_epochActionManager = \<lparr>m_epochToActionsList = [[(1, [''a'']), (2, [''b''])]], m_counter = 2\<rparr>,
     em_perfData = (\<lambda>c. if c = PendingActionsCount then 2 else 0)\<rparr>"

lemma demo_manager_ok: "manager_ok demo_manager {#2#}"
  by (simp add: manager_ok_def demo_manager_def queue_rep_def slot_count_def all_less_list actions_ok_def
      sorted_epochs_def pending_def exI [of _ 0])

theorem Remove_respects_references_witness:
  "\<exists>E'. EpochManager_Remove demo_manager = ([''a''], E') \<and> manager_ok E' {#2#}"
proof -
  have "fst (EpochManager_Remove demo_manager) = [''a'']"
    by code_simp
  then obtain E' where run: "EpochManager_Remove demo_manager = ([''a''], E')"
    by (metis prod.collapse)
  show ?thesis
    using Remove_respects_references [OF demo_manager_ok run] run by blast
qed

text \<open>C28: when no references are held, two rounds of the processing thread run every action that was
  pending before them, each exactly once, and nothing else.\<close>

theorem two_ticks_run_everything:
  assumes "manager_ok E {#}" "m_currentEpochCounter E < 2 ^ 64 - 2"
    and "processing_tick E = (run1, E1)" "processing_tick E1 = (run2, E2)"
  shows "mset (run1 @ run2) = image_mset snd (pending (m_epochActionManager E)) \<and>
    pending (m_epochActionManager E2) = {#}"
proof -
  obtain E' where r1: "EpochManager_Remove E = (run1, E')" "E1 = EpochManager_Add E'"
    using assms(3) by (auto simp: processing_tick_def split: prod.splits)
  obtain E1' where r2: "EpochManager_Remove E1 = (run2, E1')" "E2 = EpochManager_Add E1'"
    using assms(4) by (auto simp: processing_tick_def split: prod.splits)
  let ?c = "m_currentEpochCounter E" and ?P = "pending (m_epochActionManager E)"
  have s: "unat (?c + 1) = Suc (unat ?c)"
    using assms(2) by (intro unat_Suc) (auto intro: order.strict_trans)
  have c1: "?c < 2 ^ 64 - 1"
    using assms(2) by (auto intro: order.strict_trans)
  from EpochManager_Remove_ok [OF assms(1) r1(1)]
  have E': "manager_ok E' {#}" "m_currentEpochCounter E' = ?c"
    "mset run1 = image_mset snd (filter_mset (\<lambda>(c, a). c < ?c) ?P)"
    "pending (m_epochActionManager E') = filter_mset (\<lambda>(c, a). \<not> c < ?c) ?P"
    by (metis)+
  have E1: "manager_ok E1 {#}" "m_currentEpochCounter E1 = ?c + 1"
    "pending (m_epochActionManager E1) = filter_mset (\<lambda>(c, a). \<not> c < ?c) ?P"
    using EpochManager_Add_ok [OF E'(1)] c1 E'(2,4) by (simp_all add: r1(2))
  from EpochManager_Remove_ok [OF E1(1) r2(1)]
  have E1': "m_epochActionManager E2 = m_epochActionManager E1'"
    "mset run2 = image_mset snd (filter_mset (\<lambda>(c, a). c < ?c + 1) (pending (m_epochActionManager E1)))"
    "pending (m_epochActionManager E1') = filter_mset (\<lambda>(c, a). \<not> c < ?c + 1) (pending (m_epochActionManager E1))"
    unfolding E1(2) by (simp_all add: r2(2) EpochManager_Add_def Let_def) metis+
  have all: "c < ?c + 1" if "(c, a) \<in># ?P" for c a
  proof -
    have "c \<le> ?c"
      using assms(1) that by (auto simp: manager_ok_def)
    then show ?thesis
      using s by (simp add: word_less_nat_alt word_le_nat_alt)
  qed
  have "filter_mset (\<lambda>(c, a). c < ?c + 1) (filter_mset (\<lambda>(c, a). \<not> c < ?c) ?P) = filter_mset (\<lambda>(c, a). \<not> c < ?c) ?P"
    "filter_mset (\<lambda>(c, a). \<not> c < ?c + 1) (filter_mset (\<lambda>(c, a). \<not> c < ?c) ?P) = {#}"
    using all by (auto simp: filter_filter_mset filter_mset_False [symmetric] simp del: filter_mset_False intro!: filter_mset_cong)
  moreover have "?P = filter_mset (\<lambda>(c, a). c < ?c) ?P + filter_mset (\<lambda>(c, a). \<not> c < ?c) ?P"
    using multiset_partition [of ?P "\<lambda>(c, a). c < ?c"] by (simp add: case_prod_unfold)
  ultimately show ?thesis
    using E'(3) E1' E1(3) by (metis image_mset_union mset_append)
qed

lemma demo_idle_ok:
  "manager_ok (demo_manager\<lparr>m_epochQueue := \<lparr>m_frontIndex = 1, m_backIndex = 3, m_refCounts = [0, 0, 0, 0]\<rparr>\<rparr>) {#}"
  by (simp add: manager_ok_def demo_manager_def queue_rep_def slot_count_def all_less_list actions_ok_def
      sorted_epochs_def pending_def exI [of _ 0])

theorem two_ticks_run_everything_witness:
  "\<exists>run1 E1 run2 E2. processing_tick (demo_manager\<lparr>m_epochQueue :=
      \<lparr>m_frontIndex = 1, m_backIndex = 3, m_refCounts = [0, 0, 0, 0]\<rparr>\<rparr>) = (run1, E1) \<and>
    processing_tick E1 = (run2, E2) \<and> mset (run1 @ run2) = {#''a'', ''b''#} \<and>
    pending (m_epochActionManager E2) = {#}"
proof -
  let ?E = "demo_manager\<lparr>m_epochQueue := \<lparr>m_frontIndex = 1, m_backIndex = 3, m_refCounts = [0, 0, 0, 0]\<rparr>\<rparr>"
  obtain run1 E1 where r1: "processing_tick ?E = (run1, E1)"
    by (cases "processing_tick ?E")
  obtain run2 E2 where r2: "processing_tick E1 = (run2, E2)"
    by (cases "processing_tick E1")
  have "m_currentEpochCounter ?E < 2 ^ 64 - 2"
    by (simp add: demo_manager_def)
  from two_ticks_run_everything [OF demo_idle_ok this r1 r2] r1 r2 show ?thesis
    by (auto simp: demo_manager_def pending_def)
qed

section \<open>A table on the manager\<close>

text \<open>The actions of a table's manager are the deallocations of record buffers.\<close>

definition queued_buffers :: "addr EpochManager \<Rightarrow> addr multiset" where
  "queued_buffers E = image_mset snd (pending (m_epochActionManager E))"

interpretation em: action_registry "\<lambda>E. manager_ok E H" queued_buffers RegisterAction
proof unfold_locales
  fix E E' :: "addr EpochManager" and a r
  assume "manager_ok E H" "RegisterAction a E = (r, E')"
  then show "r = Inr () \<and> manager_ok E' H \<and> queued_buffers E' = add_mset a (queued_buffers E)"
    using RegisterAction_manager by (fastforce simp: queued_buffers_def)
qed

text \<open>
  A table, its manager and the contexts that are open. A context holds an epoch reference; the
  processing thread runs the deallocations.
\<close>

record sys =
  world :: "addr EpochManager World"
  held :: "EpochRefPolicy list"

datatype sys_op = Call kv_op | Tick | Open | Close nat

definition set_queue :: "EpochQueue \<Rightarrow> addr EpochManager World \<Rightarrow> addr EpochManager World" where
  "set_queue q W = W\<lparr>manager := (manager W)\<lparr>m_epochQueue := q\<rparr>\<rparr>"

fun sys_step :: "RecordSerializer \<Rightarrow> allocator \<Rightarrow> sys_op \<Rightarrow> sys \<Rightarrow> sys res" where
  "sys_step rs alloc (Call (Put k v)) S =
     (let (r, W) = Add rs alloc RegisterAction (world S) k v
      in bind_res r (\<lambda>_. Inr (S\<lparr>world := W\<rparr>)))"
| "sys_step rs alloc (Call (Del k)) S =
     (let (r, W) = Remove rs RegisterAction (world S) k
      in bind_res r (\<lambda>_. Inr (S\<lparr>world := W\<rparr>)))"
| "sys_step rs alloc Tick S =
     (let (run, E) = processing_tick (manager (world S))
      in bind_res (run_releases run (heap (world S)))
           (\<lambda>h. Inr (S\<lparr>world := (world S)\<lparr>heap := h, manager := E\<rparr>\<rparr>)))"
| "sys_step rs alloc Open S =
     (let (p, q) = EpochRefPolicy_new (m_epochQueue (manager (world S)))
      in Inr (S\<lparr>world := set_queue q (world S), held := p # held S\<rparr>))"
| "sys_step rs alloc (Close i) S =
     (if i < length (held S)
      then let (r, q) = EpochRefPolicy_destroy (held S ! i) (m_epochQueue (manager (world S)))
           in bind_res r (\<lambda>_. Inr (S\<lparr>world := set_queue q (world S), held := take i (held S) @ drop (Suc i) (held S)\<rparr>))
      else Inr S)"

fun sys_run :: "RecordSerializer \<Rightarrow> allocator \<Rightarrow> sys_op list \<Rightarrow> sys \<Rightarrow> sys res" where
  "sys_run rs alloc [] S = Inr S"
| "sys_run rs alloc (p # ps) S = bind_res (sys_step rs alloc p S) (sys_run rs alloc ps)"

fun calls :: "sys_op list \<Rightarrow> kv_op list" where
  "calls [] = []"
| "calls (Call c # ps) = c # calls ps"
| "calls (_ # ps) = calls ps"

text \<open>The invariant after at most \<open>n\<close> steps.\<close>

definition sys_ok :: "RecordSerializer \<Rightarrow> nat \<Rightarrow> sys \<Rightarrow> bool" where
  "sys_ok rs n S \<longleftrightarrow> table_ok rs (world S) \<and>
     accounted (\<lambda>E. manager_ok E (mset (held S))) queued_buffers (world S) \<and>
     length (held S) \<le> n \<and> unat (m_currentEpochCounter (manager (world S))) \<le> n"

lemma manager_ok_queue:
  assumes "manager_ok E H" "queue_rep q H'" "m_backIndex q = m_backIndex (m_epochQueue E)"
  shows "manager_ok (E\<lparr>m_epochQueue := q\<rparr>) H'"
  using assms by (simp add: manager_ok_def)

lemma set_queue_ok:
  assumes "sys_ok rs n S" "manager_ok ((manager (world S))\<lparr>m_epochQueue := q\<rparr>) (mset hs)" "length hs \<le> m" "n \<le> m"
  shows "sys_ok rs m (S\<lparr>world := set_queue q (world S), held := hs\<rparr>) \<and>
    table_map rs (set_queue q (world S)) = table_map rs (world S)"
proof -
  have "table_ok rs (set_queue q (world S)) \<and> table_map rs (set_queue q (world S)) = table_map rs (world S)"
    using assms(1) by (intro table_ok_heap) (auto simp: sys_ok_def set_queue_def table_ok_def)
  then show ?thesis
    using assms by (simp add: sys_ok_def accounted_def set_queue_def queued_buffers_def)
qed

lemma context_open:
  assumes ok: "manager_ok E H" and small: "size H < 2 ^ 32 - 1" and new: "EpochRefPolicy_new (m_epochQueue E) = (p, q)"
  shows "manager_ok (E\<lparr>m_epochQueue := q\<rparr>) (add_mset p H)"
proof -
  have "queue_rep (m_epochQueue E) H"
    using ok by (simp add: manager_ok_def)
  note add = eq.add_ref_rep [OF this small new [unfolded EpochRefPolicy_new_def]]
  then show ?thesis
    by (intro manager_ok_queue [OF ok]) auto
qed

lemma context_close:
  assumes ok: "manager_ok E H" and p: "p \<in># H" and cur: "unat (m_currentEpochCounter E) < 2 ^ 32"
    and destroy: "EpochRefPolicy_destroy p (m_epochQueue E) = (r, q)"
  shows "r = Inr () \<and> manager_ok (E\<lparr>m_epochQueue := q\<rparr>) (H - {#p#})"
proof -
  have rep: "queue_rep (m_epochQueue E) H" and top: "m_backIndex (m_epochQueue E) = m_currentEpochCounter E"
    using ok by (simp_all add: manager_ok_def)
  have "p \<le> m_currentEpochCounter E"
    using queue_range [OF rep] p by (simp add: top)
  then have "unat p < 2 ^ 32"
    using cur by (simp add: word_le_nat_alt)
  then have "p \<noteq> const_max"
    by (auto simp: const_max_def)
  then have "RemoveRef (m_epochQueue E) p = (r, q)"
    using destroy by (simp add: EpochRefPolicy_destroy_def)
  note res = eq.remove_ref_rep [OF rep p this]
  then show ?thesis
    by (intro conjI manager_ok_queue [OF ok]) auto
qed

lemma processing_tick_ok:
  assumes ok: "manager_ok E H" and small: "m_currentEpochCounter E < 2 ^ 64 - 1" and tick: "processing_tick E = (run, E')"
  shows "manager_ok E' H" "queued_buffers E = mset run + queued_buffers E'"
    "unat (m_currentEpochCounter E') \<le> Suc (unat (m_currentEpochCounter E))"
proof -
  obtain E1 where run: "EpochManager_Remove E = (run, E1)" "E' = EpochManager_Add E1"
    using tick by (cases "EpochManager_Remove E") (simp add: processing_tick_def)
  from EpochManager_Remove_ok [OF ok run(1)] obtain f where f: "manager_ok E1 H"
      "m_currentEpochCounter E1 = m_currentEpochCounter E"
      "mset run = image_mset snd (filter_mset (\<lambda>(c, a). c < f) (pending (m_epochActionManager E)))"
      "pending (m_epochActionManager E1) = filter_mset (\<lambda>(c, a). \<not> c < f) (pending (m_epochActionManager E))"
    by metis
  have bound: "m_currentEpochCounter E1 < 2 ^ 64 - 1"
    using small by (simp add: f(2))
  note add = EpochManager_Add_ok [OF f(1) bound]
  then show "manager_ok E' H"
    by (simp add: run(2))
  have "queued_buffers E = mset run + queued_buffers E1"
    unfolding queued_buffers_def f(3,4) image_mset_union [symmetric]
    using multiset_partition [of "pending (m_epochActionManager E)" "\<lambda>(c, a). c < f"]
    by (simp add: case_prod_unfold)
  then show "queued_buffers E = mset run + queued_buffers E'"
    using add by (simp add: run(2) queued_buffers_def)
  show "unat (m_currentEpochCounter E') \<le> Suc (unat (m_currentEpochCounter E))"
    using add unat_Suc [OF bound] f(2) by (simp add: run(2))
qed

lemma sys_step_tick:
  assumes ok: "sys_ok rs n S" and n: "n < 2 ^ 32 - 1"
  shows "\<exists>S'. sys_step rs alloc Tick S = Inr S' \<and> sys_ok rs (Suc n) S' \<and>
    table_map rs (world S') = table_map rs (world S)"
proof -
  let ?W = "world S"
  have man: "manager_ok (manager ?W) (mset (held S))" and tab: "table_ok rs ?W"
    and mem: "mset_set (dom (heap ?W)) = mset (table_addrs (table ?W)) + queued_buffers (manager ?W)"
    and bound: "m_currentEpochCounter (manager ?W) < 2 ^ 64 - 1"
    using ok n by (simp_all add: sys_ok_def accounted_def word_less_nat_alt)
  obtain run E where run: "processing_tick (manager ?W) = (run, E)"
    by (cases "processing_tick (manager ?W)")
  note tick = processing_tick_ok [OF man bound run]
  note rel = release_queued [OF tab mem tick(2)]
  let ?W' = "?W\<lparr>heap := heap ?W |` (- set run), manager := E\<rparr>"
  have "sys_step rs alloc Tick S = Inr (S\<lparr>world := ?W'\<rparr>)"
    by (simp add: run rel(1))
  moreover have tab': "table_ok rs ?W' \<and> table_map rs ?W' = table_map rs ?W"
    by (rule rel(3)) simp_all
  moreover have "sys_ok rs (Suc n) (S\<lparr>world := ?W'\<rparr>)"
    using ok tick(1,3) tab' rel(2) by (simp add: sys_ok_def accounted_def)
  ultimately show ?thesis
    by auto
qed

lemma sys_step_call:
  assumes ok: "sys_ok rs n S" and acc: "accepted (addable rs alloc) [c]"
  shows "\<exists>S'. sys_step rs alloc (Call c) S = Inr S' \<and> sys_ok rs (Suc n) S' \<and>
    table_map rs (world S') = apply_op c (table_map rs (world S))"
proof -
  have tab: "table_ok rs (world S)"
    and a: "accounted (\<lambda>E. manager_ok E (mset (held S))) queued_buffers (world S)"
    using ok by (simp_all add: sys_ok_def)
  show ?thesis
  proof (cases c)
    case (Put k v)
    then have kv: "addable rs alloc k v"
      using acc by simp
    let ?W' = "put_record rs alloc RegisterAction (world S) k v"
    have cur: "m_currentEpochCounter (manager ?W') = m_currentEpochCounter (manager (world S))"
    proof (cases rule: Add_cases [OF tab kv, of RegisterAction])
      case (1 res a old stat W')
      have m: "(res, manager W') = (case old of None \<Rightarrow> (Inr (), manager (world S))
          | Some a0 \<Rightarrow> RegisterAction a0 (manager (world S)))"
        using 1(4) unfolding effect_def by blast
      have "m_currentEpochCounter (manager W') = m_currentEpochCounter (manager (world S))"
      proof (cases old)
        case (Some a0)
        then have "RegisterAction a0 (manager (world S)) = (res, manager W')"
          using m by simp
        moreover have "manager_ok (manager (world S)) (mset (held S))"
          using a by (simp add: accounted_def)
        ultimately show ?thesis
          using RegisterAction_manager by metis
      qed (use m in simp)
      then show ?thesis
        by (simp add: put_record_def 1(1))
    qed
    have "sys_step rs alloc (Call c) S = Inr (S\<lparr>world := ?W'\<rparr>)"
      using em.Add_accounted [OF tab kv a] Put by (simp add: put_record_def split_beta)
    moreover have "sys_ok rs (Suc n) (S\<lparr>world := ?W'\<rparr>)"
      using em.Add_accounted [OF tab kv a] rw.put_inv [OF tab kv] ok cur by (simp add: sys_ok_def)
    ultimately show ?thesis
      using rw.put_abs [OF tab kv] Put by (simp add: apply_op_def)
  next
    case (Del k)
    let ?W' = "del_record rs RegisterAction (world S) k"
    have cur: "m_currentEpochCounter (manager ?W') = m_currentEpochCounter (manager (world S))"
    proof (cases rule: Remove_cases [OF tab, of k RegisterAction])
      case (2 v b W')
      then have "manager W' = snd (RegisterAction b (manager (world S)))"
        by (auto simp: effect_def prod_eq_iff)
      then show ?thesis
        using a 2(2) RegisterAction_manager [of "manager (world S)" "mset (held S)" b]
        by (cases "RegisterAction b (manager (world S))") (simp add: del_record_def accounted_def)
    qed (simp add: del_record_def)
    have "sys_step rs alloc (Call c) S = Inr (S\<lparr>world := ?W'\<rparr>)"
      using em.Remove_accounted [OF tab a, of k] Del by (simp add: del_record_def split_beta)
    moreover have "sys_ok rs (Suc n) (S\<lparr>world := ?W'\<rparr>)"
      using em.Remove_accounted [OF tab a, of k] rw.del_inv [OF tab] ok cur by (simp add: sys_ok_def)
    ultimately show ?thesis
      using rw.del_abs [OF tab] Del by (simp add: apply_op_def)
  qed
qed

lemma sys_step_open:
  assumes ok: "sys_ok rs n S" and n: "n < 2 ^ 32 - 1"
  shows "\<exists>S'. sys_step rs alloc Open S = Inr S' \<and> sys_ok rs (Suc n) S' \<and>
    table_map rs (world S') = table_map rs (world S)"
proof -
  obtain p q where new: "EpochRefPolicy_new (m_epochQueue (manager (world S))) = (p, q)"
    by (cases "EpochRefPolicy_new (m_epochQueue (manager (world S)))")
  have "manager_ok (manager (world S)) (mset (held S))" "size (mset (held S)) < 2 ^ 32 - 1"
    using ok n by (simp_all add: sys_ok_def accounted_def)
  from context_open [OF this new]
  have "sys_ok rs (Suc n) (S\<lparr>world := set_queue q (world S), held := p # held S\<rparr>) \<and>
      table_map rs (set_queue q (world S)) = table_map rs (world S)"
    using ok by (intro set_queue_ok [OF ok]) (auto simp: sys_ok_def)
  then show ?thesis
    by (simp add: new)
qed

lemma mset_drop_nth: "i < length xs \<Longrightarrow> mset (take i xs @ drop (Suc i) xs) = mset xs - {#xs ! i#}"
  using id_take_nth_drop [of i xs] by (metis add_mset_remove_trivial mset.simps(2) mset_append union_mset_add_mset_right)

lemma sys_step_close:
  assumes ok: "sys_ok rs n S" and n: "n < 2 ^ 32 - 1"
  shows "\<exists>S'. sys_step rs alloc (Close i) S = Inr S' \<and> sys_ok rs (Suc n) S' \<and>
    table_map rs (world S') = table_map rs (world S)"
proof (cases "i < length (held S)")
  case True
  let ?rest = "take i (held S) @ drop (Suc i) (held S)"
  obtain r q where destroy: "EpochRefPolicy_destroy (held S ! i) (m_epochQueue (manager (world S))) = (r, q)"
    by (cases "EpochRefPolicy_destroy (held S ! i) (m_epochQueue (manager (world S)))")
  have "manager_ok (manager (world S)) (mset (held S))" "held S ! i \<in># mset (held S)"
    "unat (m_currentEpochCounter (manager (world S))) < 2 ^ 32"
    using ok n True by (simp_all add: sys_ok_def accounted_def)
  note res = context_close [OF this destroy]
  have "sys_ok rs (Suc n) (S\<lparr>world := set_queue q (world S), held := ?rest\<rparr>) \<and>
      table_map rs (set_queue q (world S)) = table_map rs (world S)"
    using res ok mset_drop_nth [OF True] by (intro set_queue_ok [OF ok]) (auto simp: sys_ok_def simp del: mset_append)
  moreover have "sys_step rs alloc (Close i) S = Inr (S\<lparr>world := set_queue q (world S), held := ?rest\<rparr>)"
    using True destroy res by simp
  ultimately show ?thesis
    by simp
next
  case False
  then show ?thesis
    using ok by (auto simp: sys_ok_def)
qed

lemma sys_run_ok:
  assumes "sys_ok rs n S" "accepted (addable rs alloc) (calls ops)" "n + length ops < 2 ^ 32"
  shows "\<exists>S'. sys_run rs alloc ops S = Inr S' \<and> sys_ok rs (n + length ops) S' \<and>
    table_map rs (world S') = last_write (calls ops) (table_map rs (world S))"
  using assms
proof (induction ops arbitrary: n S)
  case Nil
  then show ?case by simp
next
  case (Cons p ops)
  have n: "n < 2 ^ 32 - 1"
    using Cons.prems(3) by simp
  have "\<exists>S1. sys_step rs alloc p S = Inr S1 \<and> sys_ok rs (Suc n) S1 \<and>
      table_map rs (world S1) = last_write (calls [p]) (table_map rs (world S))"
  proof (cases p)
    case (Call c)
    then have "accepted (addable rs alloc) [c]"
      using Cons.prems(2) by (simp add: accepted_def)
    with sys_step_call [OF Cons.prems(1)] Call show ?thesis
      by simp
  qed (use sys_step_tick [OF Cons.prems(1) n] sys_step_open [OF Cons.prems(1) n]
      sys_step_close [OF Cons.prems(1) n] in simp_all)
  then obtain S1 where S1: "sys_step rs alloc p S = Inr S1" "sys_ok rs (Suc n) S1"
      "table_map rs (world S1) = last_write (calls [p]) (table_map rs (world S))"
    by blast
  have "calls (p # ops) = calls [p] @ calls ops"
    by (cases p) simp_all
  moreover have "accepted (addable rs alloc) (calls ops)"
    using Cons.prems(2) by (cases p) (auto simp: accepted_def)
  ultimately show ?case
    using Cons.IH [OF S1(2)] Cons.prems(3) S1 by (auto simp: last_write_append)
qed

text \<open>C3: a table whose manager is the epoch manager, used by any sequence of table calls, rounds of the
  processing thread, and contexts opened and closed (fewer than \<open>2 ^ 32\<close> in all): no call fails or
  touches memory it should not; \<open>Get\<close> agrees with the sequence of \<open>Add\<close> and \<open>Remove\<close> calls, whatever
  the processing thread did in between; and at every moment the allocated buffers are exactly those
  of the table and those queued for deallocation: nothing leaks and nothing is freed twice.\<close>

theorem system_correct:
  assumes "0 < m_numBuckets s" "EpochManager_new hardware config PerfCounters_init = Inr E"
    and "accepted (addable rs alloc) (calls ops)" "length ops < 2 ^ 32"
  shows "\<exists>S'. sys_run rs alloc ops \<lparr>world = \<lparr>heap = Map.empty, table = SharedHashTable_new sm st s, manager = E\<rparr>,
        held = []\<rparr> = Inr S' \<and>
    (\<forall>key. Get rs (world S') key = Inr (last_write (calls ops) Map.empty key)) \<and>
    mset_set (dom (heap (world S'))) = mset (table_addrs (table (world S'))) + queued_buffers (manager (world S'))"
proof -
  let ?W = "\<lparr>heap = Map.empty, table = SharedHashTable_new sm st s, manager = E\<rparr>"
  have tab: "table_ok rs ?W" "table_map rs ?W = Map.empty"
    by (rule table_ok_new [OF assms(1)]; simp)+
  note man = manager_ok_new [OF assms(2)]
  have "sys_ok rs 0 \<lparr>world = ?W, held = []\<rparr>"
    using tab(1) man by (simp add: sys_ok_def accounted_def queued_buffers_def PerfCounters_init_def)
  from sys_run_ok [OF this assms(3)] assms(4) obtain S' where
    S': "sys_run rs alloc ops \<lparr>world = ?W, held = []\<rparr> = Inr S'" "sys_ok rs (length ops) S'"
      "table_map rs (world S') = last_write (calls ops) (table_map rs ?W)"
    by auto
  have "Get rs (world S') key = Inr (last_write (calls ops) Map.empty key)" for key
    using S'(2) rw.get_abs [of rs "world S'" key] by (simp only: sys_ok_def S'(3) tab(2) sys.select_convs)
  with S'(1,2) show ?thesis
    by (auto simp: sys_ok_def accounted_def)
qed

theorem system_correct_witness:
  "\<exists>E S'. EpochManager_new 8 default_EpochManagerConfig PerfCounters_init = Inr E \<and>
    sys_run demo_rs first_fit [Open, Call (Put [1] [2]), Call (Put [1] [3]), Tick, Tick, Close 0, Tick]
      \<lparr>world = \<lparr>heap = Map.empty, table = SharedHashTable_new 80 248 \<lparr>m_numBuckets = 2, m_numBucketsPerMutex = 1,
        s_fixedKeySize = 0, s_fixedValueSize = 0\<rparr>, manager = E\<rparr>, held = []\<rparr> = Inr S' \<and>
    Get demo_rs (world S') [1] = Inr (Some [3])"
proof -
  let ?E = "\<lparr>m_currentEpochCounter = 0, m_epochQueue = \<lparr>m_frontIndex = 0, m_backIndex = 0, m_refCounts = replicate 1000 0\<rparr>,
    m_epochActionManager = \<lparr>m_epochToActionsList = [[]], m_counter = 0\<rparr>, em_perfData = PerfCounters_init\<rparr>"
  have new: "EpochManager_new 8 default_EpochManagerConfig PerfCounters_init = Inr ?E"
    by (simp add: EpochManager_new_def default_EpochManagerConfig_def EpochQueue_new_def EpochActionManager_new_def
        NextHighestPowerOfTwo_def IsPowerOfTwo_def)
  show ?thesis
    using system_correct [of "\<lparr>m_numBuckets = 2, m_numBucketsPerMutex = 1, s_fixedKeySize = 0, s_fixedValueSize = 0\<rparr>",
        OF _ new, of demo_rs first_fit "[Open, Call (Put [1] [2]), Call (Put [1] [3]), Tick, Tick, Close 0, Tick]" 80 248] new
    by (auto simp: addable_demo valid_key_def valid_value_def apply_op_def simp del: sys_run.simps)
qed

end
