(* ===== verification/L4_EpochSafety.thy ===== *)
theory L4_EpochSafety
  imports L4_EpochManager
begin

text \<open>
  The concurrency of \<open>inc/L4/LocalMemory/EpochManager.h\<close> with the lock-free readers of the table:
  readers hold an epoch reference and load record pointers without locks, writers unlink a record,
  read the epoch counter and register the deallocation in separate steps, and the processing thread
  advances the front, drains the queues of actions, runs the actions and starts the next epoch.
  The steps of all threads interleave freely. The theorem is that no buffer is deallocated while a
  reader that can have a pointer to it still holds its reference.
\<close>

section \<open>State and steps\<close>

text \<open>
  Where the processing thread is: in the loop of \<open>RemoveUnreferenceEpochCounters\<close>, in the loop of
  \<open>PerformActions\<close> over the queues (with its argument, the index of the next queue, and the actions
  taken so far), running the actions taken, or between the two increments of \<open>Add\<close>.
\<close>

datatype proc = Advancing | Draining u64 nat "addr list" | Running "addr list" | Publishing

text \<open>
  \<open>is_heap\<close> are the allocated buffers, \<open>is_linked\<close> those that the table points to. A writer that has
  unlinked a buffer has it in \<open>is_unlinked\<close>, then, having read the epoch counter for it, in
  \<open>is_stamped\<close>, and then registers it. A reader is its epoch and the pointers it has loaded.
\<close>

record istate =
  is_queue :: EpochQueue
  is_current :: u64
  is_actions :: "addr EpochActionManager"
  is_heap :: "addr list"
  is_linked :: "addr list"
  is_unlinked :: "addr list"
  is_stamped :: "(u64 \<times> addr) list"
  is_readers :: "(u64 \<times> addr list) list"
  is_proc :: proc

inductive istep :: "istate \<Rightarrow> istate \<Rightarrow> bool" where
  open_ref: "AddRef (is_queue s) = (e, q) \<Longrightarrow>
    istep s (s\<lparr>is_queue := q, is_readers := (e, []) # is_readers s\<rparr>)"
| load: "is_readers s = xs @ (e, ps) # ys \<Longrightarrow> a \<in> set (is_linked s) \<Longrightarrow>
    istep s (s\<lparr>is_readers := xs @ (e, a # ps) # ys\<rparr>)"
| close_ref: "is_readers s = xs @ (e, ps) # ys \<Longrightarrow> RemoveRef (is_queue s) e = (r, q) \<Longrightarrow>
    istep s (s\<lparr>is_queue := q, is_readers := xs @ ys\<rparr>)"
| link_new: "a \<notin> set (is_heap s) \<Longrightarrow>
    istep s (s\<lparr>is_heap := a # is_heap s, is_linked := a # is_linked s\<rparr>)"
| replace_old: "a \<notin> set (is_heap s) \<Longrightarrow> is_linked s = xs @ b # ys \<Longrightarrow>
    istep s (s\<lparr>is_heap := a # is_heap s, is_linked := xs @ a # ys, is_unlinked := b # is_unlinked s\<rparr>)"
| unlink: "is_linked s = xs @ b # ys \<Longrightarrow>
    istep s (s\<lparr>is_linked := xs @ ys, is_unlinked := b # is_unlinked s\<rparr>)"
| stamp: "is_unlinked s = xs @ b # ys \<Longrightarrow>
    istep s (s\<lparr>is_unlinked := xs @ ys, is_stamped := (is_current s, b) # is_stamped s\<rparr>)"
| register: "is_stamped s = xs @ (c, b) # ys \<Longrightarrow>
    EpochActionManager_RegisterAction c b (is_actions s) = (r, M) \<Longrightarrow>
    istep s (s\<lparr>is_stamped := xs @ ys, is_actions := M\<rparr>)"
| advance: "is_proc s = Advancing \<Longrightarrow> m_frontIndex (is_queue s) < m_backIndex (is_queue s) \<Longrightarrow>
    m_refCounts (is_queue s) ! ring_index (is_queue s) (m_frontIndex (is_queue s)) = 0 \<Longrightarrow>
    istep s (s\<lparr>is_queue := (is_queue s)\<lparr>m_frontIndex := m_frontIndex (is_queue s) + 1\<rparr>\<rparr>)"
| advance_end: "is_proc s = Advancing \<Longrightarrow>
    \<not> m_frontIndex (is_queue s) < m_backIndex (is_queue s) \<or>
      m_refCounts (is_queue s) ! ring_index (is_queue s) (m_frontIndex (is_queue s)) \<noteq> 0 \<Longrightarrow>
    istep s (s\<lparr>is_proc := Draining (m_frontIndex (is_queue s)) 0 []\<rparr>)"
| drain_queue: "is_proc s = Draining e i acc \<Longrightarrow> i < length (m_epochToActionsList (is_actions s)) \<Longrightarrow>
    drain e (m_epochToActionsList (is_actions s) ! i) acc = (acc', m) \<Longrightarrow>
    istep s (s\<lparr>is_proc := Draining e (Suc i) acc', is_actions := (is_actions s)
      \<lparr>m_epochToActionsList := (m_epochToActionsList (is_actions s))[i := m]\<rparr>\<rparr>)"
| drain_end: "is_proc s = Draining e i acc \<Longrightarrow> \<not> i < length (m_epochToActionsList (is_actions s)) \<Longrightarrow>
    istep s (s\<lparr>is_proc := Running acc\<rparr>)"
| free_buffer: "is_proc s = Running (a # as) \<Longrightarrow>
    istep s (s\<lparr>is_proc := Running as, is_heap := remove1 a (is_heap s)\<rparr>)"
| count_epoch: "is_proc s = Running [] \<Longrightarrow>
    istep s (s\<lparr>is_current := is_current s + 1, is_proc := Publishing\<rparr>)"
| publish_epoch: "is_proc s = Publishing \<Longrightarrow>
    istep s (s\<lparr>is_queue := AddNewEpoch (is_queue s), is_proc := Advancing\<rparr>)"

text \<open>The start: an epoch manager as constructed, and an empty table.\<close>

definition istart :: "addr EpochManager \<Rightarrow> istate" where
  "istart E = \<lparr>is_queue = m_epochQueue E, is_current = m_currentEpochCounter E,
     is_actions = m_epochActionManager E, is_heap = [], is_linked = [], is_unlinked = [],
     is_stamped = [], is_readers = [], is_proc = Advancing\<rparr>"

text \<open>The states that are reached in \<open>n\<close> steps of the threads.\<close>

inductive reach :: "addr EpochManager \<Rightarrow> nat \<Rightarrow> istate \<Rightarrow> bool" for E where
  reach_start: "reach E 0 (istart E)"
| reach_step: "reach E n s \<Longrightarrow> istep s s' \<Longrightarrow> reach E (Suc n) s'"

inductive_cases reach_SucE: "reach E (Suc n) s"
inductive_cases reach_0E: "reach E 0 s"

section \<open>Invariant\<close>

fun taken :: "proc \<Rightarrow> addr list" where
  "taken (Draining e i acc) = acc"
| "taken (Running as) = as"
| "taken Advancing = []"
| "taken Publishing = []"

text \<open>Every allocated buffer is in one place.\<close>

definition places :: "istate \<Rightarrow> addr multiset" where
  "places s = mset (is_linked s) + mset (is_unlinked s) + mset (map snd (is_stamped s)) +
     image_mset snd (pending (is_actions s)) + mset (taken (is_proc s))"

text \<open>
  A buffer that a reader of epoch \<open>e\<close> has a pointer to has not been taken by the processing thread:
  it is in the table, or on the way to the queues with a stamp that is not below \<open>e\<close>.
\<close>

definition protected :: "istate \<Rightarrow> u64 \<Rightarrow> addr \<Rightarrow> bool" where
  "protected s e a \<longleftrightarrow> a \<in> set (is_linked s) \<or> a \<in> set (is_unlinked s) \<or>
     (\<exists>c. (c, a) \<in> set (is_stamped s) \<and> e \<le> c) \<or> (\<exists>c. (c, a) \<in># pending (is_actions s) \<and> e \<le> c)"

definition epochs_ok :: "nat \<Rightarrow> istate \<Rightarrow> bool" where
  "epochs_ok n s \<longleftrightarrow> queue_rep (is_queue s) (mset (map fst (is_readers s))) \<and>
     length (is_readers s) \<le> n \<and> unat (is_current s) \<le> n \<and>
     (case is_proc s of Publishing \<Rightarrow> m_backIndex (is_queue s) + 1 = is_current s \<and> m_backIndex (is_queue s) < is_current s
      | _ \<Rightarrow> m_backIndex (is_queue s) = is_current s) \<and>
     (case is_proc s of Draining e i acc \<Rightarrow> e \<le> m_frontIndex (is_queue s) | _ \<Rightarrow> True)"

definition memory_ok :: "istate \<Rightarrow> bool" where
  "memory_ok s \<longleftrightarrow> actions_ok (is_actions s) \<and> distinct (is_heap s) \<and> mset (is_heap s) = places s"

definition readers_ok :: "istate \<Rightarrow> bool" where
  "readers_ok s \<longleftrightarrow> (\<forall>(e, ps)\<in>set (is_readers s). \<forall>a\<in>set ps. protected s e a)"

lemmas inv_defs = epochs_ok_def memory_ok_def readers_ok_def

lemma epochs_back: "epochs_ok n s \<Longrightarrow> m_backIndex (is_queue s) \<le> is_current s"
  by (auto simp: epochs_ok_def split: proc.splits)

text \<open>Taking the actions of one queue.\<close>

lemma mset_cancel: "A' + Q = A + B \<Longrightarrow> Q = P + B \<Longrightarrow> A = P + (A' :: 'b multiset)"
proof -
  assume "A' + Q = A + B" "Q = P + B"
  then have "(P + A') + B = A + B"
    by (simp add: ac_simps)
  then show ?thesis
    by simp
qed

lemma drain_one_queue:
  assumes ok: "actions_ok M" and i: "i < length (m_epochToActionsList M)"
    and run: "drain e (m_epochToActionsList M ! i) acc = (acc', m)"
  defines "M' \<equiv> M\<lparr>m_epochToActionsList := (m_epochToActionsList M)[i := m]\<rparr>"
  obtains P where "actions_ok M'" "pending M = P + pending M'" "mset acc' = mset acc + image_mset snd P"
    "\<And>c a. (c, a) \<in># P \<Longrightarrow> c < e"
proof -
  let ?ms = "m_epochToActionsList M"
  have sorted: "sorted_epochs (?ms ! i)"
    using ok i by (simp add: actions_ok_def)
  note res = drain_result [OF sorted, of e acc, unfolded run fst_conv snd_conv]
  let ?P = "filter_mset (\<lambda>(c, a). c < e) (mset (queue_items (?ms ! i)))"
  have "\<forall>x\<in>set (?ms[i := m]). sorted_epochs x"
    using ok res set_update_subset_insert [of ?ms i m] unfolding actions_ok_def by blast
  then have ok': "actions_ok M'"
    using ok by (simp add: actions_ok_def M'_def)
  have "mset (queue_items (?ms ! i)) = ?P + mset (queue_items m)"
    using multiset_partition [of "mset (queue_items (?ms ! i))" "\<lambda>(c, a). c < e"] res
    by (simp add: case_prod_unfold mset_filter)
  from mset_cancel [OF all_items_upd [OF i, of m] this] have "pending M = ?P + pending M'"
    by (simp add: pending_def M'_def)
  moreover have "mset acc' = mset acc + image_mset snd ?P"
    using res by simp
  ultimately show ?thesis
    using that [OF ok'] by auto
qed

section \<open>Each step keeps the invariant\<close>

lemma epochs_step:
  assumes "istep s s'" "epochs_ok n s" "n < 2 ^ 32 - 1"
  shows "epochs_ok (Suc n) s'"
proof -
  let ?H = "mset (map fst (is_readers s))"
  have rep: "queue_rep (is_queue s) ?H" and cur: "is_current s < 2 ^ 64 - 1"
    and len: "length (is_readers s) \<le> n" and n: "unat (is_current s) \<le> n"
    using assms(2,3) by (auto simp: epochs_ok_def word_less_nat_alt)
  have suc: "unat (is_current s + 1) = Suc (unat (is_current s))"
    using unat_Suc [OF cur] .
  show ?thesis
    using assms(1)
  proof cases
    case (open_ref e q)
    have "size ?H < 2 ^ 32 - 1"
      using len assms(3) by simp
    from eq.add_ref_rep [OF rep this open_ref(2)] open_ref(1) assms(2) show ?thesis
      by (auto simp: epochs_ok_def split: proc.splits)
  next
    case (close_ref xs e ps ys r q)
    have "e \<in># ?H"
      by (simp add: close_ref(2))
    from eq.remove_ref_rep [OF rep this close_ref(3)] close_ref(1,2) assms(2) show ?thesis
      by (auto simp: epochs_ok_def split: proc.splits)
  next
    case advance
    show ?thesis
      using queue_rep_advance [OF rep advance(3,4)] assms(2) advance(1,2)
      by (simp add: epochs_ok_def)
  next
    case publish_epoch
    have "m_backIndex (is_queue s) < 2 ^ 64 - 1"
      using epochs_back [OF assms(2)] cur by simp
    from AddNewEpoch_rep [OF rep this] publish_epoch assms(2) show ?thesis
      by (auto simp: epochs_ok_def)
  next
    case count_epoch
    then show ?thesis
      using assms(2) suc by (auto simp: epochs_ok_def word_less_nat_alt)
  qed (use assms(2) in \<open>auto simp: epochs_ok_def split: proc.splits\<close>)
qed

lemma memory_step:
  assumes "istep s s'" "memory_ok s"
  shows "memory_ok s'"
  using assms(1)
proof cases
  case (register xs c b ys r M)
  obtain M' where "EpochActionManager_RegisterAction c b (is_actions s) = (Inr (), M')" "actions_ok M'"
      "pending M' = add_mset (c, b) (pending (is_actions s))"
    using RegisterAction_ok [of "is_actions s" c b] assms(2) by (auto simp: memory_ok_def)
  with register assms(2) show ?thesis
    by (simp add: memory_ok_def places_def)
next
  case (drain_queue e i acc acc' m)
  have "actions_ok (is_actions s)"
    using assms(2) by (simp add: memory_ok_def)
  from drain_one_queue [OF this drain_queue(3,4)] obtain P where
    "actions_ok ((is_actions s)\<lparr>m_epochToActionsList := (m_epochToActionsList (is_actions s))[i := m]\<rparr>)"
    "pending (is_actions s) = P + pending ((is_actions s)\<lparr>m_epochToActionsList := (m_epochToActionsList (is_actions s))[i := m]\<rparr>)"
    "mset acc' = mset acc + image_mset snd P"
    by metis
  with drain_queue(1,2) assms(2) show ?thesis
    by (simp add: memory_ok_def places_def)
next
  case (free_buffer a as)
  then have "mset (is_heap s) = add_mset a (mset (is_linked s) + mset (is_unlinked s) +
      mset (map snd (is_stamped s)) + image_mset snd (pending (is_actions s)) + mset as)"
    using assms(2) by (simp add: memory_ok_def places_def)
  with free_buffer assms(2) show ?thesis
    by (simp add: memory_ok_def places_def)
qed (use assms(2) in \<open>auto simp: memory_ok_def places_def\<close>)

lemma protected_mono:
  assumes "set (is_linked s) \<subseteq> set (is_linked s') \<union> set (is_unlinked s')"
    "set (is_unlinked s) \<subseteq> set (is_unlinked s') \<union> {a. (is_current s, a) \<in> set (is_stamped s')}"
    "e \<le> is_current s"
    "set (is_stamped s) \<subseteq> set (is_stamped s') \<union> set_mset (pending (is_actions s'))"
    "\<And>c a. (c, a) \<in># pending (is_actions s) \<Longrightarrow> e \<le> c \<Longrightarrow> (c, a) \<in># pending (is_actions s')"
  shows "protected s e a \<Longrightarrow> protected s' e a"
  using assms unfolding protected_def by blast

lemma readers_step:
  assumes "istep s s'" "epochs_ok n s" "memory_ok s" "readers_ok s"
  shows "readers_ok s'"
proof -
  have range: "m_frontIndex (is_queue s) \<le> e \<and> e \<le> is_current s" if "(e, ps) \<in> set (is_readers s)" for e ps
  proof -
    have "e \<in># mset (map fst (is_readers s))"
      using that by force
    then show ?thesis
      using queue_range [of "is_queue s" "mset (map fst (is_readers s))"] epochs_back [OF assms(2)] assms(2)
      unfolding epochs_ok_def by (meson order_trans)
  qed
  have keep: "readers_ok s'"
    if "is_readers s' = is_readers s"
      "\<And>e ps a. (e, ps) \<in> set (is_readers s) \<Longrightarrow> protected s e a \<Longrightarrow> protected s' e a" for s'
    using assms(4) that unfolding readers_ok_def by fastforce
  show ?thesis
    using assms(1)
  proof cases
    case (load xs e ps ys a)
    then show ?thesis
      using assms(4) by (auto simp: readers_ok_def protected_def)
  next
    case stamp
    show ?thesis
      unfolding stamp(1) by (rule keep, simp, rule protected_mono) (use range stamp(2) in auto)
  next
    case (register xs c b ys r M)
    have "actions_ok (is_actions s)"
      using assms(3) by (simp add: memory_ok_def)
    then have M: "pending M = add_mset (c, b) (pending (is_actions s))"
      by (rule RegisterAction_ok [of _ c b]) (use register(3) in auto)
    show ?thesis
      unfolding register(1) by (rule keep, simp, rule protected_mono) (use range register(2) M in auto)
  next
    case (drain_queue e0 i acc acc' m)
    have "actions_ok (is_actions s)"
      using assms(3) by (simp add: memory_ok_def)
    from drain_one_queue [OF this drain_queue(3,4)] obtain P where
      P: "pending (is_actions s) = P + pending ((is_actions s)\<lparr>m_epochToActionsList := (m_epochToActionsList (is_actions s))[i := m]\<rparr>)"
      "\<And>c a. (c, a) \<in># P \<Longrightarrow> c < e0"
      by metis
    have front: "e0 \<le> m_frontIndex (is_queue s)"
      using assms(2) drain_queue(2) by (simp add: epochs_ok_def)
    show ?thesis
      unfolding drain_queue(1)
    proof (rule keep, simp, rule protected_mono)
      fix e ps c a
      assume "(e, ps) \<in> set (is_readers s)" "(c, a) \<in># pending (is_actions s)" "e \<le> c"
      then have "\<not> c < e0"
        using range front by (meson leD order_trans)
      then have "(c, a) \<notin># P"
        using P(2) by blast
      with \<open>(c, a) \<in># pending (is_actions s)\<close> show "(c, a) \<in># pending (is_actions (s\<lparr>is_proc := Draining e0 (Suc i) acc', is_actions :=
          is_actions s\<lparr>m_epochToActionsList := (m_epochToActionsList (is_actions s))[i := m]\<rparr>\<rparr>))"
        unfolding P(1) by simp
    qed (use range in auto)
  qed (use assms(4) in \<open>auto simp: readers_ok_def protected_def\<close>)
qed

section \<open>Properties\<close>

lemma istart_ok:
  assumes "EpochManager_new hardware config pd = Inr E"
  shows "epochs_ok 0 (istart E) \<and> memory_ok (istart E) \<and> readers_ok (istart E)"
proof -
  obtain q M where q: "EpochQueue_new 0 (m_epochQueueSize config) = Inr q"
    and M: "EpochActionManager_new hardware (m_numActionQueues config) = Inr M"
    and E: "E = \<lparr>m_currentEpochCounter = 0, m_epochQueue = q, m_epochActionManager = M, em_perfData = pd\<rparr>"
    using assms by (auto simp: EpochManager_new_def bind_res_Inr_iff)
  show ?thesis
    using EpochQueue_new_rep [OF q] EpochActionManager_new_actions_ok [OF M]
    by (simp add: inv_defs istart_def E places_def)
qed

lemma reach_ok:
  assumes "EpochManager_new hardware config pd = Inr E" "reach E n s" "n < 2 ^ 32"
  shows "epochs_ok n s \<and> memory_ok s \<and> readers_ok s"
  using assms(2,3)
proof (induction rule: reach.induct)
  case reach_start
  then show ?case
    using istart_ok [OF assms(1)] by simp
next
  case (reach_step n s s')
  then show ?case
    using epochs_step [of s s' n] memory_step readers_step by auto
qed

lemma protected_place:
  assumes "memory_ok s" "protected s e a"
  shows "a \<in> set (is_heap s) \<and> a \<notin> set (taken (is_proc s))"
proof -
  let ?Q = "mset (is_linked s) + mset (is_unlinked s) + mset (map snd (is_stamped s)) +
    image_mset snd (pending (is_actions s))"
  have Q: "mset (is_heap s) = ?Q + mset (taken (is_proc s))" and dist: "distinct (is_heap s)"
    using assms(1) by (simp_all add: memory_ok_def places_def)
  have a: "a \<in># ?Q"
    using assms(2) by (force simp: protected_def)
  then have "a \<in># mset (is_heap s)"
    unfolding Q by simp
  moreover have "a \<notin># mset (taken (is_proc s))"
  proof
    assume "a \<in># mset (taken (is_proc s))"
    then have "0 < count (mset (taken (is_proc s))) a"
      by (simp only: count_greater_zero_iff)
    moreover from a have "0 < count ?Q a"
      by (simp only: count_greater_zero_iff)
    ultimately have "1 < count (mset (is_heap s)) a"
      unfolding Q count_union [of ?Q] by linarith
    with dist show False
      by (simp add: distinct_count_atmost_1 split: if_splits)
  qed
  ultimately show ?thesis
    by simp
qed

text \<open>What the three invariants say of a reader's buffers and of the buffer about to be freed.\<close>

lemma reader_protected:
  assumes "memory_ok s" "readers_ok s" "(e, ps) \<in> set (is_readers s)" "a \<in> set ps"
  shows "a \<in> set (is_heap s) \<and> a \<notin> set (taken (is_proc s))"
  using protected_place [OF assms(1)] assms(2-4) unfolding readers_ok_def by fast

lemma about_to_free:
  assumes mem: "memory_ok s" and run: "is_proc s = Running (a # as)"
  shows "a \<in> set (is_heap s) \<and> a \<notin> set as \<and> a \<notin> set (is_linked s)"
proof (intro conjI notI)
  have heap: "mset (is_heap s) = places s" and dist: "distinct (is_heap s)"
    using mem by (simp_all add: memory_ok_def)
  have "a \<in># mset (is_heap s)"
    unfolding heap by (simp add: places_def run)
  then show "a \<in> set (is_heap s)"
    by simp
  show False if "a \<in> set (is_linked s)"
    using protected_place [OF mem, of 0 a] that by (auto simp: protected_def run)
  assume "a \<in> set as"
  then have "2 \<le> count (mset (a # as)) a"
    by (simp add: Suc_le_eq)
  also have "\<dots> \<le> count (mset (is_heap s)) a"
    unfolding heap by (simp add: places_def run)
  finally show False
    using dist by (auto simp: distinct_count_atmost_1 split: if_splits)
qed

lemma reader_can_release:
  assumes "epochs_ok n s" "(e, ps) \<in> set (is_readers s)"
  shows "fst (RemoveRef (is_queue s) e) = Inr ()"
proof -
  have "e \<in># mset (map fst (is_readers s))"
    using assms(2) by force
  then show ?thesis
    using assms(1) eq.remove_ref_rep [of "is_queue s" "mset (map fst (is_readers s))" e]
    unfolding epochs_ok_def by (metis prod.collapse)
qed

text \<open>C1: in every interleaving of fewer than \<open>2 ^ 32\<close> steps of readers, writers and the processing
  thread, a buffer that a reader has loaded a pointer to stays allocated until the reader gives its
  reference back: the buffer the processing thread is about to free is never one of a reader's. The
  buffer about to be freed is allocated and in no other place, so nothing is freed twice; every
  allocated buffer is in the table or on its way to be freed, so nothing leaks; and no reader's
  \<open>RemoveRef\<close> throws. This holds for every size of the ring, also when epochs share a slot.\<close>

theorem no_use_after_free:
  assumes "EpochManager_new hardware config pd = Inr E" "reach E n s" "n < 2 ^ 32"
  shows "(\<forall>(e, ps)\<in>set (is_readers s). \<forall>a\<in>set ps. a \<in> set (is_heap s)) \<and>
    (\<forall>a as. is_proc s = Running (a # as) \<longrightarrow> a \<in> set (is_heap s) \<and> a \<notin> set as \<and> a \<notin> set (is_linked s) \<and>
      (\<forall>(e, ps)\<in>set (is_readers s). a \<notin> set ps)) \<and>
    (\<forall>(e, ps)\<in>set (is_readers s). fst (RemoveRef (is_queue s) e) = Inr ()) \<and>
    distinct (is_heap s) \<and> mset (is_heap s) = places s"
proof (intro conjI)
  have ok: "memory_ok s" "readers_ok s" "epochs_ok n s"
    using reach_ok [OF assms] by simp_all
  note safe = reader_protected [OF ok(1,2)]
  show "\<forall>(e, ps)\<in>set (is_readers s). \<forall>a\<in>set ps. a \<in> set (is_heap s)"
    using safe by blast
  show "\<forall>a as. is_proc s = Running (a # as) \<longrightarrow> a \<in> set (is_heap s) \<and> a \<notin> set as \<and> a \<notin> set (is_linked s) \<and>
      (\<forall>(e, ps)\<in>set (is_readers s). a \<notin> set ps)"
    using about_to_free [OF ok(1)] safe by fastforce
  show "\<forall>(e, ps)\<in>set (is_readers s). fst (RemoveRef (is_queue s) e) = Inr ()"
    using reader_can_release [OF ok(3)] by blast
qed (use reach_ok [OF assms] in \<open>simp_all add: memory_ok_def\<close>)

theorem no_use_after_free_witness:
  "\<exists>E s. EpochManager_new 8 default_EpochManagerConfig PerfCounters_init = Inr E \<and> reach E 3 s \<and>
    is_readers s = [(0, [7])] \<and> 7 \<in> set (is_heap s)"
proof -
  let ?E = "\<lparr>m_currentEpochCounter = 0, m_epochQueue = \<lparr>m_frontIndex = 0, m_backIndex = 0, m_refCounts = replicate 1000 0\<rparr>,
    m_epochActionManager = \<lparr>m_epochToActionsList = [[]], m_counter = 0\<rparr>, em_perfData = PerfCounters_init\<rparr>"
  have new: "EpochManager_new 8 default_EpochManagerConfig PerfCounters_init = Inr ?E"
    by (simp add: EpochManager_new_def default_EpochManagerConfig_def EpochQueue_new_def EpochActionManager_new_def
        NextHighestPowerOfTwo_def IsPowerOfTwo_def)
  obtain q where q: "AddRef (m_epochQueue ?E) = (0, q)"
    by (simp add: AddRef_def Let_def)
  let ?s0 = "istart ?E"
  let ?s1 = "?s0\<lparr>is_heap := 7 # is_heap ?s0, is_linked := 7 # is_linked ?s0\<rparr>"
  let ?s2 = "?s1\<lparr>is_queue := q, is_readers := (0, []) # is_readers ?s1\<rparr>"
  let ?s3 = "?s2\<lparr>is_readers := [] @ (0, [7]) # []\<rparr>"
  have s1: "istep ?s0 ?s1"
    by (rule istep.link_new) (simp add: istart_def)
  have s2: "istep ?s1 ?s2"
    by (rule istep.open_ref) (use q in \<open>simp add: istart_def\<close>)
  have s3: "istep ?s2 ?s3"
    by (rule istep.load) (simp_all add: istart_def)
  note reach_step [OF reach_step [OF reach_step [OF reach_start s1] s2] s3]
  then have run: "reach ?E 3 ?s3"
    by (simp only: numeral_3_eq_3)
  from no_use_after_free [OF new run] have "7 \<in> set (is_heap ?s3)"
    by simp
  with new run show ?thesis
    by (intro exI [of _ ?E] exI [of _ ?s3]) simp
qed

end
