(* ===== verification/L4_Names.thy ===== *)
theory L4_Names
  imports L4_Prelude
begin

text \<open>
  The comparers and hashers of \<open>inc/L4/Utils/ComparerHasher.h\<close>, the maps with string keys of
  \<open>inc/L4/Utils/Containers.h\<close> made from them, and \<open>inc/L4/Utils/Properties.h\<close>.
\<close>

section \<open>Comparers\<close>

text \<open>
  \<open>_stricmp\<close> compares the characters after \<open>tolower\<close>, up to the NUL characters. In the default
  locale \<open>tolower\<close> and \<open>toupper\<close> change the letters of ASCII only.
\<close>

definition tolower :: "char \<Rightarrow> char" where
  "tolower c = (if 65 \<le> (of_char c :: nat) \<and> of_char c \<le> (90 :: nat) then char_of (of_char c + 32 :: nat) else c)"

definition stricmp :: "string \<Rightarrow> string \<Rightarrow> bool" where
  "stricmp s t = (map tolower s = map tolower t)"

text \<open>\<open>CaseInsensitiveStdStringComparer\<close> takes \<open>std::string\<close>s, \<open>CaseInsensitiveStringComparer\<close> pointers.\<close>

definition StdStringComparer :: "string \<Rightarrow> string \<Rightarrow> bool" where
  "StdStringComparer str1 str2 = stricmp (c_str str1) (c_str str2)"

definition StringComparer :: "string \<Rightarrow> string \<Rightarrow> bool" where
  "StringComparer str1 str2 = stricmp (c_str str1) (c_str str2)"

section \<open>Hashers\<close>

text \<open>
  \<open>char\<close> is a signed type; \<open>toupper\<close> takes and returns an \<open>int\<close>. \<open>hash_combine\<close> of boost is a
  parameter: it makes the new seed from the seed and a value.
\<close>

definition char_int :: "char \<Rightarrow> int" where
  "char_int c = (if (of_char c :: nat) < 128 then int (of_char c) else int (of_char c) - 256)"

definition toupper :: "int \<Rightarrow> int" where
  "toupper i = (if 97 \<le> i \<and> i \<le> 122 then i - 32 else i)"

type_synonym hash_combine = "u64 \<Rightarrow> int \<Rightarrow> u64"

fun hash_loop :: "hash_combine \<Rightarrow> u64 \<Rightarrow> string \<Rightarrow> u64" where
  "hash_loop combine seed [] = seed"
| "hash_loop combine seed (c # str) = hash_loop combine (combine seed (toupper (char_int c))) str"

definition StdStringHasher :: "hash_combine \<Rightarrow> string \<Rightarrow> u64" where
  "StdStringHasher combine str = hash_loop combine 0 str"

text \<open>The loop over a pointer stops at the NUL character.\<close>

fun pointer_loop :: "hash_combine \<Rightarrow> u64 \<Rightarrow> string \<Rightarrow> u64" where
  "pointer_loop combine seed [] = seed"
| "pointer_loop combine seed (c # str) =
     (if c = CHR 0x00 then seed else pointer_loop combine (combine seed (toupper (char_int c))) str)"

definition StringHasher :: "hash_combine \<Rightarrow> string \<Rightarrow> u64" where
  "StringHasher combine str = pointer_loop combine 0 str"

section \<open>Maps with string keys\<close>

text \<open>
  \<open>StdStringKeyMap\<close> is an \<open>unordered_map\<close>, here the list of its elements. A search looks at the elements
  with the hash of the key and compares them with the key; \<open>emplace\<close> does nothing when it finds one.
\<close>

type_synonym 'v StdStringKeyMap = "(string \<times> 'v) list"

definition map_find :: "hash_combine \<Rightarrow> 'v StdStringKeyMap \<Rightarrow> string \<Rightarrow> 'v option" where
  "map_find combine m key = map_option snd (List.find (\<lambda>(k, v).
     StdStringHasher combine k = StdStringHasher combine key \<and> StdStringComparer k key) m)"

definition map_emplace :: "hash_combine \<Rightarrow> string \<Rightarrow> 'v \<Rightarrow> 'v StdStringKeyMap \<Rightarrow> 'v StdStringKeyMap" where
  "map_emplace combine key v m = (if map_find combine m key = None then m @ [(key, v)] else m)"

section \<open>Properties\<close>

definition Properties_new :: "hash_combine \<Rightarrow> (string \<times> string) list \<Rightarrow> string StdStringKeyMap" where
  "Properties_new combine values = fold (\<lambda>(k, v). map_emplace combine k v) values []"

text \<open>The conversion of boost, \<open>try_lexical_convert\<close>, is a parameter. The result is the value of \<open>val\<close> after the call.\<close>

definition TryGet :: "hash_combine \<Rightarrow> (string \<Rightarrow> 'a option) \<Rightarrow> string StdStringKeyMap \<Rightarrow> string \<Rightarrow> 'a \<Rightarrow> bool \<times> 'a" where
  "TryGet combine try_lexical_convert m key val =
     (case map_find combine m key of
        None \<Rightarrow> (False, val)
      | Some s \<Rightarrow> (case try_lexical_convert s of
            None \<Rightarrow> (False, val)
          | Some tmp \<Rightarrow> (True, tmp)))"

section \<open>Equal strings have equal hashes\<close>

text \<open>The strings that C string functions read in full.\<close>

definition no_nul :: "string \<Rightarrow> bool" where
  "no_nul s \<longleftrightarrow> CHR 0x00 \<notin> set s"

lemma c_str_no_nul [simp]: "no_nul s \<Longrightarrow> c_str s = s"
  unfolding no_nul_def c_str_def by (rule takeWhile_eq_all_conv [THEN iffD2]) auto

lemma no_nul_c_str [simp]: "no_nul (c_str s)"
  unfolding no_nul_def c_str_def by (auto dest: set_takeWhileD)

lemma toupper_of_tolower: "toupper (char_int (tolower c)) = toupper (char_int c)"
  by (simp add: tolower_def toupper_def char_int_def)

lemma toupper_tolower: "tolower c = tolower d \<Longrightarrow> toupper (char_int c) = toupper (char_int d)"
  using toupper_of_tolower by metis

lemma hash_loop_stricmp: "map tolower s = map tolower t \<Longrightarrow> hash_loop combine seed s = hash_loop combine seed t"
proof (induction s arbitrary: t seed)
  case (Cons c s)
  then obtain d t' where t: "t = d # t'" "tolower c = tolower d" "map tolower s = map tolower t'"
    by (cases t) simp_all
  show ?case
    by (simp add: t(1) toupper_tolower [OF t(2)] Cons.IH [OF t(3)])
qed simp

lemma StdStringHasher_equal:
  "no_nul s \<Longrightarrow> no_nul t \<Longrightarrow> StdStringComparer s t \<Longrightarrow> StdStringHasher combine s = StdStringHasher combine t"
  by (simp add: StdStringComparer_def StdStringHasher_def stricmp_def) (rule hash_loop_stricmp)

lemma pointer_loop_c_str: "pointer_loop combine seed s = hash_loop combine seed (c_str s)"
  by (induction s arbitrary: seed) (simp_all add: c_str_def)

lemma Comparer_equiv:
  "StdStringComparer s s" "StdStringComparer s t = StdStringComparer t s"
  "StdStringComparer s t \<Longrightarrow> StdStringComparer t u \<Longrightarrow> StdStringComparer s u"
  by (auto simp: StdStringComparer_def stricmp_def)

section \<open>Maps as functions of the lower-case key\<close>

definition name_key :: "string \<Rightarrow> string" where
  "name_key s = map tolower (c_str s)"

lemma Comparer_name_key: "StdStringComparer s t \<longleftrightarrow> name_key s = name_key t"
  by (simp add: StdStringComparer_def stricmp_def name_key_def)

lemma map_find_map_of:
  assumes "\<forall>(k, v)\<in>set m. no_nul k" "no_nul key"
  shows "map_find combine m key = map_of (map (\<lambda>(k, v). (name_key k, v)) m) (name_key key)"
  using assms(1)
proof (induction m)
  case Nil
  then show ?case by (simp add: map_find_def)
next
  case (Cons p m)
  obtain k v where p: "p = (k, v)"
    by (cases p)
  have "name_key k = name_key key \<Longrightarrow> StdStringHasher combine k = StdStringHasher combine key"
    using Cons.prems assms(2) StdStringHasher_equal [of k key combine] by (simp add: p Comparer_name_key)
  then show ?case
    using Cons by (auto simp: map_find_def p Comparer_name_key)
qed

definition no_nul_keys :: "(string \<times> 'v) list \<Rightarrow> bool" where
  "no_nul_keys m \<longleftrightarrow> (\<forall>(k, v)\<in>set m. no_nul k)"

lemma map_find_emplace:
  assumes "no_nul_keys m" "no_nul k" "no_nul key"
  shows "map_find combine (map_emplace combine k v m) key =
    (case map_find combine m key of Some w \<Rightarrow> Some w | None \<Rightarrow> if name_key k = name_key key then Some v else None)"
    and "no_nul_keys (map_emplace combine k v m)"
proof -
  have m: "\<forall>(k, v)\<in>set m. no_nul k"
    using assms(1) by (simp add: no_nul_keys_def)
  show keys: "no_nul_keys (map_emplace combine k v m)"
    using assms by (auto simp: no_nul_keys_def map_emplace_def)
  then have m': "\<forall>(k, v)\<in>set (map_emplace combine k v m). no_nul k"
    by (simp add: no_nul_keys_def)
  note finds = map_find_map_of [OF m assms(3), of combine] map_find_map_of [OF m assms(2), of combine]
    map_find_map_of [OF m' assms(3), of combine]
  show "map_find combine (map_emplace combine k v m) key =
      (case map_find combine m key of Some w \<Rightarrow> Some w | None \<Rightarrow> if name_key k = name_key key then Some v else None)"
  proof (cases "map_find combine m k")
    case None
    then have "map_emplace combine k v m = m @ [(k, v)]"
      by (simp add: map_emplace_def)
    then show ?thesis
      unfolding finds by (simp add: map_add_def split: option.split)
  next
    case (Some w)
    then have "map_emplace combine k v m = m"
      by (simp add: map_emplace_def)
    moreover have "name_key k = name_key key \<Longrightarrow> map_find combine m key = Some w"
      using Some unfolding finds by simp
    ultimately show ?thesis
      by (cases "map_find combine m key") auto
  qed
qed

lemma find_fold_emplace:
  assumes "no_nul_keys m" "no_nul_keys vs" "no_nul key"
  shows "map_find combine (fold (\<lambda>(k, v). map_emplace combine k v) vs m) key =
    (case map_find combine m key of Some w \<Rightarrow> Some w | None \<Rightarrow> map_of (map (\<lambda>(k, v). (name_key k, v)) vs) (name_key key))"
  using assms(1,2)
proof (induction vs arbitrary: m)
  case Nil
  then show ?case by (simp split: option.split)
next
  case (Cons p vs)
  obtain k v where p: "p = (k, v)"
    by (cases p)
  have k: "no_nul k" "no_nul_keys vs"
    using Cons.prems(2) by (simp_all add: no_nul_keys_def p)
  note step = map_find_emplace [OF Cons.prems(1) k(1) assms(3), of combine v]
  show ?case
    using Cons.IH [OF step(2) k(2)] step(1) by (simp add: p split: option.splits)
qed

section \<open>Properties of the comparers and maps\<close>

text \<open>C35: the hashers agree with the comparers: strings without NUL characters that differ in case only have
  the same hash, whatever \<open>hash_combine\<close> does; a \<open>std::string\<close> and a pointer to the same characters have
  the same hash, and the comparer of pointers takes them for equal in the other order too.\<close>

theorem hashers_agree:
  assumes "no_nul s" "no_nul t" "StdStringComparer s t"
  shows "StdStringHasher combine s = StdStringHasher combine t \<and> StringHasher combine s = StdStringHasher combine t \<and>
    StringComparer t s"
  using assms StdStringHasher_equal [OF assms]
  by (auto simp: StringHasher_def StdStringHasher_def pointer_loop_c_str StringComparer_def StdStringComparer_def stricmp_def)

theorem hashers_agree_witness:
  "StdStringHasher (\<lambda>seed i. seed * 31 + of_int i) ''Name'' = StdStringHasher (\<lambda>seed i. seed * 31 + of_int i) ''nAME'' \<and>
    StringComparer ''nAME'' ''Name''"
proof -
  have "no_nul ''Name''" "no_nul ''nAME''" "StdStringComparer ''Name'' ''nAME''"
    by code_simp+
  from hashers_agree [OF this] show ?thesis
    by blast
qed

text \<open>A string with an embedded NUL character is equal to its part before it for the comparer, while the
  hasher goes on over the rest: an \<open>unordered_map\<close> with such keys has equal keys with different hashes.\<close>

theorem embedded_nul_hash:
  assumes "no_nul s"
  shows "StdStringComparer (s @ CHR 0x00 # t) s \<and>
    StdStringHasher combine (s @ CHR 0x00 # t) = hash_loop combine (combine (StdStringHasher combine s) 0) t"
proof -
  have "hash_loop combine seed (a @ b) = hash_loop combine (hash_loop combine seed a) b" for seed a b
    by (induction a arbitrary: seed) simp_all
  moreover have "c_str (s @ CHR 0x00 # t) = s"
    using assms by (induction s) (auto simp: c_str_def no_nul_def)
  ultimately show ?thesis
    using assms by (simp add: StdStringHasher_def StdStringComparer_def stricmp_def toupper_def char_int_def)
qed

theorem embedded_nul_hash_witness:
  "StdStringComparer (''a'' @ [CHR 0x00]) ''a'' \<and>
    StdStringHasher (\<lambda>seed i. seed * 31 + of_int i) (''a'' @ [CHR 0x00]) \<noteq> StdStringHasher (\<lambda>seed i. seed * 31 + of_int i) ''a''"
  using embedded_nul_hash [of "''a''" "[]" "\<lambda>seed i. seed * 31 + of_int i"]
  by (simp add: no_nul_def StdStringHasher_def toupper_def char_int_def)

text \<open>\<open>TryGet\<close> on properties made from an initializer list finds the value of the first element whose key
  is the given one up to case, and converts it; when there is none, or the conversion fails, the
  variable of the caller keeps its value.\<close>

theorem TryGet_correct:
  assumes "no_nul_keys values" "no_nul key"
  shows "TryGet combine try_lexical_convert (Properties_new combine values) key val =
    (case Option.bind (map_of (map (\<lambda>(k, v). (name_key k, v)) values) (name_key key)) try_lexical_convert of
       None \<Rightarrow> (False, val) | Some tmp \<Rightarrow> (True, tmp))"
proof -
  have "no_nul_keys ([] :: (string \<times> string) list)"
    by (simp add: no_nul_keys_def)
  from find_fold_emplace [OF this assms, of combine] show ?thesis
    by (simp add: TryGet_def Properties_new_def map_find_def split: option.splits)
qed

theorem TryGet_correct_witness:
  "TryGet (\<lambda>seed i. seed * 31 + of_int i) (\<lambda>s. if s = ''1'' then Some True else None)
      (Properties_new (\<lambda>seed i. seed * 31 + of_int i) [(''Flag'', ''1''), (''flag'', ''0'')]) ''FLAG'' False = (True, True)"
proof -
  have "no_nul_keys [(''Flag'', ''1''), (''flag'', ''0'')]" "no_nul ''FLAG''"
    by code_simp+
  moreover have "name_key ''Flag'' = name_key ''FLAG''"
    by code_simp
  ultimately show ?thesis
    by (subst TryGet_correct) simp_all
qed

end
