(* ===== verification/L4_Iterator.thy ===== *)
theory L4_Iterator
  imports L4_TableMap
begin

text \<open>
  The iterator of \<open>ReadOnlyHashTable\<close> (\<open>inc/L4/HashTable/ReadWrite/HashTable.h\<close>): a position in the
  table, bucket, entry of the chain and index in the entry, that \<open>MoveNext\<close> moves to the next data
  pointer that is set. The lemmas show that it visits every record of a table exactly once.
\<close>

section \<open>The iterator\<close>

text \<open>
  \<open>m_currentEntry\<close> is a position in the chain of the current bucket, or none for a null pointer. The
  constructor does not set \<open>m_currentRecord\<close>, so its first value is a parameter of the model.
\<close>

record Iterator =
  m_currentBucketIndex :: int
  m_currentRecordIndex :: nat
  m_currentEntry :: "nat option"
  m_currentRecord :: "addr option"

definition Iterator_new :: "addr option \<Rightarrow> Iterator" where
  "Iterator_new junk = \<lparr>m_currentBucketIndex = -1, m_currentRecordIndex = 0, m_currentEntry = None,
     m_currentRecord = junk\<rparr>"

definition Reset :: "Iterator \<Rightarrow> Iterator" where
  "Reset it = it\<lparr>m_currentBucketIndex := -1, m_currentRecordIndex := 0, m_currentEntry := None\<rparr>"

definition IsEnd :: "SharedHashTable \<Rightarrow> Iterator \<Rightarrow> bool" where
  "IsEnd T it \<longleftrightarrow> m_currentBucketIndex it = int (length (m_buckets T))"

definition IsValid :: "SharedHashTable \<Rightarrow> Iterator \<Rightarrow> bool" where
  "IsValid T it \<longleftrightarrow> \<not> IsEnd T it \<and> m_currentEntry it \<noteq> None \<and> m_currentRecord it \<noteq> None"

text \<open>The chain of the current bucket, and the data pointer at the current position.\<close>

definition current_chain :: "SharedHashTable \<Rightarrow> Iterator \<Rightarrow> addr Entry list" where
  "current_chain T it = m_buckets T ! nat (m_currentBucketIndex it)"

definition in_table :: "SharedHashTable \<Rightarrow> Iterator \<Rightarrow> bool" where
  "in_table T it \<longleftrightarrow> 0 \<le> m_currentBucketIndex it \<and> m_currentBucketIndex it < int (length (m_buckets T))"

definition current_data :: "SharedHashTable \<Rightarrow> Iterator \<Rightarrow> nat \<Rightarrow> addr option res" where
  "current_data T it j =
     (if in_table T it \<and> j < length (current_chain T it) \<and> m_currentRecordIndex it < c_numDataPerEntry
      then Inr (m_dataList (current_chain T it ! j) ! m_currentRecordIndex it) else Inl BadAccess)"

definition MoveToNextData :: "SharedHashTable \<Rightarrow> Iterator \<Rightarrow> Iterator" where
  "MoveToNextData T it =
     (let it = it\<lparr>m_currentRecordIndex := m_currentRecordIndex it + 1\<rparr>
      in if m_currentRecordIndex it \<ge> c_numDataPerEntry
         then it\<lparr>m_currentRecordIndex := 0, m_currentEntry := (case m_currentEntry it of
                None \<Rightarrow> None
              | Some j \<Rightarrow> if Suc j < length (current_chain T it) then Some (Suc j) else None)\<rparr>
         else it)"

text \<open>The distance to the end, for the termination of the loops.\<close>

definition iter_dist :: "SharedHashTable \<Rightarrow> Iterator \<Rightarrow> nat \<times> nat \<times> nat" where
  "iter_dist T it = (nat (int (length (m_buckets T)) - m_currentBucketIndex it),
     case m_currentEntry it of None \<Rightarrow> 0 | Some j \<Rightarrow> Suc (length (current_chain T it) - j),
     c_numDataPerEntry - m_currentRecordIndex it)"

definition iter_less :: "(nat \<times> nat \<times> nat) rel" where
  "iter_less = less_than <*lex*> less_than <*lex*> less_than"

lemma wf_iter_less [simp]: "wf iter_less"
  by (simp add: iter_less_def wf_lex_prod)

lemma trans_iter_less: "trans iter_less"
  by (auto simp: iter_less_def trans_def)

lemma iter_dist_next_data:
  "m_currentEntry it = Some j \<Longrightarrow> (iter_dist T (MoveToNextData T it), iter_dist T it) \<in> iter_less"
  by (auto simp: iter_dist_def iter_less_def MoveToNextData_def Let_def current_chain_def)

lemma iter_dist_record [simp]: "iter_dist T (it\<lparr>m_currentRecord := d\<rparr>) = iter_dist T it"
  by (simp add: iter_dist_def current_chain_def split: option.splits)

lemma iter_dist_next_bucket:
  "m_currentEntry it = None \<Longrightarrow> in_table T (it\<lparr>m_currentBucketIndex := m_currentBucketIndex it + 1\<rparr>) \<Longrightarrow>
    (iter_dist T (it\<lparr>m_currentBucketIndex := m_currentBucketIndex it + 1, m_currentRecordIndex := 0,
      m_currentEntry := Some 0\<rparr>), iter_dist T it) \<in> iter_less"
  by (auto simp: iter_dist_def iter_less_def in_table_def)

function MoveNext_loop :: "SharedHashTable \<Rightarrow> Iterator \<Rightarrow> (bool \<times> Iterator) res" where
  "MoveNext_loop T it =
     (case m_currentEntry it of
        None \<Rightarrow>
          let it' = it\<lparr>m_currentBucketIndex := m_currentBucketIndex it + 1, m_currentRecordIndex := 0\<rparr>
          in if IsEnd T it' then Inr (False, it')
             else if in_table T it' then MoveNext_loop T (it'\<lparr>m_currentEntry := Some 0\<rparr>)
             else Inl BadAccess
      | Some j \<Rightarrow>
          case current_data T it j of
            Inl e \<Rightarrow> Inl e
          | Inr (Some a) \<Rightarrow> Inr (True, it\<lparr>m_currentRecord := Some a\<rparr>)
          | Inr None \<Rightarrow> MoveNext_loop T (MoveToNextData T (it\<lparr>m_currentRecord := None\<rparr>)))"
  by pat_completeness auto
termination
proof (relation "inv_image iter_less (\<lambda>(T, it). iter_dist T it)", goal_cases)
  case 1
  then show ?case by simp
next
  case (2 T it it')
  then have "(iter_dist T (it\<lparr>m_currentBucketIndex := m_currentBucketIndex it + 1, m_currentRecordIndex := 0,
      m_currentEntry := Some 0\<rparr>), iter_dist T it) \<in> iter_less"
    by (intro iter_dist_next_bucket) (simp_all add: in_table_def)
  with 2 show ?case by simp
next
  case (3 T it j d)
  then show ?case
    using iter_dist_next_data [of "it\<lparr>m_currentRecord := None\<rparr>" j T] by simp
qed

declare MoveNext_loop.simps [simp del]

definition MoveNext :: "SharedHashTable \<Rightarrow> Iterator \<Rightarrow> (bool \<times> Iterator) res" where
  "MoveNext T it =
     (if IsEnd T it then Inr (False, it)
      else let it = (if m_currentEntry it \<noteq> None then MoveToNextData T it else it)
           in if m_currentRecordIndex it < c_numDataPerEntry then MoveNext_loop T it
              else Inl (AssertFailed ''m_currentRecordIndex < HashTable::Entry::c_numDataPerEntry''))"

definition GetRecord :: "RecordSerializer \<Rightarrow> memory \<Rightarrow> SharedHashTable \<Rightarrow> Iterator \<Rightarrow> Record res" where
  "GetRecord rs h T it =
     (if \<not> IsValid T it then Inl (RuntimeException ''HashTableIterator is not correctly used.'')
      else case m_currentRecord it of None \<Rightarrow> Inl BadAccess | Some a \<Rightarrow> load_record rs h a)"

definition GetKey :: "RecordSerializer \<Rightarrow> memory \<Rightarrow> SharedHashTable \<Rightarrow> Iterator \<Rightarrow> Key res" where
  "GetKey rs h T it = bind_res (GetRecord rs h T it) (\<lambda>r. Inr (m_key r))"

definition GetValue :: "RecordSerializer \<Rightarrow> memory \<Rightarrow> SharedHashTable \<Rightarrow> Iterator \<Rightarrow> Value res" where
  "GetValue rs h T it = bind_res (GetRecord rs h T it) (\<lambda>r. Inr (m_value r))"

section \<open>Every step comes closer to the end\<close>

lemma MoveNext_loop_dist:
  "MoveNext_loop T it = Inr (True, it') \<Longrightarrow> m_currentEntry it' \<noteq> None \<and>
    (iter_dist T it' = iter_dist T it \<and> m_currentEntry it \<noteq> None \<or> (iter_dist T it', iter_dist T it) \<in> iter_less)"
proof (induction T it rule: MoveNext_loop.induct)
  case (1 T it)
  let ?next = "it\<lparr>m_currentBucketIndex := m_currentBucketIndex it + 1, m_currentRecordIndex := 0\<rparr>"
  show ?case
  proof (cases "m_currentEntry it")
    case None
    then have in_t: "in_table T ?next" "\<not> IsEnd T ?next"
      and run: "MoveNext_loop T (?next\<lparr>m_currentEntry := Some 0\<rparr>) = Inr (True, it')"
      using "1.prems" by (auto simp: MoveNext_loop.simps [of T it] Let_def split: if_splits)
    have "m_currentEntry it' \<noteq> None \<and> (iter_dist T it' = iter_dist T (?next\<lparr>m_currentEntry := Some 0\<rparr>) \<and>
        m_currentEntry (?next\<lparr>m_currentEntry := Some 0\<rparr>) \<noteq> None \<or>
        (iter_dist T it', iter_dist T (?next\<lparr>m_currentEntry := Some 0\<rparr>)) \<in> iter_less)"
      by (rule "1.IH"(1) [OF None refl in_t(2,1) run])
    moreover have "(iter_dist T (?next\<lparr>m_currentEntry := Some 0\<rparr>), iter_dist T it) \<in> iter_less"
      using iter_dist_next_bucket [OF None] in_t(1) by (simp add: in_table_def)
    ultimately show ?thesis
      using trans_iter_less by (auto dest: transD)
  next
    case (Some j)
    obtain d where d: "current_data T it j = Inr d"
      using "1.prems" Some by (cases "current_data T it j") (auto simp: MoveNext_loop.simps [of T it])
    show ?thesis
    proof (cases d)
      case (Some a)
      then show ?thesis
        using "1.prems" \<open>m_currentEntry it = Some j\<close> d by (auto simp: MoveNext_loop.simps [of T it])
    next
      case None
      let ?it = "it\<lparr>m_currentRecord := None\<rparr>"
      have run: "MoveNext_loop T (MoveToNextData T ?it) = Inr (True, it')"
        using "1.prems" Some d None by (simp add: MoveNext_loop.simps [of T it])
      have "(iter_dist T (MoveToNextData T ?it), iter_dist T it) \<in> iter_less"
        using iter_dist_next_data [of ?it j T] Some by simp
      moreover have "m_currentEntry it' \<noteq> None \<and> (iter_dist T it' = iter_dist T (MoveToNextData T ?it) \<and>
          m_currentEntry (MoveToNextData T ?it) \<noteq> None \<or>
          (iter_dist T it', iter_dist T (MoveToNextData T ?it)) \<in> iter_less)"
        using "1.IH"(2) [OF Some] d None run by simp
      ultimately show ?thesis
        using trans_iter_less by (auto dest: transD)
    qed
  qed
qed

lemma MoveNext_dist:
  assumes "MoveNext T it = Inr (True, it')"
  shows "(iter_dist T it', iter_dist T it) \<in> iter_less"
proof (cases "m_currentEntry it")
  case None
  then have "MoveNext_loop T it = Inr (True, it')"
    using assms by (auto simp: MoveNext_def split: if_splits)
  from MoveNext_loop_dist [OF this] None show ?thesis
    by simp
next
  case (Some j)
  then have "MoveNext_loop T (MoveToNextData T it) = Inr (True, it')"
    using assms by (auto simp: MoveNext_def Let_def split: if_splits)
  from MoveNext_loop_dist [OF this] iter_dist_next_data [OF Some, of T] show ?thesis
    using trans_iter_less by (auto dest: transD)
qed

section \<open>What is ahead of a position\<close>

definition chains_ok :: "SharedHashTable \<Rightarrow> bool" where
  "chains_ok T \<longleftrightarrow> (\<forall>es\<in>set (m_buckets T). chain_ok es)"

definition iter_ok :: "SharedHashTable \<Rightarrow> Iterator \<Rightarrow> bool" where
  "iter_ok T it \<longleftrightarrow> chains_ok T \<and> -1 \<le> m_currentBucketIndex it \<and>
     m_currentBucketIndex it \<le> int (length (m_buckets T)) \<and> m_currentRecordIndex it < c_numDataPerEntry \<and>
     (case m_currentEntry it of None \<Rightarrow> True | Some j \<Rightarrow> in_table T it \<and> j < length (current_chain T it))"

definition later_buckets :: "SharedHashTable \<Rightarrow> int \<Rightarrow> addr list" where
  "later_buckets T b = concat (map (\<lambda>es. slot_addrs (chain_slots es)) (drop (nat (b + 1)) (m_buckets T)))"

text \<open>The data pointers from the current position on, this position included.\<close>

definition ahead :: "SharedHashTable \<Rightarrow> Iterator \<Rightarrow> addr list" where
  "ahead T it = (case m_currentEntry it of None \<Rightarrow> []
     | Some j \<Rightarrow> slot_addrs (drop (16 * j + m_currentRecordIndex it) (chain_slots (current_chain T it)))) @
     later_buckets T (m_currentBucketIndex it)"

lemma iter_ok_record [simp]: "iter_ok T (it\<lparr>m_currentRecord := d\<rparr>) = iter_ok T it"
  by (simp add: iter_ok_def current_chain_def in_table_def split: option.splits)

lemma ahead_record [simp]: "ahead T (it\<lparr>m_currentRecord := d\<rparr>) = ahead T it"
  by (simp add: ahead_def current_chain_def split: option.splits)

lemma MoveToNextData_record:
  "MoveToNextData T (it\<lparr>m_currentRecord := d\<rparr>) = (MoveToNextData T it)\<lparr>m_currentRecord := d\<rparr>"
  by (simp add: MoveToNextData_def Let_def current_chain_def split: option.splits)

lemma later_buckets_step:
  assumes "-1 \<le> b" "b + 1 < int (length (m_buckets T))"
  shows "later_buckets T b = slot_addrs (chain_slots (m_buckets T ! nat (b + 1))) @ later_buckets T (b + 1)"
proof -
  have "nat (b + 1) < length (m_buckets T)" "nat (b + 1 + 1) = Suc (nat (b + 1))"
    using assms by linarith+
  then show ?thesis
    by (simp add: later_buckets_def Cons_nth_drop_Suc [symmetric])
qed

lemma iter_ok_next_bucket:
  assumes "iter_ok T it" "m_currentEntry it = None"
  defines "it' \<equiv> it\<lparr>m_currentBucketIndex := m_currentBucketIndex it + 1, m_currentRecordIndex := 0, m_currentEntry := Some 0\<rparr>"
  assumes "m_currentBucketIndex it + 1 < int (length (m_buckets T))"
  shows "iter_ok T it' \<and> ahead T it' = ahead T it"
proof -
  have b: "-1 \<le> m_currentBucketIndex it" "nat (m_currentBucketIndex it + 1) < length (m_buckets T)"
    using assms by (auto simp: iter_ok_def)
  then have "chain_ok (m_buckets T ! nat (m_currentBucketIndex it + 1))"
    using assms(1) by (simp add: iter_ok_def chains_ok_def)
  then have "iter_ok T it'"
    using assms b by (auto simp: iter_ok_def it'_def current_chain_def in_table_def chain_ok_def c_numDataPerEntry_def)
  moreover have "ahead T it' = ahead T it"
    using later_buckets_step [OF b(1) assms(4)] assms(2) by (simp add: ahead_def it'_def current_chain_def)
  ultimately show ?thesis ..
qed

lemma current_data_ahead:
  assumes ok: "iter_ok T it" and j: "m_currentEntry it = Some j"
  obtains d where "current_data T it j = Inr d"
    "ahead T it = (case d of None \<Rightarrow> [] | Some a \<Rightarrow> [a]) @ ahead T (MoveToNextData T it)"
    "iter_ok T (MoveToNextData T it)"
proof -
  let ?es = "current_chain T it" and ?i = "m_currentRecordIndex it"
  have in_t: "in_table T it" "j < length ?es" "?i < 16" "chain_ok ?es"
    using ok j by (auto simp: iter_ok_def c_numDataPerEntry_def chains_ok_def current_chain_def in_table_def)
  have all: "\<forall>e\<in>set ?es. entry_ok e"
    using in_t(4) by (simp add: chain_ok_def)
  define d where "d = m_dataList (?es ! j) ! ?i"
  have data: "current_data T it j = Inr d"
    using in_t by (simp add: current_data_def d_def c_numDataPerEntry_def)
  have len: "length (chain_slots ?es) = 16 * length ?es"
    using length_chain_slots [OF all] .
  then have p: "16 * j + ?i < length (chain_slots ?es)"
    using in_t(2,3) by simp
  have "drop (16 * j + ?i) (chain_slots ?es) = (m_tags (?es ! j) ! ?i, d) # drop (Suc (16 * j + ?i)) (chain_slots ?es)"
    using Cons_nth_drop_Suc [OF p] chain_slots_nth [OF all in_t(2,3)] by (simp add: d_def)
  then have now: "ahead T it = (case d of None \<Rightarrow> [] | Some a \<Rightarrow> [a]) @
      slot_addrs (drop (Suc (16 * j + ?i)) (chain_slots ?es)) @ later_buckets T (m_currentBucketIndex it)"
    by (simp add: ahead_def j split: option.splits)
  consider (same) "Suc ?i < 16" | (entry) "Suc ?i = 16" "Suc j < length ?es" | (last) "Suc ?i = 16" "Suc j = length ?es"
    using in_t(2,3) by linarith
  then have "ahead T (MoveToNextData T it) =
      slot_addrs (drop (Suc (16 * j + ?i)) (chain_slots ?es)) @ later_buckets T (m_currentBucketIndex it) \<and>
      iter_ok T (MoveToNextData T it)"
  proof cases
    case same
    then show ?thesis
      using ok j by (simp add: ahead_def MoveToNextData_def Let_def c_numDataPerEntry_def current_chain_def iter_ok_def in_table_def)
  next
    case entry
    then have "Suc (16 * j + ?i) = 16 * Suc j"
      by simp
    then show ?thesis
      using entry ok j by (simp add: ahead_def MoveToNextData_def Let_def c_numDataPerEntry_def current_chain_def iter_ok_def in_table_def)
  next
    case last
    then have "drop (Suc (16 * j + ?i)) (chain_slots ?es) = []"
      using len by simp
    then show ?thesis
      using last ok j by (simp add: ahead_def MoveToNextData_def Let_def c_numDataPerEntry_def current_chain_def iter_ok_def in_table_def)
  qed
  then show ?thesis
    using that [OF data] now by simp
qed

text \<open>The outcome of a move from an iterator with \<open>as\<close> ahead.\<close>

definition moved :: "SharedHashTable \<Rightarrow> addr list \<Rightarrow> (bool \<times> Iterator) res \<Rightarrow> bool" where
  "moved T as r \<longleftrightarrow> (\<exists>it'. iter_ok T it' \<and>
     (case as of [] \<Rightarrow> r = Inr (False, it') \<and> IsEnd T it' \<and> m_currentEntry it' = None
      | a # rest \<Rightarrow> r = Inr (True, it') \<and> IsValid T it' \<and> m_currentRecord it' = Some a \<and>
          ahead T (MoveToNextData T it') = rest))"

lemma MoveNext_loop_moved: "iter_ok T it \<Longrightarrow> \<not> IsEnd T it \<Longrightarrow> moved T (ahead T it) (MoveNext_loop T it)"
proof (induction T it rule: MoveNext_loop.induct)
  case (1 T it)
  let ?next = "it\<lparr>m_currentBucketIndex := m_currentBucketIndex it + 1, m_currentRecordIndex := 0\<rparr>"
  have range: "-1 \<le> m_currentBucketIndex it" "m_currentBucketIndex it \<le> int (length (m_buckets T))"
    using "1.prems" by (simp_all add: iter_ok_def)
  show ?case
  proof (cases "m_currentEntry it")
    case None
    consider "m_currentBucketIndex it + 1 = int (length (m_buckets T))"
      | "m_currentBucketIndex it + 1 < int (length (m_buckets T))"
      using range "1.prems"(2) unfolding IsEnd_def by linarith
    then show ?thesis
    proof cases
      case 1
      then have "ahead T it = []" "IsEnd T ?next" "nat (m_currentBucketIndex it + 1) = length (m_buckets T)"
        using None range by (simp_all add: ahead_def later_buckets_def IsEnd_def)
      then show ?thesis
        using None "1.prems" range 1
        by (simp add: moved_def MoveNext_loop.simps [of T it] Let_def iter_ok_def c_numDataPerEntry_def)
    next
      case 2
      then have in_t: "\<not> IsEnd T ?next" "in_table T ?next"
        using range by (simp_all add: IsEnd_def in_table_def)
      note nb = iter_ok_next_bucket [OF "1.prems"(1) None 2]
      have "moved T (ahead T (?next\<lparr>m_currentEntry := Some 0\<rparr>)) (MoveNext_loop T (?next\<lparr>m_currentEntry := Some 0\<rparr>))"
        by (rule "1.IH"(1) [OF None refl in_t]) (use nb in_t in \<open>simp_all add: IsEnd_def\<close>)
      then show ?thesis
        using nb None in_t by (simp add: MoveNext_loop.simps [of T it] Let_def)
    qed
  next
    case (Some j)
    obtain d where d: "current_data T it j = Inr d"
      "ahead T it = (case d of None \<Rightarrow> [] | Some a \<Rightarrow> [a]) @ ahead T (MoveToNextData T it)"
      "iter_ok T (MoveToNextData T it)"
      using current_data_ahead [OF "1.prems"(1) Some] by blast
    show ?thesis
    proof (cases d)
      case None
      let ?it = "it\<lparr>m_currentRecord := None\<rparr>"
      have nxt: "iter_ok T (MoveToNextData T ?it)" "ahead T (MoveToNextData T ?it) = ahead T it"
        using d(2,3) None by (auto simp: MoveToNextData_record)
      have "\<not> IsEnd T (MoveToNextData T ?it)"
        using "1.prems"(2) by (simp add: IsEnd_def MoveToNextData_def Let_def)
      have "moved T (ahead T (MoveToNextData T ?it)) (MoveNext_loop T (MoveToNextData T ?it))"
        using "1.IH"(2) [OF Some d(1) None nxt(1)] \<open>\<not> IsEnd T (MoveToNextData T ?it)\<close> by blast
      then show ?thesis
        using nxt d(1) Some None by (simp add: MoveNext_loop.simps [of T it])
    next
      case (Some a)
      have "in_table T it"
        using "1.prems" \<open>m_currentEntry it = Some j\<close> by (simp add: iter_ok_def)
      then show ?thesis
        using Some \<open>m_currentEntry it = Some j\<close> d "1.prems"
        by (simp add: moved_def MoveNext_loop.simps [of T it] IsValid_def IsEnd_def in_table_def
            exI [of _ "it\<lparr>m_currentRecord := Some a\<rparr>"] MoveToNextData_record)
    qed
  qed
qed

section \<open>Iterating over a table\<close>

text \<open>The data pointers that the next moves will come to.\<close>

definition pending :: "SharedHashTable \<Rightarrow> Iterator \<Rightarrow> addr list" where
  "pending T it = ahead T (if m_currentEntry it \<noteq> None then MoveToNextData T it else it)"

lemma MoveNext_moved:
  assumes ok: "iter_ok T it"
  shows "moved T (pending T it) (MoveNext T it)"
proof (cases "IsEnd T it")
  case True
  then have None: "m_currentEntry it = None" and "\<not> in_table T it"
    using ok by (auto simp: iter_ok_def IsEnd_def in_table_def split: option.splits)
  have "pending T it = []"
    using True by (simp add: pending_def None ahead_def later_buckets_def IsEnd_def)
  then show ?thesis
    using True None ok by (auto simp: moved_def MoveNext_def)
next
  case False
  let ?it = "if m_currentEntry it \<noteq> None then MoveToNextData T it else it"
  have "iter_ok T ?it"
    using ok current_data_ahead [OF ok] by (cases "m_currentEntry it") auto
  moreover have "\<not> IsEnd T ?it"
    using False by (simp add: IsEnd_def MoveToNextData_def Let_def)
  moreover have "MoveNext T it = MoveNext_loop T ?it"
    using False \<open>iter_ok T ?it\<close> by (auto simp: MoveNext_def Let_def iter_ok_def)
  ultimately show ?thesis
    using MoveNext_loop_moved [of T ?it] by (simp add: pending_def)
qed

text \<open>
  A client's loop: move, read key and value, until \<open>MoveNext\<close> returns false.
\<close>

function iterate :: "RecordSerializer \<Rightarrow> memory \<Rightarrow> SharedHashTable \<Rightarrow> Iterator \<Rightarrow> (Key \<times> Value) list res" where
  "iterate rs h T it = (case MoveNext T it of
     Inl e \<Rightarrow> Inl e
   | Inr (found, it') \<Rightarrow>
       if \<not> found then Inr []
       else bind_res (GetKey rs h T it') (\<lambda>key. bind_res (GetValue rs h T it') (\<lambda>value.
         bind_res (iterate rs h T it') (\<lambda>kvs. Inr ((key, value) # kvs)))))"
  by pat_completeness auto
termination
  by (relation "inv_image iter_less (\<lambda>(rs, h, T, it). iter_dist T it)") (auto intro: MoveNext_dist)

declare iterate.simps [simp del]

lemma GetRecord_valid:
  "IsValid T it \<Longrightarrow> m_currentRecord it = Some a \<Longrightarrow> GetRecord rs h T it = load_record rs h a"
  by (simp add: GetRecord_def)

lemma iterate_pending:
  "iter_ok T it \<Longrightarrow> \<forall>a\<in>set (pending T it). \<exists>r. load_record rs h a = Inr r \<Longrightarrow>
    iterate rs h T it = Inr (concat (map (rec_of rs h) (pending T it)))"
proof (induction "pending T it" arbitrary: it)
  case Nil
  then show ?case
    using MoveNext_moved [OF Nil.prems(1)] by (auto simp: moved_def iterate.simps [of rs h T it])
next
  case (Cons a rest)
  obtain it' where move: "MoveNext T it = Inr (True, it')" "iter_ok T it'" "IsValid T it'"
      "m_currentRecord it' = Some a" "ahead T (MoveToNextData T it') = rest"
    using MoveNext_moved [OF Cons.prems(1)] Cons.hyps(2) [symmetric] by (auto simp: moved_def)
  then have rest: "rest = pending T it'"
    by (auto simp: pending_def IsValid_def)
  obtain r where r: "load_record rs h a = Inr r"
    using Cons.prems(2) Cons.hyps(2) [symmetric] by auto
  have "iterate rs h T it' = Inr (concat (map (rec_of rs h) rest))"
    using Cons.hyps(1) [OF rest move(2)] Cons.prems(2) Cons.hyps(2) [symmetric] rest by simp
  then show ?case
    using move(1) r GetRecord_valid [OF move(3,4)] Cons.hyps(2) [symmetric]
    by (simp add: iterate.simps [of rs h T it] GetKey_def GetValue_def rec_of_load)
qed

lemma concat_concat_map: "concat (map f (concat xss)) = concat (map (\<lambda>xs. concat (map f xs)) xss)"
  by (induction xss) simp_all

lemma table_kvs_addrs: "table_kvs rs h T = concat (map (rec_of rs h) (table_addrs T))"
proof -
  have "bucket_kvs rs h = (\<lambda>es. concat (map (rec_of rs h) (slot_addrs (chain_slots es))))"
    by (rule ext) (simp add: bucket_kvs_def slots_kvs_def)
  then show ?thesis
    by (simp add: table_kvs_def table_addrs_def concat_concat_map comp_def)
qed

text \<open>No key is in two buckets, so the keys of a table are distinct.\<close>

lemma distinct_concat_map:
  "(\<And>i. i < length bs \<Longrightarrow> distinct (map fst (f (bs ! i))) \<and> (\<forall>k\<in>fst ` set (f (bs ! i)). g k = c + i)) \<Longrightarrow>
    distinct (map fst (concat (map f bs)))"
proof (induction bs arbitrary: c)
  case Nil
  then show ?case by simp
next
  case (Cons b bs)
  have here: "distinct (map fst (f b))" "\<forall>k\<in>fst ` set (f b). g k = c"
    using Cons.prems [of 0] by auto
  have later: "distinct (map fst (f (bs ! i))) \<and> (\<forall>k\<in>fst ` set (f (bs ! i)). g k = Suc c + i)"
    if "i < length bs" for i
    using Cons.prems [of "Suc i"] that by simp
  have "c < g k" if k: "k \<in> fst ` set (concat (map f bs))" for k
  proof -
    obtain x where "x \<in> set bs" "k \<in> fst ` set (f x)"
      using k by auto
    then obtain i where "i < length bs" "k \<in> fst ` set (f (bs ! i))"
      by (metis in_set_conv_nth)
    then have "g k = Suc c + i"
      using later by blast
    then show ?thesis by simp
  qed
  then have "fst ` set (f b) \<inter> fst ` set (concat (map f bs)) = {}"
    using here(2) by fastforce
  then show ?case
    using here(1) Cons.IH [OF later] by simp
qed

lemma distinct_table_kvs:
  assumes "table_ok rs W"
  shows "distinct (map fst (table_kvs rs (heap W) (table W)))"
  unfolding table_kvs_def
proof (rule distinct_concat_map [where g = "key_bucket (table W)" and c = 0], intro conjI ballI)
  fix i k
  assume i: "i < length (m_buckets (table W))"
  note ok = table_ok_bucket [OF assms i]
  show "distinct (map fst (bucket_kvs rs (heap W) (m_buckets (table W) ! i)))"
    using ok by (simp add: bucket_ok_def)
  show "key_bucket (table W) k = 0 + i"
    if "k \<in> fst ` set (bucket_kvs rs (heap W) (m_buckets (table W) ! i))"
    using bucket_keys [OF ok that] by simp
qed

text \<open>A fresh iterator, and a reset one, has the whole table before it.\<close>

definition at_start :: "Iterator \<Rightarrow> bool" where
  "at_start it \<longleftrightarrow> m_currentBucketIndex it = -1 \<and> m_currentRecordIndex it = 0 \<and> m_currentEntry it = None"

lemma at_start [simp]: "at_start (Iterator_new junk)" "at_start (Reset it)"
  by (simp_all add: at_start_def Iterator_new_def Reset_def)

lemma iter_ok_start: "chains_ok T \<Longrightarrow> at_start it \<Longrightarrow> iter_ok T it \<and> pending T it = table_addrs T"
  by (simp add: at_start_def iter_ok_def pending_def ahead_def later_buckets_def table_addrs_def c_numDataPerEntry_def)

lemma table_ok_chains: "table_ok rs W \<Longrightarrow> chains_ok (table W)"
  by (auto simp: table_ok_def bucket_ok_def chains_ok_def in_set_conv_nth)

lemma table_ok_load: "table_ok rs W \<Longrightarrow> a \<in> set (table_addrs (table W)) \<Longrightarrow> \<exists>r. load_record rs (heap W) a = Inr r"
  by (metis bucket_slot in_set_conv_nth in_slot_addrs in_table_addrs table_ok_bucket)

lemma iterate_table:
  assumes ok: "table_ok rs W" and it: "at_start it"
  shows "iterate rs (heap W) (table W) it = Inr (table_kvs rs (heap W) (table W))"
  using iterate_pending [of "table W" it rs "heap W"] iter_ok_start [OF table_ok_chains [OF ok] it] table_ok_load [OF ok]
  by (simp add: table_kvs_addrs)

section \<open>Properties\<close>

text \<open>C23: An iterator over a well-formed table, fresh or reset, gives every record of the table
  exactly once: its keys are distinct, and the pairs of keys and values it gives are the abstract
  map. In particular it ends, and throws nothing.
\<close>

theorem iterate_visits_all_once:
  assumes "table_ok rs W" and "it = Iterator_new junk \<or> it = Reset it0"
  shows "\<exists>kvs. iterate rs (heap W) (table W) it = Inr kvs \<and> distinct (map fst kvs) \<and>
    map_of kvs = table_map rs W \<and> length kvs = card (dom (table_map rs W))"
proof -
  let ?kvs = "table_kvs rs (heap W) (table W)"
  have "at_start it"
    using assms(2) by auto
  then have "iterate rs (heap W) (table W) it = Inr ?kvs"
    by (rule iterate_table [OF assms(1)])
  moreover have d: "distinct (map fst ?kvs)"
    by (rule distinct_table_kvs [OF assms(1)])
  moreover have "length ?kvs = card (dom (table_map rs W))"
    using distinct_card [OF d] by (simp add: table_map_def dom_map_of_conv_image_fst)
  ultimately show ?thesis
    by (auto simp: table_map_def)
qed

lemma iterate_visits_all_once_witness:
  "\<exists>kvs. iterate demo_rs (heap (put_record demo_rs first_fit queue_reg demo_world [1] [2]))
      (table (put_record demo_rs first_fit queue_reg demo_world [1] [2])) (Iterator_new None) = Inr kvs \<and>
    distinct (map fst kvs) \<and> map_of kvs = [[1] \<mapsto> [2]]"
  using iterate_visits_all_once [of demo_rs "put_record demo_rs first_fit queue_reg demo_world [1] [2]"
      "Iterator_new None" None undefined] demo_filled [of "[1]" "[2]"]
  by (auto simp: valid_key_def valid_value_def)

text \<open>Reading the key or the value of an iterator that is not at a record throws: before the first
  move, after a reset, and once \<open>MoveNext\<close> has returned false; and \<open>MoveNext\<close> stays false then.
\<close>

theorem iterator_misuse_throws:
  assumes "it = Iterator_new junk \<or> it = Reset it0 \<or> (iter_ok T it1 \<and> MoveNext T it1 = Inr (False, it))"
  shows "GetKey rs h T it = Inl (RuntimeException ''HashTableIterator is not correctly used.'') \<and>
    GetValue rs h T it = Inl (RuntimeException ''HashTableIterator is not correctly used.'') \<and>
    (\<forall>it1. iter_ok T it1 \<and> MoveNext T it1 = Inr (False, it) \<longrightarrow> MoveNext T it = Inr (False, it))"
proof -
  have last: "\<not> IsValid T it \<and> IsEnd T it" if "iter_ok T it1" "MoveNext T it1 = Inr (False, it)" for it1
    using MoveNext_moved [OF that(1)] that(2)
    by (cases "pending T it1") (auto simp: moved_def IsValid_def)
  have "\<not> IsValid T it"
    using assms last by (auto simp: IsValid_def Iterator_new_def Reset_def)
  moreover have "MoveNext T it = Inr (False, it)" if "iter_ok T it1" "MoveNext T it1 = Inr (False, it)" for it1
    using last [OF that] by (simp add: MoveNext_def)
  ultimately show ?thesis
    by (auto simp: GetKey_def GetValue_def GetRecord_def)
qed

lemma iterator_misuse_throws_witness:
  "GetKey demo_rs (heap demo_world) (table demo_world) (Iterator_new None) =
    Inl (RuntimeException ''HashTableIterator is not correctly used.'')"
  using iterator_misuse_throws [of "Iterator_new None" None undefined "table demo_world" undefined demo_rs "heap demo_world"]
  by simp

end
