(* ===== verification/L4_Serializer.thy ===== *)
theory L4_Serializer
  imports L4_Iterator L4_TablePerf
begin

text \<open>
  Saving a table to a stream and loading it back: \<open>inc/L4/HashTable/ReadWrite/Serializer.h\<close> with the
  helpers of \<open>inc/L4/Serialization/SerializerHelper.h\<close>. An output stream is the list of the bytes
  written so far; an input stream has the bytes that are left and the state of
  \<open>std::istream\<close>. The theory holds the definitions and what each loop computes; the properties of
  the whole are in \<open>L4_SerializerProps\<close>.
\<close>

section \<open>Streams and helpers\<close>

definition SerializerHelper_Serialize :: "u8 list \<Rightarrow> u8 list \<Rightarrow> u8 list" where
  "SerializerHelper_Serialize data stream = stream @ data"

text \<open>
  \<open>std::istream::read\<close> into a buffer with the bytes \<open>old\<close>: on a stream that is not good nothing is
  read; if fewer bytes are left than asked for, those are read and the stream stops being good.
  The bytes of the buffer that are not read keep their values.
\<close>

record IStream =
  s_data :: "u8 list"
  s_good :: bool

definition DeserializerHelper_Deserialize :: "u8 list \<Rightarrow> IStream \<Rightarrow> u8 list \<times> IStream" where
  "DeserializerHelper_Deserialize old s =
     (if \<not> s_good s then (old, s)
      else if length old \<le> length (s_data s)
      then (take (length old) (s_data s), s\<lparr>s_data := drop (length old) (s_data s)\<rparr>)
      else (s_data s @ drop (length (s_data s)) old, \<lparr>s_data = [], s_good = False\<rparr>))"

text \<open>The object representation of a setting: two bytes of padding, of any value, follow the key size.\<close>

definition setting_bytes :: "u8 list \<Rightarrow> Setting \<Rightarrow> u8 list" where
  "setting_bytes padding s = le_bytes 4 (m_numBuckets s) @ le_bytes 4 (m_numBucketsPerMutex s) @
     le_bytes 2 (s_fixedKeySize s) @ padding @ le_bytes 4 (s_fixedValueSize s)"

definition bytes_setting :: "u8 list \<Rightarrow> Setting" where
  "bytes_setting bs = \<lparr>m_numBuckets = le_word (take 4 bs), m_numBucketsPerMutex = le_word (take 4 (drop 4 bs)),
     s_fixedKeySize = le_word (take 2 (drop 8 bs)), s_fixedValueSize = le_word (take 4 (drop 12 bs))\<rparr>"

definition c_version :: u8 where
  "c_version = 1"

section \<open>Saving\<close>

definition write_record :: "Key \<Rightarrow> Value \<Rightarrow> u8 list \<Rightarrow> u8 list" where
  "write_record key value stream =
     (let stream = SerializerHelper_Serialize (le_bytes 2 (ksize key)) stream;
          stream = SerializerHelper_Serialize key stream;
          stream = SerializerHelper_Serialize (le_bytes 4 (vsize value)) stream
      in SerializerHelper_Serialize value stream)"

text \<open>The loop over the iterator. A flag, the object representation of \<open>true\<close>, precedes a record.\<close>

function save_loop :: "RecordSerializer \<Rightarrow> memory \<Rightarrow> SharedHashTable \<Rightarrow> Iterator \<Rightarrow> u8 list \<Rightarrow>
    HashTablePerfData \<Rightarrow> unit res \<times> u8 list \<times> HashTablePerfData" where
  "save_loop rs h T it stream pd = (case MoveNext T it of
     Inl e \<Rightarrow> (Inl e, stream, pd)
   | Inr (found, it') \<Rightarrow>
       if \<not> found then (Inr (), stream, pd)
       else
         let stream = SerializerHelper_Serialize [1] stream
         in case bind_res (GetKey rs h T it') (\<lambda>key. bind_res (GetValue rs h T it') (\<lambda>value. Inr (key, value))) of
              Inl e \<Rightarrow> (Inl e, stream, pd)
            | Inr (key, value) \<Rightarrow> save_loop rs h T it' (write_record key value stream)
                (pc_Increment pd RecordsCountSavedFromSerializer))"
  by pat_completeness auto
termination
  by (relation "inv_image iter_less (\<lambda>(rs, h, T, it, stream, pd). iter_dist T it)") (auto intro: MoveNext_dist)

declare save_loop.simps [simp del]

text \<open>\<open>Current::Serializer::Serialize\<close>; the driver \<open>Serializer::Serialize\<close> calls nothing else.\<close>

definition Serializer_Serialize ::
  "u8 list \<Rightarrow> addr option \<Rightarrow> 'e World \<Rightarrow> u8 list \<Rightarrow> unit res \<times> u8 list \<times> 'e World" where
  "Serializer_Serialize padding junk W stream =
     (let T = table W;
          pd = pc_Set (m_perfData T) RecordsCountSavedFromSerializer 0;
          stream = SerializerHelper_Serialize (le_bytes 1 c_version) stream;
          stream = SerializerHelper_Serialize (setting_bytes padding (m_setting T)) stream;
          (r, stream, pd) = save_loop (default_serializer T) (heap W) T (Iterator_new junk) stream pd;
          stream = (case r of Inl e \<Rightarrow> stream | Inr _ \<Rightarrow> SerializerHelper_Serialize [0] stream)
      in (r, stream, W\<lparr>table := T\<lparr>m_perfData := pd\<rparr>\<rparr>))"

section \<open>Loading\<close>

text \<open>The action manager of the deserializer.\<close>

definition no_register :: "unit reg" where
  "no_register a m = (Inl (RuntimeException ''RegisterAction() should not be called from the serializer.''), m)"

definition vector_resize :: "nat \<Rightarrow> u8 list \<Rightarrow> u8 list" where
  "vector_resize n v = take n v @ replicate (n - length v) 0"

text \<open>
  Reading the flag \<open>hasMoreData\<close>, whose current value is \<open>b\<close>. A byte other than 0 and 1 is not a
  \<open>bool\<close>, so using it is undefined.
\<close>

definition read_flag :: "bool \<Rightarrow> IStream \<Rightarrow> bool res \<times> IStream" where
  "read_flag b s =
     (let (bs, s) = DeserializerHelper_Deserialize [if b then 1 else 0] s
      in (if bs = [0] then Inr False else if bs = [1] then Inr True else Inl BadAccess, s))"

text \<open>One record: the sizes are initially 0, the buffers keep what they held.\<close>

definition read_record :: "u8 list \<Rightarrow> u8 list \<Rightarrow> IStream \<Rightarrow> Key \<times> Value \<times> IStream" where
  "read_record keyBuffer valueBuffer s =
     (let (ks, s) = DeserializerHelper_Deserialize (le_bytes 2 (0 :: u16)) s;
          (key, s) = DeserializerHelper_Deserialize (vector_resize (unat (le_word ks :: u16)) keyBuffer) s;
          (vs, s) = DeserializerHelper_Deserialize (le_bytes 4 (0 :: u32)) s;
          (val, s) = DeserializerHelper_Deserialize (vector_resize (unat (le_word vs :: u32)) valueBuffer) s
      in (key, val, s))"

definition count_loaded :: "'e World \<Rightarrow> 'e World" where
  "count_loaded W = W\<lparr>table := (table W)\<lparr>m_perfData :=
     pc_Increment (m_perfData (table W)) RecordsCountLoadedFromSerializer\<rparr>\<rparr>"

text \<open>
  The loop of \<open>Deserialize\<close>. Nothing in the code bounds it, so it has fuel; the result is none when
  the fuel is used up, and \<open>load_loop_total\<close> says how much is enough.
\<close>

fun load_loop :: "nat \<Rightarrow> RecordSerializer \<Rightarrow> allocator \<Rightarrow> bool \<Rightarrow> u8 list \<Rightarrow> u8 list \<Rightarrow> IStream \<Rightarrow>
    unit World \<Rightarrow> (unit res \<times> unit World) option" where
  "load_loop 0 rs alloc hasMoreData kb vb s W = None"
| "load_loop (Suc fuel) rs alloc hasMoreData kb vb s W =
     (if \<not> hasMoreData then Some (Inr (), W)
      else
        let (key, val, s) = read_record kb vb s
        in case Add rs alloc no_register W key val of
             (Inl e, W) \<Rightarrow> Some (Inl e, W)
           | (Inr _, W) \<Rightarrow> (case read_flag hasMoreData s of
               (Inl e, s) \<Rightarrow> Some (Inl e, W)
             | (Inr flag, s) \<Rightarrow> load_loop fuel rs alloc flag key val s (count_loaded W)))"

text \<open>
  \<open>Current::Deserializer::Deserialize\<close>: the table with the heap its buffers live in. An exception
  unwinds the unique pointer to the table, so its records are deleted.
\<close>

definition Current_Deserialize :: "nat \<Rightarrow> nat \<Rightarrow> nat \<Rightarrow> allocator \<Rightarrow> memory \<Rightarrow> IStream \<Rightarrow>
    (SharedHashTable res \<times> memory) option" where
  "Current_Deserialize fuel sizeof_Mutex sizeof_Table alloc h s =
     (let (bs, s) = DeserializerHelper_Deserialize (setting_bytes [0, 0] default_Setting) s;
          T = SharedHashTable_new sizeof_Mutex sizeof_Table (bytes_setting bs);
          (flag, s) = read_flag False s
      in case (case flag of Inl e \<Rightarrow> Some (Inl e, \<lparr>heap = h, table = T, manager = ()\<rparr>)
               | Inr flag \<Rightarrow> load_loop fuel (default_serializer T) alloc flag [] [] s
                   \<lparr>heap = h, table = T, manager = ()\<rparr>) of
           None \<Rightarrow> None
         | Some (Inr _, W) \<Rightarrow> Some (Inr (table W), heap W)
         | Some (Inl e, W) \<Rightarrow> (case SharedHashTable_destroy (table W) (heap W) of
               Inl e' \<Rightarrow> Some (Inl e', heap W)
             | Inr h \<Rightarrow> Some (Inl e, h)))"

text \<open>
  The driver. The message names the version as boost's \<open>%1%\<close> formats a \<open>std::uint8_t\<close>, as a character;
  \<open>RuntimeException\<close> takes the message as a C string.
\<close>

definition unsupported_version :: "u8 \<Rightarrow> string" where
  "unsupported_version v = ''Unsupported version '' @ [CHR 0x27, char_of (unat v), CHR 0x27] @ '' is given.''"

definition Deserializer_Deserialize :: "nat \<Rightarrow> nat \<Rightarrow> nat \<Rightarrow> allocator \<Rightarrow> memory \<Rightarrow> IStream \<Rightarrow>
    (SharedHashTable res \<times> memory) option" where
  "Deserializer_Deserialize fuel sizeof_Mutex sizeof_Table alloc h s =
     (let (v, s) = DeserializerHelper_Deserialize (le_bytes 1 (0 :: u8)) s;
          version = le_word v
      in if version = c_version then Current_Deserialize fuel sizeof_Mutex sizeof_Table alloc h s
         else Some (Inl (RuntimeException (c_str (unsupported_version version))), h))"

section \<open>Reading what was written\<close>

lemma read_written [simp]:
  "length old = length bs \<Longrightarrow> DeserializerHelper_Deserialize old \<lparr>s_data = bs @ rest, s_good = True\<rparr> =
    (bs, \<lparr>s_data = rest, s_good = True\<rparr>)"
  by (simp add: DeserializerHelper_Deserialize_def)

lemma read_bad [simp]: "\<not> s_good s \<Longrightarrow> DeserializerHelper_Deserialize old s = (old, s)"
  by (simp add: DeserializerHelper_Deserialize_def)

lemma length_vector_resize [simp]: "length (vector_resize n v) = n"
  by (simp add: vector_resize_def)

lemma length_setting_bytes [simp]: "length (setting_bytes p s) = 14 + length p"
  by (simp add: setting_bytes_def)

lemma bytes_setting_bytes:
  assumes "length padding = 2"
  shows "bytes_setting (setting_bytes padding s) = s"
  using assms by (simp add: bytes_setting_def setting_bytes_def le_word_le_bytes)

text \<open>The stream of records: each with its flag, and the flag at the end.\<close>

definition record_stream :: "Key \<Rightarrow> Value \<Rightarrow> u8 list" where
  "record_stream k v = le_bytes 2 (ksize k) @ k @ le_bytes 4 (vsize v) @ v"

fun records_stream :: "(Key \<times> Value) list \<Rightarrow> u8 list" where
  "records_stream [] = []"
| "records_stream ((k, v) # kvs) = 1 # record_stream k v @ records_stream kvs"

lemma write_record_eq: "write_record k v stream = stream @ record_stream k v"
  by (simp add: write_record_def SerializerHelper_Serialize_def record_stream_def)

lemma save_loop_iterate:
  "iterate rs h T it = Inr kvs \<Longrightarrow> save_loop rs h T it stream pd =
    (Inr (), stream @ records_stream kvs, ((\<lambda>pd. pc_Increment pd RecordsCountSavedFromSerializer) ^^ length kvs) pd)"
proof (induction rs h T it arbitrary: kvs stream pd rule: iterate.induct)
  case (1 rs h T it)
  obtain found it' where move: "MoveNext T it = Inr (found, it')"
    using "1.prems" by (cases "MoveNext T it") (auto simp: iterate.simps [of rs h T it])
  show ?case
  proof (cases found)
    case False
    then show ?thesis
      using "1.prems" move by (auto simp: iterate.simps [of rs h T it] save_loop.simps [of rs h T it])
  next
    case True
    then obtain k v kvs' where kv: "GetKey rs h T it' = Inr k" "GetValue rs h T it' = Inr v"
        "iterate rs h T it' = Inr kvs'" "kvs = (k, v) # kvs'"
      using "1.prems" move by (auto simp: iterate.simps [of rs h T it] bind_res_Inr_iff)
    note IH = "1.IH" [OF move refl _ kv(3)]
    show ?thesis
      using IH True move kv
      by (simp add: save_loop.simps [of rs h T it] write_record_eq SerializerHelper_Serialize_def funpow_Suc_right del: funpow.simps(2))
  qed
qed

lemma funpow_Increment: "((\<lambda>pd. pc_Increment pd c) ^^ n) pd = pd(c := pd c + of_nat n)"
  by (induction n) (auto simp: pc_Increment_def fun_eq_iff algebra_simps)

section \<open>What loading reads\<close>

lemma read_record_written:
  assumes "valid_key k" "valid_value v"
  shows "read_record kb vb \<lparr>s_data = record_stream k v @ rest, s_good = True\<rparr> = (k, v, \<lparr>s_data = rest, s_good = True\<rparr>)"
  using assms
  by (simp add: read_record_def record_stream_def le_word_le_bytes unat_ksize unat_vsize)

lemma read_props:
  assumes "DeserializerHelper_Deserialize old s = (bs, s')"
  shows "length bs = length old" "length (s_data s') \<le> length (s_data s)"
    "s_good s' \<Longrightarrow> s_good s \<and> length (s_data s) = length old + length (s_data s')"
  using assms by (auto simp: DeserializerHelper_Deserialize_def split: if_splits)

lemma read_record_props:
  assumes "read_record kb vb s = (k, v, s')"
  shows "valid_key k" "valid_value v" "s_good s' \<Longrightarrow> s_good s \<and> length (s_data s') < length (s_data s)"
    "length (s_data s') \<le> length (s_data s)"
proof -
  obtain ks s1 where 1: "DeserializerHelper_Deserialize (le_bytes 2 (0 :: u16)) s = (ks, s1)"
    by (meson surj_pair)
  obtain k' s2 where 2: "DeserializerHelper_Deserialize (vector_resize (unat (le_word ks :: u16)) kb) s1 = (k', s2)"
    by (meson surj_pair)
  obtain vs s3 where 3: "DeserializerHelper_Deserialize (le_bytes 4 (0 :: u32)) s2 = (vs, s3)"
    by (meson surj_pair)
  obtain v' s4 where 4: "DeserializerHelper_Deserialize (vector_resize (unat (le_word vs :: u32)) vb) s3 = (v', s4)"
    by (meson surj_pair)
  have eq: "k' = k" "v' = v" "s4 = s'"
    using assms 1 2 3 4 by (simp_all add: read_record_def)
  show "valid_key k" "valid_value v"
    using read_props(1) [OF 2] read_props(1) [OF 4] unsigned_less [of "le_word ks :: u16"]
      unsigned_less [of "le_word vs :: u32"] by (simp_all add: valid_key_def valid_value_def eq)
  show "s_good s' \<Longrightarrow> s_good s \<and> length (s_data s') < length (s_data s)"
    using read_props(3) [OF 1] read_props(3) [OF 2] read_props(3) [OF 3] read_props(3) [OF 4] by (simp add: eq)
  show "length (s_data s') \<le> length (s_data s)"
    using read_props(2) [OF 1] read_props(2) [OF 2] read_props(2) [OF 3] read_props(2) [OF 4] by (simp add: eq)
qed

text \<open>Reading the flag: what the stream holds, or, on a stream that has ended, the flag as it was.\<close>

lemma read_flag_simps [simp]:
  "\<not> s_good s \<Longrightarrow> read_flag b s = (Inr b, s)"
  "read_flag b \<lparr>s_data = [], s_good = True\<rparr> = (Inr b, \<lparr>s_data = [], s_good = False\<rparr>)"
  "read_flag b \<lparr>s_data = x # rest, s_good = True\<rparr> = (if x = 0 then Inr False else if x = 1 then Inr True else Inl BadAccess,
    \<lparr>s_data = rest, s_good = True\<rparr>)"
  by (auto simp: read_flag_def DeserializerHelper_Deserialize_def)

lemma read_flag_props:
  assumes "read_flag b s = (r, s')"
  shows "length (s_data s') \<le> length (s_data s)" "\<not> s_good s' \<Longrightarrow> r = Inr b"
  using assms by (cases "s_data s"; auto simp: read_flag_def DeserializerHelper_Deserialize_def Let_def split: if_splits)+

end
