(* ===== verification/L4_Metadata.thy ===== *)
theory L4_Metadata
  imports L4_Prelude
begin

text \<open>
  The metadata of a cached record, \<open>inc/L4/HashTable/Cache/Metadata.h\<close>: four bytes in front of the
  value, that hold the time the record was made in seconds, 31 bits wide, and in the most
  significant bit whether the record was accessed recently. The class is a pointer to the bytes;
  here they are a list, and an update returns the new bytes. \<open>std::chrono::seconds\<close> is a signed
  64-bit integer.
\<close>

type_synonym seconds = "64 word"

definition s_accessBitByte :: nat where
  "s_accessBitByte = 3"

definition s_accessSetMask :: u8 where
  "s_accessSetMask = push_bit 7 1"

definition s_accessUnsetMask :: u8 where
  "s_accessUnsetMask = s_accessSetMask XOR 0xFF"

definition s_epochTimeMask :: u32 where
  "s_epochTimeMask = 0x7FFFFFFF"

definition c_metaDataSize :: nat where
  "c_metaDataSize = 4"

text \<open>The constructor that stores the time, in the object representation of a \<open>std::uint32_t\<close>.\<close>

definition Metadata_new :: "seconds \<Rightarrow> u8 list" where
  "Metadata_new curEpochTime = le_bytes 4 (ucast (curEpochTime AND ucast s_epochTimeMask) :: u32)"

definition GetEpochTime :: "u8 list \<Rightarrow> seconds" where
  "GetEpochTime md = ucast ((le_word md :: u32) AND s_epochTimeMask)"

definition IsExpired :: "u8 list \<Rightarrow> seconds \<Rightarrow> seconds \<Rightarrow> bool res" where
  "IsExpired md curEpochTime timeToLive =
     (if sint curEpochTime < sint (GetEpochTime md)
      then Inl (AssertFailed ''curEpochTime >= GetEpochTime()'')
      else Inr (sint timeToLive < sint (curEpochTime - GetEpochTime md)))"

definition IsAccessed :: "u8 list \<Rightarrow> bool" where
  "IsAccessed md \<longleftrightarrow> (md ! s_accessBitByte) AND s_accessSetMask \<noteq> 0"

definition UpdateAccessStatus :: "bool \<Rightarrow> u8 list \<Rightarrow> bool \<times> u8 list" where
  "UpdateAccessStatus turnOn md =
     (let isAccessBitOn = IsAccessed md
      in (isAccessBitOn,
          if turnOn \<noteq> isAccessBitOn then
            md[s_accessBitByte := (if turnOn then (md ! s_accessBitByte) OR s_accessSetMask
                                   else (md ! s_accessBitByte) AND s_accessUnsetMask)]
          else md))"

lemmas metadata_masks = s_accessBitByte_def s_accessSetMask_def s_accessUnsetMask_def s_epochTimeMask_def

section \<open>The bits of the metadata\<close>

lemma bit_epochTimeMask: "bit s_epochTimeMask i \<longleftrightarrow> i < 31"
proof -
  have "s_epochTimeMask = mask 31"
    by (simp add: s_epochTimeMask_def mask_eq_exp_minus_1)
  then show ?thesis
    by (simp only: \<open>s_epochTimeMask = mask 31\<close> bit_mask_iff) auto
qed

lemma bit_accessSetMask: "bit s_accessSetMask i \<longleftrightarrow> i = 7"
  by (simp only: s_accessSetMask_def bit_push_bit_iff bit_1_iff) auto

lemma bit_accessUnsetMask: "bit s_accessUnsetMask i \<longleftrightarrow> i < 7"
proof -
  have "s_accessUnsetMask = mask 7"
    by (simp add: s_accessUnsetMask_def s_accessSetMask_def mask_eq_exp_minus_1)
  then show ?thesis
    by (simp only: \<open>s_accessUnsetMask = mask 7\<close> bit_mask_iff) auto
qed

lemma IsAccessed_bit: "IsAccessed md \<longleftrightarrow> bit (md ! 3) 7"
proof -
  have "IsAccessed md \<longleftrightarrow> (\<exists>i. bit ((md ! 3) AND s_accessSetMask) i)"
    using bit_imp_le_length [of "(md ! 3) AND s_accessSetMask"]
    by (fastforce simp: IsAccessed_def s_accessBitByte_def bit_eq_iff)
  then show ?thesis
    by (auto simp: bit_simps bit_accessSetMask)
qed

lemma length_UpdateAccessStatus [simp]: "length (snd (UpdateAccessStatus b md)) = length md"
  by (simp add: UpdateAccessStatus_def Let_def)

lemma fst_UpdateAccessStatus [simp]: "fst (UpdateAccessStatus b md) = IsAccessed md"
  by (simp add: UpdateAccessStatus_def Let_def)

text \<open>The byte of the access bit after an update, and the bytes that an update does not touch.\<close>

lemma UpdateAccessStatus_byte:
  assumes "length md = 4"
  shows "bit (snd (UpdateAccessStatus b md) ! 3) i = (if i = 7 then b else bit (md ! 3) i)"
  using assms
  by (cases "i < 8") (auto simp: UpdateAccessStatus_def Let_def s_accessBitByte_def bit_simps bit_accessSetMask
      bit_accessUnsetMask IsAccessed_bit dest: bit_imp_le_length)

lemma UpdateAccessStatus_other:
  "i \<noteq> 3 \<Longrightarrow> snd (UpdateAccessStatus b md) ! i = md ! i"
  by (simp add: UpdateAccessStatus_def Let_def s_accessBitByte_def)

lemma IsAccessed_UpdateAccessStatus [simp]:
  "length md = 4 \<Longrightarrow> IsAccessed (snd (UpdateAccessStatus b md)) = b"
  by (simp add: IsAccessed_bit UpdateAccessStatus_byte)

lemma GetEpochTime_UpdateAccessStatus [simp]:
  assumes "length md = 4"
  shows "GetEpochTime (snd (UpdateAccessStatus b md)) = GetEpochTime md"
proof -
  have "(le_word (snd (UpdateAccessStatus b md)) :: u32) AND s_epochTimeMask = le_word md AND s_epochTimeMask"
  proof (rule bit_word_eqI)
    fix i
    assume "i < LENGTH(32)"
    show "bit ((le_word (snd (UpdateAccessStatus b md)) :: u32) AND s_epochTimeMask) i =
        bit ((le_word md :: u32) AND s_epochTimeMask) i"
    proof (cases "i < 31")
      case True
      have "bit (snd (UpdateAccessStatus b md) ! (i div 8)) (i mod 8) = bit (md ! (i div 8)) (i mod 8)"
      proof (cases "i div 8 = 3")
        case True
        then have "i mod 8 \<noteq> 7"
          using \<open>i < 31\<close> div_mult_mod_eq [of i 8] by linarith
        then show ?thesis
          using True assms by (simp add: UpdateAccessStatus_byte)
      qed (simp add: UpdateAccessStatus_other)
      then show ?thesis
        using True by (simp add: bit_and_iff bit_le_word)
    qed (simp add: bit_and_iff bit_epochTimeMask)
  qed
  then show ?thesis
    by (simp add: GetEpochTime_def)
qed

lemma IsExpired_UpdateAccessStatus [simp]:
  "length md = 4 \<Longrightarrow> IsExpired (snd (UpdateAccessStatus b md)) = IsExpired md"
  by (intro ext) (simp add: IsExpired_def)

lemma length_Metadata_new [simp]: "length (Metadata_new t) = 4"
  by (simp add: Metadata_new_def)

lemma Metadata_new_word: "(le_word (Metadata_new t) :: u32) = ucast t AND s_epochTimeMask"
proof -
  have "(ucast (t AND ucast s_epochTimeMask) :: u32) = ucast t AND s_epochTimeMask"
    by (rule bit_word_eqI) (simp add: bit_simps)
  then show ?thesis
    by (simp add: Metadata_new_def le_word_le_bytes)
qed

lemma GetEpochTime_new: "unat (GetEpochTime (Metadata_new t)) = unat t mod 2 ^ 31"
proof -
  have "ucast ((ucast t AND s_epochTimeMask) AND s_epochTimeMask) = take_bit 31 t"
    by (rule bit_word_eqI) (auto simp: bit_simps bit_epochTimeMask)
  then have "GetEpochTime (Metadata_new t) = take_bit 31 t"
    by (simp add: GetEpochTime_def Metadata_new_word)
  then show ?thesis
    by (simp only: unsigned_take_bit_eq) (simp only: take_bit_eq_mod)
qed

lemma IsAccessed_new [simp]: "\<not> IsAccessed (Metadata_new t)"
proof -
  have "bit (Metadata_new t ! 3) 7 \<longleftrightarrow> bit (le_word (Metadata_new t) :: u32) 31"
    by (simp add: bit_le_word)
  then show ?thesis
    by (simp add: IsAccessed_bit Metadata_new_word bit_simps bit_epochTimeMask)
qed

section \<open>Times\<close>

lemma sint_small: "uint (x :: seconds) < 2 ^ 63 \<Longrightarrow> sint x = uint x"
  by (simp add: sint_uint signed_take_bit_int_eq_self_iff) (use uint_ge_0 [of x] in linarith)

lemma sint_nonneg:
  assumes "0 \<le> sint (x :: seconds)"
  shows "sint x = uint x" "uint x < 2 ^ 63"
proof -
  have lt: "sint x < 2 ^ 63"
    using sint_lt [of x] by simp
  then have "take_bit 64 (sint x) = sint x"
    using assms by (simp add: take_bit_int_eq_self_iff)
  then show "sint x = uint x"
    by (simp add: uint_sint)
  with lt show "uint x < 2 ^ 63"
    by simp
qed

lemma uint_GetEpochTime: "uint (GetEpochTime md) < 2 ^ 31"
proof -
  have "GetEpochTime md = take_bit 31 (ucast (le_word md :: u32))"
    unfolding GetEpochTime_def by (rule bit_word_eqI) (auto simp: bit_simps bit_epochTimeMask)
  then have "uint (GetEpochTime md) = take_bit 31 (uint (ucast (le_word md :: u32) :: seconds))"
    by (simp only: unsigned_take_bit_eq)
  then show ?thesis
    by (simp only: take_bit_int_less_exp)
qed

lemma sint_GetEpochTime: "sint (GetEpochTime md) = uint (GetEpochTime md)"
  using uint_GetEpochTime [of md] by (intro sint_small) simp

text \<open>When the clock is not behind the record, expiry compares the record's age with the time to live.\<close>

lemma IsExpired_age:
  assumes "sint (GetEpochTime md) \<le> sint cur"
  shows "IsExpired md cur ttl = Inr (sint ttl < sint cur - sint (GetEpochTime md))"
proof -
  have t: "0 \<le> sint (GetEpochTime md)"
    by (simp add: sint_GetEpochTime)
  have c: "uint cur < 2 ^ 63" "sint cur = uint cur"
    using assms t sint_nonneg [of cur] by auto
  have "uint (cur - GetEpochTime md) = uint cur - uint (GetEpochTime md)"
    using assms by (simp add: c(2) sint_GetEpochTime uint_sub_lem)
  moreover have "uint cur - uint (GetEpochTime md) < 2 ^ 63"
    using c uint_ge_0 [of "GetEpochTime md"] by linarith
  ultimately have "sint (cur - GetEpochTime md) = sint cur - sint (GetEpochTime md)"
    using c sint_small [of "cur - GetEpochTime md"] by (simp add: sint_GetEpochTime)
  then show ?thesis
    using assms by (simp add: IsExpired_def)
qed

lemma GetEpochTime_new_small:
  assumes "0 \<le> sint t" "sint t < 2 ^ 31"
  shows "GetEpochTime (Metadata_new t) = t"
proof -
  have "uint t < 2 ^ 31"
    using assms sint_nonneg [of t] by simp
  then have "int (unat t) < int (2 ^ 31)"
    by simp
  then have "unat t < 2 ^ 31"
    by (simp only: of_nat_less_iff)
  then have "unat (GetEpochTime (Metadata_new t)) = unat t"
    by (simp only: GetEpochTime_new mod_less)
  then show ?thesis
    by (simp only: word_unat_eq_iff)
qed

section \<open>Properties\<close>

text \<open>The access bit and the time share the four bytes without disturbing each other: an update
  of the access status returns the old status and stores the new one, keeps the time, and new
  metadata is not accessed and holds the time it was made with, below \<open>2 ^ 31\<close> seconds.\<close>

theorem Metadata_bits:
  assumes "length md = 4"
  shows "fst (UpdateAccessStatus b md) = IsAccessed md \<and> IsAccessed (snd (UpdateAccessStatus b md)) = b \<and>
    GetEpochTime (snd (UpdateAccessStatus b md)) = GetEpochTime md \<and> take 3 (snd (UpdateAccessStatus b md)) = take 3 md \<and>
    (0 \<le> sint t \<longrightarrow> sint t < 2 ^ 31 \<longrightarrow> GetEpochTime (Metadata_new t) = t \<and> \<not> IsAccessed (Metadata_new t))"
proof -
  have "take 3 (snd (UpdateAccessStatus b md)) = take 3 md"
    by (rule nth_equalityI) (auto simp: UpdateAccessStatus_other)
  then show ?thesis
    using assms GetEpochTime_new_small [of t] by simp
qed

lemma Metadata_bits_witness:
  "fst (UpdateAccessStatus False [1, 2, 3, 0x84]) \<and> \<not> IsAccessed (snd (UpdateAccessStatus False [1, 2, 3, 0x84])) \<and>
    GetEpochTime (snd (UpdateAccessStatus False [1, 2, 3, 0x84])) = GetEpochTime [1, 2, 3, 0x84]"
  using Metadata_bits [of "[1, 2, 3, 0x84]" False 0]
  by (simp add: IsAccessed_def s_accessBitByte_def s_accessSetMask_def)

text \<open>C26: with a time to live from 0 to \<open>2 ^ 31 - 1\<close> seconds, a record is expired as soon as it is made exactly when the clock has reached \<open>2 ^ 31\<close> seconds
  after the epoch: the stored time has 31 bits, the clock it is compared with has 64.\<close>

theorem new_record_expired_from_2038:
  assumes "0 \<le> sint t" "0 \<le> sint ttl" "sint ttl < 2 ^ 31"
  shows "IsExpired (Metadata_new t) t ttl = Inr (2 ^ 31 \<le> sint t)"
proof -
  have t: "sint t = uint t"
    using assms(1) sint_nonneg(1) by blast
  have "uint (GetEpochTime (Metadata_new t)) = uint t mod 2 ^ 31"
    using arg_cong [OF GetEpochTime_new [of t], of int] by (simp only: of_nat_mod uint_nat of_nat_power of_nat_numeral)
  then have md: "sint (GetEpochTime (Metadata_new t)) = sint t mod 2 ^ 31"
    by (simp add: sint_GetEpochTime t)
  have "sint t mod 2 ^ 31 \<le> sint t"
    using assms(1) by (simp add: zmod_le_nonneg_dividend)
  then have "IsExpired (Metadata_new t) t ttl = Inr (sint ttl < sint t - sint t mod 2 ^ 31)"
    using IsExpired_age [of "Metadata_new t" t ttl] md by simp
  moreover have "sint ttl < sint t - sint t mod 2 ^ 31 \<longleftrightarrow> 2 ^ 31 \<le> sint t"
  proof (cases "sint t < 2 ^ 31")
    case True
    then show ?thesis
      using assms by simp
  next
    case False
    then have "1 \<le> sint t div 2 ^ 31"
      by simp
    then have "2 ^ 31 \<le> sint t - sint t mod 2 ^ 31"
      by (simp add: minus_mod_eq_mult_div)
    then show ?thesis
      using assms False by simp
  qed
  ultimately show ?thesis
    by simp
qed

lemma new_record_expired_from_2038_witness:
  "IsExpired (Metadata_new 2147483648) 2147483648 3600 = Inr True \<and> IsExpired (Metadata_new 2147483647) 2147483647 3600 = Inr False"
  using new_record_expired_from_2038 [of 2147483648 3600] new_record_expired_from_2038 [of 2147483647 3600] by simp

end
