(* ===== verification/L4_Cache.thy ===== *)
theory L4_Cache
  imports L4_Iterator L4_EpochManager L4_Metadata
begin

text \<open>
  The cache hash table, \<open>inc/L4/HashTable/Cache/HashTable.h\<close>: the table of \<open>ReadWrite/HashTable.h\<close>
  with metadata in front of every value, a bound on its size and a time to live. \<open>Get\<close> marks a
  record as accessed in place; \<open>Add\<close> evicts records by time and with the CLOCK algorithm. The
  theory holds the definitions; the properties are in \<open>L4_CacheProps\<close>.
\<close>

section \<open>State\<close>

text \<open>
  The writable cache table: the world of the table underneath, the constants it was made with and
  the position of the clock hand. The clock is a parameter of the C++ class; every reading of it
  is an argument of the operation here.
\<close>

record 'e Cache =
  base_world :: "'e World"
  m_maxCacheSizeInBytes :: u64
  m_recordTimeToLive :: seconds
  m_forceTimeBasedEviction :: bool
  m_currentEvictBucketIndex :: u64

definition cache_serializer :: "SharedHashTable \<Rightarrow> RecordSerializer" where
  "cache_serializer T = \<lparr>m_fixedKeySize = s_fixedKeySize (m_setting T),
     m_fixedValueSize = s_fixedValueSize (m_setting T), m_metadataSize = of_nat c_metaDataSize\<rparr>"

definition Cache_new :: "'e World \<Rightarrow> u64 \<Rightarrow> seconds \<Rightarrow> bool \<Rightarrow> 'e Cache" where
  "Cache_new W maxCacheSizeInBytes recordTimeToLive forceTimeBasedEviction =
     \<lparr>base_world = W, m_maxCacheSizeInBytes = maxCacheSizeInBytes, m_recordTimeToLive = recordTimeToLive,
      m_forceTimeBasedEviction = forceTimeBasedEviction, m_currentEvictBucketIndex = 0\<rparr>"

text \<open>The metadata of a record are the first bytes of its value.\<close>

definition metadata_of :: "Value \<Rightarrow> u8 list res" where
  "metadata_of value = get_bytes 0 c_metaDataSize value"

definition count_perf :: "HashTablePerfCounter \<Rightarrow> 'e World \<Rightarrow> 'e World" where
  "count_perf c W = W\<lparr>table := (table W)\<lparr>m_perfData := pc_Increment (m_perfData (table W)) c\<rparr>\<rparr>"

text \<open>
  An update of the access status writes the byte with the bit in the buffer of the record, when the
  bit changes: behind the sizes that are not fixed and the key.
\<close>

definition value_offset :: "RecordSerializer \<Rightarrow> Key \<Rightarrow> nat" where
  "value_offset rs key = CalculateRecordOverhead rs + length key"

definition update_access ::
  "RecordSerializer \<Rightarrow> bool \<Rightarrow> addr \<Rightarrow> Key \<Rightarrow> u8 list \<Rightarrow> memory \<Rightarrow> (bool \<times> memory) res" where
  "update_access rs turnOn a key md h =
     (let (wasOn, md') = UpdateAccessStatus turnOn md
      in if md' = md then Inr (wasOn, h)
         else case h a of None \<Rightarrow> Inl BadAccess
            | Some buf \<Rightarrow> bind_res (put_bytes (value_offset rs key + s_accessBitByte) [md' ! s_accessBitByte] buf)
                (\<lambda>buf. Inr (wasOn, h(a \<mapsto> buf))))"

section \<open>Get\<close>

text \<open>\<open>Base::Get\<close>, with the buffer of the record next to its value: the value is a pointer into it.\<close>

definition Base_Get :: "RecordSerializer \<Rightarrow> 'e World \<Rightarrow> Key \<Rightarrow> (addr \<times> Value) option res" where
  "Base_Get rs W key =
     (let (b, tag) = GetBucketInfo (table W) key
      in bind_res (bucket_at (table W) (unat b)) (\<lambda>chain.
         bind_res (find_chain rs (heap W) tag key 0 chain) (\<lambda>found.
         case found of
           None \<Rightarrow> Inr None
         | Some (j, i, v) \<Rightarrow> (case m_dataList (chain ! j) ! i of
               None \<Rightarrow> Inl BadAccess
             | Some a \<Rightarrow> Inr (Some (a, v))))))"

definition GetInternal ::
  "RecordSerializer \<Rightarrow> seconds \<Rightarrow> seconds \<Rightarrow> 'e World \<Rightarrow> Key \<Rightarrow> Value option res \<times> 'e World" where
  "GetInternal rs timeToLive curEpochTime W key =
     (case Base_Get rs W key of
        Inl e \<Rightarrow> (Inl e, W)
      | Inr None \<Rightarrow> (Inr None, W)
      | Inr (Some (a, value)) \<Rightarrow>
          if \<not> c_metaDataSize < length value
          then (Inl (AssertFailed ''value.m_size > Metadata::c_metaDataSize''), W)
          else case bind_res (metadata_of value) (\<lambda>md.
              bind_res (IsExpired md curEpochTime timeToLive) (\<lambda>expired.
              if expired then Inr None
              else bind_res (update_access rs True a key md (heap W)) (\<lambda>(_, h). Inr (Some h)))) of
            Inl e \<Rightarrow> (Inl e, W)
          | Inr None \<Rightarrow> (Inr None, W)
          | Inr (Some h) \<Rightarrow> (Inr (Some (drop c_metaDataSize value)), W\<lparr>heap := h\<rparr>))"

definition Cache_Get ::
  "RecordSerializer \<Rightarrow> seconds \<Rightarrow> seconds \<Rightarrow> 'e World \<Rightarrow> Key \<Rightarrow> Value option res \<times> 'e World" where
  "Cache_Get rs timeToLive curEpochTime W key =
     (case GetInternal rs timeToLive curEpochTime W key of
        (Inl e, W) \<Rightarrow> (Inl e, W)
      | (Inr status, W) \<Rightarrow>
          (Inr status, count_perf (if status \<noteq> None then CacheHitCount else CacheMissCount) W))"

section \<open>The iterator\<close>

text \<open>\<open>MoveNext\<close> skips the records that are expired at the time the iterator was made.\<close>

function Cache_MoveNext :: "RecordSerializer \<Rightarrow> memory \<Rightarrow> SharedHashTable \<Rightarrow> seconds \<Rightarrow> seconds \<Rightarrow>
    Iterator \<Rightarrow> (bool \<times> Iterator) res" where
  "Cache_MoveNext rs h T timeToLive curEpochTime it = (case MoveNext T it of
     Inl e \<Rightarrow> Inl e
   | Inr (found, it') \<Rightarrow>
       if \<not> found then Inr (False, it')
       else case bind_res (bind_res (GetValue rs h T it') metadata_of)
              (\<lambda>md. IsExpired md curEpochTime timeToLive) of
           Inl e \<Rightarrow> Inl e
         | Inr expired \<Rightarrow>
             if \<not> expired then Inr (True, it')
             else Cache_MoveNext rs h T timeToLive curEpochTime it')"
  by pat_completeness auto
termination
  by (relation "inv_image iter_less (\<lambda>(rs, h, T, ttl, cur, it). iter_dist T it)") (auto intro: MoveNext_dist)

declare Cache_MoveNext.simps [simp del]

definition Cache_GetValue :: "RecordSerializer \<Rightarrow> memory \<Rightarrow> SharedHashTable \<Rightarrow> Iterator \<Rightarrow> Value res" where
  "Cache_GetValue rs h T it = bind_res (GetValue rs h T it) (\<lambda>value. Inr (drop c_metaDataSize value))"

section \<open>Eviction\<close>

text \<open>
  The positions of a bucket, in the order the loops visit them: the entries of the chain, and in each
  the data pointers. The loops change data pointers but not the chain.
\<close>

definition positions :: "addr Entry list \<Rightarrow> (nat \<times> nat) list" where
  "positions chain = concat (map (\<lambda>j. map (Pair j) [0..<c_numDataPerEntry]) [0..<length chain])"

definition data_at :: "SharedHashTable \<Rightarrow> nat \<Rightarrow> nat \<Rightarrow> nat \<Rightarrow> addr option" where
  "data_at T b j i = m_dataList (m_buckets T ! b ! j) ! i"

text \<open>The loops of \<open>EvictBasedOnTime\<close>, over the positions of bucket \<open>b\<close>.\<close>

fun evict_expired :: "RecordSerializer \<Rightarrow> 'e reg \<Rightarrow> seconds \<Rightarrow> seconds \<Rightarrow> nat \<Rightarrow> (nat \<times> nat) list \<Rightarrow>
    'e World \<Rightarrow> unit res \<times> 'e World" where
  "evict_expired rs reg timeToLive curEpochTime b [] W = (Inr (), W)"
| "evict_expired rs reg timeToLive curEpochTime b ((j, i) # ps) W =
     (case data_at (table W) b j i of
        None \<Rightarrow> evict_expired rs reg timeToLive curEpochTime b ps W
      | Some data \<Rightarrow>
          case bind_res (load_record rs (heap W) data) (\<lambda>record.
            bind_res (metadata_of (m_value record)) (\<lambda>md. IsExpired md curEpochTime timeToLive)) of
            Inl e \<Rightarrow> (Inl e, W)
          | Inr expired \<Rightarrow>
              if expired then
                case Remove_at rs reg b j i W of
                  (Inl e, W) \<Rightarrow> (Inl e, W)
                | (Inr _, W) \<Rightarrow> evict_expired rs reg timeToLive curEpochTime b ps (count_perf EvictedRecordsCount W)
              else evict_expired rs reg timeToLive curEpochTime b ps W)"

definition EvictBasedOnTime :: "RecordSerializer \<Rightarrow> 'e reg \<Rightarrow> seconds \<Rightarrow> seconds \<Rightarrow> Key \<Rightarrow> 'e World \<Rightarrow>
    unit res \<times> 'e World" where
  "EvictBasedOnTime rs reg timeToLive curEpochTime key W =
     (let b = unat (fst (GetBucketInfo (table W) key))
      in case bucket_at (table W) b of
           Inl e \<Rightarrow> (Inl e, W)
         | Inr chain \<Rightarrow> evict_expired rs reg timeToLive curEpochTime b (positions chain) W)"

definition CalculateNumBytesToFree :: "u64 \<Rightarrow> HashTablePerfData \<Rightarrow> u64 \<Rightarrow> u64" where
  "CalculateNumBytesToFree maxCacheSizeInBytes perfData bytesNeeded =
     (let totalDataSize = pc_Get perfData TotalKeySize + pc_Get perfData TotalValueSize + pc_Get perfData TotalIndexSize
      in if bytesNeeded < maxCacheSizeInBytes \<and> totalDataSize + bytesNeeded \<le> maxCacheSizeInBytes then 0
         else if maxCacheSizeInBytes < totalDataSize then totalDataSize - maxCacheSizeInBytes + bytesNeeded
         else bytesNeeded)"

text \<open>
  The inner loops of \<open>Evict\<close>, over the positions of a bucket, with the number of bytes that are
  still to be freed. \<open>numBytesFreed\<close> is a sum of a 16-bit and a 32-bit size, in 32 bits.
\<close>

fun evict_bucket :: "RecordSerializer \<Rightarrow> 'e reg \<Rightarrow> seconds \<Rightarrow> seconds \<Rightarrow> nat \<Rightarrow> (nat \<times> nat) list \<Rightarrow>
    u64 \<Rightarrow> 'e World \<Rightarrow> unit res \<times> u64 \<times> 'e World" where
  "evict_bucket rs reg timeToLive curEpochTime b [] numBytesToFree W = (Inr (), numBytesToFree, W)"
| "evict_bucket rs reg timeToLive curEpochTime b ((j, i) # ps) numBytesToFree W =
     (case data_at (table W) b j i of
        None \<Rightarrow> evict_bucket rs reg timeToLive curEpochTime b ps numBytesToFree W
      | Some data \<Rightarrow>
          case bind_res (load_record rs (heap W) data) (\<lambda>record.
            bind_res (metadata_of (m_value record)) (\<lambda>md.
            bind_res (IsExpired md curEpochTime timeToLive) (\<lambda>expired.
            if expired then Inr (record, True, heap W)
            else bind_res (update_access rs False data (m_key record) md (heap W)) (\<lambda>(wasOn, h).
              Inr (record, \<not> wasOn, h))))) of
            Inl e \<Rightarrow> (Inl e, numBytesToFree, W)
          | Inr (record, evicted, h) \<Rightarrow>
              let W = W\<lparr>heap := h\<rparr>
              in if evicted then
                let numBytesFreed = ucast (ksize (m_key record)) + vsize (m_value record);
                    numBytesToFree = (if numBytesToFree \<le> ucast numBytesFreed then 0
                      else numBytesToFree - ucast numBytesFreed)
                in case Remove_at rs reg b j i W of
                  (Inl e, W) \<Rightarrow> (Inl e, numBytesToFree, W)
                | (Inr _, W) \<Rightarrow> evict_bucket rs reg timeToLive curEpochTime b ps numBytesToFree
                    (count_perf EvictedRecordsCount W)
              else evict_bucket rs reg timeToLive curEpochTime b ps numBytesToFree W)"

text \<open>The clock loop, with the number of iterations that remain.\<close>

primrec evict_loop :: "nat \<Rightarrow> RecordSerializer \<Rightarrow> 'e reg \<Rightarrow> seconds \<Rightarrow> u64 \<Rightarrow> 'e Cache \<Rightarrow> unit res \<times> u64 \<times> 'e Cache" where
  "evict_loop 0 rs reg curEpochTime numBytesToFree C = (Inr (), numBytesToFree, C)"
| "evict_loop (Suc n) rs reg curEpochTime numBytesToFree C =
     (if numBytesToFree > 0 then
        let T = table (base_world C);
            b = unat (m_currentEvictBucketIndex C mod of_nat (length (m_buckets T)));
            C = C\<lparr>m_currentEvictBucketIndex := m_currentEvictBucketIndex C + 1\<rparr>
        in case bucket_at T b of
             Inl e \<Rightarrow> (Inl e, numBytesToFree, C)
           | Inr chain \<Rightarrow>
               case evict_bucket rs reg (m_recordTimeToLive C) curEpochTime b (positions chain) numBytesToFree (base_world C) of
                 (Inl e, left, W) \<Rightarrow> (Inl e, left, C\<lparr>base_world := W\<rparr>)
               | (Inr _, left, W) \<Rightarrow> evict_loop n rs reg curEpochTime left (C\<lparr>base_world := W\<rparr>)
      else (Inr (), numBytesToFree, C))"

text \<open>
  \<open>Evict\<close>. The size is computed a second time under the lock; with no other thread the result is
  the same.
\<close>

definition Evict :: "RecordSerializer \<Rightarrow> 'e reg \<Rightarrow> seconds \<Rightarrow> u64 \<Rightarrow> 'e Cache \<Rightarrow> unit res \<times> 'e Cache" where
  "Evict rs reg curEpochTime bytesNeeded C =
     (let T = table (base_world C);
          numBytesToFree = CalculateNumBytesToFree (m_maxCacheSizeInBytes C) (m_perfData T) bytesNeeded
      in if numBytesToFree = 0 then (Inr (), C)
         else let numBytesToFree = CalculateNumBytesToFree (m_maxCacheSizeInBytes C) (m_perfData T) bytesNeeded
              in if numBytesToFree = 0 then (Inr (), C)
                 else let (r, left, C) = evict_loop (length (m_buckets T) * 2) rs reg curEpochTime numBytesToFree C
                      in (r, C))"

section \<open>Add\<close>

definition Cache_CreateRecordBuffer ::
  "RecordSerializer \<Rightarrow> allocator \<Rightarrow> seconds \<Rightarrow> Key \<Rightarrow> Value \<Rightarrow> memory \<Rightarrow> addr res \<times> memory" where
  "Cache_CreateRecordBuffer rs alloc curEpochTime key value h =
     (let bufferSize = CalculateBufferSize rs key value;
          (a, content) = alloc h (unat bufferSize);
          h = h(a \<mapsto> content)
      in case SerializeMeta rs key value (Metadata_new curEpochTime) content bufferSize of
           Inl e \<Rightarrow> (Inl e, h)
         | Inr buf \<Rightarrow> (Inr a, h(a \<mapsto> buf)))"

text \<open>
  \<open>Add\<close> reads the clock up to three times: for the eviction by time, for the clock eviction and for
  the metadata of the new record.
\<close>

definition Cache_Add :: "RecordSerializer \<Rightarrow> allocator \<Rightarrow> 'e reg \<Rightarrow> seconds \<Rightarrow> seconds \<Rightarrow> seconds \<Rightarrow>
    'e Cache \<Rightarrow> Key \<Rightarrow> Value \<Rightarrow> unit res \<times> 'e Cache" where
  "Cache_Add rs alloc reg t1 t2 t3 C key value =
     (case (if m_forceTimeBasedEviction C
            then EvictBasedOnTime rs reg (m_recordTimeToLive C) t1 key (base_world C)
            else (Inr (), base_world C)) of
        (Inl e, W) \<Rightarrow> (Inl e, C\<lparr>base_world := W\<rparr>)
      | (Inr _, W) \<Rightarrow>
          (case Evict rs reg t2 (ucast (ucast (ksize key) + vsize value + of_nat c_metaDataSize :: u32)) (C\<lparr>base_world := W\<rparr>) of
             (Inl e, C) \<Rightarrow> (Inl e, C)
           | (Inr _, C) \<Rightarrow>
               let (r, h) = Cache_CreateRecordBuffer rs alloc t3 key value (heap (base_world C));
                   W = (base_world C)\<lparr>heap := h\<rparr>
               in case r of
                    Inl e \<Rightarrow> (Inl e, C\<lparr>base_world := W\<rparr>)
                  | Inr a \<Rightarrow> let (r, W) = Add_record rs reg a W in (r, C\<lparr>base_world := W\<rparr>)))"

definition Cache_GetSerializer :: "'e Cache \<Rightarrow> unit res" where
  "Cache_GetSerializer C = Inl (RuntimeException ''Not implemented yet.'')"

end
