(* ===== verification/L4_Manager.thy ===== *)
theory L4_Manager
  imports L4_Names L4_Serializer L4_Cache
begin

text \<open>
  The front of the library: the configuration of a table (\<open>inc/L4/HashTable/Config.h\<close>,
  \<open>Common/SettingAdapter.h\<close>), the manager that creates and finds tables by name
  (\<open>LocalMemory/HashTableManager.h\<close>), the service and its contexts (\<open>LocalMemory/HashTableService.h\<close>,
  \<open>Context.h\<close>), the calls through the interfaces of \<open>IHashTable.h\<close>, and the performance data of a set
  of tables (\<open>Log/PerfLogger.h\<close>).
\<close>

section \<open>Configuration\<close>

record ConfigSetting =
  c_numBuckets :: u32
  c_numBucketsPerMutex :: "u32 option"
  c_fixedKeySize :: "u16 option"
  c_fixedValueSize :: "u32 option"

record CacheConfig =
  c_maxCacheSizeInBytes :: u64
  c_recordTimeToLive :: seconds
  c_forceTimeBasedEviction :: bool

record SerializerConfig =
  c_stream :: "IStream option"
  c_properties :: "string StdStringKeyMap option"

record HashTableConfig =
  c_name :: string
  c_setting :: ConfigSetting
  c_cache :: "CacheConfig option"
  c_serializer :: "SerializerConfig option"

definition HashTableConfig_new ::
  "string \<Rightarrow> ConfigSetting \<Rightarrow> CacheConfig option \<Rightarrow> SerializerConfig option \<Rightarrow> HashTableConfig res" where
  "HashTableConfig_new name setting cache serializer =
     (if 0 < c_numBuckets setting \<or> (serializer \<noteq> None \<and> c_stream (the serializer) \<noteq> None)
      then Inr \<lparr>c_name = name, c_setting = setting, c_cache = cache, c_serializer = serializer\<rparr>
      else Inl (AssertFailed ''m_setting.m_numBuckets > 0U || (m_serializer && (serializer->m_stream != nullptr))''))"

definition get_value_or :: "'a option \<Rightarrow> 'a \<Rightarrow> 'a" where
  "get_value_or x y = (case x of None \<Rightarrow> y | Some v \<Rightarrow> v)"

definition SettingAdapter_Convert :: "ConfigSetting \<Rightarrow> Setting" where
  "SettingAdapter_Convert from =
     (let to = default_Setting;
          to = to\<lparr>m_numBuckets := c_numBuckets from\<rparr>;
          to = to\<lparr>m_numBucketsPerMutex := max (get_value_or (c_numBucketsPerMutex from) 1) 1\<rparr>;
          to = to\<lparr>s_fixedKeySize := get_value_or (c_fixedKeySize from) 0\<rparr>
      in to\<lparr>s_fixedValueSize := get_value_or (c_fixedValueSize from) 0\<rparr>)"

section \<open>The manager\<close>

text \<open>
  A table as the manager keeps it: the shared table and, for a cache, the constants of the cache and
  the position of its clock hand.
\<close>

record CacheState =
  cs_maxCacheSizeInBytes :: u64
  cs_recordTimeToLive :: seconds
  cs_forceTimeBasedEviction :: bool
  cs_currentEvictBucketIndex :: u64

record HashTable =
  ht_table :: SharedHashTable
  ht_cache :: "CacheState option"

record HashTableManager =
  m_hashTableNameToIndex :: "nat StdStringKeyMap"
  m_hashTables :: "HashTable list"

definition HashTableManager_new :: HashTableManager where
  "HashTableManager_new = \<lparr>m_hashTableNameToIndex = [], m_hashTables = []\<rparr>"

text \<open>
  \<open>Add\<close>. The stream of a serialized table is read with fuel, as in \<open>L4_Serializer\<close>; \<open>None\<close> is
  running out of it.
\<close>

definition new_setting :: "ConfigSetting \<Rightarrow> Setting" where
  "new_setting s = \<lparr>m_numBuckets = c_numBuckets s,
     m_numBucketsPerMutex = max (get_value_or (c_numBucketsPerMutex s) 1) 1,
     s_fixedKeySize = get_value_or (c_fixedKeySize s) 0, s_fixedValueSize = get_value_or (c_fixedValueSize s) 0\<rparr>"

definition new_cache_state :: "CacheConfig \<Rightarrow> CacheState" where
  "new_cache_state c = \<lparr>cs_maxCacheSizeInBytes = c_maxCacheSizeInBytes c, cs_recordTimeToLive = c_recordTimeToLive c,
     cs_forceTimeBasedEviction = c_forceTimeBasedEviction c, cs_currentEvictBucketIndex = 0\<rparr>"

definition internal_table :: "nat \<Rightarrow> nat \<Rightarrow> nat \<Rightarrow> allocator \<Rightarrow> HashTableConfig \<Rightarrow> memory \<Rightarrow> (SharedHashTable res \<times> memory) option" where
  "internal_table fuel sizeof_Mutex sizeof_Table alloc config h = (case Option.bind (c_serializer config) c_stream of
     Some stream \<Rightarrow> Deserializer_Deserialize fuel sizeof_Mutex sizeof_Table alloc h stream
   | None \<Rightarrow> Some (Inr (SharedHashTable_new sizeof_Mutex sizeof_Table (new_setting (c_setting config))), h))"

definition Manager_Add :: "nat \<Rightarrow> nat \<Rightarrow> nat \<Rightarrow> hash_combine \<Rightarrow> allocator \<Rightarrow> HashTableConfig \<Rightarrow>
    HashTableManager \<Rightarrow> memory \<Rightarrow> (nat res \<times> HashTableManager \<times> memory) option" where
  "Manager_Add fuel sizeof_Mutex sizeof_Table combine alloc config M h =
     (if map_find combine (m_hashTableNameToIndex M) (c_name config) \<noteq> None
      then Some (Inl (RuntimeException ''Same hash table name already exists.''), M, h)
      else if c_cache config \<noteq> None \<and> c_serializer config \<noteq> None
      then Some (Inl (RuntimeException ''Constructing cache hash table via serializer is not supported.''), M, h)
      else case internal_table fuel sizeof_Mutex sizeof_Table alloc config h of
        None \<Rightarrow> None
      | Some (Inl e, h) \<Rightarrow> Some (Inl e, M, h)
      | Some (Inr T, h) \<Rightarrow>
          let tables = m_hashTables M @ [\<lparr>ht_table = T, ht_cache = map_option new_cache_state (c_cache config)\<rparr>];
              newIndex = length tables - 1
          in Some (Inr newIndex, \<lparr>m_hashTableNameToIndex = map_emplace combine (c_name config) newIndex (m_hashTableNameToIndex M),
               m_hashTables = tables\<rparr>, h))"

text \<open>The tables are shared state, so a reference to one is its index.\<close>

definition GetHashTable_at :: "HashTableManager \<Rightarrow> nat \<Rightarrow> nat res" where
  "GetHashTable_at M index = bind_res (assert_res (index < length (m_hashTables M)) ''index < m_hashTables.size()'') (\<lambda>_. Inr index)"

definition GetHashTable :: "hash_combine \<Rightarrow> HashTableManager \<Rightarrow> string \<Rightarrow> nat res" where
  "GetHashTable combine M name =
     (case map_find combine (m_hashTableNameToIndex M) (c_str name) of
        None \<Rightarrow> Inl (AssertFailed ''m_hashTableNameToIndex.find(name) != m_hashTableNameToIndex.cend()'')
      | Some index \<Rightarrow> GetHashTable_at M index)"

section \<open>The service and its contexts\<close>

record Service =
  m_hashTableManager :: HashTableManager
  m_epochManager :: "addr EpochManager"
  svc_heap :: memory

definition HashTableService_new :: "u32 \<Rightarrow> EpochManagerConfig \<Rightarrow> Service res" where
  "HashTableService_new hardware epochManagerConfig =
     bind_res (EpochManager_new hardware epochManagerConfig PerfCounters_init) (\<lambda>E.
     Inr \<lparr>m_hashTableManager = HashTableManager_new, m_epochManager = E, svc_heap = Map.empty\<rparr>)"

definition AddHashTable :: "nat \<Rightarrow> nat \<Rightarrow> nat \<Rightarrow> hash_combine \<Rightarrow> allocator \<Rightarrow> HashTableConfig \<Rightarrow>
    Service \<Rightarrow> (nat res \<times> Service) option" where
  "AddHashTable fuel sizeof_Mutex sizeof_Table combine alloc config S =
     map_option (\<lambda>(r, M, h). (r, S\<lparr>m_hashTableManager := M, svc_heap := h\<rparr>))
       (Manager_Add fuel sizeof_Mutex sizeof_Table combine alloc config (m_hashTableManager S) (svc_heap S))"

text \<open>A context is the epoch reference it holds; \<open>operator[]\<close> forwards to the manager.\<close>

type_synonym Context = EpochRefPolicy

definition set_epoch_queue :: "EpochQueue \<Rightarrow> Service \<Rightarrow> Service" where
  "set_epoch_queue q S = S\<lparr>m_epochManager := (m_epochManager S)\<lparr>m_epochQueue := q\<rparr>\<rparr>"

definition GetContext :: "Service \<Rightarrow> Context \<times> Service" where
  "GetContext S = (let (c, q) = EpochRefPolicy_new (m_epochQueue (m_epochManager S)) in (c, set_epoch_queue q S))"

definition Context_move :: "Context \<Rightarrow> Context \<times> Context" where
  "Context_move context = EpochRefPolicy_move context"

definition Context_destroy :: "Context \<Rightarrow> Service \<Rightarrow> unit res \<times> Service" where
  "Context_destroy c S = (let (r, q) = EpochRefPolicy_destroy c (m_epochQueue (m_epochManager S)) in (r, set_epoch_queue q S))"

definition Context_name :: "hash_combine \<Rightarrow> Service \<Rightarrow> string \<Rightarrow> nat res" where
  "Context_name combine S name = GetHashTable combine (m_hashTableManager S) name"

definition Context_at :: "Service \<Rightarrow> nat \<Rightarrow> nat res" where
  "Context_at S index = GetHashTable_at (m_hashTableManager S) index"

section \<open>Calls through the interfaces\<close>

text \<open>
  A call on table \<open>i\<close> of the service runs on the table, the memory and the epoch manager, and goes to
  the class of the table.
\<close>

definition table_at :: "Service \<Rightarrow> nat \<Rightarrow> HashTable" where
  "table_at S i = m_hashTables (m_hashTableManager S) ! i"

definition world_at :: "Service \<Rightarrow> nat \<Rightarrow> addr EpochManager World" where
  "world_at S i = \<lparr>heap = svc_heap S, table = ht_table (table_at S i), manager = m_epochManager S\<rparr>"

definition set_world :: "nat \<Rightarrow> addr EpochManager World \<Rightarrow> Service \<Rightarrow> Service" where
  "set_world i W S = S\<lparr>svc_heap := heap W, m_epochManager := manager W,
     m_hashTableManager := (m_hashTableManager S)\<lparr>m_hashTables :=
       (m_hashTables (m_hashTableManager S))[i := (table_at S i)\<lparr>ht_table := table W\<rparr>]\<rparr>\<rparr>"

definition cache_at :: "Service \<Rightarrow> nat \<Rightarrow> CacheState \<Rightarrow> addr EpochManager Cache" where
  "cache_at S i c = \<lparr>base_world = world_at S i, m_maxCacheSizeInBytes = cs_maxCacheSizeInBytes c,
     m_recordTimeToLive = cs_recordTimeToLive c, m_forceTimeBasedEviction = cs_forceTimeBasedEviction c,
     m_currentEvictBucketIndex = cs_currentEvictBucketIndex c\<rparr>"

definition set_cache :: "nat \<Rightarrow> CacheState \<Rightarrow> addr EpochManager Cache \<Rightarrow> Service \<Rightarrow> Service" where
  "set_cache i c C S = (let S = set_world i (base_world C) S
     in S\<lparr>m_hashTableManager := (m_hashTableManager S)\<lparr>m_hashTables := (m_hashTables (m_hashTableManager S))
       [i := (table_at S i)\<lparr>ht_cache := Some (c\<lparr>cs_currentEvictBucketIndex := m_currentEvictBucketIndex C\<rparr>)\<rparr>]\<rparr>\<rparr>)"

definition serializer_of :: "HashTable \<Rightarrow> RecordSerializer" where
  "serializer_of T = (if ht_cache T = None then default_serializer (ht_table T) else cache_serializer (ht_table T))"

definition table_Get :: "seconds \<Rightarrow> nat \<Rightarrow> Key \<Rightarrow> Service \<Rightarrow> Value option res \<times> Service" where
  "table_Get now i key S = (let rs = serializer_of (table_at S i) in
     case ht_cache (table_at S i) of
       None \<Rightarrow> (Get rs (world_at S i) key, S)
     | Some c \<Rightarrow> let (r, W) = Cache_Get rs (cs_recordTimeToLive c) now (world_at S i) key in (r, set_world i W S))"

definition table_Add :: "allocator \<Rightarrow> seconds \<times> seconds \<times> seconds \<Rightarrow> nat \<Rightarrow> Key \<Rightarrow> Value \<Rightarrow> Service \<Rightarrow> unit res \<times> Service" where
  "table_Add alloc now i key value S = (let rs = serializer_of (table_at S i) in
     case ht_cache (table_at S i) of
       None \<Rightarrow> let (r, W) = Add rs alloc RegisterAction (world_at S i) key value in (r, set_world i W S)
     | Some c \<Rightarrow> let (t1, t2, t3) = now;
           (r, C) = Cache_Add rs alloc RegisterAction t1 t2 t3 (cache_at S i c) key value in (r, set_cache i c C S))"

text \<open>\<open>Remove\<close> of a cache is the one of the table underneath.\<close>

definition table_Remove :: "nat \<Rightarrow> Key \<Rightarrow> Service \<Rightarrow> bool res \<times> Service" where
  "table_Remove i key S =
     (let (r, W) = Remove (serializer_of (table_at S i)) RegisterAction (world_at S i) key in (r, set_world i W S))"

section \<open>Performance data\<close>

text \<open>\<open>std::map\<close> compares the names as they are. The data are references, so they are the indices of tables.\<close>

record PerfData =
  m_serverPerfData :: ServerPerfData
  m_hashTablesPerfData :: "string \<rightharpoonup> nat"

definition PerfData_new :: PerfData where
  "PerfData_new = \<lparr>m_serverPerfData = PerfCounters_init, m_hashTablesPerfData = Map.empty\<rparr>"

definition AddHashTablePerfData :: "string \<Rightarrow> nat \<Rightarrow> PerfData \<Rightarrow> unit res \<times> PerfData" where
  "AddHashTablePerfData hashTableName perfData D =
     (let key = c_str hashTableName in
      if m_hashTablesPerfData D key \<noteq> None
      then (Inl (RuntimeException (''Duplicate hash table name found: '' @ [CHR 0x27] @ key @ [CHR 0x27] @ ''.'')), D)
      else (Inr (), D\<lparr>m_hashTablesPerfData := (m_hashTablesPerfData D)(key \<mapsto> perfData)\<rparr>))"

end
