(* ===== verification/L4_CacheHeap.thy ===== *)
theory L4_CacheHeap
  imports L4_Cache
begin

text \<open>
  Records that change in place: the access bit of a cached record is written in the buffer that the
  table points to. The lemmas say what such a write does to the record, to the table's map and to
  its invariants.
\<close>

section \<open>The map of a table, record by record\<close>

lemma in_table_kvs:
  "(k, v) \<in> set (table_kvs rs h T) \<longleftrightarrow> (\<exists>a\<in>set (table_addrs T). load_record rs h a = Inr \<lparr>m_key = k, m_value = v\<rparr>)"
  by (simp add: table_kvs_addrs in_rec_of)

lemma table_map_iff:
  assumes "table_ok rs W"
  shows "table_map rs W k = Some v \<longleftrightarrow>
    (\<exists>a\<in>set (table_addrs (table W)). load_record rs (heap W) a = Inr \<lparr>m_key = k, m_value = v\<rparr>)"
  using distinct_table_kvs [OF assms] by (simp add: table_map_def map_of_eq_Some_iff in_table_kvs)

lemma table_map_valid:
  assumes "table_ok rs W" "table_map rs W k = Some v"
  shows "valid_key k" "valid_value v"
  using assms load_valid by (auto simp: table_map_iff)

text \<open>Two pointers of a table are to records with different keys.\<close>

lemma distinct_concat_clash:
  "distinct (map fst (concat (map f as))) \<Longrightarrow> a \<in> set as \<Longrightarrow> a' \<in> set as \<Longrightarrow> (k, v) \<in> set (f a) \<Longrightarrow>
    (k, v') \<in> set (f a') \<Longrightarrow> a = a'"
proof (induction as)
  case (Cons b as)
  have "k \<notin> fst ` set (f c)" if "c \<in> set as" "k \<in> fst ` set (f b)" for c
    using Cons.prems(1) that by auto
  moreover have "k \<in> fst ` set (f a)" "k \<in> fst ` set (f a')"
    using Cons.prems(4,5) by force+
  ultimately show ?case
    using Cons by auto
qed simp

lemma table_record_unique:
  assumes "table_ok rs W" "a \<in> set (table_addrs (table W))" "a' \<in> set (table_addrs (table W))"
    and "load_record rs (heap W) a = Inr \<lparr>m_key = k, m_value = v\<rparr>" "load_record rs (heap W) a' = Inr \<lparr>m_key = k, m_value = v'\<rparr>"
  shows "a = a'"
  using distinct_table_kvs [OF assms(1)] assms(2-5)
  by (intro distinct_concat_clash [of "rec_of rs (heap W)" "table_addrs (table W)" a a' k v v'])
    (simp_all add: table_kvs_addrs in_rec_of)

section \<open>Rewriting one record\<close>

lemma table_ok_rewrite:
  assumes ok: "table_ok rs W" and a: "a \<in> set (table_addrs (table W))"
    and r: "load_record rs (heap W) a = Inr \<lparr>m_key = key, m_value = v\<rparr>"
    and r': "load_record rs (heap W') a = Inr \<lparr>m_key = key, m_value = v'\<rparr>"
    and other: "\<And>a'. a' \<noteq> a \<Longrightarrow> heap W' a' = heap W a'" and tab: "table W' = table W"
  shows "table_ok rs W'" "table_map rs W' = (table_map rs W)(key \<mapsto> v')"
proof -
  have same: "load_record rs (heap W') b = load_record rs (heap W) b" if "b \<noteq> a" for b
    using other [OF that] by (simp add: load_record_def)
  have keys: "map fst (rec_of rs (heap W') b) = map fst (rec_of rs (heap W) b)" for b
    using r r' same [of b] by (cases "b = a") (simp_all add: rec_of_def)
  then have bucket: "map fst (bucket_kvs rs (heap W') es) = map fst (bucket_kvs rs (heap W) es)" for es
    by (simp add: bucket_kvs_def slots_kvs_def map_concat comp_def)
  have slot: "slot_ok rs (heap W') (table W) b s = slot_ok rs (heap W) (table W) b s" for b s
    using r r' same by (cases "snd s"; cases "snd s = Some a") (auto simp: slot_ok_def)
  have "dom (heap W') \<subseteq> insert a (dom (heap W))"
    using other by (auto simp: dom_def)
  then have "finite (dom (heap W'))"
    using ok by (auto simp: table_ok_def intro: finite_subset)
  moreover have "slot_ok rs (heap W') (table W) b = slot_ok rs (heap W) (table W) b" for b
    by (rule ext) (rule slot)
  then have "bucket_ok rs (heap W') (table W) b es = bucket_ok rs (heap W) (table W) b es" for b es
    by (simp add: bucket_ok_def bucket)
  ultimately show ok': "table_ok rs W'"
    using ok by (simp add: table_ok_def tab)
  have "table_map rs W' k = Some x \<longleftrightarrow> ((table_map rs W)(key \<mapsto> v')) k = Some x" for k x
  proof (cases "k = key")
    case True
    then show ?thesis
      using a r' r same table_record_unique [OF ok a _ r] unfolding table_map_iff [OF ok'] tab
      by (metis (no_types, lifting) Record.ext_inject fun_upd_same old.sum.inject(2) option.inject)
  next
    case False
    have "load_record rs (heap W') b = Inr \<lparr>m_key = k, m_value = x\<rparr> \<longleftrightarrow> load_record rs (heap W) b = Inr \<lparr>m_key = k, m_value = x\<rparr>" for b
      using False r r' same [of b] by (cases "b = a") auto
    then show ?thesis
      using False by (simp add: table_map_iff [OF ok'] table_map_iff [OF ok] tab)
  qed
  then show "table_map rs W' = (table_map rs W)(key \<mapsto> v')"
    by (intro ext option.expand) (metis option.collapse option.simps(3), metis option.sel option.collapse option.simps(3))
qed

section \<open>Where a record has its value\<close>

lemma Deserialize_header:
  assumes "CalculateRecordOverhead rs \<le> length buf"
  obtains ks vs where "\<And>b. CalculateRecordOverhead rs \<le> length b \<Longrightarrow>
      take (CalculateRecordOverhead rs) b = take (CalculateRecordOverhead rs) buf \<Longrightarrow>
      Deserialize rs b = bind_res (get_bytes (CalculateRecordOverhead rs) ks b) (\<lambda>key.
        bind_res (get_bytes (CalculateRecordOverhead rs + ks) vs b) (\<lambda>value. Inr \<lparr>m_key = key, m_value = value\<rparr>))"
proof -
  let ?n = "CalculateRecordOverhead rs"
  let ?off = "if m_fixedKeySize rs = 0 then 2 else 0 :: nat"
  let ?ks = "if m_fixedKeySize rs = 0 then le_word (take 2 buf) else m_fixedKeySize rs"
  let ?vs = "if m_fixedValueSize rs = 0 then le_word (take 4 (drop ?off buf)) else m_fixedValueSize rs + m_metadataSize rs"
  have "Deserialize rs b = bind_res (get_bytes ?n (unat ?ks) b) (\<lambda>key.
        bind_res (get_bytes (?n + unat ?ks) (unat ?vs) b) (\<lambda>value. Inr \<lparr>m_key = key, m_value = value\<rparr>))"
    if b: "?n \<le> length b" "take ?n b = take ?n buf" for b
  proof -
    have t: "take m b = take m buf" if "m \<le> ?n" for m
      using b(2) that by (metis min_absorb1 take_take)
    have "take 4 (drop m b) = take 4 (drop m buf)" if "m + 4 \<le> ?n" for m
      using t [of "m + 4"] that by (simp add: take_drop add.commute)
    then show ?thesis
      using b(1) t
      by (cases "m_fixedKeySize rs = 0"; cases "m_fixedValueSize rs = 0")
        (simp_all add: Deserialize_def get_bytes_def CalculateRecordOverhead_def sizeof_defs)
  qed
  then show ?thesis
    by (rule that)
qed

lemma Deserialize_split:
  assumes "Deserialize rs buf = Inr \<lparr>m_key = k, m_value = v\<rparr>"
  obtains pre rest where "buf = pre @ k @ v @ rest" "length pre = CalculateRecordOverhead rs"
    "\<And>v'. length v' = length v \<Longrightarrow> Deserialize rs (pre @ k @ v' @ rest) = Inr \<lparr>m_key = k, m_value = v'\<rparr>"
proof -
  let ?n = "CalculateRecordOverhead rs"
  have n: "?n \<le> length buf"
    using assms by (auto simp: Deserialize_def bind_res_Inr_iff get_bytes_def CalculateRecordOverhead_def sizeof_defs split: if_splits)
  obtain ks vs where header: "\<And>b. ?n \<le> length b \<Longrightarrow> take ?n b = take ?n buf \<Longrightarrow>
      Deserialize rs b = bind_res (get_bytes ?n ks b) (\<lambda>key.
        bind_res (get_bytes (?n + ks) vs b) (\<lambda>value. Inr \<lparr>m_key = key, m_value = value\<rparr>))"
    using Deserialize_header [OF n] by blast
  have kv: "?n + ks + vs \<le> length buf" "k = take ks (drop ?n buf)" "v = take vs (drop (?n + ks) buf)"
    using assms unfolding header [OF n refl] by (auto simp: bind_res_Inr_iff get_bytes_def split: if_splits)
  define pre where "pre = take ?n buf"
  define rest where "rest = drop (?n + ks + vs) buf"
  have len: "length pre = ?n" "length k = ks" "length v = vs"
    using kv by (simp_all add: pre_def)
  have "drop ?n buf = k @ v @ rest"
    unfolding kv(2,3) rest_def by (metis add.commute append_take_drop_id drop_drop)
  then have "buf = pre @ k @ v @ rest"
    by (metis append_take_drop_id pre_def)
  moreover have "Deserialize rs (pre @ k @ v' @ rest) = Inr \<lparr>m_key = k, m_value = v'\<rparr>" if "length v' = length v" for v'
    using len that header [of "pre @ k @ v' @ rest"] get_bytes_at_end [of pre ?n k ks "v' @ rest"]
      get_bytes_at_end [of "pre @ k" "?n + ks" v' vs rest]
    by (simp add: pre_def)
  ultimately show ?thesis
    using that len(1) by blast
qed

lemma update_access_ok:
  fixes b :: bool
  assumes r: "load_record rs h a = Inr \<lparr>m_key = k, m_value = v\<rparr>" and len: "c_metaDataSize \<le> length v"
  defines "v' \<equiv> snd (UpdateAccessStatus b (take c_metaDataSize v)) @ drop c_metaDataSize v"
  obtains h' where "update_access rs b a k (take c_metaDataSize v) h = Inr (IsAccessed (take c_metaDataSize v), h')"
    "load_record rs h' a = Inr \<lparr>m_key = k, m_value = v'\<rparr>" "\<And>a'. a' \<noteq> a \<Longrightarrow> h' a' = h a'" "dom h' = dom h"
proof -
  let ?md = "take c_metaDataSize v"
  let ?md' = "snd (UpdateAccessStatus b ?md)"
  have l: "length ?md = 4" "length ?md' = 4" "length v' = length v"
    using len by (simp_all add: c_metaDataSize_def v'_def)
  show ?thesis
  proof (cases "?md' = ?md")
    case True
    then show ?thesis
      using r by (intro that [of h]) (simp_all add: update_access_def case_prod_unfold v'_def)
  next
    case False
    obtain buf where buf: "h a = Some buf" "Deserialize rs buf = Inr \<lparr>m_key = k, m_value = v\<rparr>"
      using r by (auto simp: load_record_def split: option.splits)
    obtain pre rest where split: "buf = pre @ k @ v @ rest" "length pre = CalculateRecordOverhead rs"
        "\<And>v'. length v' = length v \<Longrightarrow> Deserialize rs (pre @ k @ v' @ rest) = Inr \<lparr>m_key = k, m_value = v'\<rparr>"
      using Deserialize_split [OF buf(2)] by metis
    have md': "?md' = take 3 ?md @ [?md' ! 3]"
    proof (rule nth_equalityI)
      fix i
      assume "i < length ?md'"
      then have "i < 4"
        unfolding l(2) .
      then show "?md' ! i = (take 3 ?md @ [?md' ! 3]) ! i"
        using l by (cases "i = 3") (simp_all add: nth_append UpdateAccessStatus_other)
    qed (use l in simp)
    have v: "v = take 3 v @ v ! 3 # drop 4 v"
      using len id_take_nth_drop [of 3 v] by (simp add: c_metaDataSize_def)
    have off: "length (pre @ k @ take 3 v) = value_offset rs k + s_accessBitByte"
      using len split(2) by (simp add: value_offset_def s_accessBitByte_def c_metaDataSize_def)
    have "buf = (pre @ k @ take 3 v) @ v ! 3 # drop 4 v @ rest"
      using split(1) arg_cong [OF v, of "\<lambda>v. pre @ k @ v @ rest"] by simp
    then have "put_bytes (value_offset rs k + s_accessBitByte) [?md' ! s_accessBitByte] buf =
        Inr ((pre @ k @ take 3 v) @ [?md' ! 3] @ drop 4 v @ rest)"
      using put_bytes_at_end [OF off, of "[?md' ! 3]" "v ! 3 # drop 4 v @ rest"] by (simp add: s_accessBitByte_def)
    moreover have "v' = take 3 v @ [?md' ! 3] @ drop 4 v"
      unfolding v'_def by (subst md') (simp add: c_metaDataSize_def)
    ultimately have "put_bytes (value_offset rs k + s_accessBitByte) [?md' ! s_accessBitByte] buf = Inr (pre @ k @ v' @ rest)"
      by simp
    then show ?thesis
      using buf(1) False split(3) [OF l(3)]
      by (intro that [of "h(a \<mapsto> pre @ k @ v' @ rest)"])
        (auto simp: update_access_def case_prod_unfold load_record_def)
  qed
qed

end
