(* ===== verification/L4_CacheProps.thy ===== *)
theory L4_CacheProps
  imports L4_CacheHeap
begin

text \<open>
  The cache hash table against its map: what \<open>Get\<close> finds and marks, what an eviction by time
  removes, and what the clock eviction does to every record of the buckets it visits, with the
  counters and the memory exact at every step.
\<close>

section \<open>The invariant of a cache\<close>

definition expired :: "seconds \<Rightarrow> seconds \<Rightarrow> Value \<Rightarrow> bool" where
  "expired ttl cur v \<longleftrightarrow> sint ttl < sint cur - sint (GetEpochTime (take c_metaDataSize v))"

definition cache_values :: "seconds \<Rightarrow> (Key \<rightharpoonup> Value) \<Rightarrow> bool" where
  "cache_values cur m \<longleftrightarrow> (\<forall>k v. m k = Some v \<longrightarrow> c_metaDataSize \<le> length v \<and> length k + length v < 2 ^ 32 \<and>
     sint (GetEpochTime (take c_metaDataSize v)) \<le> sint cur)"

definition cache_ok :: "('e \<Rightarrow> bool) \<Rightarrow> ('e \<Rightarrow> addr multiset) \<Rightarrow> nat \<Rightarrow> RecordSerializer \<Rightarrow> seconds \<Rightarrow> 'e World \<Rightarrow> bool" where
  "cache_ok ok queued base rs cur W \<longleftrightarrow> table_ok rs W \<and> accounted ok queued W \<and> perf_ok base rs W \<and>
     cache_values cur (table_map rs W)"

lemma cache_ok_table: "cache_ok ok queued base rs cur W \<Longrightarrow> table_ok rs W"
  by (simp add: cache_ok_def)

lemma metadata_of_value: "c_metaDataSize \<le> length v \<Longrightarrow> metadata_of v = Inr (take c_metaDataSize v)"
  by (simp add: metadata_of_def get_bytes_def)

lemma cache_value_IsExpired:
  "cache_values cur m \<Longrightarrow> m k = Some v \<Longrightarrow> IsExpired (take c_metaDataSize v) cur ttl = Inr (expired ttl cur v)"
  unfolding expired_def by (intro IsExpired_age) (simp add: cache_values_def)

text \<open>Counting does not touch the table.\<close>

lemma count_perf_simps [simp]:
  "heap (count_perf c W) = heap W" "manager (count_perf c W) = manager W"
  "m_buckets (table (count_perf c W)) = m_buckets (table W)"
  "m_setting (table (count_perf c W)) = m_setting (table W)"
  "m_perfData (table (count_perf c W)) = pc_Increment (m_perfData (table W)) c"
  "table_addrs (table (count_perf c W)) = table_addrs (table W)"
  by (simp_all add: count_perf_def table_addrs_def)

lemma table_count_perf [simp]:
  "table_ok rs (count_perf c W) = table_ok rs W" "table_map rs (count_perf c W) = table_map rs W"
proof -
  have "bucket_ok rs h (table (count_perf c W)) = bucket_ok rs h (table W)" for h
    by (rule bucket_ok_length) simp
  then show "table_ok rs (count_perf c W) = table_ok rs W"
    by (simp add: table_ok_def)
  show "table_map rs (count_perf c W) = table_map rs W"
    by (simp add: table_map_def table_kvs_def)
qed

definition cache_counter :: "HashTablePerfCounter \<Rightarrow> bool" where
  "cache_counter c \<longleftrightarrow> c = EvictedRecordsCount \<or> c = CacheHitCount \<or> c = CacheMissCount"

lemma cache_ok_count_perf [simp]:
  "cache_counter c \<Longrightarrow> cache_ok ok queued base rs cur (count_perf c W) = cache_ok ok queued base rs cur W"
  by (auto simp: cache_ok_def accounted_def perf_ok_def Let_def chained_def cache_counter_def)

text \<open>A record rewritten in place with a value of the same size.\<close>

lemma perf_ok_rewrite:
  assumes "perf_ok base rs W" "table_map rs W k = Some v" "table_map rs W' = (table_map rs W)(k \<mapsto> v')"
    and "length v' = length v" "table W' = table W"
  shows "perf_ok base rs W'"
proof -
  have "dom (table_map rs W') = dom (table_map rs W)"
    using assms(2,3) by auto
  moreover have "length (the (table_map rs W' x)) = length (the (table_map rs W x))" for x
    using assms(2-4) by simp
  ultimately show ?thesis
    using assms(1,5) by (simp add: perf_ok_def Let_def)
qed

lemma cache_values_upd:
  assumes "cache_values cur m" "c_metaDataSize \<le> length v \<and> length k + length v < 2 ^ 32 \<and>
      sint (GetEpochTime (take c_metaDataSize v)) \<le> sint cur"
  shows "cache_values cur (m(k \<mapsto> v))"
  unfolding cache_values_def
proof (intro allI impI)
  fix x y
  assume xy: "(m(k \<mapsto> v)) x = Some y"
  show "c_metaDataSize \<le> length y \<and> length x + length y < 2 ^ 32 \<and>
      sint (GetEpochTime (take c_metaDataSize y)) \<le> sint cur"
  proof (cases "x = k")
    case True
    with xy assms(2) show ?thesis
      by simp
  next
    case False
    with xy have "m x = Some y"
      by simp
    with assms(1) show ?thesis
      unfolding cache_values_def by blast
  qed
qed

lemma cache_values_del: "cache_values cur m \<Longrightarrow> cache_values cur (m(k := None))"
  unfolding cache_values_def by simp

lemma cache_ok_rewrite:
  assumes ok: "cache_ok ok queued base rs cur W" and a: "a \<in> set (table_addrs (table W))"
    and r: "load_record rs (heap W) a = Inr \<lparr>m_key = k, m_value = v\<rparr>"
    and up: "update_access rs b a k (take c_metaDataSize v) (heap W) = Inr (wasOn, h)"
  defines "v' \<equiv> snd (UpdateAccessStatus b (take c_metaDataSize v)) @ drop c_metaDataSize v"
  shows "wasOn = IsAccessed (take c_metaDataSize v)" "cache_ok ok queued base rs cur (W\<lparr>heap := h\<rparr>)"
    "table_map rs (W\<lparr>heap := h\<rparr>) = (table_map rs W)(k \<mapsto> v')"
    "load_record rs h a = Inr \<lparr>m_key = k, m_value = v'\<rparr>" "\<And>a'. a' \<noteq> a \<Longrightarrow> h a' = heap W a'"
proof -
  have tab: "table_ok rs W" and k: "table_map rs W k = Some v"
    using ok a r table_map_iff [of rs W k v] by (auto simp: cache_ok_def)
  have v: "c_metaDataSize \<le> length v" "length k + length v < 2 ^ 32" "sint (GetEpochTime (take c_metaDataSize v)) \<le> sint cur"
    using ok k by (auto simp: cache_ok_def cache_values_def)
  obtain h' where h': "update_access rs b a k (take c_metaDataSize v) (heap W) = Inr (IsAccessed (take c_metaDataSize v), h')"
      "load_record rs h' a = Inr \<lparr>m_key = k, m_value = v'\<rparr>" "\<And>a'. a' \<noteq> a \<Longrightarrow> h' a' = heap W a'" "dom h' = dom (heap W)"
    using update_access_ok [OF r v(1), of b] unfolding v'_def by metis
  have h: "h' = h" "wasOn = IsAccessed (take c_metaDataSize v)"
    using up h'(1) by simp_all
  note rw = table_ok_rewrite [OF tab a r, of "W\<lparr>heap := h\<rparr>" v']
  have tab': "table_ok rs (W\<lparr>heap := h\<rparr>)" "table_map rs (W\<lparr>heap := h\<rparr>) = (table_map rs W)(k \<mapsto> v')"
    using rw h' h by simp_all
  have len: "length (snd (UpdateAccessStatus b (take c_metaDataSize v))) = c_metaDataSize"
    using v(1) by simp
  then have "length v' = length v" "take c_metaDataSize v' = snd (UpdateAccessStatus b (take c_metaDataSize v))"
    using v(1) by (simp_all add: v'_def)
  moreover have "length (take c_metaDataSize v) = 4"
    using v(1) by (simp add: c_metaDataSize_def)
  ultimately have new: "c_metaDataSize \<le> length v' \<and> length k + length v' < 2 ^ 32 \<and>
      sint (GetEpochTime (take c_metaDataSize v')) \<le> sint cur"
    using v by simp
  have "cache_values cur (table_map rs (W\<lparr>heap := h\<rparr>))"
    unfolding tab'(2) by (rule cache_values_upd) (use ok new in \<open>simp_all only: cache_ok_def\<close>)
  moreover have "perf_ok base rs (W\<lparr>heap := h\<rparr>)"
    by (rule perf_ok_rewrite [OF _ k tab'(2) \<open>length v' = length v\<close>]) (use ok in \<open>simp_all add: cache_ok_def\<close>)
  moreover have "accounted ok queued (W\<lparr>heap := h\<rparr>)"
    using ok h'(4) h(1) by (simp add: cache_ok_def accounted_def)
  ultimately show "cache_ok ok queued base rs cur (W\<lparr>heap := h\<rparr>)"
    using tab'(1) by (simp add: cache_ok_def)
  show "wasOn = IsAccessed (take c_metaDataSize v)" "table_map rs (W\<lparr>heap := h\<rparr>) = (table_map rs W)(k \<mapsto> v')"
    "load_record rs h a = Inr \<lparr>m_key = k, m_value = v'\<rparr>" "\<And>a'. a' \<noteq> a \<Longrightarrow> h a' = heap W a'"
    using h' h tab'(2) by simp_all
qed

lemma update_access_defined:
  assumes "load_record rs h a = Inr \<lparr>m_key = k, m_value = v\<rparr>" "c_metaDataSize \<le> length v"
  obtains wasOn h' where "update_access rs b a k (take c_metaDataSize v) h = Inr (wasOn, h')"
  using update_access_ok [OF assms, of b] by metis

section \<open>Get\<close>

lemma position_in_table:
  assumes ok: "table_ok rs W" and b: "b < length (m_buckets (table W))"
    and at: "j < length (m_buckets (table W) ! b)" "i < c_numDataPerEntry" "m_dataList (m_buckets (table W) ! b ! j) ! i = Some a"
  shows "a \<in> set (slot_addrs (chain_slots (m_buckets (table W) ! b)))" "a \<in> set (table_addrs (table W))"
proof -
  have "chain_ok (m_buckets (table W) ! b)"
    using table_ok_bucket [OF ok b] by (simp add: bucket_ok_def)
  from position_slot [OF this at(1,2)] at(3)
  show "a \<in> set (slot_addrs (chain_slots (m_buckets (table W) ! b)))"
    by (metis in_set_conv_decomp in_slot_addrs)
  then show "a \<in> set (table_addrs (table W))"
    using slot_addrs_in_table [OF b] by blast
qed

lemma Base_Get_cases:
  assumes ok: "table_ok rs W"
  obtains (absent) "table_map rs W key = None" "Base_Get rs W key = Inr None"
  | (present) a v where "table_map rs W key = Some v" "a \<in> set (table_addrs (table W))"
      "load_record rs (heap W) a = Inr \<lparr>m_key = key, m_value = v\<rparr>" "Base_Get rs W key = Inr (Some (a, v))"
proof -
  obtain b tag where bt: "GetBucketInfo (table W) key = (b, tag)"
    by (cases "GetBucketInfo (table W) key")
  have bk: "bucket_at (table W) (unat b) = Inr (m_buckets (table W) ! unat b)"
    using bucket_at_key [OF ok, of key] bt by simp
  from find_key [OF ok bt] show ?thesis
  proof (elim disjE exE conjE)
    assume "table_map rs W key = None" "find_chain rs (heap W) tag key 0 (key_chain (table W) key) = Inr None"
    then show ?thesis
      using absent bt bk by (simp add: Base_Get_def)
  next
    fix j i a v
    assume m: "match_at rs (heap W) tag key (key_chain (table W) key) j i a v"
      and v: "table_map rs W key = Some v"
      and f: "find_chain rs (heap W) tag key 0 (key_chain (table W) key) = Inr (Some (j, i, v))"
    have at: "m_dataList (m_buckets (table W) ! unat b ! j) ! i = Some a"
      "load_record rs (heap W) a = Inr \<lparr>m_key = key, m_value = v\<rparr>"
      using m bt by (simp_all add: match_at_def ematch_def)
    have "Base_Get rs W key = Inr (Some (a, v))"
      using f bt bk at by (simp add: Base_Get_def)
    moreover have "a \<in> set (table_addrs (table W))"
      using m bt table_ok_range [OF ok, of key] at(1)
      by (intro position_in_table(2) [OF ok, of "unat b" j i]) (simp_all add: match_at_def)
    ultimately show ?thesis
      using present v at(2) by blast
  qed
qed

definition accessed :: "Value \<Rightarrow> Value" where
  "accessed v = snd (UpdateAccessStatus True (take c_metaDataSize v)) @ drop c_metaDataSize v"

text \<open>What \<open>Get\<close> returns for a key, and what the map holds for the key after it.\<close>

definition cache_lookup :: "seconds \<Rightarrow> seconds \<Rightarrow> (Key \<rightharpoonup> Value) \<Rightarrow> Key \<Rightarrow> Value option" where
  "cache_lookup ttl cur m k = (case m k of None \<Rightarrow> None
     | Some v \<Rightarrow> if expired ttl cur v then None else Some (drop c_metaDataSize v))"

definition cache_touch :: "seconds \<Rightarrow> seconds \<Rightarrow> (Key \<rightharpoonup> Value) \<Rightarrow> Key \<Rightarrow> (Key \<rightharpoonup> Value)" where
  "cache_touch ttl cur m k = (case m k of None \<Rightarrow> m
     | Some v \<Rightarrow> if expired ttl cur v then m else m(k \<mapsto> accessed v))"

lemma Cache_Get_result:
  assumes ok: "cache_ok ok queued base rs cur W" and big: "\<forall>v. table_map rs W key = Some v \<longrightarrow> c_metaDataSize < length v"
  obtains W' where "Cache_Get rs ttl cur W key = (Inr (cache_lookup ttl cur (table_map rs W) key), W')"
    "cache_ok ok queued base rs cur W'" "table_map rs W' = cache_touch ttl cur (table_map rs W) key"
    "m_perfData (table W') = pc_Increment (m_perfData (table W))
      (if cache_lookup ttl cur (table_map rs W) key = None then CacheMissCount else CacheHitCount)"
    "manager W' = manager W" "m_setting (table W') = m_setting (table W)" "set (table_addrs (table W')) = set (table_addrs (table W))"
    "\<forall>a. a \<notin> set (table_addrs (table W)) \<longrightarrow> heap W' a = heap W a"
proof -
  have tab: "table_ok rs W" and vals: "cache_values cur (table_map rs W)"
    using ok by (simp_all add: cache_ok_def)
  show ?thesis
  proof (cases rule: Base_Get_cases [OF tab, of key])
    case 1
    then show ?thesis
      using ok by (intro that [of "count_perf CacheMissCount W"])
        (simp_all add: Cache_Get_def GetInternal_def cache_lookup_def cache_touch_def cache_counter_def)
  next
    case (2 a v)
    have v: "c_metaDataSize < length v" "metadata_of v = Inr (take c_metaDataSize v)"
      "IsExpired (take c_metaDataSize v) cur ttl = Inr (expired ttl cur v)"
      using big 2(1) metadata_of_value [of v] cache_value_IsExpired [OF vals 2(1)] by simp_all
    show ?thesis
    proof (cases "expired ttl cur v")
      case True
      then show ?thesis
        using ok 2 v by (intro that [of "count_perf CacheMissCount W"])
          (simp_all add: Cache_Get_def GetInternal_def cache_lookup_def cache_touch_def cache_counter_def)
    next
      case False
      obtain wasOn h where up: "update_access rs True a key (take c_metaDataSize v) (heap W) = Inr (wasOn, h)"
        using update_access_defined [OF 2(3), of True] v(1) by (metis less_imp_le)
      note rw = cache_ok_rewrite [OF ok 2(2,3) up]
      have frame: "\<forall>x. x \<notin> set (table_addrs (table W)) \<longrightarrow> h x = heap W x"
        using rw(5) 2(2) by metis
      show ?thesis
        using 2 v False up rw(2,3) frame by (intro that [of "count_perf CacheHitCount (W\<lparr>heap := h\<rparr>)"])
          (auto simp: Cache_Get_def GetInternal_def cache_lookup_def cache_touch_def cache_counter_def accessed_def)
    qed
  qed
qed

section \<open>Positions of a bucket\<close>

lemma in_positions [simp]: "(j, i) \<in> set (positions chain) \<longleftrightarrow> j < length chain \<and> i < c_numDataPerEntry"
  by (auto simp: positions_def intro!: bexI [of _ j])

lemma distinct_positions: "distinct (positions chain)"
proof -
  have "distinct (concat (map (\<lambda>j. map (Pair j) [0..<n]) js))" if "distinct js" for n and js :: "nat list"
    using that by (induction js) (auto simp: distinct_map inj_on_def)
  then show ?thesis
    by (simp add: positions_def)
qed

definition valid_positions :: "SharedHashTable \<Rightarrow> nat \<Rightarrow> (nat \<times> nat) list \<Rightarrow> bool" where
  "valid_positions T b ps \<longleftrightarrow> b < length (m_buckets T) \<and> distinct ps \<and>
     (\<forall>(j, i)\<in>set ps. j < length (m_buckets T ! b) \<and> i < c_numDataPerEntry)"

lemma valid_positions_all: "b < length (m_buckets T) \<Longrightarrow> valid_positions T b (positions (m_buckets T ! b))"
  by (auto simp: valid_positions_def distinct_positions)

lemma valid_positions_same:
  assumes "map length (m_buckets T') = map length (m_buckets T)"
  shows "valid_positions T' b ps = valid_positions T b ps"
proof -
  have len: "length (m_buckets T') = length (m_buckets T)"
    using assms by (metis length_map)
  have "length (m_buckets T' ! b) = length (m_buckets T ! b)" if "b < length (m_buckets T)"
    using arg_cong [OF assms, of "\<lambda>xs. xs ! b"] that len by simp
  then show ?thesis
    by (cases "b < length (m_buckets T)") (simp_all add: valid_positions_def len)
qed

definition keys_at :: "RecordSerializer \<Rightarrow> 'e World \<Rightarrow> nat \<Rightarrow> (nat \<times> nat) list \<Rightarrow> Key set" where
  "keys_at rs W b ps = {k. \<exists>j i a v. (j, i) \<in> set ps \<and> data_at (table W) b j i = Some a \<and>
     load_record rs (heap W) a = Inr \<lparr>m_key = k, m_value = v\<rparr>}"

lemma keys_at_Nil [simp]: "keys_at rs W b [] = {}"
  by (simp add: keys_at_def)

text \<open>Two positions of a bucket do not hold the same pointer.\<close>

lemma slot_addrs_unique:
  "distinct (slot_addrs sl) \<Longrightarrow> p < length sl \<Longrightarrow> q < length sl \<Longrightarrow> snd (sl ! p) = Some a \<Longrightarrow> snd (sl ! q) = Some a \<Longrightarrow> p = q"
proof (induction sl arbitrary: p q)
  case (Cons s sl)
  obtain t d where s: "s = (t, d)"
    by (cases s)
  have in_rest: "a \<in> set (slot_addrs sl)" if "snd (sl ! n) = Some a" "n < length sl" for n
    using that by (metis in_slot_addrs nth_mem prod.collapse)
  show ?case
    using Cons.prems Cons.IH in_rest s by (cases p; cases q; cases d) auto
qed simp

lemma position_unique:
  assumes ok: "table_ok rs W" and ps: "valid_positions (table W) b ps" "(j, i) \<in> set ps" "(j', i') \<in> set ps"
    and d: "data_at (table W) b j i = Some a" "data_at (table W) b j' i' = Some a"
  shows "(j, i) = (j', i')"
proof -
  let ?es = "m_buckets (table W) ! b"
  have b: "b < length (m_buckets (table W))" and jj: "j < length ?es" "j' < length ?es" "i < 16" "i' < 16"
    using ps by (auto simp: valid_positions_def c_numDataPerEntry_def)
  have all: "\<forall>e\<in>set ?es. entry_ok e"
    using table_ok_bucket [OF ok b] by (simp add: bucket_ok_def chain_ok_def)
  have "distinct (slot_addrs (chain_slots ?es))"
    using ok b by (intro distinct_bucket_addrs) (simp_all add: table_ok_def)
  then have "16 * j + i = 16 * j' + i'"
    using d jj chain_slots_nth [OF all jj(1,3)] chain_slots_nth [OF all jj(2,4)] length_chain_slots [OF all]
    by (intro slot_addrs_unique [of "chain_slots ?es" _ _ a]) (simp_all add: data_at_def)
  then have "(16 * j + i) div 16 = (16 * j' + i') div 16" "(16 * j + i) mod 16 = (16 * j' + i') mod 16"
    by simp_all
  then show ?thesis
    using jj by simp
qed

text \<open>The keys at a list of positions, one position at a time.\<close>

lemma keys_at_empty:
  "data_at (table W) b j i = None \<Longrightarrow> keys_at rs W b ((j, i) # ps) = keys_at rs W b ps"
  by (auto simp: keys_at_def)

lemma keys_at_Cons:
  assumes ok: "table_ok rs W" and ps: "valid_positions (table W) b ((j, i) # ps)" and d: "data_at (table W) b j i = Some a"
    and r: "load_record rs (heap W) a = Inr \<lparr>m_key = k, m_value = v\<rparr>"
  shows "keys_at rs W b ((j, i) # ps) = insert k (keys_at rs W b ps)" "k \<notin> keys_at rs W b ps"
    "a \<in> set (table_addrs (table W))" "table_map rs W k = Some v"
proof -
  show "keys_at rs W b ((j, i) # ps) = insert k (keys_at rs W b ps)"
    using d r by (auto simp: keys_at_def)
  have in_table: "x \<in> set (table_addrs (table W))" if "(p, q) \<in> set ((j, i) # ps)" "data_at (table W) b p q = Some x" for p q x
    using ps that by (intro position_in_table(2) [OF ok, of b p q]) (auto simp: valid_positions_def data_at_def)
  show a: "a \<in> set (table_addrs (table W))"
    using in_table d by auto
  then show "table_map rs W k = Some v"
    using r ok by (auto simp: table_map_iff)
  show "k \<notin> keys_at rs W b ps"
  proof
    assume "k \<in> keys_at rs W b ps"
    then obtain p q x y where pq: "(p, q) \<in> set ps" "data_at (table W) b p q = Some x"
        "load_record rs (heap W) x = Inr \<lparr>m_key = k, m_value = y\<rparr>"
      by (auto simp: keys_at_def)
    then have "x = a"
      using table_record_unique [OF ok _ a pq(3) r] in_table [of p q x] by simp
    then have "(p, q) = (j, i)"
      using position_unique [OF ok ps, of p q j i] pq d by simp
    then show False
      using ps pq(1) by (simp add: valid_positions_def)
  qed
qed

text \<open>All the positions of a bucket: the keys of the table that belong there.\<close>

lemma keys_at_positions:
  assumes ok: "table_ok rs W" and b: "b < length (m_buckets (table W))"
  shows "keys_at rs W b (positions (m_buckets (table W) ! b)) = {k \<in> dom (table_map rs W). key_bucket (table W) k = b}"
proof (intro equalityI subsetI)
  let ?es = "m_buckets (table W) ! b"
  note bok = table_ok_bucket [OF ok b]
  fix k
  assume "k \<in> keys_at rs W b (positions ?es)"
  then obtain j i a v where at: "j < length ?es" "i < c_numDataPerEntry" "m_dataList (?es ! j) ! i = Some a"
      "load_record rs (heap W) a = Inr \<lparr>m_key = k, m_value = v\<rparr>"
    by (auto simp: keys_at_def data_at_def)
  then have "table_map rs W k = Some v"
    using position_in_table(2) [OF ok b at(1-3)] ok by (auto simp: table_map_iff)
  moreover obtain t where "(t, Some a) \<in> set (chain_slots ?es)"
    using position_in_table(1) [OF ok b at(1-3)] by (auto simp: in_slot_addrs)
  then have "key_bucket (table W) k = b"
    using bucket_slot [OF bok] at(4) by fastforce
  ultimately show "k \<in> {k \<in> dom (table_map rs W). key_bucket (table W) k = b}"
    by auto
next
  let ?es = "m_buckets (table W) ! b"
  note bok = table_ok_bucket [OF ok b]
  fix k
  assume k: "k \<in> {k \<in> dom (table_map rs W). key_bucket (table W) k = b}"
  obtain b' tag where bt: "GetBucketInfo (table W) k = (b', tag)"
    by (cases "GetBucketInfo (table W) k")
  obtain v where "map_of (bucket_kvs rs (heap W) ?es) k = Some v"
    using k by (auto simp: table_map_bucket [OF ok])
  then have "(k, v) \<in> set (bucket_kvs rs (heap W) ?es)"
    by (rule map_of_SomeD)
  then obtain j i a where "match_at rs (heap W) tag k ?es j i a v"
    using bucket_kvs_match [OF bok bt] by blast
  then show "k \<in> keys_at rs W b (positions ?es)"
    by (auto simp: keys_at_def data_at_def match_at_def ematch_def)
qed

section \<open>What a visit does to the records at the positions\<close>

definition visited :: "(Value \<Rightarrow> Value option) \<Rightarrow> Key set \<Rightarrow> (Key \<rightharpoonup> Value) \<Rightarrow> (Key \<rightharpoonup> Value)" where
  "visited f K m k = (if k \<in> K then Option.bind (m k) f else m k)"

lemma visited_empty [simp]: "visited f {} m = m"
  by (rule ext) (simp add: visited_def)

lemma visited_insert: "k \<notin> K \<Longrightarrow> m k = Some v \<Longrightarrow> visited f (insert k K) m = visited f K (m(k := f v))"
  by (rule ext) (simp add: visited_def)

definition data_size :: "(Key \<rightharpoonup> Value) \<Rightarrow> nat" where
  "data_size m = (\<Sum>k\<in>dom m. length k + length (the (m k)))"

lemma data_size_del: "m k = Some v \<Longrightarrow> finite (dom m) \<Longrightarrow> data_size m = data_size (m(k := None)) + (length k + length v)"
  using sum_dom_del [of m k "\<lambda>k v. length k + length (the v)"] by (simp add: data_size_def domI)

lemma data_size_upd: "m k = Some v \<Longrightarrow> length v' = length v \<Longrightarrow> data_size (m(k \<mapsto> v')) = data_size m"
proof -
  assume m: "m k = Some v" "length v' = length v"
  then have "dom (m(k \<mapsto> v')) = dom m"
    by auto
  then show ?thesis
    unfolding data_size_def by (intro sum.cong) (use m in auto)
qed

text \<open>
  The relation between the worlds before and after the loops visited some positions of a bucket.
\<close>

definition same_shape :: "'e World \<Rightarrow> 'e World \<Rightarrow> bool" where
  "same_shape W W' \<longleftrightarrow> map length (m_buckets (table W')) = map length (m_buckets (table W)) \<and>
     m_setting (table W') = m_setting (table W) \<and> set (table_addrs (table W')) \<subseteq> set (table_addrs (table W)) \<and>
     (\<forall>a. a \<notin> set (table_addrs (table W)) \<longrightarrow> heap W' a = heap W a)"

lemma same_shape_refl [simp]: "same_shape W W"
  by (simp add: same_shape_def)

lemma same_shape_trans: "same_shape W W' \<Longrightarrow> same_shape W' W'' \<Longrightarrow> same_shape W W''"
  unfolding same_shape_def by (metis subset_iff)

lemma same_shape_valid: "same_shape W W' \<Longrightarrow> valid_positions (table W') b ps = valid_positions (table W) b ps"
  by (intro valid_positions_same) (simp add: same_shape_def)

lemma same_shape_count [simp]: "same_shape W (count_perf c W') = same_shape W W'"
  by (simp add: same_shape_def)

lemma same_shape_length: "same_shape W W' \<Longrightarrow> length (m_buckets (table W')) = length (m_buckets (table W))"
  unfolding same_shape_def by (metis length_map)

lemma same_shape_bucket: "same_shape W W' \<Longrightarrow> GetBucketInfo (table W') = GetBucketInfo (table W)"
  by (rule GetBucketInfo_length) (rule same_shape_length)

lemma valid_positions_tl: "valid_positions T b (p # ps) \<Longrightarrow> valid_positions T b ps"
  by (simp add: valid_positions_def)

context action_registry
begin

lemma remove_step:
  assumes ok_W: "cache_ok ok queued base rs cur W" and ps: "valid_positions (table W) b ((j, i) # ps)"
    and d: "data_at (table W) b j i = Some a" and r: "load_record rs (heap W) a = Inr \<lparr>m_key = k, m_value = v\<rparr>"
  obtains W' where "Remove_at rs register b j i W = (Inr (), W')"
    "cache_ok ok queued base rs cur W'" "table_map rs W' = (table_map rs W)(k := None)"
    "keys_at rs W' b ps = keys_at rs W b ps" "same_shape W W'"
proof -
  have tab: "table_ok rs W" and acc: "accounted ok queued W" and perf: "perf_ok base rs W" and vals: "cache_values cur (table_map rs W)"
    using ok_W by (simp_all add: cache_ok_def)
  have b: "b < length (m_buckets (table W))" and at: "j < length (m_buckets (table W) ! b)" "i < c_numDataPerEntry"
      "m_dataList (m_buckets (table W) ! b ! j) ! i = Some a"
    using ps d by (auto simp: valid_positions_def data_at_def)
  note keys = keys_at_Cons [OF tab ps d r]
  obtain W' where W': "Remove_at rs register b j i W = (fst (register a (manager W)), W')"
      "effect rs register W (Some a) {} ((table_map rs W)(k := None)) (fst (register a (manager W))) W'"
      "heap W' = heap W" "map length (m_buckets (table W')) = map length (m_buckets (table W))"
      "m_perfData (table W') = UpdatePerfDataForRemove rs (Stat_new (ksize k) (vsize v) 0) (m_perfData (table W))"
      "m_buckets (table W') = (m_buckets (table W))[b := upd_slot (m_buckets (table W) ! b) j i None 0]"
    using Remove_at_effect [OF tab b at r, of register] by blast
  have map: "table_ok rs W'" "table_map rs W' = (table_map rs W)(k := None)" "m_setting (table W') = m_setting (table W)"
    and addrs: "set (table_addrs (table W')) \<subseteq> set (table_addrs (table W))"
    using W'(2) by (auto simp: effect_def)
  note reg = removed_accounted [OF tab acc W'(2,3)]
  have "perf_ok base rs W'"
    using removed_perf [OF map(2) keys(4) _ _ W'(4,5) perf] load_valid [OF r] by simp
  then have "cache_ok ok queued base rs cur W'"
    using map reg cache_values_del [OF vals] by (simp add: cache_ok_def)
  moreover have "data_at (table W') b p q = data_at (table W) b p q" if "(p, q) \<in> set ps" for p q
  proof -
    have "(p, q) \<noteq> (j, i)"
      using ps that by (auto simp: valid_positions_def)
    then show ?thesis
      using b at(1,2) unfolding data_at_def W'(6) upd_slot_def by (cases "p = j"; cases "q = i") auto
  qed
  then have "keys_at rs W' b ps = keys_at rs W b ps"
    unfolding keys_at_def W'(3) by (intro Collect_cong) (metis (no_types, lifting))
  ultimately show ?thesis
    using that [of W'] W'(1,3,4) reg map(2,3) addrs by (simp add: same_shape_def)
qed

lemma clear_step:
  assumes ok_W: "cache_ok ok queued base rs cur W" and ps: "valid_positions (table W) b ((j, i) # ps)"
    and d: "data_at (table W) b j i = Some a" and r: "load_record rs (heap W) a = Inr \<lparr>m_key = k, m_value = v\<rparr>"
    and up: "update_access rs c a k (take c_metaDataSize v) (heap W) = Inr (wasOn, h)"
  shows "keys_at rs (W\<lparr>heap := h\<rparr>) b ps = keys_at rs W b ps" "same_shape W (W\<lparr>heap := h\<rparr>)"
proof -
  have tab: "table_ok rs W"
    using ok_W by (simp add: cache_ok_def)
  note keys = keys_at_Cons [OF tab ps d r]
  note rw = cache_ok_rewrite [OF ok_W keys(3) r up]
  have "(\<exists>v. load_record rs h x = Inr \<lparr>m_key = k', m_value = v\<rparr>) = (\<exists>v. load_record rs (heap W) x = Inr \<lparr>m_key = k', m_value = v\<rparr>)"
    for x k'
    using rw(4,5) r by (cases "x = a") (auto simp: load_record_def)
  then show "keys_at rs (W\<lparr>heap := h\<rparr>) b ps = keys_at rs W b ps"
    by (simp add: keys_at_def)
  have "\<forall>x. x \<notin> set (table_addrs (table W)) \<longrightarrow> h x = heap W x"
    using rw(5) keys(3) by metis
  then show "same_shape W (W\<lparr>heap := h\<rparr>)"
    by (simp add: same_shape_def)
qed

end

end
