(* ===== verification/L4_CacheEvict.thy ===== *)
theory L4_CacheEvict
  imports L4_CacheProps
begin

text \<open>
  The eviction loops of the cache: what they do to the map of the table, to the counters and to the
  number of bytes that are still to be freed, for any action manager that meets the contract of
  \<open>L4_Registry\<close>; and the properties of the cache.
\<close>

section \<open>Visiting a record\<close>

definition expire_visit :: "seconds \<Rightarrow> seconds \<Rightarrow> Value \<Rightarrow> Value option" where
  "expire_visit ttl cur v = (if expired ttl cur v then None else Some v)"

text \<open>The clock: a record that is expired or was not accessed goes, an accessed one loses the bit.\<close>

definition unaccessed :: "Value \<Rightarrow> Value" where
  "unaccessed v = snd (UpdateAccessStatus False (take c_metaDataSize v)) @ drop c_metaDataSize v"

definition clock_visit :: "seconds \<Rightarrow> seconds \<Rightarrow> Value \<Rightarrow> Value option" where
  "clock_visit ttl cur v =
     (if expired ttl cur v \<or> \<not> IsAccessed (take c_metaDataSize v) then None else Some (unaccessed v))"

lemma clock_visit_twice:
  assumes "c_metaDataSize \<le> length v" "clock_visit ttl cur v = Some v'"
  shows "clock_visit ttl cur v' = None"
proof -
  have "length (take c_metaDataSize v) = 4"
    using assms(1) by (simp add: c_metaDataSize_def)
  then have "\<not> IsAccessed (take c_metaDataSize v')"
    using assms by (auto simp: clock_visit_def unaccessed_def c_metaDataSize_def split: if_splits)
  then show ?thesis
    by (simp add: clock_visit_def)
qed

lemma freed_size:
  assumes "valid_key k" "valid_value v" "length k + length v < 2 ^ 32"
  shows "unat (ucast (ucast (ksize k) + vsize v :: u32) :: u64) = length k + length v"
proof -
  have "unat (ucast (ksize k) :: u32) = length k"
    using unat_ksize [OF assms(1)] assms(1) by (simp add: unsigned_ucast_eq take_bit_nat_eq_self valid_key_def)
  then have "unat (ucast (ksize k) + vsize v :: u32) = length k + length v"
    using assms unat_vsize [OF assms(2)] by (simp add: unat_word_ariths)
  then show ?thesis
    using assms(3) by (simp add: unsigned_ucast_eq take_bit_nat_eq_self)
qed

lemma less_freed:
  fixes n :: u64
  assumes "unat f = s"
  shows "unat (if n \<le> f then 0 else n - f) = unat n - s"
proof (cases "n \<le> f")
  case True
  then show ?thesis
    using assms by (simp add: word_le_nat_alt)
next
  case False
  then have "f \<le> n"
    by simp
  then show ?thesis
    using False assms by (simp add: unat_sub)
qed

lemma position_record:
  assumes ok: "table_ok rs W" and ps: "valid_positions (table W) b ((j, i) # ps)" and d: "data_at (table W) b j i = Some a"
  obtains k v where "load_record rs (heap W) a = Inr \<lparr>m_key = k, m_value = v\<rparr>"
proof -
  have "a \<in> set (table_addrs (table W))"
    using ps d by (intro position_in_table(2) [OF ok, of b j i a]) (simp_all add: valid_positions_def data_at_def)
  then obtain r where "load_record rs (heap W) a = Inr r"
    using table_ok_load [OF ok] by blast
  then show ?thesis
    using that by (cases r) auto
qed

text \<open>
  A visit of the clock at one position.  An expired value is left alone; any other loses its access bit first.
\<close>

definition after_visit :: "u64 \<Rightarrow> u64 \<Rightarrow> Value \<Rightarrow> Value" where
  "after_visit ttl cur v = (if expired ttl cur v then v else unaccessed v)"

lemma clock_visit_after:
  "clock_visit ttl cur v =
    (if expired ttl cur v \<or> \<not> IsAccessed (take c_metaDataSize v) then None else Some (after_visit ttl cur v))"
  by (simp add: clock_visit_def after_visit_def)

context action_registry
begin

lemma evict_expired_visits:
  "cache_ok ok queued base rs cur W \<Longrightarrow> valid_positions (table W) b ps \<Longrightarrow>
    \<exists>W'. evict_expired rs register ttl cur b ps W = (Inr (), W') \<and> cache_ok ok queued base rs cur W' \<and>
      same_shape W W' \<and> table_map rs W' = visited (expire_visit ttl cur) (keys_at rs W b ps) (table_map rs W)"
proof (induction ps arbitrary: W)
  case Nil
  then show ?case by simp
next
  case (Cons p ps)
  obtain j i where p: "p = (j, i)"
    by (cases p)
  have vp: "valid_positions (table W) b ((j, i) # ps)" "valid_positions (table W) b ps"
    using Cons.prems(2) valid_positions_tl by (auto simp: p)
  have tab: "table_ok rs W" and vals: "cache_values cur (table_map rs W)"
    using Cons.prems(1) by (simp_all add: cache_ok_def)
  show ?case
  proof (cases "data_at (table W) b j i")
    case None
    then show ?thesis
      using Cons.IH [OF Cons.prems(1) vp(2)] keys_at_empty [OF None] by (simp add: p)
  next
    case (Some a)
    obtain k v where r: "load_record rs (heap W) a = Inr \<lparr>m_key = k, m_value = v\<rparr>"
      using position_record [OF tab vp(1) Some] .
    note keys = keys_at_Cons [OF tab vp(1) Some r]
    have md: "metadata_of v = Inr (take c_metaDataSize v)"
      "IsExpired (take c_metaDataSize v) cur ttl = Inr (expired ttl cur v)"
      using vals keys(4) metadata_of_value cache_value_IsExpired [OF vals keys(4)] by (auto simp: cache_values_def)
    show ?thesis
    proof (cases "expired ttl cur v")
      case False
      have "visited (expire_visit ttl cur) (keys_at rs W b ((j, i) # ps)) (table_map rs W) =
          visited (expire_visit ttl cur) (keys_at rs W b ps) (table_map rs W)"
        using False keys(1,2) fun_upd_triv [of "table_map rs W" k]
        by (simp add: visited_insert [where m = "table_map rs W", OF keys(2,4)] expire_visit_def keys(4) [symmetric])
      then show ?thesis
        using False Some r md Cons.IH [OF Cons.prems(1) vp(2)] by (simp add: p)
    next
      case True
      obtain W1 where W1: "Remove_at rs register b j i W = (Inr (), W1)"
          "cache_ok ok queued base rs cur W1" "table_map rs W1 = (table_map rs W)(k := None)"
          "keys_at rs W1 b ps = keys_at rs W b ps" "same_shape W W1"
        using remove_step [OF Cons.prems(1) vp(1) Some r] by blast
      let ?W1 = "count_perf EvictedRecordsCount W1"
      have "cache_ok ok queued base rs cur ?W1" "valid_positions (table ?W1) b ps"
        using W1(2,5) vp(2) same_shape_valid [of W ?W1 b ps] by (simp_all add: cache_counter_def)
      from Cons.IH [OF this] obtain W' where W': "evict_expired rs register ttl cur b ps ?W1 = (Inr (), W')"
          "cache_ok ok queued base rs cur W'" "same_shape ?W1 W'"
          "table_map rs W' = visited (expire_visit ttl cur) (keys_at rs ?W1 b ps) (table_map rs ?W1)"
        by blast
      have "keys_at rs ?W1 b ps = keys_at rs W b ps"
        using W1(4) by (simp add: keys_at_def data_at_def)
      then have "table_map rs W' = visited (expire_visit ttl cur) (keys_at rs W b ((j, i) # ps)) (table_map rs W)"
        using True by (simp add: W'(4) W1(3) keys(1) visited_insert [where m = "table_map rs W", OF keys(2,4)] expire_visit_def)
      moreover have "same_shape W W'"
        using W1(5) W'(3) same_shape_trans [of W ?W1 W'] by simp
      ultimately show ?thesis
        using True Some r md W1(1) W'(1,2) by (simp add: p)
    qed
  qed
qed


lemma visit_clears_access:
  assumes ok: "cache_ok ok queued base rs cur W" and valid: "valid_positions (table W) b ((j, i) # ps)"
    and d: "data_at (table W) b j i = Some a" and r: "load_record rs (heap W) a = Inr \<lparr>m_key = k, m_value = v\<rparr>"
  obtains h W0 where "update_access rs False a k (take c_metaDataSize v) (heap W) = Inr (IsAccessed (take c_metaDataSize v), h)"
    "W0 = (if expired ttl cur v then W else W\<lparr>heap := h\<rparr>)" "load_record rs (heap W0) a = Inr \<lparr>m_key = k, m_value = after_visit ttl cur v\<rparr>"
    "cache_ok ok queued base rs cur W0" "keys_at rs W0 b ps = keys_at rs W b ps" "same_shape W W0" "table W0 = table W"
    "table_map rs W0 = (table_map rs W)(k \<mapsto> after_visit ttl cur v)" "data_size (table_map rs W0) = data_size (table_map rs W)"
proof -
  have tab: "table_ok rs W" and vals: "cache_values cur (table_map rs W)"
    using ok by (simp_all add: cache_ok_def)
  note keys = keys_at_Cons [OF tab valid d r]
  have len: "c_metaDataSize \<le> length v"
    using vals keys(4) by (auto simp: cache_values_def)
  obtain wasOn h where up: "update_access rs False a k (take c_metaDataSize v) (heap W) = Inr (wasOn, h)"
    using update_access_defined [OF r len] by metis
  note rw = cache_ok_rewrite [OF ok keys(3) r up]
  define W0 where "W0 = (if expired ttl cur v then W else W\<lparr>heap := h\<rparr>)"
  have len0: "length (after_visit ttl cur v) = length v"
    using len by (simp add: after_visit_def unaccessed_def)
  have m0: "table_map rs W0 = (table_map rs W)(k \<mapsto> after_visit ttl cur v)"
    using rw(3) keys(4) by (auto simp: W0_def after_visit_def unaccessed_def)
  show ?thesis
  proof
    show "update_access rs False a k (take c_metaDataSize v) (heap W) = Inr (IsAccessed (take c_metaDataSize v), h)"
      using up rw(1) by simp
    show "load_record rs (heap W0) a = Inr \<lparr>m_key = k, m_value = after_visit ttl cur v\<rparr>"
      using r rw(4) by (simp add: W0_def after_visit_def unaccessed_def)
    show "data_size (table_map rs W0) = data_size (table_map rs W)"
      unfolding m0 using data_size_upd [where m = "table_map rs W", OF keys(4) len0] .
    show "cache_ok ok queued base rs cur W0" "keys_at rs W0 b ps = keys_at rs W b ps" "same_shape W W0" "table W0 = table W"
      using ok rw(2) clear_step [OF ok valid d r up] same_shape_refl by (simp_all add: W0_def)
  qed (use m0 W0_def in simp_all)
qed

lemma evict_position:
  assumes ok: "cache_ok ok queued base rs cur W" and valid: "valid_positions (table W) b ((j, i) # ps)"
    and d: "data_at (table W) b j i = Some a" and r: "load_record rs (heap W) a = Inr \<lparr>m_key = k, m_value = v\<rparr>"
  obtains left1 W1 where
    "evict_bucket rs register ttl cur b ((j, i) # ps) left W = evict_bucket rs register ttl cur b ps left1 W1"
    "cache_ok ok queued base rs cur W1" "same_shape W W1" "keys_at rs W1 b ps = keys_at rs W b ps"
    "table_map rs W1 = (table_map rs W)(k := clock_visit ttl cur v)"
    "data_size (table_map rs W1) \<le> data_size (table_map rs W)"
    "unat left1 = unat left - (data_size (table_map rs W) - data_size (table_map rs W1))"
proof -
  have tab: "table_ok rs W" and vals: "cache_values cur (table_map rs W)"
    using ok by (simp_all add: cache_ok_def)
  note keys = keys_at_Cons [OF tab valid d r]
  have len: "c_metaDataSize \<le> length v" "length k + length v < 2 ^ 32"
    using vals keys(4) by (auto simp: cache_values_def)
  have md: "metadata_of v = Inr (take c_metaDataSize v)"
    "IsExpired (take c_metaDataSize v) cur ttl = Inr (expired ttl cur v)"
    using len(1) metadata_of_value cache_value_IsExpired [OF vals keys(4)] by auto
  obtain h W0 where up: "update_access rs False a k (take c_metaDataSize v) (heap W) = Inr (IsAccessed (take c_metaDataSize v), h)"
    and W0: "W0 = (if expired ttl cur v then W else W\<lparr>heap := h\<rparr>)"
      "load_record rs (heap W0) a = Inr \<lparr>m_key = k, m_value = after_visit ttl cur v\<rparr>"
      "cache_ok ok queued base rs cur W0" "keys_at rs W0 b ps = keys_at rs W b ps" "same_shape W W0" "table W0 = table W"
      "table_map rs W0 = (table_map rs W)(k \<mapsto> after_visit ttl cur v)" "data_size (table_map rs W0) = data_size (table_map rs W)"
    using visit_clears_access [OF ok valid d r] .
  show ?thesis
  proof (cases "clock_visit ttl cur v")
    case (Some v')
    then have c: "\<not> expired ttl cur v" "IsAccessed (take c_metaDataSize v)" "v' = after_visit ttl cur v"
      by (auto simp: clock_visit_after split: if_splits)
    show ?thesis
    proof
      show "evict_bucket rs register ttl cur b ((j, i) # ps) left W = evict_bucket rs register ttl cur b ps left W0"
        using c d r md up by (simp add: W0(1))
    qed (use W0 Some c(3) in simp_all)
  next
    case None
    then have c: "expired ttl cur v \<or> \<not> IsAccessed (take c_metaDataSize v)"
      by (auto simp: clock_visit_after split: if_splits)
    obtain W1 where W1: "Remove_at rs register b j i W0 = (Inr (), W1)"
        "cache_ok ok queued base rs cur W1" "table_map rs W1 = (table_map rs W0)(k := None)"
        "keys_at rs W1 b ps = keys_at rs W0 b ps" "same_shape W0 W1"
      using remove_step [OF W0(3) _ _ W0(2), of b j i ps] valid d W0(6) by auto
    let ?freed = "ucast (ucast (ksize k) + vsize v :: u32) :: u64"
    let ?left = "if left \<le> ?freed then 0 else left - ?freed"
    have m1: "table_map rs W1 = (table_map rs W)(k := None)"
      by (simp add: W1(3) W0(7))
    have size: "data_size (table_map rs W) = data_size (table_map rs W1) + (length k + length v)"
      using data_size_del [where m = "table_map rs W", OF keys(4) finite_table_map] by (simp add: m1)
    have left: "unat ?left = unat left - (length k + length v)"
      by (rule less_freed, rule freed_size [OF _ _ len(2)]) (use load_valid [OF r] in simp_all)
    show ?thesis
    proof
      show "evict_bucket rs register ttl cur b ((j, i) # ps) left W =
          evict_bucket rs register ttl cur b ps ?left (count_perf EvictedRecordsCount W1)"
        using W1(1) c d r md up by (cases "expired ttl cur v") (simp_all add: W0(1) Let_def)
      show "keys_at rs (count_perf EvictedRecordsCount W1) b ps = keys_at rs W b ps"
        using W1(4) W0(4) by (simp add: keys_at_def data_at_def)
      show "same_shape W (count_perf EvictedRecordsCount W1)"
        using W0(5) W1(5) same_shape_trans by (metis same_shape_count)
    qed (use W1(2) None m1 size left in \<open>simp_all add: cache_counter_def\<close>)
  qed
qed

text \<open>
  A visit of the clock: the bytes that are still to be freed go down by what leaves the table.
\<close>

lemma evict_bucket_visits:
  "cache_ok ok queued base rs cur W \<Longrightarrow> valid_positions (table W) b ps \<Longrightarrow>
    \<exists>left' W'. evict_bucket rs register ttl cur b ps left W = (Inr (), left', W') \<and> cache_ok ok queued base rs cur W' \<and>
      same_shape W W' \<and> table_map rs W' = visited (clock_visit ttl cur) (keys_at rs W b ps) (table_map rs W) \<and>
      data_size (table_map rs W') \<le> data_size (table_map rs W) \<and>
      unat left' = unat left - (data_size (table_map rs W) - data_size (table_map rs W'))"
proof (induction ps arbitrary: W left)
  case Nil
  then show ?case by simp
next
  case (Cons p ps)
  obtain j i where p: "p = (j, i)"
    by (cases p)
  have vp: "valid_positions (table W) b ((j, i) # ps)" "valid_positions (table W) b ps"
    using Cons.prems(2) valid_positions_tl by (auto simp: p)
  have tab: "table_ok rs W"
    using Cons.prems(1) by (simp add: cache_ok_def)
  show ?case
  proof (cases "data_at (table W) b j i")
    case None
    then show ?thesis
      using Cons.IH [OF Cons.prems(1) vp(2), of left] keys_at_empty [OF None] by (simp add: p)
  next
    case (Some a)
    obtain k v where r: "load_record rs (heap W) a = Inr \<lparr>m_key = k, m_value = v\<rparr>"
      using position_record [OF tab vp(1) Some] .
    note keys = keys_at_Cons [OF tab vp(1) Some r]
    obtain left1 W1 where one:
        "evict_bucket rs register ttl cur b ((j, i) # ps) left W = evict_bucket rs register ttl cur b ps left1 W1"
      and W1: "cache_ok ok queued base rs cur W1" "same_shape W W1" "keys_at rs W1 b ps = keys_at rs W b ps"
        "table_map rs W1 = (table_map rs W)(k := clock_visit ttl cur v)"
        "data_size (table_map rs W1) \<le> data_size (table_map rs W)"
        "unat left1 = unat left - (data_size (table_map rs W) - data_size (table_map rs W1))"
      using evict_position [OF Cons.prems(1) vp(1) Some r] .
    obtain left' W' where W': "evict_bucket rs register ttl cur b ps left1 W1 = (Inr (), left', W')"
        "cache_ok ok queued base rs cur W'" "same_shape W1 W'"
        "table_map rs W' = visited (clock_visit ttl cur) (keys_at rs W1 b ps) (table_map rs W1)"
        "data_size (table_map rs W') \<le> data_size (table_map rs W1)"
        "unat left' = unat left1 - (data_size (table_map rs W1) - data_size (table_map rs W'))"
      using Cons.IH [OF W1(1), of left1] same_shape_valid [OF W1(2)] vp(2) by blast
    have "table_map rs W' = visited (clock_visit ttl cur) (keys_at rs W b (p # ps)) (table_map rs W)"
      using W'(4) by (simp add: p W1(3,4) keys(1) visited_insert [where m = "table_map rs W", OF keys(2,4)])
    then show ?thesis
      using one W'(1,2,5,6) W1(5,6) same_shape_trans [OF W1(2) W'(3)] by (auto simp: p)
  qed
qed


end

section \<open>Visits of whole buckets\<close>

definition bucket_visited :: "(Value \<Rightarrow> Value option) \<Rightarrow> SharedHashTable \<Rightarrow> nat \<Rightarrow> (Key \<rightharpoonup> Value) \<Rightarrow> (Key \<rightharpoonup> Value)" where
  "bucket_visited f T b m k = (if key_bucket T k = b then Option.bind (m k) f else m k)"

lemma visited_bucket:
  assumes "table_ok rs W" "b < length (m_buckets (table W))"
  shows "visited f (keys_at rs W b (positions (m_buckets (table W) ! b))) (table_map rs W) = bucket_visited f (table W) b (table_map rs W)"
  by (rule ext) (auto simp: visited_def bucket_visited_def keys_at_positions [OF assms] domIff)

text \<open>How often \<open>n\<close> steps of the clock from position \<open>idx\<close> visit bucket \<open>b\<close> of \<open>N\<close>.\<close>

primrec visits :: "nat \<Rightarrow> nat \<Rightarrow> nat \<Rightarrow> nat \<Rightarrow> nat" where
  "visits N b 0 idx = 0"
| "visits N b (Suc n) idx = (if idx mod N = b then 1 else 0) + visits N b n (Suc idx)"

lemma visits_add: "visits N b (m + n) idx = visits N b m idx + visits N b n (idx + m)"
  by (induction m arbitrary: idx) simp_all

lemma visits_pos: "t < n \<Longrightarrow> (idx + t) mod N = b \<Longrightarrow> 0 < visits N b n idx"
proof (induction n arbitrary: t idx)
  case (Suc n)
  then show ?case
    by (cases t) auto
qed simp

lemma visits_round: "b < N \<Longrightarrow> 0 < visits N b N idx"
proof -
  assume b: "b < N"
  let ?t = "(b + N - idx mod N) mod N"
  have "idx mod N \<le> b + N"
    using b by (simp add: less_imp_le trans_le_add2)
  then have "(idx + (b + N - idx mod N)) mod N = b"
    using b by (metis add.commute le_add_diff_inverse mod_add_left_eq mod_add_self2 mod_less)
  then have "(idx + ?t) mod N = b"
    by (simp add: mod_add_right_eq)
  then show ?thesis
    using b by (intro visits_pos [of ?t]) simp_all
qed

lemma visits_two_rounds: "b < N \<Longrightarrow> 2 \<le> visits N b (N * 2) idx"
  using visits_round [of b N idx] visits_round [of b N "idx + N"] visits_add [of N b N N idx] by (simp add: mult_2_right)

text \<open>A record after some visits of the clock.\<close>

definition visited_times :: "(Value \<Rightarrow> Value option) \<Rightarrow> nat \<Rightarrow> Value option \<Rightarrow> Value option" where
  "visited_times f n = (\<lambda>v. Option.bind v f) ^^ n"

lemma visited_times_0 [simp]: "visited_times f 0 v = v"
  by (simp add: visited_times_def)

lemma visited_times_add: "visited_times f (m + n) v = visited_times f n (visited_times f m v)"
  by (simp add: visited_times_def funpow_add [of n m, simplified add.commute [of n]])

lemma visited_times_None [simp]: "visited_times f n None = None"
  by (induction n) (simp_all add: visited_times_def)

lemma visited_times_1: "visited_times f (Suc 0) v = Option.bind v f"
  by (simp add: visited_times_def)

lemma clock_two_visits:
  assumes "\<And>v. x = Some v \<Longrightarrow> c_metaDataSize \<le> length v" "2 \<le> n"
  shows "visited_times (clock_visit ttl cur) n x = None"
proof -
  obtain m where n: "n = Suc 0 + (Suc 0 + m)"
    using assms(2) by (intro that [of "n - 2"]) simp
  have "Option.bind (Option.bind x (clock_visit ttl cur)) (clock_visit ttl cur) = None"
  proof (cases x)
    case (Some v)
    then show ?thesis
      using assms(1) clock_visit_twice [of v ttl cur] by (cases "clock_visit ttl cur v") simp_all
  qed simp
  then show ?thesis
    by (simp only: n visited_times_add visited_times_1 visited_times_None)
qed

lemma Cache_update_swap:
  "C\<lparr>m_currentEvictBucketIndex := x, base_world := w\<rparr> = C\<lparr>base_world := w, m_currentEvictBucketIndex := x\<rparr>"
  by simp

context action_registry
begin

lemma EvictBasedOnTime_result:
  assumes ok_W: "cache_ok ok queued base rs cur W"
  obtains W' where "EvictBasedOnTime rs register ttl cur key W = (Inr (), W')" "cache_ok ok queued base rs cur W'"
    "same_shape W W'" "table_map rs W' = bucket_visited (expire_visit ttl cur) (table W) (key_bucket (table W) key) (table_map rs W)"
proof -
  have tab: "table_ok rs W"
    using ok_W by (simp add: cache_ok_def)
  note b = table_ok_range [OF tab, of key]
  show ?thesis
    using evict_expired_visits [OF ok_W valid_positions_all [OF b], of ttl] bucket_at_key [OF tab, of key] that
    by (auto simp: EvictBasedOnTime_def visited_bucket [OF tab b])
qed

text \<open>One bucket of the clock hand.\<close>

lemma evict_loop_step:
  fixes C :: "'e Cache"
  assumes ok: "cache_ok ok queued base rs cur (base_world C)" and hand: "unat (m_currentEvictBucketIndex C) + Suc n < 2 ^ 64" and left: "left \<noteq> 0"
  obtains left1 W1 where "evict_loop (Suc n) rs register cur left C =
      evict_loop n rs register cur left1 (C\<lparr>base_world := W1, m_currentEvictBucketIndex := m_currentEvictBucketIndex C + 1\<rparr>)"
    "unat (m_currentEvictBucketIndex C + 1) = Suc (unat (m_currentEvictBucketIndex C))"
    "cache_ok ok queued base rs cur W1" "same_shape (base_world C) W1"
    "\<forall>k. table_map rs W1 k = visited_times (clock_visit (m_recordTimeToLive C) cur)
      (if unat (m_currentEvictBucketIndex C) mod length (m_buckets (table (base_world C))) = key_bucket (table (base_world C)) k then 1 else 0)
      (table_map rs (base_world C) k)"
    "data_size (table_map rs W1) \<le> data_size (table_map rs (base_world C))"
    "unat left1 = unat left - (data_size (table_map rs (base_world C)) - data_size (table_map rs W1))"
proof -
  let ?W = "base_world C" and ?idx = "m_currentEvictBucketIndex C"
  let ?N = "length (m_buckets (table ?W))" and ?f = "clock_visit (m_recordTimeToLive C) cur"
  have tab: "table_ok rs ?W"
    using ok by (simp add: cache_ok_def)
  then have N: "0 < ?N" "?N < 2 ^ 32"
    by (simp_all add: table_ok_def)
  then have "unat (of_nat ?N :: u64) = ?N"
    by (simp add: unat_of_nat take_bit_nat_eq_self)
  then have idx: "unat (?idx mod of_nat ?N) = unat ?idx mod ?N"
    by (simp add: unat_mod_distrib)
  let ?b = "unat ?idx mod ?N"
  have b: "?b < ?N"
    using N(1) by simp
  obtain left1 W1 where W1: "evict_bucket rs register (m_recordTimeToLive C) cur ?b (positions (m_buckets (table ?W) ! ?b)) left ?W =
        (Inr (), left1, W1)" "cache_ok ok queued base rs cur W1" "same_shape ?W W1"
      "table_map rs W1 = bucket_visited ?f (table ?W) ?b (table_map rs ?W)"
      "data_size (table_map rs W1) \<le> data_size (table_map rs ?W)"
      "unat left1 = unat left - (data_size (table_map rs ?W) - data_size (table_map rs W1))"
    using evict_bucket_visits [OF ok valid_positions_all [OF b], of "m_recordTimeToLive C" left]
    unfolding visited_bucket [OF tab b] by blast
  have "evict_loop (Suc n) rs register cur left C = evict_loop n rs register cur left1 (C\<lparr>base_world := W1, m_currentEvictBucketIndex := ?idx + 1\<rparr>)"
    using W1(1) b left by (simp add: idx bucket_at_def word_neq_0_conv Cache_update_swap)
  moreover have "unat (?idx + 1) = Suc (unat ?idx)"
    using hand by (simp add: unat_word_ariths)
  moreover have "\<forall>k. table_map rs W1 k = visited_times ?f (if ?b = key_bucket (table ?W) k then 1 else 0) (table_map rs ?W k)"
    by (simp add: W1(4) bucket_visited_def visited_times_1)
  ultimately show ?thesis
    using that W1(2,3,5,6) by blast
qed

lemma evict_loop_visits:
  "cache_ok ok queued base rs cur (base_world C) \<Longrightarrow> unat (m_currentEvictBucketIndex C) + n < 2 ^ 64 \<Longrightarrow>
    \<exists>m left' W'. evict_loop n rs register cur left C = (Inr (), left',
        C\<lparr>base_world := W', m_currentEvictBucketIndex := m_currentEvictBucketIndex C + of_nat m\<rparr>) \<and>
      m \<le> n \<and> (left' \<noteq> 0 \<longrightarrow> m = n) \<and> cache_ok ok queued base rs cur W' \<and> same_shape (base_world C) W' \<and>
      (\<forall>k. table_map rs W' k = visited_times (clock_visit (m_recordTimeToLive C) cur)
        (visits (length (m_buckets (table (base_world C)))) (key_bucket (table (base_world C)) k) m
          (unat (m_currentEvictBucketIndex C))) (table_map rs (base_world C) k)) \<and>
      data_size (table_map rs W') \<le> data_size (table_map rs (base_world C)) \<and>
      unat left' = unat left - (data_size (table_map rs (base_world C)) - data_size (table_map rs W'))"
proof (induction n arbitrary: left C)
  case 0
  then show ?case
    by (intro exI [of _ 0] exI [of _ left] exI [of _ "base_world C"]) simp
next
  case (Suc n)
  let ?W = "base_world C" and ?idx = "m_currentEvictBucketIndex C"
  show ?case
  proof (cases "left = 0")
    case True
    then show ?thesis
      using Suc.prems by (intro exI [of _ 0] exI [of _ left] exI [of _ ?W]) simp
  next
    case False
    let ?N = "length (m_buckets (table ?W))" and ?f = "clock_visit (m_recordTimeToLive C) cur"
    obtain left1 W1 where W1: "evict_loop (Suc n) rs register cur left C =
          evict_loop n rs register cur left1 (C\<lparr>base_world := W1, m_currentEvictBucketIndex := ?idx + 1\<rparr>)"
        "unat (?idx + 1) = Suc (unat ?idx)" "cache_ok ok queued base rs cur W1" "same_shape ?W W1"
        "\<forall>k. table_map rs W1 k = visited_times ?f (if unat ?idx mod ?N = key_bucket (table ?W) k then 1 else 0) (table_map rs ?W k)"
        "data_size (table_map rs W1) \<le> data_size (table_map rs ?W)"
        "unat left1 = unat left - (data_size (table_map rs ?W) - data_size (table_map rs W1))"
      by (rule evict_loop_step [OF Suc.prems False])
    let ?C1 = "C\<lparr>base_world := W1, m_currentEvictBucketIndex := ?idx + 1\<rparr>"
    have "cache_ok ok queued base rs cur (base_world ?C1)" "unat (m_currentEvictBucketIndex ?C1) + n < 2 ^ 64"
      using W1(2,3) Suc.prems(2) by simp_all
    note IH = Suc.IH [OF this, of left1]
    have sel: "base_world ?C1 = W1" "m_currentEvictBucketIndex ?C1 = ?idx + 1" "m_recordTimeToLive ?C1 = m_recordTimeToLive C"
      by simp_all
    note same = same_shape_length [OF W1(4)] same_shape_bucket [OF W1(4)]
    obtain m left' W' where W': "evict_loop n rs register cur left1 ?C1 = (Inr (), left',
          ?C1\<lparr>base_world := W', m_currentEvictBucketIndex := ?idx + 1 + of_nat m\<rparr>)"
        "m \<le> n" "left' \<noteq> 0 \<longrightarrow> m = n" "cache_ok ok queued base rs cur W'" "same_shape W1 W'"
        "\<forall>k. table_map rs W' k = visited_times ?f (visits ?N (key_bucket (table ?W) k) m (Suc (unat ?idx))) (table_map rs W1 k)"
        "data_size (table_map rs W') \<le> data_size (table_map rs W1)"
        "unat left' = unat left1 - (data_size (table_map rs W1) - data_size (table_map rs W'))"
      using IH unfolding sel same W1(2) by blast
    have loop: "evict_loop (Suc n) rs register cur left C = (Inr (), left',
        C\<lparr>base_world := W', m_currentEvictBucketIndex := ?idx + of_nat (Suc m)\<rparr>)"
      unfolding W1(1) W'(1) by (simp add: algebra_simps Cache_update_swap)
    have maps: "table_map rs W' k = visited_times ?f (visits ?N (key_bucket (table ?W) k) (Suc m) (unat ?idx)) (table_map rs ?W k)" for k
      using W'(6) W1(5) by (simp only: visits.simps visited_times_add)
    have "unat left' = unat left - (data_size (table_map rs ?W) - data_size (table_map rs W'))"
      unfolding W'(8) W1(7) using W1(6) W'(7) by linarith
    moreover have "data_size (table_map rs W') \<le> data_size (table_map rs ?W)" "Suc m \<le> Suc n" "left' \<noteq> 0 \<longrightarrow> Suc m = Suc n"
      using W1(6) W'(2,3,7) by simp_all
    ultimately show ?thesis
      using loop maps W'(4) same_shape_trans [OF W1(4) W'(5)] by blast
  qed
qed

end

end
