(* ===== verification/L4_CacheStats.thy ===== *)
theory L4_CacheStats
  imports L4_CacheProps
begin

text \<open>
  What the operations of a cache do to the counters of evictions and look-ups, whatever the state of the table: an
  eviction moves one from the records to the evicted ones, and \<open>Add\<close> touches neither hits nor misses.
\<close>

definition same_balance :: "'e World \<Rightarrow> 'e World \<Rightarrow> bool" where
  "same_balance W W' \<longleftrightarrow> (let pd = m_perfData (table W); pd' = m_perfData (table W') in
     pd' RecordsCount + pd' EvictedRecordsCount = pd RecordsCount + pd EvictedRecordsCount \<and>
     pd' CacheHitCount = pd CacheHitCount \<and> pd' CacheMissCount = pd CacheMissCount)"

lemma same_balance_refl [simp]: "same_balance W W"
  by (simp add: same_balance_def)

lemma same_balance_trans: "same_balance W W' \<Longrightarrow> same_balance W' W'' \<Longrightarrow> same_balance W W''"
  by (simp add: same_balance_def Let_def)

lemma same_balance_table: "table W' = table W \<Longrightarrow> same_balance W W'"
  by (simp add: same_balance_def)

lemma ReleaseRecord_table: "table (snd (ReleaseRecord reg old W)) = table W"
  by (simp add: ReleaseRecord_def split_beta split: option.split)

lemma removed_balance:
  assumes "Remove_at rs reg b j i W = (Inr (), W')"
  shows "same_balance W (count_perf EvictedRecordsCount W')"
proof -
  let ?W = "W\<lparr>table := set_bucket b (snd (UpdateRecord (m_buckets (table W) ! b) j i None 0)) (table W)\<rparr>"
  obtain old stat where "ReleaseRecord reg old (?W\<lparr>table := (table ?W)\<lparr>m_perfData := UpdatePerfDataForRemove rs stat (m_perfData (table ?W))\<rparr>\<rparr>) = (Inr (), W')"
    using assms by (auto simp: Remove_at_def Let_def split_beta split: option.splits sum.splits)
  then have "table W' = (table ?W)\<lparr>m_perfData := UpdatePerfDataForRemove rs stat (m_perfData (table ?W))\<rparr>"
    using ReleaseRecord_table by (metis (no_types, lifting) World.select_convs(2) World.surjective World.update_convs(2) snd_conv)
  then have "m_perfData (table W') = UpdatePerfDataForRemove rs stat (m_perfData (table W))"
    by (simp add: set_bucket_def)
  then show ?thesis
    by (simp add: same_balance_def count_perf_def UpdatePerfDataForRemove_def pc_defs Let_def)
qed

lemma evict_expired_balance: "evict_expired rs reg ttl cur b ps W = (Inr (), W') \<Longrightarrow> same_balance W W'"
proof (induction rs reg ttl cur b ps W rule: evict_expired.induct)
  case (2 rs reg ttl cur b j i ps W)
  then show ?case
    by (auto split: option.splits sum.splits if_splits prod.splits dest!: removed_balance intro: same_balance_trans)
qed simp

lemma evict_bucket_balance: "evict_bucket rs reg ttl cur b ps n W = (Inr (), n', W') \<Longrightarrow> same_balance W W'"
proof (induction rs reg ttl cur b ps n W rule: evict_bucket.induct)
  case (2 rs reg ttl cur b j i ps n W)
  show ?case
  proof (cases "data_at (table W) b j i")
    case None
    then show ?thesis
      using 2 by simp
  next
    case (Some data)
    let ?read = "bind_res (load_record rs (heap W) data) (\<lambda>record.
      bind_res (metadata_of (m_value record)) (\<lambda>md.
      bind_res (IsExpired md cur ttl) (\<lambda>expired.
      if expired then Inr (record, True, heap W)
      else bind_res (update_access rs False data (m_key record) md (heap W)) (\<lambda>(wasOn, h). Inr (record, \<not> wasOn, h)))))"
    obtain x evicted h where read: "?read = Inr (x, evicted, h)"
      using 2(4) Some by (cases ?read) auto
    have heap: "same_balance W (W\<lparr>heap := h\<rparr>)"
      by (rule same_balance_table) simp
    show ?thesis
    proof (cases evicted)
      case True
      obtain W1 where W1: "Remove_at rs reg b j i (W\<lparr>heap := h\<rparr>) = (Inr (), W1)"
        using 2(4) Some read True by (cases "Remove_at rs reg b j i (W\<lparr>heap := h\<rparr>)") (auto simp: Let_def split: sum.splits)
      then show ?thesis
        using 2 Some read True same_balance_trans [OF heap same_balance_trans [OF removed_balance [OF W1]]] by (simp add: Let_def)
    next
      case False
      then show ?thesis
        using 2 Some read same_balance_trans [OF heap] by (simp add: Let_def)
    qed
  qed
qed simp

lemma EvictBasedOnTime_balance: "EvictBasedOnTime rs reg ttl cur key W = (Inr (), W') \<Longrightarrow> same_balance W W'"
  by (auto simp: EvictBasedOnTime_def Let_def split: sum.splits dest: evict_expired_balance)

lemma evict_loop_balance: "evict_loop n rs reg cur left C = (Inr (), left', C') \<Longrightarrow> same_balance (base_world C) (base_world C')"
proof (induction n arbitrary: left C)
  case (Suc n)
  then show ?case
    by (auto simp: Let_def split: sum.splits if_splits prod.splits dest!: evict_bucket_balance)
      (drule Suc.IH, simp, erule (1) same_balance_trans)
qed simp

lemma Evict_balance: "Evict rs reg cur n C = (Inr (), C') \<Longrightarrow> same_balance (base_world C) (base_world C')"
  by (auto simp: Evict_def Let_def split: if_splits prod.splits dest: evict_loop_balance)

section \<open>Add\<close>

lemma UpdatePerfDataForAdd_cache:
  assumes "cache_counter c"
  shows "UpdatePerfDataForAdd rs stat pd c = pd c"
  using assms by (cases "st_oldValueSize stat = 0"; cases "st_isNewEntryAdded stat"; cases "1 < st_chainIndex stat")
    (auto simp: cache_counter_def UpdatePerfDataForAdd_def Let_def)

end
