(* ===== verification/L4_ChainGrowth.thy ===== *)
theory L4_ChainGrowth
  imports L4_TablePerf
begin

text \<open>
  How long the chains of the buckets get (\<open>Add\<close> in \<open>inc/L4/HashTable/ReadWrite/HashTable.h\<close>, \<open>Entry\<close> in
  \<open>Common/SharedHashTable.h\<close>): an entry holds \<open>c_numDataPerEntry\<close> records, \<open>Add\<close> makes a chain longer by one
  entry, only for a new key and only when every position of the chain is taken, and nothing makes it shorter.
\<close>

section \<open>The records of a bucket\<close>

definition bucket_load :: "SharedHashTable \<Rightarrow> (Key \<rightharpoonup> Value) \<Rightarrow> nat \<Rightarrow> nat" where
  "bucket_load T m b = card {k \<in> dom m. key_bucket T k = b}"

lemma bucket_load_same:
  "length (m_buckets T') = length (m_buckets T) \<Longrightarrow> bucket_load T' = bucket_load T"
  by (intro ext) (simp add: bucket_load_def GetBucketInfo_length [of T' T])

lemma length_slot_addrs: "length (slot_addrs sl) \<le> length sl"
  by (induction sl) (auto simp: slot_addrs_def split: option.splits)

lemma length_slot_addrs_full: "\<forall>(t, d)\<in>set sl. d \<noteq> None \<Longrightarrow> length (slot_addrs sl) = length sl"
  by (induction sl) (auto simp: slot_addrs_def split: option.splits)

lemma length_bucket_kvs:
  assumes "bucket_ok rs h T b es"
  shows "length (bucket_kvs rs h es) = length (slot_addrs (chain_slots es))"
proof -
  have "length (rec_of rs h a) = 1" if "a \<in> set (slot_addrs (chain_slots es))" for a
    using bucket_slot [OF assms] that by (metis One_nat_def in_slot_addrs length_Cons list.size(3) rec_of_load)
  then have "length (concat (map (rec_of rs h) sl)) = length sl" if "set sl \<subseteq> set (slot_addrs (chain_slots es))" for sl
    using that by (induction sl) simp_all
  then show ?thesis
    unfolding bucket_kvs_def slots_kvs_def by simp
qed

lemma bucket_load_slots:
  assumes ok: "table_ok rs W" and b: "b < length (m_buckets (table W))"
  shows "bucket_load (table W) (table_map rs W) b = length (slot_addrs (chain_slots (m_buckets (table W) ! b)))"
proof -
  let ?kvs = "bucket_kvs rs (heap W) (m_buckets (table W) ! b)"
  have bok: "bucket_ok rs (heap W) (table W) b (m_buckets (table W) ! b)"
    using table_ok_bucket [OF ok b] .
  have "key_bucket (table W) k = b" if "k \<in> set (map fst ?kvs)" for k
    using that by (auto simp: bucket_kvs_def in_slots_kvs dest!: bucket_slot [OF bok])
  then have "{k \<in> dom (table_map rs W). key_bucket (table W) k = b} = set (map fst ?kvs)"
    using table_map_bucket [OF ok] by (auto simp: map_of_eq_None_iff domIff image_iff split: option.splits)
  moreover have "distinct (map fst ?kvs)"
    using bok by (simp add: bucket_ok_def)
  ultimately show ?thesis
    by (simp add: bucket_load_def distinct_card length_bucket_kvs [OF bok] del: set_map)
qed

lemma bucket_load_bound:
  assumes ok: "table_ok rs W" and b: "b < length (m_buckets (table W))"
  shows "bucket_load (table W) (table_map rs W) b \<le> c_numDataPerEntry * length (m_buckets (table W) ! b)"
    "full_chain (m_buckets (table W) ! b) \<Longrightarrow>
      bucket_load (table W) (table_map rs W) b = c_numDataPerEntry * length (m_buckets (table W) ! b)"
proof -
  let ?es = "m_buckets (table W) ! b"
  have ch: "\<forall>e\<in>set ?es. entry_ok e"
    using table_ok_bucket [OF ok b] by (simp add: bucket_ok_def chain_ok_def)
  show "bucket_load (table W) (table_map rs W) b \<le> c_numDataPerEntry * length ?es"
    using length_slot_addrs [of "chain_slots ?es"] by (simp add: bucket_load_slots [OF ok b] length_chain_slots [OF ch] c_numDataPerEntry_def)
  assume full: "full_chain ?es"
  have "d \<noteq> None" if "(t, d) \<in> set (chain_slots ?es)" for t d
    using that full ch unfolding full_chain_def free_at_def chain_slots_def entry_slots_def entry_ok_def
    by (auto simp: in_set_zip) (metis in_set_conv_nth)
  then show "bucket_load (table W) (table_map rs W) b = c_numDataPerEntry * length ?es"
    using length_slot_addrs_full [of "chain_slots ?es"]
    by (auto simp: bucket_load_slots [OF ok b] length_chain_slots [OF ch] c_numDataPerEntry_def)
qed

section \<open>What the operations do to the chains\<close>

lemma pc_Max_at: "pc_Max pd c v c = (if sint v < sint (pd c) then pd c else v)"
  by (simp add: pc_Max_def Max_loop_alone)

lemma perf_add_chain:
  "UpdatePerfDataForAdd rs stat pd MaxBucketChainLength =
    (if st_oldValueSize stat = 0 \<and> st_isNewEntryAdded stat \<and> 1 < st_chainIndex stat
     then pc_Max pd MaxBucketChainLength (ucast (st_chainIndex stat)) MaxBucketChainLength else pd MaxBucketChainLength)"
  by (cases "st_oldValueSize stat = 0"; cases "st_isNewEntryAdded stat"; cases "1 < st_chainIndex stat")
    (simp_all add: UpdatePerfDataForAdd_def Let_def pc_Max_at)

lemma ucast_of_nat_32: "n < 2 ^ 32 \<Longrightarrow> (ucast (of_nat n :: u32) :: u64) = of_nat n"
  by (simp add: unsigned_of_nat take_bit_nat_eq_self)

lemma put_record_chains:
  assumes ok: "table_ok rs W" and add: "addable rs alloc k v"
  obtains (same) "map length (m_buckets (table (put_record rs alloc reg W k v))) = map length (m_buckets (table W))"
      "m_perfData (table (put_record rs alloc reg W k v)) MaxBucketChainLength = m_perfData (table W) MaxBucketChainLength"
  | (grown) "table_map rs W k = None" "full_chain (key_chain (table W) k)"
      "map length (m_buckets (table (put_record rs alloc reg W k v))) =
        (map length (m_buckets (table W)))[key_bucket (table W) k := Suc (length (key_chain (table W) k))]"
      "Suc (length (key_chain (table W) k)) < 2 ^ 32 \<Longrightarrow> m_perfData (table (put_record rs alloc reg W k v)) MaxBucketChainLength =
        pc_Max (m_perfData (table W)) MaxBucketChainLength (of_nat (Suc (length (key_chain (table W) k)))) MaxBucketChainLength"
proof (cases rule: Add_cases [OF ok add, of reg])
  case (1 res a old stat W')
  have W': "put_record rs alloc reg W k v = W'"
    by (simp add: put_record_def 1(1))
  have chain: "key_chain (table W) k \<noteq> []"
    using table_ok_bucket [OF ok table_ok_range [OF ok]] by (simp add: bucket_ok_def chain_ok_def)
  let ?n = "Suc (length (key_chain (table W) k))"
  show ?thesis
  proof (cases "st_isNewEntryAdded stat")
    case True
    then have stat: "table_map rs W k = None" "st_chainIndex stat = of_nat ?n" "st_oldValueSize stat = 0"
      using 1(6) by (auto simp: add_stat_def)
    have "m_perfData (table W') MaxBucketChainLength = pc_Max (m_perfData (table W)) MaxBucketChainLength (of_nat ?n) MaxBucketChainLength"
      if n: "?n < 2 ^ 32"
    proof -
      have "1 < (of_nat ?n :: u32)"
        using n chain by (simp add: word_less_nat_alt unat_of_nat del: of_nat_Suc)
      then show ?thesis
        by (simp add: 1(7) perf_add_chain True stat(2,3) ucast_of_nat_32 [OF n] del: of_nat_Suc)
    qed
    with True stat 1(8,9) show ?thesis
      by (intro grown) (simp_all add: W')
  next
    case False
    then show ?thesis
      by (intro same) (use 1(7,8) in \<open>simp_all add: W' perf_add_chain\<close>)
  qed
qed

lemma del_record_chains:
  assumes ok: "table_ok rs W"
  shows "map length (m_buckets (table (del_record rs reg W k))) = map length (m_buckets (table W))"
    "m_perfData (table (del_record rs reg W k)) MaxBucketChainLength = m_perfData (table W) MaxBucketChainLength"
  by (cases rule: Remove_cases [OF ok, of k reg]; simp add: del_record_def UpdatePerfDataForRemove_def Let_def)+

section \<open>The chains after a sequence of operations\<close>

abbreviation rw_run :: "RecordSerializer \<Rightarrow> allocator \<Rightarrow> 'e reg \<Rightarrow> kv_op list \<Rightarrow> 'e World \<Rightarrow> 'e World" where
  "rw_run rs alloc reg \<equiv> run_ops (put_record rs alloc reg) (del_record rs reg)"

definition op_record :: "RecordSerializer \<Rightarrow> allocator \<Rightarrow> 'e reg \<Rightarrow> kv_op \<Rightarrow> 'e World \<Rightarrow> 'e World" where
  "op_record rs alloc reg p W = (case p of Put k v \<Rightarrow> put_record rs alloc reg W k v | Del k \<Rightarrow> del_record rs reg W k)"

lemma rw_run_Cons: "rw_run rs alloc reg (p # ops) W = rw_run rs alloc reg ops (op_record rs alloc reg p W)"
  by (cases p) (simp_all add: op_record_def)

lemma op_record_ok:
  assumes "table_ok rs W" "accepted (addable rs alloc) [p]"
  shows "table_ok rs (op_record rs alloc reg p W)" "table_map rs (op_record rs alloc reg p W) = apply_op p (table_map rs W)"
  using rw.run_abs [OF assms, of reg] by (simp_all add: rw_run_Cons)

text \<open>One operation, on the chain of a bucket and on the counter of the longest chain.\<close>

definition longest_chain :: "SharedHashTable \<Rightarrow> nat" where
  "longest_chain T = Max (set (map length (m_buckets T)))"

definition chain_counter :: "SharedHashTable \<Rightarrow> bool" where
  "chain_counter T \<longleftrightarrow> m_perfData T MaxBucketChainLength = of_nat (longest_chain T)"

lemma longest_chain_grown:
  assumes "map length (m_buckets T') = (map length (m_buckets T))[b := Suc (length (m_buckets T ! b))]" "b < length (m_buckets T)"
  shows "longest_chain T' = max (longest_chain T) (Suc (length (m_buckets T ! b)))"
proof -
  let ?ls = "map length (m_buckets T)" and ?n = "Suc (length (m_buckets T ! b))"
  have b: "b < length ?ls" "?ls ! b \<le> ?n"
    using assms(2) by simp_all
  have "Max (set (?ls[b := n])) = max (Max (set ?ls)) n" if "b < length ls" "ls ! b \<le> n" "ls = ?ls" for ls n
  proof (rule antisym)
    have ne: "set (ls[b := n]) \<noteq> {}" "set ls \<noteq> {}"
      using that(1) by auto
    have "n \<in> set (ls[b := n])"
      using that(1) set_update_memI by fast
    moreover have "x \<le> Max (set (ls[b := n]))" if "x \<in> set ls" for x
    proof -
      obtain i where i: "i < length ls" "x = ls ! i"
        using \<open>x \<in> set ls\<close> by (auto simp: in_set_conv_nth)
      have "ls[b := n] ! i \<in> set (ls[b := n])"
        using i(1) by (intro nth_mem) simp
      then have "ls[b := n] ! i \<le> Max (set (ls[b := n]))"
        by simp
      moreover have "x \<le> ls[b := n] ! i"
        using i \<open>ls ! b \<le> n\<close> by (cases "i = b") simp_all
      ultimately show ?thesis
        by simp
    qed
    ultimately show "max (Max (set ?ls)) n \<le> Max (set (?ls[b := n]))"
      using ne that(3) by simp
    show "Max (set (?ls[b := n])) \<le> max (Max (set ?ls)) n"
      using ne set_update_subset_insert [of ls b n] unfolding that(3) [symmetric]
      by (subst Max_le_iff) (auto simp: le_max_iff_disj)
  qed
  from this [OF b refl] show ?thesis
    by (simp add: longest_chain_def assms(1) del: set_map)
qed

lemma nth_length_update:
  assumes "map length xs = (map length ys)[i := n]" "b < length ys"
  shows "length (xs ! b) = (if b = i then n else length (ys ! b))"
proof -
  have "length xs = length ys"
    using arg_cong [OF assms(1), of length] by simp
  then have "length (xs ! b) = map length xs ! b"
    using assms(2) by simp
  then show ?thesis
    unfolding assms(1) using assms(2) by (simp add: nth_list_update)
qed

lemma sint_of_nat_small: "n < 2 ^ 32 \<Longrightarrow> sint (of_nat n :: u64) = int n"
  by (simp add: signed_of_nat signed_take_bit_int_eq_self)

lemma op_record_cases:
  fixes W :: "'e World" and reg :: "'e reg"
  assumes ok: "table_ok rs W" and acc: "accepted (addable rs alloc) [p]"
  obtains (same) "map length (m_buckets (table (op_record rs alloc reg p W))) = map length (m_buckets (table W))"
      "m_perfData (table (op_record rs alloc reg p W)) MaxBucketChainLength = m_perfData (table W) MaxBucketChainLength"
  | (grown) k v where "p = Put k v" "table_map rs W k = None" "full_chain (key_chain (table W) k)"
      "map length (m_buckets (table (op_record rs alloc reg p W))) =
        (map length (m_buckets (table W)))[key_bucket (table W) k := Suc (length (key_chain (table W) k))]"
      "Suc (length (key_chain (table W) k)) < 2 ^ 32 \<Longrightarrow> m_perfData (table (op_record rs alloc reg p W)) MaxBucketChainLength =
        pc_Max (m_perfData (table W)) MaxBucketChainLength (of_nat (Suc (length (key_chain (table W) k)))) MaxBucketChainLength"
proof (cases p)
  case (Put k v)
  then have add: "addable rs alloc k v"
    using acc by simp
  show ?thesis
  proof (cases rule: put_record_chains [OF ok add, of reg])
    case 1
    then show ?thesis
      by (intro same) (simp_all add: op_record_def Put)
  next
    case 2
    from 2(1-3) show ?thesis
      by (rule grown [OF Put, unfolded op_record_def Put kv_op.case]) (rule 2(4))
  qed
next
  case (Del k)
  then show ?thesis
    using del_record_chains [OF ok, of reg k] by (intro same) (simp_all add: op_record_def)
qed

lemma bucket_load_new_key:
  assumes "table_map rs W' = (table_map rs W)(k \<mapsto> v)" "table_map rs W k = None"
  shows "bucket_load (table W) (table_map rs W') (key_bucket (table W) k) = Suc (bucket_load (table W) (table_map rs W) (key_bucket (table W) k))"
proof -
  have "{x \<in> dom (table_map rs W'). key_bucket (table W) x = key_bucket (table W) k} =
      insert k {x \<in> dom (table_map rs W). key_bucket (table W) x = key_bucket (table W) k}" (is "_ = insert k ?old")
    using assms(1) by auto
  moreover have "finite ?old"
    using finite_table_map [of rs W] by (rule rev_finite_subset) blast
  moreover have "k \<notin> ?old"
    using assms(2) by auto
  ultimately show ?thesis
    unfolding bucket_load_def by simp
qed

lemma chain_counter_grown:
  assumes grown: "map length (m_buckets T') = (map length (m_buckets T))[b := Suc (length (m_buckets T ! b))]" and b: "b < length (m_buckets T)"
    and max: "Suc (length (m_buckets T ! b)) < 2 ^ 32 \<Longrightarrow> m_perfData T' MaxBucketChainLength =
      pc_Max (m_perfData T) MaxBucketChainLength (of_nat (Suc (length (m_buckets T ! b)))) MaxBucketChainLength"
    and counter: "chain_counter T" "longest_chain T' < 2 ^ 32"
  shows "chain_counter T'"
  using counter max unfolding chain_counter_def longest_chain_grown [OF grown b]
  by (auto simp: pc_Max_at sint_of_nat_small max_def simp del: of_nat_Suc)

lemma op_record_chains:
  fixes W :: "'e World" and reg :: "'e reg"
  assumes ok: "table_ok rs W" and acc: "accepted (addable rs alloc) [p]" and b: "b < length (m_buckets (table W))"
  defines "W' \<equiv> op_record rs alloc reg p W"
  shows "length (m_buckets (table W')) = length (m_buckets (table W))"
    "length (m_buckets (table W') ! b) = length (m_buckets (table W) ! b) \<or>
      length (m_buckets (table W') ! b) = Suc (length (m_buckets (table W) ! b)) \<and>
      c_numDataPerEntry * length (m_buckets (table W) ! b) < bucket_load (table W) (table_map rs W') b"
    "chain_counter (table W) \<Longrightarrow> longest_chain (table W') < 2 ^ 32 \<Longrightarrow> chain_counter (table W')"
proof -
  have "length (m_buckets (table W')) = length (m_buckets (table W)) \<and>
    (length (m_buckets (table W') ! b) = length (m_buckets (table W) ! b) \<or>
      length (m_buckets (table W') ! b) = Suc (length (m_buckets (table W) ! b)) \<and>
      c_numDataPerEntry * length (m_buckets (table W) ! b) < bucket_load (table W) (table_map rs W') b) \<and>
    (chain_counter (table W) \<longrightarrow> longest_chain (table W') < 2 ^ 32 \<longrightarrow> chain_counter (table W'))"
  proof (cases rule: op_record_cases [OF ok acc, of reg])
    case 1
    note same = 1 [folded W'_def]
    have "length (m_buckets (table W')) = length (m_buckets (table W))" "length (m_buckets (table W') ! b) = length (m_buckets (table W) ! b)"
      using same(1) b by (metis length_map nth_map)+
    with same show ?thesis
      by (simp add: chain_counter_def longest_chain_def del: set_map)
  next
    case (2 k v)
    note grown = 2 [folded W'_def] and range = table_ok_range [OF ok, of k]
    have map: "table_map rs W' = (table_map rs W)(k \<mapsto> v)"
      using op_record_ok(2) [OF ok acc, of reg] by (simp add: W'_def grown(1) apply_op_def)
    have "c_numDataPerEntry * length (key_chain (table W) k) < bucket_load (table W) (table_map rs W') (key_bucket (table W) k)"
      by (simp add: bucket_load_new_key [OF map grown(2)] bucket_load_bound(2) [OF ok range grown(3)])
    moreover have "length (m_buckets (table W') ! b) =
        (if b = key_bucket (table W) k then Suc (length (key_chain (table W) k)) else length (m_buckets (table W) ! b))"
      using nth_length_update [OF grown(4) b] by auto
    moreover have "length (m_buckets (table W')) = length (m_buckets (table W))"
      using arg_cong [OF grown(4), of length] by simp
    ultimately show ?thesis
      using chain_counter_grown [OF grown(4) range grown(5)] by auto
  qed
  then show "length (m_buckets (table W')) = length (m_buckets (table W))"
    "length (m_buckets (table W') ! b) = length (m_buckets (table W) ! b) \<or>
      length (m_buckets (table W') ! b) = Suc (length (m_buckets (table W) ! b)) \<and>
      c_numDataPerEntry * length (m_buckets (table W) ! b) < bucket_load (table W) (table_map rs W') b"
    "chain_counter (table W) \<Longrightarrow> longest_chain (table W') < 2 ^ 32 \<Longrightarrow> chain_counter (table W')"
    by blast+
qed

lemma chains_run:
  "table_ok rs W \<Longrightarrow> accepted (addable rs alloc) ops \<Longrightarrow> b < length (m_buckets (table W)) \<Longrightarrow>
    length (m_buckets (table (rw_run rs alloc reg ops W))) = length (m_buckets (table W)) \<and>
    (length (m_buckets (table (rw_run rs alloc reg ops W)) ! b) = length (m_buckets (table W) ! b) \<or>
     (\<exists>p q. ops = p @ q \<and> c_numDataPerEntry * (length (m_buckets (table (rw_run rs alloc reg ops W)) ! b) - 1) <
       bucket_load (table W) (last_write p (table_map rs W)) b))"
proof (induction ops arbitrary: W)
  case (Cons p ops)
  let ?W1 = "op_record rs alloc reg p W"
  have acc: "accepted (addable rs alloc) [p]" "accepted (addable rs alloc) ops"
    using Cons.prems(2) by (simp_all add: accepted_def)
  note one = op_record_chains [OF Cons.prems(1) acc(1) Cons.prems(3), of reg]
  have b1: "b < length (m_buckets (table ?W1))"
    using one(1) Cons.prems(3) by simp
  note m1 = op_record_ok [OF Cons.prems(1) acc(1), of reg]
  note rest = Cons.IH [OF m1(1) acc(2) b1, unfolded bucket_load_same [OF one(1)] m1(2)]
  let ?n = "length (m_buckets (table (rw_run rs alloc reg ops ?W1)) ! b)"
  from rest have "?n = length (m_buckets (table ?W1) ! b) \<or>
      (\<exists>p' q. ops = p' @ q \<and> c_numDataPerEntry * (?n - 1) < bucket_load (table W) (last_write p' (apply_op p (table_map rs W))) b)"
    by blast
  then have "?n = length (m_buckets (table W) ! b) \<or>
      (\<exists>p' q. p # ops = p' @ q \<and> c_numDataPerEntry * (?n - 1) < bucket_load (table W) (last_write p' (table_map rs W)) b)"
  proof (elim disjE exE conjE)
    assume n: "?n = length (m_buckets (table ?W1) ! b)"
    from one(2) show ?thesis
    proof (elim disjE conjE)
      assume "length (m_buckets (table ?W1) ! b) = Suc (length (m_buckets (table W) ! b))"
        "c_numDataPerEntry * length (m_buckets (table W) ! b) < bucket_load (table W) (table_map rs ?W1) b"
      then show ?thesis
        by (intro disjI2 exI [of _ "[p]"] exI [of _ ops]) (simp add: n m1(2))
    qed (simp add: n)
  next
    fix p' q
    assume "ops = p' @ q" "c_numDataPerEntry * (?n - 1) < bucket_load (table W) (last_write p' (apply_op p (table_map rs W))) b"
    then show ?thesis
      by (intro disjI2 exI [of _ "p # p'"] exI [of _ q]) simp
  qed
  then show ?case
    using rest one(1) by (simp add: rw_run_Cons)
qed simp

lemma longest_chain_step:
  assumes ok: "table_ok rs W" and acc: "accepted (addable rs alloc) [p]"
  shows "longest_chain (table (op_record rs alloc reg p W)) \<le> Suc (longest_chain (table W))"
proof -
  let ?T' = "table (op_record rs alloc reg p W)" and ?T = "table W"
  have len: "length (m_buckets ?T') = length (m_buckets ?T)" and ne: "m_buckets ?T \<noteq> []"
    using op_record_chains(1) [OF ok acc table_ok_range [OF ok]] ok by (simp_all add: table_ok_def)
  have "length (m_buckets ?T' ! b) \<le> Suc (longest_chain ?T)" if b: "b < length (m_buckets ?T)" for b
  proof -
    have "length (m_buckets ?T ! b) \<le> longest_chain ?T"
      unfolding longest_chain_def using b by (intro Max_ge) auto
    then show ?thesis
      using op_record_chains(2) [OF ok acc b, of reg] by auto
  qed
  then have "n \<le> Suc (longest_chain ?T)" if "n \<in> set (map length (m_buckets ?T'))" for n
    using that len by (auto simp: in_set_conv_nth)
  moreover have "set (map length (m_buckets ?T')) \<noteq> {}"
    using ne len by auto
  ultimately show ?thesis
    unfolding longest_chain_def [of ?T'] by (intro Max.boundedI) (simp_all del: set_map)
qed

lemma counter_run:
  "table_ok rs W \<Longrightarrow> accepted (addable rs alloc) ops \<Longrightarrow> chain_counter (table W) \<Longrightarrow> longest_chain (table W) + length ops < 2 ^ 32 \<Longrightarrow>
    chain_counter (table (rw_run rs alloc reg ops W))"
proof (induction ops arbitrary: W)
  case (Cons p ops)
  let ?W1 = "op_record rs alloc reg p W"
  have acc: "accepted (addable rs alloc) [p]" "accepted (addable rs alloc) ops"
    using Cons.prems(2) by (simp_all add: accepted_def)
  have "longest_chain (table ?W1) + length ops < 2 ^ 32"
    using longest_chain_step [OF Cons.prems(1) acc(1), of reg] Cons.prems(4) by simp
  moreover from this have "chain_counter (table ?W1)"
    using op_record_chains(3) [OF Cons.prems(1) acc(1) table_ok_range [OF Cons.prems(1)] Cons.prems(3)] by simp
  ultimately show ?case
    using Cons.IH [OF op_record_ok(1) [OF Cons.prems(1) acc(1)] acc(2)] by (simp add: rw_run_Cons)
qed simp

lemma chains_new:
  fixes sm st :: nat
  assumes "0 < m_numBuckets s"
  defines "T \<equiv> SharedHashTable_new sm st s"
  shows "length (m_buckets T) = unat (m_numBuckets s)" "b < unat (m_numBuckets s) \<Longrightarrow> length (m_buckets T ! b) = 1"
    "longest_chain T = 1" "chain_counter T"
proof -
  show "length (m_buckets T) = unat (m_numBuckets s)" "b < unat (m_numBuckets s) \<Longrightarrow> length (m_buckets T ! b) = 1"
    by (simp_all add: T_def SharedHashTable_new_def Let_def)
  have "set (map length (m_buckets T)) = {1}"
    using assms(1) by (simp add: T_def SharedHashTable_new_def Let_def word_less_nat_alt)
  then show "longest_chain T = 1"
    by (simp add: longest_chain_def)
  then show "chain_counter T"
    unfolding chain_counter_def by (simp add: T_def SharedHashTable_new_def Let_def HashTablePerfData_init_def)
qed

section \<open>Properties\<close>

text \<open>C13: on a new table, after any sequence of \<open>Add\<close> and \<open>Remove\<close> calls, a bucket holds at most 16 records
  for each entry of its chain; a chain has more than one entry only if at some moment the bucket held more
  records than the entries before the last one can take; and the counter \<open>MaxBucketChainLength\<close> is the length
  of the longest chain.\<close>

theorem chains_grow_only_when_full:
  assumes "0 < m_numBuckets s" "finite (dom h)" "accepted (addable rs alloc) ops" "length ops < 2 ^ 32 - 1" "b < unat (m_numBuckets s)"
  shows "let W = rw_run rs alloc reg ops \<lparr>heap = h, table = SharedHashTable_new sm st s, manager = e\<rparr>;
      n = length (m_buckets (table W) ! b) in
    bucket_load (table W) (table_map rs W) b \<le> c_numDataPerEntry * n \<and>
    (n = 1 \<or> (\<exists>p q. ops = p @ q \<and> c_numDataPerEntry * (n - 1) < bucket_load (table W) (last_write p Map.empty) b)) \<and>
    m_perfData (table W) MaxBucketChainLength = of_nat (longest_chain (table W))"
proof -
  let ?new = "\<lparr>heap = h, table = SharedHashTable_new sm st s, manager = e\<rparr>"
  let ?W = "rw_run rs alloc reg ops ?new"
  note new = table_ok_new [OF assms(1,2), of rs sm st e] chains_new [OF assms(1), where sm = sm and st = st]
  have b: "b < length (m_buckets (table ?new))"
    using new(3) assms(5) by simp
  note run = chains_run [OF new(1) assms(3) b, of reg]
  have b': "b < length (m_buckets (table ?W))"
    using run b by simp
  have "chain_counter (table ?W)"
    using counter_run [OF new(1) assms(3), of reg] new(5,6) assms(4) by simp
  moreover have "bucket_load (table ?W) (table_map rs ?W) b \<le> c_numDataPerEntry * length (m_buckets (table ?W) ! b)"
    by (rule bucket_load_bound(1) [OF _ b']) (simp add: rw.run_abs [OF new(1) assms(3)])
  ultimately show ?thesis
    using run new(2) new(4) [OF assms(5)] bucket_load_same [of "table ?W" "table ?new"]
    by (simp add: chain_counter_def Let_def)
qed

text \<open>In a table with one bucket, 17 records make a chain of two entries, and the counter says so.\<close>

lemma card_last_write: "finite (dom m) \<Longrightarrow> card (dom (last_write ops m)) \<le> card (dom m) + length ops \<and> finite (dom (last_write ops m))"
proof (induction ops arbitrary: m)
  case (Cons p ops)
  have "finite (dom (apply_op p m))" "card (dom (apply_op p m)) \<le> Suc (card (dom m))"
    using Cons.prems by (cases p; simp add: apply_op_def card_insert_if card_Diff1_le le_SucI)+
  then show ?case
    using Cons.IH [of "apply_op p m"] by simp
qed simp

lemma dom_puts: "dom (last_write (map (\<lambda>x. Put (f x) v) xs) m) = f ` set xs \<union> dom m"
  by (induction xs arbitrary: m) (auto simp: apply_op_def)

theorem chains_grow_only_when_full_witness:
  "let s = \<lparr>m_numBuckets = 1, m_numBucketsPerMutex = 1, s_fixedKeySize = 0, s_fixedValueSize = 0\<rparr>;
      W = rw_run demo_rs first_fit queue_reg (map (\<lambda>i. Put [i] [7]) [0, 1, 2, 3, 4, 5, 6, 7, 8, 9, 10, 11, 12, 13, 14, 15, 16])
        \<lparr>heap = Map.empty, table = SharedHashTable_new 80 248 s, manager = []\<rparr> in
    length (m_buckets (table W) ! 0) = 2 \<and> m_perfData (table W) MaxBucketChainLength = 2"
proof -
  let ?s = "\<lparr>m_numBuckets = 1, m_numBucketsPerMutex = 1, s_fixedKeySize = 0, s_fixedValueSize = 0\<rparr>"
  let ?ops = "map (\<lambda>i. Put [i] [7]) [0, 1, 2, 3, 4, 5, 6, 7, 8, 9, 10, 11, 12, 13, 14, 15, 16 :: u8]"
  let ?W = "rw_run demo_rs first_fit queue_reg ?ops \<lparr>heap = Map.empty, table = SharedHashTable_new 80 248 ?s, manager = []\<rparr>"
  have acc: "accepted (addable demo_rs first_fit) ?ops"
    by (simp add: addable_demo valid_key_def valid_value_def)
  have new: "table_ok demo_rs \<lparr>heap = Map.empty, table = SharedHashTable_new 80 248 ?s, manager = []\<rparr>"
      "table_map demo_rs \<lparr>heap = Map.empty, table = SharedHashTable_new 80 248 ?s, manager = []\<rparr> = Map.empty"
    by (rule table_ok_new; simp)+
  have T: "length (m_buckets (table ?W)) = 1" and m: "table_map demo_rs ?W = last_write ?ops Map.empty" and ok: "table_ok demo_rs ?W"
    using chains_run [OF new(1) acc, of 0 queue_reg] chains_new(1) [of ?s 80 248] rw.run_abs [OF new(1) acc, of queue_reg]
    unfolding new(2) by (simp_all del: last_write.simps list.map)
  have all: "key_bucket (table ?W) k = 0" for k
    using table_ok_range [OF ok, of k] T by simp
  then have load: "bucket_load (table ?W) m 0 = card (dom m)" for m
    by (simp add: bucket_load_def dom_def)
  have few: "card (dom (last_write p Map.empty)) \<le> 17" if "?ops = p @ q" for p q :: "kv_op list"
  proof -
    have "length p + length q = 17"
      using arg_cong [OF that, of length] by simp
    then show ?thesis
      using card_last_write [of Map.empty p] by simp
  qed
  have "dom (last_write ?ops Map.empty) = (\<lambda>i. [i]) ` {0, 1, 2, 3, 4, 5, 6, 7, 8, 9, 10, 11, 12, 13, 14, 15, 16}"
    by (simp only: dom_puts) simp
  then have all17: "card (dom (last_write ?ops Map.empty)) = 17"
    by (simp add: card_image inj_on_def)
  have "card (dom (last_write ?ops Map.empty)) \<le> c_numDataPerEntry * length (m_buckets (table ?W) ! 0) \<and>
      (length (m_buckets (table ?W) ! 0) = 1 \<or>
       (\<exists>p q. ?ops = p @ q \<and> c_numDataPerEntry * (length (m_buckets (table ?W) ! 0) - 1) < card (dom (last_write p Map.empty)))) \<and>
      m_perfData (table ?W) MaxBucketChainLength = of_nat (longest_chain (table ?W))"
    by (rule chains_grow_only_when_full [where s = ?s and h = Map.empty and b = 0 and sm = 80 and st = 248 and e = "[]" and reg = queue_reg,
        OF _ _ acc, unfolded Let_def load m]) simp_all
  then have counter: "m_perfData (table ?W) MaxBucketChainLength = of_nat (longest_chain (table ?W))"
    and low: "17 \<le> c_numDataPerEntry * length (m_buckets (table ?W) ! 0)"
    and high: "length (m_buckets (table ?W) ! 0) = 1 \<or>
      (\<exists>p q. ?ops = p @ q \<and> c_numDataPerEntry * (length (m_buckets (table ?W) ! 0) - 1) < card (dom (last_write p Map.empty)))"
    unfolding all17 by blast+
  have "c_numDataPerEntry * (length (m_buckets (table ?W) ! 0) - 1) < 17"
    using high few by (elim disjE exE conjE) (simp, meson less_le_trans)
  with low have n: "length (m_buckets (table ?W) ! 0) = 2"
    by (simp add: c_numDataPerEntry_def)
  have "longest_chain (table ?W) = 2"
    using n T by (cases "m_buckets (table ?W)") (simp_all add: longest_chain_def)
  then show ?thesis
    using n counter by (simp add: Let_def)
qed
end
