(* ===== verification/L4_CacheAdd.thy ===== *)
theory L4_CacheAdd
  imports L4_CacheEvict L4_CacheStats L4_ChainGrowth
begin

text \<open>
  The bound on the size of a cache: what \<open>Evict\<close> frees, and \<open>Add\<close> as a whole, and \<open>Remove\<close>, for any action manager
  that meets the contract of \<open>L4_Registry\<close>.
\<close>

section \<open>The number of bytes to free\<close>

text \<open>What the counters of a cache add up to.\<close>

definition cache_bytes :: "nat \<Rightarrow> RecordSerializer \<Rightarrow> 'e World \<Rightarrow> nat" where
  "cache_bytes base rs W = data_size (table_map rs W) + base +
     CalculateRecordOverhead rs * card (dom (table_map rs W)) + sizeof_Entry * chained (table W)"

lemma perf_total:
  assumes "perf_ok base rs W"
  shows "pc_Get (m_perfData (table W)) TotalKeySize + pc_Get (m_perfData (table W)) TotalValueSize +
      pc_Get (m_perfData (table W)) TotalIndexSize = of_nat (cache_bytes base rs W)"
proof -
  have "data_size m = (\<Sum>k\<in>dom m. length k) + (\<Sum>k\<in>dom m. length (the (m k)))" for m
    by (simp add: data_size_def sum.distrib)
  then show ?thesis
    using assms by (simp add: perf_ok_def Let_def pc_Get_def cache_bytes_def)
qed

lemma CalculateNumBytesToFree_nat:
  assumes "perf_ok base rs W" "cache_bytes base rs W + unat n < 2 ^ 64"
  shows "unat (CalculateNumBytesToFree cap (m_perfData (table W)) n) =
    (if unat n < unat cap \<and> cache_bytes base rs W + unat n \<le> unat cap then 0
     else cache_bytes base rs W - unat cap + unat n)"
proof -
  let ?t = "cache_bytes base rs W" and ?w = "of_nat (cache_bytes base rs W) :: u64"
  have t: "unat ?w = ?t"
    using assms(2) by (simp add: unat_of_nat take_bit_nat_eq_self)
  then have sum: "unat (?w + n) = ?t + unat n"
    using assms(2) by (simp add: unat_word_ariths)
  have diff: "unat (?w - cap + n) = ?t - unat cap + unat n" if "cap < ?w"
  proof -
    have "unat (?w - cap) = ?t - unat cap"
      using that t unat_sub [of cap ?w] by (simp add: word_less_nat_alt word_le_nat_alt)
    then show ?thesis
      using assms(2) by (simp add: unat_word_ariths)
  qed
  show ?thesis
    unfolding CalculateNumBytesToFree_def perf_total [OF assms(1)] Let_def
    using t sum diff by (auto simp: word_less_nat_alt word_le_nat_alt)
qed

lemma visited_times_clock:
  assumes "visited_times (clock_visit ttl cur) n x = Some v'" "\<And>v. x = Some v \<Longrightarrow> c_metaDataSize \<le> length v"
  shows "x = Some v' \<or> (\<exists>v. x = Some v \<and> v' = unaccessed v)"
proof -
  have "n < 2"
    using clock_two_visits [OF assms(2), where n = n] assms(1) by (cases "n < 2") auto
  then have "n = 0 \<or> n = Suc 0"
    by auto
  then show ?thesis
    using assms(1) by (auto simp: visited_times_1 clock_visit_def bind_eq_Some_conv split: if_splits)
qed

section \<open>Evict\<close>

context action_registry
begin

text \<open>After two rounds of the clock hand nothing is left. The bytes of the records that are gone are free.\<close>

lemma two_rounds_empty:
  assumes ok: "cache_ok ok queued base rs cur W" and map: "\<forall>k. table_map rs W' k = visited_times (clock_visit ttl cur)
      (visits (length (m_buckets (table W))) (key_bucket (table W) k) (length (m_buckets (table W)) * 2) i) (table_map rs W k)"
  shows "table_map rs W' = Map.empty"
proof (rule ext)
  fix k
  have tab: "table_ok rs W" and vals: "cache_values cur (table_map rs W)"
    using ok by (simp_all add: cache_ok_def)
  have "key_bucket (table W) k < length (m_buckets (table W))"
    using table_ok_range [OF tab, of k] by simp
  then have "2 \<le> visits (length (m_buckets (table W))) (key_bucket (table W) k) (length (m_buckets (table W)) * 2) i"
    using visits_two_rounds by simp
  moreover have "c_metaDataSize \<le> length v" if "table_map rs W k = Some v" for v
    using vals that by (auto simp: cache_values_def)
  ultimately show "table_map rs W' k = None"
    using map clock_two_visits by simp
qed

lemma cache_bytes_freed:
  assumes dom: "dom (table_map rs W') \<subseteq> dom (table_map rs W)" and "same_shape W W'"
    and "data_size (table_map rs W') \<le> data_size (table_map rs W)"
  shows "cache_bytes base rs W' + (data_size (table_map rs W) - data_size (table_map rs W')) \<le> cache_bytes base rs W"
proof -
  have "card (dom (table_map rs W')) \<le> card (dom (table_map rs W))"
    by (rule card_mono [OF finite_table_map dom])
  then have "CalculateRecordOverhead rs * card (dom (table_map rs W')) \<le> CalculateRecordOverhead rs * card (dom (table_map rs W))"
    by simp
  moreover have "chained (table W') = chained (table W)"
    using assms(2) by (intro chained_same) (simp add: same_shape_def)
  ultimately show ?thesis
    using assms(3) by (simp add: cache_bytes_def)
qed

lemma Evict_result:
  fixes C :: "'e Cache"
  assumes ok_C: "cache_ok ok queued base rs cur (base_world C)"
    and fits: "cache_bytes base rs (base_world C) + unat n < 2 ^ 64"
    and hand: "unat (m_currentEvictBucketIndex C) + length (m_buckets (table (base_world C))) * 2 < 2 ^ 64"
  obtains m W' where "Evict rs register cur n C = (Inr (), C\<lparr>base_world := W',
      m_currentEvictBucketIndex := m_currentEvictBucketIndex C + of_nat m\<rparr>)"
    "m \<le> length (m_buckets (table (base_world C))) * 2" "cache_ok ok queued base rs cur W'" "same_shape (base_world C) W'"
    "\<forall>k. table_map rs W' k = visited_times (clock_visit (m_recordTimeToLive C) cur)
      (visits (length (m_buckets (table (base_world C)))) (key_bucket (table (base_world C)) k) m
        (unat (m_currentEvictBucketIndex C))) (table_map rs (base_world C) k)"
    "table_map rs W' = Map.empty \<or> cache_bytes base rs W' + unat n \<le> unat (m_maxCacheSizeInBytes C)"
proof -
  let ?W = "base_world C" and ?cap = "m_maxCacheSizeInBytes C"
  let ?N = "length (m_buckets (table ?W))" and ?idx = "m_currentEvictBucketIndex C"
  have perf: "perf_ok base rs ?W"
    using ok_C by (simp add: cache_ok_def)
  define free where "free = CalculateNumBytesToFree ?cap (m_perfData (table ?W)) n"
  have free: "unat free = (if unat n < unat ?cap \<and> cache_bytes base rs ?W + unat n \<le> unat ?cap then 0
      else cache_bytes base rs ?W - unat ?cap + unat n)"
    unfolding free_def by (rule CalculateNumBytesToFree_nat [OF perf fits])
  show ?thesis
  proof (cases "free = 0")
    case True
    then have "cache_bytes base rs ?W + unat n \<le> unat ?cap"
      using free by (auto split: if_splits)
    then show ?thesis
      using True ok_C by (intro that [of 0 ?W]) (simp_all add: Evict_def free_def)
  next
    case False
    obtain m left' W' where W': "evict_loop (?N * 2) rs register cur free C = (Inr (), left',
        C\<lparr>base_world := W', m_currentEvictBucketIndex := ?idx + of_nat m\<rparr>)"
      "m \<le> ?N * 2" "left' \<noteq> 0 \<longrightarrow> m = ?N * 2" "cache_ok ok queued base rs cur W'" "same_shape ?W W'"
      "\<forall>k. table_map rs W' k = visited_times (clock_visit (m_recordTimeToLive C) cur)
        (visits ?N (key_bucket (table ?W) k) m (unat ?idx)) (table_map rs ?W k)"
      "data_size (table_map rs W') \<le> data_size (table_map rs ?W)"
      "unat left' = unat free - (data_size (table_map rs ?W) - data_size (table_map rs W'))"
      using evict_loop_visits [OF ok_C hand, of free] by blast
    have "Evict rs register cur n C = (Inr (), C\<lparr>base_world := W', m_currentEvictBucketIndex := ?idx + of_nat m\<rparr>)"
      using False W'(1) by (simp add: Evict_def free_def [symmetric])
    moreover have "table_map rs W' = Map.empty" if "left' \<noteq> 0"
      by (rule two_rounds_empty [OF ok_C, of _ "m_recordTimeToLive C" "unat ?idx"]) (use W'(3,6) that in simp)
    moreover have "cache_bytes base rs W' + unat n \<le> unat ?cap" if "left' = 0"
    proof -
      have "table_map rs W' k = None" if "table_map rs ?W k = None" for k
        using W'(6) that by simp
      then have "dom (table_map rs W') \<subseteq> dom (table_map rs ?W)"
        by (metis domIff subsetI)
      then have "cache_bytes base rs W' + (data_size (table_map rs ?W) - data_size (table_map rs W')) \<le> cache_bytes base rs ?W"
        using W'(5,7) by (intro cache_bytes_freed)
      moreover have "unat free \<le> data_size (table_map rs ?W) - data_size (table_map rs W')"
        using W'(8) that by simp
      ultimately show ?thesis
        using free False by (simp split: if_splits)
    qed
    ultimately show ?thesis
      using that W'(2,4,5,6) by blast
  qed
qed

end

section \<open>Add\<close>

definition cache_addable :: "RecordSerializer \<Rightarrow> allocator \<Rightarrow> Key \<Rightarrow> Value \<Rightarrow> bool" where
  "cache_addable rs alloc key v \<longleftrightarrow> good_alloc alloc \<and> valid_key key \<and> Validate rs key v = Inr () \<and>
     m_metadataSize rs = of_nat c_metaDataSize \<and> length key + c_metaDataSize + length v < 2 ^ 32"

lemma cache_addable_valid: "cache_addable rs alloc key v \<Longrightarrow> valid_value v"
  by (simp add: cache_addable_def valid_value_def)

lemma cache_bytes_needed:
  assumes "cache_addable rs alloc key v"
  shows "unat (ucast (ucast (ksize key) + vsize v + of_nat c_metaDataSize :: u32) :: u64) =
    length key + c_metaDataSize + length v"
proof -
  let ?w = "ucast (ksize key) + vsize v + of_nat c_metaDataSize :: u32"
  have "(ucast (ksize key) :: u32) = of_nat (length key)"
    by (rule ucast_of_unat, rule unat_ksize) (use assms in \<open>simp add: cache_addable_def\<close>)
  then have "?w = of_nat (length key + length v + c_metaDataSize)"
    by (simp add: vsize_def)
  then have "unat ?w = length key + length v + c_metaDataSize"
    using assms by (simp only: unat_of_nat) (simp add: cache_addable_def take_bit_nat_eq_self)
  then show ?thesis
    using assms by (simp add: unsigned_ucast_eq take_bit_nat_eq_self cache_addable_def)
qed

lemma Cache_CreateRecordBuffer_ok:
  assumes add: "cache_addable rs alloc key v" and "finite (dom h)"
  obtains a where "h a = None"
    "Cache_CreateRecordBuffer rs alloc t key v h = (Inr a, h(a \<mapsto> record_bytes rs key (Metadata_new t @ v)))"
    "load_record rs (h(a \<mapsto> record_bytes rs key (Metadata_new t @ v))) a =
      Inr \<lparr>m_key = key, m_value = Metadata_new t @ v\<rparr>"
proof -
  let ?n = "CalculateBufferSize rs key v" and ?v = "Metadata_new t @ v"
  obtain a content where al: "alloc h (unat ?n) = (a, content)"
    by (cases "alloc h (unat ?n)")
  have free: "h a = None" and len: "length content = unat ?n"
    using assms al unfolding cache_addable_def good_alloc_def by (metis fst_conv snd_conv)+
  have meta: "unat (m_metadataSize rs) = 4" "vsize (Metadata_new t) = m_metadataSize rs"
    using add by (simp_all add: cache_addable_def c_metaDataSize_def vsize_def)
  have valid: "Validate rs key v = Inr ()" "valid_key key" "valid_value ?v"
    using add by (simp_all add: cache_addable_def valid_value_def c_metaDataSize_def)
  have n: "unat ?n = length (record_bytes rs key ?v)"
    using buffer_size_nat [OF valid(1,2)] add meta(1) by (simp add: cache_addable_def valid_value_def c_metaDataSize_def)
  have "SerializeMeta rs key v (Metadata_new t) content ?n = Inr (record_bytes rs key ?v)"
    using SerializeMeta_eq [of rs key v "Metadata_new t" ?n content] n len meta(2) valid(1)
    by (simp add: ValidateMeta_def)
  then have "Cache_CreateRecordBuffer rs alloc t key v h = (Inr a, h(a \<mapsto> record_bytes rs key ?v))"
    by (simp add: Cache_CreateRecordBuffer_def al)
  moreover have "sizes_ok rs key ?v"
    using sizes_ok_of_Validate [OF valid meta(2)] .
  then have "load_record rs (h(a \<mapsto> record_bytes rs key ?v)) a = Inr \<lparr>m_key = key, m_value = ?v\<rparr>"
    by (simp add: load_record_def Deserialize_record_bytes_exact)
  ultimately show ?thesis
    using that free by blast
qed

lemma GetEpochTime_new_le:
  assumes "0 \<le> sint t"
  shows "sint (GetEpochTime (Metadata_new t)) \<le> sint t"
proof -
  have "unat (GetEpochTime (Metadata_new t)) \<le> unat t"
    by (simp add: GetEpochTime_new)
  then have "uint (GetEpochTime (Metadata_new t)) \<le> uint t"
    by (simp only: uint_nat of_nat_le_iff)
  then show ?thesis
    using sint_nonneg(1) [OF assms] by (simp add: sint_GetEpochTime)
qed

lemma cache_ok_later: "cache_ok ok queued base rs cur W \<Longrightarrow> sint cur \<le> sint cur' \<Longrightarrow> cache_ok ok queued base rs cur' W"
  unfolding cache_ok_def cache_values_def by (meson order_trans)

lemma data_size_added: "finite (dom m) \<Longrightarrow> data_size (m(k \<mapsto> v)) \<le> data_size m + (length k + length v)"
  using sum_dom_upd [of m "\<lambda>k v. length k + length (the v)" k v] by (simp add: data_size_def)

text \<open>The map after the eviction by time that precedes the other steps, if it is forced.\<close>

definition time_evicted :: "RecordSerializer \<Rightarrow> seconds \<Rightarrow> 'e Cache \<Rightarrow> Key \<Rightarrow> (Key \<rightharpoonup> Value)" where
  "time_evicted rs t C key = (let W = base_world C in
     if m_forceTimeBasedEviction C
     then bucket_visited (expire_visit (m_recordTimeToLive C) t) (table W) (key_bucket (table W) key) (table_map rs W)
     else table_map rs W)"

lemma time_evicted_sub: "time_evicted rs t C key \<subseteq>\<^sub>m table_map rs (base_world C)"
  by (auto simp: map_le_def time_evicted_def Let_def bucket_visited_def expire_visit_def domIff split: if_splits bind_splits)

lemma cache_bytes_le:
  assumes "table_map rs W' \<subseteq>\<^sub>m table_map rs W" "chained (table W') = chained (table W)"
  shows "cache_bytes base rs W' \<le> cache_bytes base rs W"
proof -
  let ?m = "table_map rs W" and ?m' = "table_map rs W'"
  have dom: "dom ?m' \<subseteq> dom ?m"
    by (rule map_le_implies_dom_le [OF assms(1)])
  have "data_size ?m' = (\<Sum>k\<in>dom ?m'. length k + length (the (?m k)))"
    unfolding data_size_def using assms(1) by (intro sum.cong) (auto simp: map_le_def)
  also have "\<dots> \<le> data_size ?m"
    unfolding data_size_def by (rule sum_mono2 [OF finite_table_map dom]) simp
  finally have "data_size ?m' \<le> data_size ?m" .
  moreover have "card (dom ?m') \<le> card (dom ?m)"
    by (rule card_mono [OF finite_table_map dom])
  ultimately show ?thesis
    unfolding cache_bytes_def assms(2) by (simp add: add_mono mult_le_mono2)
qed

lemma same_shape_chained: "same_shape W W' \<Longrightarrow> chained (table W') = chained (table W)"
  by (intro chained_same) (simp add: same_shape_def)

lemma cache_bytes_sub:
  "table_map rs W' \<subseteq>\<^sub>m table_map rs W \<Longrightarrow> same_shape W W' \<Longrightarrow> cache_bytes base rs W' \<le> cache_bytes base rs W"
  by (intro cache_bytes_le same_shape_chained)

context action_registry
begin

lemma full_chain_records:
  assumes "table_ok rs W" "full_chain (key_chain (table W) key)"
  shows "c_numDataPerEntry \<le> card (dom (table_map rs W))"
proof -
  let ?b = "key_bucket (table W) key"
  have b: "?b < length (m_buckets (table W))"
    by (rule table_ok_range [OF assms(1)])
  have "key_chain (table W) key \<noteq> []"
    using table_ok_bucket [OF assms(1) b] by (simp add: bucket_ok_def chain_ok_def)
  then have "c_numDataPerEntry * 1 \<le> c_numDataPerEntry * length (key_chain (table W) key)"
    by (intro mult_le_mono2) (simp add: Suc_le_eq)
  then have "c_numDataPerEntry \<le> bucket_load (table W) (table_map rs W) ?b"
    using bucket_load_bound(2) [OF assms(1) b assms(2)] by simp
  also have "bucket_load (table W) (table_map rs W) ?b \<le> card (dom (table_map rs W))"
    unfolding bucket_load_def by (intro card_mono finite_table_map) blast
  finally show ?thesis .
qed

lemma add_record_step:
  assumes ok_W: "cache_ok ok queued base rs cur W" and add: "cache_addable rs alloc key v" and t: "0 \<le> sint t" "sint t \<le> sint cur"
  obtains a h W' where "Cache_CreateRecordBuffer rs alloc t key v (heap W) = (Inr a, h)"
    "Add_record rs register a (W\<lparr>heap := h\<rparr>) = (Inr (), W')" "cache_ok ok queued base rs cur W'"
    "table_map rs W' = (table_map rs W)(key \<mapsto> Metadata_new t @ v)"
    "cache_bytes base rs W' \<le> cache_bytes base rs W + (length key + c_metaDataSize + length v) +
      CalculateRecordOverhead rs + sizeof_Entry"
    "m_setting (table W') = m_setting (table W)" "\<forall>b\<in>dom (heap W). heap W' b = heap W b"
    "\<forall>c. cache_counter c \<longrightarrow> m_perfData (table W') c = m_perfData (table W) c"
    "length (m_buckets (table W')) = length (m_buckets (table W))"
    "card (dom (table_map rs W)) < c_numDataPerEntry \<Longrightarrow> chained (table W') = chained (table W)"
    "\<exists>stat chain. add_stat key (Metadata_new t @ v) (table_map rs W key) chain stat \<and>
      m_perfData (table W') = UpdatePerfDataForAdd rs stat (m_perfData (table W))"
proof -
  let ?v = "Metadata_new t @ v" and ?m = "table_map rs W"
  have tab: "table_ok rs W" and acc: "accounted ok queued W" and perf: "perf_ok base rs W" and vals: "cache_values cur ?m"
    using ok_W by (simp_all add: cache_ok_def)
  have fin: "finite (dom (heap W))"
    using tab by (simp add: table_ok_def)
  obtain a where a: "heap W a = None"
      "Cache_CreateRecordBuffer rs alloc t key v (heap W) = (Inr a, (heap W)(a \<mapsto> record_bytes rs key ?v))"
      "load_record rs ((heap W)(a \<mapsto> record_bytes rs key ?v)) a = Inr \<lparr>m_key = key, m_value = ?v\<rparr>"
    using Cache_CreateRecordBuffer_ok [OF add fin] by blast
  obtain res old stat and W' :: "'e World" where W': "Add_record rs register a (W\<lparr>heap := (heap W)(a \<mapsto> record_bytes rs key ?v)\<rparr>) = (res, W')"
      "heap W' = (heap W)(a \<mapsto> record_bytes rs key ?v)" "effect rs register W old {a} (?m(key \<mapsto> ?v)) res W'"
      "add_stat key ?v (?m key) (length (key_chain (table W) key)) stat"
      "m_perfData (table W') = UpdatePerfDataForAdd rs stat (m_perfData (table W))"
      "map length (m_buckets (table W')) = (if st_isNewEntryAdded stat
        then (map length (m_buckets (table W)))[key_bucket (table W) key := Suc (length (key_chain (table W) key))]
        else map length (m_buckets (table W)))"
      "st_isNewEntryAdded stat \<longrightarrow> full_chain (key_chain (table W) key)"
    using Add_record_fresh [OF tab a(1,3), of register] by metis
  have m': "table_ok rs W'" "table_map rs W' = ?m(key \<mapsto> ?v)"
    using W'(3) by (simp_all add: effect_def)
  note reg = added_accounted [OF tab acc a(1) W'(2,3)]
  have "valid_key key" "valid_value ?v"
    using add by (simp_all add: cache_addable_def valid_value_def c_metaDataSize_def)
  moreover have "?m key \<noteq> Some []"
    using vals by (fastforce simp: cache_values_def c_metaDataSize_def)
  ultimately have "perf_ok base rs W'"
    using added_perf [OF tab perf m'(2) _ _ _ W'(4,5,6)] by simp
  moreover have "cache_values cur (table_map rs W')"
    unfolding m'(2) using add t GetEpochTime_new_le [OF t(1)]
    by (intro cache_values_upd [OF vals]) (simp add: cache_addable_def c_metaDataSize_def)
  ultimately have "cache_ok ok queued base rs cur W'"
    using m' reg by (simp add: cache_ok_def)
  moreover have "chained (table W') \<le> chained (table W) + 1"
    using chained_added [OF tab W'(6)] by simp
  then have "sizeof_Entry * chained (table W') \<le> sizeof_Entry * chained (table W) + sizeof_Entry"
    by (metis add_mult_distrib2 mult.right_neutral mult_le_mono2)
  moreover have "card (dom (table_map rs W')) \<le> card (dom ?m) + 1"
    using m'(2) finite_table_map [of rs W] by (simp add: card_insert_le_m1 card_insert_if)
  then have "CalculateRecordOverhead rs * card (dom (table_map rs W')) \<le> CalculateRecordOverhead rs * card (dom ?m) + CalculateRecordOverhead rs"
    by (metis add_mult_distrib2 mult.right_neutral mult_le_mono2)
  moreover have "data_size (table_map rs W') \<le> data_size ?m + (length key + c_metaDataSize + length v)"
    using data_size_added [OF finite_table_map, of rs W key ?v] by (simp add: m'(2) c_metaDataSize_def)
  moreover have "m_setting (table W') = m_setting (table W)" "\<forall>b\<in>dom (heap W). heap W' b = heap W b"
    using W'(2,3) a(1) by (auto simp: effect_def)
  moreover have "\<forall>c. cache_counter c \<longrightarrow> m_perfData (table W') c = m_perfData (table W) c"
    using W'(5) UpdatePerfDataForAdd_cache by simp
  moreover have "length (m_buckets (table W')) = length (m_buckets (table W))"
    using arg_cong [OF W'(6), of length] by (simp split: if_splits)
  moreover have "chained (table W') = chained (table W)" if "card (dom ?m) < c_numDataPerEntry"
    using chained_added [OF tab W'(6)] full_chain_records [OF tab, of key] W'(7) that by auto
  ultimately show ?thesis
    using that [OF a(2), of W'] W'(1,4,5) reg m'(2) by (auto simp: cache_bytes_def)
qed

text \<open>\<open>Add\<close> in two parts: the evictions, that lead to \<open>W2\<close>, and the new record.\<close>

lemma time_eviction_step:
  fixes C :: "'e Cache"
  assumes ok_C: "cache_ok ok queued base rs t (base_world C)"
  obtains W1 where "(if m_forceTimeBasedEviction C then EvictBasedOnTime rs register (m_recordTimeToLive C) t key (base_world C)
      else (Inr (), base_world C)) = (Inr (), W1)"
    "cache_ok ok queued base rs t W1" "same_shape (base_world C) W1" "table_map rs W1 = time_evicted rs t C key"
    "same_balance (base_world C) W1" "cache_bytes base rs W1 \<le> cache_bytes base rs (base_world C)"
    "\<not> m_forceTimeBasedEviction C \<Longrightarrow> W1 = base_world C"
proof (cases "m_forceTimeBasedEviction C")
  case True
  show ?thesis
  proof (rule EvictBasedOnTime_result [OF ok_C, of "m_recordTimeToLive C" key])
    fix W'
    assume run: "EvictBasedOnTime rs register (m_recordTimeToLive C) t key (base_world C) = (Inr (), W')"
      and ok': "cache_ok ok queued base rs t W'" and shape: "same_shape (base_world C) W'"
      and "table_map rs W' = bucket_visited (expire_visit (m_recordTimeToLive C) t) (table (base_world C)) (key_bucket (table (base_world C)) key)
        (table_map rs (base_world C))"
    then have map: "table_map rs W' = time_evicted rs t C key"
      by (simp add: True time_evicted_def Let_def)
    moreover have "cache_bytes base rs W' \<le> cache_bytes base rs (base_world C)"
      using time_evicted_sub [of rs t C key] by (intro cache_bytes_sub [OF _ shape]) (simp only: map)
    ultimately show ?thesis
      using True by (intro that [OF _ ok' shape _ EvictBasedOnTime_balance [OF run]]) (simp_all add: run)
  qed
qed (use ok_C that [of "base_world C"] in \<open>simp add: time_evicted_def Let_def\<close>)

lemma Cache_Add_parts:
  fixes C :: "'e Cache"
  assumes ok_C: "cache_ok ok queued base rs t1 (base_world C)" and add: "cache_addable rs alloc key v"
    and times: "0 \<le> sint t3" "sint t1 \<le> sint t2" "sint t2 \<le> sint t3"
    and fits: "cache_bytes base rs (base_world C) + (length key + c_metaDataSize + length v) < 2 ^ 64"
    and hand: "unat (m_currentEvictBucketIndex C) + length (m_buckets (table (base_world C))) * 2 < 2 ^ 64"
  obtains m W2 W' where "Cache_Add rs alloc register t1 t2 t3 C key v = (Inr (), C\<lparr>base_world := W',
      m_currentEvictBucketIndex := m_currentEvictBucketIndex C + of_nat m\<rparr>)"
    "m \<le> length (m_buckets (table (base_world C))) * 2" "cache_ok ok queued base rs t2 W2" "same_shape (base_world C) W2"
    "table_map rs W2 = (\<lambda>k. visited_times (clock_visit (m_recordTimeToLive C) t2)
      (visits (length (m_buckets (table (base_world C)))) (key_bucket (table (base_world C)) k) m
        (unat (m_currentEvictBucketIndex C))) (time_evicted rs t1 C key k))"
    "table_map rs W2 = Map.empty \<or> cache_bytes base rs W2 + (length key + c_metaDataSize + length v) \<le> unat (m_maxCacheSizeInBytes C)"
    "same_balance (base_world C) W2" "cache_ok ok queued base rs t3 W'" "table_map rs W' = (table_map rs W2)(key \<mapsto> Metadata_new t3 @ v)"
    "cache_bytes base rs W' \<le> cache_bytes base rs W2 + (length key + c_metaDataSize + length v) + CalculateRecordOverhead rs + sizeof_Entry"
    "m_setting (table W') = m_setting (table W2)" "\<forall>b\<in>dom (heap W2). heap W' b = heap W2 b"
    "\<forall>c. cache_counter c \<longrightarrow> m_perfData (table W') c = m_perfData (table W2) c"
    "length (m_buckets (table W')) = length (m_buckets (table W2))"
    "card (dom (table_map rs W2)) < c_numDataPerEntry \<Longrightarrow> chained (table W') = chained (table W2)"
proof -
  let ?W = "base_world C" and ?n = "length key + c_metaDataSize + length v"
  let ?N = "length (m_buckets (table ?W))" and ?idx = "m_currentEvictBucketIndex C"
  let ?need = "ucast (ucast (ksize key) + vsize v + of_nat c_metaDataSize :: u32) :: u64"
  obtain W1 where W1: "(if m_forceTimeBasedEviction C then EvictBasedOnTime rs register (m_recordTimeToLive C) t1 key ?W
        else (Inr (), ?W)) = (Inr (), W1)"
      "cache_ok ok queued base rs t1 W1" "same_shape ?W W1" "table_map rs W1 = time_evicted rs t1 C key" "same_balance ?W W1"
      "cache_bytes base rs W1 \<le> cache_bytes base rs ?W"
    by (rule time_eviction_step [OF ok_C, of key])
  let ?C1 = "C\<lparr>base_world := W1\<rparr>"
  have len1: "length (m_buckets (table W1)) = ?N" and kb: "GetBucketInfo (table W1) = GetBucketInfo (table ?W)"
    using same_shape_length [OF W1(3)] same_shape_bucket [OF W1(3)] by simp_all
  have need: "unat ?need = ?n"
    by (rule cache_bytes_needed [OF add])
  have fits1: "cache_bytes base rs (base_world ?C1) + unat ?need < 2 ^ 64"
    using W1(6) fits need by simp
  have ok1: "cache_ok ok queued base rs t2 (base_world ?C1)"
    using cache_ok_later [OF W1(2) times(2)] by simp
  have hand1: "unat (m_currentEvictBucketIndex ?C1) + length (m_buckets (table (base_world ?C1))) * 2 < 2 ^ 64"
    using hand len1 by simp
  note ev = Evict_result [OF ok1 fits1 hand1]
  have sel: "base_world ?C1 = W1" "m_currentEvictBucketIndex ?C1 = ?idx" "m_recordTimeToLive ?C1 = m_recordTimeToLive C"
      "m_maxCacheSizeInBytes ?C1 = m_maxCacheSizeInBytes C"
    by simp_all
  obtain m W2 where W2: "Evict rs register t2 ?need ?C1 = (Inr (), ?C1\<lparr>base_world := W2,
        m_currentEvictBucketIndex := ?idx + of_nat m\<rparr>)"
      "m \<le> ?N * 2" "cache_ok ok queued base rs t2 W2"
      "\<forall>k. table_map rs W2 k = visited_times (clock_visit (m_recordTimeToLive C) t2)
        (visits ?N (key_bucket (table ?W) k) m (unat ?idx)) (table_map rs W1 k)"
      "table_map rs W2 = Map.empty \<or> cache_bytes base rs W2 + ?n \<le> unat (m_maxCacheSizeInBytes C)" "same_shape W1 W2"
    using ev unfolding sel len1 kb need by blast
  obtain a h W' where W': "Cache_CreateRecordBuffer rs alloc t3 key v (heap W2) = (Inr a, h)"
      "Add_record rs register a (W2\<lparr>heap := h\<rparr>) = (Inr (), W')" "cache_ok ok queued base rs t3 W'"
      "table_map rs W' = (table_map rs W2)(key \<mapsto> Metadata_new t3 @ v)"
      "cache_bytes base rs W' \<le> cache_bytes base rs W2 + ?n + CalculateRecordOverhead rs + sizeof_Entry"
      "m_setting (table W') = m_setting (table W2)" "\<forall>b\<in>dom (heap W2). heap W' b = heap W2 b"
      "\<forall>c. cache_counter c \<longrightarrow> m_perfData (table W') c = m_perfData (table W2) c"
      "length (m_buckets (table W')) = length (m_buckets (table W2))"
      "card (dom (table_map rs W2)) < c_numDataPerEntry \<longrightarrow> chained (table W') = chained (table W2)"
    by (rule add_record_step [OF cache_ok_later [OF W2(3) times(3)] add times(1) order_refl], rule that; blast)
  have run: "Cache_Add rs alloc register t1 t2 t3 C key v = (Inr (), C\<lparr>base_world := W', m_currentEvictBucketIndex := ?idx + of_nat m\<rparr>)"
    using W1(1) W2(1) W'(1,2) by (simp add: Cache_Add_def Cache_update_swap)
  have evicted: "table_map rs W2 = (\<lambda>k. visited_times (clock_visit (m_recordTimeToLive C) t2)
      (visits ?N (key_bucket (table ?W) k) m (unat ?idx)) (time_evicted rs t1 C key k))"
    using W2(4) W1(4) by (intro ext) simp
  have balance: "same_balance ?W W2"
    using same_balance_trans [OF W1(5)] Evict_balance [OF W2(1)] by simp
  show ?thesis
    by (rule that [OF run W2(2,3) same_shape_trans [OF W1(3) W2(6)] evicted W2(5) balance W'(3-9) W'(10) [rule_format]])
qed

lemma Cache_Add_result:
  fixes C :: "'e Cache"
  assumes ok_C: "cache_ok ok queued base rs t1 (base_world C)" and add: "cache_addable rs alloc key v"
    and times: "0 \<le> sint t3" "sint t1 \<le> sint t2" "sint t2 \<le> sint t3"
    and fits: "cache_bytes base rs (base_world C) + (length key + c_metaDataSize + length v) < 2 ^ 64"
    and hand: "unat (m_currentEvictBucketIndex C) + length (m_buckets (table (base_world C))) * 2 < 2 ^ 64"
  obtains m W' where "Cache_Add rs alloc register t1 t2 t3 C key v = (Inr (), C\<lparr>base_world := W',
      m_currentEvictBucketIndex := m_currentEvictBucketIndex C + of_nat m\<rparr>)"
    "m \<le> length (m_buckets (table (base_world C))) * 2" "cache_ok ok queued base rs t3 W'"
    "table_map rs W' = (\<lambda>k. visited_times (clock_visit (m_recordTimeToLive C) t2)
      (visits (length (m_buckets (table (base_world C)))) (key_bucket (table (base_world C)) k) m
        (unat (m_currentEvictBucketIndex C))) (time_evicted rs t1 C key k))(key \<mapsto> Metadata_new t3 @ v)"
    "table_map rs W' = [key \<mapsto> Metadata_new t3 @ v] \<or>
      cache_bytes base rs W' \<le> unat (m_maxCacheSizeInBytes C) + CalculateRecordOverhead rs + sizeof_Entry"
    "m_setting (table W') = m_setting (table (base_world C))"
    "\<forall>a\<in>dom (heap (base_world C)). a \<notin> set (table_addrs (table (base_world C))) \<longrightarrow> heap W' a = heap (base_world C) a"
proof (rule Cache_Add_parts [OF assms])
  fix m W2 W'
  assume run: "Cache_Add rs alloc register t1 t2 t3 C key v = (Inr (), C\<lparr>base_world := W',
      m_currentEvictBucketIndex := m_currentEvictBucketIndex C + of_nat m\<rparr>)"
    and m: "m \<le> length (m_buckets (table (base_world C))) * 2" and shape: "same_shape (base_world C) W2"
    and evicted: "table_map rs W2 = (\<lambda>k. visited_times (clock_visit (m_recordTimeToLive C) t2)
      (visits (length (m_buckets (table (base_world C)))) (key_bucket (table (base_world C)) k) m
        (unat (m_currentEvictBucketIndex C))) (time_evicted rs t1 C key k))"
    and room: "table_map rs W2 = Map.empty \<or> cache_bytes base rs W2 + (length key + c_metaDataSize + length v) \<le> unat (m_maxCacheSizeInBytes C)"
    and ok': "cache_ok ok queued base rs t3 W'" and map: "table_map rs W' = (table_map rs W2)(key \<mapsto> Metadata_new t3 @ v)"
    and bytes: "cache_bytes base rs W' \<le> cache_bytes base rs W2 + (length key + c_metaDataSize + length v) + CalculateRecordOverhead rs + sizeof_Entry"
    and frame: "m_setting (table W') = m_setting (table W2)" "\<forall>b\<in>dom (heap W2). heap W' b = heap W2 b"
  have "table_map rs W' = [key \<mapsto> Metadata_new t3 @ v] \<or>
      cache_bytes base rs W' \<le> unat (m_maxCacheSizeInBytes C) + CalculateRecordOverhead rs + sizeof_Entry"
    using room bytes map by auto
  moreover have "m_setting (table W') = m_setting (table (base_world C))"
    "\<forall>a\<in>dom (heap (base_world C)). a \<notin> set (table_addrs (table (base_world C))) \<longrightarrow> heap W' a = heap (base_world C) a"
    using shape frame by (simp_all add: same_shape_def) (metis domI domD)
  ultimately show ?thesis
    by (intro that [OF run m ok']) (simp_all only: map evicted)
qed

text \<open>\<open>Remove\<close> is that of the table underneath.\<close>

lemma Cache_Remove_result:
  assumes ok_W: "cache_ok ok queued base rs t W"
  obtains W' where "Remove rs register W key = (Inr (table_map rs W key \<noteq> None), W')" "cache_ok ok queued base rs t W'"
    "table_map rs W' = (table_map rs W)(key := None)" "map length (m_buckets (table W')) = map length (m_buckets (table W))"
    "\<forall>c. cache_counter c \<or> c = BucketsCount \<longrightarrow> m_perfData (table W') c = m_perfData (table W) c"
proof -
  let ?W = "del_record rs register W key"
  have tab: "table_ok rs W" and acc: "accounted ok queued W" and perf: "perf_ok base rs W" and vals: "cache_values t (table_map rs W)"
    using ok_W by (simp_all add: cache_ok_def)
  have map: "table_ok rs ?W" "table_map rs ?W = (table_map rs W)(key := None)"
    using rw.del_inv [OF tab] rw.del_abs [OF tab] by simp_all
  have "perf_ok base rs ?W"
    by (rule Remove_perf [OF tab perf])
  moreover have "cache_values t (table_map rs ?W)"
    using vals unfolding map(2) cache_values_def by simp
  ultimately have "cache_ok ok queued base rs t ?W"
    using map(1) Remove_accounted [OF tab acc, of key] by (simp add: cache_ok_def)
  moreover have "Remove rs register W key = (Inr (table_map rs W key \<noteq> None), ?W)"
    using Remove_accounted [OF tab acc, of key] by (simp add: del_record_def prod_eq_iff)
  moreover have "\<forall>c. cache_counter c \<or> c = BucketsCount \<longrightarrow> m_perfData (table ?W) c = m_perfData (table W) c"
    by (cases rule: Remove_cases [OF tab, of key register];
        simp add: del_record_def UpdatePerfDataForRemove_def pc_defs Let_def cache_counter_def split: if_splits)
  moreover note del_record_chains(1) [OF tab, of register key]
  ultimately show ?thesis
    using that map(2) by blast
qed

end

end
