(* ===== verification/L4_Service.thy ===== *)
theory L4_Service
  imports L4_Manager L4_CacheAdd
begin

text \<open>
  The tables of a service share the memory and the epoch manager: the invariant of a service, and
  what a call on one table leaves of the others.
\<close>

section \<open>The invariant of a service\<close>

definition num_tables :: "Service \<Rightarrow> nat" where
  "num_tables S = length (m_hashTables (m_hashTableManager S))"

definition addrs_at :: "Service \<Rightarrow> nat \<Rightarrow> addr list" where
  "addrs_at S i = table_addrs (ht_table (table_at S i))"

definition map_at :: "Service \<Rightarrow> nat \<Rightarrow> (Key \<rightharpoonup> Value)" where
  "map_at S i = table_map (serializer_of (table_at S i)) (world_at S i)"

text \<open>The buffers of the tables in \<open>I\<close>.\<close>

definition buffers :: "Service \<Rightarrow> nat set \<Rightarrow> addr multiset" where
  "buffers S I = (\<Sum>i\<in>I. mset (addrs_at S i))"

text \<open>The index size of an empty cache; \<open>sm\<close> and \<open>st\<close> are the sizes of a mutex and of the table object.\<close>

definition base_size :: "nat \<Rightarrow> nat \<Rightarrow> Setting \<Rightarrow> nat" where
  "base_size sm st s = unat (m_numBuckets s) * sizeof_Entry + unat (num_mutexes s) * sm + st"

definition table_inv :: "nat \<Rightarrow> nat \<Rightarrow> seconds \<Rightarrow> bool \<Rightarrow> RecordSerializer \<Rightarrow> 'e World \<Rightarrow> bool" where
  "table_inv sm st now cached rs W \<longleftrightarrow> table_ok rs W \<and>
     (cached \<longrightarrow> perf_ok (base_size sm st (m_setting (table W))) rs W \<and> cache_values now (table_map rs W))"

text \<open>
  \<open>H\<close> are the references to epochs that are held, and \<open>L\<close> the buffers that rejected calls of \<open>Add\<close> have leaked: every
  other buffer is in one table or queued for deallocation.
\<close>

definition svc_ok :: "nat \<Rightarrow> nat \<Rightarrow> seconds \<Rightarrow> u64 multiset \<Rightarrow> addr multiset \<Rightarrow> Service \<Rightarrow> bool" where
  "svc_ok sm st now H L S \<longleftrightarrow> manager_ok (m_epochManager S) H \<and> finite (dom (svc_heap S)) \<and>
     mset_set (dom (svc_heap S)) = buffers S {..<num_tables S} + queued_buffers (m_epochManager S) + L \<and>
     (\<forall>i<num_tables S. table_inv sm st now (ht_cache (table_at S i) \<noteq> None) (serializer_of (table_at S i)) (world_at S i))"

lemma table_inv_frame:
  assumes "table_inv sm st now cached rs W" "\<forall>a\<in>set (table_addrs (table W)). heap W' a = heap W a"
    and "table W' = table W" "finite (dom (heap W'))"
  shows "table_inv sm st now cached rs W' \<and> table_map rs W' = table_map rs W"
proof -
  have "table_ok rs W' \<and> table_map rs W' = table_map rs W"
    using assms by (intro table_ok_heap) (simp_all add: table_inv_def)
  then show ?thesis
    using assms(1,3) by (simp add: table_inv_def perf_ok_def Let_def)
qed

lemma buffers_split: "i < n \<Longrightarrow> buffers S {..<n} = mset (addrs_at S i) + buffers S ({..<n} - {i})"
  unfolding buffers_def by (subst sum.remove [of _ i]) simp_all

lemma buffers_cong: "(\<And>j. j \<in> I \<Longrightarrow> addrs_at S' j = addrs_at S j) \<Longrightarrow> buffers S' I = buffers S I"
  unfolding buffers_def by (rule sum.cong) simp_all

lemma world_at_simps [simp]:
  "heap (world_at S i) = svc_heap S" "manager (world_at S i) = m_epochManager S" "table (world_at S i) = ht_table (table_at S i)"
  by (simp_all add: world_at_def)

lemma svc_world:
  assumes "svc_ok sm st now H L S" "i < num_tables S"
  shows "table_inv sm st now (ht_cache (table_at S i) \<noteq> None) (serializer_of (table_at S i)) (world_at S i)"
    and "table_ok (serializer_of (table_at S i)) (world_at S i)"
    and "mset_set (dom (svc_heap S)) = mset (table_addrs (table (world_at S i))) +
      (queued_buffers (m_epochManager S) + (buffers S ({..<num_tables S} - {i}) + L))"
  using assms buffers_split [OF assms(2), of S] by (simp_all add: svc_ok_def table_inv_def addrs_at_def)

text \<open>No buffer is in two tables, or in a table and queued.\<close>

lemma buffers_disjoint:
  assumes ok: "svc_ok sm st now H L S" and ij: "i < num_tables S" "j < num_tables S" "j \<noteq> i" and a: "a \<in> set (addrs_at S j)"
  shows "a \<notin> set (addrs_at S i)" "a \<in> dom (svc_heap S)"
proof -
  have "mset (addrs_at S j) \<subseteq># buffers S ({..<num_tables S} - {i})"
    unfolding buffers_def using ij by (subst sum.remove [of _ j]) simp_all
  then have in_others: "a \<in># buffers S ({..<num_tables S} - {i})"
    using a by (metis mset_subset_eqD set_mset_mset)
  have fin: "finite (dom (svc_heap S))"
    using ok by (simp add: svc_ok_def)
  have count: "count (mset_set (dom (svc_heap S))) a = count (mset (addrs_at S i)) a +
      (count (queued_buffers (m_epochManager S)) a + (count (buffers S ({..<num_tables S} - {i})) a + count L a))"
    using svc_world(3) [OF ok ij(1)] by (simp add: addrs_at_def)
  moreover have "count (mset_set (dom (svc_heap S))) a \<le> 1"
    by (simp add: count_mset_set')
  moreover have "0 < count (buffers S ({..<num_tables S} - {i})) a"
    using in_others by (simp add: count_greater_zero_iff)
  ultimately have "count (mset (addrs_at S i)) a = 0" "0 < count (mset_set (dom (svc_heap S))) a"
    by linarith+
  then show "a \<notin> set (addrs_at S i)" "a \<in> dom (svc_heap S)"
    using fin by (simp_all add: count_greater_zero_iff)
qed

section \<open>A call on one table\<close>

lemma num_tables_set_world [simp]: "num_tables (set_world i W S) = num_tables S"
  by (simp add: num_tables_def set_world_def)

lemma table_at_set_world: "i < num_tables S \<Longrightarrow> table_at (set_world i W S) j = (if j = i then (table_at S i)\<lparr>ht_table := table W\<rparr> else table_at S j)"
  by (simp add: num_tables_def table_at_def set_world_def)

lemma set_world_simps [simp]:
  "svc_heap (set_world i W S) = heap W" "m_epochManager (set_world i W S) = manager W"
  "m_hashTableNameToIndex (m_hashTableManager (set_world i W S)) = m_hashTableNameToIndex (m_hashTableManager S)"
  by (simp_all add: set_world_def)

lemma serializer_of_setting:
  "m_setting T = m_setting (ht_table t) \<Longrightarrow> serializer_of (t\<lparr>ht_table := T\<rparr>) = serializer_of t"
  by (simp add: serializer_of_def default_serializer_def cache_serializer_def)

lemma set_world_ok:
  assumes ok: "svc_ok sm st now H L S" and i: "i < num_tables S"
    and inv: "table_inv sm st now' (ht_cache (table_at S i) \<noteq> None) (serializer_of (table_at S i)) W"
    and later: "sint now \<le> sint now'" and setting: "m_setting (table W) = m_setting (ht_table (table_at S i))"
    and man: "manager_ok (manager W) H'"
    and acc: "mset_set (dom (heap W)) = mset (table_addrs (table W)) + (queued_buffers (manager W) + (buffers S ({..<num_tables S} - {i}) + L'))"
    and frame: "\<forall>a\<in>dom (svc_heap S). a \<notin> set (addrs_at S i) \<longrightarrow> heap W a = svc_heap S a"
  shows "svc_ok sm st now' H' L' (set_world i W S)" "map_at (set_world i W S) i = table_map (serializer_of (table_at S i)) W"
    "j < num_tables S \<Longrightarrow> j \<noteq> i \<Longrightarrow> map_at (set_world i W S) j = map_at S j"
proof -
  let ?S = "set_world i W S" and ?n = "num_tables S"
  have fin: "finite (dom (heap W))"
    using inv by (simp add: table_inv_def table_ok_def)
  note at = table_at_set_world [OF i, of W]
  have world_i: "world_at ?S i = W"
    by (simp add: world_at_def at)
  have ser: "serializer_of (table_at ?S i) = serializer_of (table_at S i)"
    by (simp add: at serializer_of_setting [OF setting])
  have other: "table_inv sm st now' (ht_cache (table_at S j) \<noteq> None) (serializer_of (table_at S j)) (world_at ?S j) \<and>
      table_map (serializer_of (table_at S j)) (world_at ?S j) = map_at S j" if j: "j < ?n" "j \<noteq> i" for j
  proof -
    have "heap (world_at ?S j) a = heap (world_at S j) a" if "a \<in> set (table_addrs (table (world_at S j)))" for a
      using buffers_disjoint [OF ok i j, of a] that frame by (simp add: addrs_at_def)
    then have "table_inv sm st now (ht_cache (table_at S j) \<noteq> None) (serializer_of (table_at S j)) (world_at ?S j) \<and>
        table_map (serializer_of (table_at S j)) (world_at ?S j) = table_map (serializer_of (table_at S j)) (world_at S j)"
      using fin j by (intro table_inv_frame [OF svc_world(1) [OF ok j(1)]]) (simp_all add: at)
    moreover have "cache_values now m \<Longrightarrow> cache_values now' m" for m
      using later unfolding cache_values_def by (meson order_trans)
    ultimately show ?thesis
      by (auto simp: table_inv_def map_at_def)
  qed
  have "table_inv sm st now' (ht_cache (table_at ?S j) \<noteq> None) (serializer_of (table_at ?S j)) (world_at ?S j)" if "j < num_tables ?S" for j
  proof (cases "j = i")
    case True
    then show ?thesis
      using inv by (simp add: world_i ser) (simp add: at)
  next
    case False
    then show ?thesis
      using other [of j] that by (simp add: at)
  qed
  moreover have "mset_set (dom (svc_heap ?S)) = buffers ?S {..<?n} + queued_buffers (m_epochManager ?S) + L'"
  proof -
    have "buffers ?S ({..<?n} - {i}) = buffers S ({..<?n} - {i})"
      by (rule buffers_cong) (simp add: addrs_at_def at)
    then show ?thesis
      unfolding buffers_split [OF i] using acc by (simp add: addrs_at_def at)
  qed
  ultimately show "svc_ok sm st now' H' L' ?S"
    using fin man by (simp add: svc_ok_def)
  show "map_at ?S i = table_map (serializer_of (table_at S i)) W"
    by (simp add: map_at_def world_i ser)
  show "j < ?n \<Longrightarrow> j \<noteq> i \<Longrightarrow> map_at ?S j = map_at S j"
    using other [of j] by (simp add: map_at_def at)
qed

text \<open>What a call on table \<open>i\<close> leaves as it was.\<close>

definition changes_only :: "nat \<Rightarrow> Service \<Rightarrow> Service \<Rightarrow> bool" where
  "changes_only i S S' \<longleftrightarrow> num_tables S' = num_tables S \<and>
     m_hashTableNameToIndex (m_hashTableManager S') = m_hashTableNameToIndex (m_hashTableManager S) \<and>
     m_currentEpochCounter (m_epochManager S') = m_currentEpochCounter (m_epochManager S) \<and>
     (\<forall>j<num_tables S. serializer_of (table_at S' j) = serializer_of (table_at S j) \<and>
       (ht_cache (table_at S' j) = None \<longleftrightarrow> ht_cache (table_at S j) = None) \<and>
       (j \<noteq> i \<longrightarrow> map_at S' j = map_at S j \<and> table_at S' j = table_at S j))"

text \<open>The contract of the action manager, with the buffers of the other tables added to what is queued.\<close>

interpretation shared: action_registry "\<lambda>E. manager_ok E H \<and> m_currentEpochCounter E = c" "\<lambda>E. queued_buffers E + Others" RegisterAction
proof unfold_locales
  fix E E' :: "addr EpochManager" and a r
  assume "manager_ok E H \<and> m_currentEpochCounter E = c" "RegisterAction a E = (r, E')"
  then show "r = Inr () \<and> (manager_ok E' H \<and> m_currentEpochCounter E' = c) \<and> queued_buffers E' + Others = add_mset a (queued_buffers E + Others)"
    using RegisterAction_manager by (fastforce simp: queued_buffers_def)
qed

abbreviation shared_accounted :: "u64 multiset \<Rightarrow> addr multiset \<Rightarrow> Service \<Rightarrow> nat \<Rightarrow> addr EpochManager World \<Rightarrow> bool" where
  "shared_accounted H L S i \<equiv> accounted (\<lambda>E. manager_ok E H \<and> m_currentEpochCounter E = m_currentEpochCounter (m_epochManager S))
     (\<lambda>E. queued_buffers E + (buffers S ({..<num_tables S} - {i}) + L))"

lemma svc_accounted: "svc_ok sm st now H L S \<Longrightarrow> i < num_tables S \<Longrightarrow> shared_accounted H L S i (world_at S i)"
  using svc_world(3) [of sm st now H L S i] by (simp add: accounted_def svc_ok_def)

lemma set_world_call:
  assumes ok: "svc_ok sm st now H L S" and i: "i < num_tables S"
    and inv: "table_inv sm st now' (ht_cache (table_at S i) \<noteq> None) (serializer_of (table_at S i)) W"
    and later: "sint now \<le> sint now'" and setting: "m_setting (table W) = m_setting (ht_table (table_at S i))"
    and acc: "shared_accounted H L' S i W" and frame: "\<forall>a\<in>dom (svc_heap S). a \<notin> set (addrs_at S i) \<longrightarrow> heap W a = svc_heap S a"
  shows "svc_ok sm st now' H L' (set_world i W S) \<and> changes_only i S (set_world i W S) \<and>
    map_at (set_world i W S) i = table_map (serializer_of (table_at S i)) W"
proof -
  have "manager_ok (manager W) H"
    "mset_set (dom (heap W)) = mset (table_addrs (table W)) + (queued_buffers (manager W) + (buffers S ({..<num_tables S} - {i}) + L'))"
    using acc by (simp_all add: accounted_def)
  note res = set_world_ok [OF ok i inv later setting this frame]
  moreover have "m_currentEpochCounter (manager W) = m_currentEpochCounter (m_epochManager S)"
    using acc by (simp add: accounted_def)
  ultimately show ?thesis
    by (simp add: changes_only_def table_at_set_world [OF i] serializer_of_setting [OF setting])
qed

lemma table_Add_rw:
  assumes ok: "svc_ok sm st now H L S" and i: "i < num_tables S" "ht_cache (table_at S i) = None"
    and add: "addable (serializer_of (table_at S i)) alloc key v"
  obtains S' where "table_Add alloc t i key v S = (Inr (), S')" "svc_ok sm st now H L S'" "changes_only i S S'"
    "map_at S' i = (map_at S i)(key \<mapsto> v)"
proof -
  let ?rs = "serializer_of (table_at S i)" and ?W = "world_at S i"
  let ?W' = "put_record ?rs alloc RegisterAction ?W key v"
  note tab = svc_world(2) [OF ok i(1)]
  note acc = shared.Add_accounted [OF tab add svc_accounted [OF ok i(1)]]
  have frame: "\<forall>a\<in>dom (svc_heap S). a \<notin> set (addrs_at S i) \<longrightarrow> heap ?W' a = svc_heap S a"
    and setting: "m_setting (table ?W') = m_setting (ht_table (table_at S i))"
    by (cases rule: Add_cases [OF tab add, of RegisterAction]; auto simp: put_record_def effect_def)+
  have "table_inv sm st now (ht_cache (table_at S i) \<noteq> None) ?rs ?W'"
    using rw.put_inv [OF tab add] i(2) by (simp add: table_inv_def)
  note res = set_world_call [OF ok i(1) this order_refl setting acc [THEN conjunct2] frame]
  have "table_Add alloc t i key v S = (Inr (), set_world i ?W' S)"
    using acc i(2) by (simp add: table_Add_def put_record_def split_beta Let_def)
  then show ?thesis
    using that res rw.put_abs [OF tab add, of RegisterAction] by (simp add: map_at_def)
qed

text \<open>A record whose sizes are not the fixed ones is refused, and the buffer that was taken for it is lost.\<close>

lemma table_Add_rw_rejected:
  assumes ok: "svc_ok sm st now H L S" and i: "i < num_tables S" "ht_cache (table_at S i) = None"
    and alloc: "good_alloc alloc" and bad: "Validate (serializer_of (table_at S i)) key v = Inl e"
  obtains S' a where "table_Add alloc t i key v S = (Inl e, S')" "svc_ok sm st now H (add_mset a L) S'" "changes_only i S S'"
    "map_at S' i = map_at S i"
proof -
  let ?rs = "serializer_of (table_at S i)" and ?W = "world_at S i"
  obtain a bytes where free: "heap ?W a = None"
      and add: "Add ?rs alloc RegisterAction ?W key v = (Inl e, ?W\<lparr>heap := (heap ?W)(a \<mapsto> bytes)\<rparr>)"
      and tab: "table_ok ?rs (?W\<lparr>heap := (heap ?W)(a \<mapsto> bytes)\<rparr>)" "table_map ?rs (?W\<lparr>heap := (heap ?W)(a \<mapsto> bytes)\<rparr>) = table_map ?rs ?W"
    by (rule Add_rejected [OF svc_world(2) [OF ok i(1)] alloc bad])
  let ?W' = "?W\<lparr>heap := (heap ?W)(a \<mapsto> bytes)\<rparr>"
  have "finite (dom (svc_heap S))"
    using ok by (simp add: svc_ok_def)
  then have "mset_set (insert a (dom (svc_heap S))) = add_mset a (mset_set (dom (svc_heap S)))"
    using free by (simp add: domIff)
  then have acc: "shared_accounted H (add_mset a L) S i ?W'"
    using svc_accounted [OF ok i(1)] by (simp add: accounted_def)
  have inv: "table_inv sm st now (ht_cache (table_at S i) \<noteq> None) ?rs ?W'"
    using tab(1) i(2) by (simp add: table_inv_def)
  have setting: "m_setting (table ?W') = m_setting (ht_table (table_at S i))"
    and frame: "\<forall>b\<in>dom (svc_heap S). b \<notin> set (addrs_at S i) \<longrightarrow> heap ?W' b = svc_heap S b"
    using free by (auto simp: domIff)
  note res = set_world_call [OF ok i(1) inv order_refl setting acc frame]
  have "table_Add alloc t i key v S = (Inl e, set_world i ?W' S)"
    using add i(2) by (simp add: table_Add_def Let_def)
  then show ?thesis
    using that [of "set_world i ?W' S" a] res tab(2) by (simp add: map_at_def)
qed

lemma table_Get_rw:
  assumes "svc_ok sm st now H L S" "i < num_tables S" "ht_cache (table_at S i) = None"
  shows "table_Get t i key S = (Inr (map_at S i key), S)"
  using Get_correct [OF svc_world(2) [OF assms(1,2)]] assms(3) by (simp add: table_Get_def map_at_def Let_def)

lemma table_Remove_any:
  assumes ok: "svc_ok sm st now H L S" and i: "i < num_tables S"
  obtains S' where "table_Remove i key S = (Inr (map_at S i key \<noteq> None), S')" "svc_ok sm st now H L S'" "changes_only i S S'"
    "map_at S' i = (map_at S i)(key := None)"
proof -
  let ?rs = "serializer_of (table_at S i)" and ?W = "world_at S i"
  let ?W' = "del_record ?rs RegisterAction ?W key"
  note tab = svc_world(2) [OF ok i]
  note inv = svc_world(1) [OF ok i]
  note acc = shared.Remove_accounted [OF tab svc_accounted [OF ok i], of key]
  have frame: "\<forall>a\<in>dom (svc_heap S). a \<notin> set (addrs_at S i) \<longrightarrow> heap ?W' a = svc_heap S a"
    and setting: "m_setting (table ?W') = m_setting (ht_table (table_at S i))"
    by (cases rule: Remove_cases [OF tab, of key RegisterAction]; auto simp: del_record_def effect_def)+
  have map: "table_map ?rs ?W' = (table_map ?rs ?W)(key := None)"
    by (rule rw.del_abs [OF tab])
  have "table_inv sm st now (ht_cache (table_at S i) \<noteq> None) ?rs ?W'"
    using rw.del_inv [OF tab] inv Remove_perf [OF tab, of "base_size sm st (m_setting (ht_table (table_at S i)))" RegisterAction key]
    by (auto simp: table_inv_def map setting cache_values_del)
  note res = set_world_call [OF ok i this order_refl setting acc [THEN conjunct2] frame]
  have "table_Remove i key S = (Inr (map_at S i key \<noteq> None), set_world i ?W' S)"
    using acc by (simp add: table_Remove_def del_record_def split_beta Let_def map_at_def)
  then show ?thesis
    using that res map by (simp add: map_at_def)
qed

section \<open>A round of the processing thread, and contexts\<close>

text \<open>The processing thread of the service runs the deallocations.\<close>

definition service_tick :: "Service \<Rightarrow> Service res" where
  "service_tick S =
     (let (run, E) = processing_tick (m_epochManager S)
      in bind_res (run_releases run (svc_heap S)) (\<lambda>h. Inr (S\<lparr>svc_heap := h, m_epochManager := E\<rparr>)))"

lemma svc_same_tables:
  assumes ok: "svc_ok sm st now H L S" and tables: "m_hashTableManager S' = m_hashTableManager S"
    and heap: "\<And>a. a \<in># buffers S {..<num_tables S} \<Longrightarrow> svc_heap S' a = svc_heap S a" and fin: "finite (dom (svc_heap S'))"
    and man: "manager_ok (m_epochManager S') H'"
    and acc: "mset_set (dom (svc_heap S')) = buffers S {..<num_tables S} + queued_buffers (m_epochManager S') + L"
  shows "svc_ok sm st now H' L S'" "i < num_tables S \<Longrightarrow> map_at S' i = map_at S i"
proof -
  have at: "num_tables S' = num_tables S" "table_at S' j = table_at S j" for j
    using tables by (simp_all add: num_tables_def table_at_def)
  then have bufs: "buffers S' I = buffers S I" for I
    by (intro buffers_cong) (simp add: addrs_at_def)
  have "table_inv sm st now (ht_cache (table_at S i) \<noteq> None) (serializer_of (table_at S i)) (world_at S' i) \<and>
      table_map (serializer_of (table_at S i)) (world_at S' i) = table_map (serializer_of (table_at S i)) (world_at S i)"
    if i: "i < num_tables S" for i
  proof (rule table_inv_frame [OF svc_world(1) [OF ok i]])
    have "mset (addrs_at S i) \<subseteq># buffers S {..<num_tables S}"
      by (simp add: buffers_split [OF i])
    then show "\<forall>a\<in>set (table_addrs (table (world_at S i))). heap (world_at S' i) a = heap (world_at S i) a"
      using heap by (auto simp: addrs_at_def dest: mset_subset_eqD)
  qed (simp_all add: at fin)
  then show "svc_ok sm st now H' L S'" "i < num_tables S \<Longrightarrow> map_at S' i = map_at S i"
    using fin man acc by (simp_all add: svc_ok_def at bufs map_at_def)
qed

lemma service_tick_ok:
  assumes ok: "svc_ok sm st now H L S" and small: "m_currentEpochCounter (m_epochManager S) < 2 ^ 64 - 1"
  obtains S' where "service_tick S = Inr S'" "svc_ok sm st now H L S'" "m_hashTableManager S' = m_hashTableManager S"
    "\<forall>i<num_tables S. map_at S' i = map_at S i"
    "unat (m_currentEpochCounter (m_epochManager S')) \<le> Suc (unat (m_currentEpochCounter (m_epochManager S)))"
proof -
  have man: "manager_ok (m_epochManager S) H" and fin: "finite (dom (svc_heap S))"
    and acc: "mset_set (dom (svc_heap S)) = (buffers S {..<num_tables S} + L) + queued_buffers (m_epochManager S)"
    using ok by (simp_all add: svc_ok_def)
  obtain run E where run: "processing_tick (m_epochManager S) = (run, E)"
    by (cases "processing_tick (m_epochManager S)")
  note tick = processing_tick_ok [OF man small run]
  note rel = release_buffers [OF fin acc [unfolded tick(2)]]
  let ?S' = "S\<lparr>svc_heap := svc_heap S |` (- set run), m_epochManager := E\<rparr>"
  have "svc_ok sm st now H L ?S'" "\<forall>i<num_tables S. map_at ?S' i = map_at S i"
    using svc_same_tables [OF ok, of ?S' H] rel(2,3) fin tick(1) by simp_all
  moreover have "service_tick S = Inr ?S'"
    by (simp add: service_tick_def run rel(1))
  ultimately show ?thesis
    using that tick(3) by simp
qed

lemma GetContext_ok:
  assumes ok: "svc_ok sm st now H L S" and small: "size H < 2 ^ 32 - 1" and new: "GetContext S = (c, S')"
  shows "svc_ok sm st now (add_mset c H) L S'" "m_hashTableManager S' = m_hashTableManager S"
    "\<forall>i<num_tables S. map_at S' i = map_at S i" "m_currentEpochCounter (m_epochManager S') = m_currentEpochCounter (m_epochManager S)"
proof -
  obtain q where q: "EpochRefPolicy_new (m_epochQueue (m_epochManager S)) = (c, q)" "S' = set_epoch_queue q S"
    using new by (auto simp: GetContext_def split: prod.splits)
  have "manager_ok (m_epochManager S) H"
    using ok by (simp add: svc_ok_def)
  from context_open [OF this small q(1)] show "svc_ok sm st now (add_mset c H) L S'" "\<forall>i<num_tables S. map_at S' i = map_at S i"
    using svc_same_tables [OF ok, of S' "add_mset c H"] ok
    by (simp_all add: q(2) set_epoch_queue_def svc_ok_def queued_buffers_def)
  show "m_hashTableManager S' = m_hashTableManager S" "m_currentEpochCounter (m_epochManager S') = m_currentEpochCounter (m_epochManager S)"
    by (simp_all add: q(2) set_epoch_queue_def)
qed

lemma Context_destroy_ok:
  assumes ok: "svc_ok sm st now H L S" and c: "c \<in># H" and small: "unat (m_currentEpochCounter (m_epochManager S)) < 2 ^ 32"
    and destroy: "Context_destroy c S = (r, S')"
  shows "r = Inr ()" "svc_ok sm st now (H - {#c#}) L S'" "m_hashTableManager S' = m_hashTableManager S"
    "\<forall>i<num_tables S. map_at S' i = map_at S i" "m_currentEpochCounter (m_epochManager S') = m_currentEpochCounter (m_epochManager S)"
proof -
  obtain q where q: "EpochRefPolicy_destroy c (m_epochQueue (m_epochManager S)) = (r, q)" "S' = set_epoch_queue q S"
    using destroy by (auto simp: Context_destroy_def split: prod.splits)
  have "manager_ok (m_epochManager S) H"
    using ok by (simp add: svc_ok_def)
  note res = context_close [OF this c small q(1)]
  then show "r = Inr ()"
    by simp
  show "svc_ok sm st now (H - {#c#}) L S'" "\<forall>i<num_tables S. map_at S' i = map_at S i"
    using svc_same_tables [OF ok, of S' "H - {#c#}"] ok res
    by (simp_all add: q(2) set_epoch_queue_def svc_ok_def queued_buffers_def)
  show "m_hashTableManager S' = m_hashTableManager S" "m_currentEpochCounter (m_epochManager S') = m_currentEpochCounter (m_epochManager S)"
    by (simp_all add: q(2) set_epoch_queue_def)
qed

section \<open>Calls on a cache\<close>

lemma svc_cache:
  assumes "svc_ok sm st now H L S" "i < num_tables S" "ht_cache (table_at S i) \<noteq> None" "sint now \<le> sint now'"
  shows "cache_ok (\<lambda>E. manager_ok E H \<and> m_currentEpochCounter E = m_currentEpochCounter (m_epochManager S))
    (\<lambda>E. queued_buffers E + (buffers S ({..<num_tables S} - {i}) + L)) (base_size sm st (m_setting (ht_table (table_at S i))))
    (serializer_of (table_at S i)) now' (world_at S i)"
  by (rule cache_ok_later [of _ _ _ _ now])
    (use svc_world(1) [OF assms(1,2)] svc_accounted [OF assms(1,2)] assms(3,4) in \<open>simp_all add: cache_ok_def table_inv_def\<close>)

lemma table_Get_cache:
  assumes ok: "svc_ok sm st now H L S" and i: "i < num_tables S" "ht_cache (table_at S i) = Some c"
    and later: "sint now \<le> sint now'" and big: "\<forall>v. map_at S i key = Some v \<longrightarrow> c_metaDataSize < length v"
  obtains S' where "table_Get now' i key S = (Inr (cache_lookup (cs_recordTimeToLive c) now' (map_at S i) key), S')"
    "svc_ok sm st now' H L S'" "changes_only i S S'" "map_at S' i = cache_touch (cs_recordTimeToLive c) now' (map_at S i) key"
proof -
  let ?rs = "serializer_of (table_at S i)" and ?W = "world_at S i"
  have cached: "ht_cache (table_at S i) \<noteq> None"
    using i(2) by simp
  have big': "\<forall>v. table_map ?rs ?W key = Some v \<longrightarrow> c_metaDataSize < length v"
    using big by (simp add: map_at_def)
  obtain W' where W': "Cache_Get ?rs (cs_recordTimeToLive c) now' ?W key = (Inr (cache_lookup (cs_recordTimeToLive c) now' (table_map ?rs ?W) key), W')"
      "cache_ok (\<lambda>E. manager_ok E H \<and> m_currentEpochCounter E = m_currentEpochCounter (m_epochManager S))
        (\<lambda>E. queued_buffers E + (buffers S ({..<num_tables S} - {i}) + L)) (base_size sm st (m_setting (ht_table (table_at S i)))) ?rs now' W'"
      "table_map ?rs W' = cache_touch (cs_recordTimeToLive c) now' (table_map ?rs ?W) key" "m_setting (table W') = m_setting (table ?W)"
      "\<forall>a. a \<notin> set (table_addrs (table ?W)) \<longrightarrow> heap W' a = heap ?W a"
    by (rule Cache_Get_result [OF svc_cache [OF ok i(1) cached later] big', of "cs_recordTimeToLive c"],
      rule that, assumption, assumption, assumption, assumption, assumption)
  have "table_inv sm st now' (ht_cache (table_at S i) \<noteq> None) ?rs W'"
    using W'(2,4) by (simp add: cache_ok_def table_inv_def)
  moreover have "\<forall>a\<in>dom (svc_heap S). a \<notin> set (addrs_at S i) \<longrightarrow> heap W' a = svc_heap S a"
    using W'(5) by (simp add: addrs_at_def)
  ultimately have "svc_ok sm st now' H L (set_world i W' S) \<and> changes_only i S (set_world i W' S) \<and>
      map_at (set_world i W' S) i = table_map ?rs W'"
    using W'(2,4) later by (intro set_world_call [OF ok i(1)]) (simp_all add: cache_ok_def)
  then show ?thesis
    using that [of "set_world i W' S"] W'(1,3) i(2) by (simp add: table_Get_def map_at_def Let_def)
qed

lemma set_cache_world: "set_cache i c C S = (let T = set_world i (base_world C) S in
    T\<lparr>m_hashTableManager := (m_hashTableManager T)\<lparr>m_hashTables := (m_hashTables (m_hashTableManager T))
      [i := (table_at T i)\<lparr>ht_cache := Some (c\<lparr>cs_currentEvictBucketIndex := m_currentEvictBucketIndex C\<rparr>)\<rparr>]\<rparr>\<rparr>)"
  by (simp add: set_cache_def)

text \<open>Moving the hand of the clock changes nothing else.\<close>

lemma move_hand:
  fixes c :: CacheState
  assumes i: "i < num_tables T" and cached: "ht_cache (table_at T i) \<noteq> None"
  defines "T' \<equiv> T\<lparr>m_hashTableManager := (m_hashTableManager T)\<lparr>m_hashTables := (m_hashTables (m_hashTableManager T))
      [i := (table_at T i)\<lparr>ht_cache := Some c\<rparr>]\<rparr>\<rparr>"
  shows "svc_ok sm st now H L T' = svc_ok sm st now H L T" "changes_only i S T' = changes_only i S T" "map_at T' j = map_at T j"
    "ht_cache (table_at T' i) = Some c"
proof -
  have at: "table_at T' j = (if j = i then (table_at T i)\<lparr>ht_cache := Some c\<rparr> else table_at T j)" for j
    using i by (simp add: T'_def table_at_def num_tables_def)
  have simps: "num_tables T' = num_tables T" "svc_heap T' = svc_heap T" "m_epochManager T' = m_epochManager T"
    "m_hashTableNameToIndex (m_hashTableManager T') = m_hashTableNameToIndex (m_hashTableManager T)"
    by (simp_all add: T'_def num_tables_def)
  have "ht_table (table_at T' j) = ht_table (table_at T j)" for j
    by (simp add: at)
  moreover have "(ht_cache (table_at T' j) = None) = (ht_cache (table_at T j) = None)" for j
    using cached by (auto simp: at)
  ultimately have same: "world_at T' j = world_at T j" "serializer_of (table_at T' j) = serializer_of (table_at T j)"
      "addrs_at T' j = addrs_at T j" "(ht_cache (table_at T' j) = None) = (ht_cache (table_at T j) = None)" for j
    by (simp_all add: world_at_def simps serializer_of_def addrs_at_def)
  have maps: "map_at T' j = map_at T j" for j
    by (simp add: map_at_def same)
  have "buffers T' I = buffers T I" for I
    by (rule buffers_cong) (rule same)
  then show "svc_ok sm st now H L T' = svc_ok sm st now H L T"
    by (simp add: svc_ok_def simps same del: not_None_eq)
  show "changes_only i S T' = changes_only i S T"
    unfolding changes_only_def simps same maps by (simp add: at cong: imp_cong)
  show "map_at T' j = map_at T j" "ht_cache (table_at T' i) = Some c"
    by (simp_all add: maps at)
qed

lemma table_Add_cache:
  assumes ok: "svc_ok sm st now H L S" and i: "i < num_tables S" "ht_cache (table_at S i) = Some c"
    and times: "sint now \<le> sint t1" "sint t1 \<le> sint t2" "sint t2 \<le> sint t3" "0 \<le> sint t3"
    and add: "cache_addable (serializer_of (table_at S i)) alloc key v"
    and fits: "cache_bytes (base_size sm st (m_setting (ht_table (table_at S i)))) (serializer_of (table_at S i)) (world_at S i) +
      (length key + c_metaDataSize + length v) < 2 ^ 64"
    and hand: "unat (cs_currentEvictBucketIndex c) + length (m_buckets (ht_table (table_at S i))) * 2 < 2 ^ 64"
  obtains S' where "table_Add alloc (t1, t2, t3) i key v S = (Inr (), S')" "svc_ok sm st t3 H L S'" "changes_only i S S'"
    "map_at S' i key = Some (Metadata_new t3 @ v)"
    "\<forall>k w. k \<noteq> key \<longrightarrow> map_at S' i k = Some w \<longrightarrow> (\<exists>w'. map_at S i k = Some w' \<and> drop c_metaDataSize w' = drop c_metaDataSize w)"
proof -
  let ?rs = "serializer_of (table_at S i)" and ?W = "world_at S i" and ?C = "cache_at S i c"
  let ?b = "base_size sm st (m_setting (ht_table (table_at S i)))"
  have cached: "ht_cache (table_at S i) \<noteq> None"
    using i(2) by simp
  have C: "base_world ?C = ?W" "m_currentEvictBucketIndex ?C = cs_currentEvictBucketIndex c" "m_recordTimeToLive ?C = cs_recordTimeToLive c"
    by (simp_all add: cache_at_def)
  note pre = svc_cache [OF ok i(1) cached times(1), folded C(1)]
  have fits': "cache_bytes ?b ?rs (base_world ?C) + (length key + c_metaDataSize + length v) < 2 ^ 64"
    and hand': "unat (m_currentEvictBucketIndex ?C) + length (m_buckets (table (base_world ?C))) * 2 < 2 ^ 64"
    using fits hand by (simp_all add: C)
  obtain m W' where W': "Cache_Add ?rs alloc RegisterAction t1 t2 t3 ?C key v = (Inr (), ?C\<lparr>base_world := W',
        m_currentEvictBucketIndex := m_currentEvictBucketIndex ?C + of_nat m\<rparr>)"
      "cache_ok (\<lambda>E. manager_ok E H \<and> m_currentEpochCounter E = m_currentEpochCounter (m_epochManager S))
        (\<lambda>E. queued_buffers E + (buffers S ({..<num_tables S} - {i}) + L)) ?b ?rs t3 W'"
      "table_map ?rs W' = (\<lambda>k. visited_times (clock_visit (m_recordTimeToLive ?C) t2)
        (visits (length (m_buckets (table (base_world ?C)))) (key_bucket (table (base_world ?C)) k) m
          (unat (m_currentEvictBucketIndex ?C))) (time_evicted ?rs t1 ?C key k))(key \<mapsto> Metadata_new t3 @ v)"
      "m_setting (table W') = m_setting (table (base_world ?C))"
      "\<forall>a\<in>dom (heap (base_world ?C)). a \<notin> set (table_addrs (table (base_world ?C))) \<longrightarrow> heap W' a = heap (base_world ?C) a"
    by (rule shared.Cache_Add_result [OF pre add times(4,2,3) fits' hand'], rule that; assumption)
  let ?T = "set_world i W' S"
  have "table_inv sm st t3 (ht_cache (table_at S i) \<noteq> None) ?rs W'"
    using W'(2,4) by (simp add: cache_ok_def table_inv_def C)
  moreover have "\<forall>a\<in>dom (svc_heap S). a \<notin> set (addrs_at S i) \<longrightarrow> heap W' a = svc_heap S a"
    using W'(5) by (simp add: addrs_at_def C)
  ultimately have T: "svc_ok sm st t3 H L ?T \<and> changes_only i S ?T \<and> map_at ?T i = table_map ?rs W'"
    using W'(2,4) times by (intro set_world_call [OF ok i(1)]) (simp_all add: cache_ok_def C)
  let ?c = "c\<lparr>cs_currentEvictBucketIndex := cs_currentEvictBucketIndex c + of_nat m\<rparr>"
  let ?S = "?T\<lparr>m_hashTableManager := (m_hashTableManager ?T)\<lparr>m_hashTables := (m_hashTables (m_hashTableManager ?T))
      [i := (table_at ?T i)\<lparr>ht_cache := Some ?c\<rparr>]\<rparr>\<rparr>"
  have iT: "i < num_tables ?T" "ht_cache (table_at ?T i) \<noteq> None"
    using i by (simp_all add: table_at_set_world)
  note moved = move_hand [OF iT, where c = ?c]
  have run: "table_Add alloc (t1, t2, t3) i key v S = (Inr (), ?S)"
    using W'(1) i(2) by (simp add: table_Add_def Let_def set_cache_world C)
  have "map_at ?S i key = Some (Metadata_new t3 @ v)"
    by (simp add: moved(3) T W'(3))
  moreover have "\<exists>w'. map_at S i k = Some w' \<and> drop c_metaDataSize w' = drop c_metaDataSize w" if k: "k \<noteq> key" "map_at ?S i k = Some w" for k w
  proof -
    let ?x = "time_evicted ?rs t1 ?C key k"
    have sub: "?x = Some w' \<Longrightarrow> map_at S i k = Some w'" for w'
      using time_evicted_sub [of ?rs t1 ?C key] by (auto simp: map_le_def map_at_def C dest: bspec [of _ _ k])
    have long: "?x = Some w' \<Longrightarrow> c_metaDataSize \<le> length w'" for w'
      using sub [of w'] pre by (auto simp: cache_ok_def cache_values_def map_at_def C)
    have "visited_times (clock_visit (m_recordTimeToLive ?C) t2)
        (visits (length (m_buckets (table (base_world ?C)))) (key_bucket (table (base_world ?C)) k) m
          (unat (m_currentEvictBucketIndex ?C))) ?x = Some w"
      using k by (simp add: moved(3) T W'(3))
    from visited_times_clock [OF this long] show ?thesis
      using sub long by (auto simp: unaccessed_def)
  qed
  ultimately show ?thesis
    using that [OF run] T by (simp only: moved) blast
qed

end
