(* ===== verification/L4_SerializerProps.thy ===== *)
theory L4_SerializerProps
  imports L4_Serializer
begin

text \<open>
  The serializer of tables, whole: a table saved and loaded back stands for the same map; loading
  ends on every stream, with a well-formed table or an exception; a stream that was cut off among
  the records is rejected, one that was cut off before them is not; an unknown version is rejected.
\<close>

section \<open>The records that a table holds can be added to another\<close>

lemma loaded_addable:
  assumes "load_record rs h a = Inr \<lparr>m_key = k, m_value = v\<rparr>" "m_metadataSize rs = 0" "good_alloc alloc"
  shows "addable rs alloc k v"
proof -
  obtain buf where buf: "Deserialize rs buf = Inr \<lparr>m_key = k, m_value = v\<rparr>"
    using assms(1) by (auto simp: load_record_def split: option.splits)
  have "length x = n" if "get_bytes off n b = Inr x" for off n b and x :: "u8 list"
    using that by (auto simp: get_bytes_def split: if_splits)
  then have "Validate rs k v = Inr ()"
    using buf assms(2)
    by (fastforce simp: Deserialize_def Validate_def bind_res_Inr_iff ksize_def vsize_def split: if_splits)
  then show ?thesis
    using assms load_valid [OF assms(1)] by (simp add: addable_def)
qed

lemma table_kvs_addable:
  assumes "m_metadataSize rs = 0" "good_alloc alloc" "(k, v) \<in> set (table_kvs rs h T)"
  shows "addable rs alloc k v"
  using assms loaded_addable by (auto simp: table_kvs_def bucket_kvs_def in_slots_kvs)

section \<open>One Add of the deserializer\<close>

lemma table_ok_perf:
  "table_ok rs (W\<lparr>table := (table W)\<lparr>m_perfData := pd\<rparr>\<rparr>) = table_ok rs W"
  "table_map rs (W\<lparr>table := (table W)\<lparr>m_perfData := pd\<rparr>\<rparr>) = table_map rs W"
proof -
  have "bucket_ok rs h (T\<lparr>m_perfData := pd\<rparr>) = bucket_ok rs h T" for h T
    by (rule bucket_ok_length) simp
  then show "table_ok rs (W\<lparr>table := (table W)\<lparr>m_perfData := pd\<rparr>\<rparr>) = table_ok rs W"
    by (simp add: table_ok_def table_addrs_def)
  show "table_map rs (W\<lparr>table := (table W)\<lparr>m_perfData := pd\<rparr>\<rparr>) = table_map rs W"
    by (simp add: table_map_def table_kvs_def)
qed

lemma count_loaded_simps [simp]:
  "table_ok rs (count_loaded W) = table_ok rs W"
  "table_map rs (count_loaded W) = table_map rs W"
  "m_setting (table (count_loaded W)) = m_setting (table W)"
  "m_buckets (table (count_loaded W)) = m_buckets (table W)"
  "m_perfData (table (count_loaded W)) = pc_Increment (m_perfData (table W)) RecordsCountLoadedFromSerializer"
  by (simp_all add: count_loaded_def table_ok_perf)

lemma perf_ok_count_loaded [simp]: "perf_ok base rs (count_loaded W) = perf_ok base rs W"
  by (simp add: perf_ok_def Let_def chained_def)

lemma Add_counts_loaded:
  "UpdatePerfDataForAdd rs stat pd RecordsCountLoadedFromSerializer = pd RecordsCountLoadedFromSerializer"
  "UpdatePerfDataForAdd rs stat pd RecordsCountSavedFromSerializer = pd RecordsCountSavedFromSerializer"
  "UpdatePerfDataForAdd rs stat pd BucketsCount = pd BucketsCount"
  by (simp_all add: UpdatePerfDataForAdd_def Let_def)

text \<open>With the deserializer's action manager \<open>Add\<close> adds a new key or throws.\<close>

definition loader_ok :: "RecordSerializer \<Rightarrow> allocator \<Rightarrow> unit World \<Rightarrow> bool" where
  "loader_ok rs alloc W \<longleftrightarrow> table_ok rs W \<and> good_alloc alloc \<and> rs = default_serializer (table W) \<and>
     m_numBuckets (m_setting (table W)) \<noteq> 0"

lemma loader_ok_count_loaded [simp]: "loader_ok rs alloc (count_loaded W) = loader_ok rs alloc W"
  by (simp add: loader_ok_def default_serializer_def)

lemma loader_Add:
  assumes ok: "loader_ok rs alloc W" and kv: "valid_key k" "valid_value v"
  obtains (failed) msg W' where "Add rs alloc no_register W k v = (Inl (RuntimeException msg), W')"
      "loader_ok rs alloc W'" "addable rs alloc k v \<Longrightarrow> table_map rs W k \<noteq> None"
  | (added) W' where "Add rs alloc no_register W k v = (Inr (), W')" "loader_ok rs alloc (count_loaded W')"
      "table_map rs W' = (table_map rs W)(k \<mapsto> v)" "table_map rs W k = None" "W' = put_record rs alloc no_register W k v"
      "m_perfData (table W') RecordsCountLoadedFromSerializer = m_perfData (table W) RecordsCountLoadedFromSerializer"
proof -
  have tab: "table_ok rs W" "good_alloc alloc" and rs: "rs = default_serializer (table W)"
    using ok unfolding loader_ok_def by blast+
  have keep: "loader_ok rs alloc W'" if "table_ok rs W'" "m_setting (table W') = m_setting (table W)" for W'
    using that tab(2) rs ok by (simp add: loader_ok_def default_serializer_def)
  consider (valid) "Validate rs k v = Inr ()"
    | (bad) "Validate rs k v = Inl (RuntimeException ''Invalid key or value sizes are given.'')"
    using Validate_cases by blast
  then show ?thesis
  proof cases
    case bad
    show ?thesis
      by (rule Add_rejected [OF tab bad, of no_register], rule failed)
        (auto intro: keep simp: bad addable_def)
  next
    case valid
    then have add: "addable rs alloc k v"
      using kv tab(2) by (simp add: addable_def rs default_serializer_def)
    show ?thesis
    proof (cases rule: Add_cases [OF tab(1) add, of no_register])
      case (1 res a old stat W')
      have eff: "table_ok rs W'" "m_setting (table W') = m_setting (table W)"
          "table_map rs W' = (table_map rs W)(k \<mapsto> v)"
          "res = (case old of None \<Rightarrow> Inr () | Some a \<Rightarrow> fst (no_register a (manager W)))"
        using 1(4) by (auto simp: effect_def no_register_def split: option.splits)
      show ?thesis
      proof (cases old)
        case None
        show ?thesis
          using None eff 1(1,5,7) keep [of "count_loaded W'"]
          by (intro added [of W']) (auto simp: put_record_def Add_counts_loaded)
      next
        case (Some a0)
        then show ?thesis
          using eff(4) 1(1,5) keep [OF eff(1,2)] by (intro failed) (auto simp: no_register_def)
      qed
    qed
  qed
qed

section \<open>The loop\<close>

text \<open>
  On a stream that has ended the sizes stay 0 and the flag stays set: the loop adds the empty record
  until \<open>Add\<close> throws, the second time at the latest.
\<close>

lemma read_record_bad:
  "\<not> s_good s \<Longrightarrow> read_record kb vb s = ([], [], s)"
  by (simp add: read_record_def le_word_le_bytes vector_resize_def)

lemma load_loop_step:
  assumes "loader_ok rs alloc W" "read_record kb vb s = (k, v, s1)" "read_flag True s1 = (flag, s2)"
  obtains (failed) msg W' where "load_loop (Suc n) rs alloc True kb vb s W = Some (Inl (RuntimeException msg), W')"
      "loader_ok rs alloc W'" "addable rs alloc k v \<Longrightarrow> table_map rs W k \<noteq> None"
  | (added) W' where "load_loop (Suc n) rs alloc True kb vb s W =
        (case flag of Inl e \<Rightarrow> Some (Inl e, W') | Inr b \<Rightarrow> load_loop n rs alloc b k v s2 (count_loaded W'))"
      "loader_ok rs alloc (count_loaded W')" "table_map rs W' = (table_map rs W)(k \<mapsto> v)" "table_map rs W k = None"
      "W' = put_record rs alloc no_register W k v"
      "m_perfData (table W') RecordsCountLoadedFromSerializer = m_perfData (table W) RecordsCountLoadedFromSerializer"
proof (cases rule: loader_Add [OF assms(1) read_record_props(1,2) [OF assms(2)]])
  case (1 msg W')
  then show ?thesis
    using failed assms(2) by (simp add: Let_def)
next
  case (2 W')
  show ?thesis
    by (rule added [OF _ 2(2-)]) (use 2(1) assms(2,3) in \<open>simp add: Let_def\<close>)
qed

lemma load_loop_bad:
  assumes ok: "loader_ok rs alloc W" and bad: "\<not> s_good s"
  shows "\<exists>msg W'. load_loop (Suc (Suc n)) rs alloc True kb vb s W = Some (Inl (RuntimeException msg), W') \<and>
    loader_ok rs alloc W'"
proof (cases rule: load_loop_step [OF ok read_record_bad [OF bad] read_flag_simps(1) [OF bad], of "Suc n" kb vb])
  case 1
  then show ?thesis by blast
next
  case (2 W')
  note first = this
  show ?thesis
  proof (cases rule: load_loop_step [OF 2(2) read_record_bad [OF bad] read_flag_simps(1) [OF bad], of n "[]" "[]"])
    case 1
    then show ?thesis
      using first(1) by auto
  next
    case 2
    then show ?thesis
      using first(3) by simp
  qed
qed

lemma load_loop_total:
  "loader_ok rs alloc W \<Longrightarrow> length (s_data s) + 3 \<le> fuel \<Longrightarrow>
    \<exists>r W'. load_loop fuel rs alloc b kb vb s W = Some (r, W') \<and> loader_ok rs alloc W'"
proof (induction fuel arbitrary: b kb vb s W)
  case 0
  then show ?case by simp
next
  case (Suc fuel)
  show ?case
  proof (cases "b \<and> s_good s")
    case False
    then show ?thesis
      using load_loop_bad [OF Suc.prems(1), of s "fuel - 1" kb vb] Suc.prems
      by (cases b; cases fuel) auto
  next
    case True
    obtain k v s1 where rec: "read_record kb vb s = (k, v, s1)"
      by (metis surj_pair)
    obtain flag s2 where fl: "read_flag True s1 = (flag, s2)"
      by (meson surj_pair)
    show ?thesis
    proof (cases rule: load_loop_step [OF Suc.prems(1) rec fl, of fuel])
      case 1
      then show ?thesis
        using True by (simp del: load_loop.simps)
    next
      case (2 W')
      have next_loop: "\<exists>r W''. load_loop fuel rs alloc b' k v s2 (count_loaded W') = Some (r, W'') \<and> loader_ok rs alloc W''" for b'
      proof (cases "s_good s1")
        case True
        then have "length (s_data s2) + 3 \<le> fuel"
          using read_record_props(3) [OF rec True] read_flag_props(1) [OF fl] Suc.prems(2) by linarith
        then show ?thesis
          by (rule Suc.IH [OF 2(2)])
      next
        case False
        obtain n where n: "fuel = Suc (Suc n)"
          using Suc.prems(2) by (intro that [of "fuel - 2"]) linarith
        have "s2 = s1"
          using fl False by simp
        then show ?thesis
          using load_loop_bad [OF 2(2) False, of n k v] 2(2) n by (cases b') auto
      qed
      then show ?thesis
        using 2(1,2) next_loop True by (cases flag) auto
    qed
  qed
qed

text \<open>
  On the stream of records with keys that are new to the table, the loop adds them all.
\<close>

definition fresh_records :: "RecordSerializer \<Rightarrow> allocator \<Rightarrow> 'e World \<Rightarrow> (Key \<times> Value) list \<Rightarrow> bool" where
  "fresh_records rs alloc W kvs \<longleftrightarrow> distinct (map fst kvs) \<and>
     (\<forall>k v. (k, v) \<in> set kvs \<longrightarrow> addable rs alloc k v \<and> table_map rs W k = None)"

lemma fresh_records_next:
  assumes "fresh_records rs alloc W ((k, v) # kvs)" "table_map rs W' = (table_map rs W)(k \<mapsto> v)"
  shows "fresh_records rs alloc W' kvs"
proof -
  have "a \<noteq> k" if "(a, b) \<in> set kvs" for a b
    using that assms(1) by (force simp: fresh_records_def)
  then show ?thesis
    using assms by (simp add: fresh_records_def)
qed

lemma fresh_records_sizes:
  "fresh_records rs alloc W ((k, v) # kvs) \<Longrightarrow> valid_key k \<and> valid_value v"
  by (simp add: fresh_records_def addable_def)

definition loaded :: "RecordSerializer \<Rightarrow> unit World \<Rightarrow> (Key \<times> Value) list \<Rightarrow> unit World \<Rightarrow> bool" where
  "loaded rs W kvs W' \<longleftrightarrow> table_map rs W' = table_map rs W ++ map_of kvs \<and>
     m_perfData (table W') RecordsCountLoadedFromSerializer =
       m_perfData (table W) RecordsCountLoadedFromSerializer + of_nat (length kvs) \<and>
     (\<forall>c\<in>{RecordsCountSavedFromSerializer, BucketsCount}. m_perfData (table W') c = m_perfData (table W) c) \<and>
     m_setting (table W') = m_setting (table W) \<and> (\<forall>base. perf_ok base rs W \<longrightarrow> perf_ok base rs W')"

text \<open>Between two records: the flag of the next one, read already, is not in the stream any more.\<close>

definition stream_after_flag :: "(Key \<times> Value) list \<Rightarrow> u8 list" where
  "stream_after_flag kvs = tl (records_stream kvs @ [0])"

lemma records_stream_flag: "records_stream kvs @ [0] = (if kvs = [] then 0 else 1) # stream_after_flag kvs"
  by (cases kvs) (auto simp: stream_after_flag_def)

lemma stream_after_flag_Cons: "stream_after_flag ((k, v) # kvs) = record_stream k v @ records_stream kvs @ [0]"
  by (simp add: stream_after_flag_def)

lemma load_loop_records:
  "loader_ok rs alloc W \<Longrightarrow> fresh_records rs alloc W kvs \<Longrightarrow> length kvs < fuel \<Longrightarrow>
    \<exists>W'. load_loop fuel rs alloc (kvs \<noteq> []) kb vb \<lparr>s_data = stream_after_flag kvs @ rest, s_good = True\<rparr> W = Some (Inr (), W') \<and>
      loader_ok rs alloc W' \<and> loaded rs W kvs W'"
proof (induction kvs arbitrary: fuel kb vb W)
  case Nil
  then show ?case
    by (cases fuel) (auto simp: loaded_def)
next
  case (Cons kv kvs)
  obtain k v where kv: "kv = (k, v)"
    by (cases kv)
  obtain n where n: "fuel = Suc n"
    using Cons.prems(3) by (cases fuel) auto
  have add: "addable rs alloc k v" "table_map rs W k = None"
    using Cons.prems(2) by (auto simp: fresh_records_def kv)
  then have sizes: "valid_key k" "valid_value v"
    by (simp_all add: addable_def)
  let ?s1 = "\<lparr>s_data = (if kvs = [] then 0 else 1) # stream_after_flag kvs @ rest, s_good = True\<rparr>"
  let ?s2 = "\<lparr>s_data = stream_after_flag kvs @ rest, s_good = True\<rparr>"
  have rec: "read_record kb vb \<lparr>s_data = stream_after_flag ((k, v) # kvs) @ rest, s_good = True\<rparr> = (k, v, ?s1)"
    using read_record_written [OF sizes, of kb vb "(records_stream kvs @ [0]) @ rest"]
    unfolding stream_after_flag_Cons records_stream_flag by simp
  have fl: "read_flag True ?s1 = (Inr (kvs \<noteq> []), ?s2)"
    by simp
  show ?case
  proof (cases rule: load_loop_step [OF Cons.prems(1) rec fl, of n])
    case 1
    then show ?thesis
      using add by simp
  next
    case (2 W')
    have fresh: "fresh_records rs alloc (count_loaded W') kvs"
      by (rule fresh_records_next [of rs alloc W k v]) (use Cons.prems(2) 2(3) in \<open>simp_all add: kv\<close>)
    obtain W'' where rest: "load_loop n rs alloc (kvs \<noteq> []) k v ?s2 (count_loaded W') = Some (Inr (), W'')"
        "loader_ok rs alloc W''" "loaded rs (count_loaded W') kvs W''"
      using Cons.IH [OF 2(2) fresh, of n k v] Cons.prems(3) n by auto
    have tab: "table_ok rs W"
      using Cons.prems(1) unfolding loader_ok_def by blast
    have perf: "perf_ok base rs W''" if "perf_ok base rs W" for base
      using rest(3) Add_perf [OF tab add(1) that, of no_register] add(2) 2(5) by (simp add: loaded_def)
    have "m_setting (table W') = m_setting (table W) \<and>
        (\<forall>c\<in>{RecordsCountSavedFromSerializer, BucketsCount}. m_perfData (table W') c = m_perfData (table W) c)"
      by (rule Add_cases [OF tab add(1), of no_register]) (simp add: 2(5) put_record_def effect_def Add_counts_loaded)
    moreover have "k \<notin> dom (map_of kvs)"
      using Cons.prems(2) by (auto simp: fresh_records_def kv dom_map_of_conv_image_fst)
    then have "(table_map rs W)(k \<mapsto> v) ++ map_of kvs = table_map rs W ++ map_of (kv # kvs)"
      by (simp add: kv map_add_upd_left)
    ultimately have "loaded rs W (kv # kvs) W''"
      using rest(3) 2(3,6) perf by (simp add: loaded_def pc_Increment_def)
    then show ?thesis
      using rest(1,2) 2(1) n by (simp add: kv)
  qed
qed

section \<open>A stream that ends among the records\<close>

definition more_data :: "u8 list \<Rightarrow> IStream \<Rightarrow> IStream" where
  "more_data e s = s\<lparr>s_data := s_data s @ e\<rparr>"

lemma read_more_data:
  "DeserializerHelper_Deserialize old s = (bs, s') \<Longrightarrow> s_good s' \<Longrightarrow>
    DeserializerHelper_Deserialize old (more_data e s) = (bs, more_data e s')"
  by (auto simp: DeserializerHelper_Deserialize_def more_data_def split: if_splits)

lemma read_record_more_data:
  assumes "read_record kb vb s = (k, v, s')" "s_good s'"
  shows "read_record kb vb (more_data e s) = (k, v, more_data e s')"
proof -
  obtain ks s1 where 1: "DeserializerHelper_Deserialize (le_bytes 2 (0 :: u16)) s = (ks, s1)"
    by (meson surj_pair)
  obtain k' s2 where 2: "DeserializerHelper_Deserialize (vector_resize (unat (le_word ks :: u16)) kb) s1 = (k', s2)"
    by (meson surj_pair)
  obtain vs s3 where 3: "DeserializerHelper_Deserialize (le_bytes 4 (0 :: u32)) s2 = (vs, s3)"
    by (meson surj_pair)
  obtain v' s4 where 4: "DeserializerHelper_Deserialize (vector_resize (unat (le_word vs :: u32)) vb) s3 = (v', s4)"
    by (meson surj_pair)
  have eq: "k' = k" "v' = v" "s4 = s'"
    using assms(1) 1 2 3 4 by (simp_all add: read_record_def)
  have good: "s_good s3" "s_good s2" "s_good s1"
    using assms(2) read_props(3) [OF 4] read_props(3) [OF 3] read_props(3) [OF 2] by (simp_all add: eq)
  show ?thesis
    using read_more_data [OF 1 good(3), of e] read_more_data [OF 2 good(2), of e] read_more_data [OF 3 good(1), of e]
      read_more_data [OF 4, of e] assms(2) by (simp add: read_record_def eq)
qed

lemma read_record_cut:
  assumes "valid_key k" "valid_value v" "m < length (record_stream k v)"
    and "read_record kb vb \<lparr>s_data = take m (record_stream k v), s_good = True\<rparr> = (k', v', s')"
  shows "\<not> s_good s'"
proof
  assume "s_good s'"
  from read_record_more_data [OF assms(4) this, of "drop m (record_stream k v)"]
  have "read_record kb vb \<lparr>s_data = record_stream k v, s_good = True\<rparr> = (k', v', more_data (drop m (record_stream k v)) s')"
    by (simp add: more_data_def)
  then have "drop m (record_stream k v) = []"
    using read_record_written [OF assms(1,2), of kb vb "[]"] by (cases s') (simp add: more_data_def)
  then show False
    using assms(3) by simp
qed

lemma load_loop_cut:
  "loader_ok rs alloc W \<Longrightarrow> fresh_records rs alloc W kvs \<Longrightarrow> kvs \<noteq> [] \<Longrightarrow> m < length (stream_after_flag kvs) \<Longrightarrow>
    length kvs + 2 \<le> fuel \<Longrightarrow>
    \<exists>msg W'. load_loop fuel rs alloc True kb vb \<lparr>s_data = take m (stream_after_flag kvs), s_good = True\<rparr> W =
      Some (Inl (RuntimeException msg), W') \<and> loader_ok rs alloc W'"
proof (induction kvs arbitrary: fuel kb vb W m)
  case Nil
  then show ?case by simp
next
  case (Cons kv kvs)
  obtain k v where kv: "kv = (k, v)"
    by (cases kv)
  obtain n where n: "fuel = Suc (Suc (Suc n))" "length kvs + 2 \<le> Suc (Suc n)"
    using Cons.prems(5) by (intro that [of "fuel - 3"]) auto
  have sizes: "valid_key k" "valid_value v"
    using fresh_records_sizes [of rs alloc W k v kvs] Cons.prems(2) by (simp_all add: kv)
  let ?r = "record_stream k v" and ?flag = "if kvs = [] then 0 else 1 :: u8"
  have data: "stream_after_flag (kv # kvs) = ?r @ ?flag # stream_after_flag kvs"
    by (simp add: kv stream_after_flag_Cons records_stream_flag)
  let ?s = "\<lparr>s_data = take m (stream_after_flag (kv # kvs)), s_good = True\<rparr>"
  obtain k' v' s1 where rec: "read_record kb vb ?s = (k', v', s1)"
    by (metis surj_pair)
  obtain fl s2 where fl: "read_flag True s1 = (fl, s2)"
    by (meson surj_pair)
  have done_or: "?case" if "\<And>W'. table_map rs W' = (table_map rs W)(k' \<mapsto> v') \<Longrightarrow> loader_ok rs alloc (count_loaded W') \<Longrightarrow>
      \<exists>msg W''. (case fl of Inl e \<Rightarrow> Some (Inl e, W') | Inr b \<Rightarrow> load_loop (Suc (Suc n)) rs alloc b k' v' s2 (count_loaded W')) =
        Some (Inl (RuntimeException msg), W'') \<and> loader_ok rs alloc W''"
    by (cases rule: load_loop_step [OF Cons.prems(1) rec fl, of "Suc (Suc n)"])
      (use that n(1) in \<open>auto simp del: load_loop.simps\<close>)
  consider (whole) m' where "m = Suc (length ?r + m')" | (flag) "m = length ?r" | (part) "m < length ?r"
    by (metis add_Suc_right linorder_neqE_nat less_imp_Suc_add)
  then show ?case
  proof cases
    case whole
    then have "?s = \<lparr>s_data = ?r @ ?flag # take m' (stream_after_flag kvs), s_good = True\<rparr>"
      by (simp add: data)
    then have eq: "k' = k" "v' = v" "s1 = \<lparr>s_data = ?flag # take m' (stream_after_flag kvs), s_good = True\<rparr>"
      using rec read_record_written [OF sizes, of kb vb] by auto
    have m': "m' < length (stream_after_flag kvs)"
      using Cons.prems(4) whole by (simp add: data)
    then have "kvs \<noteq> []"
      by (auto simp: stream_after_flag_def)
    then have "fl = Inr True" "s2 = \<lparr>s_data = take m' (stream_after_flag kvs), s_good = True\<rparr>"
      using fl by (simp_all add: eq)
    moreover have "\<exists>msg W''. load_loop (Suc (Suc n)) rs alloc True k v
        \<lparr>s_data = take m' (stream_after_flag kvs), s_good = True\<rparr> (count_loaded W') =
        Some (Inl (RuntimeException msg), W'') \<and> loader_ok rs alloc W''"
      if "table_map rs W' = (table_map rs W)(k \<mapsto> v)" "loader_ok rs alloc (count_loaded W')" for W'
    proof -
      have "fresh_records rs alloc (count_loaded W') kvs"
        by (rule fresh_records_next [of rs alloc W k v]) (use Cons.prems(2) that(1) in \<open>simp_all add: kv\<close>)
      from Cons.IH [OF that(2) this \<open>kvs \<noteq> []\<close> m' n(2)] show ?thesis .
    qed
    ultimately show ?thesis
      by (intro done_or) (simp add: eq del: load_loop.simps)
  next
    case flag
    then have "?s = \<lparr>s_data = ?r @ [], s_good = True\<rparr>"
      by (simp add: data)
    then have "s1 = \<lparr>s_data = [], s_good = True\<rparr>"
      using rec read_record_written [OF sizes, of kb vb "[]"] by simp
    then have "fl = Inr True" "\<not> s_good s2"
      using fl by auto
    then show ?thesis
      using load_loop_bad by (intro done_or) (simp del: load_loop.simps)
  next
    case part
    then have "?s = \<lparr>s_data = take m ?r, s_good = True\<rparr>"
      by (simp add: data)
    then have "\<not> s_good s1"
      using read_record_cut [OF sizes part] rec by simp
    then have "fl = Inr True" "\<not> s_good s2"
      using fl by auto
    then show ?thesis
      using load_loop_bad by (intro done_or) (simp del: load_loop.simps)
  qed
qed

section \<open>Whole streams\<close>

lemma Serializer_Serialize_eq:
  assumes ok: "table_ok (default_serializer (table W)) W"
  defines "kvs \<equiv> table_kvs (default_serializer (table W)) (heap W) (table W)"
  shows "Serializer_Serialize padding junk W stream = (Inr (),
    stream @ [1] @ setting_bytes padding (m_setting (table W)) @ records_stream kvs @ [0],
    W\<lparr>table := (table W)\<lparr>m_perfData := (m_perfData (table W))(RecordsCountSavedFromSerializer := of_nat (length kvs))\<rparr>\<rparr>)"
  using save_loop_iterate [OF iterate_table [OF ok at_start(1)]]
  by (simp add: Serializer_Serialize_def SerializerHelper_Serialize_def kvs_def [symmetric] funpow_Increment c_version_def pc_Set_def Let_def)

definition loader_start :: "nat \<Rightarrow> nat \<Rightarrow> Setting \<Rightarrow> memory \<Rightarrow> unit World" where
  "loader_start sm st s h = \<lparr>heap = h, table = SharedHashTable_new sm st s, manager = ()\<rparr>"

lemma SharedHashTable_new_setting [simp]: "m_setting (SharedHashTable_new sm st s) = s"
  by (simp add: SharedHashTable_new_def Let_def)

lemma loader_start_simps [simp]:
  "heap (loader_start sm st s h) = h"
  "table (loader_start sm st s h) = SharedHashTable_new sm st s"
  by (simp_all add: loader_start_def)

text \<open>What the deserializer does after the settings.\<close>

definition finish_load :: "(unit res \<times> unit World) option \<Rightarrow> (SharedHashTable res \<times> memory) option" where
  "finish_load r = (case r of
     None \<Rightarrow> None
   | Some (Inr _, W) \<Rightarrow> Some (Inr (table W), heap W)
   | Some (Inl e, W) \<Rightarrow> (case SharedHashTable_destroy (table W) (heap W) of
         Inl e' \<Rightarrow> Some (Inl e', heap W)
       | Inr h \<Rightarrow> Some (Inl e, h)))"

definition load_rest :: "nat \<Rightarrow> allocator \<Rightarrow> unit World \<Rightarrow> IStream \<Rightarrow> (SharedHashTable res \<times> memory) option" where
  "load_rest fuel alloc W s = (let (flag, s) = read_flag False s in
     finish_load (case flag of Inl e \<Rightarrow> Some (Inl e, W)
       | Inr b \<Rightarrow> load_loop fuel (default_serializer (table W)) alloc b [] [] s W))"

lemma load_rest_flag:
  "load_rest fuel alloc W \<lparr>s_data = (if kvs = [] then 0 else 1) # d, s_good = True\<rparr> =
    finish_load (load_loop fuel (default_serializer (table W)) alloc (kvs \<noteq> []) [] [] \<lparr>s_data = d, s_good = True\<rparr> W)"
  by (cases "kvs = []") (simp_all add: load_rest_def)

lemma Current_Deserialize_eq:
  "Current_Deserialize fuel sm st alloc h s =
    (let (bs, s) = DeserializerHelper_Deserialize (setting_bytes [0, 0] default_Setting) s
     in load_rest fuel alloc (loader_start sm st (bytes_setting bs) h) s)"
  unfolding Current_Deserialize_def load_rest_def finish_load_def loader_start_def Let_def split_beta World.select_convs by (rule refl)

lemma load_rest_written:
  assumes "length padding = 2"
  shows "Deserializer_Deserialize fuel sm st alloc h \<lparr>s_data = [1] @ setting_bytes padding st0 @ d, s_good = True\<rparr> =
    load_rest fuel alloc (loader_start sm st st0 h) \<lparr>s_data = d, s_good = True\<rparr>"
  using assms by (simp add: Deserializer_Deserialize_def Current_Deserialize_eq c_version_def bytes_setting_bytes
      DeserializerHelper_Deserialize_def [of "[_]"])

lemma loader_start_ok:
  assumes "good_alloc alloc" "finite (dom h)" "m_numBuckets s \<noteq> 0"
  shows "loader_ok (default_serializer (SharedHashTable_new sm st s)) alloc (loader_start sm st s h)"
    and "table_map rs (loader_start sm st s h) = Map.empty"
  using assms table_ok_new [of s h _ sm st "()"]
  by (simp_all add: loader_ok_def loader_start_def word_neq_0_conv)

lemma loader_ok_destroy:
  assumes "loader_ok rs alloc W"
  shows "\<exists>h. SharedHashTable_destroy (table W) (heap W) = Inr h"
  using assms SharedHashTable_destroy_ok by (auto simp: loader_ok_def)

lemma length_records_stream: "length kvs \<le> length (records_stream kvs)"
  by (induction kvs rule: records_stream.induct) auto

lemma table_kvs_fresh:
  assumes "table_ok rs W" "m_metadataSize rs = 0" "good_alloc alloc" "table_map rs W0 = Map.empty"
  shows "fresh_records rs alloc W0 (table_kvs rs (heap W) (table W))"
  using distinct_table_kvs [OF assms(1)] table_kvs_addable [OF assms(2,3)] assms(4)
  by (simp add: fresh_records_def)

lemma length_table_kvs: "table_ok rs W \<Longrightarrow> length (table_kvs rs (heap W) (table W)) = card (dom (table_map rs W))"
  using distinct_card [OF distinct_table_kvs [of rs W]] by (simp add: table_map_def dom_map_of_conv_image_fst)

lemma take_past: "n = length xs + Suc m \<Longrightarrow> take n (xs @ y # ys) = xs @ y # take m ys"
  by simp

lemma finish_load_ok:
  assumes "loader_ok rs alloc W"
  shows "\<exists>r' h'. finish_load (Some (r, W)) = Some (r', h') \<and>
    (\<forall>T. r' = Inr T \<longrightarrow> m_numBuckets (m_setting T) \<noteq> 0 \<and> table_ok (default_serializer T) \<lparr>heap = h', table = T, manager = ()\<rparr>)"
proof (cases r)
  case (Inl e)
  then show ?thesis
    using loader_ok_destroy [OF assms] by (auto simp: finish_load_def)
next
  case (Inr x)
  have eq: "\<lparr>heap = heap W, table = table W, manager = ()\<rparr> = W"
    by simp
  have "table_ok (default_serializer (table W)) \<lparr>heap = heap W, table = table W, manager = ()\<rparr>"
    unfolding eq using assms unfolding loader_ok_def by blast
  then show ?thesis
    using Inr assms by (auto simp: finish_load_def loader_ok_def)
qed

text \<open>A table without buckets has no place for a record.\<close>

lemma Add_no_buckets:
  assumes "m_buckets (table W) = []"
  obtains e W' where "Add rs alloc reg W k v = (Inl e, W')" "m_buckets (table W') = []"
proof -
  have "\<exists>e W'. Add_record rs reg a W = (Inl e, W') \<and> m_buckets (table W') = []" if "m_buckets (table W) = []"
    for a and W :: "'a World"
    using that by (simp add: Add_record_def bucket_at_def split: sum.splits prod.splits)
  note rejected = this
  obtain r h where c: "CreateRecordBuffer rs alloc k v (heap W) = (r, h)"
    by (meson surj_pair)
  show ?thesis
  proof (cases r)
    case (Inl e)
    then show ?thesis
      using assms c by (intro that [of e "W\<lparr>heap := h\<rparr>"]) (simp_all add: Add_def)
  next
    case (Inr a)
    obtain e W' where "Add_record rs reg a (W\<lparr>heap := h\<rparr>) = (Inl e, W')" "m_buckets (table W') = []"
      using rejected [of "W\<lparr>heap := h\<rparr>" a] assms by auto
    then show ?thesis
      using Inr c by (intro that [of e W']) (simp_all add: Add_def)
  qed
qed

lemma load_loop_no_buckets:
  assumes "m_buckets (table W) = []"
  shows "\<exists>r W'. load_loop (Suc n) rs alloc b kb vb s W = Some (r, W') \<and> m_buckets (table W') = [] \<and> (r = Inr () \<longrightarrow> W' = W)"
proof (cases b)
  case True
  obtain k v s1 where rec: "read_record kb vb s = (k, v, s1)"
    by (metis surj_pair)
  obtain e W' where "Add rs alloc no_register W k v = (Inl e, W')" "m_buckets (table W') = []"
    using Add_no_buckets [OF assms] .
  then show ?thesis
    using True rec by simp
qed (use assms in simp)

lemma Get_no_buckets: "m_buckets (table W) = [] \<Longrightarrow> Get rs W key = Inl BadAccess"
  by (simp add: Get_def bucket_at_def split: prod.split)

text \<open>What a loaded table is: a well-formed table, or, when the stream gives no number of buckets, one without any.\<close>

definition loaded_ok :: "memory \<Rightarrow> SharedHashTable \<Rightarrow> memory \<Rightarrow> bool" where
  "loaded_ok h T h' \<longleftrightarrow>
     (if m_numBuckets (m_setting T) \<noteq> 0 then table_ok (default_serializer T) \<lparr>heap = h', table = T, manager = ()\<rparr>
      else m_buckets T = [] \<and> h' = h)"

lemma load_rest_total:
  assumes alloc: "good_alloc alloc" "finite (dom h)" and fuel: "length (s_data s) + 3 \<le> fuel"
  shows "\<exists>r h'. load_rest fuel alloc (loader_start sm st st0 h) s = Some (r, h') \<and> (\<forall>T. r = Inr T \<longrightarrow> loaded_ok h T h')"
proof -
  let ?W = "loader_start sm st st0 h"
  let ?rs = "default_serializer (SharedHashTable_new sm st st0)"
  obtain flag s' where fl: "read_flag False s = (flag, s')"
    by (meson surj_pair)
  show ?thesis
  proof (cases "m_numBuckets st0 = 0")
    case False
    note start = loader_start_ok(1) [OF alloc False, of sm st]
    have fuel': "length (s_data s') + 3 \<le> fuel"
      using read_flag_props(1) [OF fl] fuel by linarith
    obtain r W' where run: "(case flag of Inl e \<Rightarrow> Some (Inl e, ?W) | Inr b \<Rightarrow> load_loop fuel ?rs alloc b [] [] s' ?W) = Some (r, W')"
      and W': "loader_ok ?rs alloc W'"
      using start load_loop_total [OF start fuel'] by (cases flag) (simp, metis sum.case(2))
    have "load_rest fuel alloc ?W s = finish_load (Some (r, W'))"
      by (simp only: load_rest_def fl prod.case Let_def loader_start_simps run)
    then show ?thesis
      using finish_load_ok [OF W', of r] by (auto simp: loaded_ok_def)
  next
    case True
    then have none: "m_buckets (table ?W) = []"
      by (simp add: SharedHashTable_new_def Let_def)
    obtain n where n: "fuel = Suc n"
      using fuel by (cases fuel) auto
    obtain r W' where run: "(case flag of Inl e \<Rightarrow> Some (Inl e, ?W) | Inr b \<Rightarrow> load_loop fuel ?rs alloc b [] [] s' ?W) = Some (r, W')"
      and W': "m_buckets (table W') = []" "r = Inr () \<longrightarrow> W' = ?W"
    proof (cases flag)
      case (Inl e)
      then show ?thesis
        using none by (intro that [of "Inl e" ?W]) simp_all
    next
      case (Inr b)
      then show ?thesis
        using that load_loop_no_buckets [OF none, of n ?rs alloc b "[]" "[]" s'] unfolding n
        by (simp only: sum.case) blast
    qed
    have "load_rest fuel alloc ?W s = finish_load (Some (r, W'))"
      by (simp only: load_rest_def fl prod.case Let_def loader_start_simps run)
    moreover have "\<exists>r' h'. finish_load (Some (r, W')) = Some (r', h') \<and> (\<forall>T. r' = Inr T \<longrightarrow> loaded_ok h T h')"
      using W' True none by (cases r) (auto simp: finish_load_def SharedHashTable_destroy_def loaded_ok_def)
    ultimately show ?thesis
      by auto
  qed
qed

text \<open>A stream that a table was saved to loads the records of the table.\<close>

lemma Deserialize_written:
  fixes W :: "'m World"
  defines "rs \<equiv> default_serializer (table W)" and "s \<equiv> m_setting (table W)"
  defines "kvs \<equiv> table_kvs rs (heap W) (table W)"
  assumes ok: "table_ok rs W" and alloc: "good_alloc alloc" "finite (dom h)"
    and nonzero: "m_numBuckets s \<noteq> 0" and pad: "length padding = 2"
    and bytes: "bytes = [1] @ setting_bytes padding s @ records_stream kvs @ [0]" and fuel: "length bytes \<le> fuel"
  obtains W' where "Deserializer_Deserialize fuel sm st alloc h \<lparr>s_data = bytes @ rest, s_good = True\<rparr> = Some (Inr (table W'), heap W')"
    "loader_ok rs alloc W'" "loaded rs (loader_start sm st s h) kvs W'" "table_map rs (loader_start sm st s h) = Map.empty"
proof -
  let ?W0 = "loader_start sm st s h"
  have rs: "default_serializer (SharedHashTable_new sm st s) = rs"
    by (simp add: default_serializer_def rs_def s_def)
  have start: "loader_ok rs alloc ?W0" "table_map rs ?W0 = Map.empty"
    using loader_start_ok [OF alloc nonzero, where sm = sm and st = st] by (simp_all add: rs)
  have "length kvs < fuel"
    using fuel length_records_stream [of kvs] by (simp add: bytes)
  moreover have "fresh_records rs alloc ?W0 kvs"
    unfolding kvs_def by (rule table_kvs_fresh [OF ok _ alloc(1) start(2)]) (simp add: rs_def default_serializer_def)
  ultimately obtain W' where load: "load_loop fuel rs alloc (kvs \<noteq> []) [] []
        \<lparr>s_data = stream_after_flag kvs @ rest, s_good = True\<rparr> ?W0 = Some (Inr (), W')"
      "loader_ok rs alloc W'" "loaded rs ?W0 kvs W'"
    using load_loop_records [OF start(1)] by blast
  have "bytes @ rest = [1] @ setting_bytes padding s @ (if kvs = [] then 0 else 1) # stream_after_flag kvs @ rest"
    using records_stream_flag [of kvs] by (simp add: bytes)
  then have "Deserializer_Deserialize fuel sm st alloc h \<lparr>s_data = bytes @ rest, s_good = True\<rparr> =
      Some (Inr (table W'), heap W')"
    by (simp only: load_rest_written [OF pad] load_rest_flag loader_start_simps rs load(1)) (simp add: finish_load_def)
  then show ?thesis
    by (rule that [OF _ load(2,3) start(2)])
qed

lemma saved_and_loaded:
  fixes W :: "'m World"
  defines "rs \<equiv> default_serializer (table W)" and "s \<equiv> m_setting (table W)"
  assumes ok: "table_ok rs W" and alloc: "good_alloc alloc" "finite (dom h)" and nonzero: "m_numBuckets s \<noteq> 0" and pad: "length padding = 2"
    and save: "Serializer_Serialize padding junk W [] = (r, bytes, W1)" and fuel: "length bytes \<le> fuel"
  obtains W' :: "unit World" where "r = Inr ()" "hd bytes = c_version"
    "W1 = W\<lparr>table := (table W)\<lparr>m_perfData := (m_perfData (table W))(RecordsCountSavedFromSerializer := of_nat (card (dom (table_map rs W))))\<rparr>\<rparr>"
    "Deserializer_Deserialize fuel sm st alloc h \<lparr>s_data = bytes @ rest, s_good = True\<rparr> = Some (Inr (table W'), heap W')"
    "default_serializer (table W') = rs" "m_setting (table W') = s" "table_ok rs W'" "table_map rs W' = table_map rs W"
    "perf_ok (unat (m_numBuckets s) * sizeof_Entry + unat (num_mutexes s) * sm + st) rs W'"
    "m_perfData (table W') RecordsCountLoadedFromSerializer = of_nat (card (dom (table_map rs W)))"
    "m_perfData (table W') RecordsCountSavedFromSerializer = 0" "m_perfData (table W') BucketsCount = of_nat (unat (m_numBuckets s))"
proof -
  let ?kvs = "table_kvs rs (heap W) (table W)" and ?W0 = "loader_start sm st s h"
  have saved: "bytes = [1] @ setting_bytes padding s @ records_stream ?kvs @ [0]" "r = Inr ()"
    "W1 = W\<lparr>table := (table W)\<lparr>m_perfData := (m_perfData (table W))(RecordsCountSavedFromSerializer := of_nat (length ?kvs))\<rparr>\<rparr>"
    using save Serializer_Serialize_eq [OF ok [unfolded rs_def], of padding junk "[]"] by (simp_all add: rs_def s_def)
  obtain W' where run: "Deserializer_Deserialize fuel sm st alloc h \<lparr>s_data = bytes @ rest, s_good = True\<rparr> = Some (Inr (table W'), heap W')"
      and load: "loader_ok rs alloc W'" "loaded rs ?W0 ?kvs W'" and start: "table_map rs ?W0 = Map.empty"
    using Deserialize_written [OF ok [unfolded rs_def] alloc nonzero [unfolded s_def] pad saved(1) [unfolded rs_def s_def] fuel]
    unfolding rs_def s_def by blast
  have "perf_ok (unat (m_numBuckets s) * sizeof_Entry + unat (num_mutexes s) * sm + st) rs ?W0"
    unfolding loader_start_def by (rule perf_ok_new) (use nonzero alloc(2) in \<open>simp_all add: word_neq_0_conv\<close>)
  moreover have "m_perfData (table ?W0) RecordsCountLoadedFromSerializer = 0" "m_perfData (table ?W0) RecordsCountSavedFromSerializer = 0"
    "m_perfData (table ?W0) BucketsCount = of_nat (unat (m_numBuckets s))"
    by (simp_all add: SharedHashTable_new_def Let_def HashTablePerfData_init_def PerfCounters_init_def pc_Set_def)
  moreover have "table_map rs ?W0 ++ map_of ?kvs = table_map rs W"
    unfolding start by (simp add: table_map_def)
  moreover have "length ?kvs = card (dom (table_map rs W))"
    by (rule length_table_kvs [OF ok])
  moreover have "table_ok rs W'" "default_serializer (table W') = rs"
    using load(1) unfolding loader_ok_def by blast+
  ultimately show ?thesis
    using load(2) saved run by (intro that [of W']) (simp_all add: loaded_def c_version_def)
qed

section \<open>Properties\<close>

text \<open>C10: a well-formed table saved to a stream and loaded back, into any memory, gives a well-formed
  table with the same setting that stands for the same map, with exact counters; what follows the
  table in the stream does not matter. Saving and loading both count the records.\<close>

theorem serializer_round_trip:
  assumes ok: "table_ok (default_serializer (table W)) W" and alloc: "good_alloc alloc" "finite (dom h)"
    and nonzero: "m_numBuckets (m_setting (table W)) \<noteq> 0" and pad: "length padding = 2"
    and save: "Serializer_Serialize padding junk W [] = (r, bytes, W1)" and fuel: "length bytes \<le> fuel"
  shows "r = Inr () \<and> (\<exists>T h'.
    Deserializer_Deserialize fuel sm st alloc h \<lparr>s_data = bytes @ rest, s_good = True\<rparr> = Some (Inr T, h') \<and>
    m_setting T = m_setting (table W) \<and>
    table_ok (default_serializer T) \<lparr>heap = h', table = T, manager = ()\<rparr> \<and>
    table_map (default_serializer T) \<lparr>heap = h', table = T, manager = ()\<rparr> = table_map (default_serializer (table W)) W \<and>
    perf_ok (unat (m_numBuckets (m_setting T)) * sizeof_Entry + unat (num_mutexes (m_setting T)) * sm + st)
      (default_serializer T) \<lparr>heap = h', table = T, manager = ()\<rparr> \<and>
    m_perfData T RecordsCountLoadedFromSerializer = of_nat (card (dom (table_map (default_serializer (table W)) W))) \<and>
    m_perfData (table W1) RecordsCountSavedFromSerializer = m_perfData T RecordsCountLoadedFromSerializer)"
proof -
  obtain W' :: "unit World" where W': "r = Inr ()" "hd bytes = c_version"
      "W1 = W\<lparr>table := (table W)\<lparr>m_perfData := (m_perfData (table W))
        (RecordsCountSavedFromSerializer := of_nat (card (dom (table_map (default_serializer (table W)) W))))\<rparr>\<rparr>"
      "Deserializer_Deserialize fuel sm st alloc h \<lparr>s_data = bytes @ rest, s_good = True\<rparr> = Some (Inr (table W'), heap W')"
      "default_serializer (table W') = default_serializer (table W)" "m_setting (table W') = m_setting (table W)"
      "table_ok (default_serializer (table W)) W'" "table_map (default_serializer (table W)) W' = table_map (default_serializer (table W)) W"
      "perf_ok (unat (m_numBuckets (m_setting (table W))) * sizeof_Entry + unat (num_mutexes (m_setting (table W))) * sm + st)
        (default_serializer (table W)) W'"
      "m_perfData (table W') RecordsCountLoadedFromSerializer = of_nat (card (dom (table_map (default_serializer (table W)) W)))"
    by (rule saved_and_loaded [OF ok alloc nonzero pad save fuel])
  have same: "\<lparr>heap = heap W', table = table W', manager = ()\<rparr> = W'"
    by simp
  show ?thesis
    using W' by (intro conjI exI [of _ "table W'"] exI [of _ "heap W'"]) (simp_all add: same)
qed

text \<open>A table with one record, and what it is saved as.\<close>

definition demo_one :: "addr list World" where
  "demo_one = put_record demo_rs first_fit queue_reg demo_world [1] [2]"

lemma m_setting_put_record:
  "table_ok rs W \<Longrightarrow> addable rs alloc k v \<Longrightarrow> m_setting (table (put_record rs alloc reg W k v)) = m_setting (table W)"
  by (rule Add_cases [of rs W alloc k v reg]) (simp_all add: put_record_def effect_def)

lemma demo_one:
  "default_serializer (table demo_one) = demo_rs" "table_ok demo_rs demo_one"
  "table_map demo_rs demo_one = [[1] \<mapsto> [2]]" "m_numBuckets (m_setting (table demo_one)) = 2"
  using demo_filled [of "[1]" "[2]"] m_setting_put_record [OF table_ok_demo(1) addable_demo, of "[1]" "[2]" queue_reg]
  by (simp_all add: demo_one_def valid_key_def valid_value_def default_serializer_def demo_world_def demo_rs_def)

lemma demo_one_kvs: "table_kvs demo_rs (heap demo_one) (table demo_one) = [([1], [2])]"
proof -
  let ?kvs = "table_kvs demo_rs (heap demo_one) (table demo_one)"
  have "length ?kvs = 1"
    using length_table_kvs [OF demo_one(2)] by (simp add: demo_one(3))
  then obtain p where "?kvs = [p]"
    by (auto simp: length_Suc_conv)
  moreover have "map_of ?kvs = [[1] \<mapsto> [2]]"
    using demo_one(3) by (simp add: table_map_def)
  ultimately show ?thesis
    by (cases p) (metis fun_upd_apply map_of.simps(1,2) option.inject option.simps(3) fst_conv snd_conv)
qed

lemma le_bytes_numeral: "le_bytes (numeral n) w = ucast w # le_bytes (pred_numeral n) (drop_bit 8 w)"
  by (simp add: numeral_eq_Suc)

definition demo_bytes :: "u8 list" where
  "demo_bytes = [1, 2, 0, 0, 0, 1, 0, 0, 0, 0, 0, 7, 7, 0, 0, 0, 0, 1, 1, 0, 1, 1, 0, 0, 0, 2, 0]"

lemma demo_saved:
  "Serializer_Serialize [7, 7] None demo_one [] = (Inr (), demo_bytes,
    demo_one\<lparr>table := (table demo_one)\<lparr>m_perfData := (m_perfData (table demo_one))(RecordsCountSavedFromSerializer := 1)\<rparr>\<rparr>)"
proof -
  have "m_setting (table demo_one) = m_setting (table demo_world)"
    using m_setting_put_record [OF table_ok_demo(1) addable_demo, of "[1]" "[2]" queue_reg]
    by (simp add: demo_one_def valid_key_def valid_value_def)
  then have "setting_bytes [7, 7] (m_setting (table demo_one)) = [2, 0, 0, 0, 1, 0, 0, 0, 0, 0, 7, 7, 0, 0, 0, 0]"
    by (simp add: demo_world_def setting_bytes_def le_bytes_numeral)
  moreover have "records_stream [([1], [2])] = [1, 1, 0, 1, 1, 0, 0, 0, 2]"
    by (simp add: record_stream_def ksize_def vsize_def le_bytes_numeral)
  ultimately show ?thesis
    using Serializer_Serialize_eq [of demo_one "[7, 7]" None "[]"] demo_one(1,2)
    by (simp add: demo_one_kvs demo_bytes_def)
qed

lemma serializer_round_trip_witness:
  "\<exists>T h'. Deserializer_Deserialize 30 80 248 first_fit Map.empty \<lparr>s_data = demo_bytes @ [9], s_good = True\<rparr> = Some (Inr T, h') \<and>
    table_map (default_serializer T) \<lparr>heap = h', table = T, manager = ()\<rparr> = [[1] \<mapsto> [2]]"
  using serializer_round_trip [of demo_one first_fit Map.empty "[7, 7]" None "Inr ()" demo_bytes _ 30 80 248 "[9]"]
    demo_one demo_saved
  by (auto simp: good_alloc_first_fit demo_bytes_def)

text \<open>C11: loading ends on every stream: with three rounds of the loop more than the stream has bytes the deserializer returns an
  error or a table. The table is well-formed when the stream gives it a number of buckets that is not 0. The loader does not check that
  number: with 0, which \<open>HashTableConfig\<close> does not allow, the table has no buckets and nothing was allocated for it, and every look-up
  takes the hash modulo 0, which is undefined (\<open>BadAccess\<close>).\<close>

theorem Deserialize_total:
  assumes alloc: "good_alloc alloc" "finite (dom h)" and fuel: "length (s_data s) + 3 \<le> fuel"
  shows "\<exists>r h'. Deserializer_Deserialize fuel sm st alloc h s = Some (r, h') \<and>
    (case r of Inl e \<Rightarrow> True
     | Inr T \<Rightarrow> if m_numBuckets (m_setting T) \<noteq> 0
         then table_ok (default_serializer T) \<lparr>heap = h', table = T, manager = ()\<rparr>
         else m_buckets T = [] \<and> h' = h \<and> (\<forall>rs key. Get rs \<lparr>heap = h', table = T, manager = ()\<rparr> key = Inl BadAccess))"
proof -
  obtain v s1 where v: "DeserializerHelper_Deserialize [0] s = (v, s1)"
    by (meson surj_pair)
  obtain bs s2 where bs: "DeserializerHelper_Deserialize (setting_bytes [0, 0] default_Setting) s1 = (bs, s2)"
    by (meson surj_pair)
  have "length (s_data s2) + 3 \<le> fuel"
    using read_props(2) [OF v] read_props(2) [OF bs] fuel by linarith
  from load_rest_total [OF alloc this, of sm st "bytes_setting bs"]
  obtain r h' where "Deserializer_Deserialize fuel sm st alloc h s = Some (r, h')" "\<forall>T. r = Inr T \<longrightarrow> loaded_ok h T h'"
    by (cases "le_word v = c_version") (auto simp: Deserializer_Deserialize_def v Current_Deserialize_eq bs)
  then show ?thesis
    by (intro exI [of _ r] exI [of _ h']) (auto simp: loaded_ok_def Get_no_buckets split: sum.split)
qed

lemma Deserialize_total_witness:
  "\<exists>r h'. Deserializer_Deserialize 10 80 248 first_fit Map.empty \<lparr>s_data = [1, 2, 3], s_good = True\<rparr> = Some (r, h')"
  using Deserialize_total [of first_fit Map.empty "\<lparr>s_data = [1, 2, 3], s_good = True\<rparr>" 10 80 248]
  by (auto simp: good_alloc_first_fit)

text \<open>C27: a stream that is cut off after the first flag is rejected with an exception, wherever it
  is cut; the table built so far is destroyed.\<close>

theorem truncated_records_rejected:
  assumes ok: "table_ok (default_serializer (table W)) W" and alloc: "good_alloc alloc" "finite (dom h)"
    and nonzero: "m_numBuckets (m_setting (table W)) \<noteq> 0" and pad: "length padding = 2"
    and save: "Serializer_Serialize padding junk W [] = (r, bytes, W1)" and fuel: "length bytes + 2 \<le> fuel"
    and cut: "18 \<le> n" "n < length bytes"
  shows "\<exists>msg h'. Deserializer_Deserialize fuel sm st alloc h \<lparr>s_data = take n bytes, s_good = True\<rparr> =
    Some (Inl (RuntimeException msg), h')"
proof -
  let ?rs = "default_serializer (table W)" and ?s = "m_setting (table W)"
  let ?kvs = "table_kvs ?rs (heap W) (table W)"
  let ?W0 = "loader_start sm st ?s h"
  have rs: "default_serializer (SharedHashTable_new sm st ?s) = ?rs"
    by (simp add: default_serializer_def)
  have start: "loader_ok ?rs alloc ?W0" "table_map ?rs ?W0 = Map.empty"
    using loader_start_ok [OF alloc nonzero, where sm = sm and st = st] by (simp_all add: rs)
  have "bytes = [1] @ setting_bytes padding ?s @ records_stream ?kvs @ [0]"
    using save Serializer_Serialize_eq [OF ok, of padding junk "[]"] by simp
  then have bytes: "bytes = ([1] @ setting_bytes padding ?s) @ (if ?kvs = [] then 0 else 1) # stream_after_flag ?kvs"
    using records_stream_flag [of ?kvs] by simp
  define m where "m = n - 18"
  have "n = length ([1] @ setting_bytes padding ?s) + Suc m"
    using cut(1) pad by (simp add: m_def)
  then have m: "m < length (stream_after_flag ?kvs)"
      "take n bytes = [1] @ setting_bytes padding ?s @ (if ?kvs = [] then 0 else 1) # take m (stream_after_flag ?kvs)"
    using cut(2) take_past unfolding bytes by (simp, metis append_assoc)
  then have "?kvs \<noteq> []"
    by (auto simp: stream_after_flag_def)
  have "length ?kvs + 2 \<le> fuel"
    using fuel length_records_stream [of ?kvs] \<open>bytes = [1] @ _\<close> by simp
  moreover have "fresh_records ?rs alloc ?W0 ?kvs"
    by (rule table_kvs_fresh [OF ok _ alloc(1) start(2)]) (simp add: default_serializer_def)
  ultimately obtain msg W' where "load_loop fuel ?rs alloc True [] []
        \<lparr>s_data = take m (stream_after_flag ?kvs), s_good = True\<rparr> ?W0 = Some (Inl (RuntimeException msg), W')"
      "loader_ok ?rs alloc W'"
    using load_loop_cut [OF start(1) _ \<open>?kvs \<noteq> []\<close> m(1)] by blast
  moreover have "(?kvs \<noteq> []) = True"
    using \<open>?kvs \<noteq> []\<close> by simp
  ultimately have "Deserializer_Deserialize fuel sm st alloc h \<lparr>s_data = take n bytes, s_good = True\<rparr> =
      finish_load (Some (Inl (RuntimeException msg), W'))" "loader_ok ?rs alloc W'"
    by (simp_all only: m(2) load_rest_written [OF pad] load_rest_flag loader_start_simps rs)
  then show ?thesis
    using loader_ok_destroy [of ?rs alloc W'] by (auto simp: finish_load_def)
qed

lemma truncated_records_rejected_witness:
  "\<exists>msg h'. Deserializer_Deserialize 30 80 248 first_fit Map.empty \<lparr>s_data = take 20 demo_bytes, s_good = True\<rparr> =
    Some (Inl (RuntimeException msg), h')"
  using demo_one demo_saved
  by (intro truncated_records_rejected [of demo_one _ _ "[7, 7]" None "Inr ()"])
    (auto simp: good_alloc_first_fit demo_bytes_def)

text \<open>A stream that is cut off before the first flag is accepted: the deserializer returns an
  empty table, whatever the saved table held.\<close>

theorem truncated_header_accepted:
  assumes pad: "length padding = 2"
    and bytes: "bytes = [1] @ setting_bytes padding st0 @ d" and cut: "1 \<le> n" "n \<le> 17" and fuel: "0 < fuel"
  shows "\<exists>T. Deserializer_Deserialize fuel sm st alloc h \<lparr>s_data = take n bytes, s_good = True\<rparr> = Some (Inr T, h) \<and>
    table_addrs T = [] \<and> (n = 17 \<longrightarrow> m_setting T = st0)"
proof -
  have "take n bytes = [1] @ take (n - 1) (setting_bytes padding st0 @ d)"
    using cut(1) by (cases n) (simp_all add: bytes)
  then have version: "Deserializer_Deserialize fuel sm st alloc h \<lparr>s_data = take n bytes, s_good = True\<rparr> =
      Current_Deserialize fuel sm st alloc h \<lparr>s_data = take (n - 1) (setting_bytes padding st0 @ d), s_good = True\<rparr>"
    by (simp add: Deserializer_Deserialize_def c_version_def DeserializerHelper_Deserialize_def [of "[_]"])
  obtain n' where fuel': "fuel = Suc n'"
    using fuel by (cases fuel) auto
  obtain bs s where bs: "DeserializerHelper_Deserialize (setting_bytes [0, 0] default_Setting)
        \<lparr>s_data = take (n - 1) (setting_bytes padding st0 @ d), s_good = True\<rparr> = (bs, s)"
      "read_flag False s = (Inr False, \<lparr>s_data = [], s_good = False\<rparr>)" "n = 17 \<Longrightarrow> bs = setting_bytes padding st0"
  proof (cases "n = 17")
    case True
    then show ?thesis
      using pad by (intro that [of "setting_bytes padding st0" "\<lparr>s_data = [], s_good = True\<rparr>"])
        (simp_all add: DeserializerHelper_Deserialize_def)
  next
    case False
    then have "n - 1 < 16"
      using cut by simp
    then show ?thesis
      using pad False by (intro that) (auto simp: DeserializerHelper_Deserialize_def [of "setting_bytes _ _"])
  qed
  have "table_addrs (SharedHashTable_new sm st s0) = []" for s0
    by (simp add: table_addrs_def SharedHashTable_new_def Let_def)
  moreover have "Deserializer_Deserialize fuel sm st alloc h \<lparr>s_data = take n bytes, s_good = True\<rparr> =
      Some (Inr (SharedHashTable_new sm st (bytes_setting bs)), h)"
    by (simp only: version Current_Deserialize_eq bs(1) Let_def prod.case load_rest_def bs(2) sum.case)
      (simp add: fuel' finish_load_def)
  ultimately show ?thesis
    using bs(3) pad by (simp add: bytes_setting_bytes)
qed

lemma truncated_header_accepted_witness:
  "\<exists>T. Deserializer_Deserialize 1 80 248 first_fit Map.empty \<lparr>s_data = take 9 demo_bytes, s_good = True\<rparr> = Some (Inr T, Map.empty) \<and>
    table_addrs T = []"
  using truncated_header_accepted [of "[7, 7]" demo_bytes "m_setting (table demo_world)" "drop 17 demo_bytes" 9 1]
  by (auto simp: demo_bytes_def demo_world_def setting_bytes_def le_bytes_numeral)

text \<open>A version other than 1 is rejected, without reading further. The message shows the version
  as a character, and ends before it when the version is 0.\<close>

theorem unsupported_version_rejected:
  assumes "v \<noteq> 1"
  shows "Deserializer_Deserialize fuel sm st alloc h \<lparr>s_data = v # rest, s_good = True\<rparr> =
    Some (Inl (RuntimeException (if v = 0 then ''Unsupported version '' @ [CHR 0x27]
      else ''Unsupported version '' @ [CHR 0x27, char_of (unat v), CHR 0x27] @ '' is given.'')), h)"
proof -
  have "char_of (unat v) = CHR 0x00 \<longleftrightarrow> v = 0"
  proof
    assume "char_of (unat v) = CHR 0x00"
    then have "of_char (char_of (unat v) :: char) = (0 :: nat)"
      by (simp only:) simp
    then have "unat v mod 256 = 0"
      by (simp only: of_char_of)
    moreover have "unat v < 2 ^ LENGTH(8)"
      by (rule unsigned_less)
    ultimately show "v = 0"
      by (simp add: unsigned_eq_0_iff)
  qed (simp add: char_of_def)
  then show ?thesis
    using assms
    by (simp add: Deserializer_Deserialize_def DeserializerHelper_Deserialize_def c_version_def c_str_def unsupported_version_def)
qed

lemma unsupported_version_rejected_witness:
  "Deserializer_Deserialize 5 80 248 first_fit Map.empty \<lparr>s_data = [65, 0, 0], s_good = True\<rparr> =
    Some (Inl (RuntimeException (''Unsupported version '' @ [CHR 0x27, CHR ''A'', CHR 0x27] @ '' is given.'')), Map.empty)"
  using unsupported_version_rejected [of 65 5 80 248 first_fit Map.empty "[0, 0]"] by (simp add: char_of_def bit_0)

end
