(* ===== verification/L4_CacheSpec.thy ===== *)
theory L4_CacheSpec
  imports L4_CacheAdd
begin

text \<open>
  The properties of the cache hash table with the epoch manager of \<open>L4_EpochManager\<close> underneath it.
\<close>

section \<open>The invariant, and a new cache\<close>

text \<open>\<open>H\<close> are the references to epochs that are held, \<open>base\<close> is the index size of the empty table.\<close>

definition cache_inv :: "nat \<Rightarrow> RecordSerializer \<Rightarrow> u64 multiset \<Rightarrow> seconds \<Rightarrow> addr EpochManager Cache \<Rightarrow> bool" where
  "cache_inv base rs H cur C = cache_ok (\<lambda>E. manager_ok E H) queued_buffers base rs cur (base_world C)"

lemma cache_inv_new:
  assumes "0 < m_numBuckets s" "manager_ok E H" "queued_buffers E = {#}"
  shows "cache_inv (unat (m_numBuckets s) * sizeof_Entry + unat (num_mutexes s) * sm + st) rs H cur
      (Cache_new \<lparr>heap = Map.empty, table = SharedHashTable_new sm st s, manager = E\<rparr> cap ttl force)"
    and "table_map rs (base_world (Cache_new \<lparr>heap = Map.empty, table = SharedHashTable_new sm st s, manager = E\<rparr> cap ttl force)) = Map.empty"
    and "chained (SharedHashTable_new sm st s) = 0"
proof -
  let ?W = "\<lparr>heap = Map.empty, table = SharedHashTable_new sm st s, manager = E\<rparr>"
  have tab: "table_ok rs ?W" "table_map rs ?W = Map.empty"
    by (rule table_ok_new [OF assms(1)]; simp)+
  have "accounted (\<lambda>E. manager_ok E H) queued_buffers ?W"
    using assms by (simp add: accounted_def)
  moreover have "perf_ok (unat (m_numBuckets s) * sizeof_Entry + unat (num_mutexes s) * sm + st) rs ?W"
    by (rule perf_ok_new [OF assms(1)]) simp
  ultimately show "cache_inv (unat (m_numBuckets s) * sizeof_Entry + unat (num_mutexes s) * sm + st) rs H cur (Cache_new ?W cap ttl force)"
    using tab by (simp add: cache_inv_def cache_ok_def Cache_new_def cache_values_def)
  show "table_map rs (base_world (Cache_new ?W cap ttl force)) = Map.empty"
    using tab by (simp add: Cache_new_def)
  show "chained (SharedHashTable_new sm st s) = 0"
    by (simp add: chained_def SharedHashTable_new_def Let_def sum_list_replicate)
qed

text \<open>The cache of the examples: two buckets, variable sizes, records live for ten seconds.\<close>

definition demo_cache_rs :: RecordSerializer where
  "demo_cache_rs = \<lparr>m_fixedKeySize = 0, m_fixedValueSize = 0, m_metadataSize = 4\<rparr>"

definition demo_setting :: Setting where
  "demo_setting = \<lparr>m_numBuckets = 2, m_numBucketsPerMutex = 1, s_fixedKeySize = 0, s_fixedValueSize = 0\<rparr>"

definition demo_epochs :: "addr EpochManager" where
  "demo_epochs = \<lparr>m_currentEpochCounter = 0, m_epochQueue = \<lparr>m_frontIndex = 0, m_backIndex = 0, m_refCounts = [0, 0]\<rparr>,
     m_epochActionManager = \<lparr>m_epochToActionsList = [[]], m_counter = 0\<rparr>, em_perfData = PerfCounters_init\<rparr>"

definition demo_cache :: "addr EpochManager Cache" where
  "demo_cache = Cache_new \<lparr>heap = Map.empty, table = SharedHashTable_new 80 248 demo_setting, manager = demo_epochs\<rparr> 4096 10 True"

definition demo_base :: nat where
  "demo_base = 2 * sizeof_Entry + 2 * 80 + 248"

lemma demo_cache_inv: "cache_inv demo_base demo_cache_rs {#} cur demo_cache"
    and demo_cache_map: "table_map demo_cache_rs (base_world demo_cache) = Map.empty"
    and demo_cache_bytes: "cache_bytes demo_base demo_cache_rs (base_world demo_cache) = demo_base"
proof -
  have man: "manager_ok demo_epochs {#}" "queued_buffers demo_epochs = {#}"
    by (simp_all add: manager_ok_def demo_epochs_def queue_rep_def slot_count_def all_less_list actions_ok_def
      sorted_epochs_def pending_def queued_buffers_def PerfCounters_init_def exI [of _ 0])
  have s: "0 < m_numBuckets demo_setting" "unat (m_numBuckets demo_setting) = 2" "unat (num_mutexes demo_setting) = 2"
    by (simp_all add: demo_setting_def num_mutexes_def)
  show "cache_inv demo_base demo_cache_rs {#} cur demo_cache"
    using cache_inv_new(1) [OF s(1) man, of 80 248] unfolding demo_cache_def demo_base_def s(2,3) .
  show m: "table_map demo_cache_rs (base_world demo_cache) = Map.empty"
    unfolding demo_cache_def by (rule cache_inv_new(2) [OF s(1) man])
  show "cache_bytes demo_base demo_cache_rs (base_world demo_cache) = demo_base"
    using cache_inv_new(3) [OF s(1) man, of 80 248] m
    by (simp add: cache_bytes_def data_size_def) (simp add: demo_cache_def Cache_new_def)
qed

lemma Get_after_Add_lookup:
  assumes ok: "cache_inv base rs H t1 C" "cache_addable rs alloc key v"
    and times: "0 \<le> sint t3" "sint t1 \<le> sint t2" "sint t2 \<le> sint t3" "sint t3 \<le> sint t4" "sint t3 < 2 ^ 31"
    and bounds: "cache_bytes base rs (base_world C) + (length key + c_metaDataSize + length v) < 2 ^ 64"
      "unat (m_currentEvictBucketIndex C) + length (m_buckets (table (base_world C))) * 2 < 2 ^ 64"
    and run: "Cache_Add rs alloc RegisterAction t1 t2 t3 C key v = (r, C')"
  shows "r = Inr ()" "cache_inv base rs H t4 C'" "table_map rs (base_world C') key = Some (Metadata_new t3 @ v)"
    "expired ttl t4 (Metadata_new t3 @ v) \<longleftrightarrow> sint ttl < sint t4 - sint t3"
proof -
  show "expired ttl t4 (Metadata_new t3 @ v) \<longleftrightarrow> sint ttl < sint t4 - sint t3"
    using GetEpochTime_new_small [OF times(1,5)] by (simp add: expired_def c_metaDataSize_def)
  have "r = Inr () \<and> cache_inv base rs H t4 C' \<and> table_map rs (base_world C') key = Some (Metadata_new t3 @ v)"
  proof (rule em.Cache_Add_result [OF ok(1) [unfolded cache_inv_def] ok(2) times(1-3) bounds])
    fix m W' and f :: "Key \<rightharpoonup> Value"
    assume "Cache_Add rs alloc RegisterAction t1 t2 t3 C key v = (Inr (), C\<lparr>base_world := W',
        m_currentEvictBucketIndex := m_currentEvictBucketIndex C + of_nat m\<rparr>)"
      and W': "cache_ok (\<lambda>E. manager_ok E H) queued_buffers base rs t3 W'"
      and map: "table_map rs W' = (\<lambda>k. visited_times (clock_visit (m_recordTimeToLive C) t2)
        (visits (length (m_buckets (table (base_world C)))) (key_bucket (table (base_world C)) k) m
          (unat (m_currentEvictBucketIndex C))) (time_evicted rs t1 C key k))(key \<mapsto> Metadata_new t3 @ v)"
    with run have "r = Inr ()" "base_world C' = W'"
      by auto
    then show ?thesis
      using cache_ok_later [OF W' times(4)] by (simp only: cache_inv_def map) simp
  qed
  then show "r = Inr ()" "cache_inv base rs H t4 C'" "table_map rs (base_world C') key = Some (Metadata_new t3 @ v)"
    by simp_all
qed

lemma demo_cache_addable: "length v < 2 ^ 16 \<Longrightarrow> cache_addable demo_cache_rs first_fit [1] v"
  by (simp add: cache_addable_def demo_cache_rs_def Validate_def good_alloc_first_fit valid_key_def c_metaDataSize_def)

lemma demo_cache_hand: "m_currentEvictBucketIndex demo_cache = 0" "length (m_buckets (table (base_world demo_cache))) = 2"
    and demo_cache_max: "m_maxCacheSizeInBytes demo_cache = 4096"
    and demo_bucket_bound: "unat (m_currentEvictBucketIndex demo_cache) + length (m_buckets (table (base_world demo_cache))) * 2 < 2 ^ 64"
  by (simp_all add: demo_cache_def Cache_new_def SharedHashTable_new_def Let_def demo_setting_def)

lemma demo_fits: "n < 2 ^ 32 \<Longrightarrow> cache_bytes demo_base demo_cache_rs (base_world demo_cache) + n < 2 ^ 64"
  unfolding demo_cache_bytes by (simp add: demo_base_def sizeof_Entry_def c_numDataPerEntry_def)

lemma demo_added:
  assumes "length v < 2 ^ 16" "5 \<le> sint t4"
  shows "\<exists>C. Cache_Add demo_cache_rs first_fit RegisterAction 5 5 5 demo_cache [1] v = (Inr (), C) \<and>
    cache_inv demo_base demo_cache_rs {#} t4 C \<and> table_map demo_cache_rs (base_world C) [1] = Some (Metadata_new 5 @ v) \<and>
    (expired ttl t4 (Metadata_new 5 @ v) \<longleftrightarrow> sint ttl < sint t4 - 5)"
proof -
  obtain r C where run: "Cache_Add demo_cache_rs first_fit RegisterAction 5 5 5 demo_cache [1] v = (r, C)"
    by (meson surj_pair)
  have "length [1 :: u8] + c_metaDataSize + length v < 2 ^ 32"
    using assms(1) by (simp add: c_metaDataSize_def)
  note fits = demo_fits [OF this]
  have "sint (5 :: seconds) \<le> sint t4"
    using assms(2) by simp
  then show ?thesis
    using run Get_after_Add_lookup(1-3) [where ?t4.0 = t4, OF demo_cache_inv demo_cache_addable [OF assms(1)] _ _ _ _ _ fits demo_bucket_bound run] Get_after_Add_lookup(4) [where ?t4.0 = t4 and ttl = ttl, OF demo_cache_inv demo_cache_addable [OF assms(1)] _ _ _ _ _ fits demo_bucket_bound run]
    by simp
qed

section \<open>Properties\<close>

text \<open>C17: \<open>Get\<close> on a cache returns the value without its metadata exactly when the key has a record that is
  not expired, counts a hit or a miss, marks the record as accessed and leaves every other record as
  it was; the invariant is kept. No record may have an empty value.\<close>

theorem Cache_Get_correct:
  assumes "cache_inv base rs H cur C" "\<forall>v. table_map rs (base_world C) key = Some v \<longrightarrow> c_metaDataSize < length v"
    and "Cache_Get rs ttl cur (base_world C) key = (r, W')"
  shows "r = Inr (cache_lookup ttl cur (table_map rs (base_world C)) key) \<and>
    table_map rs W' = cache_touch ttl cur (table_map rs (base_world C)) key \<and>
    m_perfData (table W') = pc_Increment (m_perfData (table (base_world C)))
      (if r = Inr None then CacheMissCount else CacheHitCount) \<and>
    cache_inv base rs H cur (C\<lparr>base_world := W'\<rparr>)"
proof (rule Cache_Get_result [OF assms(1) [unfolded cache_inv_def] assms(2), of ttl])
  fix W1
  assume "Cache_Get rs ttl cur (base_world C) key = (Inr (cache_lookup ttl cur (table_map rs (base_world C)) key), W1)"
    and *: "cache_ok (\<lambda>E. manager_ok E H) queued_buffers base rs cur W1"
      "table_map rs W1 = cache_touch ttl cur (table_map rs (base_world C)) key"
      "m_perfData (table W1) = pc_Increment (m_perfData (table (base_world C)))
        (if cache_lookup ttl cur (table_map rs (base_world C)) key = None then CacheMissCount else CacheHitCount)"
  with assms(3) have "r = Inr (cache_lookup ttl cur (table_map rs (base_world C)) key)" "W' = W1"
    by simp_all
  with * show ?thesis
    by (simp add: cache_inv_def)
qed

theorem Cache_Get_correct_witness:
  "\<exists>C W'. fst (Cache_Add demo_cache_rs first_fit RegisterAction 5 5 5 demo_cache [1] [7]) = Inr () \<and>
    C = snd (Cache_Add demo_cache_rs first_fit RegisterAction 5 5 5 demo_cache [1] [7]) \<and>
    Cache_Get demo_cache_rs 10 8 (base_world C) [1] = (Inr (Some [7]), W') \<and> cache_inv demo_base demo_cache_rs {#} 8 (C\<lparr>base_world := W'\<rparr>)"
proof -
  obtain C where C: "Cache_Add demo_cache_rs first_fit RegisterAction 5 5 5 demo_cache [1] [7] = (Inr (), C)"
      "cache_inv demo_base demo_cache_rs {#} 8 C" "table_map demo_cache_rs (base_world C) [1] = Some (Metadata_new 5 @ [7])"
      "\<not> expired 10 8 (Metadata_new 5 @ [7])"
    using demo_added [of "[7]" 8 10] by auto
  obtain r W' where get: "Cache_Get demo_cache_rs 10 8 (base_world C) [1] = (r, W')"
    by (meson surj_pair)
  have "\<forall>v. table_map demo_cache_rs (base_world C) [1] = Some v \<longrightarrow> c_metaDataSize < length v"
    by (simp add: C(3) c_metaDataSize_def)
  from Cache_Get_correct [OF C(2) this get]
  have "r = Inr (Some [7])" "cache_inv demo_base demo_cache_rs {#} 8 (C\<lparr>base_world := W'\<rparr>)"
    by (simp_all add: cache_lookup_def C(3,4) c_metaDataSize_def)
  then show ?thesis
    using get C(1) by (intro exI [of _ C] exI [of _ W']) simp
qed

text \<open>The eviction by time removes from the bucket of the key exactly the records that are expired,
  leaves every other record as it was and keeps the invariant: it never fails.\<close>

theorem EvictBasedOnTime_exact:
  assumes "cache_inv base rs H cur C"
  shows "\<exists>W'. EvictBasedOnTime rs RegisterAction ttl cur key (base_world C) = (Inr (), W') \<and>
    cache_inv base rs H cur (C\<lparr>base_world := W'\<rparr>) \<and>
    (\<forall>k. table_map rs W' k = (if key_bucket (table (base_world C)) k = key_bucket (table (base_world C)) key
      then Option.bind (table_map rs (base_world C) k) (\<lambda>v. if expired ttl cur v then None else Some v)
      else table_map rs (base_world C) k))"
  by (rule em.EvictBasedOnTime_result [OF assms [unfolded cache_inv_def], of ttl key], rule exI, intro conjI, assumption,
      simp add: cache_inv_def, simp add: bucket_visited_def expire_visit_def [abs_def])

theorem EvictBasedOnTime_exact_witness:
  "\<exists>C W'. C = snd (Cache_Add demo_cache_rs first_fit RegisterAction 5 5 5 demo_cache [1] [7]) \<and>
    table_map demo_cache_rs (base_world C) [1] = Some (Metadata_new 5 @ [7]) \<and>
    EvictBasedOnTime demo_cache_rs RegisterAction 10 16 [1] (base_world C) = (Inr (), W') \<and> table_map demo_cache_rs W' [1] = None"
proof -
  obtain C where C: "Cache_Add demo_cache_rs first_fit RegisterAction 5 5 5 demo_cache [1] [7] = (Inr (), C)"
      "cache_inv demo_base demo_cache_rs {#} 16 C" "table_map demo_cache_rs (base_world C) [1] = Some (Metadata_new 5 @ [7])"
      "expired 10 16 (Metadata_new 5 @ [7])"
    using demo_added [of "[7]" 16 10] by auto
  obtain W' where W': "EvictBasedOnTime demo_cache_rs RegisterAction 10 16 [1] (base_world C) = (Inr (), W')"
      "table_map demo_cache_rs W' [1] = None"
    using EvictBasedOnTime_exact [OF C(2), of 10 "[1]"]
    by - (elim exE conjE, drule spec [of _ "[1]"], rule that, assumption, simp add: C(3,4))
  show ?thesis
    using W' C(1,3) by (intro exI [of _ C] exI [of _ W']) simp
qed

text \<open>C16: the clock eviction ends with room for the new record or an empty table, after at most two rounds:
  the hand passes \<open>m \<le> 2 N\<close> buckets; each pass removes the records that are expired or were not
  accessed since the last one, and clears the mark of the others.\<close>

theorem Evict_makes_room:
  assumes "cache_inv base rs H cur C" "cache_bytes base rs (base_world C) + unat n < 2 ^ 64"
    and "unat (m_currentEvictBucketIndex C) + length (m_buckets (table (base_world C))) * 2 < 2 ^ 64"
  shows "\<exists>m W'. Evict rs RegisterAction cur n C = (Inr (), C\<lparr>base_world := W',
      m_currentEvictBucketIndex := m_currentEvictBucketIndex C + of_nat m\<rparr>) \<and>
    m \<le> length (m_buckets (table (base_world C))) * 2 \<and> cache_inv base rs H cur (C\<lparr>base_world := W'\<rparr>) \<and>
    (\<forall>k. table_map rs W' k = visited_times (clock_visit (m_recordTimeToLive C) cur)
      (visits (length (m_buckets (table (base_world C)))) (key_bucket (table (base_world C)) k) m
        (unat (m_currentEvictBucketIndex C))) (table_map rs (base_world C) k)) \<and>
    (table_map rs W' = Map.empty \<or> cache_bytes base rs W' + unat n \<le> unat (m_maxCacheSizeInBytes C))"
  by (rule em.Evict_result [OF assms(1) [unfolded cache_inv_def] assms(2,3)]) (auto simp: cache_inv_def)

theorem Evict_makes_room_witness:
  "\<exists>C. Evict demo_cache_rs RegisterAction 5 5000 demo_cache = (Inr (), C) \<and> table_map demo_cache_rs (base_world C) = Map.empty"
proof -
  have "unat (5000 :: u64) < 2 ^ 32"
    by simp
  from Evict_makes_room [OF demo_cache_inv demo_fits [OF this] demo_bucket_bound, of 5] show ?thesis
    by (auto simp: demo_cache_max)
qed

text \<open>C15: \<open>Add\<close> puts the new record, with the time of the clock and not accessed, into the map that the
  evictions leave, and bounds the size: unless nothing else is left, the counted size of the cache
  exceeds its maximum by at most the overhead of one record and one chained entry.\<close>

theorem Cache_Add_bounded:
  assumes "cache_inv base rs H t1 C" "cache_addable rs alloc key v"
    and "0 \<le> sint t3" "sint t1 \<le> sint t2" "sint t2 \<le> sint t3"
    and "cache_bytes base rs (base_world C) + (length key + c_metaDataSize + length v) < 2 ^ 64"
    and "unat (m_currentEvictBucketIndex C) + length (m_buckets (table (base_world C))) * 2 < 2 ^ 64"
  shows "\<exists>m W'. Cache_Add rs alloc RegisterAction t1 t2 t3 C key v = (Inr (), C\<lparr>base_world := W',
      m_currentEvictBucketIndex := m_currentEvictBucketIndex C + of_nat m\<rparr>) \<and>
    cache_inv base rs H t3 (C\<lparr>base_world := W'\<rparr>) \<and>
    table_map rs W' = (\<lambda>k. visited_times (clock_visit (m_recordTimeToLive C) t2)
      (visits (length (m_buckets (table (base_world C)))) (key_bucket (table (base_world C)) k) m
        (unat (m_currentEvictBucketIndex C))) (time_evicted rs t1 C key k))(key \<mapsto> Metadata_new t3 @ v) \<and>
    (table_map rs W' = [key \<mapsto> Metadata_new t3 @ v] \<or>
      cache_bytes base rs W' \<le> unat (m_maxCacheSizeInBytes C) + CalculateRecordOverhead rs + sizeof_Entry)"
  by (rule em.Cache_Add_result [OF assms(1) [unfolded cache_inv_def] assms(2-7)], rule exI, rule exI, intro conjI,
      assumption, simp add: cache_inv_def, assumption, assumption)

theorem Cache_Add_bounded_witness:
  "\<exists>C. Cache_Add demo_cache_rs first_fit RegisterAction 5 5 5 demo_cache [1] [7] = (Inr (), C) \<and>
    cache_inv demo_base demo_cache_rs {#} 5 C \<and> table_map demo_cache_rs (base_world C) [1] = Some (Metadata_new 5 @ [7])"
proof -
  have "length [1 :: u8] + c_metaDataSize + length [7 :: u8] < 2 ^ 32"
    by (simp add: c_metaDataSize_def)
  from Cache_Add_bounded [OF demo_cache_inv demo_cache_addable _ _ _ demo_fits [OF this] demo_bucket_bound, of 5 5 5]
  show ?thesis
    by (auto simp: cache_inv_def)
qed

text \<open>A record with an empty value can be added to a cache, but while it is there \<open>Get\<close> on its key
  fails the assertion on the size of the value.\<close>

theorem Cache_empty_value_asserts:
  assumes "cache_inv base rs H t1 C" "cache_addable rs alloc key []"
    and "0 \<le> sint t3" "sint t1 \<le> sint t2" "sint t2 \<le> sint t3" "sint t3 \<le> sint t4" "sint t3 < 2 ^ 31"
    and "cache_bytes base rs (base_world C) + (length key + c_metaDataSize + 0) < 2 ^ 64"
    and "unat (m_currentEvictBucketIndex C) + length (m_buckets (table (base_world C))) * 2 < 2 ^ 64"
    and "Cache_Add rs alloc RegisterAction t1 t2 t3 C key [] = (r, C')"
  shows "r = Inr () \<and> fst (Cache_Get rs ttl t4 (base_world C') key) =
    Inl (AssertFailed ''value.m_size > Metadata::c_metaDataSize'')"
proof -
  note added = Get_after_Add_lookup [OF assms(1-7) _ assms(9,10), simplified, OF assms(8) [simplified]]
  have "table_ok rs (base_world C')"
    using added(2) by (simp add: cache_inv_def cache_ok_def)
  then obtain a where "Base_Get rs (base_world C') key = Inr (Some (a, Metadata_new t3))"
    by (cases rule: Base_Get_cases [of rs "base_world C'" key]) (use added(3) in auto)
  then show ?thesis
    using added(1) by (simp add: Cache_Get_def GetInternal_def c_metaDataSize_def)
qed

theorem Cache_empty_value_asserts_witness:
  "fst (Cache_Get demo_cache_rs 10 15 (base_world (snd (Cache_Add demo_cache_rs first_fit RegisterAction 5 5 5 demo_cache [1] []))) [1]) =
    Inl (AssertFailed ''value.m_size > Metadata::c_metaDataSize'')"
proof -
  have "length [1 :: u8] + c_metaDataSize + 0 < 2 ^ 32"
    by (simp add: c_metaDataSize_def)
  from Cache_empty_value_asserts [OF demo_cache_inv demo_cache_addable _ _ _ _ _ demo_fits [OF this] demo_bucket_bound
      prod.collapse [symmetric], of 5 5 5 15 10]
  show ?thesis
    by simp
qed

end
