(* ===== verification/L4_ServiceSpec.thy ===== *)
theory L4_ServiceSpec
  imports L4_Service L4_SerializerProps L4_CacheSpec
begin

text \<open>
  What a service promises, as an abstract machine on names and maps, and the refinement: any sequence
  of calls on a service has the results of the abstract machine, whatever the processing thread and
  the contexts do in between. Also the properties of the manager and of the performance data.
\<close>

section \<open>Sequences of calls on a service\<close>

datatype svc_op = AddTable HashTableConfig | PutIn string Key Value | RemoveFrom string Key | GetFrom string Key
  | OpenContext | CloseContext nat | ProcessingTick

datatype outcome = Index nat | Done | Removed bool | Found "Value option"

text \<open>A service and the contexts that are open. Tables are found through a context by name.\<close>

record svc_sys =
  service :: Service
  contexts :: "Context list"

definition on_table :: "hash_combine \<Rightarrow> string \<Rightarrow> (nat \<Rightarrow> Service \<Rightarrow> outcome res \<times> Service) \<Rightarrow> svc_sys \<Rightarrow> outcome res \<times> svc_sys" where
  "on_table combine name f s = (case Context_name combine (service s) name of
     Inl e \<Rightarrow> (Inl e, s)
   | Inr i \<Rightarrow> let (r, S) = f i (service s) in (r, s\<lparr>service := S\<rparr>))"

definition map_res :: "('a \<Rightarrow> 'b) \<Rightarrow> 'a res \<times> Service \<Rightarrow> 'b res \<times> Service" where
  "map_res f p = (bind_res (fst p) (\<lambda>x. Inr (f x)), snd p)"

fun svc_step :: "nat \<Rightarrow> nat \<Rightarrow> nat \<Rightarrow> hash_combine \<Rightarrow> allocator \<Rightarrow> svc_op \<Rightarrow> svc_sys \<Rightarrow> (outcome res \<times> svc_sys) option" where
  "svc_step fuel sm st combine alloc (AddTable config) s =
     map_option (\<lambda>p. let (r, S) = map_res Index p in (r, s\<lparr>service := S\<rparr>)) (AddHashTable fuel sm st combine alloc config (service s))"
| "svc_step fuel sm st combine alloc (PutIn name key value) s =
     Some (on_table combine name (\<lambda>i S. map_res (\<lambda>_. Done) (table_Add alloc (0, 0, 0) i key value S)) s)"
| "svc_step fuel sm st combine alloc (RemoveFrom name key) s =
     Some (on_table combine name (\<lambda>i S. map_res Removed (table_Remove i key S)) s)"
| "svc_step fuel sm st combine alloc (GetFrom name key) s =
     Some (on_table combine name (\<lambda>i S. map_res Found (table_Get 0 i key S)) s)"
| "svc_step fuel sm st combine alloc OpenContext s =
     (let (c, S) = GetContext (service s) in Some (Inr Done, s\<lparr>service := S, contexts := c # contexts s\<rparr>))"
| "svc_step fuel sm st combine alloc (CloseContext j) s =
     (if j < length (contexts s)
      then let (r, S) = Context_destroy (contexts s ! j) (service s)
           in Some (bind_res r (\<lambda>_. Inr Done), s\<lparr>service := S, contexts := take j (contexts s) @ drop (Suc j) (contexts s)\<rparr>)
      else Some (Inr Done, s))"
| "svc_step fuel sm st combine alloc ProcessingTick s = (case service_tick (service s) of
       Inl e \<Rightarrow> Some (Inl e, s)
     | Inr S \<Rightarrow> Some (Inr Done, s\<lparr>service := S\<rparr>))"

primrec svc_run :: "nat \<Rightarrow> nat \<Rightarrow> nat \<Rightarrow> hash_combine \<Rightarrow> allocator \<Rightarrow> svc_op list \<Rightarrow> svc_sys \<Rightarrow> (outcome res list \<times> svc_sys) option" where
  "svc_run fuel sm st combine alloc [] s = Some ([], s)"
| "svc_run fuel sm st combine alloc (p # ps) s = Option.bind (svc_step fuel sm st combine alloc p s) (\<lambda>(r, s).
     map_option (\<lambda>(rs, s). (r # rs, s)) (svc_run fuel sm st combine alloc ps s))"

section \<open>The abstract machine\<close>

text \<open>A table is a map and the sizes that its keys and values must have, 0 for any size.\<close>

record Spec =
  sp_names :: "string \<rightharpoonup> nat"
  sp_maps :: "(Key \<rightharpoonup> Value) list"
  sp_sizes :: "(nat \<times> nat) list"

abbreviation size_error :: error where
  "size_error \<equiv> RuntimeException ''Invalid key or value sizes are given.''"

fun fits_sizes :: "nat \<times> nat \<Rightarrow> Key \<Rightarrow> Value \<Rightarrow> bool" where
  "fits_sizes (m, n) key value \<longleftrightarrow> (m = 0 \<or> length key = m) \<and> (n = 0 \<or> length value = n)"

fun config_sizes :: "ConfigSetting \<Rightarrow> nat \<times> nat" where
  "config_sizes c = (case c_fixedKeySize c of None \<Rightarrow> 0 | Some m \<Rightarrow> unat m, case c_fixedValueSize c of None \<Rightarrow> 0 | Some n \<Rightarrow> unat n)"

definition spec_table :: "Spec \<Rightarrow> string \<Rightarrow> (nat \<Rightarrow> outcome res \<times> Spec) \<Rightarrow> outcome res \<times> Spec" where
  "spec_table A name f = (case sp_names A (name_key name) of
     None \<Rightarrow> (Inl (AssertFailed ''m_hashTableNameToIndex.find(name) != m_hashTableNameToIndex.cend()''), A)
   | Some i \<Rightarrow> f i)"

fun spec_step :: "svc_op \<Rightarrow> Spec \<Rightarrow> outcome res \<times> Spec" where
  "spec_step (AddTable config) A =
     (if sp_names A (name_key (c_name config)) \<noteq> None
      then (Inl (RuntimeException ''Same hash table name already exists.''), A)
      else (Inr (Index (length (sp_maps A))),
        \<lparr>sp_names = (sp_names A)(name_key (c_name config) \<mapsto> length (sp_maps A)), sp_maps = sp_maps A @ [Map.empty],
          sp_sizes = sp_sizes A @ [config_sizes (c_setting config)]\<rparr>))"
| "spec_step (PutIn name key value) A =
     spec_table A name (\<lambda>i. if fits_sizes (sp_sizes A ! i) key value
       then (Inr Done, A\<lparr>sp_maps := (sp_maps A)[i := (sp_maps A ! i)(key \<mapsto> value)]\<rparr>)
       else (Inl size_error, A))"
| "spec_step (RemoveFrom name key) A =
     spec_table A name (\<lambda>i. (Inr (Removed ((sp_maps A ! i) key \<noteq> None)), A\<lparr>sp_maps := (sp_maps A)[i := (sp_maps A ! i)(key := None)]\<rparr>))"
| "spec_step (GetFrom name key) A = spec_table A name (\<lambda>i. (Inr (Found ((sp_maps A ! i) key)), A))"
| "spec_step _ A = (Inr Done, A)"

primrec spec_run :: "svc_op list \<Rightarrow> Spec \<Rightarrow> outcome res list \<times> Spec" where
  "spec_run [] A = ([], A)"
| "spec_run (p # ps) A = (let (r, A) = spec_step p A; (rs, A) = spec_run ps A in (r # rs, A))"

definition sizes_of :: "RecordSerializer \<Rightarrow> nat \<times> nat" where
  "sizes_of rs = (unat (m_fixedKeySize rs), unat (m_fixedValueSize rs))"

definition spec_of :: "Service \<Rightarrow> Spec" where
  "spec_of S = \<lparr>sp_names = map_of (map (\<lambda>(n, i). (name_key n, i)) (m_hashTableNameToIndex (m_hashTableManager S))),
     sp_maps = map (map_at S) [0..<num_tables S],
     sp_sizes = map (\<lambda>i. sizes_of (serializer_of (table_at S i))) [0..<num_tables S]\<rparr>"

section \<open>The manager\<close>

text \<open>The calls the refinement is about: read-write tables made from settings, of any or of fixed sizes.\<close>

definition plain_config :: "HashTableConfig \<Rightarrow> bool" where
  "plain_config config \<longleftrightarrow> no_nul (c_name config) \<and> c_cache config = None \<and> c_serializer config = None \<and>
     0 < c_numBuckets (c_setting config)"

fun plain_op :: "svc_op \<Rightarrow> bool" where
  "plain_op (AddTable config) = plain_config config"
| "plain_op (PutIn name key value) = (no_nul name \<and> valid_key key \<and> valid_value value)"
| "plain_op (RemoveFrom name key) = no_nul name"
| "plain_op (GetFrom name key) = no_nul name"
| "plain_op _ = True"

definition names_ok :: "Service \<Rightarrow> bool" where
  "names_ok S \<longleftrightarrow> no_nul_keys (m_hashTableNameToIndex (m_hashTableManager S)) \<and>
     (\<forall>(n, i)\<in>set (m_hashTableNameToIndex (m_hashTableManager S)). i < num_tables S)"

lemma find_name:
  "names_ok S \<Longrightarrow> no_nul name \<Longrightarrow> map_find combine (m_hashTableNameToIndex (m_hashTableManager S)) name = sp_names (spec_of S) (name_key name)"
  by (simp add: names_ok_def spec_of_def no_nul_keys_def map_find_map_of)

lemma name_index: "names_ok S \<Longrightarrow> sp_names (spec_of S) k = Some i \<Longrightarrow> i < num_tables S"
  by (auto simp: names_ok_def spec_of_def dest!: map_of_SomeD)

lemma Context_name_spec:
  assumes "names_ok S" "no_nul name"
  shows "Context_name combine S name = (case sp_names (spec_of S) (name_key name) of
     None \<Rightarrow> Inl (AssertFailed ''m_hashTableNameToIndex.find(name) != m_hashTableNameToIndex.cend()'') | Some i \<Rightarrow> Inr i)"
  using find_name [OF assms, of combine] name_index [OF assms(1)] assms(2)
  by (auto simp: Context_name_def GetHashTable_def GetHashTable_at_def assert_res_def num_tables_def split: option.split)

lemma new_setting_Convert: "new_setting s = SettingAdapter_Convert s"
  by (simp add: new_setting_def SettingAdapter_Convert_def default_Setting_def Let_def)

text \<open>A table that is made from settings, read-write or cache.\<close>

lemma AddHashTable_new:
  assumes ok: "svc_ok sm st now H L S" and names: "names_ok S" "no_nul (c_name config)"
    and free: "sp_names (spec_of S) (name_key (c_name config)) = None" and buckets: "0 < c_numBuckets (c_setting config)"
    and plain: "c_cache config = None \<or> c_serializer config = None" "Option.bind (c_serializer config) c_stream = None"
  obtains S' where "AddHashTable fuel sm st combine alloc config S = Some (Inr (num_tables S), S')" "svc_ok sm st now H L S'"
    "names_ok S'" "num_tables S' = Suc (num_tables S)" "m_epochManager S' = m_epochManager S" "svc_heap S' = svc_heap S"
    "spec_of S' = \<lparr>sp_names = (sp_names (spec_of S))(name_key (c_name config) \<mapsto> num_tables S), sp_maps = sp_maps (spec_of S) @ [Map.empty],
      sp_sizes = sp_sizes (spec_of S) @ [config_sizes (c_setting config)]\<rparr>"
    "\<forall>j<num_tables S. table_at S' j = table_at S j"
    "table_at S' (num_tables S) = \<lparr>ht_table = SharedHashTable_new sm st (SettingAdapter_Convert (c_setting config)), ht_cache = map_option new_cache_state (c_cache config)\<rparr>"
proof -
  let ?n = "num_tables S" and ?set = "SettingAdapter_Convert (c_setting config)"
  let ?M = "m_hashTableManager S"
  let ?t = "\<lparr>ht_table = SharedHashTable_new sm st ?set, ht_cache = map_option new_cache_state (c_cache config)\<rparr>"
  define S' where "S' = S\<lparr>m_hashTableManager := \<lparr>m_hashTableNameToIndex = m_hashTableNameToIndex ?M @ [(c_name config, ?n)],
    m_hashTables = m_hashTables ?M @ [?t]\<rparr>\<rparr>"
  have S': "m_epochManager S' = m_epochManager S" "svc_heap S' = svc_heap S" "num_tables S' = Suc ?n"
    "m_hashTableNameToIndex (m_hashTableManager S') = m_hashTableNameToIndex ?M @ [(c_name config, ?n)]"
    by (simp_all add: S'_def num_tables_def)
  have none: "map_find combine (m_hashTableNameToIndex ?M) (c_name config) = None"
    using find_name [OF names] free by simp
  have run: "AddHashTable fuel sm st combine alloc config S = Some (Inr ?n, S')"
    using none plain
    by (auto simp: AddHashTable_def Manager_Add_def internal_table_def map_emplace_def Let_def new_setting_Convert num_tables_def S'_def)
  have at: "\<forall>j<?n. table_at S' j = table_at S j" "table_at S' ?n = ?t"
    by (simp_all add: table_at_def num_tables_def nth_append S'_def)
  have world: "\<forall>j<?n. world_at S' j = world_at S j"
    using at(1) by (simp add: world_at_def S'(1,2))
  have b: "0 < m_numBuckets ?set" "m_setting (ht_table ?t) = ?set"
    using buckets by (simp_all add: SettingAdapter_Convert_def SharedHashTable_new_def Let_def)
  have fin: "finite (dom (svc_heap S))"
    using ok by (simp add: svc_ok_def)
  have W: "world_at S' ?n = \<lparr>heap = svc_heap S, table = SharedHashTable_new sm st ?set, manager = m_epochManager S\<rparr>"
    by (simp add: world_at_def at(2) S'(1,2))
  have new: "table_inv sm st now (ht_cache (table_at S' ?n) \<noteq> None) (serializer_of (table_at S' ?n)) (world_at S' ?n)"
    "map_at S' ?n = Map.empty"
    using table_ok_new [OF b(1) fin, of "serializer_of (table_at S' ?n)" sm st "m_epochManager S"]
      perf_ok_new [OF b(1) fin, of sm st "serializer_of (table_at S' ?n)" "m_epochManager S"] b(2)
    by (simp_all add: map_at_def table_inv_def W base_size_def cache_values_def)
  have "addrs_at S' ?n = []"
    by (simp add: addrs_at_def at(2))
  then have "buffers S' {..<Suc ?n} = buffers S' {..<?n}"
    by (simp add: buffers_def lessThan_Suc)
  also have "\<dots> = buffers S {..<?n}"
    by (rule buffers_cong) (simp add: addrs_at_def at(1))
  finally have bufs: "buffers S' {..<Suc ?n} = buffers S {..<?n}" .
  have "table_inv sm st now (ht_cache (table_at S' j) \<noteq> None) (serializer_of (table_at S' j)) (world_at S' j)" if "j < Suc ?n" for j
  proof (cases "j = ?n")
    case False
    then have "j < ?n"
      using that by simp
    then show ?thesis
      using svc_world(1) [OF ok] at(1) world by simp
  qed (use new(1) in simp)
  then have svc: "svc_ok sm st now H L S'"
    using ok bufs by (simp add: svc_ok_def S')
  have maps: "map (map_at S') [0..<?n] = map (map_at S) [0..<?n]"
    using world at(1) by (simp add: map_at_def)
  have "sizes_of (serializer_of (table_at S' ?n)) = config_sizes (c_setting config)"
    by (simp add: at(2) sizes_of_def serializer_of_def default_serializer_def cache_serializer_def SharedHashTable_new_def Let_def
        SettingAdapter_Convert_def default_Setting_def get_value_or_def split: option.split)
  moreover have "map (\<lambda>i. sizes_of (serializer_of (table_at S' i))) [0..<?n] = map (\<lambda>i. sizes_of (serializer_of (table_at S i))) [0..<?n]"
    using at(1) by simp
  ultimately have sizes: "sp_sizes (spec_of S') = sp_sizes (spec_of S) @ [config_sizes (c_setting config)]"
    by (simp add: spec_of_def S'(3) del: config_sizes.simps)
  have "sp_names (spec_of S') = (sp_names (spec_of S))(name_key (c_name config) \<mapsto> ?n)"
    using free by (intro ext) (auto simp: spec_of_def S'(4) map_add_def split: option.split)
  moreover have "sp_maps (spec_of S') = sp_maps (spec_of S) @ [Map.empty]"
    using new(2) maps by (simp add: spec_of_def S'(3))
  ultimately have "spec_of S' = \<lparr>sp_names = (sp_names (spec_of S))(name_key (c_name config) \<mapsto> ?n), sp_maps = sp_maps (spec_of S) @ [Map.empty],
      sp_sizes = sp_sizes (spec_of S) @ [config_sizes (c_setting config)]\<rparr>"
    using sizes by simp
  moreover have "names_ok S'"
    using names by (fastforce simp: names_ok_def no_nul_keys_def S'(3,4))
  ultimately show ?thesis
    using that [of S'] run svc at S'(1-3) by simp
qed

lemma AddHashTable_taken:
  assumes "names_ok S" "no_nul (c_name config)" "sp_names (spec_of S) (name_key (c_name config)) \<noteq> None"
  shows "AddHashTable fuel sm st combine alloc config S = Some (Inl (RuntimeException ''Same hash table name already exists.''), S)"
  using find_name [OF assms(1,2), of combine] assms(3) by (simp add: AddHashTable_def Manager_Add_def)

section \<open>Refinement\<close>

definition plain_tables :: "Service \<Rightarrow> bool" where
  "plain_tables S \<longleftrightarrow> (\<forall>i<num_tables S. ht_cache (table_at S i) = None)"

definition svc_inv :: "nat \<Rightarrow> nat \<Rightarrow> nat \<Rightarrow> addr multiset \<Rightarrow> svc_sys \<Rightarrow> bool" where
  "svc_inv sm st n L s \<longleftrightarrow> svc_ok sm st 0 (mset (contexts s)) L (service s) \<and> names_ok (service s) \<and> plain_tables (service s) \<and>
     length (contexts s) \<le> n \<and> unat (m_currentEpochCounter (m_epochManager (service s))) \<le> n"

lemma Validate_sizes:
  "valid_key k \<Longrightarrow> valid_value v \<Longrightarrow> Validate rs k v = (if fits_sizes (sizes_of rs) k v then Inr () else Inl size_error)"
  by (simp add: Validate_def sizes_of_def word_unat_eq_iff unat_ksize unat_vsize)

lemma plain_addable:
  "plain_tables S \<Longrightarrow> i < num_tables S \<Longrightarrow> good_alloc alloc \<Longrightarrow> valid_key k \<Longrightarrow> valid_value v \<Longrightarrow>
    fits_sizes (sizes_of (serializer_of (table_at S i))) k v \<Longrightarrow> addable (serializer_of (table_at S i)) alloc k v"
  by (simp add: plain_tables_def addable_def Validate_sizes serializer_of_def default_serializer_def)

text \<open>A call that is refused because of the sizes leaks one buffer.\<close>

abbreviation leaks :: "outcome res \<Rightarrow> nat" where
  "leaks r \<equiv> if r = Inl size_error then 1 else 0"

text \<open>A call on one table, as a change of the abstract machine.\<close>

lemma spec_of_change:
  assumes "changes_only i S S'" "i < num_tables S"
  shows "spec_of S' = (spec_of S)\<lparr>sp_maps := (sp_maps (spec_of S))[i := map_at S' i]\<rparr>"
proof -
  have "map (map_at S') [0..<num_tables S] = (map (map_at S) [0..<num_tables S])[i := map_at S' i]"
    using assms by (intro nth_equalityI) (auto simp: changes_only_def nth_list_update)
  moreover have "map (\<lambda>j. sizes_of (serializer_of (table_at S' j))) [0..<num_tables S] = map (\<lambda>j. sizes_of (serializer_of (table_at S j))) [0..<num_tables S]"
    using assms(1) by (simp add: changes_only_def)
  ultimately show ?thesis
    using assms(1) by (simp add: changes_only_def spec_of_def)
qed

lemma changes_inv:
  assumes "svc_inv sm st n L s" "svc_ok sm st 0 (mset (contexts s)) L' S'" "changes_only i (service s) S'"
  shows "svc_inv sm st (Suc n) L' (s\<lparr>service := S'\<rparr>)"
  using assms by (simp add: svc_inv_def changes_only_def names_ok_def plain_tables_def)

lemma on_table_refines:
  assumes inv: "svc_inv sm st n L s" and name: "no_nul name"
    and call: "\<And>i. i < num_tables (service s) \<Longrightarrow> \<exists>r S' L'. f i (service s) = (r, S') \<and> svc_ok sm st 0 (mset (contexts s)) L' S' \<and>
      size L' = size L + leaks r \<and> changes_only i (service s) S' \<and>
      g i = (r, (spec_of (service s))\<lparr>sp_maps := (sp_maps (spec_of (service s)))[i := map_at S' i]\<rparr>)"
  shows "\<exists>r s' L'. on_table combine name f s = (r, s') \<and> svc_inv sm st (Suc n) L' s' \<and> size L' = size L + leaks r \<and>
    spec_table (spec_of (service s)) name g = (r, spec_of (service s'))"
proof -
  have names: "names_ok (service s)"
    using inv by (simp add: svc_inv_def)
  show ?thesis
  proof (cases "sp_names (spec_of (service s)) (name_key name)")
    case None
    then show ?thesis
      using inv by (auto simp: on_table_def spec_table_def Context_name_spec [OF names name] svc_inv_def)
  next
    case (Some i)
    from call [OF name_index [OF names Some]] obtain r S' L' where c: "f i (service s) = (r, S')" "svc_ok sm st 0 (mset (contexts s)) L' S'"
        "size L' = size L + leaks r" "changes_only i (service s) S'"
        "g i = (r, (spec_of (service s))\<lparr>sp_maps := (sp_maps (spec_of (service s)))[i := map_at S' i]\<rparr>)"
      by blast
    show ?thesis
      using c changes_inv [OF inv c(2,4)] spec_of_change [OF c(4) name_index [OF names Some]]
      by (intro exI [of _ r] exI [of _ "s\<lparr>service := S'\<rparr>"] exI [of _ L'])
        (simp add: on_table_def spec_table_def Context_name_spec [OF names name] Some)
  qed
qed

lemma spec_map:
  "i < num_tables S \<Longrightarrow> sp_maps (spec_of S) ! i = map_at S i"
  "i < num_tables S \<Longrightarrow> sp_sizes (spec_of S) ! i = sizes_of (serializer_of (table_at S i))"
  "i < num_tables S \<Longrightarrow> (spec_of S)\<lparr>sp_maps := (sp_maps (spec_of S))[i := map_at S i]\<rparr> = spec_of S"
proof -
  assume i: "i < num_tables S"
  then show map: "sp_maps (spec_of S) ! i = map_at S i" "sp_sizes (spec_of S) ! i = sizes_of (serializer_of (table_at S i))"
    by (simp_all add: spec_of_def)
  show "(spec_of S)\<lparr>sp_maps := (sp_maps (spec_of S))[i := map_at S i]\<rparr> = spec_of S"
    using list_update_id [of "sp_maps (spec_of S)" i] by (simp add: map)
qed

lemma step_put:
  assumes inv: "svc_inv sm st n L s" and op: "no_nul name" "valid_key k" "valid_value v" and alloc: "good_alloc alloc"
  shows "\<exists>r s' L'. svc_step fuel sm st combine alloc (PutIn name k v) s = Some (r, s') \<and> svc_inv sm st (Suc n) L' s' \<and>
    size L' = size L + leaks r \<and> spec_step (PutIn name k v) (spec_of (service s)) = (r, spec_of (service s'))"
proof -
  let ?S = "service s"
  have ok: "svc_ok sm st 0 (mset (contexts s)) L ?S" and plain: "plain_tables ?S"
    using inv by (simp_all add: svc_inv_def)
  let ?g = "\<lambda>i. if fits_sizes (sp_sizes (spec_of ?S) ! i) k v
       then (Inr Done, (spec_of ?S)\<lparr>sp_maps := (sp_maps (spec_of ?S))[i := (sp_maps (spec_of ?S) ! i)(k \<mapsto> v)]\<rparr>)
       else (Inl size_error, spec_of ?S)"
  have "\<exists>r S' L'. map_res (\<lambda>_. Done) (table_Add alloc (0, 0, 0) i k v ?S) = (r, S') \<and> svc_ok sm st 0 (mset (contexts s)) L' S' \<and>
      size L' = size L + leaks r \<and> changes_only i ?S S' \<and>
      ?g i = (r, (spec_of ?S)\<lparr>sp_maps := (sp_maps (spec_of ?S))[i := map_at S' i]\<rparr>)" if i: "i < num_tables ?S" for i
  proof (cases "fits_sizes (sizes_of (serializer_of (table_at ?S i))) k v")
    case True
    show ?thesis
      by (rule table_Add_rw [OF ok i _ plain_addable [OF plain i alloc op(2,3) True], of "(0, 0, 0)"])
        (use plain i True in \<open>auto simp: plain_tables_def map_res_def spec_map(1,2)\<close>)
  next
    case False
    have rw: "ht_cache (table_at ?S i) = None"
      using plain i by (simp add: plain_tables_def)
    have bad: "Validate (serializer_of (table_at ?S i)) k v = Inl size_error"
      using Validate_sizes [OF op(2,3)] False by simp
    obtain S' a where S': "table_Add alloc (0, 0, 0) i k v ?S = (Inl size_error, S')" "svc_ok sm st 0 (mset (contexts s)) (add_mset a L) S'"
        "changes_only i ?S S'" "map_at S' i = map_at ?S i"
      by (rule table_Add_rw_rejected [OF ok i rw alloc bad])
    then show ?thesis
      using False i by (intro exI [of _ "Inl size_error"] exI [of _ S'] exI [of _ "add_mset a L"]) (simp add: map_res_def spec_map)
  qed
  from on_table_refines [where f = "\<lambda>i S. map_res (\<lambda>_. Done) (table_Add alloc (0, 0, 0) i k v S)" and g = ?g, OF inv op(1) this]
  show ?thesis
    by fastforce
qed

lemma step_remove:
  assumes inv: "svc_inv sm st n L s" and op: "no_nul name"
  shows "\<exists>r s' L'. svc_step fuel sm st combine alloc (RemoveFrom name k) s = Some (r, s') \<and> svc_inv sm st (Suc n) L' s' \<and>
    size L' = size L + leaks r \<and> spec_step (RemoveFrom name k) (spec_of (service s)) = (r, spec_of (service s'))"
proof -
  have ok: "svc_ok sm st 0 (mset (contexts s)) L (service s)"
    using inv by (simp add: svc_inv_def)
  have "\<exists>r S' L'. map_res Removed (table_Remove i k (service s)) = (r, S') \<and> svc_ok sm st 0 (mset (contexts s)) L' S' \<and>
      size L' = size L + leaks r \<and> changes_only i (service s) S' \<and>
      (Inr (Removed ((sp_maps (spec_of (service s)) ! i) k \<noteq> None)),
        (spec_of (service s))\<lparr>sp_maps := (sp_maps (spec_of (service s)))[i := (sp_maps (spec_of (service s)) ! i)(k := None)]\<rparr>) =
        (r, (spec_of (service s))\<lparr>sp_maps := (sp_maps (spec_of (service s)))[i := map_at S' i]\<rparr>)" if i: "i < num_tables (service s)" for i
    by (rule table_Remove_any [OF ok i, of k]) (use i in \<open>auto simp: map_res_def spec_map(1)\<close>)
  from on_table_refines [where f = "\<lambda>i S. map_res Removed (table_Remove i k S)" and
      g = "\<lambda>i. (Inr (Removed ((sp_maps (spec_of (service s)) ! i) k \<noteq> None)),
        (spec_of (service s))\<lparr>sp_maps := (sp_maps (spec_of (service s)))[i := (sp_maps (spec_of (service s)) ! i)(k := None)]\<rparr>)",
      OF inv op this] show ?thesis
    by fastforce
qed

lemma step_get:
  assumes inv: "svc_inv sm st n L s" and op: "no_nul name"
  shows "\<exists>r s' L'. svc_step fuel sm st combine alloc (GetFrom name k) s = Some (r, s') \<and> svc_inv sm st (Suc n) L' s' \<and>
    size L' = size L + leaks r \<and> spec_step (GetFrom name k) (spec_of (service s)) = (r, spec_of (service s'))"
proof -
  have ok: "svc_ok sm st 0 (mset (contexts s)) L (service s)" and plain: "plain_tables (service s)"
    using inv by (simp_all add: svc_inv_def)
  have "\<exists>r S' L'. map_res Found (table_Get 0 i k (service s)) = (r, S') \<and> svc_ok sm st 0 (mset (contexts s)) L' S' \<and>
      size L' = size L + leaks r \<and> changes_only i (service s) S' \<and>
      (Inr (Found ((sp_maps (spec_of (service s)) ! i) k)), spec_of (service s)) =
        (r, (spec_of (service s))\<lparr>sp_maps := (sp_maps (spec_of (service s)))[i := map_at S' i]\<rparr>)" if i: "i < num_tables (service s)" for i
    using table_Get_rw [OF ok i, of 0 k] plain i ok
    by (intro exI [of _ "Inr (Found (map_at (service s) i k))"] exI [of _ "service s"] exI [of _ L])
      (simp add: plain_tables_def map_res_def spec_map [OF i] changes_only_def)
  from on_table_refines [where f = "\<lambda>i S. map_res Found (table_Get 0 i k S)" and
      g = "\<lambda>i. (Inr (Found ((sp_maps (spec_of (service s)) ! i) k)), spec_of (service s))", OF inv op this] show ?thesis
    by fastforce
qed

lemma step_add:
  assumes inv: "svc_inv sm st n L s" and op: "plain_config config"
  shows "\<exists>r s' L'. svc_step fuel sm st combine alloc (AddTable config) s = Some (r, s') \<and> svc_inv sm st (Suc n) L' s' \<and>
    size L' = size L + leaks r \<and> spec_step (AddTable config) (spec_of (service s)) = (r, spec_of (service s'))"
proof -
  let ?S = "service s"
  have ok: "svc_ok sm st 0 (mset (contexts s)) L ?S" and plain: "plain_tables ?S" and names: "names_ok ?S" "no_nul (c_name config)"
    using inv op by (simp_all add: svc_inv_def plain_config_def)
  show ?thesis
  proof (cases "sp_names (spec_of ?S) (name_key (c_name config))")
    case (Some i)
    then show ?thesis
      using AddHashTable_taken [OF names, of fuel sm st combine alloc] inv
      by (intro exI [of _ "Inl (RuntimeException ''Same hash table name already exists.'')"] exI [of _ s] exI [of _ L])
        (simp add: map_res_def svc_inv_def)
  next
    case None
    have config: "0 < c_numBuckets (c_setting config)" "c_cache config = None" "c_serializer config = None"
      using op by (simp_all add: plain_config_def)
    obtain S' where S': "AddHashTable fuel sm st combine alloc config ?S = Some (Inr (num_tables ?S), S')"
        "svc_ok sm st 0 (mset (contexts s)) L S'" "names_ok S'" "num_tables S' = Suc (num_tables ?S)" "m_epochManager S' = m_epochManager ?S"
        "spec_of S' = \<lparr>sp_names = (sp_names (spec_of ?S))(name_key (c_name config) \<mapsto> num_tables ?S), sp_maps = sp_maps (spec_of ?S) @ [Map.empty],
          sp_sizes = sp_sizes (spec_of ?S) @ [config_sizes (c_setting config)]\<rparr>"
        "\<forall>j<num_tables ?S. table_at S' j = table_at ?S j"
        "table_at S' (num_tables ?S) = \<lparr>ht_table = SharedHashTable_new sm st (SettingAdapter_Convert (c_setting config)), ht_cache = map_option new_cache_state (c_cache config)\<rparr>"
      by (rule AddHashTable_new [OF ok names None config(1), of fuel combine alloc]) (simp_all add: config)
    have "plain_tables S'"
      using plain S'(4,7,8) config(2) by (auto simp: plain_tables_def less_Suc_eq)
    then have "svc_inv sm st (Suc n) L (s\<lparr>service := S'\<rparr>)"
      using inv S'(2,3,5) by (simp add: svc_inv_def)
    moreover have "length (sp_maps (spec_of ?S)) = num_tables ?S"
      by (simp add: spec_of_def)
    ultimately show ?thesis
      using S'(1,6) None
      by (intro exI [of _ "Inr (Index (num_tables ?S))"] exI [of _ "s\<lparr>service := S'\<rparr>"] exI [of _ L]) (simp add: map_res_def)
  qed
qed

lemma same_manager:
  assumes "m_hashTableManager S' = m_hashTableManager S" "\<forall>i<num_tables S. map_at S' i = map_at S i"
  shows "spec_of S' = spec_of S" "names_ok S' = names_ok S" "plain_tables S' = plain_tables S"
  using assms by (simp_all add: spec_of_def names_ok_def plain_tables_def num_tables_def table_at_def)

lemma svc_step_refines:
  assumes inv: "svc_inv sm st n L s" and op: "plain_op p" and alloc: "good_alloc alloc" and n: "n < 2 ^ 32 - 1"
  shows "\<exists>r s' L'. svc_step fuel sm st combine alloc p s = Some (r, s') \<and> svc_inv sm st (Suc n) L' s' \<and>
    size L' = size L + leaks r \<and> spec_step p (spec_of (service s)) = (r, spec_of (service s'))"
proof -
  have ok: "svc_ok sm st 0 (mset (contexts s)) L (service s)" and rest: "names_ok (service s)" "plain_tables (service s)"
    and bounds: "length (contexts s) \<le> n" "unat (m_currentEpochCounter (m_epochManager (service s))) \<le> n"
    using inv by (simp_all add: svc_inv_def)
  show ?thesis
  proof (cases p)
    case (AddTable config)
    then show ?thesis
      using step_add [OF inv] op by simp
  next
    case (PutIn name k v)
    then show ?thesis
      using step_put [OF inv _ _ _ alloc] op by simp
  next
    case (RemoveFrom name k)
    then show ?thesis
      using step_remove [OF inv] op by simp
  next
    case (GetFrom name k)
    then show ?thesis
      using step_get [OF inv] op by simp
  next
    case OpenContext
    obtain c S' where new: "GetContext (service s) = (c, S')"
      by (cases "GetContext (service s)")
    have "size (mset (contexts s)) < 2 ^ 32 - 1"
      using bounds n by simp
    note opened = GetContext_ok [OF ok this new]
    show ?thesis
      using opened same_manager [OF opened(2,3)] rest bounds
      by (intro exI [of _ "Inr Done"] exI [of _ "s\<lparr>service := S', contexts := c # contexts s\<rparr>"] exI [of _ L])
        (simp add: OpenContext new svc_inv_def)
  next
    case (CloseContext j)
    show ?thesis
    proof (cases "j < length (contexts s)")
      case True
      obtain r S' where destroy: "Context_destroy (contexts s ! j) (service s) = (r, S')"
        by (cases "Context_destroy (contexts s ! j) (service s)")
      have "contexts s ! j \<in># mset (contexts s)" "unat (m_currentEpochCounter (m_epochManager (service s))) < 2 ^ 32"
        using True bounds n by simp_all
      note closed = Context_destroy_ok [OF ok this destroy]
      have "svc_ok sm st 0 (mset (take j (contexts s) @ drop (Suc j) (contexts s))) L S'"
        using closed(2) by (simp only: mset_drop_nth [OF True])
      then show ?thesis
        using closed same_manager [OF closed(3,4)] rest bounds True
        by (intro exI [of _ "Inr Done"] exI [of _ "s\<lparr>service := S', contexts := take j (contexts s) @ drop (Suc j) (contexts s)\<rparr>"] exI [of _ L])
          (simp add: CloseContext destroy svc_inv_def del: mset_append)
    next
      case False
      then show ?thesis
        using inv by (intro exI [of _ "Inr Done"] exI [of _ s] exI [of _ L]) (simp add: CloseContext svc_inv_def)
    qed
  next
    case ProcessingTick
    have "m_currentEpochCounter (m_epochManager (service s)) < 2 ^ 64 - 1"
      using bounds n by (simp add: word_less_nat_alt)
    from service_tick_ok [OF ok this] obtain S' where ticked: "service_tick (service s) = Inr S'"
        "svc_ok sm st 0 (mset (contexts s)) L S'" "m_hashTableManager S' = m_hashTableManager (service s)"
        "\<forall>i<num_tables (service s). map_at S' i = map_at (service s) i"
        "unat (m_currentEpochCounter (m_epochManager S')) \<le> Suc (unat (m_currentEpochCounter (m_epochManager (service s))))"
      by metis
    show ?thesis
      using ticked same_manager [OF ticked(3,4)] rest bounds
      by (intro exI [of _ "Inr Done"] exI [of _ "s\<lparr>service := S'\<rparr>"] exI [of _ L]) (simp add: ProcessingTick svc_inv_def)
  qed
qed

lemma svc_run_refines:
  assumes "svc_inv sm st n L s" "\<forall>p\<in>set ps. plain_op p" "good_alloc alloc" "n + length ps < 2 ^ 32"
  shows "\<exists>rs s' L'. svc_run fuel sm st combine alloc ps s = Some (rs, s') \<and> svc_inv sm st (n + length ps) L' s' \<and>
    size L' = size L + length (filter (\<lambda>r. r = Inl size_error) rs) \<and> spec_run ps (spec_of (service s)) = (rs, spec_of (service s'))"
  using assms
proof (induction ps arbitrary: n L s)
  case (Cons p ps)
  have p: "plain_op p" "n < 2 ^ 32 - 1"
    using Cons.prems(2,4) by simp_all
  from svc_step_refines [OF Cons.prems(1) p(1) Cons.prems(3) p(2)] obtain r s1 L1 where
    s1: "svc_step fuel sm st combine alloc p s = Some (r, s1)" "svc_inv sm st (Suc n) L1 s1" "size L1 = size L + leaks r"
      "spec_step p (spec_of (service s)) = (r, spec_of (service s1))"
    by metis
  have "\<forall>p\<in>set ps. plain_op p" "Suc n + length ps < 2 ^ 32"
    using Cons.prems(2,4) by simp_all
  from Cons.IH [OF s1(2) this(1) Cons.prems(3) this(2)] obtain rs s' L' where
    "svc_run fuel sm st combine alloc ps s1 = Some (rs, s')" "svc_inv sm st (Suc n + length ps) L' s'"
      "size L' = size L1 + length (filter (\<lambda>r. r = Inl size_error) rs)" "spec_run ps (spec_of (service s1)) = (rs, spec_of (service s'))"
    by metis
  then show ?case
    using s1 by (intro exI [of _ "r # rs"] exI [of _ s'] exI [of _ L']) simp
qed auto

section \<open>Names and tables of a manager\<close>

definition manager_wf :: "HashTableManager \<Rightarrow> bool" where
  "manager_wf M \<longleftrightarrow> no_nul_keys (m_hashTableNameToIndex M) \<and>
     distinct (map (name_key \<circ> fst) (m_hashTableNameToIndex M)) \<and>
     map snd (m_hashTableNameToIndex M) = [0..<length (m_hashTables M)]"

lemma GetHashTable_wf:
  assumes "manager_wf M" "no_nul name"
  shows "GetHashTable combine M name = (case map_of (map (\<lambda>(n, i). (name_key n, i)) (m_hashTableNameToIndex M)) (name_key name) of
     None \<Rightarrow> Inl (AssertFailed ''m_hashTableNameToIndex.find(name) != m_hashTableNameToIndex.cend()'') | Some i \<Rightarrow> Inr i)"
proof -
  have "\<forall>(k, v)\<in>set (m_hashTableNameToIndex M). no_nul k"
    using assms(1) by (simp add: manager_wf_def no_nul_keys_def)
  note find = map_find_map_of [OF this assms(2), of combine]
  have "i < length (m_hashTables M)" if "(n, i) \<in> set (m_hashTableNameToIndex M)" for n i
  proof -
    have "map snd (m_hashTableNameToIndex M) = [0..<length (m_hashTables M)]"
      using assms(1) by (simp add: manager_wf_def)
    then have "set (map snd (m_hashTableNameToIndex M)) = {0..<length (m_hashTables M)}"
      by (simp only: set_upt)
    moreover have "i \<in> set (map snd (m_hashTableNameToIndex M))"
      using that by force
    ultimately show ?thesis
      by simp
  qed
  then show ?thesis
    using assms(2) by (auto simp: GetHashTable_def find GetHashTable_at_def assert_res_def dest!: map_of_SomeD split: option.split)
qed

lemma Manager_Add_outcome:
  assumes wf: "manager_wf M" and name: "no_nul (c_name config)"
    and run: "Manager_Add fuel sm st combine alloc config M h = Some (r, M', h')"
  obtains e where "r = Inl e" "M' = M"
  | T where "r = Inr (length (m_hashTables M))" "name_key (c_name config) \<notin> name_key ` fst ` set (m_hashTableNameToIndex M)"
      "M' = \<lparr>m_hashTableNameToIndex = m_hashTableNameToIndex M @ [(c_name config, length (m_hashTables M))],
         m_hashTables = m_hashTables M @ [\<lparr>ht_table = T, ht_cache = map_option new_cache_state (c_cache config)\<rparr>]\<rparr>"
proof (cases "map_find combine (m_hashTableNameToIndex M) (c_name config)")
  case None
  have "\<forall>(k, v)\<in>set (m_hashTableNameToIndex M). no_nul k"
    using wf by (simp add: manager_wf_def no_nul_keys_def)
  then have "map_of (map (\<lambda>(n, i). (name_key n, i)) (m_hashTableNameToIndex M)) (name_key (c_name config)) = None"
    using None map_find_map_of [OF _ name] by metis
  then have new: "name_key (c_name config) \<notin> name_key ` fst ` set (m_hashTableNameToIndex M)"
    by (force simp: map_of_eq_None_iff)
  have "(\<exists>e. r = Inl e \<and> M' = M) \<or> (\<exists>T. r = Inr (length (m_hashTables M)) \<and>
      M' = \<lparr>m_hashTableNameToIndex = m_hashTableNameToIndex M @ [(c_name config, length (m_hashTables M))],
         m_hashTables = m_hashTables M @ [\<lparr>ht_table = T, ht_cache = map_option new_cache_state (c_cache config)\<rparr>]\<rparr>)"
  proof (cases "c_cache config \<noteq> None \<and> c_serializer config \<noteq> None")
    case False
    obtain x h1 where "internal_table fuel sm st alloc config h = Some (x, h1)"
      using run None False by (cases "internal_table fuel sm st alloc config h") (auto simp: Manager_Add_def split: if_splits)
    then show ?thesis
      using run None False by (cases x) (auto simp: Manager_Add_def map_emplace_def Let_def split: if_splits)
  qed (use run None in \<open>auto simp: Manager_Add_def\<close>)
  then show ?thesis
    by (elim disjE exE conjE) (rule that(1), assumption, assumption, rule that(2) [OF _ new], assumption, assumption)
next
  case (Some i)
  then have "r = Inl (RuntimeException ''Same hash table name already exists.'')" "M' = M"
    using run by (simp_all add: Manager_Add_def)
  then show ?thesis
    by (rule that(1))
qed

lemma new_service_ok:
  assumes "HashTableService_new hardware config = Inr S"
  shows "svc_ok sm st now {#} {#} S" "names_ok S" "plain_tables S" "num_tables S = 0"
    "spec_of S = \<lparr>sp_names = Map.empty, sp_maps = [], sp_sizes = []\<rparr>" "m_currentEpochCounter (m_epochManager S) = 0"
proof -
  obtain E where E: "EpochManager_new hardware config PerfCounters_init = Inr E"
      "S = \<lparr>m_hashTableManager = HashTableManager_new, m_epochManager = E, svc_heap = Map.empty\<rparr>"
    using assms by (auto simp: HashTableService_new_def bind_res_Inr_iff)
  note man = manager_ok_new [OF E(1)]
  have "num_tables S = 0" "m_hashTableNameToIndex (m_hashTableManager S) = []"
    by (simp_all add: E(2) num_tables_def HashTableManager_new_def)
  then show "svc_ok sm st now {#} {#} S" "names_ok S" "plain_tables S" "num_tables S = 0"
      "spec_of S = \<lparr>sp_names = Map.empty, sp_maps = [], sp_sizes = []\<rparr>" "m_currentEpochCounter (m_epochManager S) = 0"
    using man by (simp_all add: svc_ok_def names_ok_def no_nul_keys_def plain_tables_def buffers_def
        E(2) queued_buffers_def PerfCounters_init_def spec_of_def)
qed

section \<open>Examples\<close>

lemma all_less_two: "(\<forall>j<2. 0 < j \<longrightarrow> P j) = P (1 :: nat)"
  by (auto simp: numeral_2_eq_2 less_Suc_eq)

definition demo_config :: "string \<Rightarrow> CacheConfig option \<Rightarrow> HashTableConfig" where
  "demo_config name cache = \<lparr>c_name = name, c_setting = \<lparr>c_numBuckets = 2, c_numBucketsPerMutex = None, c_fixedKeySize = None, c_fixedValueSize = None\<rparr>,
     c_cache = cache, c_serializer = None\<rparr>"

text \<open>A table whose keys and values are single bytes.\<close>

definition fixed_config :: HashTableConfig where
  "fixed_config = \<lparr>c_name = ''b'', c_setting = \<lparr>c_numBuckets = 2, c_numBucketsPerMutex = None, c_fixedKeySize = Some 1, c_fixedValueSize = Some 1\<rparr>,
     c_cache = None, c_serializer = None\<rparr>"

lemma demo_service: "\<exists>S. HashTableService_new 8 default_EpochManagerConfig = Inr S"
  by (simp add: HashTableService_new_def EpochManager_new_def default_EpochManagerConfig_def EpochQueue_new_def EpochActionManager_new_def
      NextHighestPowerOfTwo_def IsPowerOfTwo_def)

text \<open>A service with a cache in front of a plain table.\<close>

definition demo_cache_config :: CacheConfig where
  "demo_cache_config = \<lparr>c_maxCacheSizeInBytes = 4096, c_recordTimeToLive = 10, c_forceTimeBasedEviction = True\<rparr>"

lemma demo_cache_service:
  obtains S where "svc_ok 80 248 0 {#} {#} S" "num_tables S = 2" "map_at S 0 = Map.empty"
    "table_at S 0 = \<lparr>ht_table = SharedHashTable_new 80 248 demo_setting, ht_cache = Some (new_cache_state demo_cache_config)\<rparr>"
proof -
  obtain S0 where S0: "HashTableService_new 8 default_EpochManagerConfig = Inr S0"
    using demo_service by blast
  have start: "svc_ok 80 248 0 {#} {#} S0" "names_ok S0" "spec_of S0 = \<lparr>sp_names = Map.empty, sp_maps = [], sp_sizes = []\<rparr>" "num_tables S0 = 0"
    using new_service_ok [OF S0] by simp_all
  let ?combine = "\<lambda>seed i. seed * 31 + of_int i :: u64"
  let ?a = "demo_config ''a'' (Some demo_cache_config)" and ?b = "demo_config ''b'' None"
  have names: "no_nul (c_name ?a)" "no_nul (c_name ?b)" "name_key (c_name ?b) \<noteq> name_key (c_name ?a)"
    by code_simp+
  have config: "0 < c_numBuckets (c_setting ?a)" "c_serializer ?a = None" "0 < c_numBuckets (c_setting ?b)" "c_serializer ?b = None"
    by (simp_all add: demo_config_def)
  have free: "sp_names (spec_of S0) (name_key (c_name ?a)) = None"
    by (simp add: start)
  obtain S1 where S1: "svc_ok 80 248 0 {#} {#} S1" "names_ok S1" "num_tables S1 = Suc (num_tables S0)"
      "spec_of S1 = \<lparr>sp_names = (sp_names (spec_of S0))(name_key (c_name ?a) \<mapsto> num_tables S0), sp_maps = sp_maps (spec_of S0) @ [Map.empty],
        sp_sizes = sp_sizes (spec_of S0) @ [config_sizes (c_setting ?a)]\<rparr>"
      "table_at S1 (num_tables S0) = \<lparr>ht_table = SharedHashTable_new 80 248 (SettingAdapter_Convert (c_setting ?a)), ht_cache = map_option new_cache_state (c_cache ?a)\<rparr>"
    by (rule AddHashTable_new [OF start(1,2) names(1) free config(1), of 0 ?combine first_fit]) (simp_all add: config)
  have free: "sp_names (spec_of S1) (name_key (c_name ?b)) = None"
    using names(3) by (simp add: S1(4) start)
  obtain S2 where S2: "svc_ok 80 248 0 {#} {#} S2" "num_tables S2 = Suc (num_tables S1)" "\<forall>j<num_tables S1. table_at S2 j = table_at S1 j"
      "spec_of S2 = \<lparr>sp_names = (sp_names (spec_of S1))(name_key (c_name ?b) \<mapsto> num_tables S1), sp_maps = sp_maps (spec_of S1) @ [Map.empty],
        sp_sizes = sp_sizes (spec_of S1) @ [config_sizes (c_setting ?b)]\<rparr>"
    by (rule AddHashTable_new [OF S1(1,2) names(2) free config(3), of 0 ?combine first_fit]) (simp_all add: config)
  have table: "table_at S2 0 = \<lparr>ht_table = SharedHashTable_new 80 248 demo_setting, ht_cache = Some (new_cache_state demo_cache_config)\<rparr>"
    using S1(3,5) S2(3) start(4)
    by (simp add: demo_config_def SettingAdapter_Convert_def default_Setting_def get_value_or_def demo_setting_def Let_def)
  have two: "num_tables S2 = 2"
    using S2(2) S1(3) start(4) by simp
  show ?thesis
  proof (rule that [OF S2(1) two _ table])
    show "map_at S2 0 = Map.empty"
      using S2(4) S1(4) start(3) two by (simp add: spec_of_def upt_rec)
  qed
qed

section \<open>Properties\<close>

text \<open>C4: a service of read-write tables that are made from settings, of any or of fixed key and value sizes, used by any sequence of
  calls (tables added, records added, removed and looked up by the name of a table, contexts opened and closed, rounds of the
  processing thread; fewer than \<open>2 ^ 32\<close> in all, names without NUL characters), gives the results of the abstract machine, the errors
  for names that are taken or unknown and for records of wrong sizes too, and ends in a state that stands for the abstract one; every
  allocated buffer is in exactly one table or queued once, but for one leaked buffer per record of wrong sizes. Caches, loaded
  tables and tables without buckets are not in the scope of this theorem.\<close>

theorem service_refines:
  assumes "HashTableService_new hardware config = Inr S" "\<forall>p\<in>set ps. plain_op p" "good_alloc alloc" "length ps < 2 ^ 32"
  shows "\<exists>rs s' leaked. svc_run fuel sm st combine alloc ps \<lparr>service = S, contexts = []\<rparr> = Some (rs, s') \<and>
    spec_run ps \<lparr>sp_names = Map.empty, sp_maps = [], sp_sizes = []\<rparr> = (rs, spec_of (service s')) \<and>
    mset_set (dom (svc_heap (service s'))) =
      buffers (service s') {..<num_tables (service s')} + queued_buffers (m_epochManager (service s')) + leaked \<and>
    size leaked = length (filter (\<lambda>r. r = Inl size_error) rs)"
proof -
  note new = new_service_ok [OF assms(1)]
  have inv: "svc_inv sm st 0 {#} \<lparr>service = S, contexts = []\<rparr>"
    using new by (simp add: svc_inv_def)
  note spec = new(5)
  from svc_run_refines [OF inv assms(2,3), of fuel combine] assms(4) obtain rs s' L' where
    "svc_run fuel sm st combine alloc ps \<lparr>service = S, contexts = []\<rparr> = Some (rs, s')" "svc_inv sm st (length ps) L' s'"
      "size L' = length (filter (\<lambda>r. r = Inl size_error) rs)" "spec_run ps (spec_of S) = (rs, spec_of (service s'))"
    by auto
  then show ?thesis
    by (intro exI [of _ rs] exI [of _ s'] exI [of _ L']) (simp add: spec svc_inv_def svc_ok_def)
qed

theorem service_refines_witness:
  "\<exists>S rs s' leaked. HashTableService_new 8 default_EpochManagerConfig = Inr S \<and>
    svc_run 0 80 248 (\<lambda>seed i. seed * 31 + of_int i) first_fit [AddTable (demo_config ''A'' None), AddTable fixed_config, OpenContext,
      PutIn ''a'' [1] [2], PutIn ''B'' [1] [3, 4], PutIn ''b'' [1] [3], ProcessingTick, CloseContext 0, GetFrom ''A'' [1],
      GetFrom ''B'' [1], AddTable (demo_config ''a'' None)] \<lparr>service = S, contexts = []\<rparr> = Some (rs, s') \<and>
    rs = [Inr (Index 0), Inr (Index 1), Inr Done, Inr Done, Inl size_error, Inr Done, Inr Done, Inr Done, Inr (Found (Some [2])),
      Inr (Found (Some [3])), Inl (RuntimeException ''Same hash table name already exists.'')] \<and>
    mset_set (dom (svc_heap (service s'))) =
      buffers (service s') {..<num_tables (service s')} + queued_buffers (m_epochManager (service s')) + leaked \<and> size leaked = 1"
proof -
  let ?ps = "[AddTable (demo_config ''A'' None), AddTable fixed_config, OpenContext,
      PutIn ''a'' [1] [2], PutIn ''B'' [1] [3, 4], PutIn ''b'' [1] [3], ProcessingTick, CloseContext 0, GetFrom ''A'' [1],
      GetFrom ''B'' [1], AddTable (demo_config ''a'' None)]"
  obtain S where S: "HashTableService_new 8 default_EpochManagerConfig = Inr S"
    using demo_service by blast
  have "\<forall>p\<in>set ?ps. plain_op p"
    by (simp add: demo_config_def fixed_config_def plain_config_def no_nul_def valid_key_def valid_value_def)
  from service_refines [OF S this good_alloc_first_fit, of 0 80 248 "\<lambda>seed i. seed * 31 + of_int i"]
  obtain rs s' leaked where "svc_run 0 80 248 (\<lambda>seed i. seed * 31 + of_int i) first_fit ?ps \<lparr>service = S, contexts = []\<rparr> = Some (rs, s')"
      "spec_run ?ps \<lparr>sp_names = Map.empty, sp_maps = [], sp_sizes = []\<rparr> = (rs, spec_of (service s'))"
      "mset_set (dom (svc_heap (service s'))) =
        buffers (service s') {..<num_tables (service s')} + queued_buffers (m_epochManager (service s')) + leaked"
      "size leaked = length (filter (\<lambda>r. r = Inl size_error) rs)"
    by auto
  moreover have "name_key ''a'' = name_key ''A''" "name_key ''B'' = name_key ''b''" "name_key ''b'' \<noteq> name_key ''A''"
    by code_simp+
  ultimately show ?thesis
    using S by (intro exI [of _ S] exI [of _ rs] exI [of _ s'] exI [of _ leaked])
      (auto simp: demo_config_def fixed_config_def spec_table_def)
qed

text \<open>C21: whatever the configuration, a name of a table without NUL characters stands for one table: \<open>Add\<close> either
  throws and changes nothing, or appends a table whose name differs from all others even up to case, and
  then every spelling of the name finds it, while every other name finds what it found before.\<close>

theorem manager_names:
  assumes "manager_wf M" "no_nul (c_name config)" "Manager_Add fuel sm st combine alloc config M h = Some (r, M', h')"
  shows "manager_wf M' \<and> (case r of Inl e \<Rightarrow> M' = M
    | Inr i \<Rightarrow> i = length (m_hashTables M) \<and> length (m_hashTables M') = Suc i \<and>
        (\<forall>name. no_nul name \<longrightarrow> GetHashTable combine M' name =
          (if StdStringComparer name (c_name config) then Inr i else GetHashTable combine M name)))"
proof (cases rule: Manager_Add_outcome [OF assms])
  case (1 e)
  then show ?thesis
    using assms(1) by simp
next
  case (2 T)
  then have wf: "manager_wf M'"
    using assms(1,2) by (auto simp: manager_wf_def no_nul_keys_def)
  have "map_of (map (\<lambda>(n, i). (name_key n, i)) (m_hashTableNameToIndex M)) (name_key (c_name config)) = None"
    using 2(2) by (force simp: map_of_eq_None_iff)
  then have "GetHashTable combine M' name = (if StdStringComparer name (c_name config) then Inr (length (m_hashTables M))
      else GetHashTable combine M name)" if "no_nul name" for name
    unfolding GetHashTable_wf [OF wf that] GetHashTable_wf [OF assms(1) that] by (auto simp: Comparer_name_key 2(3) map_add_def split: option.split)
  then show ?thesis
    using wf 2(1,3) by simp
qed

theorem manager_names_witness:
  "\<exists>M h. Manager_Add 0 80 248 (\<lambda>seed i. seed * 31 + of_int i) first_fit (demo_config ''A'' None) HashTableManager_new Map.empty = Some (Inr 0, M, h) \<and>
    GetHashTable (\<lambda>seed i. seed * 31 + of_int i) M ''a'' = Inr 0"
proof -
  let ?combine = "\<lambda>seed i. seed * 31 + of_int i :: u64"
  have wf: "manager_wf HashTableManager_new" "no_nul (c_name (demo_config ''A'' None))" "no_nul ''a''"
    by (simp_all add: manager_wf_def HashTableManager_new_def no_nul_keys_def demo_config_def no_nul_def)
  obtain M h where run: "Manager_Add 0 80 248 ?combine first_fit (demo_config ''A'' None) HashTableManager_new Map.empty = Some (Inr 0, M, h)"
    by (simp add: Manager_Add_def HashTableManager_new_def demo_config_def internal_table_def map_find_def Let_def)
  have "StdStringComparer ''a'' (c_name (demo_config ''A'' None))"
    by code_simp
  then show ?thesis
    using manager_names [OF wf(1,2) run] wf(3) run by auto
qed

text \<open>C22: a call of \<open>Add\<close> on a cache of a service leaves every other table as it was, keeps the invariant of all of
  them, stores the new value, and changes the other records of the cache at most in their metadata or by
  evicting them: a cache never gives a value that was not added for the key.\<close>

theorem cache_Add_isolated:
  assumes "svc_ok sm st now H L S" "i < num_tables S" "ht_cache (table_at S i) = Some c"
    and "sint now \<le> sint t1" "sint t1 \<le> sint t2" "sint t2 \<le> sint t3" "0 \<le> sint t3"
    and "cache_addable (serializer_of (table_at S i)) alloc key v"
    and "cache_bytes (base_size sm st (m_setting (ht_table (table_at S i)))) (serializer_of (table_at S i)) (world_at S i) +
      (length key + c_metaDataSize + length v) < 2 ^ 64"
    and "unat (cs_currentEvictBucketIndex c) + length (m_buckets (ht_table (table_at S i))) * 2 < 2 ^ 64"
  shows "\<exists>S'. table_Add alloc (t1, t2, t3) i key v S = (Inr (), S') \<and> svc_ok sm st t3 H L S' \<and> num_tables S' = num_tables S \<and>
    (\<forall>j<num_tables S. j \<noteq> i \<longrightarrow> map_at S' j = map_at S j) \<and> map_at S' i key = Some (Metadata_new t3 @ v) \<and>
    (\<forall>k w. k \<noteq> key \<longrightarrow> map_at S' i k = Some w \<longrightarrow> (\<exists>w'. map_at S i k = Some w' \<and> drop c_metaDataSize w' = drop c_metaDataSize w))"
  by (rule table_Add_cache [OF assms], rule exI, intro conjI, assumption, assumption)
    (simp_all add: changes_only_def)

theorem cache_Add_isolated_witness:
  "\<exists>S S'. ht_cache (table_at S 0) \<noteq> None \<and> num_tables S = 2 \<and> table_Add first_fit (5, 5, 5) 0 [1] [7] S = (Inr (), S') \<and>
    map_at S' 1 = map_at S 1 \<and> map_at S' 0 [1] = Some (Metadata_new 5 @ [7])"
proof -
  obtain S2 where S2: "svc_ok 80 248 0 {#} {#} S2" "num_tables S2 = 2" "map_at S2 0 = Map.empty"
      and table: "table_at S2 0 = \<lparr>ht_table = SharedHashTable_new 80 248 demo_setting, ht_cache = Some (new_cache_state demo_cache_config)\<rparr>"
    by (rule demo_cache_service)
  have ser: "serializer_of (table_at S2 0) = demo_cache_rs"
    by (simp add: table serializer_of_def cache_serializer_def demo_cache_rs_def demo_setting_def SharedHashTable_new_def Let_def c_metaDataSize_def)
  have none: "table_map demo_cache_rs (world_at S2 0) = Map.empty"
    using S2(3) by (simp add: map_at_def ser)
  have "cache_bytes (base_size 80 248 (m_setting (ht_table (table_at S2 0)))) (serializer_of (table_at S2 0)) (world_at S2 0) +
      (length [1 :: u8] + c_metaDataSize + length [7 :: u8]) < 2 ^ 64"
    by (simp add: cache_bytes_def data_size_def ser none)
      (simp add: table SharedHashTable_new_def Let_def chained_def sum_list_replicate base_size_def demo_setting_def num_mutexes_def
        sizeof_Entry_def c_numDataPerEntry_def c_metaDataSize_def)
  moreover have "cache_addable (serializer_of (table_at S2 0)) first_fit [1] [7]"
    unfolding ser by (rule demo_cache_addable) simp
  moreover have "ht_cache (table_at S2 0) = Some (new_cache_state demo_cache_config)" "0 < num_tables S2"
    "unat (cs_currentEvictBucketIndex (new_cache_state demo_cache_config)) + length (m_buckets (ht_table (table_at S2 0))) * 2 < 2 ^ 64"
    by (simp_all add: table S2(2) new_cache_state_def SharedHashTable_new_def Let_def demo_setting_def)
  ultimately show ?thesis
    using cache_Add_isolated [OF S2(1), of 0 "new_cache_state demo_cache_config" 5 5 5 first_fit "[1]" "[7]"] S2(2)
    by (simp add: all_less_two) (metis option.distinct(1))
qed

end
