(* ===== verification/L4_Connection.thy ===== *)
theory L4_Connection
  imports L4_Prelude "HOL-Library.Multiset"
begin

text \<open>
  The connection monitor, \<open>src/Interprocess/Connection/ConnectionMonitor.cpp\<close>, with the end points of
  \<open>EndPointInfo.h\<close>, their names of \<open>EndPointInfoUtils.cpp\<close> and the handles of \<open>Utils/Handle.cpp\<close>. The
  calls of Windows are parameters. The monitor is a step relation: one client thread calls its
  operations while the callbacks run on the threads of a pool.
\<close>

section \<open>End points and handles\<close>

text \<open>A uuid has 16 bytes and is compared lexicographically, so it is the number they write.\<close>

type_synonym uuid = "128 word"

record EndPointInfo =
  m_pid :: u32
  m_uuid :: uuid

definition EndPointInfo_eq :: "EndPointInfo \<Rightarrow> EndPointInfo \<Rightarrow> bool" where
  "EndPointInfo_eq e other \<longleftrightarrow> m_pid e = m_pid other \<and> m_uuid e = m_uuid other"

definition EndPointInfo_less :: "EndPointInfo \<Rightarrow> EndPointInfo \<Rightarrow> bool" where
  "EndPointInfo_less e other \<longleftrightarrow> m_uuid e < m_uuid other"

text \<open>\<open>std::to_string\<close> writes a number in decimal; the form of a uuid is that of boost, a parameter.\<close>

fun to_string :: "nat \<Rightarrow> string" where
  "to_string n = (if n < 10 then [char_of (48 + n)] else to_string (n div 10) @ [char_of (48 + n mod 10)])"

declare to_string.simps [simp del]

lemma to_string_inj: "to_string m = to_string n \<Longrightarrow> m = n"
proof (induction m arbitrary: n rule: to_string.induct)
  case (1 m)
  have snoc: "to_string i = (if i < 10 then [] else to_string (i div 10)) @ [char_of (48 + i mod 10)]" for i
    by (simp add: to_string.simps [of i])
  have nonempty: "to_string i \<noteq> []" for i
    by (simp add: snoc [of i])
  have "char_of (48 + m mod 10) = (char_of (48 + n mod 10) :: char)"
    and front: "(if m < 10 then [] else to_string (m div 10)) = (if n < 10 then [] else to_string (n div 10))"
    using 1(2) unfolding snoc [of m] snoc [of n] by simp_all
  then have "m mod 10 = n mod 10"
    by (simp add: char_of_eq_iff [symmetric] of_char_of)
  moreover have "m div 10 = n div 10"
    using front 1(1) nonempty [of "n div 10"] nonempty [of "m div 10"] by (auto split: if_splits)
  ultimately show ?case
    by (metis div_mult_mod_eq)
qed

definition StringConverter :: "(uuid \<Rightarrow> string) \<Rightarrow> EndPointInfo \<Rightarrow> string" where
  "StringConverter uuid_string e =
     ''[pid:'' @ to_string (unat (m_pid e)) @ '','' @ ''uuid:'' @ uuid_string (m_uuid e) @ '']''"

text \<open>\<open>Verify\<close>, with the value \<open>GetLastError\<close> would return. A handle is a word; \<open>ERROR_SUCCESS\<close> is 0.\<close>

definition INVALID_HANDLE_VALUE :: u64 where
  "INVALID_HANDLE_VALUE = - 1"

definition Verify :: "u64 \<Rightarrow> bool \<Rightarrow> u32 \<Rightarrow> u64 res" where
  "Verify handle verifyHandle last_error =
     (if handle = 0 \<or> handle = INVALID_HANDLE_VALUE \<or> verifyHandle
      then if last_error \<noteq> 0
           then Inl (RuntimeException (''Invalid handle: '' @ to_string (unat last_error) @ ''.''))
           else Inr handle
      else Inr handle)"

section \<open>The monitor\<close>

text \<open>
  A registration has a number of its own, since an end point can be registered again. \<open>m_remoteMonitors\<close>
  maps end points to registrations and \<open>candidate\<close> is the \<open>HandleMonitor\<close> that \<open>Register\<close> is making and has not
  yet put into the map: its waiters are at work already, first that of the event alone, then, as
  \<open>m_processWaiter\<close> says, that of the process too. \<open>isCalled\<close> are the registrations whose flag is
  set, \<open>running\<close> the callbacks that passed the flag, with whether the callback of the user has returned,
  and \<open>called\<close> the registrations whose user callback was called. \<open>client\<close> is the operation in progress,
  with the end points that \<open>UnRegister()\<close> has taken and not yet erased.
\<close>

datatype client_op = Register EndPointInfo | GetRemoteConnectionsCount

record Monitor =
  m_remoteMonitors :: "(EndPointInfo \<times> nat) list"
  m_unregisteredEndPoints :: "EndPointInfo list"
  candidate :: "(EndPointInfo \<times> nat) option"
  m_processWaiter :: bool
  isCalled :: "nat set"
  running :: "(EndPointInfo \<times> nat \<times> bool) list"
  called :: "nat list"
  registrations :: nat
  client :: "(EndPointInfo list \<times> client_op) option"

definition ConnectionMonitor_new :: Monitor where
  "ConnectionMonitor_new = \<lparr>m_remoteMonitors = [], m_unregisteredEndPoints = [], candidate = None, m_processWaiter = False, isCalled = {}, running = [],
     called = [], registrations = 0, client = None\<rparr>"

text \<open>\<open>std::map\<close> takes two keys for the same when neither is less than the other.\<close>

definition same_key :: "EndPointInfo \<Rightarrow> EndPointInfo \<Rightarrow> bool" where
  "same_key e f \<longleftrightarrow> \<not> EndPointInfo_less e f \<and> \<not> EndPointInfo_less f e"

definition monitors_find :: "(EndPointInfo \<times> nat) list \<Rightarrow> EndPointInfo \<Rightarrow> nat option" where
  "monitors_find ms e = map_option snd (List.find (\<lambda>(f, i). same_key f e) ms)"

definition monitors_erase :: "EndPointInfo \<Rightarrow> (EndPointInfo \<times> nat) list \<Rightarrow> (EndPointInfo \<times> nat) list" where
  "monitors_erase e ms = filter (\<lambda>(f, i). \<not> same_key f e) ms"

definition UnRegister :: "EndPointInfo \<Rightarrow> Monitor \<Rightarrow> Monitor" where
  "UnRegister e M = M\<lparr>m_unregisteredEndPoints := m_unregisteredEndPoints M @ [e]\<rparr>"

definition alive :: "Monitor \<Rightarrow> (EndPointInfo \<times> nat) list" where
  "alive M = (case candidate M of None \<Rightarrow> [] | Some r \<Rightarrow> [r]) @ m_remoteMonitors M"

text \<open>A registration in the map has the waiters of both handles, the one in the making that of the event first.\<close>

definition has_process_waiter :: "Monitor \<Rightarrow> EndPointInfo \<times> nat \<Rightarrow> bool" where
  "has_process_waiter M r \<longleftrightarrow> r \<in> set (m_remoteMonitors M) \<or> candidate M = Some r \<and> m_processWaiter M"

definition running_ids :: "Monitor \<Rightarrow> nat list" where
  "running_ids M = map (fst \<circ> snd) (running M)"

datatype label = Begin | Erase | Open | OpenProcess | Finish "nat option res" | Explicit EndPointInfo | Fire | UserCallback | CallbackDone

text \<open>
  An operation takes the queue under its lock, erases its end points one by one, and then does its own
  work. The destructor of a waiter waits for its running callbacks (\<open>WaitForThreadpoolWaitCallbacks\<close>), so
  a registration is destroyed only when none of its callbacks runs. Opening the handles of a new
  registration may fail, of the event (\<open>no_event\<close>) or, when the waiter of the event is at work already,
  of the process (\<open>no_process\<close>). \<open>std::map::emplace\<close> destroys the new monitor when the key is there.
\<close>

inductive mon_step :: "label \<Rightarrow> Monitor \<Rightarrow> Monitor \<Rightarrow> bool" where
  begin_op: "client M = None \<Longrightarrow>
    mon_step Begin M (M\<lparr>client := Some (m_unregisteredEndPoints M, p), m_unregisteredEndPoints := []\<rparr>)"
| erase: "client M = Some (e # es, p) \<Longrightarrow>
    (case monitors_find (m_remoteMonitors M) e of None \<Rightarrow> True | Some i \<Rightarrow> i \<notin> set (running_ids M)) \<Longrightarrow>
    mon_step Erase M (M\<lparr>m_remoteMonitors := monitors_erase e (m_remoteMonitors M), client := Some (es, p)\<rparr>)"
| count: "client M = Some ([], GetRemoteConnectionsCount) \<Longrightarrow>
    mon_step (Finish (Inr (Some (length (m_remoteMonitors M))))) M (M\<lparr>client := None\<rparr>)"
| no_event: "client M = Some ([], Register e) \<Longrightarrow> candidate M = None \<Longrightarrow> Verify h False err = Inl x \<Longrightarrow>
    mon_step (Finish (Inl x)) M (M\<lparr>client := None\<rparr>)"
| open_event: "client M = Some ([], Register e) \<Longrightarrow> candidate M = None \<Longrightarrow>
    mon_step Open M (M\<lparr>candidate := Some (e, registrations M), m_processWaiter := False, registrations := Suc (registrations M)\<rparr>)"
| open_process: "candidate M = Some (e, i) \<Longrightarrow> \<not> m_processWaiter M \<Longrightarrow> mon_step OpenProcess M (M\<lparr>m_processWaiter := True\<rparr>)"
| no_process: "candidate M = Some (e, i) \<Longrightarrow> \<not> m_processWaiter M \<Longrightarrow> i \<notin> set (running_ids M) \<Longrightarrow> Verify h False err = Inl x \<Longrightarrow>
    mon_step (Finish (Inl x)) M (M\<lparr>candidate := None, m_processWaiter := False, client := None\<rparr>)"
| duplicate: "candidate M = Some (e, i) \<Longrightarrow> m_processWaiter M \<Longrightarrow> i \<notin> set (running_ids M) \<Longrightarrow> monitors_find (m_remoteMonitors M) e \<noteq> None \<Longrightarrow>
    mon_step (Finish (Inl (RuntimeException ''Duplicate end point found.''))) M (M\<lparr>candidate := None, m_processWaiter := False, client := None\<rparr>)"
| registered: "candidate M = Some (e, i) \<Longrightarrow> m_processWaiter M \<Longrightarrow> monitors_find (m_remoteMonitors M) e = None \<Longrightarrow>
    mon_step (Finish (Inr None)) M (M\<lparr>m_remoteMonitors := m_remoteMonitors M @ [(e, i)], candidate := None, m_processWaiter := False, client := None\<rparr>)"
| explicit: "client M = None \<Longrightarrow> mon_step (Explicit e) M (UnRegister e M)"
| fire_first: "(e, i) \<in> set (alive M) \<Longrightarrow> i \<notin> isCalled M \<Longrightarrow>
    mon_step Fire M (M\<lparr>isCalled := insert i (isCalled M), running := (e, i, False) # running M\<rparr>)"
| fire_again: "(e, i) \<in> set (alive M) \<Longrightarrow> i \<in> isCalled M \<Longrightarrow> mon_step Fire M M"
| user_callback: "running M = xs @ (e, i, False) # ys \<Longrightarrow>
    mon_step UserCallback M (M\<lparr>running := xs @ (e, i, True) # ys, called := i # called M\<rparr>)"
| callback_done: "running M = xs @ (e, i, True) # ys \<Longrightarrow>
    mon_step CallbackDone M (UnRegister e (M\<lparr>running := xs @ ys\<rparr>))"

inductive mon_reach :: "label list \<Rightarrow> Monitor \<Rightarrow> bool" where
  start: "mon_reach [] ConnectionMonitor_new"
| step: "mon_reach ls M \<Longrightarrow> mon_step l M M' \<Longrightarrow> mon_reach (l # ls) M'"

inductive_cases mon_stepE: "mon_step l M M'"

inductive_simps mon_reach_Nil: "mon_reach [] M"

section \<open>A callback is called at most once\<close>

lemma same_key_iff [simp]: "same_key e f \<longleftrightarrow> m_uuid e = m_uuid f"
  by (auto simp: same_key_def EndPointInfo_less_def)

lemma alive_simps [simp]:
  "candidate M = None \<Longrightarrow> alive M = m_remoteMonitors M"
  "candidate M = Some r \<Longrightarrow> alive M = r # m_remoteMonitors M"
  by (simp_all add: alive_def)

lemma alive_cong: "candidate M' = candidate M \<Longrightarrow> m_remoteMonitors M' = m_remoteMonitors M \<Longrightarrow> alive M' = alive M"
  by (simp add: alive_def)

definition mon_inv :: "Monitor \<Rightarrow> bool" where
  "mon_inv M \<longleftrightarrow> distinct (map (m_uuid \<circ> fst) (m_remoteMonitors M)) \<and> distinct (map snd (alive M)) \<and>
     (\<forall>(e, i)\<in>set (alive M). i < registrations M) \<and> (\<forall>i\<in>isCalled M. i < registrations M) \<and>
     distinct (running_ids M) \<and> (\<forall>(e, i, b)\<in>set (running M). (e, i) \<in> set (alive M) \<and> i \<in> isCalled M \<and> (b \<longleftrightarrow> i \<in> set (called M))) \<and>
     distinct (called M) \<and> set (called M) \<subseteq> isCalled M \<and> (\<forall>e i. candidate M = Some (e, i) \<longrightarrow> client M = Some ([], Register e))"

lemma mon_invD:
  assumes "mon_inv M"
  shows "distinct (map (m_uuid \<circ> fst) (m_remoteMonitors M))" and "distinct (map snd (alive M))"
    and "(e, i) \<in> set (alive M) \<Longrightarrow> i < registrations M" and "i \<in> isCalled M \<Longrightarrow> i < registrations M"
    and "distinct (running_ids M)" and "(e, i, b) \<in> set (running M) \<Longrightarrow> (e, i) \<in> set (alive M)"
    and "(e, i, b) \<in> set (running M) \<Longrightarrow> i \<in> isCalled M" and "(e, i, b) \<in> set (running M) \<Longrightarrow> b \<longleftrightarrow> i \<in> set (called M)"
    and "distinct (called M)" and "set (called M) \<subseteq> isCalled M" and "candidate M = Some (e, i) \<Longrightarrow> client M = Some ([], Register e)"
  using assms unfolding mon_inv_def by (blast, blast, blast, blast, blast, blast, blast, blast, blast, blast, blast)

lemma mon_invI:
  assumes "distinct (map (m_uuid \<circ> fst) (m_remoteMonitors M))" and "distinct (map snd (alive M))"
    and "\<And>e i. (e, i) \<in> set (alive M) \<Longrightarrow> i < registrations M" and "\<And>i. i \<in> isCalled M \<Longrightarrow> i < registrations M"
    and "distinct (running_ids M)"
    and "\<And>e i b. (e, i, b) \<in> set (running M) \<Longrightarrow> (e, i) \<in> set (alive M) \<and> i \<in> isCalled M \<and> (b \<longleftrightarrow> i \<in> set (called M))"
    and "distinct (called M)" and "set (called M) \<subseteq> isCalled M"
    and "\<And>e i. candidate M = Some (e, i) \<Longrightarrow> client M = Some ([], Register e)"
  shows "mon_inv M"
  using assms unfolding mon_inv_def by blast

lemma monitors_find_Some:
  assumes "distinct (map (m_uuid \<circ> fst) ms)"
  shows "monitors_find ms e = Some i \<longleftrightarrow> (\<exists>f. (f, i) \<in> set ms \<and> m_uuid f = m_uuid e)"
  using assms by (induction ms) (auto simp: monitors_find_def rev_image_eqI image_iff)

lemma monitors_find_None: "monitors_find ms e = None \<longleftrightarrow> (\<forall>(f, i)\<in>set ms. m_uuid f \<noteq> m_uuid e)"
  by (induction ms) (auto simp: monitors_find_def)

lemma in_monitors_erase [simp]: "(f, i) \<in> set (monitors_erase e ms) \<longleftrightarrow> (f, i) \<in> set ms \<and> m_uuid f \<noteq> m_uuid e"
  by (auto simp: monitors_erase_def)

lemma distinct_monitors_erase: "distinct (map g ms) \<Longrightarrow> distinct (map g (monitors_erase e ms))"
  by (simp add: monitors_erase_def distinct_map_filter)

lemma in_running_ids: "(e, i, b) \<in> set (running M) \<Longrightarrow> i \<in> set (running_ids M)"
  by (force simp: running_ids_def)

lemma running_ids_cong: "running M' = running M \<Longrightarrow> running_ids M' = running_ids M"
  by (simp add: running_ids_def)

text \<open>Taking the queue, counting and calls of \<open>UnRegister\<close> leave the registrations alone.\<close>

lemma mon_inv_cong:
  assumes "mon_inv M" and "m_remoteMonitors M' = m_remoteMonitors M" "candidate M' = candidate M" "registrations M' = registrations M"
    and "isCalled M' = isCalled M" "running M' = running M" "called M' = called M" and "candidate M = None \<or> client M' = client M"
  shows "mon_inv M'"
  using assms mon_invD [OF assms(1)] unfolding mon_inv_def alive_def running_ids_def by auto

lemma mon_inv_destroy:
  assumes ok: "mon_inv M" and "candidate M = Some (e, i)" "i \<notin> set (running_ids M)"
  shows "mon_inv (M\<lparr>candidate := None, m_processWaiter := False, client := None\<rparr>)" (is "mon_inv ?M")
proof (rule mon_invI)
  note inv = mon_invD [OF ok]
  show "distinct (map snd (alive ?M))"
    using inv(2) assms(2) by simp
  show "j < registrations ?M" if "(f, j) \<in> set (alive ?M)" for f j
    using inv(3) [of f j] that assms(2) by simp
  show "(f, j) \<in> set (alive ?M) \<and> j \<in> isCalled ?M \<and> (b \<longleftrightarrow> j \<in> set (called ?M))" if "(f, j, b) \<in> set (running ?M)" for f j b
    using inv(6,7,8) [of f j b] in_running_ids [of f j b M] that assms(2,3) by auto
qed (use mon_invD [OF ok] in \<open>simp_all add: running_ids_def\<close>)


lemma mon_inv_idle: "mon_inv M \<Longrightarrow> (\<And>e. client M \<noteq> Some ([], Register e)) \<Longrightarrow> candidate M = None"
  by (cases "candidate M") (auto dest: mon_invD(11))

lemma mon_inv_erase:
  assumes ok: "mon_inv M" and hyps: "client M = Some (e # es, p)" "case monitors_find (m_remoteMonitors M) e of None \<Rightarrow> True | Some i \<Rightarrow> i \<notin> set (running_ids M)"
  shows "mon_inv (M\<lparr>m_remoteMonitors := monitors_erase e (m_remoteMonitors M), client := Some (es, p)\<rparr>)" (is "mon_inv ?M")
proof -
  note inv = mon_invD [OF ok]
  have idle: "candidate M = None"
    using mon_inv_idle [OF ok] hyps(1) by simp
  have kept: "m_uuid f \<noteq> m_uuid e" if "(f, i, b) \<in> set (running M)" for f i b
  proof
    assume "m_uuid f = m_uuid e"
    moreover have "(f, i) \<in> set (m_remoteMonitors M)"
      using inv(6) [OF that] idle by simp
    ultimately have "monitors_find (m_remoteMonitors M) e = Some i"
      using monitors_find_Some [OF inv(1)] by blast
    then show False
      using hyps(2) in_running_ids [OF that] by simp
  qed
  show ?thesis
  proof (rule mon_invI)
    show "(f, i) \<in> set (alive ?M) \<and> i \<in> isCalled ?M \<and> (b \<longleftrightarrow> i \<in> set (called ?M))" if "(f, i, b) \<in> set (running ?M)" for f i b
      using inv(6,7,8) [of f i b] kept [of f i b] that idle by simp
  qed (use inv idle in \<open>auto simp: distinct_monitors_erase running_ids_def\<close>)
qed

lemma mon_inv_open_event:
  assumes ok: "mon_inv M" and hyps: "client M = Some ([], Register e)" "candidate M = None"
  shows "mon_inv (M\<lparr>candidate := Some (e, registrations M), m_processWaiter := False, registrations := Suc (registrations M)\<rparr>)" (is "mon_inv ?M")
proof -
  note inv = mon_invD [OF ok]
  show ?thesis
  proof (rule mon_invI)
    show "distinct (map snd (alive ?M))"
      using inv(2,3) hyps(2) by fastforce
    show "i < registrations ?M" if "(f, i) \<in> set (alive ?M)" for f i
      using inv(3) [of f i] that hyps(2) by auto
    show "i < registrations ?M" if "i \<in> isCalled ?M" for i
      using inv(4) [of i] that by simp
    show "(f, i) \<in> set (alive ?M) \<and> i \<in> isCalled ?M \<and> (b \<longleftrightarrow> i \<in> set (called ?M))" if "(f, i, b) \<in> set (running ?M)" for f i b
      using inv(6,7,8) [of f i b] that hyps(2) by simp
  qed (use inv hyps in \<open>simp_all add: running_ids_def\<close>)
qed

lemma mon_inv_registered:
  assumes ok: "mon_inv M" and hyps: "candidate M = Some (e, i)" "monitors_find (m_remoteMonitors M) e = None"
  shows "mon_inv (M\<lparr>m_remoteMonitors := m_remoteMonitors M @ [(e, i)], candidate := None, m_processWaiter := False, client := None\<rparr>)" (is "mon_inv ?M")
proof -
  note inv = mon_invD [OF ok]
  have same: "set (alive ?M) = set (alive M)"
    using hyps(1) by simp
  show ?thesis
  proof (rule mon_invI)
    show "distinct (map (m_uuid \<circ> fst) (m_remoteMonitors ?M))"
      using inv(1) hyps(2) by (fastforce simp: monitors_find_None)
    show "distinct (map snd (alive ?M))"
      using inv(2) hyps(1) by simp
    show "j < registrations ?M" if "(f, j) \<in> set (alive ?M)" for f j
      using inv(3) [of f j] that unfolding same by simp
    show "(f, j) \<in> set (alive ?M) \<and> j \<in> isCalled ?M \<and> (b \<longleftrightarrow> j \<in> set (called ?M))" if "(f, j, b) \<in> set (running ?M)" for f j b
      using inv(6,7,8) [of f j b] that same by simp
  qed (use inv in \<open>simp_all add: running_ids_def\<close>)
qed

lemma mon_inv_user_callback:
  assumes ok: "mon_inv M" and hyps: "running M = xs @ (e, i, False) # ys"
  shows "mon_inv (M\<lparr>running := xs @ (e, i, True) # ys, called := i # called M\<rparr>)" (is "mon_inv ?M")
proof -
  note inv = mon_invD [OF ok]
  have ids: "i \<notin> (fst \<circ> snd) ` set (xs @ ys)" "distinct (map (fst \<circ> snd) (xs @ (e, i, True) # ys))"
    using inv(5) by (simp_all add: running_ids_def hyps image_Un)
  have i: "(e, i) \<in> set (alive M)" "i \<in> isCalled M" "i \<notin> set (called M)"
    using inv(6,7,8) [of e i False] hyps by simp_all
  have same: "alive ?M = alive M"
    by (rule alive_cong) simp_all
  show ?thesis
  proof (rule mon_invI)
    fix f j b
    assume new: "(f, j, b) \<in> set (running ?M)"
    show "(f, j) \<in> set (alive ?M) \<and> j \<in> isCalled ?M \<and> (b \<longleftrightarrow> j \<in> set (called ?M))"
    proof (cases "(f, j, b) = (e, i, True)")
      case False
      then have "(f, j, b) \<in> set (xs @ ys)"
        using new by auto
      then have "j \<noteq> i" "(f, j, b) \<in> set (running M)"
        using ids(1) hyps by (force, auto)
      then show ?thesis
        using inv(6,7,8) [of f j b] same by simp
    qed (use i same in simp)
  next
    show "distinct (running_ids ?M)"
      using ids(2) by (simp add: running_ids_def)
  qed (use inv i same in simp_all)
qed

lemma mon_inv_callback_done:
  assumes ok: "mon_inv M" and hyps: "running M = xs @ (e, i, True) # ys"
  shows "mon_inv (UnRegister e (M\<lparr>running := xs @ ys\<rparr>))" (is "mon_inv ?M")
proof -
  note inv = mon_invD [OF ok]
  have same: "alive ?M = alive M"
    by (rule alive_cong) (simp_all add: UnRegister_def)
  show ?thesis
  proof (rule mon_invI)
    show "distinct (running_ids ?M)"
      using inv(5) hyps by (simp add: running_ids_def UnRegister_def)
    show "(f, j) \<in> set (alive ?M) \<and> j \<in> isCalled ?M \<and> (b \<longleftrightarrow> j \<in> set (called ?M))" if "(f, j, b) \<in> set (running ?M)" for f j b
    proof -
      have "(f, j, b) \<in> set (running M)"
        using that hyps by (auto simp: UnRegister_def)
      then show ?thesis
        using inv(6,7,8) [of f j b] same by (simp add: UnRegister_def)
    qed
  qed (use inv same in \<open>simp_all add: UnRegister_def\<close>)
qed

lemma mon_step_inv: "mon_step l M M' \<Longrightarrow> mon_inv M \<Longrightarrow> mon_inv M'"
proof (induction rule: mon_step.induct)
  case (begin_op M p)
  then show ?case
    by (intro mon_inv_cong [OF begin_op.prems]) (simp_all add: mon_inv_idle)
next
  case (fire_first e i M)
  let ?M = "M\<lparr>isCalled := insert i (isCalled M), running := (e, i, False) # running M\<rparr>"
  note inv = mon_invD [OF fire_first.prems]
  have i: "i \<notin> set (called M)" "i \<notin> set (running_ids M)" "i < registrations M"
    using inv(10) fire_first.hyps(2) inv(7) inv(3) [OF fire_first.hyps(1)] by (auto simp: running_ids_def)
  have "alive ?M = alive M"
    by (rule alive_cong) simp_all
  then show ?case
    using inv i fire_first.hyps by (intro mon_invI) (auto simp: running_ids_def)
next
  case (count M)
  then show ?case
    by (intro mon_inv_cong [OF count.prems]) (simp_all add: mon_inv_idle)
next
  case (no_event M e h err x)
  then show ?case
    by (intro mon_inv_cong [OF no_event.prems]) simp_all
next
  case (open_process M e i)
  then show ?case
    by (intro mon_inv_cong [OF open_process.prems]) simp_all
next
  case (explicit M e)
  then show ?case
    by (intro mon_inv_cong [OF explicit.prems]) (simp_all add: UnRegister_def)
qed (simp_all add: mon_inv_destroy mon_inv_erase mon_inv_open_event mon_inv_registered mon_inv_user_callback mon_inv_callback_done)

lemma mon_reach_inv: "mon_reach ls M \<Longrightarrow> mon_inv M"
proof (induction rule: mon_reach.induct)
  case start
  then show ?case
    by (simp add: mon_inv_def ConnectionMonitor_new_def running_ids_def)
qed (rule mon_step_inv)

section \<open>No registration is lost\<close>

text \<open>
  The end points that are taken for erasure, or will be. While nobody calls \<open>UnRegister\<close> but the callbacks,
  they are those of registrations whose callback has returned, unless a monitor in the making has the
  key of another one: \<open>Register\<close> is then bound to throw.
\<close>

definition unregistered :: "Monitor \<Rightarrow> EndPointInfo list" where
  "unregistered M = m_unregisteredEndPoints M @ (case client M of None \<Rightarrow> [] | Some (es, p) \<Rightarrow> es)"

definition covered :: "Monitor \<Rightarrow> bool" where
  "covered M \<longleftrightarrow> (\<forall>i<registrations M. i \<in> snd ` set (alive M) \<or> i \<in> set (called M))"

definition doomed :: "Monitor \<Rightarrow> bool" where
  "doomed M \<longleftrightarrow> (\<exists>e i. candidate M = Some (e, i) \<and> monitors_find (m_remoteMonitors M) e \<noteq> None)"

definition finished :: "Monitor \<Rightarrow> EndPointInfo \<Rightarrow> bool" where
  "finished M e \<longleftrightarrow> (\<exists>f i. (f, i) \<in> set (alive M) \<and> m_uuid f = m_uuid e \<and> i \<in> set (called M) \<and> i \<notin> set (running_ids M))"

definition queue_ok :: "Monitor \<Rightarrow> bool" where
  "queue_ok M \<longleftrightarrow> distinct (map m_uuid (unregistered M)) \<and> (\<forall>e\<in>set (unregistered M). finished M e)"

definition done_inv :: "Monitor \<Rightarrow> bool" where
  "done_inv M \<longleftrightarrow> covered M \<and> (doomed M \<or> queue_ok M)"

lemma not_doomed_distinct:
  assumes "mon_inv M" "\<not> doomed M"
  shows "distinct (map (m_uuid \<circ> fst) (alive M))"
proof (cases "candidate M")
  case (Some r)
  then have "monitors_find (m_remoteMonitors M) (fst r) = None"
    using assms(2) by (cases r) (simp add: doomed_def)
  then show ?thesis
    using mon_invD(1) [OF assms(1)] Some by (fastforce simp: monitors_find_None)
qed (use mon_invD(1) [OF assms(1)] in simp)

lemma same_registration:
  assumes "mon_inv M" "\<not> doomed M" and "(e, i) \<in> set (alive M)" "(f, j) \<in> set (alive M)" "m_uuid e = m_uuid f"
  shows "j = i"
  using monitors_find_Some [OF not_doomed_distinct [OF assms(1,2)]] assms(3-5) by (metis option.inject)

lemma doomed_cong: "candidate M' = candidate M \<Longrightarrow> m_remoteMonitors M' = m_remoteMonitors M \<Longrightarrow> doomed M' = doomed M"
  by (simp add: doomed_def)

text \<open>The steps that leave the queue and the registrations as they are.\<close>

lemma done_inv_running:
  assumes ok: "done_inv M" and same: "unregistered M' = unregistered M" "m_remoteMonitors M' = m_remoteMonitors M"
      "candidate M' = candidate M" "registrations M' = registrations M" and grows: "set (called M) \<subseteq> set (called M')"
    and ids: "\<And>i. i \<in> set (called M) \<Longrightarrow> i \<in> set (running_ids M') \<Longrightarrow> i \<in> set (running_ids M)"
  shows "done_inv M'"
proof -
  have alive: "alive M' = alive M"
    by (rule alive_cong [OF same(3,2)])
  have "covered M'"
    using ok same(4) grows unfolding done_inv_def covered_def alive by auto
  moreover have "finished M' e" if "finished M e" for e
    using that grows ids unfolding finished_def alive by blast
  then have "queue_ok M \<Longrightarrow> queue_ok M'"
    unfolding queue_ok_def same(1) by blast
  ultimately show ?thesis
    using ok doomed_cong [OF same(3,2)] unfolding done_inv_def by blast
qed

lemma erase_covered:
  assumes inv: "mon_inv M" "\<not> doomed M" "candidate M = None" and cov: "covered M" and fin: "finished M e"
    and M': "m_remoteMonitors M' = monitors_erase e (m_remoteMonitors M)" "candidate M' = None"
      "registrations M' = registrations M" "called M' = called M"
  shows "covered M'"
  unfolding covered_def
proof (intro allI impI)
  fix i
  assume "i < registrations M'"
  then consider "i \<in> set (called M)" | f where "(f, i) \<in> set (m_remoteMonitors M)" "i \<notin> set (called M)"
    using cov inv(3) M'(3) unfolding covered_def by fastforce
  then show "i \<in> snd ` set (alive M') \<or> i \<in> set (called M')"
  proof cases
    case 2
    obtain f' i' where "(f', i') \<in> set (alive M)" "m_uuid f' = m_uuid e" "i' \<in> set (called M)"
      using fin unfolding finished_def by blast
    then have "m_uuid f \<noteq> m_uuid e"
      using same_registration [OF inv(1,2), of f' i' f i] 2 inv(3) by auto
    then have "(f, i) \<in> set (alive M')"
      using 2 M'(1,2) by simp
    then show ?thesis
      by (metis image_eqI snd_conv)
  qed (simp add: M'(4))
qed

lemma erase_queue:
  assumes ok: "queue_ok M" and idle: "candidate M = None" "candidate M' = None"
    and un: "mset (unregistered M) = add_mset e (mset (unregistered M'))"
    and M': "m_remoteMonitors M' = monitors_erase e (m_remoteMonitors M)" "called M' = called M" "running M' = running M"
  shows "queue_ok M'"
proof -
  have "mset (map m_uuid (unregistered M)) = mset (m_uuid e # map m_uuid (unregistered M'))"
    using un by (simp only: mset_map image_mset_add_mset mset.simps)
  then have dist: "distinct (m_uuid e # map m_uuid (unregistered M'))"
    using ok mset_eq_imp_distinct_iff unfolding queue_ok_def by metis
  have members: "set (unregistered M') \<subseteq> set (unregistered M)"
    using un by (metis set_mset_add_mset_insert set_mset_mset subset_insertI)
  have "finished M' e'" if "e' \<in> set (unregistered M')" for e'
  proof -
    have "finished M e'"
      using ok members that unfolding queue_ok_def by blast
    then obtain f i where "(f, i) \<in> set (m_remoteMonitors M)" "m_uuid f = m_uuid e'" "i \<in> set (called M)" "i \<notin> set (running_ids M)"
      using idle unfolding finished_def by auto
    moreover have "m_uuid e' \<noteq> m_uuid e"
      using dist that by (metis distinct.simps(2) image_eqI set_map)
    ultimately show ?thesis
      using idle M' running_ids_cong [OF M'(3)] unfolding finished_def by (intro exI [of _ f] exI [of _ i]) simp
  qed
  then show ?thesis
    using dist by (simp add: queue_ok_def)
qed

lemma callback_queue:
  assumes inv: "mon_inv M" "\<not> doomed M" and ok: "queue_ok M" and run: "running M = xs @ (e, i, True) # ys"
  shows "queue_ok (UnRegister e (M\<lparr>running := xs @ ys\<rparr>))" (is "queue_ok ?M")
proof -
  note inv' = mon_invD [OF inv(1)]
  have now: "(e, i) \<in> set (alive M)" "i \<in> set (called M)" "i \<in> set (running_ids M)" "i \<notin> set (running_ids ?M)"
    using inv'(6,8) [of e i True] inv'(5) run by (auto simp: running_ids_def UnRegister_def)
  have ids: "set (running_ids ?M) \<subseteq> set (running_ids M)" and alive: "alive ?M = alive M"
    by (auto simp: running_ids_def UnRegister_def run intro: alive_cong)
  have un: "mset (unregistered ?M) = add_mset e (mset (unregistered M))"
    by (simp add: unregistered_def UnRegister_def split: option.split)
  have new: "m_uuid e \<notin> m_uuid ` set (unregistered M)"
  proof
    assume "m_uuid e \<in> m_uuid ` set (unregistered M)"
    then obtain e' where e': "e' \<in> set (unregistered M)" "m_uuid e' = m_uuid e"
      by force
    then have "finished M e'"
      using ok unfolding queue_ok_def by blast
    then obtain f j where "(f, j) \<in> set (alive M)" "m_uuid f = m_uuid e'" "j \<notin> set (running_ids M)"
      unfolding finished_def by blast
    then show False
      using same_registration [OF inv now(1), of f j] e'(2) now(3) by simp
  qed
  have "mset (map m_uuid (unregistered ?M)) = mset (m_uuid e # map m_uuid (unregistered M))"
    using un by (simp only: mset_map image_mset_add_mset mset.simps)
  then have "distinct (map m_uuid (unregistered ?M))"
    using ok new mset_eq_imp_distinct_iff unfolding queue_ok_def by (metis distinct.simps(2) set_map)
  moreover have "finished ?M e'" if "e' \<in> set (unregistered ?M)" for e'
  proof -
    have "e' = e \<or> e' \<in> set (unregistered M)"
      using un that by (metis insert_iff set_mset_add_mset_insert set_mset_mset)
    then have "finished M e' \<or> e' = e"
      using ok unfolding queue_ok_def by blast
    then show ?thesis
      using now ids unfolding finished_def alive by (auto simp: UnRegister_def)
  qed
  ultimately show ?thesis
    unfolding queue_ok_def by blast
qed

definition undisturbed :: "label \<Rightarrow> bool" where
  "undisturbed l = (case l of Explicit e \<Rightarrow> False | Finish (Inl x) \<Rightarrow> False | _ \<Rightarrow> True)"

lemma mon_step_done: "mon_step l M M' \<Longrightarrow> mon_inv M \<Longrightarrow> done_inv M \<Longrightarrow> undisturbed l \<Longrightarrow> done_inv M'"
proof (induction rule: mon_step.induct)
  case (begin_op M p)
  then show ?case
    by (intro done_inv_running [OF begin_op.prems(2)]) (simp_all add: unregistered_def running_ids_def)
next
  case (erase M e es p)
  let ?M = "M\<lparr>m_remoteMonitors := monitors_erase e (m_remoteMonitors M), client := Some (es, p)\<rparr>"
  have idle: "candidate M = None"
    using mon_inv_idle [OF erase.prems(1)] erase.hyps(1) by simp
  then have fine: "\<not> doomed M" "covered M" "queue_ok M"
    using erase.prems(2) by (auto simp: done_inv_def doomed_def)
  have un: "mset (unregistered M) = add_mset e (mset (unregistered ?M))"
    using erase.hyps(1) by (simp add: unregistered_def)
  then have "finished M e"
    using fine(3) unfolding queue_ok_def by (metis set_mset_mset union_single_eq_member)
  then have "covered ?M"
    using idle by (intro erase_covered [OF erase.prems(1) fine(1) idle fine(2)]) simp_all
  moreover have "queue_ok ?M"
    using idle by (intro erase_queue [OF fine(3) idle _ un]) simp_all
  ultimately show ?case
    by (simp add: done_inv_def)
next
  case (count M)
  then show ?case
    by (intro done_inv_running [OF count.prems(2)]) (simp_all add: unregistered_def running_ids_def)
next
  case (open_event M e)
  let ?M = "M\<lparr>candidate := Some (e, registrations M), m_processWaiter := False, registrations := Suc (registrations M)\<rparr>"
  have fine: "covered M" "queue_ok M"
    using open_event.prems(2) open_event.hyps(2) by (auto simp: done_inv_def doomed_def)
  have "covered ?M"
    using fine(1) open_event.hyps(2) by (auto simp: covered_def less_Suc_eq)
  moreover have "finished ?M f" if "finished M f" for f
    using that open_event.hyps(2) unfolding finished_def by (auto simp: running_ids_def)
  then have "queue_ok ?M"
    using fine(2) by (auto simp: queue_ok_def unregistered_def)
  ultimately show ?case
    by (simp add: done_inv_def)
next
  case (open_process M e i)
  then show ?case
    by (intro done_inv_running [OF open_process.prems(2)]) (simp_all add: unregistered_def running_ids_def)
next
  case (registered M e i)
  let ?M = "M\<lparr>m_remoteMonitors := m_remoteMonitors M @ [(e, i)], candidate := None, m_processWaiter := False, client := None\<rparr>"
  have same: "set (alive ?M) = set (alive M)"
    using registered.hyps(1) by simp
  have "covered M" "queue_ok M"
    using registered.prems(2) registered.hyps by (auto simp: done_inv_def doomed_def)
  moreover have "client M = Some ([], Register e)"
    using mon_invD(11) [OF registered.prems(1)] registered.hyps(1) by blast
  moreover have "finished ?M = finished M"
    unfolding finished_def same by (simp add: running_ids_def fun_eq_iff)
  ultimately show ?case
    unfolding done_inv_def covered_def queue_ok_def same by (simp add: unregistered_def)
next
  case (fire_first e i M)
  have "i \<notin> set (called M)"
    using mon_invD(10) [OF fire_first.prems(1)] fire_first.hyps(2) by blast
  then show ?case
    by (intro done_inv_running [OF fire_first.prems(2)]) (auto simp: unregistered_def running_ids_def)
next
  case (user_callback M xs e i ys)
  show ?case
    using user_callback.hyps
    by (intro done_inv_running [OF user_callback.prems(2)]) (auto simp: unregistered_def running_ids_def)
next
  case (callback_done M xs e i ys)
  let ?M = "UnRegister e (M\<lparr>running := xs @ ys\<rparr>)"
  have same: "candidate ?M = candidate M" "m_remoteMonitors ?M = m_remoteMonitors M"
    by (simp_all add: UnRegister_def)
  have "covered ?M"
    using callback_done.prems(2) unfolding done_inv_def covered_def alive_cong [OF same] by (simp add: UnRegister_def)
  moreover have "doomed M \<or> (\<not> doomed M \<and> queue_ok M)"
    using callback_done.prems(2) unfolding done_inv_def by blast
  ultimately show ?case
    using callback_queue [OF callback_done.prems(1) _ _ callback_done.hyps] doomed_cong [OF same]
    unfolding done_inv_def by blast
qed (simp_all add: undisturbed_def)

lemma mon_reach_done: "mon_reach ls M \<Longrightarrow> (\<forall>l\<in>set ls. undisturbed l) \<Longrightarrow> done_inv M"
proof (induction rule: mon_reach.induct)
  case start
  then show ?case
    by (simp add: done_inv_def covered_def queue_ok_def ConnectionMonitor_new_def unregistered_def)
next
  case (step ls M l M')
  then show ?case
    using mon_step_done [OF step.hyps(2) mon_reach_inv [OF step.hyps(1)]] by simp
qed

section \<open>Two runs\<close>

lemma reach_to: "mon_reach ls M \<Longrightarrow> mon_step l M M'' \<Longrightarrow> M'' = M' \<Longrightarrow> mon_reach (l # ls) M'"
  using mon_reach.step by blast

lemma count_to:
  "client M = Some ([], GetRemoteConnectionsCount) \<Longrightarrow> n = length (m_remoteMonitors M) \<Longrightarrow>
    mon_step (Finish (Inr (Some n))) M (M\<lparr>client := None\<rparr>)"
  using mon_step.count by blast

text \<open>An end point is registered, its event is set, its callback is called and it is queued.\<close>

lemma trace_registered:
  fixes A :: EndPointInfo
  shows "mon_reach [Finish (Inr None), OpenProcess, Open, Begin] (Monitor.make [(A, 0)] [] None False {} [] [] 1 None)"
proof -
  have r1: "mon_reach [Begin] (Monitor.make [] [] None False {} [] [] 0 (Some ([], Register A)))"
    by (rule reach_to [OF mon_reach.start], rule mon_step.begin_op [where p = "Register A"])
      (simp_all add: ConnectionMonitor_new_def Monitor.defs)
  have r2: "mon_reach [Open, Begin] (Monitor.make [] [] (Some (A, 0)) False {} [] [] 1 (Some ([], Register A)))"
    by (rule reach_to [OF r1], rule mon_step.open_event [where e = A]) (simp_all add: Monitor.defs)
  have r3: "mon_reach [OpenProcess, Open, Begin] (Monitor.make [] [] (Some (A, 0)) True {} [] [] 1 (Some ([], Register A)))"
    by (rule reach_to [OF r2], rule mon_step.open_process [where e = A and i = 0]) (simp_all add: Monitor.defs)
  show ?thesis
    by (rule reach_to [OF r3], rule mon_step.registered [where e = A and i = 0]) (simp_all add: Monitor.defs monitors_find_def)
qed

lemma trace_called:
  fixes A :: EndPointInfo
  shows "mon_reach [UserCallback, Fire, Finish (Inr None), OpenProcess, Open, Begin] (Monitor.make [(A, 0)] [] None False {0} [(A, 0, True)] [0] 1 None)"
proof -
  have r3: "mon_reach [Fire, Finish (Inr None), OpenProcess, Open, Begin] (Monitor.make [(A, 0)] [] None False {0} [(A, 0, False)] [] 1 None)"
    by (rule reach_to [OF trace_registered], rule mon_step.fire_first [where e = A and i = 0])
      (simp_all add: Monitor.defs alive_def)
  show ?thesis
    by (rule reach_to [OF r3], rule mon_step.user_callback [where xs = "[]" and ys = "[]" and e = A and i = 0]) (simp_all add: Monitor.defs)
qed

lemma trace_of_one:
  "mon_reach [CallbackDone, UserCallback, Fire, Finish (Inr None), OpenProcess, Open, Begin]
     (Monitor.make [(\<lparr>m_pid = 1, m_uuid = 7\<rparr>, 0)] [\<lparr>m_pid = 1, m_uuid = 7\<rparr>] None False {0} [] [0] 1 None)"
  by (rule reach_to [OF trace_called], rule mon_step.callback_done [where xs = "[]" and ys = "[]" and i = 0])
    (simp_all add: Monitor.defs UnRegister_def)

text \<open>An end point is registered twice; the second registration throws, but has been called before.\<close>

lemma trace_of_duplicate:
  "mon_reach [Finish (Inr (Some 0)), Erase, Begin, Finish (Inl (RuntimeException ''Duplicate end point found.'')),
     CallbackDone, UserCallback, Fire, OpenProcess, Open, Begin, Finish (Inr None), OpenProcess, Open, Begin] (Monitor.make [] [] None False {1} [] [1] 2 None)"
proof -
  let ?A = "\<lparr>m_pid = 1, m_uuid = 7\<rparr> :: EndPointInfo" and ?ls = "[Finish (Inr None), OpenProcess, Open, Begin] :: label list"
  have r5: "mon_reach (Begin # ?ls) (Monitor.make [(?A, 0)] [] None False {} [] [] 1 (Some ([], Register ?A)))"
    by (rule reach_to [OF trace_registered], rule mon_step.begin_op [where p = "Register ?A"]) (simp_all add: Monitor.defs)
  have r5': "mon_reach (Open # Begin # ?ls) (Monitor.make [(?A, 0)] [] (Some (?A, 1)) False {} [] [] 2 (Some ([], Register ?A)))"
    by (rule reach_to [OF r5], rule mon_step.open_event [where e = ?A]) (simp_all add: Monitor.defs)
  have r6: "mon_reach (OpenProcess # Open # Begin # ?ls) (Monitor.make [(?A, 0)] [] (Some (?A, 1)) True {} [] [] 2 (Some ([], Register ?A)))"
    by (rule reach_to [OF r5'], rule mon_step.open_process [where e = ?A and i = 1]) (simp_all add: Monitor.defs)
  have r7: "mon_reach (Fire # OpenProcess # Open # Begin # ?ls)
      (Monitor.make [(?A, 0)] [] (Some (?A, 1)) True {1} [(?A, 1, False)] [] 2 (Some ([], Register ?A)))"
    by (rule reach_to [OF r6], rule mon_step.fire_first [where e = ?A and i = 1]) (simp_all add: Monitor.defs alive_def)
  have r8: "mon_reach (UserCallback # Fire # OpenProcess # Open # Begin # ?ls)
      (Monitor.make [(?A, 0)] [] (Some (?A, 1)) True {1} [(?A, 1, True)] [1] 2 (Some ([], Register ?A)))"
    by (rule reach_to [OF r7], rule mon_step.user_callback [where xs = "[]" and ys = "[]" and e = ?A and i = 1]) (simp_all add: Monitor.defs)
  have r9: "mon_reach (CallbackDone # UserCallback # Fire # OpenProcess # Open # Begin # ?ls)
      (Monitor.make [(?A, 0)] [?A] (Some (?A, 1)) True {1} [] [1] 2 (Some ([], Register ?A)))"
    by (rule reach_to [OF r8], rule mon_step.callback_done [where xs = "[]" and ys = "[]" and e = ?A and i = 1])
      (simp_all add: Monitor.defs UnRegister_def)
  have r10: "mon_reach (Finish (Inl (RuntimeException ''Duplicate end point found.'')) # CallbackDone # UserCallback # Fire # OpenProcess # Open # Begin # ?ls)
      (Monitor.make [(?A, 0)] [?A] None False {1} [] [1] 2 None)"
    by (rule reach_to [OF r9], rule mon_step.duplicate [where e = ?A and i = 1]) (simp_all add: Monitor.defs running_ids_def monitors_find_def)
  have r11: "mon_reach (Begin # Finish (Inl (RuntimeException ''Duplicate end point found.'')) # CallbackDone # UserCallback # Fire # OpenProcess # Open # Begin # ?ls)
      (Monitor.make [(?A, 0)] [] None False {1} [] [1] 2 (Some ([?A], GetRemoteConnectionsCount)))"
    by (rule reach_to [OF r10], rule mon_step.begin_op [where p = GetRemoteConnectionsCount]) (simp_all add: Monitor.defs)
  have r12: "mon_reach (Erase # Begin # Finish (Inl (RuntimeException ''Duplicate end point found.'')) # CallbackDone # UserCallback # Fire # OpenProcess # Open # Begin # ?ls)
      (Monitor.make [] [] None False {1} [] [1] 2 (Some ([], GetRemoteConnectionsCount)))"
    by (rule reach_to [OF r11], rule mon_step.erase [where e = ?A and es = "[]" and p = GetRemoteConnectionsCount])
      (simp_all add: Monitor.defs running_ids_def monitors_find_def monitors_erase_def)
  show ?thesis
    by (rule reach_to [OF r12], rule count_to) (simp_all add: Monitor.defs)
qed

section \<open>Properties\<close>

text \<open>C29: The callback of a registration is called at most once, and only while its waiters live: a
  registration is never destroyed while a callback of it runs.
\<close>

theorem callback_at_most_once:
  assumes "mon_reach ls M"
  shows "distinct (called M) \<and> (\<forall>e i b. (e, i, b) \<in> set (running M) \<longrightarrow> (e, i) \<in> set (alive M)) \<and>
    distinct (map snd (alive M)) \<and> distinct (map (m_uuid \<circ> fst) (m_remoteMonitors M))"
  using mon_reach_inv [OF assms] unfolding mon_inv_def by blast

theorem callback_at_most_once_witness:
  "\<exists>ls M. mon_reach ls M \<and> called M = [0] \<and> m_unregisteredEndPoints M = [\<lparr>m_pid = 1, m_uuid = 7\<rparr>] \<and> distinct (called M)"
  using trace_of_one callback_at_most_once [OF trace_of_one] by (intro exI conjI) (auto simp: Monitor.defs)

text \<open>C30: As long as nobody but the callbacks calls \<open>UnRegister\<close> and no \<open>Register\<close> throws, every registration is
  monitored or has had its callback called: none is lost to the deferred removals.
\<close>

theorem no_registration_lost:
  assumes "mon_reach ls M" and "\<And>e. Explicit e \<notin> set ls" and "\<And>x. Finish (Inl x) \<notin> set ls" and "i < registrations M"
  shows "i \<in> snd ` set (alive M) \<or> i \<in> set (called M)"
proof -
  have "\<forall>l\<in>set ls. undisturbed l"
    using assms(2,3) by (auto simp: undisturbed_def split: label.split sum.split)
  then show ?thesis
    using mon_reach_done [OF assms(1)] assms(4) by (simp add: done_inv_def covered_def)
qed

theorem no_registration_lost_witness:
  "\<exists>ls M. mon_reach ls M \<and> registrations M = 1 \<and> (0 \<in> snd ` set (alive M) \<or> 0 \<in> set (called M))"
  using trace_of_one no_registration_lost [OF trace_of_one, of 0] by (intro exI conjI) (auto simp: Monitor.defs)

text \<open>When \<open>Register\<close> throws, a registration can be lost: registering an end point again opens its handles
  before the key is found to be there, and if the end point is gone by then, the callback of the second
  registration is called although it throws, and removes the first, whose own callback never comes.
\<close>

theorem duplicate_loses_registration:
  "\<exists>ls M. mon_reach ls M \<and> (\<forall>e. Explicit e \<notin> set ls) \<and> Finish (Inr None) \<in> set ls \<and>
     registrations M = 2 \<and> called M = [1] \<and> alive M = [] \<and> running M = [] \<and> client M = None"
  using trace_of_duplicate by (intro exI conjI, assumption) (simp_all add: Monitor.defs alive_def)

end
