(* ===== verification/L4_MonitorLife.thy ===== *)
theory L4_MonitorLife
  imports L4_Connection
begin

text \<open>
  The end of a connection monitor of \<open>src/Interprocess/Connection/ConnectionMonitor.cpp\<close>. The client holds a
  \<open>std::shared_ptr\<close> to the monitor, the callbacks a \<open>std::weak_ptr\<close> that they lock to queue their end point;
  whoever drops the last reference runs the destructor, which waits for the callbacks. The steps of
  \<open>L4_Connection\<close> are refined to those references.
\<close>

section \<open>State and steps\<close>

text \<open>
  Where a callback is once the callback of the user has returned: before \<open>thisWeakPtr.lock()\<close>, with the
  reference and before or after \<open>UnRegister\<close>, without it, or in the destructor of the monitor.
\<close>

datatype callback_pc = Locking | Holding | Queued | Leaving | Destroying

datatype destroyer = ByClient | ByCallback nat

text \<open>\<open>owned\<close> says whether the client has its reference, \<open>gone\<close> that the destructor has returned.\<close>

record Lifetime =
  monitor :: Monitor
  owned :: bool
  pc :: "nat \<Rightarrow> callback_pc"
  destroyer :: "destroyer option"
  gone :: bool

definition Lifetime_new :: Lifetime where
  "Lifetime_new = \<lparr>monitor = ConnectionMonitor_new, owned = True, pc = (\<lambda>_. Locking), destroyer = None, gone = False\<rparr>"

definition holders :: "Lifetime \<Rightarrow> nat list" where
  "holders s = filter (\<lambda>i. pc s i = Holding \<or> pc s i = Queued) (running_ids (monitor s))"

text \<open>The reference count of the shared pointers; the weak pointer can be locked while it is not 0.\<close>

definition use_count :: "Lifetime \<Rightarrow> nat" where
  "use_count s = (if owned s then 1 else 0) + length (holders s)"

definition of_client :: "label \<Rightarrow> bool" where
  "of_client l \<longleftrightarrow> l \<notin> {Fire, UserCallback, CallbackDone}"

definition drop_callback :: "nat \<Rightarrow> Monitor \<Rightarrow> Monitor" where
  "drop_callback i M = M\<lparr>running := filter (\<lambda>(f, j, b). j \<noteq> i) (running M)\<rparr>"

definition drop_monitor :: "nat \<Rightarrow> Monitor \<Rightarrow> Monitor" where
  "drop_monitor i M = M\<lparr>m_remoteMonitors := filter (\<lambda>(f, j). j \<noteq> i) (m_remoteMonitors M)\<rparr>"

text \<open>
  The client works through its reference. The waiters fire as long as they exist, also while the destructor
  runs, which destroys the members: each registration in turn, when no callback of it runs.
\<close>

inductive life_step :: "Lifetime \<Rightarrow> Lifetime \<Rightarrow> bool" where
  client_step: "owned s \<Longrightarrow> of_client l \<Longrightarrow> mon_step l (monitor s) M \<Longrightarrow> life_step s (s\<lparr>monitor := M\<rparr>)"
| waiter_step: "\<not> gone s \<Longrightarrow> l = Fire \<or> l = UserCallback \<Longrightarrow> mon_step l (monitor s) M \<Longrightarrow> life_step s (s\<lparr>monitor := M\<rparr>)"
| lock: "(e, i, True) \<in> set (running (monitor s)) \<Longrightarrow> pc s i = Locking \<Longrightarrow>
    life_step s (s\<lparr>pc := (pc s)(i := (if use_count s = 0 then Leaving else Holding))\<rparr>)"
| queue: "(e, i, True) \<in> set (running (monitor s)) \<Longrightarrow> pc s i = Holding \<Longrightarrow>
    life_step s (s\<lparr>monitor := UnRegister e (monitor s), pc := (pc s)(i := Queued)\<rparr>)"
| release: "(e, i, True) \<in> set (running (monitor s)) \<Longrightarrow> pc s i = Queued \<Longrightarrow> use_count s \<noteq> 1 \<Longrightarrow>
    life_step s (s\<lparr>pc := (pc s)(i := Leaving)\<rparr>)"
| release_last: "(e, i, True) \<in> set (running (monitor s)) \<Longrightarrow> pc s i = Queued \<Longrightarrow> use_count s = 1 \<Longrightarrow>
    life_step s (s\<lparr>pc := (pc s)(i := Destroying), destroyer := Some (ByCallback i)\<rparr>)"
| leave: "(e, i, True) \<in> set (running (monitor s)) \<Longrightarrow> pc s i = Leaving \<Longrightarrow>
    life_step s (s\<lparr>monitor := drop_callback i (monitor s)\<rparr>)"
| client_release: "owned s \<Longrightarrow> client (monitor s) = None \<Longrightarrow>
    life_step s (s\<lparr>owned := False, destroyer := (if use_count s = 1 then Some ByClient else None)\<rparr>)"
| destroy_waiters: "destroyer s \<noteq> None \<Longrightarrow> (e, i) \<in> set (m_remoteMonitors (monitor s)) \<Longrightarrow> i \<notin> set (running_ids (monitor s)) \<Longrightarrow>
    life_step s (s\<lparr>monitor := drop_monitor i (monitor s)\<rparr>)"
| destroyed: "destroyer s = Some d \<Longrightarrow> \<not> gone s \<Longrightarrow> m_remoteMonitors (monitor s) = [] \<Longrightarrow>
    life_step s (s\<lparr>gone := True, pc := (case d of ByClient \<Rightarrow> pc s | ByCallback i \<Rightarrow> (pc s)(i := Leaving))\<rparr>)"

inductive life_run :: "Lifetime \<Rightarrow> Lifetime \<Rightarrow> bool" where
  run_here: "life_run s s"
| run_step: "life_run s s' \<Longrightarrow> life_step s' s'' \<Longrightarrow> life_run s s''"

inductive_cases life_stepE: "life_step s s'"

section \<open>The invariant\<close>

text \<open>
  The destructor runs when the reference count is 0, and then no client is at work and no callback has
  a reference; the callback that runs it is one of the callbacks in progress.
\<close>

definition life_ok :: "Lifetime \<Rightarrow> bool" where
  "life_ok s \<longleftrightarrow> mon_inv (monitor s) \<and> (destroyer s = None \<longleftrightarrow> use_count s \<noteq> 0) \<and>
     (\<not> owned s \<longrightarrow> client (monitor s) = None) \<and> (gone s \<longrightarrow> destroyer s \<noteq> None \<and> m_remoteMonitors (monitor s) = []) \<and>
     (\<forall>e i. (e, i, False) \<in> set (running (monitor s)) \<longrightarrow> pc s i = Locking) \<and>
     (\<forall>i. i \<notin> isCalled (monitor s) \<longrightarrow> pc s i = Locking) \<and>
     (\<forall>i. pc s i = Destroying \<longrightarrow> destroyer s = Some (ByCallback i)) \<and>
     (\<forall>i. destroyer s = Some (ByCallback i) \<longrightarrow> \<not> gone s \<and> pc s i = Destroying \<and> i \<in> set (running_ids (monitor s)))"

lemma life_okD:
  assumes "life_ok s"
  shows "mon_inv (monitor s)" and "destroyer s = None \<longleftrightarrow> use_count s \<noteq> 0" and "\<not> owned s \<Longrightarrow> client (monitor s) = None"
    and "gone s \<Longrightarrow> destroyer s \<noteq> None" and "gone s \<Longrightarrow> m_remoteMonitors (monitor s) = []"
    and "(e, i, False) \<in> set (running (monitor s)) \<Longrightarrow> pc s i = Locking" and "i \<notin> isCalled (monitor s) \<Longrightarrow> pc s i = Locking"
    and "pc s i = Destroying \<Longrightarrow> destroyer s = Some (ByCallback i)"
    and "destroyer s = Some (ByCallback i) \<Longrightarrow> \<not> gone s \<and> pc s i = Destroying \<and> i \<in> set (running_ids (monitor s))"
  using assms unfolding life_ok_def by blast+

lemma life_okI:
  assumes "mon_inv (monitor s)" and "destroyer s = None \<longleftrightarrow> use_count s \<noteq> 0" and "\<not> owned s \<Longrightarrow> client (monitor s) = None"
    and "gone s \<Longrightarrow> destroyer s \<noteq> None \<and> m_remoteMonitors (monitor s) = []"
    and "\<And>e i. (e, i, False) \<in> set (running (monitor s)) \<Longrightarrow> pc s i = Locking" and "\<And>i. i \<notin> isCalled (monitor s) \<Longrightarrow> pc s i = Locking"
    and "\<And>i. pc s i = Destroying \<Longrightarrow> destroyer s = Some (ByCallback i)"
    and "\<And>i. destroyer s = Some (ByCallback i) \<Longrightarrow> \<not> gone s \<and> pc s i = Destroying \<and> i \<in> set (running_ids (monitor s))"
  shows "life_ok s"
  using assms unfolding life_ok_def by blast

lemma length_filter_upd:
  assumes "distinct xs" "i \<in> set xs" "\<And>j. j \<noteq> i \<Longrightarrow> P j = Q j"
  shows "length (filter Q xs) + (if P i then 1 else 0) = length (filter P xs) + (if Q i then 1 else 0)"
proof -
  obtain ys zs where xs: "xs = ys @ i # zs" "i \<notin> set ys" "i \<notin> set zs"
    using split_list [OF assms(2)] assms(1) by auto
  then have "filter Q ys = filter P ys" "filter Q zs = filter P zs"
    by (auto intro!: filter_cong simp: assms(3)) (metis assms(3))+
  then show ?thesis
    by (simp add: xs(1))
qed

text \<open>Moving the callback \<open>i\<close> changes the reference count by what it held and holds.\<close>

definition holds :: "callback_pc \<Rightarrow> nat" where
  "holds p = (if p = Holding \<or> p = Queued then 1 else 0)"

lemma holds_simps [simp]: "holds Locking = 0" "holds Holding = 1" "holds Queued = 1" "holds Leaving = 0" "holds Destroying = 0"
  by (simp_all add: holds_def)

lemma use_count_pc:
  assumes "mon_inv (monitor s)" "i \<in> set (running_ids (monitor s))"
  shows "use_count (s\<lparr>pc := (pc s)(i := p)\<rparr>) + holds (pc s i) = use_count s + holds p"
  using length_filter_upd [OF mon_invD(5) [OF assms(1)] assms(2), of "\<lambda>j. pc s j = Holding \<or> pc s j = Queued"
      "\<lambda>j. ((pc s)(i := p)) j = Holding \<or> ((pc s)(i := p)) j = Queued"]
  by (simp add: use_count_def holders_def holds_def split: if_splits)

lemma use_count_holder:
  assumes "i \<in> set (running_ids (monitor s))" "holds (pc s i) = 1"
  shows "use_count s \<noteq> 0"
proof -
  have "i \<in> set (holders s)"
    using assms by (auto simp: holders_def holds_def split: if_splits)
  then show ?thesis
    by (auto simp: use_count_def)
qed

lemma use_count_cong:
  assumes "owned s' = owned s" "pc s' = pc s" "running_ids (monitor s') = running_ids (monitor s)"
  shows "use_count s' = use_count s"
  using assms by (simp add: use_count_def holders_def)

lemma use_count_simps [simp]:
  "use_count (s\<lparr>destroyer := d\<rparr>) = use_count s" "use_count (s\<lparr>gone := g\<rparr>) = use_count s"
  "use_count (s\<lparr>owned := w, destroyer := d\<rparr>) = use_count (s\<lparr>owned := w\<rparr>)"
  "use_count (s\<lparr>pc := f, destroyer := d\<rparr>) = use_count (s\<lparr>pc := f\<rparr>)"
  by (simp_all add: use_count_def holders_def)

text \<open>What the steps of the monitor leave alone.\<close>

lemma client_mon_step:
  assumes "mon_step l M M'" "of_client l"
  shows "running M' = running M" "isCalled M' = isCalled M"
  using assms by (induction rule: mon_step.induct) (simp_all add: of_client_def UnRegister_def)

lemma waiter_mon_step:
  assumes "mon_step l M M'" "l = Fire \<or> l = UserCallback"
  shows "client M' = client M" "m_remoteMonitors M' = m_remoteMonitors M" "candidate M' = candidate M"
    "running_ids M' = running_ids M \<or> (\<exists>i. i \<notin> isCalled M \<and> running_ids M' = i # running_ids M)" "isCalled M \<subseteq> isCalled M'"
    "(e, i, False) \<in> set (running M') \<Longrightarrow> i \<notin> isCalled M \<or> (e, i, False) \<in> set (running M)"
  using assms by (induction rule: mon_step.induct) (auto simp: running_ids_def)

lemma mon_inv_UnRegister: "mon_inv M \<Longrightarrow> mon_inv (UnRegister e M)"
  by (erule mon_inv_cong) (simp_all add: UnRegister_def)

lemma mon_inv_drop_callback:
  assumes "mon_inv M"
  shows "mon_inv (drop_callback i M)"
proof -
  have "alive (drop_callback i M) = alive M"
    by (rule alive_cong) (simp_all add: drop_callback_def)
  moreover have "distinct (running_ids (drop_callback i M))"
    using mon_invD(5) [OF assms] by (simp add: drop_callback_def running_ids_def distinct_map_filter)
  ultimately show ?thesis
    using mon_invD [OF assms] by (intro mon_invI) (auto simp: drop_callback_def)
qed

lemma mon_inv_drop_monitor:
  assumes "mon_inv M" "client M = None" "i \<notin> set (running_ids M)"
  shows "mon_inv (drop_monitor i M)"
proof -
  note inv = mon_invD [OF assms(1)]
  have "candidate M = None"
    using inv(11) assms(2) by (cases "candidate M") auto
  then have alive: "alive (drop_monitor i M) = filter (\<lambda>(f, j). j \<noteq> i) (alive M)"
    by (simp add: drop_monitor_def)
  have "j \<noteq> i" if "(f, j, b) \<in> set (running M)" for f j b
    using in_running_ids [OF that] assms(3) by blast
  then have run: "(f, j) \<in> set (alive (drop_monitor i M)) \<and> j \<in> isCalled M \<and> (b \<longleftrightarrow> j \<in> set (called M))"
    if "(f, j, b) \<in> set (running M)" for f j b
    using inv(6,7,8) [OF that] that by (auto simp: alive)
  have "running_ids (drop_monitor i M) = running_ids M"
    by (simp add: drop_monitor_def running_ids_def)
  then show ?thesis
  proof (intro mon_invI)
    show "distinct (map snd (alive (drop_monitor i M)))"
      using inv(2) by (simp add: alive distinct_map_filter)
    show "j < registrations (drop_monitor i M)" if "(f, j) \<in> set (alive (drop_monitor i M))" for f j
      using inv(3) [of f j] that by (simp add: alive) (simp add: drop_monitor_def)
  qed (use inv run in \<open>simp_all add: drop_monitor_def distinct_map_filter\<close>)
qed

lemma in_drop_callback [simp]: "(e, j, b) \<in> set (running (drop_callback i M)) \<longleftrightarrow> (e, j, b) \<in> set (running M) \<and> j \<noteq> i"
  by (auto simp: drop_callback_def)

lemma running_ids_drop_callback [simp]: "running_ids (drop_callback i M) = filter (\<lambda>j. j \<noteq> i) (running_ids M)"
  by (auto simp: drop_callback_def running_ids_def filter_map o_def intro!: arg_cong [of _ _ "map _"] filter_cong)

lemma drop_callback_simps [simp]:
  "client (drop_callback i M) = client M" "m_remoteMonitors (drop_callback i M) = m_remoteMonitors M" "isCalled (drop_callback i M) = isCalled M"
  by (simp_all add: drop_callback_def)

lemma UnRegister_simps [simp]:
  "client (UnRegister e M) = client M" "m_remoteMonitors (UnRegister e M) = m_remoteMonitors M" "isCalled (UnRegister e M) = isCalled M"
  "running (UnRegister e M) = running M" "running_ids (UnRegister e M) = running_ids M"
  by (simp_all add: UnRegister_def running_ids_def)

lemma drop_monitor_simps [simp]:
  "client (drop_monitor i M) = client M" "isCalled (drop_monitor i M) = isCalled M" "running (drop_monitor i M) = running M"
  "running_ids (drop_monitor i M) = running_ids M" "candidate (drop_monitor i M) = candidate M"
  by (simp_all add: drop_monitor_def running_ids_def)

text \<open>A step of one callback that is past the callback of the user.\<close>

lemma life_ok_move:
  assumes ok: "life_ok s" and i: "(e, i, True) \<in> set (running (monitor s))"
    and p: "p \<noteq> Destroying" "pc s i \<noteq> Destroying" and count: "use_count s + holds p = holds (pc s i) \<longleftrightarrow> use_count s = 0"
  shows "life_ok (s\<lparr>pc := (pc s)(i := p)\<rparr>)"
proof (rule life_okI)
  let ?s = "s\<lparr>pc := (pc s)(i := p)\<rparr>"
  note ids = in_running_ids [OF i] and inv = life_okD [OF ok]
  show "destroyer ?s = None \<longleftrightarrow> use_count ?s \<noteq> 0"
    using use_count_pc [OF inv(1) ids, of p] count inv(2) by auto
  show "pc ?s j = Locking" if "(f, j, False) \<in> set (running (monitor ?s))" for f j
  proof -
    have "j \<noteq> i"
      using that mon_invD(8) [OF inv(1), of f j False] mon_invD(8) [OF inv(1) i] by auto
    then show ?thesis
      using that inv(6) by simp
  qed
  show "pc ?s j = Locking" if "j \<notin> isCalled (monitor ?s)" for j
    using that inv(7) [of j] mon_invD(7) [OF inv(1) i] by auto
  show "destroyer ?s = Some (ByCallback j)" if "pc ?s j = Destroying" for j
    using that inv(8) [of j] p(1) by (auto split: if_splits)
  show "\<not> gone ?s \<and> pc ?s j = Destroying \<and> j \<in> set (running_ids (monitor ?s))" if "destroyer ?s = Some (ByCallback j)" for j
    using that inv(9) [of j] p(2) by auto
qed (use life_okD(1,3-5) [OF ok] in simp_all)

text \<open>A step of the monitor that changes neither the references nor the callbacks.\<close>

lemma life_ok_client:
  assumes ok: "life_ok s" and "owned s" "of_client l" and step: "mon_step l (monitor s) M"
  shows "life_ok (s\<lparr>monitor := M\<rparr>)"
proof -
  note same = client_mon_step [OF step assms(3)]
  have ids: "running_ids M = running_ids (monitor s)"
    by (rule running_ids_cong [OF same(1)])
  have "use_count s \<noteq> 0"
    using assms(2) by (simp add: use_count_def)
  then have none: "destroyer s = None" and gone: "\<not> gone s"
    using life_okD(2,4) [OF ok] by auto
  have count: "use_count (s\<lparr>monitor := M\<rparr>) = use_count s"
    by (rule use_count_cong) (simp_all add: ids)
  show ?thesis
  proof (rule life_okI)
    let ?s = "s\<lparr>monitor := M\<rparr>"
    show "destroyer ?s = None \<longleftrightarrow> use_count ?s \<noteq> 0"
      unfolding count using none \<open>use_count s \<noteq> 0\<close> by simp
    show "pc ?s i = Locking" if "(e, i, False) \<in> set (running (monitor ?s))" for e i
      using life_okD(6) [OF ok, of e i] that same by simp
    show "pc ?s i = Locking" if "i \<notin> isCalled (monitor ?s)" for i
      using life_okD(7) [OF ok, of i] that same by simp
    show "destroyer ?s = Some (ByCallback i)" if "pc ?s i = Destroying" for i
      using life_okD(8) [OF ok, of i] that by simp
  qed (use mon_step_inv [OF step life_okD(1) [OF ok]] none gone assms(2) in simp_all)
qed

lemma life_ok_waiter:
  assumes ok: "life_ok s" and gone: "\<not> gone s" and l: "l = Fire \<or> l = UserCallback" and step: "mon_step l (monitor s) M"
  shows "life_ok (s\<lparr>monitor := M\<rparr>)"
proof (rule life_okI)
  let ?s = "s\<lparr>monitor := M\<rparr>"
  note same = waiter_mon_step [OF step l] and inv = life_okD [OF ok]
  have "holders ?s = holders s"
    using same(4) inv(7) by (auto simp: holders_def)
  then have count: "use_count ?s = use_count s"
    by (simp add: use_count_def)
  show "destroyer ?s = None \<longleftrightarrow> use_count ?s \<noteq> 0"
    unfolding count using inv(2) by simp
  show "pc ?s i = Locking" if "(e, i, False) \<in> set (running (monitor ?s))" for e i
    using same(6) [of e i] inv(6,7) that by auto
  show "pc ?s i = Locking" if "i \<notin> isCalled (monitor ?s)" for i
    using that inv(7) same(5) by auto
  show "\<not> gone ?s \<and> pc ?s i = Destroying \<and> i \<in> set (running_ids (monitor ?s))" if "destroyer ?s = Some (ByCallback i)" for i
    using inv(9) [of i] that same(4) by auto
  show "destroyer ?s = Some (ByCallback i)" if "pc ?s i = Destroying" for i
    using inv(8) [of i] that by simp
qed (use mon_step_inv [OF step life_okD(1) [OF ok]] life_okD(3) [OF ok] gone waiter_mon_step(1) [OF step l] in simp_all)

lemma life_ok_last:
  assumes ok: "life_ok s" and i: "(e, i, True) \<in> set (running (monitor s))" "pc s i = Queued" "use_count s = 1"
  shows "life_ok (s\<lparr>pc := (pc s)(i := Destroying), destroyer := Some (ByCallback i)\<rparr>)" (is "life_ok ?s")
proof (rule life_okI)
  note ids = in_running_ids [OF i(1)] and inv = life_okD [OF ok]
  have none: "destroyer s = None" and gone: "\<not> gone s"
    using inv(2,4) i(3) by auto
  have "use_count (s\<lparr>pc := (pc s)(i := Destroying)\<rparr>) = 0"
    using use_count_pc [OF inv(1) ids, of Destroying] i(2,3) by simp
  moreover have count: "use_count ?s = use_count (s\<lparr>pc := (pc s)(i := Destroying)\<rparr>)"
    by (rule use_count_cong) simp_all
  ultimately show "destroyer ?s = None \<longleftrightarrow> use_count ?s \<noteq> 0"
    by simp
  have "i \<in> set (holders s)"
    using ids i(2) by (simp add: holders_def)
  then have "\<not> owned s"
    using i(3) by (cases "holders s") (auto simp: use_count_def split: if_splits)
  then show "client (monitor ?s) = None"
    using inv(3) by simp
  show "pc ?s j = Locking" if "(f, j, False) \<in> set (running (monitor ?s))" for f j
    using that inv(6) [of f j] mon_invD(8) [OF inv(1), of f j False] mon_invD(8) [OF inv(1) i(1)] by auto
  show "pc ?s j = Locking" if "j \<notin> isCalled (monitor ?s)" for j
    using that inv(7) [of j] mon_invD(7) [OF inv(1) i(1)] by auto
  show "destroyer ?s = Some (ByCallback j)" if "pc ?s j = Destroying" for j
    using that inv(8) [of j] none by (auto split: if_splits)
  show "\<not> gone ?s \<and> pc ?s j = Destroying \<and> j \<in> set (running_ids (monitor ?s))" if "destroyer ?s = Some (ByCallback j)" for j
    using that ids gone by simp
  show "gone ?s \<Longrightarrow> destroyer ?s \<noteq> None \<and> m_remoteMonitors (monitor ?s) = []"
    using gone by simp
qed (use life_okD(1) [OF ok] in simp)

lemma life_ok_leave:
  assumes ok: "life_ok s" and i: "(e, i, True) \<in> set (running (monitor s))" "pc s i = Leaving"
  shows "life_ok (s\<lparr>monitor := drop_callback i (monitor s)\<rparr>)" (is "life_ok ?s")
proof (rule life_okI)
  note inv = life_okD [OF ok]
  have "holders ?s = holders s"
    using i(2) by (auto simp: holders_def intro!: filter_cong)
  then have count: "use_count ?s = use_count s"
    by (simp add: use_count_def)
  show "destroyer ?s = None \<longleftrightarrow> use_count ?s \<noteq> 0"
    unfolding count using inv(2) by simp
  show "\<not> gone ?s \<and> pc ?s j = Destroying \<and> j \<in> set (running_ids (monitor ?s))" if "destroyer ?s = Some (ByCallback j)" for j
    using inv(9) [of j] that i(2) by auto
  show "pc ?s j = Locking" if "(f, j, False) \<in> set (running (monitor ?s))" for f j
    using inv(6) [of f j] that by simp
  show "pc ?s j = Locking" if "j \<notin> isCalled (monitor ?s)" for j
    using inv(7) [of j] that by simp
  show "destroyer ?s = Some (ByCallback j)" if "pc ?s j = Destroying" for j
    using inv(8) [of j] that by simp
  show "gone ?s \<Longrightarrow> destroyer ?s \<noteq> None \<and> m_remoteMonitors (monitor ?s) = []"
    using inv(4,5) by simp
qed (use mon_inv_drop_callback [OF life_okD(1) [OF ok]] life_okD(3) [OF ok] in simp_all)

lemma life_ok_client_release:
  assumes ok: "life_ok s" and "owned s" "client (monitor s) = None"
  shows "life_ok (s\<lparr>owned := False, destroyer := (if use_count s = 1 then Some ByClient else None)\<rparr>)" (is "life_ok ?s")
proof (rule life_okI)
  note inv = life_okD [OF ok]
  have count: "use_count s = Suc (use_count ?s)"
    using assms(2) by (simp add: use_count_def holders_def)
  then show "destroyer ?s = None \<longleftrightarrow> use_count ?s \<noteq> 0"
    by simp
  have none: "destroyer s = None"
    using count inv(2) by simp
  then have gone: "\<not> gone s"
    using inv(4) by blast
  show "pc ?s j = Locking" if "(f, j, False) \<in> set (running (monitor ?s))" for f j
    using inv(6) [of f j] that by simp
  show "pc ?s j = Locking" if "j \<notin> isCalled (monitor ?s)" for j
    using inv(7) [of j] that by simp
  show "destroyer ?s = Some (ByCallback j)" if "pc ?s j = Destroying" for j
    using inv(8) [of j] that none by simp
  show "gone ?s \<Longrightarrow> destroyer ?s \<noteq> None \<and> m_remoteMonitors (monitor ?s) = []"
    using gone by simp
qed (use life_okD(1) [OF ok] assms(3) in \<open>simp_all split: if_splits\<close>)

lemma life_ok_destroying:
  assumes ok: "life_ok s" and "destroyer s \<noteq> None"
  shows "\<not> owned s" "client (monitor s) = None" "candidate (monitor s) = None" "use_count s = 0" "alive (monitor s) = m_remoteMonitors (monitor s)"
proof -
  show "use_count s = 0"
    using life_okD(2) [OF ok] assms(2) by simp
  then show "\<not> owned s"
    by (simp add: use_count_def split: if_splits)
  then show client: "client (monitor s) = None"
    using life_okD(3) [OF ok] by simp
  show "candidate (monitor s) = None"
    using mon_invD(11) [OF life_okD(1) [OF ok]] client by (cases "candidate (monitor s)") auto
  then show "alive (monitor s) = m_remoteMonitors (monitor s)"
    by simp
qed

lemma life_ok_destroy:
  assumes ok: "life_ok s" and d: "destroyer s \<noteq> None" and i: "i \<notin> set (running_ids (monitor s))"
  shows "life_ok (s\<lparr>monitor := drop_monitor i (monitor s)\<rparr>)" (is "life_ok ?s")
proof (rule life_okI)
  note inv = life_okD [OF ok]
  have "use_count ?s = use_count s"
    by (rule use_count_cong) simp_all
  then show "destroyer ?s = None \<longleftrightarrow> use_count ?s \<noteq> 0"
    using inv(2) by simp
  show "mon_inv (monitor ?s)"
    using mon_inv_drop_monitor [OF inv(1) life_ok_destroying(2) [OF ok d] i] by simp
  show "gone ?s \<Longrightarrow> destroyer ?s \<noteq> None \<and> m_remoteMonitors (monitor ?s) = []"
    using d inv(5) by (simp add: drop_monitor_def)
  show "pc ?s j = Locking" if "(f, j, False) \<in> set (running (monitor ?s))" for f j
    using inv(6) [of f j] that by simp
  show "pc ?s j = Locking" if "j \<notin> isCalled (monitor ?s)" for j
    using inv(7) [of j] that by simp
  show "destroyer ?s = Some (ByCallback j)" if "pc ?s j = Destroying" for j
    using inv(8) [of j] that by simp
  show "\<not> gone ?s \<and> pc ?s j = Destroying \<and> j \<in> set (running_ids (monitor ?s))" if "destroyer ?s = Some (ByCallback j)" for j
    using inv(9) [of j] that by simp
qed (use life_okD(3) [OF ok] in simp)

text \<open>A callback that runs the destructor is in the way of it: its registration is not destroyed before it returns.\<close>

lemma callback_in_the_way:
  assumes ok: "life_ok s" and d: "destroyer s = Some (ByCallback i)"
  shows "m_remoteMonitors (monitor s) \<noteq> []"
proof -
  obtain e b where "(e, i, b) \<in> set (running (monitor s))"
    using life_okD(9) [OF ok d] by (auto simp: running_ids_def)
  then have "(e, i) \<in> set (alive (monitor s))"
    using mon_invD(6) [OF life_okD(1) [OF ok]] by blast
  then show ?thesis
    using life_ok_destroying(5) [OF ok] d by auto
qed

lemma life_ok_destroyed:
  assumes ok: "life_ok s" and "destroyer s = Some ByClient" "m_remoteMonitors (monitor s) = []"
  shows "life_ok (s\<lparr>gone := True\<rparr>)" (is "life_ok ?s")
proof (rule life_okI)
  note inv = life_okD [OF ok]
  have "use_count ?s = use_count s"
    by (rule use_count_cong) simp_all
  then show "destroyer ?s = None \<longleftrightarrow> use_count ?s \<noteq> 0"
    using inv(2) by simp
  show "pc ?s j = Locking" if "(f, j, False) \<in> set (running (monitor ?s))" for f j
    using inv(6) [of f j] that by simp
  show "pc ?s j = Locking" if "j \<notin> isCalled (monitor ?s)" for j
    using inv(7) [of j] that by simp
  show "destroyer ?s = Some (ByCallback j)" if "pc ?s j = Destroying" for j
    using inv(8) [of j] that by simp
qed (use life_okD(1,3) [OF ok] assms(2,3) in simp_all)

lemma life_ok_queue:
  assumes ok: "life_ok s"
  shows "life_ok (s\<lparr>monitor := UnRegister e (monitor s)\<rparr>)" (is "life_ok ?s")
proof (rule life_okI)
  have "use_count ?s = use_count s"
    by (rule use_count_cong) simp_all
  then show "destroyer ?s = None \<longleftrightarrow> use_count ?s \<noteq> 0"
    using life_okD(2) [OF ok] by simp
  show "mon_inv (monitor ?s)"
    using mon_inv_UnRegister [OF life_okD(1) [OF ok]] by simp
  show "gone ?s \<Longrightarrow> destroyer ?s \<noteq> None \<and> m_remoteMonitors (monitor ?s) = []"
    using life_okD(4,5) [OF ok] by simp
  show "destroyer ?s = Some (ByCallback j)" if "pc ?s j = Destroying" for j
    using life_okD(8) [OF ok, of j] that by simp
  show "\<not> gone ?s \<and> pc ?s j = Destroying \<and> j \<in> set (running_ids (monitor ?s))" if "destroyer ?s = Some (ByCallback j)" for j
    using life_okD(9) [OF ok, of j] that by simp
qed (use life_okD(3,6,7) [OF ok] in simp_all)

lemma life_step_ok: "life_step s s' \<Longrightarrow> life_ok s \<Longrightarrow> life_ok s'"
proof (induction rule: life_step.induct)
  case (client_step s l M)
  then show ?case
    by (simp add: life_ok_client)
next
  case (waiter_step s l M)
  then show ?case
    by (simp add: life_ok_waiter)
next
  case (lock e i s)
  then show ?case
    by (intro life_ok_move [OF lock.prems lock.hyps(1)]) simp_all
next
  case (queue e i s)
  have "life_ok (s\<lparr>pc := (pc s)(i := Queued)\<rparr>)"
    using queue.hyps by (intro life_ok_move [OF queue.prems queue.hyps(1)]) simp_all
  from life_ok_queue [OF this, of e] show ?case
    by (cases s) simp
next
  case (release e i s)
  have "use_count s \<noteq> 0"
    using use_count_holder [OF in_running_ids [OF release.hyps(1)]] release.hyps(2) by simp
  then show ?case
    using release.hyps by (intro life_ok_move [OF release.prems release.hyps(1)]) simp_all
next
  case (destroyed s d)
  then have "d = ByClient"
    using callback_in_the_way by (cases d) blast+
  then show ?case
    using life_ok_destroyed destroyed by simp
next
  case (client_release s)
  then show ?case
    by (intro life_ok_client_release)
qed (simp_all add: life_ok_last life_ok_leave life_ok_destroy)

definition life_reach :: "Lifetime \<Rightarrow> bool" where
  "life_reach s \<longleftrightarrow> life_run Lifetime_new s"

lemma life_run_ok: "life_run s s' \<Longrightarrow> life_ok s \<Longrightarrow> life_ok s'"
  by (induction rule: life_run.induct) (auto intro: life_step_ok)

lemma life_reach_ok: "life_reach s \<Longrightarrow> life_ok s"
proof -
  have "mon_inv ConnectionMonitor_new"
    using mon_reach_inv [OF mon_reach.start] .
  then have "life_ok Lifetime_new"
    by (auto simp: life_ok_def Lifetime_new_def ConnectionMonitor_new_def use_count_def)
  then show "life_reach s \<Longrightarrow> life_ok s"
    using life_run_ok by (simp add: life_reach_def)
qed

section \<open>The end of a monitor\<close>

text \<open>What the destructor on the thread of the client still has to wait for.\<close>

definition pc_left :: "(nat \<Rightarrow> callback_pc) \<Rightarrow> EndPointInfo \<times> nat \<times> bool \<Rightarrow> nat" where
  "pc_left pcs r = (case r of (e, i, b) \<Rightarrow> if \<not> b then 3 else if pcs i = Locking then 2 else 1)"

definition work_left :: "Lifetime \<Rightarrow> nat" where
  "work_left s = sum_list (map (pc_left (pc s)) (running (monitor s))) + length (m_remoteMonitors (monitor s)) + (if gone s then 0 else 1)"

text \<open>What is left to do for a client that destroys the monitor, when no callback runs and when one does.\<close>

lemma client_destroys_idle:
  assumes d: "destroyer s = Some ByClient" and g: "\<not> gone s" and idle: "running (monitor s) = []"
  shows "\<exists>s'. life_step s s' \<and> destroyer s' = Some ByClient \<and> work_left s' < work_left s"
proof (cases "m_remoteMonitors (monitor s)")
  case Nil
  show ?thesis
    using life_step.destroyed [OF d g Nil] by (intro exI [of _ "s\<lparr>gone := True\<rparr>"]) (simp add: d g work_left_def idle)
next
  case (Cons m ms)
  let ?s = "s\<lparr>monitor := drop_monitor (snd m) (monitor s)\<rparr>"
  have "life_step s ?s"
    using life_step.destroy_waiters [of s "fst m" "snd m"] d Cons idle by (simp add: running_ids_def)
  moreover have "length (filter (\<lambda>(f, j). j \<noteq> snd m) ms) \<le> length ms"
    by (rule length_filter_le)
  ultimately show ?thesis
    using d by (intro exI [of _ ?s]) (cases m, simp add: work_left_def idle drop_monitor_def Cons less_Suc_eq_le)
qed

lemma callback_goes_on:
  assumes ok: "life_ok s" and d: "destroyer s = Some ByClient" and r: "running (monitor s) = (e, i, True) # rs"
  shows "\<exists>s'. life_step s s' \<and> destroyer s' = Some ByClient \<and> work_left s' < work_left s"
proof -
  note inv = life_okD [OF ok]
  have i: "(e, i, True) \<in> set (running (monitor s))" and ids: "i \<in> set (running_ids (monitor s))"
    using r in_running_ids [of e i True] by simp_all
  have others: "j \<noteq> i" if "(f, j, c) \<in> set rs" for f j c
    using mon_invD(5) [OF inv(1)] that r by (force simp: running_ids_def)
  have zero: "use_count s = 0"
    using life_ok_destroying(4) [OF ok] d by simp
  have "holds (pc s i) = 0"
    using use_count_holder [OF ids] zero by (auto simp: holds_def split: if_splits)
  moreover have "pc s i \<noteq> Destroying"
    using inv(8) [of i] d by auto
  ultimately consider "pc s i = Locking" | "pc s i = Leaving"
    by (cases "pc s i") simp_all
  then show ?thesis
  proof cases
    case 1
    let ?s = "s\<lparr>pc := (pc s)(i := Leaving)\<rparr>"
    have same: "pc_left ((pc s)(i := Leaving)) x = pc_left (pc s) x" if "x \<in> set rs" for x
      using others that by (cases x) (auto simp: pc_left_def)
    have "life_step s ?s"
      using life_step.lock [of e i s] i 1 zero by simp
    moreover have "sum_list (map (pc_left ((pc s)(i := Leaving))) rs) = sum_list (map (pc_left (pc s)) rs)"
      by (rule arg_cong [of _ _ sum_list], rule map_cong [OF refl], rule same)
    ultimately show ?thesis
      using d by (intro exI [of _ ?s]) (simp add: work_left_def r 1 pc_left_def [of _ "(e, i, True)"])
  next
    case 2
    let ?s = "s\<lparr>monitor := drop_callback i (monitor s)\<rparr>"
    have "life_step s ?s"
      using life_step.leave [of e i s] i 2 by simp
    moreover have "filter (\<lambda>(f, j, b). j \<noteq> i) rs = rs"
      using others by (auto intro: filter_True)
    ultimately show ?thesis
      using d by (intro exI [of _ ?s]) (simp add: work_left_def drop_callback_def r pc_left_def split_beta)
  qed
qed

lemma client_destroys:
  assumes ok: "life_ok s" and d: "destroyer s = Some ByClient" and g: "\<not> gone s"
  shows "\<exists>s'. life_step s s' \<and> destroyer s' = Some ByClient \<and> work_left s' < work_left s"
proof (cases "running (monitor s)")
  case Nil
  then show ?thesis
    by (rule client_destroys_idle [OF d g])
next
  case (Cons r rs)
  obtain e i b where r: "r = (e, i, b)"
    by (cases r)
  show ?thesis
  proof (cases b)
    case False
    let ?M = "(monitor s)\<lparr>running := [] @ (e, i, True) # rs, called := i # called (monitor s)\<rparr>"
    have "mon_step UserCallback (monitor s) ?M"
      by (rule mon_step.user_callback) (simp add: Cons r False)
    then have "life_step s (s\<lparr>monitor := ?M\<rparr>)"
      using life_step.waiter_step [OF g] by blast
    then show ?thesis
      using d by (intro exI [of _ "s\<lparr>monitor := ?M\<rparr>"]) (simp add: work_left_def Cons r False pc_left_def split_beta)
  qed (use callback_goes_on [OF ok d] Cons r in simp)
qed

lemma client_destructor_ends: "life_ok s \<Longrightarrow> destroyer s = Some ByClient \<Longrightarrow> \<exists>s'. life_run s s' \<and> gone s'"
proof (induction "work_left s" arbitrary: s rule: less_induct)
  case less
  show ?case
  proof (cases "gone s")
    case True
    then show ?thesis
      using life_run.run_here by blast
  next
    case False
    then obtain s1 where s1: "life_step s s1" "destroyer s1 = Some ByClient" "work_left s1 < work_left s"
      using client_destroys less.prems by blast
    obtain s2 where "life_run s1 s2" "gone s2"
      using less.hyps [OF s1(3) life_step_ok [OF s1(1) less.prems(1)] s1(2)] by blast
    moreover have "life_run a c" if "life_run b c" "life_step a b" for a b c
      using that by (induction rule: life_run.induct) (blast intro: life_run.intros)+
    ultimately show ?thesis
      using s1(1) by blast
  qed
qed

lemma destroyer_stays: "life_step s s' \<Longrightarrow> life_ok s \<Longrightarrow> destroyer s \<noteq> None \<Longrightarrow> destroyer s' = destroyer s"
proof (induction rule: life_step.induct)
  case (release_last e i s)
  then show ?case
    using life_ok_destroying(4) by fastforce
next
  case (client_release s)
  then show ?case
    using life_ok_destroying(1) by blast
qed simp_all

lemma destroyer_stays_run: "life_run s s' \<Longrightarrow> life_ok s \<Longrightarrow> destroyer s \<noteq> None \<Longrightarrow> destroyer s' = destroyer s \<and> life_ok s'"
  by (induction rule: life_run.induct) (auto dest: destroyer_stays life_step_ok)

text \<open>A run of the monitor while the client has its reference.\<close>

lemma life_reach_monitor:
  assumes "mon_reach ls M" "CallbackDone \<notin> set ls"
  shows "life_reach (Lifetime_new\<lparr>monitor := M\<rparr>)"
  using assms
proof (induction rule: mon_reach.induct)
  case start
  then show ?case
    using life_run.run_here [of Lifetime_new] by (simp add: life_reach_def Lifetime_new_def)
next
  case (step ls M l M')
  then have reach: "life_run Lifetime_new (Lifetime_new\<lparr>monitor := M\<rparr>)" and l: "of_client l \<or> l = Fire \<or> l = UserCallback"
    by (auto simp: life_reach_def of_client_def)
  have "life_step (Lifetime_new\<lparr>monitor := M\<rparr>) (Lifetime_new\<lparr>monitor := M'\<rparr>)"
    using l step.hyps(2) life_step.client_step [of "Lifetime_new\<lparr>monitor := M\<rparr>" l M']
      life_step.waiter_step [of "Lifetime_new\<lparr>monitor := M\<rparr>" l M'] by (auto simp: Lifetime_new_def)
  then show ?case
    using life_run.run_step [OF reach] by (simp add: life_reach_def)
qed

lemma life_reach_to: "life_reach s \<Longrightarrow> life_step s s' \<Longrightarrow> s'' = s' \<Longrightarrow> life_reach s''"
  unfolding life_reach_def using life_run.run_step by blast

text \<open>The client drops its reference while the callback has one.\<close>

lemma trace_self_destruct:
  obtains s where "life_reach s" "destroyer s = Some (ByCallback 0)"
proof -
  let ?A = "\<lparr>m_pid = 1, m_uuid = 7\<rparr> :: EndPointInfo"
  let ?M = "Monitor.make [(?A, 0)] [] None False {0} [(?A, 0, True)] [0] 1 None"
  let ?s = "Lifetime_new\<lparr>monitor := ?M\<rparr>"
  have r0: "life_reach ?s"
    by (rule life_reach_monitor [OF trace_called]) simp
  have r1: "life_reach (?s\<lparr>pc := (\<lambda>_. Locking)(0 := Holding)\<rparr>)"
    by (rule life_reach_to [OF r0], rule life_step.lock [of ?A 0])
      (simp_all add: Lifetime_new_def Monitor.defs use_count_def)
  have r2: "life_reach (?s\<lparr>owned := False, pc := (\<lambda>_. Locking)(0 := Holding)\<rparr>)"
    by (rule life_reach_to [OF r1], rule life_step.client_release)
      (simp_all add: Lifetime_new_def Monitor.defs use_count_def holders_def running_ids_def)
  have r3: "life_reach (?s\<lparr>monitor := UnRegister ?A ?M, owned := False, pc := (\<lambda>_. Locking)(0 := Queued)\<rparr>)"
    by (rule life_reach_to [OF r2], rule life_step.queue [of ?A 0]) (simp_all add: Lifetime_new_def Monitor.defs)
  have r4: "life_reach (?s\<lparr>monitor := UnRegister ?A ?M, owned := False, pc := (\<lambda>_. Locking)(0 := Destroying), destroyer := Some (ByCallback 0)\<rparr>)"
    by (rule life_reach_to [OF r3], rule life_step.release_last [of ?A 0])
      (simp_all add: Lifetime_new_def Monitor.defs use_count_def holders_def running_ids_def UnRegister_def)
  show ?thesis
    by (rule that [OF r4]) simp
qed

section \<open>Properties\<close>

text \<open>C33: a callback uses the monitor only while it exists; and a destructor that the client runs can always return, however
  many callbacks are in progress: their waiters are destroyed after them.\<close>

theorem monitor_outlives_uses:
  assumes "life_reach s"
  shows "(\<forall>i\<in>set (running_ids (monitor s)). pc s i = Holding \<or> pc s i = Queued \<longrightarrow> destroyer s = None \<and> \<not> gone s) \<and>
    (\<forall>e i b. (e, i, b) \<in> set (running (monitor s)) \<longrightarrow> (e, i) \<in> set (alive (monitor s))) \<and>
    (destroyer s = Some ByClient \<longrightarrow> (\<exists>s'. life_run s s' \<and> gone s'))"
proof -
  note ok = life_reach_ok [OF assms]
  have "destroyer s = None \<and> \<not> gone s" if "i \<in> set (running_ids (monitor s))" "pc s i = Holding \<or> pc s i = Queued" for i
    using use_count_holder [OF that(1)] that(2) life_okD(2,4) [OF ok] by auto
  moreover have "(e, i) \<in> set (alive (monitor s))" if "(e, i, b) \<in> set (running (monitor s))" for e i b
    using mon_invD(6) [OF life_okD(1) [OF ok] that] .
  ultimately show ?thesis
    using client_destructor_ends [OF ok] by blast
qed

theorem monitor_outlives_uses_witness:
  "\<exists>s. life_reach s \<and> destroyer s = Some ByClient \<and> (\<exists>s'. life_run s s' \<and> gone s')"
proof -
  let ?s = "Lifetime_new\<lparr>monitor := Monitor.make [(\<lparr>m_pid = 1, m_uuid = 7\<rparr>, 0)] [] None False {} [] [] 1 None\<rparr>"
  have r0: "life_reach ?s"
    by (rule life_reach_monitor [OF trace_registered]) simp
  have "life_reach (?s\<lparr>owned := False, destroyer := Some ByClient\<rparr>)"
    by (rule life_reach_to [OF r0], rule life_step.client_release)
      (simp_all add: Lifetime_new_def Monitor.defs use_count_def holders_def running_ids_def)
  from monitor_outlives_uses [OF this] this show ?thesis
    by (intro exI [of _ "?s\<lparr>owned := False, destroyer := Some ByClient\<rparr>"]) simp
qed

text \<open>C34: when the callback drops the last reference, because the client has dropped its own in the meantime, the destructor runs on the
  thread of the callback and waits for that callback: it never returns.\<close>

theorem callback_destructor_hangs:
  assumes "life_reach s" "destroyer s = Some (ByCallback i)" "life_run s s'"
  shows "\<not> gone s' \<and> pc s' i = Destroying \<and> i \<in> set (running_ids (monitor s')) \<and> m_remoteMonitors (monitor s') \<noteq> []"
proof -
  have "destroyer s' = Some (ByCallback i)" "life_ok s'"
    using destroyer_stays_run [OF assms(3) life_reach_ok [OF assms(1)]] assms(2) by simp_all
  then show ?thesis
    using life_okD(9) callback_in_the_way by blast
qed

theorem callback_destructor_hangs_witness:
  "\<exists>s. life_reach s \<and> destroyer s = Some (ByCallback 0) \<and> \<not> gone s"
proof -
  obtain s where "life_reach s" "destroyer s = Some (ByCallback 0)"
    by (rule trace_self_destruct)
  then show ?thesis
    using callback_destructor_hangs [OF _ _ life_run.run_here] by blast
qed

end
