(* ===== verification/L4_Network.thy ===== *)
theory L4_Network
  imports L4_MonitorLife
begin

text \<open>
  Connection monitors of several processes together, \<open>src/Interprocess/Connection/\<close>: what a process learns of
  the others. Each monitor creates an event with the name of its own end point, which the others open by that name;
  its destructor sets it. The kernel keeps an event while somebody has a handle to it.
\<close>

section \<open>State and steps\<close>

text \<open>\<open>GetCurrentProcessId\<close> and the random generator of boost give the two parts of an end point.\<close>

definition EndPointInfoFactory_Create :: "u32 \<Rightarrow> uuid \<Rightarrow> EndPointInfo" where
  "EndPointInfoFactory_Create pid uuid = \<lparr>m_pid = pid, m_uuid = uuid\<rparr>"

text \<open>
  The monitors ever created by their own end points, the names of the events that are set and the processes
  that have exited. An identifier of a process is not used again.
\<close>

record Network =
  nodes :: "EndPointInfo \<rightharpoonup> Lifetime"
  signalled :: "string set"
  exited :: "u32 set"

definition Network_new :: Network where
  "Network_new = \<lparr>nodes = Map.empty, signalled = {}, exited = {}\<rparr>"

text \<open>
  There is an event of a name while the monitor that created it is not destroyed, or a waiter of another has it
  open; the handles of a process are closed when it exits.
\<close>

definition event_exists :: "(uuid \<Rightarrow> string) \<Rightarrow> Network \<Rightarrow> string \<Rightarrow> bool" where
  "event_exists uuid_string N x \<longleftrightarrow> (\<exists>a s. nodes N a = Some s \<and> m_pid a \<notin> exited N \<and>
     (\<not> gone s \<and> StringConverter uuid_string a = x \<or> x \<in> StringConverter uuid_string ` fst ` set (alive (monitor s))))"

text \<open>
  What a step of a monitor does with the handles of others: it opens the event of an end point, then the process,
  and begins the callback of a registration.
\<close>

definition opened :: "Lifetime \<Rightarrow> Lifetime \<Rightarrow> EndPointInfo \<Rightarrow> bool" where
  "opened s s' e \<longleftrightarrow> candidate (monitor s) = None \<and> (\<exists>i. candidate (monitor s') = Some (e, i))"

definition process_opened :: "Lifetime \<Rightarrow> Lifetime \<Rightarrow> EndPointInfo \<Rightarrow> bool" where
  "process_opened s s' e \<longleftrightarrow> \<not> m_processWaiter (monitor s) \<and> m_processWaiter (monitor s') \<and> (\<exists>i. candidate (monitor s') = Some (e, i))"

definition fired :: "Lifetime \<Rightarrow> Lifetime \<Rightarrow> EndPointInfo \<times> nat \<Rightarrow> bool" where
  "fired s s' r \<longleftrightarrow> (fst r, snd r, False) \<in> set (running (monitor s')) \<and> (fst r, snd r, False) \<notin> set (running (monitor s))"

text \<open>
  One of the waiters of a registration fires: that of the event when the event is set, and that of the process, once
  there is one, when the process has exited.
\<close>

definition handle_set :: "(uuid \<Rightarrow> string) \<Rightarrow> Network \<Rightarrow> Lifetime \<Rightarrow> EndPointInfo \<times> nat \<Rightarrow> bool" where
  "handle_set uuid_string N s r \<longleftrightarrow>
     StringConverter uuid_string (fst r) \<in> signalled N \<or> has_process_waiter (monitor s) r \<and> m_pid (fst r) \<in> exited N"

text \<open>\<open>~ConnectionMonitor\<close> calls \<open>SetEvent\<close> before the members are destroyed.\<close>

definition SetEvent :: "(uuid \<Rightarrow> string) \<Rightarrow> EndPointInfo \<Rightarrow> Lifetime \<Rightarrow> Lifetime \<Rightarrow> string set \<Rightarrow> string set" where
  "SetEvent uuid_string a s s' names =
     (if destroyer s = None \<and> destroyer s' \<noteq> None then insert (StringConverter uuid_string a) names else names)"

text \<open>
  A step of the monitor \<open>a\<close>. \<open>OpenEvent\<close> finds an event that exists, \<open>OpenProcess\<close> a process that has not exited;
  otherwise only the steps are left with which \<open>Register\<close> throws.
\<close>

inductive node_step :: "(uuid \<Rightarrow> string) \<Rightarrow> EndPointInfo \<Rightarrow> Network \<Rightarrow> Network \<Rightarrow> bool" for uuid_string a where
  node: "nodes N a = Some s \<Longrightarrow> m_pid a \<notin> exited N \<Longrightarrow> life_step s s' \<Longrightarrow>
    (\<And>e. opened s s' e \<Longrightarrow> event_exists uuid_string N (StringConverter uuid_string e)) \<Longrightarrow>
    (\<And>e. process_opened s s' e \<Longrightarrow> m_pid e \<notin> exited N) \<Longrightarrow>
    (\<And>r. fired s s' r \<Longrightarrow> handle_set uuid_string N s r) \<Longrightarrow>
    node_step uuid_string a N (N\<lparr>nodes := (nodes N)(a \<mapsto> s'), signalled := SetEvent uuid_string a s s' (signalled N)\<rparr>)"

inductive net_step :: "(uuid \<Rightarrow> string) \<Rightarrow> Network \<Rightarrow> Network \<Rightarrow> bool" for uuid_string where
  create: "a = EndPointInfoFactory_Create pid u \<Longrightarrow> pid \<notin> exited N \<Longrightarrow> u \<notin> m_uuid ` dom (nodes N) \<Longrightarrow>
    net_step uuid_string N (N\<lparr>nodes := (nodes N)(a \<mapsto> Lifetime_new)\<rparr>)"
| monitor_step: "node_step uuid_string a N N' \<Longrightarrow> net_step uuid_string N N'"
| exit: "net_step uuid_string N (N\<lparr>exited := insert pid (exited N)\<rparr>)"

inductive net_run :: "(uuid \<Rightarrow> string) \<Rightarrow> Network \<Rightarrow> Network \<Rightarrow> bool" for uuid_string where
  net_here: "net_run uuid_string N N"
| net_next: "net_run uuid_string N N' \<Longrightarrow> net_step uuid_string N' N'' \<Longrightarrow> net_run uuid_string N N''"

text \<open>What a monitor does while nobody else makes a step.\<close>

inductive own_run :: "(uuid \<Rightarrow> string) \<Rightarrow> EndPointInfo \<Rightarrow> Network \<Rightarrow> Network \<Rightarrow> bool" for uuid_string a where
  own_here: "own_run uuid_string a N N"
| own_next: "own_run uuid_string a N N' \<Longrightarrow> node_step uuid_string a N' N'' \<Longrightarrow> own_run uuid_string a N N''"

text \<open>An end point is over when its monitor is or has been destroyed, or its process has exited.\<close>

definition is_over :: "Network \<Rightarrow> EndPointInfo \<Rightarrow> bool" where
  "is_over N e \<longleftrightarrow> (\<exists>t. nodes N e = Some t \<and> (destroyer t \<noteq> None \<or> m_pid e \<in> exited N))"

section \<open>Names\<close>

text \<open>The name of an end point tells its process and its uuid, as the digits end at the comma.\<close>

lemma comma_not_in_to_string: "CHR '','' \<notin> set (to_string n)"
proof (induction n rule: to_string.induct)
  case (1 n)
  have "char_of (48 + d) \<noteq> CHR '',''" if "d < 10" for d :: nat
  proof -
    have "d \<in> {0, 1, 2, 3, 4, 5, 6, 7, 8, 9}"
      using that by auto
    then show ?thesis
      by (auto simp: char_of_def bit_simps)
  qed
  from this [of "n mod 10"] show ?case
    using 1 by (auto simp: to_string.simps [of n])
qed

lemma StringConverter_inj:
  assumes "inj uuid_string"
  shows "StringConverter uuid_string e = StringConverter uuid_string f \<longleftrightarrow> e = f"
proof
  let ?tail = "\<lambda>e. '','' @ ''uuid:'' @ uuid_string (m_uuid e) @ '']''"
  assume "StringConverter uuid_string e = StringConverter uuid_string f"
  then have eq: "to_string (unat (m_pid e)) @ ?tail e = to_string (unat (m_pid f)) @ ?tail f"
    by (simp add: StringConverter_def)
  have digits: "takeWhile (\<lambda>c. c \<noteq> CHR '','') (to_string n @ CHR '','' # cs) = to_string n" for n cs
    using comma_not_in_to_string [of n] by (subst takeWhile_append2) auto
  have "to_string (unat (m_pid e)) = to_string (unat (m_pid f))"
    using arg_cong [OF eq, of "takeWhile (\<lambda>c. c \<noteq> CHR '','')"] by (simp add: digits)
  moreover from this have "uuid_string (m_uuid e) = uuid_string (m_uuid f)"
    using eq by simp
  ultimately have "m_pid e = m_pid f" "m_uuid e = m_uuid f"
    using to_string_inj word_unat_eq_iff injD [OF assms] by blast+
  then show "e = f"
    by simp
qed simp

section \<open>Steps of a monitor\<close>

lemma mon_step_alive: "mon_step l M M' \<Longrightarrow> (e, i) \<in> set (alive M') \<Longrightarrow> (e, i) \<in> set (alive M) \<or> candidate M = None \<and> candidate M' = Some (e, i)"
  by (induction rule: mon_step.induct) (auto simp: alive_def UnRegister_def split: option.splits)

lemma mon_step_waiters:
  "mon_step l M M' \<Longrightarrow> mon_inv M \<Longrightarrow> has_process_waiter M r \<Longrightarrow> r \<in> set (alive M') \<Longrightarrow> has_process_waiter M' r"
proof (induction rule: mon_step.induct)
  case (erase M e es p)
  then show ?case
    using mon_inv_idle [of M] by (auto simp: has_process_waiter_def)
qed (auto simp: has_process_waiter_def alive_def UnRegister_def)

lemma mon_step_isCalled:
  "mon_step l M M' \<Longrightarrow> i \<in> isCalled M' \<Longrightarrow> i \<in> isCalled M \<or> (\<exists>f. (f, i) \<in> set (alive M) \<and> (f, i, False) \<in> set (running M'))"
  by (induction rule: mon_step.induct) (auto simp: UnRegister_def)

lemma life_step_alive:
  "life_step s s' \<Longrightarrow> (e, i) \<in> set (alive (monitor s')) \<Longrightarrow> (e, i) \<in> set (alive (monitor s)) \<or> opened s s' e"
proof (induction rule: life_step.induct)
  case (client_step s l M)
  then show ?case
    using mon_step_alive [of l "monitor s" M] by (auto simp: opened_def)
next
  case (waiter_step s l M)
  then show ?case
    using mon_step_alive [of l "monitor s" M] by (auto simp: opened_def)
qed (auto simp: alive_def UnRegister_def drop_callback_def drop_monitor_def split: option.splits)

lemma life_step_waiters:
  "life_step s s' \<Longrightarrow> life_ok s \<Longrightarrow> has_process_waiter (monitor s) r \<Longrightarrow> r \<in> set (alive (monitor s')) \<Longrightarrow> has_process_waiter (monitor s') r"
proof (induction rule: life_step.induct)
  case (client_step s l M)
  then show ?case
    using mon_step_waiters [of l "monitor s" M] life_okD(1) by simp
next
  case (waiter_step s l M)
  then show ?case
    using mon_step_waiters [of l "monitor s" M] life_okD(1) by simp
next
  case (destroy_waiters s e i)
  then have "candidate (monitor s) = None"
    using life_ok_destroying(3) [of s] by (cases "candidate (monitor s)") auto
  then show ?case
    using destroy_waiters.prems by (auto simp: has_process_waiter_def drop_monitor_def)
qed (auto simp: has_process_waiter_def alive_def UnRegister_def drop_callback_def drop_monitor_def)

text \<open>A registration whose flag is set had it set before, or the step begins its callback.\<close>

lemma mon_step_flagged:
  assumes step: "mon_step l M M'" and inv: "mon_inv M" and now: "(e, i) \<in> set (alive M')" "i \<in> isCalled M'"
  shows "(e, i) \<in> set (alive M) \<and> i \<in> isCalled M \<or> (e, i, False) \<in> set (running M') \<and> (e, i, False) \<notin> set (running M)"
proof (cases "i \<in> isCalled M")
  case True
  then have "i < registrations M"
    by (rule mon_invD(4) [OF inv])
  moreover have "i = registrations M" if "candidate M = None" "candidate M' = Some (e, i)"
    using step that by (induction rule: mon_step.induct) (auto simp: UnRegister_def)
  ultimately show ?thesis
    using mon_step_alive [OF step now(1)] True by (metis less_irrefl)
next
  case False
  then obtain f where f: "(f, i) \<in> set (alive M)" "(f, i, False) \<in> set (running M')"
    using mon_step_isCalled [OF step now(2)] by blast
  have "(f, i) \<in> set (alive M')"
    using mon_invD(6) [OF mon_step_inv [OF step inv] f(2)] .
  then have "f = e"
    using mon_invD(2) [OF mon_step_inv [OF step inv]] now(1) by (metis distinct_map inj_onD prod.inject snd_conv)
  then show ?thesis
    using f(2) False mon_invD(7) [OF inv] by blast
qed

lemma life_step_flagged:
  "life_step s s' \<Longrightarrow> life_ok s \<Longrightarrow> (e, i) \<in> set (alive (monitor s')) \<Longrightarrow> i \<in> isCalled (monitor s') \<Longrightarrow>
    (e, i) \<in> set (alive (monitor s)) \<and> i \<in> isCalled (monitor s) \<or> fired s s' (e, i)"
proof (induction rule: life_step.induct)
  case (client_step s l M)
  then show ?case
    using mon_step_flagged [of l "monitor s" M e i] life_okD(1) by (simp add: fired_def)
next
  case (waiter_step s l M)
  then show ?case
    using mon_step_flagged [of l "monitor s" M e i] life_okD(1) by (simp add: fired_def)
qed (auto simp: alive_def UnRegister_def drop_callback_def drop_monitor_def split: option.splits)

text \<open>The flag of a registration is set when its callback is called or about to be.\<close>

definition flags_ok :: "Monitor \<Rightarrow> bool" where
  "flags_ok M \<longleftrightarrow> isCalled M \<subseteq> set (called M) \<union> {i. \<exists>e. (e, i, False) \<in> set (running M)}"

lemma mon_step_flags: "mon_step l M M' \<Longrightarrow> flags_ok M \<Longrightarrow> flags_ok M'"
  by (induction rule: mon_step.induct) (auto simp: flags_ok_def UnRegister_def)

lemma life_step_flags: "life_step s s' \<Longrightarrow> life_ok s \<Longrightarrow> flags_ok (monitor s) \<Longrightarrow> flags_ok (monitor s')"
proof (induction rule: life_step.induct)
  case (leave e i s)
  have "j \<noteq> i" if "(f, j, False) \<in> set (running (monitor s))" for f j
    using life_okD(6) [OF leave.prems(1) that] leave.hyps(2) by auto
  then show ?case
    using leave.prems(2) unfolding flags_ok_def by (fastforce simp: drop_callback_def)
qed (auto simp: flags_ok_def drop_monitor_def UnRegister_def dest: mon_step_flags [unfolded flags_ok_def])

section \<open>The invariant\<close>

text \<open>A registration has its flag set only when one of its handles is set.\<close>

definition net_inv :: "(uuid \<Rightarrow> string) \<Rightarrow> Network \<Rightarrow> bool" where
  "net_inv uuid_string N \<longleftrightarrow> (\<forall>a s. nodes N a = Some s \<longrightarrow> life_ok s \<and> flags_ok (monitor s) \<and>
       (\<forall>(e, i)\<in>set (alive (monitor s)). e \<in> dom (nodes N) \<and> (i \<in> isCalled (monitor s) \<longrightarrow> handle_set uuid_string N s (e, i)))) \<and>
     signalled N = StringConverter uuid_string ` {a. \<exists>s. nodes N a = Some s \<and> destroyer s \<noteq> None}"

lemma net_invD:
  assumes "net_inv uuid_string N"
  shows "nodes N a = Some s \<Longrightarrow> life_ok s" and "nodes N a = Some s \<Longrightarrow> flags_ok (monitor s)"
    and "nodes N a = Some s \<Longrightarrow> (e, i) \<in> set (alive (monitor s)) \<Longrightarrow> e \<in> dom (nodes N)"
    and "nodes N a = Some s \<Longrightarrow> (e, i) \<in> set (alive (monitor s)) \<Longrightarrow> i \<in> isCalled (monitor s) \<Longrightarrow> handle_set uuid_string N s (e, i)"
    and "signalled N = StringConverter uuid_string ` {a. \<exists>s. nodes N a = Some s \<and> destroyer s \<noteq> None}"
  using assms unfolding net_inv_def by (blast, blast, blast, blast, blast)

text \<open>The event of an end point is set exactly when its monitor is or has been destroyed.\<close>

lemma signalled_iff:
  assumes "inj uuid_string" "net_inv uuid_string N"
  shows "StringConverter uuid_string e \<in> signalled N \<longleftrightarrow> (\<exists>t. nodes N e = Some t \<and> destroyer t \<noteq> None)"
  unfolding net_invD(5) [OF assms(2)] by (auto simp: StringConverter_inj [OF assms(1)])

lemma handle_set_over:
  assumes "inj uuid_string" "net_inv uuid_string N" "e \<in> dom (nodes N)" "handle_set uuid_string N s (e, i)"
  shows "is_over N e"
  using assms(3,4) unfolding handle_set_def is_over_def fst_conv signalled_iff [OF assms(1,2)] by blast

lemma running_over:
  assumes "inj uuid_string" and inv: "net_inv uuid_string N" and a: "nodes N a = Some s" "(e, i, b) \<in> set (running (monitor s))"
  shows "is_over N e"
proof -
  note mon = life_okD(1) [OF net_invD(1) [OF inv a(1)]]
  show ?thesis
    using handle_set_over [OF assms(1) inv] net_invD(3,4) [OF inv a(1)] mon_invD(6,7) [OF mon a(2)] by blast
qed

text \<open>Handles that are set stay set.\<close>

lemma handle_set_mono:
  assumes "handle_set uuid_string N s r" and "signalled N \<subseteq> signalled N'" "exited N \<subseteq> exited N'"
    and "has_process_waiter (monitor s) r \<Longrightarrow> has_process_waiter (monitor s') r"
  shows "handle_set uuid_string N' s' r"
  using assms unfolding handle_set_def by blast

lemma fresh_end_point: "u \<notin> m_uuid ` dom (nodes N) \<Longrightarrow> nodes N (EndPointInfoFactory_Create pid u) = None"
  by (cases "nodes N (EndPointInfoFactory_Create pid u)") (force simp: EndPointInfoFactory_Create_def)+

lemma opened_exists:
  assumes "inj uuid_string" "net_inv uuid_string N" "event_exists uuid_string N (StringConverter uuid_string e)"
  shows "e \<in> dom (nodes N)"
  using assms(3) net_invD(3) [OF assms(2)] by (fastforce simp: event_exists_def StringConverter_inj [OF assms(1)])

lemma node_step_inv: "node_step uuid_string a N N' \<Longrightarrow> inj uuid_string \<Longrightarrow> net_inv uuid_string N \<Longrightarrow> net_inv uuid_string N'"
proof (induction rule: node_step.induct)
  case (node N s s')
  let ?N = "N\<lparr>nodes := (nodes N)(a \<mapsto> s'), signalled := SetEvent uuid_string a s s' (signalled N)\<rparr>"
  note inv = node.prems(2) and step = node.hyps(3) and ok = net_invD(1) [OF node.prems(2) node.hyps(1)]
  have names: "signalled N \<subseteq> signalled ?N"
    by (auto simp: SetEvent_def)
  have alive': "e \<in> dom (nodes ?N)" if "(e, i) \<in> set (alive (monitor s'))" for e i
    using life_step_alive [OF step that] net_invD(3) [OF inv node.hyps(1)] opened_exists [OF node.prems node.hyps(4)] by auto
  have set': "handle_set uuid_string ?N s' (e, i)" if e: "(e, i) \<in> set (alive (monitor s'))" "i \<in> isCalled (monitor s')" for e i
  proof (rule handle_set_mono [OF _ names])
    show "handle_set uuid_string N s (e, i)"
      using life_step_flagged [OF step ok e] net_invD(4) [OF inv node.hyps(1)] node.hyps(6) by blast
  qed (use life_step_waiters [OF step ok _ e(1)] in simp_all)
  have "{c. \<exists>t. nodes ?N c = Some t \<and> destroyer t \<noteq> None} =
      (if destroyer s = None \<and> destroyer s' \<noteq> None then insert a else id) {c. \<exists>t. nodes N c = Some t \<and> destroyer t \<noteq> None}"
    using destroyer_stays [OF step ok] node.hyps(1) by auto
  then have "signalled ?N = StringConverter uuid_string ` {c. \<exists>t. nodes ?N c = Some t \<and> destroyer t \<noteq> None}"
    using net_invD(5) [OF inv] by (simp add: SetEvent_def)
  moreover have "life_ok t \<and> flags_ok (monitor t) \<and>
      (\<forall>(e, i)\<in>set (alive (monitor t)). e \<in> dom (nodes ?N) \<and> (i \<in> isCalled (monitor t) \<longrightarrow> handle_set uuid_string ?N t (e, i)))"
    if t: "nodes ?N c = Some t" for c t
  proof (cases "c = a")
    case True
    then show ?thesis
      using t life_step_ok [OF step ok] life_step_flags [OF step ok net_invD(2) [OF inv node.hyps(1)]] alive' set' by auto
  next
    case False
    then have "nodes N c = Some t"
      using t by simp
    note old = net_invD(1,2,3,4) [OF inv this]
    have "handle_set uuid_string ?N t r" if "handle_set uuid_string N t r" for r
      by (rule handle_set_mono [OF that names]) simp_all
    moreover have "e \<in> dom (nodes ?N)" if "(e, i) \<in> set (alive (monitor t))" for e i
      using old(3) [OF that] by simp
    ultimately show ?thesis
      using old(1,2,4) by blast
  qed
  ultimately show ?case
    unfolding net_inv_def by blast
qed

lemma Lifetime_new_simps [simp]:
  "life_ok Lifetime_new" "flags_ok (monitor Lifetime_new)" "alive (monitor Lifetime_new) = []" "running (monitor Lifetime_new) = []"
  "destroyer Lifetime_new = None"
  using life_reach_ok [of Lifetime_new] run_here
  by (simp_all add: life_reach_def flags_ok_def) (simp_all add: Lifetime_new_def ConnectionMonitor_new_def alive_def)

lemma net_step_inv: "net_step uuid_string N N' \<Longrightarrow> inj uuid_string \<Longrightarrow> net_inv uuid_string N \<Longrightarrow> net_inv uuid_string N'"
proof (induction rule: net_step.induct)
  case (create a pid u N)
  let ?N = "N\<lparr>nodes := (nodes N)(a \<mapsto> Lifetime_new)\<rparr>"
  have new: "nodes N a = None"
    using create.hyps(1) fresh_end_point [OF create.hyps(3)] by simp
  have "{c. \<exists>t. nodes ?N c = Some t \<and> destroyer t \<noteq> None} = {c. \<exists>t. nodes N c = Some t \<and> destroyer t \<noteq> None}"
    using new by auto
  moreover have "handle_set uuid_string ?N t r = handle_set uuid_string N t r" for t r
    by (simp add: handle_set_def)
  moreover have "life_ok t \<and> flags_ok (monitor t) \<and>
      (\<forall>(e, i)\<in>set (alive (monitor t)). e \<in> dom (nodes ?N) \<and> (i \<in> isCalled (monitor t) \<longrightarrow> handle_set uuid_string N t (e, i)))"
    if "nodes ?N c = Some t" for c t
  proof (cases "c = a")
    case False
    then have "nodes N c = Some t"
      using that by simp
    note old = net_invD(1,2,3,4) [OF create.prems(2) this]
    have "e \<in> dom (nodes ?N)" if "(e, i) \<in> set (alive (monitor t))" for e i
      using old(3) [OF that] by simp
    then show ?thesis
      using old(1,2,4) by blast
  qed (use that in simp)
  ultimately show ?case
    using net_invD(5) [OF create.prems(2)] unfolding net_inv_def by simp
next
  case (monitor_step a N N')
  then show ?case
    by (rule node_step_inv)
next
  case (exit N pid)
  have "handle_set uuid_string (N\<lparr>exited := insert pid (exited N)\<rparr>) t r" if "handle_set uuid_string N t r" for t r
    using that by (auto simp: handle_set_def)
  then show ?case
    using exit.prems(2) unfolding net_inv_def by fastforce
qed

lemma net_run_inv: "net_run uuid_string N N' \<Longrightarrow> inj uuid_string \<Longrightarrow> net_inv uuid_string N \<Longrightarrow> net_inv uuid_string N'"
  by (induction rule: net_run.induct) (auto intro: net_step_inv)

lemma net_inv_new: "net_inv uuid_string Network_new"
  by (simp add: net_inv_def Network_new_def)

section \<open>A waiter can always fire\<close>

lemma alive_not_gone: "life_ok s \<Longrightarrow> (e, i) \<in> set (alive (monitor s)) \<Longrightarrow> \<not> gone s"
  using life_ok_destroying(5) life_okD(4,5) by fastforce

lemma SetEvent_same: "destroyer s' = destroyer s \<Longrightarrow> SetEvent uuid_string a s s' names = names"
  by (auto simp: SetEvent_def)

lemma waiter_moves:
  assumes a: "nodes N a = Some s" "m_pid a \<notin> exited N" "\<not> gone s"
    and l: "l = Fire \<or> l = UserCallback" "mon_step l (monitor s) M"
    and fires: "\<And>r. fired s (s\<lparr>monitor := M\<rparr>) r \<Longrightarrow> handle_set uuid_string N s r"
  shows "node_step uuid_string a N (N\<lparr>nodes := (nodes N)(a \<mapsto> s\<lparr>monitor := M\<rparr>)\<rparr>)"
proof -
  have "m_processWaiter M = m_processWaiter (monitor s)"
    using l(2,1) by (induction rule: mon_step.induct) auto
  then have "\<not> opened s (s\<lparr>monitor := M\<rparr>) e" "\<not> process_opened s (s\<lparr>monitor := M\<rparr>) e" for e
    using waiter_mon_step(3) [OF l(2,1)] by (auto simp: opened_def process_opened_def)
  then have "node_step uuid_string a N (N\<lparr>nodes := (nodes N)(a \<mapsto> s\<lparr>monitor := M\<rparr>), signalled := SetEvent uuid_string a s (s\<lparr>monitor := M\<rparr>) (signalled N)\<rparr>)"
    by (intro node_step.node [OF a(1,2) life_step.waiter_step [OF a(3) l] _ _ fires]) blast+
  then show ?thesis
    by (simp add: SetEvent_same)
qed

lemma user_callback_follows:
  assumes a: "nodes N a = Some s" "m_pid a \<notin> exited N" "\<not> gone s" and e: "(e, i, False) \<in> set (running (monitor s))"
  shows "\<exists>N' s'. node_step uuid_string a N N' \<and> nodes N' a = Some s' \<and> i \<in> set (called (monitor s'))"
proof -
  obtain xs ys where run: "running (monitor s) = xs @ (e, i, False) # ys"
    using split_list [OF e] by blast
  let ?M = "(monitor s)\<lparr>running := xs @ (e, i, True) # ys, called := i # called (monitor s)\<rparr>"
  have "node_step uuid_string a N (N\<lparr>nodes := (nodes N)(a \<mapsto> s\<lparr>monitor := ?M\<rparr>)\<rparr>)"
    by (rule waiter_moves [OF a _ mon_step.user_callback [OF run]]) (auto simp: fired_def run)
  then show ?thesis
    by (intro exI conjI) auto
qed

lemma callback_follows:
  assumes inv: "net_inv uuid_string N" and a: "nodes N a = Some s" "m_pid a \<notin> exited N"
    and e: "(e, i) \<in> set (alive (monitor s))" "handle_set uuid_string N s (e, i)"
  shows "\<exists>N' s'. own_run uuid_string a N N' \<and> nodes N' a = Some s' \<and> i \<in> set (called (monitor s'))"
proof -
  have gone: "\<not> gone s"
    by (rule alive_not_gone [OF net_invD(1) [OF inv a(1)] e(1)])
  note once = own_run.own_next [OF own_run.own_here]
  show ?thesis
  proof (cases "i \<in> isCalled (monitor s)")
    case True
    then consider "i \<in> set (called (monitor s))" | f where "(f, i, False) \<in> set (running (monitor s))"
      using net_invD(2) [OF inv a(1)] by (auto simp: flags_ok_def)
    then show ?thesis
      using a(1) own_run.own_here user_callback_follows [OF a gone] once by cases blast+
  next
    case False
    let ?M = "(monitor s)\<lparr>isCalled := insert i (isCalled (monitor s)), running := (e, i, False) # running (monitor s)\<rparr>"
    let ?N = "N\<lparr>nodes := (nodes N)(a \<mapsto> s\<lparr>monitor := ?M\<rparr>)\<rparr>"
    have fire: "node_step uuid_string a N ?N"
      by (intro waiter_moves [OF a gone _ mon_step.fire_first [OF e(1) False]]) (use e(2) in \<open>auto simp: fired_def\<close>)
    obtain N' s' where "node_step uuid_string a ?N N'" "nodes N' a = Some s'" "i \<in> set (called (monitor s'))"
      using user_callback_follows [of ?N a "s\<lparr>monitor := ?M\<rparr>" e i uuid_string] a gone by auto
    then show ?thesis
      using own_run.own_next [OF once [OF fire]] by blast
  qed
qed

text \<open>
  A registration of an end point that is over has no handle set only while \<open>Register\<close> is between the two waiters
  and the process of the end point has exited: then it has nothing left to do but to throw.
\<close>

definition cannot_open :: "Network \<Rightarrow> Lifetime \<Rightarrow> EndPointInfo \<times> nat \<Rightarrow> bool" where
  "cannot_open N s r \<longleftrightarrow> candidate (monitor s) = Some r \<and> \<not> m_processWaiter (monitor s) \<and> m_pid (fst r) \<in> exited N"

lemma no_handle_set:
  assumes "inj uuid_string" and inv: "net_inv uuid_string N" and "(e, i) \<in> set (alive (monitor s))" "is_over N e"
    and "\<not> handle_set uuid_string N s (e, i)"
  shows "cannot_open N s (e, i)"
  using assms(3-5) unfolding handle_set_def is_over_def fst_conv signalled_iff [OF assms(1,2)]
  by (cases "candidate (monitor s)") (auto simp: cannot_open_def has_process_waiter_def)

lemma Register_throws:
  assumes inv: "net_inv uuid_string N" and a: "nodes N a = Some s" "m_pid a \<notin> exited N"
    and r: "cannot_open N s (e, i)" "\<not> handle_set uuid_string N s (e, i)" and x: "Verify h False err = Inl x"
  shows "\<exists>M. mon_step (Finish (Inl x)) (monitor s) M \<and> i \<notin> snd ` set (alive M) \<and>
    node_step uuid_string a N (N\<lparr>nodes := (nodes N)(a \<mapsto> s\<lparr>monitor := M\<rparr>)\<rparr>)"
proof -
  let ?M = "(monitor s)\<lparr>candidate := None, m_processWaiter := False, client := None\<rparr>"
  note ok = net_invD(1) [OF inv a(1)]
  note mon = mon_invD [OF life_okD(1) [OF ok]]
  have cand: "candidate (monitor s) = Some (e, i)" "\<not> m_processWaiter (monitor s)"
    using r(1) by (simp_all add: cannot_open_def)
  then have "i \<notin> isCalled (monitor s)"
    using net_invD(4) [OF inv a(1), of e i] r(2) by auto
  then have idle: "i \<notin> set (running_ids (monitor s))"
    using mon(7) by (auto simp: running_ids_def)
  have step: "mon_step (Finish (Inl x)) (monitor s) ?M"
    by (rule mon_step.no_process [OF cand idle x])
  have "owned s"
    using mon(11) [OF cand(1)] life_okD(3) [OF ok] by force
  then have "life_step s (s\<lparr>monitor := ?M\<rparr>)"
    using step by (intro life_step.client_step) (simp_all add: of_client_def)
  then have "node_step uuid_string a N (N\<lparr>nodes := (nodes N)(a \<mapsto> s\<lparr>monitor := ?M\<rparr>), signalled := SetEvent uuid_string a s (s\<lparr>monitor := ?M\<rparr>) (signalled N)\<rparr>)"
    by (intro node_step.node [OF a]) (simp_all add: opened_def process_opened_def fired_def)
  moreover have "i \<notin> snd ` set (alive ?M)"
    using mon(2) cand(1) by simp
  ultimately show ?thesis
    using step by (intro exI [of _ ?M]) (simp add: SetEvent_same)
qed

section \<open>A run\<close>

definition client_of :: EndPointInfo where
  "client_of = \<lparr>m_pid = 1, m_uuid = 7\<rparr>"

definition server_of :: EndPointInfo where
  "server_of = \<lparr>m_pid = 2, m_uuid = 8\<rparr>"

definition decimal :: "uuid \<Rightarrow> string" where
  "decimal u = to_string (unat u)"

lemma inj_decimal: "inj decimal"
  by (rule injI) (simp add: decimal_def to_string_inj word_unat_eq_iff)

lemma net_create_to:
  "net_run uuid_string N0 N \<Longrightarrow> m_pid a \<notin> exited N \<Longrightarrow> m_uuid a \<notin> m_uuid ` dom (nodes N) \<Longrightarrow>
    N' = N\<lparr>nodes := (nodes N)(a \<mapsto> Lifetime_new)\<rparr> \<Longrightarrow> net_run uuid_string N0 N'"
  using net_run.net_next net_step.create [of a "m_pid a" "m_uuid a" N uuid_string] by (simp add: EndPointInfoFactory_Create_def)

lemma net_node_to:
  assumes "net_run uuid_string N0 N" and "nodes N a = Some s" "m_pid a \<notin> exited N" "life_step s s'"
    and "\<And>e. opened s s' e \<Longrightarrow> event_exists uuid_string N (StringConverter uuid_string e)"
    and "\<And>e. process_opened s s' e \<Longrightarrow> m_pid e \<notin> exited N"
    and "\<And>r. fired s s' r \<Longrightarrow> handle_set uuid_string N s r"
    and "N' = N\<lparr>nodes := (nodes N)(a \<mapsto> s'), signalled := SetEvent uuid_string a s s' (signalled N)\<rparr>"
  shows "net_run uuid_string N0 N'"
  using net_run.net_next [OF assms(1) net_step.monitor_step [OF node_step.node [OF assms(2-7)]]] assms(8) by simp

text \<open>A client registers the end point of a server, whose monitor is then destroyed.\<close>

definition client_at :: "Monitor \<Rightarrow> Lifetime" where
  "client_at M = Lifetime_new\<lparr>monitor := M\<rparr>"

definition net_at :: "Lifetime \<Rightarrow> Lifetime \<Rightarrow> string set \<Rightarrow> Network" where
  "net_at c s names = \<lparr>nodes = [client_of \<mapsto> c, server_of \<mapsto> s], signalled = names, exited = {}\<rparr>"

definition server_ended :: Lifetime where
  "server_ended = Lifetime_new\<lparr>owned := False, destroyer := Some ByClient\<rparr>"

definition registered_net :: Network where
  "registered_net = net_at (client_at (Monitor.make [(server_of, 0)] [] None False {} [] [] 1 None)) server_ended {StringConverter decimal server_of}"

lemma end_points_differ [simp]: "client_of \<noteq> server_of" "server_of \<noteq> client_of" "m_uuid client_of \<noteq> m_uuid server_of" "m_uuid server_of \<noteq> m_uuid client_of"
  by (simp_all add: client_of_def server_of_def)

lemma client_moves:
  assumes "net_run decimal Network_new (net_at (client_at M) s names)" and "of_client l" "mon_step l M M'"
    and "\<And>e. opened (client_at M) (client_at M') e \<Longrightarrow> event_exists decimal (net_at (client_at M) s names) (StringConverter decimal e)"
    and "M'' = M'"
  shows "net_run decimal Network_new (net_at (client_at M'') s names)"
  unfolding assms(5)
proof (rule net_node_to [OF assms(1), where a = client_of])
  show "life_step (client_at M) (client_at M')"
    using life_step.client_step [of "client_at M" l M'] assms(2,3) by (simp add: client_at_def Lifetime_new_def)
  show "fired (client_at M) (client_at M') r \<Longrightarrow> handle_set decimal (net_at (client_at M) s names) (client_at M) r" for r
    using client_mon_step(1) [OF assms(3,2)] by (simp add: fired_def client_at_def)
qed (use assms(4) in \<open>auto simp: net_at_def SetEvent_def client_at_def fun_upd_twist\<close>)

lemma run_to_registered: "net_run decimal Network_new registered_net"
proof -
  have "net_run decimal Network_new \<lparr>nodes = [client_of \<mapsto> Lifetime_new], signalled = {}, exited = {}\<rparr>"
    by (rule net_create_to [OF net_run.net_here, where a = client_of]) (simp_all add: Network_new_def)
  then have "net_run decimal Network_new (net_at Lifetime_new Lifetime_new {})"
    by (rule net_create_to [where a = server_of]) (simp_all add: net_at_def fun_upd_twist)
  then have r0: "net_run decimal Network_new (net_at (client_at ConnectionMonitor_new) Lifetime_new {})"
    by (simp add: client_at_def Lifetime_new_def)
  have r1: "net_run decimal Network_new (net_at (client_at (Monitor.make [] [] None False {} [] [] 0 (Some ([], Register server_of)))) Lifetime_new {})"
    by (rule client_moves [OF r0, where l = Begin], simp add: of_client_def, rule mon_step.begin_op [where p = "Register server_of"])
      (simp_all add: ConnectionMonitor_new_def Monitor.defs opened_def client_at_def)
  have server_event: "event_exists decimal (net_at c Lifetime_new {}) (StringConverter decimal server_of)" for c
    unfolding event_exists_def by (intro exI [of _ server_of]) (simp add: net_at_def Lifetime_new_def)
  have r1': "net_run decimal Network_new
      (net_at (client_at (Monitor.make [] [] (Some (server_of, 0)) False {} [] [] 1 (Some ([], Register server_of)))) Lifetime_new {})"
    by (rule client_moves [OF r1, where l = Open], simp add: of_client_def, rule mon_step.open_event [where e = server_of])
      (use server_event in \<open>auto simp: Monitor.defs opened_def client_at_def\<close>)
  have r2: "net_run decimal Network_new
      (net_at (client_at (Monitor.make [] [] (Some (server_of, 0)) True {} [] [] 1 (Some ([], Register server_of)))) Lifetime_new {})"
    by (rule client_moves [OF r1', where l = OpenProcess], simp add: of_client_def, rule mon_step.open_process [where e = server_of and i = 0])
      (simp_all add: Monitor.defs opened_def client_at_def)
  have r3: "net_run decimal Network_new (net_at (client_at (Monitor.make [(server_of, 0)] [] None False {} [] [] 1 None)) Lifetime_new {})"
    by (rule client_moves [OF r2, where l = "Finish (Inr None)"], simp add: of_client_def,
        rule mon_step.registered [where e = server_of and i = 0]) (simp_all add: Monitor.defs opened_def client_at_def monitors_find_def)
  have "life_step Lifetime_new server_ended"
    using life_step.client_release [of Lifetime_new]
    by (simp add: Lifetime_new_def ConnectionMonitor_new_def use_count_def holders_def running_ids_def server_ended_def)
  then show ?thesis
    by (intro net_node_to [OF r3, where a = server_of and s = Lifetime_new and s' = server_ended])
      (simp_all add: net_at_def registered_net_def SetEvent_def server_ended_def opened_def process_opened_def fired_def Lifetime_new_def ConnectionMonitor_new_def)
qed

section \<open>Properties\<close>

text \<open>C31: A connection monitor raises no false alarm: when a callback is in progress for an end point, that end point is of a
  monitor whose destructor has begun, or whose process has exited.
\<close>

theorem no_false_alarm:
  assumes "inj uuid_string" and "net_run uuid_string Network_new N" and "nodes N a = Some s" and "(e, i, b) \<in> set (running (monitor s))"
  shows "is_over N e"
  by (rule running_over [OF assms(1) net_run_inv [OF assms(2,1) net_inv_new] assms(3,4)])

theorem no_false_alarm_witness:
  "\<exists>N s. net_run decimal Network_new N \<and> nodes N client_of = Some s \<and> running (monitor s) = [(server_of, 0, False)] \<and> is_over N server_of"
proof -
  let ?R = "Monitor.make [(server_of, 0)] [] None False {} [] [] 1 None"
  let ?M = "?R\<lparr>isCalled := {0}, running := [(server_of, 0, False)]\<rparr>"
  let ?N = "registered_net\<lparr>nodes := (nodes registered_net)(client_of \<mapsto> client_at ?M)\<rparr>"
  have "mon_step Fire ?R ?M"
    using mon_step.fire_first [of server_of 0 ?R] by (simp add: Monitor.defs alive_def)
  moreover have "fired (client_at ?R) (client_at ?M) r \<Longrightarrow> handle_set decimal registered_net (client_at ?R) r" for r
    by (auto simp: fired_def client_at_def Monitor.defs handle_set_def registered_net_def net_at_def)
  ultimately have "node_step decimal client_of registered_net ?N"
    using waiter_moves [of registered_net client_of "client_at ?R" Fire ?M decimal]
    by (simp add: registered_net_def net_at_def client_at_def Lifetime_new_def)
  then have run: "net_run decimal Network_new ?N"
    by (rule net_run.net_next [OF run_to_registered net_step.monitor_step])
  have node: "nodes ?N client_of = Some (client_at ?M)" and callback: "running (monitor (client_at ?M)) = [(server_of, 0, False)]"
    by (simp_all add: client_at_def)
  have "is_over ?N server_of"
    by (rule no_false_alarm [OF inj_decimal run node, of server_of 0 False]) (subst callback, simp)
  with run node callback show ?thesis
    by blast
qed

text \<open>C32: A disconnection is noticed. Take a monitor of a living process that has a registration, in the map or in the making, of
  an end point that is over. When one of its handles is set, its callback has been called, or the monitor can call it by
  steps of its own, without a step of any other process. No handle is set only while \<open>Register\<close> has opened the event and not yet
  the process, and the process of the end point has exited: then \<open>Register\<close> can throw, with which the registration is gone.
\<close>

theorem disconnection_noticed:
  assumes "inj uuid_string" and "net_run uuid_string Network_new N" and "nodes N a = Some s" and "m_pid a \<notin> exited N"
    and "(e, i) \<in> set (alive (monitor s))" and "is_over N e"
  shows "if handle_set uuid_string N s (e, i)
    then \<exists>N' s'. own_run uuid_string a N N' \<and> nodes N' a = Some s' \<and> i \<in> set (called (monitor s'))
    else cannot_open N s (e, i) \<and> (\<exists>x M. mon_step (Finish (Inl x)) (monitor s) M \<and> i \<notin> snd ` set (alive M) \<and>
      node_step uuid_string a N (N\<lparr>nodes := (nodes N)(a \<mapsto> s\<lparr>monitor := M\<rparr>)\<rparr>))"
proof (cases "handle_set uuid_string N s (e, i)")
  case True
  then show ?thesis
    using callback_follows [OF net_run_inv [OF assms(2,1) net_inv_new] assms(3-5)] by simp
next
  case False
  note inv = net_run_inv [OF assms(2,1) net_inv_new]
  have "Verify 0 False 87 = Inl (RuntimeException (''Invalid handle: '' @ to_string (unat (87 :: u32)) @ ''.''))"
    by (simp add: Verify_def)
  then show ?thesis
    using no_handle_set [OF assms(1) inv assms(5,6) False] Register_throws [OF inv assms(3,4) _ False] False by (simp (no_asm_simp)) blast
qed

theorem disconnection_noticed_witness:
  "\<exists>N' s'. own_run decimal client_of registered_net N' \<and> nodes N' client_of = Some s' \<and> 0 \<in> set (called (monitor s'))"
proof -
  let ?s = "client_at (Monitor.make [(server_of, 0)] [] None False {} [] [] 1 None)"
  have "handle_set decimal registered_net ?s (server_of, 0)"
    by (simp add: handle_set_def registered_net_def net_at_def)
  moreover have "if handle_set decimal registered_net ?s (server_of, 0)
    then \<exists>N' s'. own_run decimal client_of registered_net N' \<and> nodes N' client_of = Some s' \<and> 0 \<in> set (called (monitor s'))
    else cannot_open registered_net ?s (server_of, 0) \<and> (\<exists>x M. mon_step (Finish (Inl x)) (monitor ?s) M \<and> 0 \<notin> snd ` set (alive M) \<and>
      node_step decimal client_of registered_net (registered_net\<lparr>nodes := (nodes registered_net)(client_of \<mapsto> ?s\<lparr>monitor := M\<rparr>)\<rparr>))"
    by (rule disconnection_noticed [OF inj_decimal run_to_registered])
      (simp_all add: registered_net_def net_at_def client_at_def Monitor.defs alive_def is_over_def server_ended_def)
  ultimately show ?thesis
    by simp
qed

end
