(* ===== verification/L4_LockFree.thy ===== *)
theory L4_LockFree
  imports L4_TableMap
begin

text \<open>
  \<open>Get\<close> of \<open>inc/L4/HashTable/ReadWrite/HashTable.h\<close> takes no lock. This theory splits the operations
  on one bucket into their accesses to shared memory: a reader checks a tag, loads a data pointer,
  compares the record, follows \<open>m_next\<close>; a writer has the lock of the bucket, searches it, stores a data
  pointer and then a tag. The accesses of a reader and of the writers interleave, and buffers that
  nobody can have a pointer to come and go. The memory is sequentially consistent.
\<close>

section \<open>The reader\<close>

text \<open>
  Where \<open>Get\<close> is: at the check of the tag of slot \<open>i\<close> of entry \<open>j\<close> (with \<open>i = c_numDataPerEntry\<close> at the load
  of \<open>m_next\<close>), at the load of the data pointer, or at the comparison with the record of a pointer.
\<close>

datatype reader = Idle | At nat nat | Matched nat nat | Compare nat nat addr | Returned "Value option" | Threw error

fun reader_step :: "RecordSerializer \<Rightarrow> u8 \<Rightarrow> Key \<Rightarrow> memory \<Rightarrow> addr Entry list \<Rightarrow> reader \<Rightarrow> reader" where
  "reader_step rs tag key h es (At j i) =
     (if i < c_numDataPerEntry
      then if tag = m_tags (es ! j) ! i then Matched j i else At j (Suc i)
      else if Suc j < length es then At (Suc j) 0 else Returned None)"
| "reader_step rs tag key h es (Matched j i) =
     (case m_dataList (es ! j) ! i of None \<Rightarrow> At j (Suc i) | Some data \<Rightarrow> Compare j i data)"
| "reader_step rs tag key h es (Compare j i data) =
     (case load_record rs h data of
        Inl e \<Rightarrow> Threw e
      | Inr r \<Rightarrow> if Blob_eq (m_key r) key then Returned (Some (m_value r)) else At j (Suc i))"
| "reader_step rs tag key h es r = r"

fun active :: "reader \<Rightarrow> bool" where
  "active (At j i) = True"
| "active (Matched j i) = True"
| "active (Compare j i a) = True"
| "active r = False"

section \<open>The writers\<close>

text \<open>The two stores of \<open>UpdateRecord\<close>, in their order.\<close>

definition set_data :: "'d Entry list \<Rightarrow> nat \<Rightarrow> nat \<Rightarrow> 'd option \<Rightarrow> 'd Entry list" where
  "set_data es j i d = es[j := (es ! j)\<lparr>m_dataList := (m_dataList (es ! j))[i := d]\<rparr>]"

definition set_tag :: "'d Entry list \<Rightarrow> nat \<Rightarrow> nat \<Rightarrow> u8 \<Rightarrow> 'd Entry list" where
  "set_tag es j i t = es[j := (es ! j)\<lparr>m_tags := (m_tags (es ! j))[i := t]\<rparr>]"

lemma upd_slot_stores: "upd_slot es j i d t = set_tag (set_data es j i d) j i t"
  by (cases "j < length es"; cases "es ! j") (simp_all add: upd_slot_def set_tag_def set_data_def list_update_beyond)

text \<open>
  A writer that has the lock has found the slot and is about to store the new data pointer with the tag
  it will store afterwards, or has stored the pointer and is about to store the tag.
\<close>

datatype writer = Unlocked | Storing nat nat "addr option" u8 | Tagging nat nat u8

text \<open>
  \<open>b_created\<close> are the buffers that \<open>CreateRecordBuffer\<close> has made for this bucket and that are not stored
  yet; \<open>b_seen\<close> are the buffers that the bucket has pointed to since the reader started.
\<close>

record bucket =
  b_heap :: memory
  b_chain :: "addr Entry list"
  b_writer :: writer
  b_created :: "addr list"
  b_reader :: reader
  b_seen :: "addr set"

definition linked :: "bucket \<Rightarrow> addr set" where
  "linked s = set (slot_addrs (chain_slots (b_chain s)))"

text \<open>
  The steps of the threads on bucket \<open>b\<close> of a table with the buckets of \<open>T\<close>, while a reader looks for
  \<open>key\<close>. \<open>others\<close> is all that happens elsewhere: buffers of other buckets are made and freed, and a
  buffer that was replaced in this bucket is freed, but not while the reader may have a pointer to it,
  which is what the epochs are for (\<open>L4_EpochSafety\<close>).
\<close>

inductive bstep :: "RecordSerializer \<Rightarrow> allocator \<Rightarrow> SharedHashTable \<Rightarrow> nat \<Rightarrow> Key \<Rightarrow> bucket \<Rightarrow> bucket \<Rightarrow> bool"
  for rs alloc T b key where
  read: "active (b_reader s) \<Longrightarrow>
    reader_step rs (snd (GetBucketInfo T key)) key (b_heap s) (b_chain s) (b_reader s) = r \<Longrightarrow>
    bstep rs alloc T b key s (s\<lparr>b_reader := r, b_seen := (if active r then b_seen s else {})\<rparr>)"
| create: "key_bucket T k = b \<Longrightarrow> addable rs alloc k v \<Longrightarrow> CreateRecordBuffer rs alloc k v (b_heap s) = (Inr a, h) \<Longrightarrow>
    bstep rs alloc T b key s (s\<lparr>b_heap := h, b_created := a # b_created s\<rparr>)"
| add_search: "b_writer s = Unlocked \<Longrightarrow> a \<in> set (b_created s) \<Longrightarrow> load_record rs (b_heap s) a = Inr r \<Longrightarrow>
    GetBucketInfo T (m_key r) = (b', tag) \<Longrightarrow>
    add_chain rs (b_heap s) tag (m_key r) 0 (b_chain s) (Stat_new (ksize (m_key r)) (vsize (m_value r)) 0) None = Inr (stat, Some (j, i)) \<Longrightarrow>
    bstep rs alloc T b key s (s\<lparr>b_writer := Storing j i (Some a) tag,
      b_chain := (if st_isNewEntryAdded stat then b_chain s @ [new_Entry] else b_chain s)\<rparr>)"
| remove_search: "b_writer s = Unlocked \<Longrightarrow> GetBucketInfo T k = (b', tag) \<Longrightarrow> unat b' = b \<Longrightarrow>
    find_chain rs (b_heap s) tag k 0 (b_chain s) = Inr (Some (j, i, v)) \<Longrightarrow>
    bstep rs alloc T b key s (s\<lparr>b_writer := Storing j i None 0\<rparr>)"
| store_data: "b_writer s = Storing j i d t \<Longrightarrow>
    bstep rs alloc T b key s (s\<lparr>b_writer := Tagging j i t, b_chain := set_data (b_chain s) j i d,
      b_created := (case d of None \<Rightarrow> b_created s | Some a \<Rightarrow> remove1 a (b_created s)),
      b_seen := (case d of None \<Rightarrow> b_seen s | Some a \<Rightarrow> if active (b_reader s) then insert a (b_seen s) else b_seen s)\<rparr>)"
| store_tag: "b_writer s = Tagging j i t \<Longrightarrow>
    bstep rs alloc T b key s (s\<lparr>b_writer := Unlocked, b_chain := set_tag (b_chain s) j i t\<rparr>)"
| others: "finite (dom h) \<Longrightarrow> (\<And>a. a \<in> linked s \<union> set (b_created s) \<union> b_seen s \<Longrightarrow> h a = b_heap s a) \<Longrightarrow>
    bstep rs alloc T b key s (s\<lparr>b_heap := h\<rparr>)"

text \<open>A bucket starts empty; \<open>Get\<close> may be called whenever the reader is not active.\<close>

definition empty_bucket :: "memory \<Rightarrow> bucket" where
  "empty_bucket h = \<lparr>b_heap = h, b_chain = [new_Entry], b_writer = Unlocked, b_created = [], b_reader = Idle, b_seen = {}\<rparr>"

definition start_get :: "bucket \<Rightarrow> bucket" where
  "start_get s = s\<lparr>b_reader := At 0 0, b_seen := linked s\<rparr>"

inductive breach :: "RecordSerializer \<Rightarrow> allocator \<Rightarrow> SharedHashTable \<Rightarrow> nat \<Rightarrow> Key \<Rightarrow> bucket \<Rightarrow> bool"
  for rs alloc T b key where
  breach_start: "finite (dom h) \<Longrightarrow> breach rs alloc T b key (empty_bucket h)"
| breach_get: "breach rs alloc T b key s \<Longrightarrow> \<not> active (b_reader s) \<Longrightarrow> breach rs alloc T b key (start_get s)"
| breach_step: "breach rs alloc T b key s \<Longrightarrow> bstep rs alloc T b key s s' \<Longrightarrow> breach rs alloc T b key s'"

text \<open>The states from the call of one \<open>Get\<close> to its return, the newest first.\<close>

inductive get_run :: "RecordSerializer \<Rightarrow> allocator \<Rightarrow> SharedHashTable \<Rightarrow> nat \<Rightarrow> Key \<Rightarrow> bucket list \<Rightarrow> bool"
  for rs alloc T b key where
  get_called: "breach rs alloc T b key s \<Longrightarrow> \<not> active (b_reader s) \<Longrightarrow> get_run rs alloc T b key [start_get s]"
| get_step: "get_run rs alloc T b key (s # ss) \<Longrightarrow> active (b_reader s) \<Longrightarrow> bstep rs alloc T b key s s' \<Longrightarrow> get_run rs alloc T b key (s' # s # ss)"

inductive_cases get_run_NilE: "get_run rs alloc T b key []"

text \<open>
  What the bucket stores for a key, tags or not, and whether a reader that ran alone would find it.
\<close>

definition stored :: "RecordSerializer \<Rightarrow> bucket \<Rightarrow> Key \<rightharpoonup> Value" where
  "stored rs s = map_of (bucket_kvs rs (b_heap s) (b_chain s))"

definition shown_at :: "RecordSerializer \<Rightarrow> SharedHashTable \<Rightarrow> Key \<Rightarrow> bucket \<Rightarrow> nat \<Rightarrow> nat \<Rightarrow> bool" where
  "shown_at rs T key s j i \<longleftrightarrow> (\<exists>a v. match_at rs (b_heap s) (snd (GetBucketInfo T key)) key (b_chain s) j i a v)"

definition shown :: "RecordSerializer \<Rightarrow> SharedHashTable \<Rightarrow> Key \<Rightarrow> bucket \<Rightarrow> bool" where
  "shown rs T key s \<longleftrightarrow> (\<exists>j i. shown_at rs T key s j i)"

end
