(* ===== verification/L4_LockFreeProps.thy ===== *)
theory L4_LockFreeProps
  imports L4_LockFree
begin

text \<open>
  The invariant of the interleaved steps of \<open>L4_LockFree\<close>: the bucket is well formed once the pending
  tag is stored, what the writer in the critical section knows, and where the reader is.
\<close>

section \<open>The two stores of a writer\<close>

lemma set_data_upd: "set_data es j i d = upd_slot es j i d (m_tags (es ! j) ! i)"
  by (cases "es ! j") (simp add: upd_slot_def set_data_def)

lemma set_tag_upd: "set_tag es j i t = upd_slot es j i (m_dataList (es ! j) ! i) t"
  by (cases "es ! j") (simp add: upd_slot_def set_tag_def)

lemma length_stores [simp]: "length (set_data es j i d) = length es" "length (set_tag es j i t) = length es"
  by (simp_all add: set_data_def set_tag_def)

lemma upd_slot_chain_ok: "chain_ok es \<Longrightarrow> j < length es \<Longrightarrow> chain_ok (upd_slot es j i d t)"
  using upd_slot_entry_ok [of es j i d t] by (auto simp: chain_ok_def simp flip: length_0_conv)

lemma set_tag_chain_ok: "chain_ok (set_tag es j i t) \<longleftrightarrow> chain_ok es"
proof -
  have "entry_ok (set_tag es j i t ! k) \<longleftrightarrow> entry_ok (es ! k)" if "k < length es" for k
    using that by (cases "j = k") (simp_all add: set_tag_def entry_ok_def)
  then have "(\<forall>e\<in>set (set_tag es j i t). entry_ok e) \<longleftrightarrow> (\<forall>e\<in>set es. entry_ok e)"
    by (simp add: all_set_conv_all_nth)
  then show ?thesis
    unfolding chain_ok_def by (metis length_0_conv length_stores(2))
qed

text \<open>A slot of a chain, and the chain after either store.\<close>

lemma slot_stores:
  assumes "chain_ok es" "j < length es" "i < c_numDataPerEntry"
  obtains xs ys where "chain_slots es = xs @ (m_tags (es ! j) ! i, m_dataList (es ! j) ! i) # ys"
    "\<And>d. chain_slots (set_data es j i d) = xs @ (m_tags (es ! j) ! i, d) # ys"
    "\<And>t. chain_slots (set_tag es j i t) = xs @ (t, m_dataList (es ! j) ! i) # ys"
    "\<And>d t. chain_slots (upd_slot es j i d t) = xs @ (t, d) # ys"
  using position_slot [OF assms] by (metis set_data_upd set_tag_upd)

lemma bucket_kvs_set_tag:
  assumes "chain_ok es" "j < length es" "i < c_numDataPerEntry"
  shows "bucket_kvs rs h (set_tag es j i t) = bucket_kvs rs h es"
proof -
  obtain xs ys where "chain_slots es = xs @ (m_tags (es ! j) ! i, m_dataList (es ! j) ! i) # ys"
    "chain_slots (set_tag es j i t) = xs @ (t, m_dataList (es ! j) ! i) # ys"
    using slot_stores [OF assms] by metis
  then show ?thesis
    by (cases "m_dataList (es ! j) ! i") (simp_all add: bucket_kvs_def)
qed

text \<open>The fields of the other slots stay.\<close>

lemma stores_nth:
  "j < length es \<Longrightarrow> m_tags (set_data es j0 i0 d ! j) ! i = m_tags (es ! j) ! i"
  "j < length es \<Longrightarrow> m_dataList (set_tag es j0 i0 t ! j) ! i = m_dataList (es ! j) ! i"
  "j < length es \<Longrightarrow> (j, i) \<noteq> (j0, i0) \<Longrightarrow> m_dataList (set_data es j0 i0 d ! j) ! i = m_dataList (es ! j) ! i"
  "j < length es \<Longrightarrow> (j, i) \<noteq> (j0, i0) \<Longrightarrow> m_tags (set_tag es j0 i0 t ! j) ! i = m_tags (es ! j) ! i"
  by (cases "j0 = j"; auto simp: set_data_def set_tag_def)+

lemma stores_here:
  assumes "chain_ok es" "j < length es" "i < c_numDataPerEntry"
  shows "m_dataList (set_data es j i d ! j) ! i = d" "m_tags (set_tag es j i t ! j) ! i = t"
proof -
  have "entry_ok (es ! j)"
    using assms by (simp add: chain_ok_def)
  then show "m_dataList (set_data es j i d ! j) ! i = d" "m_tags (set_tag es j i t ! j) ! i = t"
    using assms(2,3) by (simp_all add: set_data_def set_tag_def entry_ok_def)
qed

section \<open>The invariant\<close>

definition settled :: "bucket \<Rightarrow> addr Entry list" where
  "settled s = (case b_writer s of Tagging j i t \<Rightarrow> set_tag (b_chain s) j i t | _ \<Rightarrow> b_chain s)"

lemma settled_simps [simp]:
  "settled (s\<lparr>b_heap := h\<rparr>) = settled s" "settled (s\<lparr>b_created := cs\<rparr>) = settled s"
  "settled (s\<lparr>b_reader := r, b_seen := seen\<rparr>) = settled s"
  by (simp_all add: settled_def split: writer.split)

definition in_range :: "addr Entry list \<Rightarrow> nat \<Rightarrow> nat \<Rightarrow> bool" where
  "in_range es j i \<longleftrightarrow> j < length es \<and> i < c_numDataPerEntry"

definition belongs :: "RecordSerializer \<Rightarrow> SharedHashTable \<Rightarrow> nat \<Rightarrow> memory \<Rightarrow> addr \<Rightarrow> Key \<Rightarrow> Value \<Rightarrow> u8 \<Rightarrow> bool" where
  "belongs rs T b h a k v t \<longleftrightarrow> load_record rs h a = Inr \<lparr>m_key = k, m_value = v\<rparr> \<and> key_bucket T k = b \<and> snd (GetBucketInfo T k) = t"

text \<open>The slot that a writer has found: the one of the record of its key, or a free one for a key that is not stored.\<close>

definition target_ok :: "RecordSerializer \<Rightarrow> bucket \<Rightarrow> nat \<Rightarrow> nat \<Rightarrow> Key \<Rightarrow> bool" where
  "target_ok rs s j i k \<longleftrightarrow> (case m_dataList (b_chain s ! j) ! i of
     None \<Rightarrow> stored rs s k = None
   | Some a0 \<Rightarrow> \<exists>v. load_record rs (b_heap s) a0 = Inr \<lparr>m_key = k, m_value = v\<rparr>)"

lemma target_ok_cong:
  "b_chain s' = b_chain s \<Longrightarrow> b_heap s' = b_heap s \<Longrightarrow> target_ok rs s' j i k = target_ok rs s j i k"
  by (simp add: target_ok_def stored_def split: option.split)

fun writer_ok :: "RecordSerializer \<Rightarrow> SharedHashTable \<Rightarrow> nat \<Rightarrow> bucket \<Rightarrow> writer \<Rightarrow> bool" where
  "writer_ok rs T b s Unlocked = True"
| "writer_ok rs T b s (Storing j i None t) = (in_range (b_chain s) j i \<and> t = 0 \<and> m_dataList (b_chain s ! j) ! i \<noteq> None)"
| "writer_ok rs T b s (Storing j i (Some a) t) = (in_range (b_chain s) j i \<and> a \<in> set (b_created s) \<and>
     (\<exists>k v. belongs rs T b (b_heap s) a k v t \<and> target_ok rs s j i k))"
| "writer_ok rs T b s (Tagging j i t) = in_range (b_chain s) j i"

fun reader_ok :: "bucket \<Rightarrow> reader \<Rightarrow> bool" where
  "reader_ok s (At j i) = (j < length (b_chain s) \<and> i \<le> c_numDataPerEntry)"
| "reader_ok s (Matched j i) = in_range (b_chain s) j i"
| "reader_ok s (Compare j i a) = (in_range (b_chain s) j i \<and> a \<in> b_seen s)"
| "reader_ok s (Threw e) = False"
| "reader_ok s r = True"

definition binv :: "RecordSerializer \<Rightarrow> SharedHashTable \<Rightarrow> nat \<Rightarrow> bucket \<Rightarrow> bool" where
  "binv rs T b s \<longleftrightarrow> bucket_ok rs (b_heap s) T b (settled s) \<and> finite (dom (b_heap s)) \<and> writer_ok rs T b s (b_writer s) \<and>
     (\<forall>a\<in>set (b_created s). \<exists>k v t. belongs rs T b (b_heap s) a k v t) \<and> reader_ok s (b_reader s) \<and>
     (active (b_reader s) \<longrightarrow> linked s \<subseteq> b_seen s) \<and> (\<forall>a\<in>b_seen s. \<exists>r. load_record rs (b_heap s) a = Inr r)"

lemma binvD:
  assumes "binv rs T b s"
  shows "bucket_ok rs (b_heap s) T b (settled s)" and "finite (dom (b_heap s))" and "writer_ok rs T b s (b_writer s)"
    and "a \<in> set (b_created s) \<Longrightarrow> \<exists>k v t. belongs rs T b (b_heap s) a k v t" and "reader_ok s (b_reader s)"
    and "active (b_reader s) \<Longrightarrow> linked s \<subseteq> b_seen s" and "a \<in> b_seen s \<Longrightarrow> \<exists>r. load_record rs (b_heap s) a = Inr r"
  using assms unfolding binv_def by blast+

lemma binvI:
  assumes "bucket_ok rs (b_heap s) T b (settled s)" and "finite (dom (b_heap s))" and "writer_ok rs T b s (b_writer s)"
    and "\<And>a. a \<in> set (b_created s) \<Longrightarrow> \<exists>k v t. belongs rs T b (b_heap s) a k v t" and "reader_ok s (b_reader s)"
    and "active (b_reader s) \<Longrightarrow> linked s \<subseteq> b_seen s" and "\<And>a. a \<in> b_seen s \<Longrightarrow> \<exists>r. load_record rs (b_heap s) a = Inr r"
  shows "binv rs T b s"
  using assms unfolding binv_def by blast

lemma binv_chain_ok:
  assumes "binv rs T b s"
  shows "chain_ok (b_chain s)"
proof -
  have "chain_ok (settled s)"
    using binvD(1) [OF assms] by (simp add: bucket_ok_def)
  then show ?thesis
    by (cases "b_writer s") (simp_all add: settled_def set_tag_chain_ok)
qed

lemma settled_kvs:
  assumes "binv rs T b s"
  shows "bucket_kvs rs h (settled s) = bucket_kvs rs h (b_chain s)"
  using bucket_kvs_set_tag [OF binv_chain_ok [OF assms]] binvD(3) [OF assms]
  by (cases "b_writer s") (simp_all add: settled_def in_range_def)

lemma set_tag_addrs:
  assumes "chain_ok es" "j < length es" "i < c_numDataPerEntry"
  shows "slot_addrs (chain_slots (set_tag es j i t)) = slot_addrs (chain_slots es)"
proof -
  obtain xs ys where "chain_slots es = xs @ (m_tags (es ! j) ! i, m_dataList (es ! j) ! i) # ys"
    "chain_slots (set_tag es j i t) = xs @ (t, m_dataList (es ! j) ! i) # ys"
    using slot_stores [OF assms] by metis
  then show ?thesis
    by (cases "m_dataList (es ! j) ! i") simp_all
qed

lemma settled_linked:
  assumes "binv rs T b s"
  shows "set (slot_addrs (chain_slots (settled s))) = linked s"
  using set_tag_addrs [OF binv_chain_ok [OF assms]] binvD(3) [OF assms]
  by (cases "b_writer s") (simp_all add: settled_def in_range_def linked_def)

lemma binv_loads:
  assumes "binv rs T b s"
  shows "a \<in> linked s \<Longrightarrow> \<exists>r. load_record rs (b_heap s) a = Inr r" "\<forall>e\<in>set (b_chain s). loads rs (b_heap s) e"
proof -
  have addrs: "\<exists>r. load_record rs (b_heap s) a = Inr r" if "a \<in> linked s" for a
    using that bucket_slot [OF binvD(1) [OF assms]] unfolding settled_linked [OF assms, symmetric] in_slot_addrs by blast
  show "a \<in> linked s \<Longrightarrow> \<exists>r. load_record rs (b_heap s) a = Inr r"
    by (rule addrs)
  show "\<forall>e\<in>set (b_chain s). loads rs (b_heap s) e"
  proof (clarsimp simp: loads_def)
    fix e i a
    assume e: "e \<in> set (b_chain s)" "i < c_numDataPerEntry" "m_dataList e ! i = Some a"
    then obtain j where j: "j < length (b_chain s)" "b_chain s ! j = e"
      by (metis in_set_conv_nth)
    obtain xs ys where "chain_slots (b_chain s) = xs @ (m_tags e ! i, Some a) # ys"
      using slot_stores [OF binv_chain_ok [OF assms] j(1) e(2)] j(2) e(3) by metis
    then have "a \<in> linked s"
      by (simp add: linked_def)
    then show "\<exists>r. load_record rs (b_heap s) a = Inr r"
      by (rule addrs)
  qed
qed

text \<open>A pointer in a slot is linked.\<close>

lemma slot_linked:
  assumes "binv rs T b s" "in_range (b_chain s) j i" "m_dataList (b_chain s ! j) ! i = Some a"
  shows "a \<in> linked s"
proof -
  obtain xs ys where "chain_slots (b_chain s) = xs @ (m_tags (b_chain s ! j) ! i, Some a) # ys"
    using slot_stores [OF binv_chain_ok [OF assms(1)], of j i] assms(2,3) unfolding in_range_def by metis
  then show ?thesis
    by (simp add: linked_def)
qed

section \<open>Every step keeps the invariant\<close>

subsection \<open>Activity elsewhere\<close>

definition same_buffers :: "bucket \<Rightarrow> memory \<Rightarrow> bool" where
  "same_buffers s h \<longleftrightarrow> (\<forall>a\<in>linked s \<union> set (b_created s) \<union> b_seen s. h a = b_heap s a)"

lemma load_record_cong: "h' a = h a \<Longrightarrow> load_record rs h' a = load_record rs h a"
  by (simp add: load_record_def)

lemma stored_heap: "same_buffers s h \<Longrightarrow> stored rs (s\<lparr>b_heap := h\<rparr>) = stored rs s"
  using bucket_kvs_heap [of "b_chain s" h "b_heap s" rs] by (simp add: stored_def same_buffers_def linked_def)

lemma match_at_linked: "binv rs T b s \<Longrightarrow> match_at rs h tag key (b_chain s) j i a v \<Longrightarrow> a \<in> linked s"
  using slot_linked unfolding match_at_def ematch_def in_range_def by blast

lemma shown_at_heap:
  assumes "binv rs T b s" "same_buffers s h"
  shows "shown_at rs T key (s\<lparr>b_heap := h\<rparr>) j i \<longleftrightarrow> shown_at rs T key s j i"
proof -
  have "match_at rs h t key (b_chain s) j i a v \<longleftrightarrow> match_at rs (b_heap s) t key (b_chain s) j i a v" for t a v
  proof (cases "a \<in> linked s")
    case True
    then have "load_record rs h a = load_record rs (b_heap s) a"
      using assms(2) by (intro load_record_cong) (simp add: same_buffers_def)
    then show ?thesis
      by (simp add: match_at_def ematch_def)
  next
    case False
    then show ?thesis
      using match_at_linked [OF assms(1)] by blast
  qed
  then show ?thesis
    by (simp add: shown_at_def)
qed

lemma writer_ok_heap:
  assumes inv: "binv rs T b s" and same: "same_buffers s h"
  shows "writer_ok rs T b (s\<lparr>b_heap := h\<rparr>) (b_writer s)"
proof (cases "b_writer s")
  case (Storing j i d t)
  show ?thesis
  proof (cases d)
    case None
    then show ?thesis
      using binvD(3) [OF inv] Storing by simp
  next
    case (Some a)
    then obtain k v where w: "in_range (b_chain s) j i" "a \<in> set (b_created s)" "belongs rs T b (b_heap s) a k v t" "target_ok rs s j i k"
      using binvD(3) [OF inv] Storing by auto
    have load: "load_record rs h x = load_record rs (b_heap s) x" if "x \<in> linked s \<union> set (b_created s)" for x
      using same that by (intro load_record_cong) (auto simp: same_buffers_def)
    have "belongs rs T b h a k v t"
      using w(2,3) load by (simp add: belongs_def)
    moreover have "target_ok rs (s\<lparr>b_heap := h\<rparr>) j i k"
    proof (cases "m_dataList (b_chain s ! j) ! i")
      case None
      then show ?thesis
        using w(4) stored_heap [OF same] by (simp add: target_ok_def)
    next
      case (Some a0)
      then show ?thesis
        using w(4) load [of a0] slot_linked [OF inv w(1)] by (simp add: target_ok_def)
    qed
    ultimately show ?thesis
      using w(1,2) Storing Some by auto
  qed
qed (use binvD(3) [OF inv] in simp_all)

lemma reader_ok_heap: "reader_ok (s\<lparr>b_heap := h\<rparr>) r = reader_ok s r"
  by (cases r) simp_all

lemma binv_heap:
  assumes inv: "binv rs T b s" and "finite (dom h)" and same: "same_buffers s h"
  shows "binv rs T b (s\<lparr>b_heap := h\<rparr>)"
proof (rule binvI)
  have load: "load_record rs h x = load_record rs (b_heap s) x" if "x \<in> linked s \<union> set (b_created s) \<union> b_seen s" for x
    using same that by (intro load_record_cong) (auto simp: same_buffers_def)
  have "\<forall>a\<in>set (slot_addrs (chain_slots (settled s))). h a = b_heap s a"
    using same unfolding settled_linked [OF inv] same_buffers_def by blast
  from bucket_ok_heap [OF this] show "bucket_ok rs (b_heap (s\<lparr>b_heap := h\<rparr>)) T b (settled (s\<lparr>b_heap := h\<rparr>))"
    using binvD(1) [OF inv] by simp
  show "writer_ok rs T b (s\<lparr>b_heap := h\<rparr>) (b_writer (s\<lparr>b_heap := h\<rparr>))"
    using writer_ok_heap [OF inv same] by simp
  show "\<exists>k v t. belongs rs T b (b_heap (s\<lparr>b_heap := h\<rparr>)) a k v t" if "a \<in> set (b_created (s\<lparr>b_heap := h\<rparr>))" for a
    using binvD(4) [OF inv, of a] load [of a] that by (simp add: belongs_def)
  show "\<exists>r. load_record rs (b_heap (s\<lparr>b_heap := h\<rparr>)) a = Inr r" if "a \<in> b_seen (s\<lparr>b_heap := h\<rparr>)" for a
    using binvD(7) [OF inv, of a] load [of a] that by simp
qed (use binvD(5,6) [OF inv] assms(2) in \<open>simp_all add: reader_ok_heap linked_def\<close>)

text \<open>A new buffer is none of those.\<close>

lemma binv_allocated:
  assumes "binv rs T b s" "a \<in> linked s \<union> set (b_created s) \<union> b_seen s"
  shows "b_heap s a \<noteq> None"
proof -
  have "\<exists>r. load_record rs (b_heap s) a = Inr r"
    using assms binv_loads(1) [OF assms(1)] binvD(4,7) [OF assms(1)] unfolding belongs_def by blast
  then show ?thesis
    by (cases "b_heap s a") (simp_all add: load_record_def)
qed

lemma create_frame:
  assumes inv: "binv rs T b s" and add: "addable rs alloc k v" and run: "CreateRecordBuffer rs alloc k v (b_heap s) = (Inr a, h)"
  shows "same_buffers s h" "finite (dom h)" "load_record rs h a = Inr \<lparr>m_key = k, m_value = v\<rparr>"
proof -
  obtain a' where a': "b_heap s a' = None" "CreateRecordBuffer rs alloc k v (b_heap s) = (Inr a', (b_heap s)(a' \<mapsto> record_bytes rs k v))"
      "load_record rs ((b_heap s)(a' \<mapsto> record_bytes rs k v)) a' = Inr \<lparr>m_key = k, m_value = v\<rparr>"
    using CreateRecordBuffer_ok [OF add binvD(2) [OF inv]] by metis
  then have h: "a = a'" "h = (b_heap s)(a \<mapsto> record_bytes rs k v)"
    using run by auto
  have "a \<notin> linked s \<union> set (b_created s) \<union> b_seen s"
    using binv_allocated [OF inv] a'(1) h(1) by blast
  then show "same_buffers s h"
    by (auto simp: same_buffers_def h(2))
  show "finite (dom h)" "load_record rs h a = Inr \<lparr>m_key = k, m_value = v\<rparr>"
    using binvD(2) [OF inv] a'(3) by (simp_all add: h)
qed

lemma writer_ok_mono:
  assumes "writer_ok rs T b s w" "b_chain s' = b_chain s" "b_heap s' = b_heap s" "set (b_created s) \<subseteq> set (b_created s')" "w' = w"
  shows "writer_ok rs T b s' w'"
proof (cases w)
  case (Storing j i d t)
  then show ?thesis
    using assms target_ok_cong [OF assms(2,3)] by (cases d) (auto simp: in_range_def)
qed (use assms in \<open>simp_all add: in_range_def\<close>)

lemma binv_created:
  assumes inv: "binv rs T b s" and a: "belongs rs T b (b_heap s) a k v t"
  shows "binv rs T b (s\<lparr>b_created := a # b_created s\<rparr>)"
proof (rule binvI)
  let ?s = "s\<lparr>b_created := a # b_created s\<rparr>"
  show "writer_ok rs T b ?s (b_writer ?s)"
    using binvD(3) [OF inv] by (rule writer_ok_mono) auto
  show "\<exists>k v t. belongs rs T b (b_heap ?s) x k v t" if "x \<in> set (b_created ?s)" for x
    using binvD(4) [OF inv, of x] a that by auto
  show "reader_ok ?s (b_reader ?s)"
    using binvD(5) [OF inv] by (cases "b_reader s") simp_all
qed (use binvD(1,2,6,7) [OF inv] in \<open>simp_all add: linked_def\<close>)

subsection \<open>The reader\<close>

lemma reader_step_ok:
  assumes inv: "binv rs T b s" and act: "active (b_reader s)"
  shows "reader_ok s (reader_step rs tag key (b_heap s) (b_chain s) (b_reader s))"
proof (cases "b_reader s")
  case (At j i)
  then show ?thesis
    using binvD(5) [OF inv] by (auto simp: in_range_def)
next
  case (Matched j i)
  then have range: "in_range (b_chain s) j i"
    using binvD(5) [OF inv] by simp
  then show ?thesis
    using slot_linked [OF inv range] binvD(6) [OF inv act] Matched
    by (auto simp: in_range_def split: option.split)
next
  case (Compare j i a)
  then have "in_range (b_chain s) j i" "\<exists>r. load_record rs (b_heap s) a = Inr r"
    using binvD(5,7) [OF inv] by auto
  then show ?thesis
    using Compare by (auto simp: in_range_def)
qed (use act in simp_all)

lemma binv_read:
  assumes inv: "binv rs T b s" and act: "active (b_reader s)"
    and r: "r = reader_step rs tag key (b_heap s) (b_chain s) (b_reader s)"
  shows "binv rs T b (s\<lparr>b_reader := r, b_seen := (if active r then b_seen s else {})\<rparr>)" (is "binv rs T b ?s")
proof (rule binvI)
  show "writer_ok rs T b ?s (b_writer ?s)"
    using binvD(3) [OF inv] by (rule writer_ok_mono) simp_all
  have "reader_ok s r"
    using reader_step_ok [OF inv act] by (simp add: r)
  then show "reader_ok ?s (b_reader ?s)"
    by (cases r) simp_all
qed (use binvD(1,2,4,6,7) [OF inv] act in \<open>simp_all add: linked_def split: if_splits\<close>)

lemma binv_start:
  assumes inv: "binv rs T b s"
  shows "binv rs T b (start_get s)"
proof (rule binvI)
  show "writer_ok rs T b (start_get s) (b_writer (start_get s))"
    using binvD(3) [OF inv] by (rule writer_ok_mono) (simp_all add: start_get_def)
  show "reader_ok (start_get s) (b_reader (start_get s))"
    using binv_chain_ok [OF inv] by (simp add: start_get_def chain_ok_def)
qed (use binvD(1,2,4) [OF inv] binv_loads(1) [OF inv] in \<open>simp_all add: start_get_def linked_def\<close>)

subsection \<open>The writers\<close>

lemma reader_ok_mono:
  "reader_ok s r \<Longrightarrow> length (b_chain s) \<le> length (b_chain s') \<Longrightarrow> b_seen s \<subseteq> b_seen s' \<Longrightarrow> reader_ok s' r"
  by (cases r) (auto simp: in_range_def)

text \<open>The search of an \<open>Add\<close>: what \<open>add_chain\<close> finds, in a chain that may have a new entry.\<close>

lemma binv_add_search:
  assumes inv: "binv rs T b s" and free: "b_writer s = Unlocked" and a: "a \<in> set (b_created s)"
    and r: "load_record rs (b_heap s) a = Inr r" and bt: "GetBucketInfo T (m_key r) = (b', tag)"
    and run: "add_chain rs (b_heap s) tag (m_key r) 0 (b_chain s) (Stat_new (ksize (m_key r)) (vsize (m_value r)) 0) None = Inr (stat, Some (j, i))"
  shows "binv rs T b (s\<lparr>b_writer := Storing j i (Some a) tag,
    b_chain := (if st_isNewEntryAdded stat then b_chain s @ [new_Entry] else b_chain s)\<rparr>)" (is "binv rs T b ?s")
proof -
  have ok: "bucket_ok rs (b_heap s) T b (b_chain s)"
    using binvD(1) [OF inv] free by (simp add: settled_def)
  have "b_chain s \<noteq> []"
    using binv_chain_ok [OF inv] by (simp add: chain_ok_def)
  then have "add_outcome rs (b_heap s) tag (m_key r) 0 (b_chain s) (Stat_new (ksize (m_key r)) (vsize (m_value r)) 0) None stat (j, i)"
    using add_chain_spec [OF binv_loads(2) [OF inv], of None "Stat_new (ksize (m_key r)) (vsize (m_value r)) 0" tag "m_key r" 0] run
    by (auto simp: Stat_new_def)
  note pos = add_position [OF ok bt this]
  have kvs: "bucket_kvs rs (b_heap s) (b_chain ?s) = bucket_kvs rs (b_heap s) (b_chain s)"
    using bucket_ok_new(2) [OF ok] by simp
  have new: "bucket_ok rs (b_heap s) T b (b_chain ?s)"
    using bucket_ok_new(1) [OF ok] ok by simp
  have linked: "linked ?s = linked s"
    by (simp add: linked_def)
  obtain k v t where bel: "belongs rs T b (b_heap s) a k v t"
    using binvD(4) [OF inv a] by blast
  then have bel: "belongs rs T b (b_heap s) a (m_key r) v tag"
    using r bt by (auto simp: belongs_def)
  show ?thesis
  proof (rule binvI)
    show "bucket_ok rs (b_heap ?s) T b (settled ?s)"
      using new by (simp add: settled_def)
    have "in_range (b_chain ?s) j i" "target_ok rs ?s j i (m_key r)"
      using pos kvs by (auto simp: in_range_def target_ok_def stored_def split: option.splits)
    then show "writer_ok rs T b ?s (b_writer ?s)"
      using a bel by auto
    show "reader_ok ?s (b_reader ?s)"
      using reader_ok_mono [OF binvD(5) [OF inv], of ?s] by simp
  qed (use binvD(2,4,6,7) [OF inv] linked in simp_all)
qed

lemma binv_remove_search:
  assumes inv: "binv rs T b s" and free: "b_writer s = Unlocked"
    and run: "find_chain rs (b_heap s) tag k 0 (b_chain s) = Inr (Some (j, i, v))"
  shows "binv rs T b (s\<lparr>b_writer := Storing j i None 0\<rparr>)" (is "binv rs T b ?s")
proof (rule binvI)
  have "\<exists>a. match_at rs (b_heap s) tag k (b_chain s) j i a v"
    using find_chain_spec [OF binv_loads(2) [OF inv], of tag k 0] run by auto
  then show "writer_ok rs T b ?s (b_writer ?s)"
    by (auto simp: match_at_def ematch_def in_range_def)
  show "reader_ok ?s (b_reader ?s)"
    using reader_ok_mono [OF binvD(5) [OF inv], of ?s] by simp
qed (use binvD(1,2,4,6,7) [OF inv] free in \<open>simp_all add: settled_def linked_def\<close>)

lemma binv_store_tag:
  assumes inv: "binv rs T b s" and w: "b_writer s = Tagging j i t"
  shows "binv rs T b (s\<lparr>b_writer := Unlocked, b_chain := set_tag (b_chain s) j i t\<rparr>)" (is "binv rs T b ?s")
proof (rule binvI)
  have "in_range (b_chain s) j i"
    using binvD(3) [OF inv] w by simp
  then have linked: "linked ?s = linked s"
    using set_tag_addrs [OF binv_chain_ok [OF inv]] by (simp add: linked_def in_range_def)
  show "bucket_ok rs (b_heap ?s) T b (settled ?s)"
    using binvD(1) [OF inv] w by (simp add: settled_def)
  show "reader_ok ?s (b_reader ?s)"
    using reader_ok_mono [OF binvD(5) [OF inv], of ?s] by simp
  show "active (b_reader ?s) \<Longrightarrow> linked ?s \<subseteq> b_seen ?s"
    using binvD(6) [OF inv] unfolding linked by simp
qed (use binvD(2,4,7) [OF inv] in simp_all)

text \<open>The store of the data pointer: the settled bucket gets or loses a record.\<close>

lemma store_data_bucket:
  assumes inv: "binv rs T b s" and w: "b_writer s = Storing j i d t"
  shows "bucket_ok rs (b_heap s) T b (upd_slot (b_chain s) j i d t) \<and>
    (case d of
       None \<Rightarrow> \<exists>a0 k v. m_dataList (b_chain s ! j) ! i = Some a0 \<and> load_record rs (b_heap s) a0 = Inr \<lparr>m_key = k, m_value = v\<rparr> \<and>
         map_of (bucket_kvs rs (b_heap s) (upd_slot (b_chain s) j i d t)) = (stored rs s)(k := None)
     | Some a \<Rightarrow> \<exists>k v. belongs rs T b (b_heap s) a k v t \<and> target_ok rs s j i k \<and>
         map_of (bucket_kvs rs (b_heap s) (upd_slot (b_chain s) j i d t)) = (stored rs s)(k \<mapsto> v))"
proof -
  let ?es = "upd_slot (b_chain s) j i d t" and ?old = "m_dataList (b_chain s ! j) ! i"
  have ok: "bucket_ok rs (b_heap s) T b (b_chain s)"
    using binvD(1) [OF inv] w by (simp add: settled_def)
  have range: "j < length (b_chain s)" "i < c_numDataPerEntry"
    using binvD(3) [OF inv] w by (cases d; simp add: in_range_def)+
  obtain xs ys where slots: "chain_slots (b_chain s) = xs @ (m_tags (b_chain s ! j) ! i, ?old) # ys" "chain_slots ?es = xs @ (t, d) # ys"
    using slot_stores [OF binv_chain_ok [OF inv] range] by metis
  have chain: "chain_ok ?es"
    using upd_slot_chain_ok [OF binv_chain_ok [OF inv] range(1)] .
  show ?thesis
  proof (cases d)
    case None
    then obtain a0 where a0: "?old = Some a0"
      using binvD(3) [OF inv] w by auto
    then have "a0 \<in> linked s"
      using slot_linked [OF inv] range by (simp add: in_range_def)
    then obtain k v where r: "load_record rs (b_heap s) a0 = Inr \<lparr>m_key = k, m_value = v\<rparr>"
      using binv_loads(1) [OF inv] by (metis Record.cases)
    note res = bucket_ok_empty_slot [OF ok slots(1) [unfolded a0] r chain [unfolded None] slots(2) [unfolded None]]
    show ?thesis
      using res a0 r by (simp add: None stored_def)
  next
    case (Some a)
    then obtain k v where tgt: "belongs rs T b (b_heap s) a k v t" "target_ok rs s j i k"
      using binvD(3) [OF inv] w by auto
    note bel = tgt(1) [unfolded belongs_def]
    have old: "case ?old of None \<Rightarrow> map_of (bucket_kvs rs (b_heap s) (b_chain s)) k = None
      | Some a0 \<Rightarrow> \<exists>v. load_record rs (b_heap s) a0 = Inr \<lparr>m_key = k, m_value = v\<rparr>"
      using tgt(2) unfolding target_ok_def stored_def .
    note res = bucket_ok_fill_slot [OF ok slots(1) old _ _ _ chain [unfolded Some] slots(2) [unfolded Some], of v]
    show ?thesis
      using res bel tgt by (auto simp: Some stored_def)
  qed
qed

lemma binv_store_data:
  assumes inv: "binv rs T b s" and w: "b_writer s = Storing j i d t"
    and s': "s' = s\<lparr>b_writer := Tagging j i t, b_chain := set_data (b_chain s) j i d,
      b_created := (case d of None \<Rightarrow> b_created s | Some a \<Rightarrow> remove1 a (b_created s)),
      b_seen := (case d of None \<Rightarrow> b_seen s | Some a \<Rightarrow> if active (b_reader s) then insert a (b_seen s) else b_seen s)\<rparr>"
  shows "binv rs T b s'"
proof -
  have range: "in_range (b_chain s) j i"
    using binvD(3) [OF inv] w by (cases d) auto
  then obtain xs ys where slots: "chain_slots (b_chain s) = xs @ (m_tags (b_chain s ! j) ! i, m_dataList (b_chain s ! j) ! i) # ys"
      "chain_slots (set_data (b_chain s) j i d) = xs @ (m_tags (b_chain s ! j) ! i, d) # ys"
    using slot_stores [OF binv_chain_ok [OF inv]] unfolding in_range_def by metis
  have linked: "linked s' \<subseteq> linked s \<union> set_option d"
  proof -
    have "b_chain s' = set_data (b_chain s) j i d"
      by (simp add: s')
    then show ?thesis
      unfolding linked_def slots(1) by (simp add: slots(2) in_slot_addrs subset_iff) auto
  qed
  have loads: "\<exists>r. load_record rs (b_heap s) a = Inr r" if "d = Some a" for a
    using binvD(3) [OF inv] w that by (auto simp: belongs_def)
  have created: "set (b_created s') \<subseteq> set (b_created s)"
    by (cases d) (simp_all add: s' set_remove1_subset)
  show ?thesis
  proof (rule binvI)
    have "settled s' = upd_slot (b_chain s) j i d t"
      using range by (simp add: settled_def s' upd_slot_stores in_range_def)
    then show "bucket_ok rs (b_heap s') T b (settled s')"
      using store_data_bucket [OF inv w] by (simp add: s')
    show "writer_ok rs T b s' (b_writer s')"
      using range by (simp add: s' in_range_def)
    show "\<exists>k v t. belongs rs T b (b_heap s') a k v t" if "a \<in> set (b_created s')" for a
      using binvD(4) [OF inv, of a] that created by (auto simp: s')
    have "b_seen s \<subseteq> b_seen s'"
      by (cases d) (auto simp: s')
    then show "reader_ok s' (b_reader s')"
      using reader_ok_mono [OF binvD(5) [OF inv], of s'] by (simp add: s')
    show "linked s' \<subseteq> b_seen s'" if "active (b_reader s')"
      using linked binvD(6) [OF inv] that by (cases d) (auto simp: s')
    show "\<exists>r. load_record rs (b_heap s') a = Inr r" if "a \<in> b_seen s'" for a
      using binvD(7) [OF inv, of a] loads that by (cases d) (auto simp: s' split: if_splits)
  qed (use binvD(2) [OF inv] in \<open>simp add: s'\<close>)
qed

theorem bstep_binv: "bstep rs alloc T b key s s' \<Longrightarrow> binv rs T b s \<Longrightarrow> binv rs T b s'"
proof (induction rule: bstep.induct)
  case (read s r)
  then show ?case
    using binv_read by metis
next
  case (create k v s a h)
  note frame = create_frame [OF create.prems create.hyps(2,3)]
  have "binv rs T b (s\<lparr>b_heap := h\<rparr>)"
    by (rule binv_heap [OF create.prems frame(2,1)])
  moreover have "belongs rs T b (b_heap (s\<lparr>b_heap := h\<rparr>)) a k v (snd (GetBucketInfo T k))"
    using frame(3) create.hyps(1) by (simp add: belongs_def)
  ultimately show ?case
    using binv_created [of rs T b "s\<lparr>b_heap := h\<rparr>"] by simp
next
  case (store_data s j i d t)
  show ?case
    by (rule binv_store_data [OF store_data.prems store_data.hyps]) simp
next
  case (others h s)
  then show ?case
    by (intro binv_heap) (auto simp: same_buffers_def)
qed (rule binv_add_search binv_remove_search binv_store_tag, assumption+)+

lemma breach_binv: "breach rs alloc T b key s \<Longrightarrow> binv rs T b s"
proof (induction rule: breach.induct)
  case (breach_start h)
  have "bucket_kvs rs h [new_Entry] = []"
    using bucket_ok_new(2) by (simp add: bucket_kvs_def slots_kvs_new)
  then have "bucket_ok rs h T b [new_Entry]"
    by (simp add: bucket_ok_def chain_ok_def entry_slots_new slot_ok_def list_all_iff)
  then show ?case
    using breach_start by (simp add: binv_def empty_bucket_def settled_def)
next
  case (breach_get s)
  then show ?case
    using binv_start by blast
next
  case (breach_step s s')
  then show ?case
    using bstep_binv by blast
qed

end
