(* ===== verification/L4_LockFreeSpec.thy ===== *)
theory L4_LockFreeSpec
  imports L4_LockFreeProps
begin

text \<open>
  What the interleaved steps of \<open>L4_LockFree\<close> guarantee: a reader that runs alone computes \<open>Get\<close>, the
  steps of a writer make up \<open>Add\<close> and \<open>Remove\<close>, and a reader that runs among writers returns what the
  bucket stored at some time during its call.
\<close>

section \<open>Stored and shown records\<close>

lemma bucket_kvs_slot:
  assumes "chain_ok es" "in_range es j i" "m_dataList (es ! j) ! i = Some a" "load_record rs h a = Inr \<lparr>m_key = k, m_value = v\<rparr>"
  shows "(k, v) \<in> set (bucket_kvs rs h es)"
proof -
  obtain xs ys where "chain_slots es = xs @ (m_tags (es ! j) ! i, Some a) # ys"
    using slot_stores [OF assms(1), of j i] assms(2,3) unfolding in_range_def by metis
  then show ?thesis
    using assms(4) by (simp add: bucket_kvs_def in_rec_of)
qed

lemma stored_distinct:
  assumes "binv rs T b s"
  shows "stored rs s k = Some v \<longleftrightarrow> (k, v) \<in> set (bucket_kvs rs (b_heap s) (b_chain s))"
  using binvD(1) [OF assms] settled_kvs [OF assms] by (simp add: bucket_ok_def stored_def)

lemma slot_stored:
  assumes "binv rs T b s" "in_range (b_chain s) j i" "m_dataList (b_chain s ! j) ! i = Some a"
    "load_record rs (b_heap s) a = Inr \<lparr>m_key = k, m_value = v\<rparr>"
  shows "stored rs s k = Some v"
  using bucket_kvs_slot [OF binv_chain_ok [OF assms(1)] assms(2-4)] by (simp add: stored_distinct [OF assms(1)])

lemma shown_stored:
  assumes "binv rs T b s" "shown rs T k s"
  shows "stored rs s k \<noteq> None"
proof -
  obtain j i a v where "in_range (b_chain s) j i" "m_dataList (b_chain s ! j) ! i = Some a" "load_record rs (b_heap s) a = Inr \<lparr>m_key = k, m_value = v\<rparr>"
    using assms(2) by (auto simp: shown_def shown_at_def match_at_def ematch_def in_range_def)
  from slot_stored [OF assms(1) this] show ?thesis
    by simp
qed

text \<open>A stored record is shown unless an \<open>Add\<close> has stored its pointer and not yet its tag.\<close>

definition inserting :: "RecordSerializer \<Rightarrow> bucket \<Rightarrow> Key \<Rightarrow> bool" where
  "inserting rs s k \<longleftrightarrow> (\<exists>j i t a v. b_writer s = Tagging j i t \<and> m_dataList (b_chain s ! j) ! i = Some a \<and>
     load_record rs (b_heap s) a = Inr \<lparr>m_key = k, m_value = v\<rparr> \<and> m_tags (b_chain s ! j) ! i \<noteq> t)"

lemma stored_shown:
  assumes inv: "binv rs T b s" and st: "stored rs s k = Some v" and ins: "\<not> inserting rs s k"
  shows "shown rs T k s"
proof -
  obtain b' tag where bt: "GetBucketInfo T k = (b', tag)"
    by (cases "GetBucketInfo T k")
  have "(k, v) \<in> set (bucket_kvs rs (b_heap s) (settled s))"
    using st by (simp add: stored_distinct [OF inv] settled_kvs [OF inv])
  then obtain j i a where m: "match_at rs (b_heap s) tag k (settled s) j i a v"
    using bucket_kvs_match [OF binvD(1) [OF inv] bt] by blast
  have "match_at rs (b_heap s) tag k (b_chain s) j i a v"
  proof (cases "b_writer s")
    case (Tagging j0 i0 t)
    have len: "length (settled s) = length (b_chain s)"
      by (simp add: settled_def Tagging)
    then have range: "j < length (b_chain s)" "i < c_numDataPerEntry" and data: "m_dataList (b_chain s ! j) ! i = Some a"
      using m stores_nth(2) [of j "b_chain s"] by (auto simp: match_at_def ematch_def settled_def Tagging)
    have "m_tags (b_chain s ! j) ! i = tag"
    proof (cases "(j, i) = (j0, i0)")
      case True
      then have "t = tag"
        using m stores_here(2) [OF binv_chain_ok [OF inv] range] by (simp add: match_at_def ematch_def settled_def Tagging)
      then show ?thesis
        using ins True Tagging data m by (auto simp: inserting_def match_at_def ematch_def)
    next
      case False
      then show ?thesis
        using m stores_nth(4) [OF range(1) False] by (simp add: match_at_def ematch_def settled_def Tagging)
    qed
    then show ?thesis
      using m range data by (simp add: match_at_def ematch_def)
  qed (use m in \<open>simp_all add: settled_def\<close>)
  then show ?thesis
    using bt unfolding shown_def shown_at_def by auto
qed

section \<open>A record that is shown stays in its slot\<close>

lemma shown_at_cong: "b_chain s' = b_chain s \<Longrightarrow> b_heap s' = b_heap s \<Longrightarrow> shown_at rs T key s' j i = shown_at rs T key s j i"
  by (simp add: shown_at_def)

lemma shown_at_new: "shown_at rs T key s j i \<Longrightarrow> b_chain s' = b_chain s @ es \<Longrightarrow> b_heap s' = b_heap s \<Longrightarrow> shown_at rs T key s' j i"
  by (auto simp: shown_at_def match_at_def nth_append)

lemma store_data_stays:
  assumes inv: "binv rs T b s" and w: "b_writer s = Storing j0 i0 d t" and at: "shown_at rs T key s j i"
    and s': "b_chain s' = set_data (b_chain s) j0 i0 d" "b_heap s' = b_heap s" "b_writer s' = Tagging j0 i0 t"
    and inv': "binv rs T b s'" and sh: "shown rs T key s'"
  shows "shown_at rs T key s' j i"
proof -
  obtain a v where m: "j < length (b_chain s)" "i < c_numDataPerEntry" "m_tags (b_chain s ! j) ! i = snd (GetBucketInfo T key)"
      "m_dataList (b_chain s ! j) ! i = Some a" "load_record rs (b_heap s) a = Inr \<lparr>m_key = key, m_value = v\<rparr>"
    using at by (auto simp: shown_at_def match_at_def ematch_def)
  show ?thesis
  proof (cases "(j, i) = (j0, i0)")
    case False
    then show ?thesis
      using m stores_nth(1,3) [OF m(1)] unfolding shown_at_def match_at_def ematch_def s' by simp
  next
    case True
    show ?thesis
    proof (cases d)
      case None
      have "settled s' = upd_slot (b_chain s) j0 i0 d t"
        using True m(1) by (simp add: settled_def s' upd_slot_stores)
      then have "stored rs s' key = map_of (bucket_kvs rs (b_heap s) (upd_slot (b_chain s) j0 i0 d t)) key"
        using settled_kvs [OF inv'] by (metis s'(2) stored_def)
      also have "\<dots> = None"
        using store_data_bucket [OF inv w] None True m(4,5) by auto
      finally show ?thesis
        using shown_stored [OF inv' sh] by simp
    next
      case (Some a')
      then obtain k w where kw: "load_record rs (b_heap s) a' = Inr \<lparr>m_key = k, m_value = w\<rparr>" "target_ok rs s j0 i0 k"
        using store_data_bucket [OF inv w] by (auto simp: belongs_def)
      then have "k = key"
        using True m(4,5) by (simp add: target_ok_def)
      moreover have "m_dataList (b_chain s' ! j) ! i = Some a'"
        using stores_here(1) [OF binv_chain_ok [OF inv] m(1,2)] True Some by (simp add: s')
      ultimately show ?thesis
        using m kw(1) stores_nth(1) [OF m(1)] unfolding shown_at_def match_at_def ematch_def s' by auto
    qed
  qed
qed

lemma store_tag_stays:
  assumes inv: "binv rs T b s" and w: "b_writer s = Tagging j0 i0 t" and at: "shown_at rs T key s j i"
    and s': "b_chain s' = set_tag (b_chain s) j0 i0 t" "b_heap s' = b_heap s"
  shows "shown_at rs T key s' j i"
proof -
  obtain a v where m: "j < length (b_chain s)" "i < c_numDataPerEntry" "m_tags (b_chain s ! j) ! i = snd (GetBucketInfo T key)"
      "m_dataList (b_chain s ! j) ! i = Some a" "load_record rs (b_heap s) a = Inr \<lparr>m_key = key, m_value = v\<rparr>"
    using at by (auto simp: shown_at_def match_at_def ematch_def)
  have settled: "b_chain s' = settled s"
    by (simp add: settled_def w s')
  obtain b' tag where bt: "GetBucketInfo T key = (b', tag)"
    by (cases "GetBucketInfo T key")
  have "m_tags (settled s ! j) ! i = tag"
  proof -
    have "chain_ok (settled s)" "j < length (settled s)"
      using binvD(1) [OF inv] m(1) by (simp_all add: bucket_ok_def settled_def w)
    moreover have data: "m_dataList (settled s ! j) ! i = Some a"
      using stores_nth(2) [OF m(1)] m(4) by (simp add: settled_def w)
    ultimately have "(m_tags (settled s ! j) ! i, Some a) \<in> set (chain_slots (settled s))"
      using slot_stores [of "settled s" j i] m(2) by (metis in_set_conv_decomp)
    then show ?thesis
      using bucket_slot [OF binvD(1) [OF inv]] m(5) bt by fastforce
  qed
  then show ?thesis
    using m stores_nth(2) [OF m(1)] bt unfolding shown_at_def match_at_def ematch_def settled [symmetric] by (auto simp: s')
qed

lemma bstep_stays:
  "bstep rs alloc T b key s s' \<Longrightarrow> binv rs T b s \<Longrightarrow> shown_at rs T key s j i \<Longrightarrow> shown rs T key s' \<Longrightarrow> shown_at rs T key s' j i"
proof (induction rule: bstep.induct)
  case (create k v s a h)
  have "shown_at rs T key (s\<lparr>b_heap := h\<rparr>) j i"
    using shown_at_heap [OF create.prems(1) create_frame(1) [OF create.prems(1) create.hyps(2,3)]] create.prems(2) by blast
  then show ?case
    by (simp add: shown_at_def)
next
  case (add_search s a r b' tag stat j i)
  then show ?case
    by (auto intro: shown_at_new)
next
  case (store_data s j0 i0 d t)
  let ?s = "s\<lparr>b_writer := Tagging j0 i0 t, b_chain := set_data (b_chain s) j0 i0 d,
      b_created := (case d of None \<Rightarrow> b_created s | Some a \<Rightarrow> remove1 a (b_created s)),
      b_seen := (case d of None \<Rightarrow> b_seen s | Some a \<Rightarrow> if active (b_reader s) then insert a (b_seen s) else b_seen s)\<rparr>"
  have "binv rs T b ?s"
    by (rule binv_store_data [OF store_data.prems(1) store_data.hyps]) simp
  then show ?case
    using store_data_stays [OF store_data.prems(1) store_data.hyps store_data.prems(2), of ?s] store_data.prems(3) by simp
next
  case (store_tag s j0 i0 t)
  then show ?case
    using store_tag_stays [OF store_tag.prems(1) store_tag.hyps store_tag.prems(2)] by simp
next
  case (others h s)
  have "same_buffers s h"
    using others.hyps(2) by (auto simp: same_buffers_def)
  then show ?case
    using shown_at_heap [OF others.prems(1)] others.prems(2) by blast
qed (simp_all add: shown_at_def)

section \<open>A reader among writers\<close>

text \<open>The slots that the reader has still to come to, and at the comparison also the one whose pointer it has if it is the key's.\<close>

fun ahead :: "RecordSerializer \<Rightarrow> Key \<Rightarrow> memory \<Rightarrow> reader \<Rightarrow> nat \<Rightarrow> nat \<Rightarrow> bool" where
  "ahead rs key h (At j' i') j i = (j' < j \<or> j' = j \<and> i' \<le> i)"
| "ahead rs key h (Matched j' i') j i = (j' < j \<or> j' = j \<and> i' \<le> i)"
| "ahead rs key h (Compare j' i' a) j i = (j' < j \<or> j' = j \<and>
     (i' < i \<or> i' = i \<and> (\<exists>v. load_record rs h a = Inr \<lparr>m_key = key, m_value = v\<rparr>)))"
| "ahead rs key h (Returned (Some v)) j i = True"
| "ahead rs key h r j i = False"

fun found_ok :: "RecordSerializer \<Rightarrow> Key \<Rightarrow> bucket list \<Rightarrow> memory \<Rightarrow> reader \<Rightarrow> bool" where
  "found_ok rs key tr h (Compare j i a) = (\<forall>v. load_record rs h a = Inr \<lparr>m_key = key, m_value = v\<rparr> \<longrightarrow> (\<exists>s\<in>set tr. stored rs s key = Some v))"
| "found_ok rs key tr h (Returned (Some v)) = (\<exists>s\<in>set tr. stored rs s key = Some v)"
| "found_ok rs key tr h r = True"

definition absent_once :: "RecordSerializer \<Rightarrow> SharedHashTable \<Rightarrow> Key \<Rightarrow> bucket list \<Rightarrow> bool" where
  "absent_once rs T key tr \<longleftrightarrow> (\<exists>s\<in>set tr. \<not> shown rs T key s)"

lemma found_ok_mono: "found_ok rs key tr h r \<Longrightarrow> set tr \<subseteq> set tr' \<Longrightarrow> found_ok rs key tr' h r"
  by (induction rs key tr h r rule: found_ok.induct) (simp_all, (meson subsetD)+)

text \<open>Buffers that the reader may have keep their contents.\<close>

lemma bstep_seen:
  assumes "bstep rs alloc T b key s s'" "binv rs T b s" "a \<in> b_seen s"
  shows "load_record rs (b_heap s') a = load_record rs (b_heap s) a"
  using assms
proof (induction rule: bstep.induct)
  case (create k v s a' h)
  then show ?case
    using create_frame(1) [OF create.prems(1) create.hyps(2,3)] by (simp add: same_buffers_def load_record_def)
qed (simp_all add: load_record_def)

lemma bstep_reader:
  assumes "bstep rs alloc T b key s s'"
  obtains (reads) "active (b_reader s)" "b_reader s' = reader_step rs (snd (GetBucketInfo T key)) key (b_heap s) (b_chain s) (b_reader s)"
      "b_chain s' = b_chain s" "b_heap s' = b_heap s"
  | (writes) "b_reader s' = b_reader s"
  using assms by (cases rule: bstep.cases) auto

text \<open>A step of the reader keeps the slot of the key ahead of it, or returns its value.\<close>

lemma reader_step_ahead:
  assumes inv: "binv rs T b s" and at: "shown_at rs T key s j i" and ah: "ahead rs key (b_heap s) (b_reader s) j i" and act: "active (b_reader s)"
  shows "ahead rs key (b_heap s) (reader_step rs (snd (GetBucketInfo T key)) key (b_heap s) (b_chain s) (b_reader s)) j i"
proof -
  obtain a v where m: "j < length (b_chain s)" "i < c_numDataPerEntry" "m_tags (b_chain s ! j) ! i = snd (GetBucketInfo T key)"
      "m_dataList (b_chain s ! j) ! i = Some a" "load_record rs (b_heap s) a = Inr \<lparr>m_key = key, m_value = v\<rparr>"
    using at by (auto simp: shown_at_def match_at_def ematch_def)
  show ?thesis
  proof (cases "b_reader s")
    case (At j' i')
    show ?thesis
    proof (cases "i' < c_numDataPerEntry")
      case True
      then show ?thesis
        using ah m At by (cases "(j', i') = (j, i)") auto
    next
      case False
      then have "j' < j"
        using ah m(2) At by auto
      then show ?thesis
        using m(1) At False by auto
    qed
  next
    case (Matched j' i')
    then show ?thesis
      using ah m by (cases "(j', i') = (j, i)") (auto split: option.split)
  next
    case (Compare j' i' a')
    then obtain r where "load_record rs (b_heap s) a' = Inr r"
      using binvD(5,7) [OF inv] by auto
    then show ?thesis
      using ah Compare by (cases r) auto
  qed (use act in simp_all)
qed

lemma reader_step_found:
  assumes inv: "binv rs T b s" and f: "found_ok rs key (s # tr) (b_heap s) (b_reader s)"
  shows "found_ok rs key (s # tr) (b_heap s) (reader_step rs tag key (b_heap s) (b_chain s) (b_reader s))"
proof (cases "b_reader s")
  case (Matched j i)
  then have range: "in_range (b_chain s) j i"
    using binvD(5) [OF inv] by simp
  then show ?thesis
    using slot_stored [OF inv range] Matched by (auto split: option.split)
next
  case (Compare j i a)
  then obtain r where r: "load_record rs (b_heap s) a = Inr r"
    using binvD(5,7) [OF inv] by auto
  then show ?thesis
    using f Compare by (cases r) auto
qed (use f in simp_all)

definition run_inv :: "RecordSerializer \<Rightarrow> SharedHashTable \<Rightarrow> nat \<Rightarrow> Key \<Rightarrow> bucket \<Rightarrow> bucket list \<Rightarrow> bool" where
  "run_inv rs T b key s ss \<longleftrightarrow> binv rs T b s \<and> found_ok rs key (s # ss) (b_heap s) (b_reader s) \<and>
     (absent_once rs T key (s # ss) \<or> (\<exists>j i. shown_at rs T key s j i \<and> ahead rs key (b_heap s) (b_reader s) j i))"

lemma ahead_heap:
  assumes "ahead rs key h r j i" "\<And>j i a. r = Compare j i a \<Longrightarrow> load_record rs h' a = load_record rs h a"
  shows "ahead rs key h' r j i"
  using assms by (cases "(rs, key, h, r, j, i)" rule: ahead.cases) auto

lemma found_ok_heap:
  assumes "found_ok rs key tr h r" "\<And>j i a. r = Compare j i a \<Longrightarrow> load_record rs h' a = load_record rs h a"
  shows "found_ok rs key tr h' r"
  using assms by (cases "(rs, key, tr, h, r)" rule: found_ok.cases) auto

lemma run_inv_step:
  assumes inv: "run_inv rs T b key s ss" and step: "bstep rs alloc T b key s s'"
  shows "run_inv rs T b key s' (s # ss)"
proof -
  have b: "binv rs T b s"
    using inv by (simp add: run_inv_def)
  have b': "binv rs T b s'"
    by (rule bstep_binv [OF step b])
  have later: "found_ok rs key (s # ss) (b_heap s') (b_reader s') \<and>
      (shown_at rs T key s j i \<longrightarrow> ahead rs key (b_heap s) (b_reader s) j i \<longrightarrow> ahead rs key (b_heap s') (b_reader s') j i)" for j i
    using step
  proof (cases rule: bstep_reader)
    case reads
    then show ?thesis
      using reader_step_found [OF b] reader_step_ahead [OF b _ _ reads(1)] inv by (simp add: run_inv_def)
  next
    case writes
    have load: "load_record rs (b_heap s') a = load_record rs (b_heap s) a" if "b_reader s = Compare j i a" for j i a
      using binvD(5) [OF b] bstep_seen [OF step b] that by simp
    have "found_ok rs key (s # ss) (b_heap s') (b_reader s)"
      by (rule found_ok_heap [OF _ load]) (use inv in \<open>simp_all add: run_inv_def\<close>)
    moreover have "ahead rs key (b_heap s) (b_reader s) j i \<Longrightarrow> ahead rs key (b_heap s') (b_reader s) j i"
      by (rule ahead_heap [OF _ load])
    ultimately show ?thesis
      by (simp add: writes)
  qed
  have "found_ok rs key (s' # s # ss) (b_heap s') (b_reader s')"
    by (rule found_ok_mono [OF later [of 0 0, THEN conjunct1]]) auto
  moreover have "absent_once rs T key (s' # s # ss) \<or> (\<exists>j i. shown_at rs T key s' j i \<and> ahead rs key (b_heap s') (b_reader s') j i)"
  proof (cases "absent_once rs T key (s # ss) \<or> \<not> shown rs T key s'")
    case True
    then show ?thesis
      by (auto simp: absent_once_def)
  next
    case False
    then obtain j i where "shown_at rs T key s j i" "ahead rs key (b_heap s) (b_reader s) j i"
      using inv by (auto simp: run_inv_def)
    then show ?thesis
      using later [of j i] bstep_stays [OF step b] False by blast
  qed
  ultimately show ?thesis
    using b' by (simp add: run_inv_def)
qed

lemma get_run_inv: "get_run rs alloc T b key tr \<Longrightarrow> \<exists>s ss. tr = s # ss \<and> run_inv rs T b key s ss \<and> (\<forall>s\<in>set tr. binv rs T b s)"
proof (induction rule: get_run.induct)
  case (get_called s)
  let ?s = "start_get s"
  have "binv rs T b ?s"
    using binv_start [OF breach_binv [OF get_called.hyps(1)]] .
  moreover have "absent_once rs T key [?s] \<or> (\<exists>j i. shown_at rs T key ?s j i \<and> ahead rs key (b_heap ?s) (b_reader ?s) j i)"
    by (cases "shown rs T key ?s") (auto simp: absent_once_def shown_def start_get_def)
  ultimately show ?case
    by (simp add: run_inv_def start_get_def)
next
  case (get_step s ss s')
  then show ?case
    using run_inv_step [OF _ get_step.hyps(3)] bstep_binv [OF get_step.hyps(3)] by auto
qed

section \<open>A reader that runs alone\<close>

text \<open>Where the search of an entry, or of the rest of the chain, leaves the reader.\<close>

fun after_entry :: "nat \<Rightarrow> (nat \<times> Value) option res \<Rightarrow> reader" where
  "after_entry j (Inl e) = Threw e"
| "after_entry j (Inr None) = At j c_numDataPerEntry"
| "after_entry j (Inr (Some (i, v))) = Returned (Some v)"

fun after_chain :: "(nat \<times> nat \<times> Value) option res \<Rightarrow> reader" where
  "after_chain (Inl e) = Threw e"
| "after_chain (Inr found) = Returned (map_option (\<lambda>(j, i, v). v) found)"

lemma reader_alone_entry:
  assumes "i \<le> c_numDataPerEntry"
  shows "\<exists>n \<le> 3 * (c_numDataPerEntry - i). ((reader_step rs tag key h es) ^^ n) (At j i) =
    after_entry j (find_entry rs h tag key (es ! j) [i..<c_numDataPerEntry])"
  using assms
proof (induction "c_numDataPerEntry - i" arbitrary: i)
  case 0
  then show ?case
    by (intro exI [of _ 0]) simp
next
  case (Suc d)
  let ?step = "reader_step rs tag key h es" and ?rest = "after_entry j (find_entry rs h tag key (es ! j) [Suc i..<c_numDataPerEntry])"
  have i: "i < c_numDataPerEntry" "[i..<c_numDataPerEntry] = i # [Suc i..<c_numDataPerEntry]"
    using Suc.hyps(2) by (simp_all add: upt_rec)
  have "d = c_numDataPerEntry - Suc i" "Suc i \<le> c_numDataPerEntry"
    using Suc.hyps(2) by simp_all
  from Suc.hyps(1) [OF this] obtain n where n: "n \<le> 3 * (c_numDataPerEntry - Suc i)" "(?step ^^ n) (At j (Suc i)) = ?rest"
    by blast
  have more: "\<exists>m \<le> 3 * (c_numDataPerEntry - i). (?step ^^ m) (At j i) = ?rest" if "(?step ^^ k) (At j i) = At j (Suc i)" "k \<le> 3" for k
    using that n i(1) by (intro exI [of _ "n + k"]) (simp add: funpow_add)
  show ?case
  proof (cases "tag = m_tags (es ! j) ! i")
    case False
    then show ?thesis
      using more [of 1] i by simp
  next
    case tag: True
    show ?thesis
    proof (cases "m_dataList (es ! j) ! i")
      case None
      then show ?thesis
        using more [of 2] i tag by (simp add: numeral_2_eq_2)
    next
      case (Some a)
      then have three: "(?step ^^ 3) (At j i) = ?step (Compare j i a)"
        using i tag by (simp add: numeral_3_eq_3)
      have "3 \<le> 3 * (c_numDataPerEntry - i)"
        using i(1) by simp
      moreover have "find_entry rs h tag key (es ! j) [i..<c_numDataPerEntry] = bind_res (load_record rs h a)
          (\<lambda>r. if Blob_eq (m_key r) key then Inr (Some (i, m_value r)) else find_entry rs h tag key (es ! j) [Suc i..<c_numDataPerEntry])"
        by (simp only: i(2) tag Some find_entry.simps option.case if_True refl)
      ultimately show ?thesis
        using more [of 3] three by (cases "load_record rs h a") (auto intro: exI [of _ 3])
    qed
  qed
qed

lemma reader_alone_chain:
  assumes "j < length es"
  shows "\<exists>n \<le> (3 * c_numDataPerEntry + 1) * (length es - j). ((reader_step rs tag key h es) ^^ n) (At j 0) =
    after_chain (find_chain rs h tag key j (drop j es))"
  using assms
proof (induction "length es - j" arbitrary: j)
  case 0
  then show ?case by simp
next
  case (Suc d)
  let ?step = "reader_step rs tag key h es" and ?e = "find_entry rs h tag key (es ! j) [0..<c_numDataPerEntry]"
  let ?bound = "(3 * c_numDataPerEntry + 1) * (length es - j)"
  obtain n where n: "n \<le> 3 * c_numDataPerEntry" "(?step ^^ n) (At j 0) = after_entry j ?e"
    using reader_alone_entry [of 0 rs tag key h es j] by auto
  have drop: "drop j es = es ! j # drop (Suc j) es"
    using Suc.prems by (simp add: Cons_nth_drop_Suc)
  have d: "length es - j = Suc (length es - Suc j)"
    using Suc.prems by simp
  then have bound: "?bound = Suc (3 * c_numDataPerEntry) + (3 * c_numDataPerEntry + 1) * (length es - Suc j)"
    by (simp only: mult_Suc_right)
  consider (err) e where "?e = Inl e" | (found) i v where "?e = Inr (Some (i, v))" | (none) "?e = Inr None"
    by (metis old.sum.exhaust option.exhaust surj_pair)
  then show ?case
  proof cases
    case none
    show ?thesis
    proof (cases "Suc j < length es")
      case True
      have "d = length es - Suc j"
        using Suc.hyps(2) by simp
      from Suc.hyps(1) [OF this True] obtain m where m: "m \<le> (3 * c_numDataPerEntry + 1) * (length es - Suc j)"
          "(?step ^^ m) (At (Suc j) 0) = after_chain (find_chain rs h tag key (Suc j) (drop (Suc j) es))"
        by blast
      have "(?step ^^ Suc n) (At j 0) = At (Suc j) 0"
        using n(2) none True by simp
      then have "(?step ^^ (m + Suc n)) (At j 0) = (?step ^^ m) (At (Suc j) 0)"
        by (simp only: funpow_add comp_apply)
      moreover have "m + Suc n \<le> ?bound"
        using m(1) n(1) bound by linarith
      ultimately show ?thesis
        using m(2) none drop by (intro exI [of _ "m + Suc n"]) simp
    next
      case False
      then have "(?step ^^ Suc n) (At j 0) = Returned None" "drop (Suc j) es = []"
        using n(2) none by simp_all
      moreover have "Suc n \<le> ?bound"
        using n(1) bound by linarith
      ultimately show ?thesis
        using none drop by (intro exI [of _ "Suc n"]) simp
    qed
  next
    case err
    then show ?thesis
      using n bound drop by (intro exI [of _ n]) simp
  next
    case found
    then show ?thesis
      using n bound drop by (intro exI [of _ n]) simp
  qed
qed

end
