(* ===== verification/L4_LockFreeMain.thy ===== *)
theory L4_LockFreeMain
  imports L4_LockFreeSpec
begin

text \<open>
  The steps of a writer make up the operations of \<open>L4_ReadWrite\<close>, two runs, and the properties of the
  lock-free \<open>Get\<close>.
\<close>

section \<open>The steps of a writer\<close>

lemma ReleaseRecord_world: "ReleaseRecord reg d W = (r, W') \<Longrightarrow> heap W' = heap W \<and> table W' = table W"
  by (auto simp: ReleaseRecord_def split: option.splits prod.splits)

lemma set_bucket_nth: "b < length (m_buckets T) \<Longrightarrow> m_buckets (set_bucket b es T) ! b = es"
  by (simp add: set_bucket_def)

text \<open>The search, the store of the pointer and the store of the tag of one writer.\<close>

lemma store_steps:
  assumes "b_writer s = Storing j i d t"
  shows "\<exists>s' s''. bstep rs alloc T b key s s' \<and> bstep rs alloc T b key s' s'' \<and> b_writer s'' = Unlocked \<and>
    b_heap s'' = b_heap s \<and> b_chain s'' = upd_slot (b_chain s) j i d t"
  by (rule exI, rule exI, rule conjI, rule bstep.store_data [OF assms], rule conjI, rule bstep.store_tag)
    (simp_all add: upd_slot_stores)

definition writer_run :: "RecordSerializer \<Rightarrow> allocator \<Rightarrow> SharedHashTable \<Rightarrow> nat \<Rightarrow> Key \<Rightarrow> bucket \<Rightarrow> bucket \<Rightarrow> bool" where
  "writer_run rs alloc T b key s s' \<longleftrightarrow> (\<exists>s1 s2. bstep rs alloc T b key s s1 \<and> bstep rs alloc T b key s1 s2 \<and>
     bstep rs alloc T b key s2 s' \<and> b_writer s = Unlocked \<and> b_writer s' = Unlocked)"

lemma Add_record_steps:
  assumes add: "Add_record rs reg a W = (Inr (), W')" and r: "load_record rs (heap W) a = Inr r"
    and b: "key_bucket (table W) (m_key r) = b" "b < length (m_buckets (table W))"
    and s: "b_writer s = Unlocked" "b_heap s = heap W" "b_chain s = m_buckets (table W) ! b" "a \<in> set (b_created s)"
  obtains s' where "writer_run rs alloc (table W) b key s s'" "b_heap s' = heap W'" "b_chain s' = m_buckets (table W') ! b"
proof -
  obtain b' tag where bt: "GetBucketInfo (table W) (m_key r) = (b', tag)"
    by (cases "GetBucketInfo (table W) (m_key r)")
  then have b': "unat b' = b"
    using b(1) by simp
  let ?stat = "Stat_new (ksize (m_key r)) (vsize (m_value r)) 0"
  have at: "bucket_at (table W) b = Inr (b_chain s)"
    using b(2) s(3) by (simp add: bucket_at_def)
  obtain stat j i where run: "add_chain rs (heap W) tag (m_key r) 0 (b_chain s) ?stat None = Inr (stat, Some (j, i))"
    using add r bt b' at by (auto simp: Add_record_def Let_def split: sum.splits option.splits)
  let ?chain = "if st_isNewEntryAdded stat then b_chain s @ [new_Entry] else b_chain s"
  have "m_buckets (table W') ! b = upd_slot ?chain j i (Some a) tag \<and> heap W' = heap W"
    using add r bt b' at run b(2) ReleaseRecord_world
    by (fastforce simp: Add_record_def Let_def UpdateRecord_def set_bucket_nth set_bucket_def split: prod.splits)
  moreover let ?s = "s\<lparr>b_writer := Storing j i (Some a) tag, b_chain := ?chain\<rparr>"
  have "bstep rs alloc (table W) b key s ?s"
    using r bt run s by (intro bstep.add_search [OF s(1,4)]) simp_all
  moreover obtain s' s'' where "bstep rs alloc (table W) b key ?s s'" "bstep rs alloc (table W) b key s' s''" "b_writer s'' = Unlocked"
      "b_heap s'' = b_heap s" "b_chain s'' = upd_slot ?chain j i (Some a) tag"
    using store_steps [of ?s j i "Some a" tag rs alloc "table W" b key] by auto
  ultimately show ?thesis
    using that [of s''] s(1,2) unfolding writer_run_def by metis
qed

lemma Remove_steps:
  assumes rem: "Remove rs reg W k = (Inr True, W')" and b: "key_bucket (table W) k = b" "b < length (m_buckets (table W))"
    and s: "b_writer s = Unlocked" "b_heap s = heap W" "b_chain s = m_buckets (table W) ! b"
  obtains s' where "writer_run rs alloc (table W) b key s s'" "b_heap s' = heap W'" "b_chain s' = m_buckets (table W') ! b"
proof -
  obtain b' tag where bt: "GetBucketInfo (table W) k = (b', tag)"
    by (cases "GetBucketInfo (table W) k")
  then have b': "unat b' = b"
    using b(1) by simp
  have at: "bucket_at (table W) b = Inr (b_chain s)"
    using b(2) s(3) by (simp add: bucket_at_def)
  obtain j i v where run: "find_chain rs (heap W) tag k 0 (b_chain s) = Inr (Some (j, i, v))"
    using rem bt b' at by (auto simp: Remove_def split: sum.splits option.splits)
  have "m_buckets (table W') ! b = upd_slot (b_chain s) j i None 0 \<and> heap W' = heap W"
    using rem bt b' at run b(2) s(3) ReleaseRecord_world
    by (fastforce simp: Remove_def Remove_at_def UpdateRecord_def Let_def set_bucket_nth set_bucket_def bind_res_Inr_iff
        split: option.splits sum.splits prod.splits)
  moreover let ?s = "s\<lparr>b_writer := Storing j i None 0\<rparr>"
  have "bstep rs alloc (table W) b key s ?s"
    by (rule bstep.remove_search [OF s(1) bt b']) (simp add: s(2) run)
  moreover obtain s' s'' where "bstep rs alloc (table W) b key ?s s'" "bstep rs alloc (table W) b key s' s''" "b_writer s'' = Unlocked"
      "b_heap s'' = b_heap s" "b_chain s'' = upd_slot (b_chain s) j i None 0"
    using store_steps [of ?s j i None 0 rs alloc "table W" b key] by auto
  ultimately show ?thesis
    using that [of s''] s(1,2) unfolding writer_run_def by metis
qed

section \<open>Reading on\<close>

definition same_contents :: "bucket \<Rightarrow> bucket \<Rightarrow> bool" where
  "same_contents s s' \<longleftrightarrow> b_heap s' = b_heap s \<and> b_chain s' = b_chain s"

lemma reader_step_inactive: "\<not> active r \<Longrightarrow> reader_step rs tag key h es r = r"
  by (cases r) simp_all

text \<open>Nobody but the reader takes a step.\<close>

lemma reads_alone:
  assumes "get_run rs alloc T b key (s # ss)" "\<forall>x\<in>set (s # ss). same_contents s x"
  shows "\<exists>s' ss'. get_run rs alloc T b key (s' # ss') \<and> last (s' # ss') = last (s # ss) \<and>
    b_reader s' = (reader_step rs (snd (GetBucketInfo T key)) key (b_heap s) (b_chain s) ^^ n) (b_reader s) \<and>
    (\<forall>x\<in>set (s' # ss'). same_contents s x)"
proof (induction n)
  case 0
  then show ?case
    using assms by (intro exI [of _ s] exI [of _ ss]) simp
next
  case (Suc n)
  let ?step = "reader_step rs (snd (GetBucketInfo T key)) key (b_heap s) (b_chain s)"
  obtain s' ss' where IH: "get_run rs alloc T b key (s' # ss')" "last (s' # ss') = last (s # ss)"
      "b_reader s' = (?step ^^ n) (b_reader s)" "\<forall>x\<in>set (s' # ss'). same_contents s x"
    using Suc.IH by blast
  show ?case
  proof (cases "active (b_reader s')")
    case True
    let ?r = "?step (b_reader s')"
    let ?s = "s'\<lparr>b_reader := ?r, b_seen := (if active ?r then b_seen s' else {})\<rparr>"
    have "bstep rs alloc T b key s' ?s"
      by (rule bstep.read [OF True]) (use IH(4) in \<open>simp add: same_contents_def\<close>)
    then have "get_run rs alloc T b key (?s # s' # ss')"
      by (rule get_run.get_step [OF IH(1) True])
    moreover have "b_reader ?s = (?step ^^ Suc n) (b_reader s)" "\<forall>x\<in>set (?s # s' # ss'). same_contents s x"
      using IH(3,4) by (simp_all add: same_contents_def)
    ultimately show ?thesis
      using IH(2) by (intro exI [of _ ?s] exI [of _ "s' # ss'"]) simp
  next
    case False
    then have "b_reader s' = (?step ^^ Suc n) (b_reader s)"
      using IH(3) reader_step_inactive by simp
    then show ?thesis
      using IH by blast
  qed
qed

section \<open>A reader overtakes the store of a tag\<close>

text \<open>
  A table with one bucket. Its chain has one entry, of which only the first slot is used.
\<close>

definition one_table :: SharedHashTable where
  "one_table = SharedHashTable_new 0 0 default_Setting"

definition one_slot :: "u8 \<Rightarrow> addr option \<Rightarrow> addr Entry list" where
  "one_slot t d = [\<lparr>m_tags = t # replicate 15 0, m_dataList = d # replicate 15 None\<rparr>]"

lemma one_slot_simps [simp]:
  "set_data (one_slot t d) 0 0 d' = one_slot t d'" "set_tag (one_slot t d) 0 0 t' = one_slot t' d"
  "[new_Entry] = one_slot 0 None"
  by (simp_all add: one_slot_def set_data_def set_tag_def new_Entry_def c_numDataPerEntry_def numeral_eq_Suc)

lemma length_one_slot [simp]: "length (one_slot t d) = 1"
  by (simp add: one_slot_def)

lemma one_bucket: "fst (GetBucketInfo one_table k) = 0" "snd (GetBucketInfo one_table [1]) \<noteq> 0"
proof -
  have "length (m_buckets one_table) = 1"
    by (simp add: one_table_def SharedHashTable_new_def default_Setting_def Let_def)
  then show "fst (GetBucketInfo one_table k) = 0"
    by (simp add: GetBucketInfo_def split: prod.split)
  show "snd (GetBucketInfo one_table [1]) \<noteq> 0"
    by code_simp
qed

lemma upt_slots: "[0..<c_numDataPerEntry] = 0 # [Suc 0..<c_numDataPerEntry]"
  by (simp add: c_numDataPerEntry_def upt_rec)

lemma one_slot_find:
  "load_record rs h a = Inr \<lparr>m_key = k, m_value = v\<rparr> \<Longrightarrow> find_chain rs h t k 0 (one_slot t (Some a)) = Inr (Some (0, 0, v))"
  by (simp add: one_slot_def upt_slots)

lemma find_entry_no_tag: "\<forall>i\<in>set is. m_tags e ! i \<noteq> tag \<Longrightarrow> find_entry rs h tag key e is = Inr None"
  by (induction "is") auto

lemma one_slot_hidden: "t \<noteq> 0 \<Longrightarrow> find_chain rs h t k 0 (one_slot 0 d) = Inr None"
proof -
  assume "t \<noteq> 0"
  then have "\<forall>i\<in>set [0..<c_numDataPerEntry]. (0 # replicate 15 0 :: u8 list) ! i \<noteq> t"
    by (simp add: c_numDataPerEntry_def nth_Cons')
  then show ?thesis
    by (simp add: one_slot_def find_entry_no_tag)
qed

lemma add_entry_empty:
  "\<forall>i\<in>set is. m_dataList e ! i = None \<Longrightarrow> add_entry rs h tag key j e is (Some p) old = Inr (Some p, old)"
  by (induction "is") auto

lemma one_slot_add:
  "\<exists>stat'. add_chain rs h t k 0 (one_slot t0 None) (Stat_new ks vs 0) None = Inr (stat', Some (0, 0)) \<and> \<not> st_isNewEntryAdded stat'"
proof -
  let ?e = "\<lparr>m_tags = t0 # replicate 15 0, m_dataList = None # replicate 15 None\<rparr> :: addr Entry"
  have "\<forall>i\<in>set [Suc 0..<c_numDataPerEntry]. m_dataList ?e ! i = None"
    by (auto simp: c_numDataPerEntry_def nth_Cons')
  then have "add_entry rs h t k 0 ?e [0..<c_numDataPerEntry] None 0 = Inr (Some (0, 0), 0)"
    by (simp add: upt_slots add_entry_empty)
  then show ?thesis
    by (simp add: one_slot_def add_chain.simps(2) Stat_new_def Let_def)
qed

definition one_tag :: u8 where
  "one_tag = snd (GetBucketInfo one_table [1])"

abbreviation one_step :: "bucket \<Rightarrow> bucket \<Rightarrow> bool" where
  "one_step \<equiv> bstep demo_rs first_fit one_table 0 [1]"

lemma one_info: "GetBucketInfo one_table [1] = (0, one_tag)"
  using one_bucket(1) [of "[1]"] by (cases "GetBucketInfo one_table [1]") (simp add: one_tag_def)

lemma one_add_search:
  assumes "b_writer s = Unlocked" "a \<in> set (b_created s)" "load_record demo_rs (b_heap s) a = Inr \<lparr>m_key = [1], m_value = v\<rparr>"
    "b_chain s = one_slot 0 None"
  shows "one_step s (s\<lparr>b_writer := Storing 0 0 (Some a) one_tag\<rparr>)"
proof -
  obtain stat where stat: "add_chain demo_rs (b_heap s) one_tag [1] 0 (b_chain s) (Stat_new (ksize [1]) (vsize v) 0) None = Inr (stat, Some (0, 0))"
      "\<not> st_isNewEntryAdded stat"
    using one_slot_add [of demo_rs "b_heap s" one_tag "[1]" 0 "ksize [1]" "vsize v"] assms(4) by auto
  from bstep.add_search [OF assms(1-3), of one_table 0 one_tag stat 0 0] show ?thesis
    using stat one_info by simp
qed

text \<open>A record is added; a \<open>Get\<close> finds its tag; the record is replaced by a removal and another \<open>Add\<close>, up to the store of its pointer.\<close>

lemma one_create:
  assumes "finite (dom (b_heap s))" "valid_value v"
  obtains a h where "one_step s (s\<lparr>b_heap := h, b_created := a # b_created s\<rparr>)" "finite (dom h)"
    "load_record demo_rs h a = Inr \<lparr>m_key = [1], m_value = v\<rparr>"
proof -
  have add: "addable demo_rs first_fit [1] v"
    using assms(2) by (intro addable_demo) (simp_all add: valid_key_def)
  obtain a where a: "CreateRecordBuffer demo_rs first_fit [1] v (b_heap s) = (Inr a, (b_heap s)(a \<mapsto> record_bytes demo_rs [1] v))"
      "load_record demo_rs ((b_heap s)(a \<mapsto> record_bytes demo_rs [1] v)) a = Inr \<lparr>m_key = [1], m_value = v\<rparr>"
    using CreateRecordBuffer_ok [OF add assms(1)] by metis
  show ?thesis
    by (rule that [OF bstep.create [OF _ add a(1)] _ a(2)]) (use assms(1) one_bucket(1) in simp_all)
qed

lemma one_added:
  obtains s a where "breach demo_rs first_fit one_table 0 [1] s" "b_writer s = Unlocked" "b_chain s = one_slot one_tag (Some a)"
    "\<not> active (b_reader s)" "finite (dom (b_heap s))" "load_record demo_rs (b_heap s) a = Inr \<lparr>m_key = [1], m_value = [1]\<rparr>" "b_created s = []"
proof -
  let ?s0 = "empty_bucket Map.empty"
  have r0: "breach demo_rs first_fit one_table 0 [1] ?s0"
    by (rule breach.breach_start) simp
  obtain a h where c: "one_step ?s0 (?s0\<lparr>b_heap := h, b_created := a # b_created ?s0\<rparr>)" "finite (dom h)"
      "load_record demo_rs h a = Inr \<lparr>m_key = [1], m_value = [1]\<rparr>"
    by (rule one_create [of ?s0 "[1]"]) (simp_all add: empty_bucket_def valid_value_def)
  let ?s1 = "\<lparr>b_heap = h, b_chain = one_slot 0 None, b_writer = Unlocked, b_created = [a], b_reader = Idle, b_seen = {}\<rparr>"
  let ?s2 = "?s1\<lparr>b_writer := Storing 0 0 (Some a) one_tag\<rparr>"
  let ?s3 = "?s2\<lparr>b_writer := Tagging 0 0 one_tag, b_chain := one_slot 0 (Some a), b_created := []\<rparr>"
  let ?s4 = "?s3\<lparr>b_writer := Unlocked, b_chain := one_slot one_tag (Some a)\<rparr>"
  have r1: "breach demo_rs first_fit one_table 0 [1] ?s1"
    using breach.breach_step [OF r0 c(1)] by (simp add: empty_bucket_def)
  have "one_step ?s1 ?s2"
    by (rule one_add_search) (simp_all add: c(3))
  note r2 = breach.breach_step [OF r1 this]
  have "one_step ?s2 ?s3"
    using bstep.store_data [of ?s2 0 0 "Some a" one_tag] by simp
  note r3 = breach.breach_step [OF r2 this]
  have "one_step ?s3 ?s4"
    using bstep.store_tag [of ?s3 0 0 one_tag] by simp
  note r4 = breach.breach_step [OF r3 this]
  show ?thesis
    by (rule that [OF r4, where a = a]) (simp_all add: c)
qed

text \<open>A reader has matched the tag of a record that is removed before it loads the pointer.\<close>

lemma removed_run:
  obtains s seen ss where "get_run demo_rs first_fit one_table 0 [1] (s # ss)" "finite (dom (b_heap s))"
    "s = \<lparr>b_heap = b_heap s, b_chain = one_slot 0 None, b_writer = Unlocked, b_created = [], b_reader = Matched 0 0, b_seen = seen\<rparr>"
proof -
  obtain s0 a1 where s0: "breach demo_rs first_fit one_table 0 [1] s0" "b_writer s0 = Unlocked" "b_chain s0 = one_slot one_tag (Some a1)"
      "\<not> active (b_reader s0)" "finite (dom (b_heap s0))" "load_record demo_rs (b_heap s0) a1 = Inr \<lparr>m_key = [1], m_value = [1]\<rparr>" "b_created s0 = []"
    by (rule one_added)
  let ?g0 = "\<lparr>b_heap = b_heap s0, b_chain = one_slot one_tag (Some a1), b_writer = Unlocked, b_created = [], b_reader = At 0 0, b_seen = linked s0\<rparr>"
  have "start_get s0 = ?g0"
    using s0 by (cases s0) (simp add: start_get_def)
  then have r0: "get_run demo_rs first_fit one_table 0 [1] [?g0]"
    using get_run.get_called [OF s0(1,4)] by simp
  let ?g1 = "?g0\<lparr>b_reader := Matched 0 0\<rparr>"
  have step: "reader_step demo_rs (snd (GetBucketInfo one_table [1])) [1] (b_heap ?g0) (b_chain ?g0) (At 0 0) = Matched 0 0"
    by (simp add: one_info one_slot_def c_numDataPerEntry_def)
  have "one_step ?g0 ?g1"
    using bstep.read [of ?g0 demo_rs one_table "[1]" "Matched 0 0"] step by simp
  from get_run.get_step [OF r0 _ this] have r1: "get_run demo_rs first_fit one_table 0 [1] [?g1, ?g0]"
    by simp
  let ?g2 = "?g1\<lparr>b_writer := Storing 0 0 None 0\<rparr>"
  have "one_step ?g1 ?g2"
    by (rule bstep.remove_search [of _ _ "[1]" 0 one_tag _ _ 0 0 "[1]"]) (simp_all add: one_info one_slot_find [OF s0(6)])
  from get_run.get_step [OF r1 _ this] have r2: "get_run demo_rs first_fit one_table 0 [1] [?g2, ?g1, ?g0]"
    by simp
  let ?g3 = "?g2\<lparr>b_writer := Tagging 0 0 0, b_chain := one_slot one_tag None\<rparr>"
  have "one_step ?g2 ?g3"
    using bstep.store_data [of ?g2 0 0 None 0] by simp
  from get_run.get_step [OF r2 _ this] have r3: "get_run demo_rs first_fit one_table 0 [1] [?g3, ?g2, ?g1, ?g0]"
    by simp
  let ?g4 = "?g3\<lparr>b_writer := Unlocked, b_chain := one_slot 0 None\<rparr>"
  have "one_step ?g3 ?g4"
    using bstep.store_tag [of ?g3 0 0 0] by simp
  from get_run.get_step [OF r3 _ this] have r4: "get_run demo_rs first_fit one_table 0 [1] [?g4, ?g3, ?g2, ?g1, ?g0]"
    by simp
  show ?thesis
    by (rule that [OF r4]) (simp_all add: s0(5))
qed

text \<open>It goes on while an \<open>Add\<close> has stored its pointer and not its tag.\<close>

lemma overtaking_run:
  obtains s ss a where "get_run demo_rs first_fit one_table 0 [1] (s # ss)" "b_reader s = Returned (Some [2])"
    "b_chain s = one_slot 0 (Some a)" "load_record demo_rs (b_heap s) a = Inr \<lparr>m_key = [1], m_value = [2]\<rparr>"
proof -
  obtain g seen ss where r4: "get_run demo_rs first_fit one_table 0 [1] (g # ss)" and fin: "finite (dom (b_heap g))"
    and g: "g = \<lparr>b_heap = b_heap g, b_chain = one_slot 0 None, b_writer = Unlocked, b_created = [], b_reader = Matched 0 0, b_seen = seen\<rparr>"
    by (rule removed_run)
  obtain a h where c: "one_step g (g\<lparr>b_heap := h, b_created := a # b_created g\<rparr>)" "finite (dom h)"
      "load_record demo_rs h a = Inr \<lparr>m_key = [1], m_value = [2]\<rparr>"
    by (rule one_create [of g "[2]"]) (simp_all add: fin valid_value_def)
  let ?g5 = "\<lparr>b_heap = h, b_chain = one_slot 0 None, b_writer = Unlocked, b_created = [a], b_reader = Matched 0 0, b_seen = seen\<rparr>"
  have "g\<lparr>b_heap := h, b_created := a # b_created g\<rparr> = ?g5" "active (b_reader g)"
    by (subst (1 2) g, simp) (subst g, simp)
  then have r5: "get_run demo_rs first_fit one_table 0 [1] (?g5 # g # ss)"
    using get_run.get_step [OF r4 _ c(1)] by simp
  let ?g6 = "?g5\<lparr>b_writer := Storing 0 0 (Some a) one_tag\<rparr>"
  have "one_step ?g5 ?g6"
    by (rule one_add_search) (simp_all add: c(3))
  from get_run.get_step [OF r5 _ this] have r6: "get_run demo_rs first_fit one_table 0 [1] (?g6 # ?g5 # g # ss)"
    by simp
  let ?g7 = "?g6\<lparr>b_writer := Tagging 0 0 one_tag, b_chain := one_slot 0 (Some a), b_created := [], b_seen := insert a seen\<rparr>"
  have "one_step ?g6 ?g7"
    using bstep.store_data [of ?g6 0 0 "Some a" one_tag] by simp
  from get_run.get_step [OF r6 _ this] have r7: "get_run demo_rs first_fit one_table 0 [1] (?g7 # ?g6 # ?g5 # g # ss)"
    by simp
  let ?g8 = "?g7\<lparr>b_reader := Compare 0 0 a\<rparr>"
  have "one_step ?g7 ?g8"
    using bstep.read [of ?g7 demo_rs one_table "[1]" "Compare 0 0 a"] by (simp add: one_slot_def)
  from get_run.get_step [OF r7 _ this] have r8: "get_run demo_rs first_fit one_table 0 [1] (?g8 # ?g7 # ?g6 # ?g5 # g # ss)"
    by simp
  let ?g9 = "?g8\<lparr>b_reader := Returned (Some [2]), b_seen := {}\<rparr>"
  have "one_step ?g8 ?g9"
    using bstep.read [of ?g8 demo_rs one_table "[1]" "Returned (Some [2])"] c(3) by simp
  from get_run.get_step [OF r8 _ this] have r9: "get_run demo_rs first_fit one_table 0 [1] (?g9 # ?g8 # ?g7 # ?g6 # ?g5 # g # ss)"
    by simp
  show ?thesis
    by (rule that [OF r9, where a = a]) (simp_all add: c(3))
qed

lemma get_run_breach: "get_run rs alloc T b key tr \<Longrightarrow> \<forall>s\<in>set tr. breach rs alloc T b key s"
proof (induction rule: get_run.induct)
  case (get_called s)
  then show ?case
    by (simp add: breach.breach_get)
next
  case (get_step s ss s')
  then show ?case
    by (auto intro: breach.breach_step)
qed

lemma one_read:
  assumes "active (b_reader s)" "reader_step demo_rs one_tag [1] (b_heap s) (b_chain s) (b_reader s) = r"
    and "s' = s\<lparr>b_reader := r, b_seen := (if active r then b_seen s else {})\<rparr>"
  shows "one_step s s'"
  using bstep.read [OF assms(1), of demo_rs one_table "[1]" r] assms(2,3) by (simp add: one_info)

section \<open>Properties\<close>

text \<open>C2: \<open>Get\<close> without a lock, among writers that add and remove records and whatever happens elsewhere, never
  throws; a value it returns was stored for the key at some time during the call, and if it returns false,
  there was a time during the call when a reader that ran alone would have found nothing.\<close>

theorem lock_free_Get:
  assumes "get_run rs alloc T b key (s # ss)"
  shows "(\<forall>e. b_reader s \<noteq> Threw e) \<and>
    (\<forall>v. b_reader s = Returned (Some v) \<longrightarrow> (\<exists>s'\<in>set (s # ss). stored rs s' key = Some v)) \<and>
    (b_reader s = Returned None \<longrightarrow> (\<exists>s'\<in>set (s # ss). \<not> shown rs T key s'))"
proof -
  have inv: "run_inv rs T b key s ss" "binv rs T b s"
    using get_run_inv [OF assms] by auto
  have "b_reader s \<noteq> Threw e" for e
    using binvD(5) [OF inv(2)] by auto
  moreover have "\<exists>s'\<in>set (s # ss). stored rs s' key = Some v" if "b_reader s = Returned (Some v)" for v
    using inv(1) that by (simp add: run_inv_def)
  moreover have "\<exists>s'\<in>set (s # ss). \<not> shown rs T key s'" if "b_reader s = Returned None"
    using inv(1) that by (simp add: run_inv_def absent_once_def)
  ultimately show ?thesis
    by blast
qed

theorem lock_free_Get_witness:
  "\<exists>s ss. get_run demo_rs first_fit one_table 0 [1] (s # ss) \<and> b_reader s = Returned (Some [2]) \<and>
    (\<exists>s'\<in>set (s # ss). stored demo_rs s' [1] = Some [2])"
proof -
  obtain s ss a where run: "get_run demo_rs first_fit one_table 0 [1] (s # ss)" "b_reader s = Returned (Some [2])"
    by (rule overtaking_run)
  then show ?thesis
    using lock_free_Get [OF run(1)] by blast
qed

text \<open>C6: when no \<open>Add\<close> of the key is between its two stores during the call, \<open>Get\<close> is linearizable: its result is what
  the bucket stores for the key at some time during the call.\<close>

theorem lock_free_Get_linearizable:
  assumes "get_run rs alloc T b key (s # ss)" "b_reader s = Returned r" "\<forall>s'\<in>set (s # ss). \<not> inserting rs s' key"
  shows "\<exists>s'\<in>set (s # ss). stored rs s' key = r"
proof -
  have inv: "run_inv rs T b key s ss" and all: "\<forall>s'\<in>set (s # ss). binv rs T b s'"
    using get_run_inv [OF assms(1)] by auto
  show ?thesis
  proof (cases r)
    case None
    then obtain s' where s': "s' \<in> set (s # ss)" "\<not> shown rs T key s'"
      using inv assms(2) by (auto simp: run_inv_def absent_once_def)
    then have "stored rs s' key = None"
      using stored_shown [of rs T b s' key] all assms(3) by (metis option.exhaust)
    then show ?thesis
      using s'(1) None by blast
  next
    case (Some v)
    then show ?thesis
      using inv assms(2) by (auto simp: run_inv_def)
  qed
qed

theorem lock_free_Get_linearizable_witness:
  "\<exists>s ss r. get_run demo_rs first_fit one_table 0 [1] (s # ss) \<and> b_reader s = Returned (Some [1]) \<and>
    (\<exists>s'\<in>set (s # ss). stored demo_rs s' [1] = Some [1])"
proof -
  obtain s0 a where s0: "breach demo_rs first_fit one_table 0 [1] s0" "b_writer s0 = Unlocked" "b_chain s0 = one_slot one_tag (Some a)"
      "\<not> active (b_reader s0)" "finite (dom (b_heap s0))" "load_record demo_rs (b_heap s0) a = Inr \<lparr>m_key = [1], m_value = [1]\<rparr>" "b_created s0 = []"
    by (rule one_added)
  let ?s = "start_get s0"
  let ?s1 = "?s\<lparr>b_reader := Matched 0 0, b_seen := b_seen ?s\<rparr>"
  let ?s2 = "?s1\<lparr>b_reader := Compare 0 0 a, b_seen := b_seen ?s1\<rparr>"
  let ?s3 = "?s2\<lparr>b_reader := Returned (Some [1]), b_seen := {}\<rparr>"
  have "one_step ?s ?s1"
    by (rule one_read [where r = "Matched 0 0"]) (simp_all add: start_get_def s0(3) one_slot_def c_numDataPerEntry_def)
  moreover have "one_step ?s1 ?s2"
    by (rule one_read [where r = "Compare 0 0 a"]) (simp_all add: start_get_def s0(3) one_slot_def)
  moreover have "one_step ?s2 ?s3"
    by (rule one_read [where r = "Returned (Some [1])"]) (simp_all add: start_get_def s0(6))
  ultimately have run: "get_run demo_rs first_fit one_table 0 [1] [?s3, ?s2, ?s1, ?s]"
    by (intro get_run.get_step get_run.get_called s0(1,4)) (simp_all add: start_get_def)
  have "\<forall>s'\<in>set [?s3, ?s2, ?s1, ?s]. \<not> inserting demo_rs s' [1]"
    by (simp add: inserting_def start_get_def s0(2))
  from lock_free_Get_linearizable [OF run _ this, of "Some [1]"] run show ?thesis
    by (intro exI [of _ ?s3] exI [of _ "[?s2, ?s1, ?s]"]) simp
qed

text \<open>C38: the accesses of the reader, taken alone, compute \<open>Get\<close>, in at most three for each slot of the chain and one
  for each entry: the reader never waits.\<close>

theorem reader_alone_is_Get:
  assumes "table_ok rs W"
  shows "\<exists>r n. Get rs W key = Inr r \<and> n \<le> (3 * c_numDataPerEntry + 1) * length (key_chain (table W) key) \<and>
    (reader_step rs (snd (GetBucketInfo (table W) key)) key (heap W) (key_chain (table W) key) ^^ n) (At 0 0) = Returned r"
proof -
  let ?es = "key_chain (table W) key" and ?tag = "snd (GetBucketInfo (table W) key)"
  have "chain_ok ?es"
    using table_ok_bucket [OF assms table_ok_range [OF assms]] by (simp add: bucket_ok_def)
  then have "0 < length ?es"
    by (simp add: chain_ok_def)
  from reader_alone_chain [OF this, of rs ?tag key "heap W"] obtain n where
    n: "n \<le> (3 * c_numDataPerEntry + 1) * length ?es"
      "(reader_step rs ?tag key (heap W) ?es ^^ n) (At 0 0) = after_chain (find_chain rs (heap W) ?tag key 0 ?es)"
    by auto
  have "Get rs W key = bind_res (find_chain rs (heap W) ?tag key 0 ?es) (\<lambda>found. Inr (map_option (\<lambda>(j, i, v). v) found))"
    using bucket_at_key [OF assms, of key] by (simp add: Get_def split_beta)
  moreover obtain r where "Get rs W key = Inr r"
    using Get_correct [OF assms] by blast
  ultimately show ?thesis
    using n by (cases "find_chain rs (heap W) ?tag key 0 ?es") auto
qed

theorem reader_alone_is_Get_witness:
  "\<exists>n \<le> 49. (reader_step demo_rs (snd (GetBucketInfo (table demo_world) [7])) [7] Map.empty [new_Entry] ^^ n) (At 0 0) = Returned None"
proof -
  have "key_chain (table demo_world) [7] = [new_Entry]"
    using table_ok_range [OF table_ok_demo(1), of "[7]"] by (simp add: demo_world_def SharedHashTable_new_def Let_def)
  moreover have "heap demo_world = Map.empty" "Get demo_rs demo_world [7] = Inr None"
    using Get_correct [OF table_ok_demo(1)] table_ok_demo(2) by (simp_all add: demo_world_def)
  ultimately show ?thesis
    using reader_alone_is_Get [OF table_ok_demo(1), of "[7]"] by (auto simp: c_numDataPerEntry_def)
qed

text \<open>C7: the search and the two stores of a writer make up \<open>Add\<close> and \<open>Remove\<close>: from a bucket of the table they lead to
  that bucket of the table after the operation.\<close>

theorem writer_steps_refine:
  assumes "b < length (m_buckets (table W))" "b_writer s = Unlocked" "b_heap s = heap W" "b_chain s = m_buckets (table W) ! b"
  shows "(\<forall>a r W'. a \<in> set (b_created s) \<longrightarrow> load_record rs (heap W) a = Inr r \<longrightarrow> key_bucket (table W) (m_key r) = b \<longrightarrow>
      Add_record rs reg a W = (Inr (), W') \<longrightarrow>
      (\<exists>s'. writer_run rs alloc (table W) b key s s' \<and> b_heap s' = heap W' \<and> b_chain s' = m_buckets (table W') ! b)) \<and>
    (\<forall>k W'. key_bucket (table W) k = b \<longrightarrow> Remove rs reg W k = (Inr True, W') \<longrightarrow>
      (\<exists>s'. writer_run rs alloc (table W) b key s s' \<and> b_heap s' = heap W' \<and> b_chain s' = m_buckets (table W') ! b))"
proof (intro conjI allI impI)
  fix a r W'
  assume "a \<in> set (b_created s)" "load_record rs (heap W) a = Inr r" "key_bucket (table W) (m_key r) = b" "Add_record rs reg a W = (Inr (), W')"
  then show "\<exists>s'. writer_run rs alloc (table W) b key s s' \<and> b_heap s' = heap W' \<and> b_chain s' = m_buckets (table W') ! b"
    using Add_record_steps assms by metis
next
  fix k W'
  assume "key_bucket (table W) k = b" "Remove rs reg W k = (Inr True, W')"
  then show "\<exists>s'. writer_run rs alloc (table W) b key s s' \<and> b_heap s' = heap W' \<and> b_chain s' = m_buckets (table W') ! b"
    using Remove_steps assms by metis
qed

theorem writer_steps_refine_witness:
  "\<exists>W W' s s'. Remove demo_rs queue_reg W [1] = (Inr True, W') \<and> writer_run demo_rs first_fit (table W) (key_bucket (table W) [1]) [1] s s' \<and>
    b_chain s' = m_buckets (table W') ! key_bucket (table W) [1]"
proof -
  have v: "valid_key [1 :: u8]" "valid_value [2 :: u8]"
    by (simp_all add: valid_key_def valid_value_def)
  let ?W = "put_record demo_rs first_fit queue_reg demo_world [1] [2]" and ?W' = "del_record demo_rs queue_reg (put_record demo_rs first_fit queue_reg demo_world [1] [2]) [1]"
  let ?b = "key_bucket (table ?W) [1]"
  let ?s = "\<lparr>b_heap = heap ?W, b_chain = m_buckets (table ?W) ! ?b, b_writer = Unlocked, b_created = [], b_reader = Idle, b_seen = {}\<rparr>"
  have rem: "Remove demo_rs queue_reg ?W [1] = (Inr True, ?W')"
    by (cases rule: Remove_cases [OF demo_filled(1) [OF v], of "[1]" queue_reg])
      (auto simp: demo_filled(2) [OF v] del_record_def queue_reg_def)
  show ?thesis
    using writer_steps_refine [OF table_ok_range [OF demo_filled(1) [OF v]], where s = ?s and rs = demo_rs and reg = queue_reg and alloc = first_fit and key = "[1]"] rem by fastforce
qed

text \<open>C39: \<open>UpdateRecord\<close> stores the pointer before the tag, so \<open>Get\<close> is not linearizable without that condition: a \<open>Get\<close> that has
  read the tag of a record that is then removed can return the value of an \<open>Add\<close> that has not stored its tag yet, and
  another \<open>Get\<close> that starts after it returns false, although the record is stored all the time.\<close>

theorem new_old_inversion:
  "\<exists>first second. get_run demo_rs first_fit one_table 0 [1] first \<and> b_reader (hd first) = Returned (Some [2]) \<and>
    get_run demo_rs first_fit one_table 0 [1] second \<and> last second = start_get (hd first) \<and>
    b_reader (hd second) = Returned None \<and> (\<lambda>s. stored demo_rs s [1]) ` set second = {Some [2]}"
proof -
  obtain s ss a where run: "get_run demo_rs first_fit one_table 0 [1] (s # ss)" "b_reader s = Returned (Some [2])"
    "b_chain s = one_slot 0 (Some a)" "load_record demo_rs (b_heap s) a = Inr \<lparr>m_key = [1], m_value = [2]\<rparr>"
    by (rule overtaking_run)
  have reach: "breach demo_rs first_fit one_table 0 [1] s"
    using get_run_breach [OF run(1)] by simp
  have stored: "stored demo_rs s [1] = Some [2]"
    by (rule slot_stored [OF breach_binv [OF reach], of 0 0 a]) (simp_all add: run in_range_def one_slot_def c_numDataPerEntry_def)
  let ?s = "start_get s" and ?step = "reader_step demo_rs one_tag [1] (b_heap s) (one_slot 0 (Some a))"
  have "get_run demo_rs first_fit one_table 0 [1] [?s]"
    by (rule get_run.get_called [OF reach]) (simp add: run(2))
  note alone = reads_alone [OF this, unfolded one_info snd_conv]
  have "one_tag \<noteq> 0"
    using one_bucket(2) by (simp add: one_tag_def)
  moreover obtain n where "(?step ^^ n) (At 0 0) = after_chain (find_chain demo_rs (b_heap s) one_tag [1] 0 (one_slot 0 (Some a)))"
    using reader_alone_chain [of 0 "one_slot 0 (Some a)" demo_rs one_tag "[1]" "b_heap s"] by (auto simp: one_slot_def)
  ultimately have "(?step ^^ n) (At 0 0) = Returned None"
    by (simp add: one_slot_hidden)
  with alone [of n] obtain s' ss' where second: "get_run demo_rs first_fit one_table 0 [1] (s' # ss')" "last (s' # ss') = ?s"
      "b_reader s' = Returned None" "\<forall>x\<in>set (s' # ss'). same_contents ?s x"
    by (auto simp: start_get_def run(3) same_contents_def)
  have "stored demo_rs x [1] = Some [2]" if "x \<in> set (s' # ss')" for x
    using second(4) that stored by (auto simp: same_contents_def stored_def start_get_def)
  then have "(\<lambda>x. stored demo_rs x [1]) ` set (s' # ss') = {Some [2]}"
    by (auto simp: image_iff)
  then show ?thesis
    using run(1,2) second(1-3) by (intro exI [of _ "s # ss"] exI [of _ "s' # ss'"]) simp
qed

end
