(* ===== verification/L4_Thread.thy ===== *)
theory L4_Thread
  imports L4_Prelude
begin

text \<open>
  \<open>inc/L4/Utils/RunningThread.h\<close>, the thread that runs a function again and again, as the processing thread
  of the epoch manager does: the steps of the thread and of the owner that constructs and destroys it.
\<close>

section \<open>State and steps\<close>

text \<open>
  Where \<open>Start\<close> is, and where the owner is: using the object, joining the thread in the destructor, or past
  it. \<open>core_calls\<close> counts the calls of \<open>coreFunc\<close>; a call of it, of \<open>prepFunc\<close> and the sleep end.
\<close>

datatype thread_pc = NotStarted | Preparing | Testing | Calling | Sleeping | Exited

datatype owner_pc = Using | Joining | Destroyed

record RunningThread =
  m_isRunning :: bool
  thread :: thread_pc
  owner :: owner_pc
  core_calls :: nat

definition RunningThread_new :: RunningThread where
  "RunningThread_new = \<lparr>m_isRunning = False, thread = NotStarted, owner = Using, core_calls = 0\<rparr>"

inductive thread_step :: "RunningThread \<Rightarrow> RunningThread \<Rightarrow> bool" where
  start: "thread s = NotStarted \<Longrightarrow> thread_step s (s\<lparr>m_isRunning := True, thread := Preparing\<rparr>)"
| prepared: "thread s = Preparing \<Longrightarrow> thread_step s (s\<lparr>thread := Testing\<rparr>)"
| test: "thread s = Testing \<Longrightarrow> thread_step s (s\<lparr>thread := (if m_isRunning s then Calling else Exited)\<rparr>)"
| call: "thread s = Calling \<Longrightarrow> thread_step s (s\<lparr>thread := Sleeping, core_calls := Suc (core_calls s)\<rparr>)"
| slept: "thread s = Sleeping \<Longrightarrow> thread_step s (s\<lparr>thread := Testing\<rparr>)"

inductive owner_step :: "RunningThread \<Rightarrow> RunningThread \<Rightarrow> bool" where
  destroy: "owner s = Using \<Longrightarrow> owner_step s (s\<lparr>m_isRunning := False, owner := Joining\<rparr>)"
| joined: "owner s = Joining \<Longrightarrow> thread s = Exited \<Longrightarrow> owner_step s (s\<lparr>owner := Destroyed\<rparr>)"

inductive_cases thread_stepE: "thread_step s s'"
inductive_cases owner_stepE: "owner_step s s'"

inductive_simps thread_step_exited: "thread_step (s\<lparr>thread := Exited\<rparr>) s'"

text \<open>\<open>thread_run n s s'\<close>: from \<open>s\<close> to \<open>s'\<close> in \<open>n\<close> steps of the thread and any steps of the owner.\<close>

inductive thread_run :: "nat \<Rightarrow> RunningThread \<Rightarrow> RunningThread \<Rightarrow> bool" where
  here: "thread_run 0 s s"
| by_thread: "thread_run n s s' \<Longrightarrow> thread_step s' s'' \<Longrightarrow> thread_run (Suc n) s s''"
| by_owner: "thread_run n s s' \<Longrightarrow> owner_step s' s'' \<Longrightarrow> thread_run n s s''"

definition started_by :: "nat \<Rightarrow> RunningThread \<Rightarrow> bool" where
  "started_by n s \<longleftrightarrow> thread_run n RunningThread_new s"

section \<open>Invariants\<close>

lemma thread_step_owner: "thread_step s s' \<Longrightarrow> owner s' = owner s"
  by (elim thread_stepE) simp_all

text \<open>The thread exits only after the destructor has begun, and the object is destroyed only after the thread has exited.\<close>

lemma destroyed_exited: "thread_run n RunningThread_new s \<Longrightarrow>
    (owner s = Destroyed \<longrightarrow> thread s = Exited) \<and> (thread s = Exited \<longrightarrow> owner s \<noteq> Using) \<and>
    (owner s = Using \<longrightarrow> m_isRunning s = (thread s \<noteq> NotStarted))"
proof (induction n RunningThread_new s rule: thread_run.induct)
  case here
  then show ?case
    by (simp add: RunningThread_new_def)
next
  case (by_thread n s' s'')
  then show ?case
    by (elim thread_stepE) (auto split: if_splits)
next
  case (by_owner n s' s'')
  then show ?case
    by (elim owner_stepE) auto
qed

text \<open>How many steps the thread has still to take once the flag is cleared.\<close>

fun steps_left :: "thread_pc \<Rightarrow> nat" where
  "steps_left Calling = 3"
| "steps_left Sleeping = 2"
| "steps_left Preparing = 2"
| "steps_left Testing = 1"
| "steps_left Exited = 0"
| "steps_left NotStarted = 0"

definition stopping :: "RunningThread \<Rightarrow> bool" where
  "stopping s \<longleftrightarrow> owner s \<noteq> Using \<and> \<not> m_isRunning s \<and> thread s \<noteq> NotStarted"

lemma stopping_thread: "thread_step s s' \<Longrightarrow> stopping s \<Longrightarrow> stopping s' \<and> steps_left (thread s) = Suc (steps_left (thread s')) \<and>
    core_calls s' + (if thread s' = Calling then 1 else 0) = core_calls s + (if thread s = Calling then 1 else 0)"
  by (elim thread_stepE) (auto simp: stopping_def)

lemma stopping_owner: "owner_step s s' \<Longrightarrow> stopping s \<Longrightarrow> stopping s' \<and> thread s' = thread s \<and> core_calls s' = core_calls s"
  by (elim owner_stepE) (auto simp: stopping_def)

lemma stopping_run: "thread_run n s s' \<Longrightarrow> stopping s \<Longrightarrow>
    stopping s' \<and> n + steps_left (thread s') = steps_left (thread s) \<and>
    core_calls s' + (if thread s' = Calling then 1 else 0) = core_calls s + (if thread s = Calling then 1 else 0)"
proof (induction n s s' rule: thread_run.induct)
  case (by_thread n s s' s'')
  then show ?case
    using stopping_thread [OF by_thread.hyps(2)] by auto
next
  case (by_owner n s s' s'')
  then show ?case
    using stopping_owner [OF by_owner.hyps(2)] by auto
qed simp

text \<open>The flag that the thread sets after the destructor has cleared it stays set.\<close>

definition stuck :: "RunningThread \<Rightarrow> bool" where
  "stuck s \<longleftrightarrow> owner s = Joining \<and> m_isRunning s \<and> thread s \<noteq> NotStarted \<and> thread s \<noteq> Exited"

lemma stuck_run: "thread_run n s s' \<Longrightarrow> stuck s \<Longrightarrow> stuck s'"
proof (induction n s s' rule: thread_run.induct)
  case (by_thread n s s' s'')
  then show ?case
    by (elim thread_stepE) (auto simp: stuck_def)
next
  case (by_owner n s s' s'')
  then show ?case
    by (elim owner_stepE) (auto simp: stuck_def)
qed simp

lemma thread_step_ex: "thread s \<noteq> Exited \<Longrightarrow> \<exists>s'. thread_step s s'"
  by (cases "thread s") (blast intro: thread_step.intros)+

section \<open>Properties\<close>

text \<open>C40: when the destructor begins after the thread has started, the thread exits within three more of its steps, with at
  most one more call of the function, and the destructor can then return: no state in between is stuck.\<close>

theorem RunningThread_stops:
  assumes "started_by m s" "owner s = Using" "thread s \<noteq> NotStarted"
    and "thread_run n (s\<lparr>m_isRunning := False, owner := Joining\<rparr>) s'"
  shows "n \<le> 3 \<and> core_calls s' \<le> Suc (core_calls s) \<and> (n = 3 \<longrightarrow> thread s' = Exited) \<and>
    (thread s' \<noteq> Exited \<longrightarrow> (\<exists>s''. thread_step s' s'')) \<and>
    (thread s' = Exited \<longrightarrow> owner s' = Destroyed \<or> owner_step s' (s'\<lparr>owner := Destroyed\<rparr>))"
proof -
  let ?s = "s\<lparr>m_isRunning := False, owner := Joining\<rparr>"
  have "stopping ?s"
    using assms(3) by (simp add: stopping_def)
  from stopping_run [OF assms(4) this] have run: "stopping s'" "n + steps_left (thread s') = steps_left (thread s)"
      "core_calls s' + (if thread s' = Calling then 1 else 0) = core_calls s + (if thread s = Calling then 1 else 0)"
    by simp_all
  have "steps_left (thread s) \<le> 3"
    by (cases "thread s") simp_all
  moreover have "steps_left (thread s') = 0 \<longleftrightarrow> thread s' = Exited"
    using run(1) by (cases "thread s'") (simp_all add: stopping_def)
  moreover have "owner s' = Destroyed \<or> owner_step s' (s'\<lparr>owner := Destroyed\<rparr>)" if "thread s' = Exited"
    using run(1) owner_step.joined that by (cases "owner s'") (auto simp: stopping_def)
  ultimately show ?thesis
    using run(2,3) thread_step_ex [of s'] by (auto split: if_splits)
qed

lemma RunningThread_started: "started_by 1 \<lparr>m_isRunning = True, thread = Preparing, owner = Using, core_calls = 0\<rparr>"
proof -
  have "thread_step RunningThread_new \<lparr>m_isRunning = True, thread = Preparing, owner = Using, core_calls = 0\<rparr>"
    using thread_step.start [of RunningThread_new] by (simp add: RunningThread_new_def)
  from thread_run.by_thread [OF thread_run.here this] show ?thesis
    by (simp add: started_by_def)
qed

theorem RunningThread_stops_witness:
  "\<exists>s. thread_run 2 \<lparr>m_isRunning = False, thread = Preparing, owner = Joining, core_calls = 0\<rparr> s \<and> thread s = Exited \<and>
    owner_step s (s\<lparr>owner := Destroyed\<rparr>)"
proof -
  let ?a = "\<lparr>m_isRunning = False, thread = Preparing, owner = Joining, core_calls = 0\<rparr>"
  have "thread_step ?a (?a\<lparr>thread := Testing\<rparr>)" "thread_step (?a\<lparr>thread := Testing\<rparr>) (?a\<lparr>thread := Exited\<rparr>)"
    using thread_step.prepared [of ?a] thread_step.test [of "?a\<lparr>thread := Testing\<rparr>"] by simp_all
  then have run: "thread_run 2 ?a (?a\<lparr>thread := Exited\<rparr>)"
    using thread_run.by_thread [OF thread_run.by_thread [OF thread_run.here]] by (simp add: numeral_2_eq_2)
  show ?thesis
    using RunningThread_stops [OF RunningThread_started, of 2 "?a\<lparr>thread := Exited\<rparr>"] run
    by (intro exI [of _ "?a\<lparr>thread := Exited\<rparr>"]) simp
qed

text \<open>When the destructor begins before the thread has started, \<open>Start\<close> sets the flag after the destructor has cleared it:
  then the thread never exits, the function is called again and again, and the destructor never returns.\<close>

theorem RunningThread_destructor_hangs:
  "\<exists>s. started_by 1 s \<and> owner s = Joining \<and> (\<forall>n s'. thread_run n s s' \<longrightarrow> owner s' = Joining \<and> thread s' \<noteq> Exited \<and> (\<exists>s''. thread_step s' s''))"
proof -
  let ?s = "\<lparr>m_isRunning = True, thread = Preparing, owner = Joining, core_calls = 0\<rparr>"
  have d: "owner_step RunningThread_new (RunningThread_new\<lparr>m_isRunning := False, owner := Joining\<rparr>)"
    by (rule owner_step.destroy) (simp add: RunningThread_new_def)
  have "thread_step (RunningThread_new\<lparr>m_isRunning := False, owner := Joining\<rparr>) ?s"
    using thread_step.start [of "RunningThread_new\<lparr>m_isRunning := False, owner := Joining\<rparr>"] by (simp add: RunningThread_new_def)
  from thread_run.by_thread [OF thread_run.by_owner [OF thread_run.here d] this] have "started_by 1 ?s"
    by (simp add: started_by_def)
  moreover have "stuck ?s"
    by (simp add: stuck_def)
  ultimately show ?thesis
    using stuck_run thread_step_ex unfolding stuck_def by (intro exI [of _ ?s]) fastforce
qed

theorem RunningThread_destructor_hangs_witness:
  "\<exists>s. started_by 1 s \<and> owner s = Joining"
  using RunningThread_destructor_hangs by blast

end
