(* ===== verification/L4_Time.thy ===== *)
theory L4_Time
  imports L4_Metadata "HOL-Library.Signed_Division"
begin

text \<open>
  The clock of \<open>inc/L4/Utils/Clock.h\<close> and the ticks of \<open>inc/L4/Utils/Time.h\<close>. The counters of the platform
  are parameters. C++ divides signed integers towards zero, which is \<open>sdiv\<close>.
\<close>

section \<open>Clock\<close>

text \<open>\<open>duration_cast\<close> to seconds from the ticks of \<open>high_resolution_clock\<close>, of which a second has \<open>ticks_per_second\<close>.\<close>

definition GetCurrentEpochTime :: "int \<Rightarrow> int \<Rightarrow> seconds" where
  "GetCurrentEpochTime ticks_per_second now = of_int (now sdiv ticks_per_second)"

lemma sdiv_nonneg: "0 \<le> a \<Longrightarrow> 0 < b \<Longrightarrow> a sdiv b = a div (b :: int)"
  by (simp add: signed_divide_int_def sgn_if)

lemma sint_of_int_small: "0 \<le> i \<Longrightarrow> i < 2 ^ 63 \<Longrightarrow> sint (of_int i :: 64 word) = i"
  by (simp add: sint_sbintrunc' signed_take_bit_int_eq_self)

lemma GetCurrentEpochTime_mono:
  assumes "0 < ticks_per_second" "0 \<le> t" "t \<le> t'" "t' < 2 ^ 63"
  shows "0 \<le> sint (GetCurrentEpochTime ticks_per_second t)"
    and "sint (GetCurrentEpochTime ticks_per_second t) \<le> sint (GetCurrentEpochTime ticks_per_second t')"
proof -
  have div: "0 \<le> s div ticks_per_second" "s div ticks_per_second < 2 ^ 63" if "0 \<le> s" "s \<le> t'" for s
    using that assms(1,4) by (simp_all add: pos_imp_zdiv_nonneg_iff) (smt (verit) div_by_1 zdiv_mono2)
  then have "sint (GetCurrentEpochTime ticks_per_second s) = s div ticks_per_second" if "0 \<le> s" "s \<le> t'" for s
    using that assms(1) by (simp add: GetCurrentEpochTime_def sdiv_nonneg sint_of_int_small)
  then show "0 \<le> sint (GetCurrentEpochTime ticks_per_second t)"
    and "sint (GetCurrentEpochTime ticks_per_second t) \<le> sint (GetCurrentEpochTime ticks_per_second t')"
    using div [of t] assms by (simp_all add: zdiv_mono1)
qed

section \<open>System ticks\<close>

text \<open>\<open>freq\<close> is what \<open>QueryPerformanceFrequency\<close> gives: the counts in a second, never 0.\<close>

definition femtoSecondsInOneCount :: "int \<Rightarrow> int" where
  "femtoSecondsInOneCount freq = (1000000000000000 - 1) sdiv freq + 1"

definition GetSystemTicks :: "int \<Rightarrow> u32 \<Rightarrow> u32" where
  "GetSystemTicks freq resolutionInterval =
     of_int ((uint resolutionInterval * 100000000 - 1) sdiv femtoSecondsInOneCount freq + 1)"

text \<open>\<open>(a - 1) / b + 1\<close> is the quotient rounded up, when \<open>a\<close> is positive.\<close>

lemma rounded_up:
  fixes a b :: int
  assumes "0 < a" "0 < b"
  shows "a \<le> ((a - 1) sdiv b + 1) * b" "((a - 1) sdiv b + 1 - 1) * b < a" "0 < (a - 1) sdiv b + 1" "(a - 1) sdiv b + 1 \<le> a"
proof -
  have d: "(a - 1) sdiv b = (a - 1) div b"
    using assms by (simp add: sdiv_nonneg)
  have "(a - 1) div b * b + (a - 1) mod b = a - 1" "0 \<le> (a - 1) mod b" "(a - 1) mod b < b"
    using assms by simp_all
  moreover have "((a - 1) div b + 1) * b = (a - 1) div b * b + b" "((a - 1) div b + 1 - 1) * b = (a - 1) div b * b"
    by (simp_all add: distrib_right)
  ultimately show "a \<le> ((a - 1) sdiv b + 1) * b" "((a - 1) sdiv b + 1 - 1) * b < a"
    unfolding d by linarith+
  have "0 \<le> (a - 1) div b"
    using assms by (simp add: pos_imp_zdiv_nonneg_iff)
  moreover have "(a - 1) div b \<le> (a - 1) div 1"
    using assms by (intro zdiv_mono2) simp_all
  ultimately show "0 < (a - 1) sdiv b + 1" "(a - 1) sdiv b + 1 \<le> a"
    unfolding d by simp_all
qed

section \<open>Properties\<close>

text \<open>\<open>GetSystemTicks\<close> rounds up: with the femtoseconds of one count rounded up to \<open>f\<close>, it is the least number of counts that
  lasts at least as long as the interval, no intermediate value leaves 64 bits, and the result is that number
  whenever it has 32 bits.\<close>

theorem GetSystemTicks_rounds_up:
  fixes freq :: int and res :: u32
  defines "f \<equiv> femtoSecondsInOneCount freq" and "t \<equiv> (uint res * 100000000 - 1) sdiv femtoSecondsInOneCount freq + 1"
  assumes "0 < freq" "0 < res"
  shows "1000000000000000 \<le> f * freq \<and> (f - 1) * freq < 1000000000000000 \<and> 0 < f \<and> f \<le> 1000000000000000 \<and>
    uint res * 100000000 \<le> t * f \<and> (t - 1) * f < uint res * 100000000 \<and> 0 < t \<and> t < 2 ^ 63 \<and>
    (t < 2 ^ 32 \<longrightarrow> uint (GetSystemTicks freq res) = t)"
proof -
  have f: "1000000000000000 \<le> f * freq" "(f - 1) * freq < 1000000000000000" "0 < f" "f \<le> 1000000000000000"
    using rounded_up [of 1000000000000000 freq] assms(3) by (simp_all add: f_def femtoSecondsInOneCount_def)
  have res: "0 < uint res" "uint res < 2 ^ 32"
    using assms(4) unsigned_less [of res] by (simp_all add: word_less_def)
  then have t: "uint res * 100000000 \<le> t * f" "(t - 1) * f < uint res * 100000000" "0 < t" "t \<le> uint res * 100000000"
    using rounded_up [of "uint res * 100000000" f] f(3) by (simp_all add: t_def f_def)
  have "uint (of_int t :: u32) = t" if "t < 2 ^ 32"
    using that t(3) by (simp add: unsigned_of_int take_bit_int_eq_self)
  moreover have "t < 2 ^ 63"
    using t(4) res(2) by simp
  ultimately show ?thesis
    using f t by (simp add: GetSystemTicks_def t_def)
qed

theorem GetSystemTicks_rounds_up_witness:
  "uint (GetSystemTicks 10000000 10000) = 10000"
proof -
  have "femtoSecondsInOneCount 10000000 = 100000000"
    by code_simp
  moreover have "(uint (10000 :: u32) * 100000000 - 1) sdiv 100000000 + 1 = 10000"
    by code_simp
  ultimately show ?thesis
    using GetSystemTicks_rounds_up [of 10000000 10000] by simp
qed

text \<open>An interval of length 0 has one tick, because the division rounds towards zero.\<close>

lemma GetSystemTicks_zero: "GetSystemTicks 10000000 0 = 1"
  by code_simp

end
