(* ===== verification/L4_AccessBit.thy ===== *)
theory L4_AccessBit
  imports L4_Metadata
begin

text \<open>
  \<open>UpdateAccessStatus\<close> of \<open>inc/L4/HashTable/Cache/Metadata.h\<close> as its accesses to memory. The readers of a cache
  set the access bit of a record without a lock while the clock eviction clears it, and neither \<open>|=\<close> nor
  \<open>&=\<close> is atomic: the byte is read for the test, read again for the change, and stored.
\<close>

section \<open>State and steps\<close>

text \<open>Where a call of \<open>UpdateAccessStatus(set)\<close> is, with \<open>set\<close>, the byte it has read and what it will return.\<close>

datatype access_pc = Testing bool | Loading bool bool | Storing bool bool u8 | Returning bool bool

text \<open>What a call reads from the metadata and makes of its own state, and what it stores.\<close>

fun access_next :: "u8 list \<Rightarrow> access_pc \<Rightarrow> access_pc" where
  "access_next md (Testing turnOn) = (if turnOn \<noteq> IsAccessed md then Loading turnOn (IsAccessed md) else Returning turnOn (IsAccessed md))"
| "access_next md (Loading turnOn isOn) = Storing turnOn isOn (md ! s_accessBitByte)"
| "access_next md (Storing turnOn isOn b) = Returning turnOn isOn"
| "access_next md (Returning turnOn isOn) = Returning turnOn isOn"

fun access_store :: "access_pc \<Rightarrow> u8 list \<Rightarrow> u8 list" where
  "access_store (Storing turnOn isOn b) md = md[s_accessBitByte := (if turnOn then b OR s_accessSetMask else b AND s_accessUnsetMask)]"
| "access_store p md = md"

text \<open>\<open>calls\<close> are the calls in progress and done, of any threads; any of them takes the next step.\<close>

record Shared_metadata =
  bytes :: "u8 list"
  calls :: "access_pc list"

definition access_step :: "nat \<Rightarrow> Shared_metadata \<Rightarrow> Shared_metadata" where
  "access_step t s = (if t < length (calls s)
     then s\<lparr>bytes := access_store (calls s ! t) (bytes s), calls := (calls s)[t := access_next (bytes s) (calls s ! t)]\<rparr> else s)"

definition access_run :: "nat list \<Rightarrow> Shared_metadata \<Rightarrow> Shared_metadata" where
  "access_run ts s = fold access_step ts s"

fun argument :: "access_pc \<Rightarrow> bool" where
  "argument (Testing turnOn) = turnOn"
| "argument (Loading turnOn isOn) = turnOn"
| "argument (Storing turnOn isOn b) = turnOn"
| "argument (Returning turnOn isOn) = turnOn"

fun result :: "access_pc \<Rightarrow> bool option" where
  "result (Returning turnOn isOn) = Some isOn"
| "result p = None"

fun access_left :: "access_pc \<Rightarrow> nat" where
  "access_left (Testing turnOn) = 3"
| "access_left (Loading turnOn isOn) = 2"
| "access_left (Storing turnOn isOn b) = 1"
| "access_left (Returning turnOn isOn) = 0"

section \<open>One call alone\<close>

lemma access_alone:
  assumes "length md = 4"
  shows "access_run [0, 0, 0] \<lparr>bytes = md, calls = [Testing turnOn]\<rparr> =
    \<lparr>bytes = snd (UpdateAccessStatus turnOn md), calls = [Returning turnOn (fst (UpdateAccessStatus turnOn md))]\<rparr>"
  by (cases "turnOn = IsAccessed md") (auto simp: access_run_def access_step_def UpdateAccessStatus_def Let_def)

section \<open>The other bits\<close>

text \<open>Metadata that differ at most in the access bit.\<close>

definition same_time :: "u8 list \<Rightarrow> u8 list \<Rightarrow> bool" where
  "same_time md md' \<longleftrightarrow> length md' = length md \<and> (\<forall>i < length md. \<forall>j. (i, j) \<noteq> (3, 7) \<longrightarrow> bit (md' ! i) j = bit (md ! i) j)"

lemma same_time_refl [simp]: "same_time md md"
  by (simp add: same_time_def)

lemma same_time_GetEpochTime:
  assumes "length md = 4" "same_time md md'"
  shows "GetEpochTime md' = GetEpochTime md"
proof -
  have "bit ((le_word md' :: u32) AND s_epochTimeMask) i = bit ((le_word md :: u32) AND s_epochTimeMask) i" if "i < 32" for i
  proof (cases "i < 31")
    case True
    have "i = 31" if "i div 8 = 3" "i mod 8 = 7"
      using that div_mult_mod_eq [of i 8] by simp
    then have "(i div 8, i mod 8) \<noteq> (3, 7)" "i div 8 < 4"
      using True by (auto simp: less_mult_imp_div_less)
    then show ?thesis
      using assms by (auto simp: bit_and_iff bit_le_word same_time_def)
  qed (simp add: bit_and_iff bit_epochTimeMask)
  then have "(le_word md' :: u32) AND s_epochTimeMask = le_word md AND s_epochTimeMask"
    by (intro bit_word_eqI) simp
  then show ?thesis
    by (simp add: GetEpochTime_def)
qed

text \<open>A byte that a call has read differs from the original at most in the access bit.\<close>

definition call_ok :: "u8 list \<Rightarrow> access_pc \<Rightarrow> bool" where
  "call_ok md p \<longleftrightarrow> (\<forall>turnOn isOn b. p = Storing turnOn isOn b \<longrightarrow> (\<forall>j. j \<noteq> 7 \<longrightarrow> bit b j = bit (md ! 3) j))"

definition shared_ok :: "u8 list \<Rightarrow> Shared_metadata \<Rightarrow> bool" where
  "shared_ok md s \<longleftrightarrow> same_time md (bytes s) \<and> (\<forall>p\<in>set (calls s). call_ok md p)"

lemma bit_new_byte:
  "bit (if turnOn then (b :: u8) OR s_accessSetMask else b AND s_accessUnsetMask) j = (if j = 7 then turnOn else bit b j)"
  by (cases "j < 8") (auto simp: bit_simps bit_accessSetMask bit_accessUnsetMask dest: bit_imp_le_length)

lemma access_store_ok:
  assumes "length md = 4" "same_time md md'" "call_ok md p"
  shows "same_time md (access_store p md')"
proof (cases p)
  case (Storing turnOn isOn b)
  have "bit (access_store p md' ! i) j = bit (md ! i) j" if "i < 4" "(i, j) \<noteq> (3, 7)" for i j
    using assms that by (cases "i = 3") (auto simp: Storing same_time_def call_ok_def s_accessBitByte_def bit_new_byte)
  then show ?thesis
    using assms(1,2) by (simp add: same_time_def Storing)
qed (use assms(2) in simp_all)

lemma access_next_ok:
  assumes "length md = 4" "same_time md md'" "call_ok md p"
  shows "call_ok md (access_next md' p)"
  using assms by (cases p) (auto simp: call_ok_def same_time_def s_accessBitByte_def)

lemma access_step_ok:
  assumes "length md = 4" "shared_ok md s"
  shows "shared_ok md (access_step t s)"
  using assms access_store_ok [OF assms(1), of "bytes s" "calls s ! t"] access_next_ok [OF assms(1), of "bytes s" "calls s ! t"]
  by (auto simp: shared_ok_def access_step_def dest!: set_update_subset_insert [THEN subsetD])

lemma access_run_ok: "length md = 4 \<Longrightarrow> shared_ok md s \<Longrightarrow> shared_ok md (access_run ts s)"
  unfolding access_run_def by (induction ts arbitrary: s) (simp_all add: access_step_ok)

section \<open>The access bit\<close>

text \<open>The steps a call has still to take get fewer with each of its own, and its argument and result do not change.\<close>

lemma access_next_left: "access_left p \<noteq> 0 \<Longrightarrow> access_left (access_next md p) < access_left p"
  by (cases p) simp_all

lemma access_next_argument: "argument (access_next md p) = argument p"
  by (cases p) simp_all

lemma access_step_simps:
  "length (calls (access_step t s)) = length (calls s)"
  "t' < length (calls s) \<Longrightarrow> argument (calls (access_step t s) ! t') = argument (calls s ! t')"
  by (simp_all add: access_step_def nth_list_update access_next_argument)

text \<open>While no call clears the bit, a call that has returned has left it set.\<close>

definition all_set :: "Shared_metadata \<Rightarrow> bool" where
  "all_set s \<longleftrightarrow> length (bytes s) = 4 \<and> (\<forall>p\<in>set (calls s). argument p) \<and>
     ((\<exists>p\<in>set (calls s). access_left p = 0) \<longrightarrow> IsAccessed (bytes s))"

lemma access_store_set:
  assumes "length md = 4" "argument p" "IsAccessed md"
  shows "IsAccessed (access_store p md)"
  using assms by (cases p) (simp_all add: IsAccessed_bit s_accessBitByte_def bit_new_byte bit_or_iff bit_accessSetMask)

lemma access_finish_set:
  assumes "length md = 4" "argument p" "access_left (access_next md p) = 0" "access_left p \<noteq> 0"
  shows "IsAccessed (access_store p md)"
  using assms by (cases p) (auto simp: IsAccessed_bit s_accessBitByte_def bit_or_iff bit_accessSetMask split: if_splits)

lemma length_access_store [simp]: "length (access_store p md) = length md"
  by (cases p) simp_all

lemma all_set_step:
  assumes "all_set s"
  shows "all_set (access_step t s)"
proof (cases "t < length (calls s)")
  case True
  let ?p = "calls s ! t"
  have p: "?p \<in> set (calls s)" "argument ?p" "length (bytes s) = 4"
    using assms True by (simp_all add: all_set_def)
  have "IsAccessed (access_store ?p (bytes s))" if q: "q \<in> set ((calls s)[t := access_next (bytes s) ?p])" "access_left q = 0" for q
  proof (cases "access_left ?p = 0 \<or> q \<in> set (calls s)")
    case True
    then have "IsAccessed (bytes s)"
      using assms q(2) p(1) unfolding all_set_def by blast
    then show ?thesis
      by (rule access_store_set [OF p(3,2)])
  next
    case False
    then have "q = access_next (bytes s) ?p"
      using q(1) set_update_subset_insert [of "calls s" t "access_next (bytes s) ?p"] by auto
    then show ?thesis
      using access_finish_set [OF p(3,2)] q(2) False by simp
  qed
  moreover have "argument q" if "q \<in> set ((calls s)[t := access_next (bytes s) ?p])" for q
    using that set_update_subset_insert [of "calls s" t "access_next (bytes s) ?p"] assms p(2)
    by (auto simp: all_set_def access_next_argument)
  ultimately show ?thesis
    using True p(3) by (auto simp: all_set_def access_step_def)
qed (use assms in \<open>simp add: access_step_def\<close>)

lemma all_set_run: "all_set s \<Longrightarrow> all_set (access_run ts s)"
  unfolding access_run_def by (induction ts arbitrary: s) (simp_all add: all_set_step)

definition started :: "u8 list \<Rightarrow> bool list \<Rightarrow> Shared_metadata" where
  "started md sets = \<lparr>bytes = md, calls = map Testing sets\<rparr>"

lemma started_ok: "shared_ok md (started md sets)"
  by (auto simp: shared_ok_def started_def call_ok_def)

lemma started_all_set: "length md = 4 \<Longrightarrow> (\<And>b. b \<in> set sets \<Longrightarrow> b) \<Longrightarrow> all_set (started md sets)"
  by (auto simp: all_set_def started_def)

section \<open>Properties\<close>

text \<open>C25: however the accesses of any number of calls of \<open>UpdateAccessStatus\<close> interleave, although its changes of the byte are
  not atomic, the epoch time is never disturbed, not even for a moment, so the expiry of a record does not
  depend on races; while nobody clears the bit, it is set as soon as one call has returned; and a call that is alone does
  what \<open>UpdateAccessStatus\<close> does.\<close>

theorem access_races_keep_time:
  assumes "length md = 4"
  shows "GetEpochTime (bytes (access_run ts (started md sets))) = GetEpochTime md \<and>
    (False \<notin> set sets \<longrightarrow> (\<exists>p\<in>set (calls (access_run ts (started md sets))). result p \<noteq> None) \<longrightarrow>
      IsAccessed (bytes (access_run ts (started md sets)))) \<and>
    access_run [0, 0, 0] (started md [b]) =
      \<lparr>bytes = snd (UpdateAccessStatus b md), calls = [Returning b (fst (UpdateAccessStatus b md))]\<rparr>"
proof -
  have "shared_ok md (access_run ts (started md sets))"
    by (rule access_run_ok [OF assms started_ok])
  then have "GetEpochTime (bytes (access_run ts (started md sets))) = GetEpochTime md"
    by (intro same_time_GetEpochTime [OF assms]) (simp add: shared_ok_def)
  moreover have "IsAccessed (bytes (access_run ts (started md sets)))"
    if "False \<notin> set sets" "p \<in> set (calls (access_run ts (started md sets)))" "result p \<noteq> None" for p
  proof -
    have "access_left p = 0"
      using that(3) by (cases p) simp_all
    moreover have "all_set (access_run ts (started md sets))"
      by (rule all_set_run, rule started_all_set [OF assms]) (use that(1) in \<open>metis (full_types)\<close>)
    ultimately show ?thesis
      using that(2) unfolding all_set_def by blast
  qed
  ultimately show ?thesis
    using access_alone [OF assms, of b, folded started_def] unfolding started_def list.map by blast
qed

text \<open>Two readers and the eviction: the bit is set and cleared by calls that have read the byte before each other's stores.\<close>

theorem access_races_keep_time_witness:
  "GetEpochTime (bytes (access_run [0, 1, 2, 0, 2, 0, 2, 1] (started (Metadata_new 77) [True, True, False]))) = 77"
proof -
  have len: "length (Metadata_new 77) = 4" and time: "GetEpochTime (Metadata_new 77) = 77"
    using GetEpochTime_new_small [of 77] by (simp_all add: Metadata_new_def)
  show ?thesis
    by (rule access_races_keep_time [OF len, THEN conjunct1, unfolded time])
qed

end
