(* ===== verification/L4_Offset.thy ===== *)
theory L4_Offset
  imports L4_Prelude
begin

text \<open>
  \<open>L4/Utils/AtomicOffsetPtr.h\<close>: a pointer in shared memory is stored as its distance from the place where it is
  stored, so that it means the same object wherever a process maps the memory. The other theories use the
  addresses themselves; this one shows when that is right.
\<close>

section \<open>The code\<close>

text \<open>
  The two functions of \<open>boost::interprocess\<close> are parameters: \<open>to_raw this offset\<close> is \<open>offset_ptr_to_raw_pointer\<close>,
  and \<open>to_offset ptr this\<close> is \<open>offset_ptr_to_offset\<close>. An address is 64 bits wide, and zero is the null pointer.
\<close>

definition AtomicOffsetPtr_new :: u64 where
  "AtomicOffsetPtr_new = 1"

definition Load :: "(u64 \<Rightarrow> u64 \<Rightarrow> u64) \<Rightarrow> u64 \<Rightarrow> u64 \<Rightarrow> u64" where
  "Load to_raw this m_offset = to_raw this m_offset"

definition Store :: "(u64 \<Rightarrow> u64 \<Rightarrow> u64) \<Rightarrow> u64 \<Rightarrow> u64 \<Rightarrow> u64" where
  "Store to_offset this ptr = to_offset ptr this"

text \<open>What boost documents of them: the offset 1 stands for null, any other is a distance.\<close>

definition boost_offsets :: "(u64 \<Rightarrow> u64 \<Rightarrow> u64) \<Rightarrow> (u64 \<Rightarrow> u64 \<Rightarrow> u64) \<Rightarrow> bool" where
  "boost_offsets to_raw to_offset \<longleftrightarrow> (\<forall>this offset. to_raw this offset = (if offset = 1 then 0 else this + offset)) \<and>
     (\<forall>ptr this. to_offset ptr this = (if ptr = 0 then 1 else ptr - this))"

section \<open>What a pointer means\<close>

lemma Load_new: "boost_offsets to_raw to_offset \<Longrightarrow> Load to_raw this AtomicOffsetPtr_new = 0"
  by (simp add: boost_offsets_def Load_def AtomicOffsetPtr_new_def)

text \<open>
  A process that maps the memory \<open>d\<close> bytes higher loads the pointer to the same object, null stays null. A pointer
  to the byte after the first of the pointer itself is the only one that is lost: it reads as null.
\<close>

lemma Load_Store:
  assumes "boost_offsets to_raw to_offset"
  shows "Load to_raw (this + d) (Store to_offset this ptr) = (if ptr = 0 \<or> ptr = this + 1 then 0 else ptr + d)"
proof -
  have "ptr - this = 1 \<longleftrightarrow> ptr = this + 1"
    by (simp add: diff_eq_eq add.commute)
  then show ?thesis
    using assms by (simp add: boost_offsets_def Load_def Store_def)
qed

text \<open>Nothing is lost when the pointer and what it points to are aligned.\<close>

lemma aligned_not_next:
  fixes this ptr :: u64
  assumes "8 dvd unat this" "8 dvd unat ptr"
  shows "ptr \<noteq> this + 1"
proof
  assume next_byte: "ptr = this + 1"
  have "unat (- 1 :: u64) = 18446744073709551615"
    by (simp add: unsigned_minus_1_eq_mask mask_eq_exp_minus_1)
  then have "\<not> 8 dvd unat (- 1 :: u64)"
    by presburger
  then have "this \<noteq> - 1"
    using assms(1) by blast
  then have "unat (this + 1) = Suc (unat this)"
    using unatSuc [of this] by (simp add: add.commute add_eq_0_iff)
  then have "8 dvd Suc (unat this)"
    using assms(2) next_byte by simp
  then show False
    using assms(1) by presburger
qed

lemma offset_pointer_round_trip:
  assumes "boost_offsets to_raw to_offset" "8 dvd unat this" "8 dvd unat ptr"
  shows "Load to_raw (this + d) (Store to_offset this ptr) = (if ptr = 0 then 0 else ptr + d)"
  using Load_Store [OF assms(1)] aligned_not_next [OF assms(2,3)] by simp

lemma offset_pointer_loses_next: "boost_offsets to_raw to_offset \<Longrightarrow> Load to_raw this (Store to_offset this (this + 1)) = 0"
  using Load_Store [of to_raw to_offset this 0 "this + 1"] by simp

lemma boost_offsets_exist: "boost_offsets (\<lambda>this offset. if offset = 1 then 0 else this + offset) (\<lambda>ptr this. if ptr = 0 then 1 else ptr - this)"
  by (simp add: boost_offsets_def)

end
