(* ===== verification/L4_UnitTests.thy ===== *)
theory L4_UnitTests
  imports L4_Service
begin

text \<open>
  Unit tests of \<open>Unittests/\<close>, translated check by check to the definitions of this development, as
  evidence that the model behaves as the code is tested to behave. A test is true when all of its checks
  hold; its statements are run in order. Checks that two blobs are in different memory have no counterpart,
  since a blob is the list of its bytes here.
\<close>

section \<open>Helpers\<close>

text \<open>\<open>Utils.h\<close> and \<open>Utils.cpp\<close> of the tests.\<close>

definition ConvertFromString :: "string \<Rightarrow> u8 list" where
  "ConvertFromString str = map of_char (c_str str)"

definition throws_message :: "'a res \<Rightarrow> string \<Rightarrow> bool" where
  "throws_message r message \<longleftrightarrow> (case r of Inl (RuntimeException m) \<Rightarrow> c_str message = c_str m | _ \<Rightarrow> False)"

definition returns :: "'a res \<Rightarrow> ('a \<Rightarrow> bool) \<Rightarrow> bool" where
  "returns r check \<longleftrightarrow> (case r of Inl _ \<Rightarrow> False | Inr x \<Rightarrow> check x)"

lemma returns_simps [simp]: "returns (Inr x) check = check x" "\<not> returns (Inl e) check"
  by (simp_all add: returns_def)

section \<open>UtilsTest.cpp\<close>

definition MathTest :: bool where
  "MathTest \<longleftrightarrow>
     RoundUp 5 10 = 10 \<and> RoundUp 10 10 = 10 \<and> RoundUp 11 10 = 20 \<and> RoundUp 5 0 = 5 \<and>
     RoundDown 5 10 = 0 \<and> RoundDown 10 10 = 10 \<and> RoundDown 11 10 = 10 \<and> RoundDown 5 0 = 5 \<and>
     IsPowerOfTwo 2 \<and> IsPowerOfTwo 4 \<and> \<not> IsPowerOfTwo 3 \<and> \<not> IsPowerOfTwo 0 \<and>
     NextHighestPowerOfTwo 0 = 0 \<and> NextHighestPowerOfTwo 1 = 1 \<and> NextHighestPowerOfTwo 2 = 2 \<and>
     NextHighestPowerOfTwo 3 = 4 \<and> NextHighestPowerOfTwo 4 = 4 \<and> NextHighestPowerOfTwo 5 = 8 \<and>
     NextHighestPowerOfTwo 200 = 256"

text \<open>The array of three integers of four bytes is at \<open>elements\<close>.\<close>

definition PointerArithmeticTest :: "u64 \<Rightarrow> bool" where
  "PointerArithmeticTest elements \<longleftrightarrow>
     PtrAdd elements 4 = elements + 4 \<and> PtrSubtract (elements + 4) 4 = elements \<and>
     Distance (elements + 8) elements = Inr (4 * 2) \<and> Distance elements (elements + 8) = Inr (4 * 2)"

lemma MathTest_passes: MathTest
  by code_simp

lemma PointerArithmeticTest_passes: "PointerArithmeticTest 0x7FFE0000"
  by code_simp

section \<open>PerfInfoTest.cpp\<close>

definition PerfCountersTest :: "'c \<Rightarrow> bool" where
  "PerfCountersTest Counter \<longleftrightarrow>
     (let pd0 = PerfCounters_init; pd1 = pc_Set pd0 Counter 10; pd2 = pc_Increment pd1 Counter; pd3 = pc_Decrement pd2 Counter;
          pd4 = pc_Add pd3 Counter 5; pd5 = pc_Subtract pd4 Counter 10; pd6 = pc_Max pd5 Counter 10; pd7 = pc_Max pd6 Counter 9;
          pd8 = pc_Min pd7 Counter 1; pd9 = pc_Min pd8 Counter 10
      in pc_Get pd0 Counter = 0 \<and> pc_Get pd1 Counter = 10 \<and> pc_Get pd2 Counter = 11 \<and> pc_Get pd3 Counter = 10 \<and>
         pc_Get pd4 Counter = 15 \<and> pc_Get pd5 Counter = 5 \<and> pc_Get pd6 Counter = 10 \<and> pc_Get pd7 Counter = 10 \<and>
         pc_Get pd8 Counter = 1 \<and> pc_Get pd9 Counter = 1)"

definition CheckMinCounters :: "HashTablePerfData \<Rightarrow> bool" where
  "CheckMinCounters htPerfData \<longleftrightarrow> pc_Get htPerfData MinValueSize = TValue_max \<and> pc_Get htPerfData MinKeySize = TValue_max"

text \<open>
  The performance data refer to the counters of the tables, which are the elements of a list here: an
  update of a table's counters is seen through the reference.
\<close>

definition PerfDataTest :: bool where
  "PerfDataTest \<longleftrightarrow>
     (let htPerfData = replicate 3 HashTablePerfData_init; testPerfData = PerfData_new;
          (r1, D1) = AddHashTablePerfData ''HT1'' 0 testPerfData; (r2, D2) = AddHashTablePerfData ''HT2'' 1 D1;
          (r3, D3) = AddHashTablePerfData ''HT3'' 2 D2;
          after = [pc_Set (htPerfData ! 0) TotalKeySize 10, pc_Set (htPerfData ! 1) TotalKeySize 20, pc_Set (htPerfData ! 2) TotalKeySize 30];
          total = (\<lambda>name. map_option (\<lambda>i. pc_Get (after ! i) TotalKeySize) (m_hashTablesPerfData D3 name))
      in m_hashTablesPerfData testPerfData = Map.empty \<and> list_all CheckMinCounters htPerfData \<and>
         r1 = Inr () \<and> r2 = Inr () \<and> r3 = Inr () \<and> dom (m_hashTablesPerfData D3) = {''HT1'', ''HT2'', ''HT3''} \<and>
         total ''HT1'' = Some 10 \<and> total ''HT2'' = Some 20 \<and> total ''HT3'' = Some 30)"

lemma PerfCountersTest_passes: "PerfCountersTest c"
  by (simp add: PerfCountersTest_def pc_defs PerfCounters_init_def Max_loop.simps Min_loop.simps compare_exchange_def Let_def)

lemma PerfDataTest_passes: PerfDataTest
  by (auto simp: PerfDataTest_def PerfData_new_def AddHashTablePerfData_def CheckMinCounters_def HashTablePerfData_init_def
      c_str_def pc_Set_def pc_Get_def Let_def numeral_2_eq_2 eval_nat_numeral)

section \<open>SettingAdapterTest.cpp\<close>

definition SettingAdapterTestWithDefaultValues :: bool where
  "SettingAdapterTestWithDefaultValues \<longleftrightarrow>
     (let to = SettingAdapter_Convert \<lparr>c_numBuckets = 100, c_numBucketsPerMutex = None, c_fixedKeySize = None, c_fixedValueSize = None\<rparr>
      in m_numBuckets to = 100 \<and> m_numBucketsPerMutex to = 1 \<and> s_fixedKeySize to = 0 \<and> s_fixedValueSize to = 0)"

definition SettingAdapterTestWithNonDefaultValues :: bool where
  "SettingAdapterTestWithNonDefaultValues \<longleftrightarrow>
     (let to = SettingAdapter_Convert \<lparr>c_numBuckets = 100, c_numBucketsPerMutex = Some 10, c_fixedKeySize = Some 5, c_fixedValueSize = Some 20\<rparr>
      in m_numBuckets to = 100 \<and> m_numBucketsPerMutex to = 10 \<and> s_fixedKeySize to = 5 \<and> s_fixedValueSize to = 20)"

lemma SettingAdapterTests_pass: "SettingAdapterTestWithDefaultValues \<and> SettingAdapterTestWithNonDefaultValues"
  by (simp add: SettingAdapterTestWithDefaultValues_def SettingAdapterTestWithNonDefaultValues_def SettingAdapter_Convert_def
      default_Setting_def get_value_or_def Let_def)

section \<open>HashTableRecordTest.cpp\<close>

definition ValidateRecord :: "RecordSerializer \<Rightarrow> string \<Rightarrow> string \<Rightarrow> nat \<Rightarrow> nat \<Rightarrow> string option \<Rightarrow> bool" where
  "ValidateRecord serializer keyStr valueStr expectedBufferSize expectedRecordOverheadSize metadataStr \<longleftrightarrow>
     CalculateRecordOverhead serializer = expectedRecordOverheadSize \<and>
     (let key = ConvertFromString keyStr; value' = ConvertFromString valueStr; bufferSize = CalculateBufferSize serializer key value';
          buffer = replicate (unat bufferSize) 0
      in unat bufferSize = expectedBufferSize \<and>
         returns (case metadataStr of Some s \<Rightarrow> SerializeMeta serializer key value' (ConvertFromString s) buffer bufferSize
                  | None \<Rightarrow> Serialize serializer key value' buffer bufferSize)
           (\<lambda>recordBuffer. returns (Deserialize serializer recordBuffer) (\<lambda>record'. Blob_eq (m_key record') key \<and>
              Blob_eq (m_value record') (case metadataStr of Some s \<Rightarrow> ConvertFromString (s @ valueStr) | None \<Rightarrow> value'))))"

definition Run :: "bool \<Rightarrow> bool \<Rightarrow> bool \<Rightarrow> bool" where
  "Run isFixedKey isFixedValue useMetaValue \<longleftrightarrow>
     (let key = ''TestKey''; value' = ''TestValue''; metaValue = ''TestMetavalue'';
          recordOverhead = (if isFixedKey then 0 else 2) + (if isFixedValue then 0 else 4)
      in ValidateRecord \<lparr>m_fixedKeySize = (if isFixedKey then of_nat (length key) else 0),
             m_fixedValueSize = (if isFixedValue then of_nat (length value') else 0),
             m_metadataSize = (if useMetaValue then of_nat (length metaValue) else 0)\<rparr>
           key value' (recordOverhead + length key + length value' + (if useMetaValue then length metaValue else 0)) recordOverhead
           (if useMetaValue then Some metaValue else None))"

definition RunAll :: bool where
  "RunAll \<longleftrightarrow> list_all (\<lambda>(a, b, c). Run a b c) (List.product [False, True] (List.product [False, True] [False, True]))"

lemma RunAll_passes: RunAll
  by code_simp

definition InvalidSizeTest :: bool where
  "InvalidSizeTest \<longleftrightarrow>
     (let buffer = replicate 100 0; size' = 100;
          serializer = \<lparr>m_fixedKeySize = 4, m_fixedValueSize = 5, m_metadataSize = 0\<rparr>;
          key = ConvertFromString ''1234''; value' = ConvertFromString ''12345'';
          invalidKey = ConvertFromString ''999999''; invalidValue = ConvertFromString ''999999'';
          serializerWithMetaValue = \<lparr>m_fixedKeySize = 4, m_fixedValueSize = 5, m_metadataSize = 2\<rparr>;
          metaValue = le_bytes 2 (0 :: u16)
      in throws_message (Serialize serializer invalidKey value' buffer size') ''Invalid key or value sizes are given.'' \<and>
         throws_message (Serialize serializer key invalidValue buffer size') ''Invalid key or value sizes are given.'' \<and>
         throws_message (Serialize serializer invalidKey invalidValue buffer size') ''Invalid key or value sizes are given.'' \<and>
         returns (Serialize serializer key value' buffer size') (\<lambda>_. True) \<and>
         returns (SerializeMeta serializerWithMetaValue key value' metaValue buffer size') (\<lambda>_. True) \<and>
         throws_message (SerializeMeta serializerWithMetaValue key value' (take 1 metaValue) buffer size') ''Invalid meta value size is given.'')"

lemma InvalidSizeTest_passes: InvalidSizeTest
  by code_simp

section \<open>EpochManagerTest.cpp\<close>

definition EpochRefManagerTest :: bool where
  "EpochRefManagerTest \<longleftrightarrow>
     returns (EpochQueue_new 5 100) (\<lambda>q0.
       let (epoch, q1) = AddRef q0; (r2, q2) = RemoveRef q1 5; (r3, q3) = RemoveRef q2 5
       in m_refCounts q0 ! 5 = 0 \<and> epoch = 5 \<and> m_refCounts q1 ! 5 = 1 \<and> r2 = Inr () \<and> m_refCounts q2 ! 5 = 0 \<and>
          throws_message r3 ''Reference counter is invalid.'')"

definition EpochCounterManagerTest :: bool where
  "EpochCounterManagerTest \<longleftrightarrow>
     returns (EpochQueue_new 0 100) (\<lambda>q0.
       let (e1, q1) = RemoveUnreferenceEpochCounters q0; q2 = AddNewEpoch (AddNewEpoch q1);
           (e3, q3) = RemoveUnreferenceEpochCounters q2; (referenced, q4) = AddRef q3;
           (e5, q5) = RemoveUnreferenceEpochCounters q4; q6 = AddNewEpoch q5;
           (e7, q7) = RemoveUnreferenceEpochCounters q6; (r8, q8) = RemoveRef q7 referenced;
           (e9, q9) = RemoveUnreferenceEpochCounters q8
       in e1 = 0 \<and> m_frontIndex q2 = 0 \<and> m_backIndex q2 = 2 \<and> m_refCounts q2 ! unat (m_frontIndex q2) = 0 \<and>
          e3 = 2 \<and> m_frontIndex q3 = 2 \<and> m_backIndex q3 = 2 \<and> referenced = 2 \<and>
          e5 = 2 \<and> m_frontIndex q5 = 2 \<and> m_backIndex q5 = 2 \<and>
          e7 = referenced \<and> m_frontIndex q7 = referenced \<and> m_backIndex q7 = 3 \<and> r8 = Inr () \<and>
          e9 = 3 \<and> m_frontIndex q9 = 3 \<and> m_backIndex q9 = 3)"

declare EpochQueue_new_def [l4_defs] AddRef_def [l4_defs] RemoveRef_def [l4_defs] AddNewEpoch_def [l4_defs] ring_index_def [l4_defs]
  RemoveUnreferenceEpochCounters.simps [l4_defs]

lemma EpochRefManagerTest_passes: EpochRefManagerTest
  by (simp add: EpochRefManagerTest_def l4_defs throws_message_def c_str_def Let_def)

lemma EpochCounterManagerTest_passes: EpochCounterManagerTest
  by (simp add: EpochCounterManagerTest_def l4_defs Let_def)

text \<open>The actions set a flag each; here they are the numbers of the flags.\<close>

definition EpochActionManagerTest :: bool where
  "EpochActionManagerTest \<longleftrightarrow>
     returns (EpochActionManager_new 1 2) (\<lambda>M0.
       let (r1, M1) = EpochActionManager_RegisterAction 5 (1 :: nat) M0; (r2, M2) = EpochActionManager_RegisterAction 6 2 M1;
           (run3, _, M3) = PerformActions 4 M2; (run4, _, M4) = PerformActions 5 M3;
           (run5, _, M5) = PerformActions 6 M4; (run6, _, M6) = PerformActions 7 M5
       in r1 = Inr () \<and> r2 = Inr () \<and> run3 = [] \<and> run4 = [] \<and> run5 = [1] \<and> run6 = [2])"

lemma EpochActionManagerTest_passes: EpochActionManagerTest
  by code_simp

text \<open>
  The test waits until the processing thread has done two more rounds. \<open>ticks\<close> are that many rounds or
  more, with the actions they run.
\<close>

fun ticks :: "nat \<Rightarrow> 'a EpochManager \<Rightarrow> 'a list \<times> 'a EpochManager" where
  "ticks 0 E = ([], E)"
| "ticks (Suc n) E = (let (run, E) = processing_tick E; (run', E) = ticks n E in (run @ run', E))"

definition EpochManagerTest :: "nat \<Rightarrow> nat \<Rightarrow> bool" where
  "EpochManagerTest n m \<longleftrightarrow>
     returns (EpochManager_new 1 \<lparr>m_epochQueueSize = 100000, m_epochProcessingInterval = 5, m_numActionQueues = 1\<rparr> PerfCounters_init)
       (\<lambda>E0. let (referenced, q) = AddRef (m_epochQueue E0); E1 = E0\<lparr>m_epochQueue := q\<rparr>;
                 (r, E2) = RegisterAction () E1; (run, E3) = ticks n E2;
                 (r', q') = RemoveRef (m_epochQueue E3) referenced; (run', _) = ticks m (E3\<lparr>m_epochQueue := q'\<rparr>)
             in r = Inr () \<and> run = [] \<and> r' = Inr () \<and> run' = [()])"

lemma ticks_2: "ticks 2 E = (let (run, E) = processing_tick E; (run', E) = processing_tick E in (run @ run', E))"
  by (simp add: numeral_2_eq_2 split_beta Let_def)

lemma EpochManagerTest_passes: "EpochManagerTest 2 2"
  by (simp add: EpochManagerTest_def EpochManager_new_def EpochActionManager_new_def NextHighestPowerOfTwo_def IsPowerOfTwo_def l4_defs
      RegisterAction_def EpochActionManager_RegisterAction_def queue_index_def processing_tick_def EpochManager_Add_def
      EpochManager_Remove_def PerformActions_def pc_defs Let_def ticks_2)

end
