(* ===== verification/L4_TableTest.thy ===== *)
theory L4_TableTest
  imports L4_UnitTests L4_Connection L4_ChainGrowth
begin

text \<open>
  Unit tests of the hash table, \<open>Unittests/ReadWriteHashTableTest.cpp\<close> and
  \<open>Unittests/ReadWriteHashTableSerializerTest.cpp\<close>, with the test doubles of \<open>Mocks.h\<close> and
  \<open>CheckedAllocator.h\<close>. They are proved for every allocator, not evaluated for one.
\<close>

section \<open>The test doubles\<close>

text \<open>
  \<open>MockEpochManager\<close> counts the calls and runs the action at once. A table registers actions in its last
  step, so they are kept until it returns and run then. The checks of \<open>CheckedAllocator\<close> are those of
  \<open>dealloc\<close>: a buffer is freed once, and in the end no buffer is left.
\<close>

type_synonym MockEpochManager = "u16 \<times> addr list"

definition Mock_RegisterAction :: "MockEpochManager reg" where
  "Mock_RegisterAction action E = (Inr (), (fst E + 1, snd E @ [action]))"

definition run_registered :: "'a res \<Rightarrow> MockEpochManager World \<Rightarrow> 'a res \<times> MockEpochManager World" where
  "run_registered r W = (case run_releases (snd (manager W)) (heap W) of
     Inl e \<Rightarrow> (Inl e, W)
   | Inr h \<Rightarrow> (r, W\<lparr>heap := h, manager := (fst (manager W), [])\<rparr>))"

definition mock_Add :: "RecordSerializer \<Rightarrow> allocator \<Rightarrow> MockEpochManager World \<Rightarrow> Key \<Rightarrow> Value \<Rightarrow> unit res \<times> MockEpochManager World" where
  "mock_Add rs alloc W key value = (let (r, W) = Add rs alloc Mock_RegisterAction W key value in run_registered r W)"

definition mock_Remove :: "RecordSerializer \<Rightarrow> MockEpochManager World \<Rightarrow> Key \<Rightarrow> bool res \<times> MockEpochManager World" where
  "mock_Remove rs W key = (let (r, W) = Remove rs Mock_RegisterAction W key in run_registered r W)"

interpretation mock: action_registry "\<lambda>E. True" "\<lambda>E. mset (snd E)" Mock_RegisterAction
  by unfold_locales (auto simp: Mock_RegisterAction_def)

text \<open>What holds between the statements of a test: the map of the table, its counters and its memory.\<close>

definition test_inv :: "nat \<Rightarrow> RecordSerializer \<Rightarrow> (Key \<rightharpoonup> Value) \<Rightarrow> MockEpochManager World \<Rightarrow> bool" where
  "test_inv base rs m W \<longleftrightarrow> table_ok rs W \<and> table_map rs W = m \<and> perf_ok base rs W \<and> snd (manager W) = [] \<and>
     accounted (\<lambda>E. True) (\<lambda>E. mset (snd E)) W \<and> (\<forall>k. m k \<noteq> Some [])"

lemma run_registered_parts:
  assumes "table_ok rs W" "perf_ok base rs W" "accounted (\<lambda>E. True) (\<lambda>E. mset (snd E)) W"
  obtains W' where "run_registered r W = (r, W')" "table_ok rs W'" "table_map rs W' = table_map rs W" "perf_ok base rs W'"
    "accounted (\<lambda>E. True) (\<lambda>E. mset (snd E)) W'" "table W' = table W" "snd (manager W') = []"
proof -
  let ?h = "heap W |` (- set (snd (manager W)))"
  let ?W = "W\<lparr>heap := ?h, manager := (fst (manager W), [])\<rparr>"
  have acc: "mset_set (dom (heap W)) = mset (table_addrs (table W)) + mset (snd (manager W))"
    using assms(3) by (simp add: accounted_def)
  note rel = release_queued [OF assms(1) acc, of "snd (manager W)" "{#}", simplified]
  have tab: "table_ok rs ?W \<and> table_map rs ?W = table_map rs W"
    by (rule rel(3)) simp_all
  moreover from this have "perf_ok base rs ?W"
    using assms(2) by (simp add: perf_ok_def Let_def)
  moreover have "mset_set (dom ?h) = mset (table_addrs (table W))"
    using rel(2) by simp
  ultimately show ?thesis
    using that [of ?W] rel(1) by (simp add: run_registered_def accounted_def)
qed

lemma run_registered_ok:
  assumes "table_ok rs W" "perf_ok base rs W" "accounted (\<lambda>E. True) (\<lambda>E. mset (snd E)) W" "\<forall>k. table_map rs W k \<noteq> Some []"
  shows "fst (run_registered r W) = r \<and> test_inv base rs (table_map rs W) (snd (run_registered r W))"
  by (rule run_registered_parts [OF assms(1-3), of r]) (use assms(4) in \<open>simp add: test_inv_def\<close>)

lemma test_Add:
  assumes inv: "test_inv base rs m W" and add: "addable rs alloc k v" "v \<noteq> []"
  shows "fst (mock_Add rs alloc W k v) = Inr () \<and> test_inv base rs (m(k \<mapsto> v)) (snd (mock_Add rs alloc W k v))"
proof -
  let ?W = "put_record rs alloc Mock_RegisterAction W k v"
  have ok: "table_ok rs W" "table_map rs W = m" "perf_ok base rs W" "accounted (\<lambda>E. True) (\<lambda>E. mset (snd E)) W" "\<forall>k. m k \<noteq> Some []"
    using inv by (auto simp: test_inv_def)
  have "perf_ok base rs ?W"
    using perf_run [OF ok(1,3), of alloc "[Put k v]" Mock_RegisterAction] add ok(2,5) by simp
  moreover have "table_ok rs ?W" "table_map rs ?W = m(k \<mapsto> v)"
    using rw.put_inv [OF ok(1) add(1), of Mock_RegisterAction] rw.put_abs [OF ok(1) add(1), of Mock_RegisterAction] ok(2) by simp_all
  moreover have "fst (Add rs alloc Mock_RegisterAction W k v) = Inr ()" "accounted (\<lambda>E. True) (\<lambda>E. mset (snd E)) ?W"
    using mock.Add_accounted [OF ok(1) add(1) ok(4)] by simp_all
  ultimately show ?thesis
    using run_registered_ok [of rs ?W base "Inr ()"] add(2) ok(5) by (simp add: mock_Add_def put_record_def split_beta)
qed

lemma test_Remove:
  assumes inv: "test_inv base rs m W"
  shows "fst (mock_Remove rs W k) = Inr (m k \<noteq> None) \<and> test_inv base rs (m(k := None)) (snd (mock_Remove rs W k))"
proof -
  let ?W = "del_record rs Mock_RegisterAction W k"
  have ok: "table_ok rs W" "table_map rs W = m" "perf_ok base rs W" "accounted (\<lambda>E. True) (\<lambda>E. mset (snd E)) W" "\<forall>k. m k \<noteq> Some []"
    using inv by (auto simp: test_inv_def)
  have "perf_ok base rs ?W"
    using perf_run [OF ok(1,3), of first_fit "[Del k]" Mock_RegisterAction] ok(2,5) by simp
  moreover have "table_ok rs ?W" "table_map rs ?W = m(k := None)"
    using rw.del_inv [OF ok(1), of Mock_RegisterAction] rw.del_abs [OF ok(1), of Mock_RegisterAction] ok(2) by simp_all
  moreover have "fst (Remove rs Mock_RegisterAction W k) = Inr (m k \<noteq> None)" "accounted (\<lambda>E. True) (\<lambda>E. mset (snd E)) ?W"
    using mock.Remove_accounted [OF ok(1,4), of k] ok(2) by simp_all
  ultimately show ?thesis
    using run_registered_ok [of rs ?W base "Inr (m k \<noteq> None)"] ok(5) by (simp add: mock_Remove_def del_record_def split_beta)
qed

lemma test_Get: "test_inv base rs m W \<Longrightarrow> Get rs W k = Inr (m k)"
  using Get_correct [of rs W k] by (simp add: test_inv_def)

lemma test_count: "test_inv base rs m W \<Longrightarrow> pc_Get (m_perfData (table W)) RecordsCount = of_nat (card (dom m))"
  by (simp add: test_inv_def perf_ok_def Let_def pc_Get_def)

lemma test_totals:
  assumes "test_inv base rs m W"
  shows "m_perfData (table W) RecordsCount = of_nat (card (dom m))"
    "m_perfData (table W) TotalKeySize = of_nat (\<Sum>k\<in>dom m. length k)"
    "m_perfData (table W) TotalValueSize = of_nat (\<Sum>k\<in>dom m. length (the (m k)))"
  using assms by (simp_all only: test_inv_def perf_ok_def Let_def)

text \<open>When the table is empty in the end, the destructor leaves no buffer allocated.\<close>

lemma destroy_accounted:
  assumes ok: "table_ok rs W" and acc: "accounted (\<lambda>E. True) (\<lambda>E. mset (snd E)) W" and "snd (manager W) = []"
  shows "SharedHashTable_destroy (table W) (heap W) = Inr Map.empty"
proof -
  have "mset_set (dom (heap W)) = mset (table_addrs (table W))" "finite (dom (heap W))"
    using assms by (simp_all add: accounted_def table_ok_def)
  then have "set (table_addrs (table W)) = dom (heap W)"
    by (metis finite_set_mset_mset_set set_mset_mset)
  then have "heap W |` (- set (table_addrs (table W))) = Map.empty"
    by (auto simp: restrict_map_def fun_eq_iff)
  then show ?thesis
    using SharedHashTable_destroy_ok [OF ok] by simp
qed

lemma test_destroy: "test_inv base rs m W \<Longrightarrow> SharedHashTable_destroy (table W) (heap W) = Inr Map.empty"
  by (auto simp: test_inv_def intro: destroy_accounted)

section \<open>AddRemoveSameKeyTest\<close>

text \<open>\<open>sm\<close> and \<open>st\<close> are the sizes of a mutex and of the table object.\<close>

definition test_world :: "nat \<Rightarrow> nat \<Rightarrow> Setting \<Rightarrow> MockEpochManager World" where
  "test_world sm st setting = \<lparr>heap = Map.empty, table = SharedHashTable_new sm st setting, manager = (0, [])\<rparr>"

definition AddRemoveSameKeyTest :: "nat \<Rightarrow> nat \<Rightarrow> allocator \<Rightarrow> bool" where
  "AddRemoveSameKeyTest sm st alloc \<longleftrightarrow>
     (let W0 = test_world sm st \<lparr>m_numBuckets = 100, m_numBucketsPerMutex = 5, s_fixedKeySize = 0, s_fixedValueSize = 0\<rparr>;
          rs = default_serializer (table W0);
          key1 = ConvertFromString ''key1''; val1 = ConvertFromString ''val1''; (r1, W1) = mock_Add rs alloc W0 key1 val1;
          key2 = ConvertFromString ''key2''; val2 = ConvertFromString ''val2''; (r2, W2) = mock_Add rs alloc W1 key2 val2;
          (r3, W3) = mock_Remove rs W2 key1;
          newVal2 = ConvertFromString ''newVal2''; (r4, W4) = mock_Add rs alloc W3 key2 newVal2;
          (r5, W5) = mock_Remove rs W4 key2; (r6, W6) = mock_Remove rs W5 key2
      in r1 = Inr () \<and> Get rs W1 key1 = Inr (Some val1) \<and>
         r2 = Inr () \<and> Get rs W2 key2 = Inr (Some val2) \<and>
         r3 = Inr True \<and> Get rs W3 key1 = Inr None \<and> pc_Get (m_perfData (table W3)) RecordsCount = 1 \<and>
         r4 = Inr () \<and> Get rs W4 key2 = Inr (Some newVal2) \<and> pc_Get (m_perfData (table W4)) RecordsCount = 1 \<and>
         r5 = Inr True \<and> r6 = Inr False \<and> pc_Get (m_perfData (table W6)) RecordsCount = 0 \<and>
         SharedHashTable_destroy (table W6) (heap W6) = Inr Map.empty)"

lemma test_inv_new:
  assumes "0 < m_numBuckets s"
  shows "test_inv (unat (m_numBuckets s) * sizeof_Entry + unat (num_mutexes s) * sm + st) rs Map.empty (test_world sm st s)"
  using table_ok_new [OF assms, of Map.empty rs sm st "(0, [])"] perf_ok_new [OF assms, of Map.empty sm st rs "(0, [])"]
  by (simp add: test_inv_def test_world_def accounted_def)

lemma AddRemoveSameKeyTest_passes:
  assumes "good_alloc alloc"
  shows "AddRemoveSameKeyTest sm st alloc"
proof -
  let ?s = "\<lparr>m_numBuckets = 100, m_numBucketsPerMutex = 5, s_fixedKeySize = 0, s_fixedValueSize = 0\<rparr>"
  let ?rs = "default_serializer (table (test_world sm st ?s))"
  let ?k1 = "ConvertFromString ''key1''" and ?k2 = "ConvertFromString ''key2''" and ?v1 = "ConvertFromString ''val1''"
    and ?v2 = "ConvertFromString ''val2''" and ?v3 = "ConvertFromString ''newVal2''"
  have rs: "?rs = \<lparr>m_fixedKeySize = 0, m_fixedValueSize = 0, m_metadataSize = 0\<rparr>"
    by (simp add: default_serializer_def test_world_def SharedHashTable_new_def Let_def)
  have add: "addable ?rs alloc k v" if "valid_key k" "valid_value v" for k v
    using that assms by (simp add: addable_def rs Validate_def)
  have sizes: "valid_key ?k1" "valid_key ?k2" "valid_value ?v1" "valid_value ?v2" "valid_value ?v3" "?v1 \<noteq> []" "?v2 \<noteq> []" "?v3 \<noteq> []" "?k1 \<noteq> ?k2"
    by (simp_all add: valid_key_def valid_value_def ConvertFromString_def c_str_def)
  define base where "base = unat (m_numBuckets ?s) * sizeof_Entry + unat (num_mutexes ?s) * sm + st"
  have "test_inv base ?rs Map.empty (test_world sm st ?s)"
    unfolding base_def by (rule test_inv_new) simp
  note w1 = test_Add [OF this add [OF sizes(1,3)] sizes(6)]
  note w2 = test_Add [OF w1 [THEN conjunct2] add [OF sizes(2,4)] sizes(7)]
  note w3 = test_Remove [OF w2 [THEN conjunct2], of ?k1]
  note w4 = test_Add [OF w3 [THEN conjunct2] add [OF sizes(2,5)] sizes(8)]
  note w5 = test_Remove [OF w4 [THEN conjunct2], of ?k2]
  note w6 = test_Remove [OF w5 [THEN conjunct2], of ?k2]
  note inv = w1 [THEN conjunct2] w2 [THEN conjunct2] w3 [THEN conjunct2] w4 [THEN conjunct2] w6 [THEN conjunct2]
  note checks = test_Get [OF inv(1), of ?k1] test_Get [OF inv(2), of ?k2] test_Get [OF inv(3), of ?k1] test_count [OF inv(3)]
    test_Get [OF inv(4), of ?k2] test_count [OF inv(4)] test_count [OF inv(5)] test_destroy [OF inv(5)]
  show ?thesis
    using w1 w2 w3 w4 w5 w6 checks sizes(9)
    by (simp add: AddRemoveSameKeyTest_def split_beta Let_def)
qed

section \<open>FixedKeyValueHashTableTest\<close>

definition ValidateCounters :: "HashTablePerfData \<Rightarrow> (HashTablePerfCounter \<times> u64) list \<Rightarrow> bool" where
  "ValidateCounters actual expected \<longleftrightarrow> list_all (\<lambda>(perfCounter, expectedValue). pc_Get actual perfCounter = expectedValue) expected"

fun add_all :: "RecordSerializer \<Rightarrow> allocator \<Rightarrow> (Key \<times> Value) list \<Rightarrow> MockEpochManager World \<Rightarrow> bool \<times> MockEpochManager World" where
  "add_all rs alloc [] W = (True, W)"
| "add_all rs alloc ((k, v) # kvs) W = (let (r, W) = mock_Add rs alloc W k v; (ok, W) = add_all rs alloc kvs W in (r = Inr () \<and> ok, W))"

fun remove_all :: "RecordSerializer \<Rightarrow> (Key \<times> Value) list \<Rightarrow> MockEpochManager World \<Rightarrow> bool \<times> MockEpochManager World" where
  "remove_all rs [] W = (True, W)"
| "remove_all rs ((k, v) # kvs) W = (let (r, W) = mock_Remove rs W k; (ok, W) = remove_all rs kvs W in (returns r (\<lambda>_. True) \<and> ok, W))"

definition test_records :: "nat \<Rightarrow> (Key \<times> Value) list" where
  "test_records n = map (\<lambda>i. (ConvertFromString (''key'' @ to_string i), ConvertFromString (''value'' @ to_string i))) [0..<n]"

definition run_fixed :: "nat \<Rightarrow> nat \<Rightarrow> allocator \<Rightarrow> Setting \<Rightarrow> bool" where
  "run_fixed sm st alloc setting \<longleftrightarrow>
     (let W0 = test_world sm st setting; rs = default_serializer (table W0); kvs = test_records 10;
          (ok1, W1) = add_all rs alloc kvs W0; (ok2, W2) = remove_all rs kvs W1
      in ok1 \<and>
         ValidateCounters (m_perfData (table W1)) [(RecordsCount, 10), (BucketsCount, 100), (TotalKeySize, 40), (TotalValueSize, 60),
           (MinKeySize, 4), (MaxKeySize, 4), (MinValueSize, 6), (MaxValueSize, 6)] \<and>
         list_all (\<lambda>(k, v). Get rs W1 k = Inr (Some v)) kvs \<and> ok2 \<and>
         ValidateCounters (m_perfData (table W2)) [(RecordsCount, 0), (BucketsCount, 100), (TotalKeySize, 0), (TotalValueSize, 0)] \<and>
         SharedHashTable_destroy (table W2) (heap W2) = Inr Map.empty)"

definition FixedKeyValueHashTableTest :: "nat \<Rightarrow> nat \<Rightarrow> allocator \<Rightarrow> bool" where
  "FixedKeyValueHashTableTest sm st alloc \<longleftrightarrow>
     list_all (\<lambda>(k, v). run_fixed sm st alloc \<lparr>m_numBuckets = 100, m_numBucketsPerMutex = 200, s_fixedKeySize = k, s_fixedValueSize = v\<rparr>)
       [(4, 0), (0, 6), (4, 6)]"

text \<open>
  The smallest and largest sizes, and the number of buckets, over the operations of the test: keys have 4 bytes and
  values \<open>n\<close>.
\<close>

definition sizes_known :: "nat \<Rightarrow> bool \<Rightarrow> HashTablePerfData \<Rightarrow> bool" where
  "sizes_known n added pd \<longleftrightarrow> pd BucketsCount = 100 \<and>
     (if added then pd MinKeySize = 4 \<and> pd MaxKeySize = 4 \<and> pd MinValueSize = of_nat n \<and> pd MaxValueSize = of_nat n
      else pd MinKeySize = TValue_max \<and> pd MaxKeySize = 0 \<and> pd MinValueSize = TValue_max \<and> pd MaxValueSize = 0)"

lemma perf_add_sizes:
  assumes "st_oldValueSize stat = 0"
  shows "UpdatePerfDataForAdd rs stat pd BucketsCount = pd BucketsCount"
    "UpdatePerfDataForAdd rs stat pd MinKeySize = fst (Min_loop (pd MinKeySize) (ucast (st_keySize stat)) (pd MinKeySize) [])"
    "UpdatePerfDataForAdd rs stat pd MaxKeySize = fst (Max_loop (pd MaxKeySize) (ucast (st_keySize stat)) (pd MaxKeySize) [])"
    "UpdatePerfDataForAdd rs stat pd MinValueSize = fst (Min_loop (pd MinValueSize) (ucast (st_valueSize stat)) (pd MinValueSize) [])"
    "UpdatePerfDataForAdd rs stat pd MaxValueSize = fst (Max_loop (pd MaxValueSize) (ucast (st_valueSize stat)) (pd MaxValueSize) [])"
  using assms by (simp_all add: UpdatePerfDataForAdd_def pc_defs Let_def)

lemma run_registered_table: "table (snd (run_registered r W)) = table W"
  by (simp add: run_registered_def split: sum.split)

lemma sizes_known_add:
  assumes stat: "add_stat k v None chain stat" and len: "length k = 4" "length v = n" "n \<le> 100" and known: "sizes_known n added pd"
  shows "sizes_known n True (UpdatePerfDataForAdd rs stat pd)"
proof -
  have stat: "st_oldValueSize stat = 0" "st_keySize stat = 4" "st_valueSize stat = of_nat n"
    using stat len by (simp_all add: add_stat_def ksize_def vsize_def)
  have n: "(ucast (of_nat n :: u32) :: u64) = of_nat n" "sint (of_nat n :: u64) = int n"
    using len(3) by (simp_all add: ucast_of_nat_32 sint_of_nat_small)
  show ?thesis
    using known len(3) unfolding sizes_known_def
    by (simp add: perf_add_sizes [OF stat(1)] stat(2,3) n Max_loop_alone Min_loop_alone TValue_max_def split: if_splits)
qed

lemma mock_Add_sizes:
  assumes inv: "test_inv base rs m W" and add: "addable rs alloc k v" and new: "m k = None" and len: "length k = 4" "length v = 6"
    and known: "sizes_known 6 added (m_perfData (table W))"
  shows "sizes_known 6 True (m_perfData (table (snd (mock_Add rs alloc W k v))))"
proof -
  have ok: "table_ok rs W" and m: "table_map rs W k = None"
    using inv new by (auto simp: test_inv_def)
  show ?thesis
  proof (cases rule: Add_cases [OF ok add, of Mock_RegisterAction])
    case (1 res a old stat W')
    have "table (snd (mock_Add rs alloc W k v)) = table W'"
      by (simp add: mock_Add_def 1(1) run_registered_table)
    then show ?thesis
      using sizes_known_add [OF 1(6) [unfolded m] len _ known] by (simp add: 1(7))
  qed
qed

lemma mock_Remove_buckets:
  assumes inv: "test_inv base rs m W"
  shows "m_perfData (table (snd (mock_Remove rs W k))) BucketsCount = m_perfData (table W) BucketsCount"
proof -
  have ok: "table_ok rs W"
    using inv by (simp add: test_inv_def)
  show ?thesis
  proof (cases rule: Remove_cases [OF ok, of k Mock_RegisterAction])
    case 1
    then show ?thesis
      by (simp add: mock_Remove_def run_registered_table)
  next
    case (2 v a W')
    then show ?thesis
      by (simp add: mock_Remove_def run_registered_table UpdatePerfDataForRemove_def pc_defs Let_def)
  qed
qed

lemma add_all_ok:
  assumes "test_inv base rs m W" "sizes_known 6 added (m_perfData (table W))" "distinct (map fst kvs)" "\<forall>k\<in>set (map fst kvs). m k = None"
    and "\<forall>(k, v)\<in>set kvs. addable rs alloc k v \<and> length k = 4 \<and> length v = 6" "m' = m ++ map_of kvs"
  shows "fst (add_all rs alloc kvs W) \<and> test_inv base rs m' (snd (add_all rs alloc kvs W)) \<and>
    sizes_known 6 (added \<or> kvs \<noteq> []) (m_perfData (table (snd (add_all rs alloc kvs W))))"
  using assms
proof (induction kvs arbitrary: W m added)
  case (Cons kv kvs)
  obtain k v where kv: "kv = (k, v)"
    by (cases kv)
  have k: "m k = None" "addable rs alloc k v" "length k = 4" "length v = 6"
    using Cons.prems(4,5) kv by simp_all
  have "v \<noteq> []"
    using k(4) by auto
  note added = test_Add [OF Cons.prems(1) k(2) this] and sizes = mock_Add_sizes [OF Cons.prems(1) k(2,1,3,4) Cons.prems(2)]
  have rest: "distinct (map fst kvs)" "\<forall>x\<in>set (map fst kvs). (m(k \<mapsto> v)) x = None"
      "\<forall>(k, v)\<in>set kvs. addable rs alloc k v \<and> length k = 4 \<and> length v = 6"
    using Cons.prems(3-5) kv by auto
  have "k \<notin> dom (map_of kvs)"
    using Cons.prems(3) kv by (simp add: dom_map_of_conv_image_fst)
  then have eq: "m' = m(k \<mapsto> v) ++ map_of kvs"
    unfolding Cons.prems(6) by (auto simp: kv fun_eq_iff map_add_def domIff split: option.splits)
  then show ?case
    using Cons.IH [OF added [THEN conjunct2] sizes rest eq] added kv by (simp add: split_beta)
qed simp

lemma remove_all_ok:
  assumes "test_inv base rs m W" "m' = (\<lambda>k. if k \<in> fst ` set kvs then None else m k)"
  shows "fst (remove_all rs kvs W) \<and> test_inv base rs m' (snd (remove_all rs kvs W)) \<and>
    m_perfData (table (snd (remove_all rs kvs W))) BucketsCount = m_perfData (table W) BucketsCount"
  using assms
proof (induction kvs arbitrary: W m)
  case (Cons kv kvs)
  obtain k v where kv: "kv = (k, v)"
    by (cases kv)
  note removed = test_Remove [OF Cons.prems(1), of k] and buckets = mock_Remove_buckets [OF Cons.prems(1), of k]
  have "m' = (\<lambda>x. if x \<in> fst ` set kvs then None else (m(k := None)) x)"
    using Cons.prems(2) kv by auto
  then show ?case
    using Cons.IH [OF removed [THEN conjunct2]] removed buckets kv by (simp add: split_beta)
qed simp

lemma test_records_facts:
  "distinct (map fst (test_records 10))" "\<forall>(k, v)\<in>set (test_records 10). length k = 4 \<and> length v = 6" "length (test_records 10) = 10"
  "test_records 10 \<noteq> []"
  by code_simp+

lemma run_fixed_ok:
  assumes "good_alloc alloc" "m_numBuckets s = 100" "s_fixedKeySize s = 0 \<or> s_fixedKeySize s = 4" "s_fixedValueSize s = 0 \<or> s_fixedValueSize s = 6"
  shows "run_fixed sm st alloc s"
proof -
  let ?rs = "default_serializer (table (test_world sm st s))" and ?kvs = "test_records 10"
  let ?W1 = "snd (add_all ?rs alloc ?kvs (test_world sm st s))"
  let ?W2 = "snd (remove_all ?rs ?kvs ?W1)"
  define base where "base = unat (m_numBuckets s) * sizeof_Entry + unat (num_mutexes s) * sm + st"
  have rs: "?rs = \<lparr>m_fixedKeySize = s_fixedKeySize s, m_fixedValueSize = s_fixedValueSize s, m_metadataSize = 0\<rparr>"
    by (simp add: default_serializer_def test_world_def SharedHashTable_new_def Let_def)
  have "\<forall>(k, v)\<in>set ?kvs. addable ?rs alloc k v \<and> length k = 4 \<and> length v = 6"
    using test_records_facts(2) assms(1,3,4) by (auto simp: addable_def rs Validate_def valid_key_def valid_value_def ksize_def vsize_def)
  moreover have "test_inv base ?rs Map.empty (test_world sm st s)"
    unfolding base_def by (rule test_inv_new) (simp add: assms(2))
  moreover have "sizes_known 6 False (m_perfData (table (test_world sm st s)))"
    by (simp add: sizes_known_def test_world_def SharedHashTable_new_def HashTablePerfData_init_def PerfCounters_init_def pc_Set_def Let_def assms(2))
  ultimately have added: "fst (add_all ?rs alloc ?kvs (test_world sm st s))" "test_inv base ?rs (map_of ?kvs) ?W1"
      "sizes_known 6 True (m_perfData (table ?W1))"
    using add_all_ok [of base ?rs Map.empty "test_world sm st s" False ?kvs alloc "map_of ?kvs"] test_records_facts(1,4) by auto
  have "Map.empty = (\<lambda>k. if k \<in> fst ` set ?kvs then None else map_of ?kvs k)"
    by (auto simp: fun_eq_iff map_of_eq_None_iff [THEN iffD2])
  note removed = remove_all_ok [OF added(2) this]
  have dom: "dom (map_of ?kvs) = fst ` set ?kvs"
    by (rule dom_map_of_conv_image_fst)
  have sums: "card (dom (map_of ?kvs)) = 10" "(\<Sum>k\<in>dom (map_of ?kvs). length k) = 40" "(\<Sum>k\<in>dom (map_of ?kvs). length (the (map_of ?kvs k))) = 60"
  proof -
    show "card (dom (map_of ?kvs)) = 10"
      using distinct_card [OF test_records_facts(1)] test_records_facts(3) by (simp add: dom)
    then have const: "(\<Sum>k\<in>dom (map_of ?kvs). f k) = 10 * n" if "\<And>k. k \<in> dom (map_of ?kvs) \<Longrightarrow> f k = n" for f and n :: nat
      using that by (simp add: sum.cong)
    have "length k = 4 \<and> length (the (map_of ?kvs k)) = 6" if k: "k \<in> dom (map_of ?kvs)" for k
    proof -
      obtain v where "map_of ?kvs k = Some v"
        using domD [OF k] by blast
      then show ?thesis
        using map_of_SomeD [of ?kvs k v] test_records_facts(2) by auto
    qed
    then show "(\<Sum>k\<in>dom (map_of ?kvs). length k) = 40" "(\<Sum>k\<in>dom (map_of ?kvs). length (the (map_of ?kvs k))) = 60"
      using const [of length 4] const [of "\<lambda>k. length (the (map_of ?kvs k))" 6] by simp_all
  qed
  have gets: "list_all (\<lambda>(k, v). Get ?rs ?W1 k = Inr (Some v)) ?kvs"
    using test_Get [OF added(2)] test_records_facts(1) by (auto simp: list_all_iff)
  show ?thesis
    using added(1,3) removed gets test_totals [OF added(2), unfolded sums] test_totals [OF removed [THEN conjunct2, THEN conjunct1]]
      test_destroy [OF removed [THEN conjunct2, THEN conjunct1]]
    by (simp add: run_fixed_def ValidateCounters_def pc_Get_def sizes_known_def split_beta Let_def)
qed

lemma FixedKeyValueHashTableTest_passes: "good_alloc alloc \<Longrightarrow> FixedKeyValueHashTableTest sm st alloc"
  by (simp add: FixedKeyValueHashTableTest_def run_fixed_ok)

end
