(* ===== verification/L4_HashTableTest.thy ===== *)
theory L4_HashTableTest
  imports L4_TableTest L4_ChainGrowth L4_Iterator
begin

text \<open>
  The longer unit tests of \<open>Unittests/ReadWriteHashTableTest.cpp\<close>: \<open>HashTableTest\<close> (every counter after every kind of
  operation), \<open>HashTableWithOneBucketTest\<close> (chained entries) and \<open>HashTableIteratorTest\<close>. They are proved for every
  allocator that keeps its contract: the hash of a key decides its bucket, so only the theorems about chains
  say how many entries there are.
\<close>

section \<open>The steps of a test\<close>

text \<open>Every chain has at least \<open>l\<close> entries, and one that was made longer needed more than it could hold of \<open>p\<close> records.\<close>

definition chains_within :: "nat \<Rightarrow> nat \<Rightarrow> SharedHashTable \<Rightarrow> bool" where
  "chains_within l p T \<longleftrightarrow> chain_counter T \<and> (\<forall>es\<in>set (m_buckets T). l \<le> length es \<and> (length es \<le> 1 \<or> c_numDataPerEntry * (length es - 1) < p))"

lemma chains_within_new: "0 < m_numBuckets s \<Longrightarrow> chains_within 1 p (SharedHashTable_new sm st s)"
  using chains_new(4) [of s sm st] by (auto simp: chains_within_def SharedHashTable_new_def Let_def)

lemma bucket_load_le: "finite (dom m) \<Longrightarrow> bucket_load T m b \<le> card (dom m)"
  unfolding bucket_load_def by (rule card_mono) auto

lemma longest_chain_least:
  assumes "m_buckets T \<noteq> []"
  shows "longest_chain T \<le> n \<longleftrightarrow> (\<forall>es\<in>set (m_buckets T). length es \<le> n)"
  using assms by (simp add: longest_chain_def)

lemma chains_within_op:
  fixes W :: "'e World" and reg :: "'e reg"
  assumes ok: "table_ok rs W" and acc: "accepted (addable rs alloc) [op]" and within: "chains_within l p (table W)"
    and few: "card (dom (apply_op op (table_map rs W))) \<le> p" "p < 2 ^ 32" and T': "T' = table (op_record rs alloc reg op W)"
  shows "chains_within l p T' \<and> length (m_buckets T') = length (m_buckets (table W))"
proof -
  let ?W' = "op_record rs alloc reg op W"
  note chains = op_record_chains [OF ok acc, of _ reg, folded T']
  have len: "length (m_buckets T') = length (m_buckets (table W))"
    using chains(1) [OF table_ok_range [OF ok]] .
  have "l \<le> length (m_buckets T' ! b) \<and> (length (m_buckets T' ! b) \<le> 1 \<or> c_numDataPerEntry * (length (m_buckets T' ! b) - 1) < p)"
    if b: "b < length (m_buckets T')" for b
  proof -
    have old: "l \<le> length (m_buckets (table W) ! b)" "length (m_buckets (table W) ! b) \<le> 1 \<or> c_numDataPerEntry * (length (m_buckets (table W) ! b) - 1) < p"
      using within b len by (simp_all add: chains_within_def)
    have "bucket_load (table W) (table_map rs ?W') b \<le> p"
      using bucket_load_le [OF finite_table_map [of rs ?W'], of "table W" b] few(1) op_record_ok(2) [OF ok acc, of reg] by simp
    with chains(2) [of b] b len old show ?thesis
      by auto
  qed
  then have all: "l \<le> length es \<and> (length es \<le> 1 \<or> c_numDataPerEntry * (length es - 1) < p)" if "es \<in> set (m_buckets T')" for es
    using that by (metis in_set_conv_nth)
  have "m_buckets T' \<noteq> []"
    using ok len by (auto simp: table_ok_def)
  then have "longest_chain T' < 2 ^ 32"
    using few(2) all longest_chain_least [of T' "2 ^ 32 - 1"] by (fastforce simp: c_numDataPerEntry_def)
  then have "chain_counter T'"
    using within chains(3) [OF table_ok_range [OF ok]] by (simp add: chains_within_def)
  then show ?thesis
    using all len by (simp add: chains_within_def)
qed

lemma mock_Add_table: "table (snd (mock_Add rs alloc W k v)) = table (op_record rs alloc Mock_RegisterAction (Put k v) W)"
  by (simp add: mock_Add_def run_registered_table op_record_def put_record_def split_beta)

lemma mock_Remove_table: "table (snd (mock_Remove rs W k)) = table (op_record rs alloc Mock_RegisterAction (Del k) W)"
  by (simp add: mock_Remove_def run_registered_table op_record_def del_record_def split_beta)

lemma test_Add_chains:
  assumes inv: "test_inv base rs m W" and add: "addable rs alloc k v" and "chains_within l p (table W)"
    and "card (dom (m(k \<mapsto> v))) \<le> p" "p < 2 ^ 32"
  shows "chains_within l p (table (snd (mock_Add rs alloc W k v))) \<and>
    length (m_buckets (table (snd (mock_Add rs alloc W k v)))) = length (m_buckets (table W))"
  by (rule chains_within_op [OF _ _ assms(3) _ assms(5) mock_Add_table])
    (use assms in \<open>simp_all add: test_inv_def apply_op_def\<close>)

lemma test_Remove_chains:
  assumes inv: "test_inv base rs m W" and "chains_within l p (table W)" and "card (dom m) \<le> p" "p < 2 ^ 32"
  shows "chains_within l p (table (snd (mock_Remove rs W k))) \<and>
    length (m_buckets (table (snd (mock_Remove rs W k)))) = length (m_buckets (table W))"
proof (rule chains_within_op [OF _ _ assms(2) _ assms(4) mock_Remove_table])
  show "table_ok rs W" "accepted (addable rs first_fit) [Del k]"
    using inv by (simp_all add: test_inv_def)
  have "card (dom (apply_op (Del k) (table_map rs W))) \<le> card (dom (table_map rs W))"
    using finite_table_map [of rs W] by (simp add: apply_op_def card_Diff1_le)
  then show "card (dom (apply_op (Del k) (table_map rs W))) \<le> p"
    using inv assms(3) by (simp add: test_inv_def)
qed

text \<open>The smallest and largest sizes, and the calls of \<open>RegisterAction\<close>, after one operation.\<close>

definition lower :: "u64 \<Rightarrow> nat \<Rightarrow> u64" where
  "lower c n = (if sint c < int n then c else of_nat n)"

definition higher :: "u64 \<Rightarrow> nat \<Rightarrow> u64" where
  "higher c n = (if int n < sint c then c else of_nat n)"

lemma pc_Min_at: "pc_Min pd c v c = (if sint (pd c) < sint v then pd c else v)"
  by (simp add: pc_Min_def Min_loop_alone)

lemma perf_add_minmax:
  "UpdatePerfDataForAdd rs stat pd BucketsCount = pd BucketsCount"
  "UpdatePerfDataForAdd rs stat pd MinKeySize = (if st_oldValueSize stat = 0 then pc_Min pd MinKeySize (ucast (st_keySize stat)) MinKeySize else pd MinKeySize)"
  "UpdatePerfDataForAdd rs stat pd MaxKeySize = (if st_oldValueSize stat = 0 then pc_Max pd MaxKeySize (ucast (st_keySize stat)) MaxKeySize else pd MaxKeySize)"
  "UpdatePerfDataForAdd rs stat pd MinValueSize = pc_Min pd MinValueSize (ucast (st_valueSize stat)) MinValueSize"
  "UpdatePerfDataForAdd rs stat pd MaxValueSize = pc_Max pd MaxValueSize (ucast (st_valueSize stat)) MaxValueSize"
  by (cases "st_oldValueSize stat = 0"; cases "st_isNewEntryAdded stat"; cases "1 < st_chainIndex stat";
      simp add: UpdatePerfDataForAdd_def Let_def pc_Max_at pc_Min_at)+

lemma run_registered_calls: "fst (manager (snd (run_registered r W))) = fst (manager W)"
  by (simp add: run_registered_def split: sum.split)

lemma sint_of_nat_64: "n < 2 ^ 63 \<Longrightarrow> sint (of_nat n :: u64) = int n"
  by (simp add: signed_of_nat signed_take_bit_int_eq_self)

lemma test_Add_counters:
  assumes inv: "test_inv base rs m W" and add: "addable rs alloc k v"
  defines "W' \<equiv> snd (mock_Add rs alloc W k v)"
  defines "pd \<equiv> m_perfData (table W)"
  shows "m_perfData (table W') BucketsCount = pd BucketsCount"
    "m_perfData (table W') MinKeySize = (if m k = None then lower (pd MinKeySize) (length k) else pd MinKeySize)"
    "m_perfData (table W') MaxKeySize = (if m k = None then higher (pd MaxKeySize) (length k) else pd MaxKeySize)"
    "m_perfData (table W') MinValueSize = lower (pd MinValueSize) (length v)"
    "m_perfData (table W') MaxValueSize = higher (pd MaxValueSize) (length v)"
    "fst (manager W') = fst (manager W) + (if m k = None then 0 else 1)"
proof -
  have ok: "table_ok rs W" and m: "table_map rs W = m" and none: "m k \<noteq> Some []" "snd (manager W) = []"
    using inv by (simp_all add: test_inv_def)
  have kv: "valid_key k" "valid_value v"
    using add by (simp_all add: addable_def)
  have sizes: "sint (of_nat (length k) :: u64) = int (length k)" "sint (of_nat (length v) :: u64) = int (length v)"
    using kv by (auto intro!: sint_of_nat_64 simp: valid_key_def valid_value_def)
  obtain res a old stat W1 where 1: "Add rs alloc Mock_RegisterAction W k v = (res, W1)"
      "effect rs Mock_RegisterAction W old {a} ((table_map rs W)(k \<mapsto> v)) res W1" "old = None \<longleftrightarrow> table_map rs W k = None"
      "add_stat k v (table_map rs W k) (length (key_chain (table W) k)) stat"
      "m_perfData (table W1) = UpdatePerfDataForAdd rs stat (m_perfData (table W))"
    by (rule Add_cases [OF ok add, of Mock_RegisterAction])
  have "table W' = table W1" and calls: "fst (manager W') = fst (manager W1)"
    by (simp_all add: W'_def mock_Add_def 1(1) run_registered_table run_registered_calls)
  then have pd': "m_perfData (table W') = UpdatePerfDataForAdd rs stat pd"
    using 1(5) by (simp add: pd_def)
  have "st_oldValueSize stat = 0 \<longleftrightarrow> m k = None"
    using 1(4) none(1) vsize_0_iff [OF table_value_valid [of rs W k]] by (auto simp: add_stat_def m split: option.splits)
  moreover have "ucast (st_keySize stat) = (of_nat (length k) :: u64)" "ucast (st_valueSize stat) = (of_nat (length v) :: u64)"
    using 1(4) ucast_ksize [OF kv(1)] ucast_vsize [OF kv(2)] by (simp_all add: add_stat_def)
  ultimately show "m_perfData (table W') BucketsCount = pd BucketsCount"
    "m_perfData (table W') MinKeySize = (if m k = None then lower (pd MinKeySize) (length k) else pd MinKeySize)"
    "m_perfData (table W') MaxKeySize = (if m k = None then higher (pd MaxKeySize) (length k) else pd MaxKeySize)"
    "m_perfData (table W') MinValueSize = lower (pd MinValueSize) (length v)"
    "m_perfData (table W') MaxValueSize = higher (pd MaxValueSize) (length v)"
    unfolding pd' perf_add_minmax by (simp_all add: pc_Max_at pc_Min_at lower_def higher_def sizes)
  show "fst (manager W') = fst (manager W) + (if m k = None then 0 else 1)"
    using 1(2,3) by (cases old) (auto simp: calls effect_def m Mock_RegisterAction_def)
qed

lemma test_Remove_counters:
  fixes k :: Key
  assumes inv: "test_inv base rs m W"
    and c: "c \<in> {BucketsCount, MinKeySize, MaxKeySize, MinValueSize, MaxValueSize, MaxBucketChainLength}"
  defines "W' \<equiv> snd (mock_Remove rs W k)"
  shows "m_perfData (table W') c = m_perfData (table W) c \<and> fst (manager W') = fst (manager W) + (if m k = None then 0 else 1)"
proof -
  have ok: "table_ok rs W" and m: "table_map rs W = m"
    using inv by (simp_all add: test_inv_def)
  show ?thesis
  proof (cases rule: Remove_cases [OF ok, of k Mock_RegisterAction])
    case 1
    then show ?thesis
      by (simp add: W'_def mock_Remove_def run_registered_table run_registered_calls m)
  next
    case (2 v a W1)
    have "m_perfData (table W1) c = m_perfData (table W) c"
      using c by (auto simp: 2(8) UpdatePerfDataForRemove_def Let_def)
    moreover have "fst (manager W1) = fst (manager W) + 1"
      using 2(3) by (simp add: effect_def Mock_RegisterAction_def)
    ultimately show ?thesis
      using 2(1) by (simp add: W'_def mock_Remove_def run_registered_table run_registered_calls 2(2) m)
  qed
qed

section \<open>HashTableTest\<close>

text \<open>The list of counters that the test checks after every operation.\<close>

definition expected_counters :: "u64 \<Rightarrow> u64 \<Rightarrow> u64 \<Rightarrow> u64 \<Rightarrow> u64 \<Rightarrow> u64 \<Rightarrow> u64 \<Rightarrow> (HashTablePerfCounter \<times> u64) list" where
  "expected_counters records keySize valueSize minKey maxKey minValue maxValue =
     [(RecordsCount, records), (BucketsCount, 100), (ChainingEntriesCount, 0), (TotalKeySize, keySize), (TotalValueSize, valueSize),
      (MinKeySize, minKey), (MaxKeySize, maxKey), (MinValueSize, minValue), (MaxValueSize, maxValue)]"

definition HashTableTest :: "nat \<Rightarrow> nat \<Rightarrow> allocator \<Rightarrow> bool" where
  "HashTableTest sm st alloc \<longleftrightarrow>
     (let W0 = test_world sm st \<lparr>m_numBuckets = 100, m_numBucketsPerMutex = 5, s_fixedKeySize = 0, s_fixedValueSize = 0\<rparr>;
          rs = default_serializer (table W0); perfData = (\<lambda>W. m_perfData (table W));
          key = ConvertFromString ''hello''; key2 = ConvertFromString ''hello2''; c_counterMaxValue = TValue_max;
          val = ConvertFromString ''world''; (r1, W1) = mock_Add rs alloc W0 key val;
          val2 = ConvertFromString ''world2''; (r2, W2) = mock_Add rs alloc W1 key2 val2;
          longer = ConvertFromString ''world long string''; (r3, W3) = mock_Add rs alloc W2 key longer;
          shorter = ConvertFromString ''wo''; (r4, W4) = mock_Add rs alloc W3 key2 shorter;
          (r5, W5) = mock_Remove rs W4 key; (r6, W6) = mock_Remove rs W5 key2; (r7, W7) = mock_Remove rs W6 key2
      in Get rs W0 key = Inr None \<and>
         ValidateCounters (perfData W0) (expected_counters 0 0 0 c_counterMaxValue 0 c_counterMaxValue 0) \<and>
         r1 = Inr () \<and> Get rs W1 key = Inr (Some val) \<and> ValidateCounters (perfData W1) (expected_counters 1 5 5 5 5 5 5) \<and>
         r2 = Inr () \<and> Get rs W2 key2 = Inr (Some val2) \<and> ValidateCounters (perfData W2) (expected_counters 2 11 11 5 6 5 6) \<and>
         r3 = Inr () \<and> Get rs W3 key = Inr (Some longer) \<and> fst (manager W3) = 1 \<and>
         ValidateCounters (perfData W3) (expected_counters 2 11 23 5 6 5 17) \<and>
         r4 = Inr () \<and> Get rs W4 key2 = Inr (Some shorter) \<and> fst (manager W4) = 2 \<and>
         ValidateCounters (perfData W4) (expected_counters 2 11 19 5 6 2 17) \<and>
         r5 = Inr True \<and> fst (manager W5) = 3 \<and> ValidateCounters (perfData W5) (expected_counters 1 6 2 5 6 2 17) \<and>
         r6 = Inr True \<and> fst (manager W6) = 4 \<and> ValidateCounters (perfData W6) (expected_counters 0 0 0 5 6 2 17) \<and>
         r7 = Inr False \<and> ValidateCounters (perfData W7) (expected_counters 0 0 0 5 6 2 17) \<and>
         SharedHashTable_destroy (table W7) (heap W7) = Inr Map.empty)"

text \<open>What is known between two steps: the map, that no chain is longer than one entry, and the other counters.\<close>

definition known :: "nat \<Rightarrow> RecordSerializer \<Rightarrow> (Key \<rightharpoonup> Value) \<Rightarrow> u64 \<Rightarrow> u64 \<Rightarrow> u64 \<Rightarrow> u64 \<Rightarrow> u16 \<Rightarrow> MockEpochManager World \<Rightarrow> bool" where
  "known base rs m minKey maxKey minValue maxValue n W \<longleftrightarrow> test_inv base rs m W \<and> chains_within 1 16 (table W) \<and> fst (manager W) = n \<and>
     (let pd = m_perfData (table W) in pd BucketsCount = 100 \<and>
       pd MinKeySize = minKey \<and> pd MaxKeySize = maxKey \<and> pd MinValueSize = minValue \<and> pd MaxValueSize = maxValue)"

lemma known_Add:
  assumes "known base rs m a b c d n W" "addable rs alloc k v" "v \<noteq> []" "card (dom (m(k \<mapsto> v))) \<le> 16"
    and "a' = (if m k = None then lower a (length k) else a)" "b' = (if m k = None then higher b (length k) else b)"
    and "c' = lower c (length v)" "d' = higher d (length v)" "n' = n + (if m k = None then 0 else 1)" "m' = m(k \<mapsto> v)"
  shows "fst (mock_Add rs alloc W k v) = Inr () \<and> known base rs m' a' b' c' d' n' (snd (mock_Add rs alloc W k v))"
proof -
  have inv: "test_inv base rs m W" and within: "chains_within 1 16 (table W)"
    using assms(1) by (simp_all add: known_def)
  show ?thesis
    using assms(1,5-10) test_Add [OF inv assms(2,3)] test_Add_counters [OF inv assms(2)] test_Add_chains [OF inv assms(2) within assms(4)]
    by (simp add: known_def Let_def)
qed

lemma known_Remove:
  assumes "known base rs m a b c d n W" "card (dom m) \<le> 16" "n' = n + (if m k = None then 0 else 1)" "m' = m(k := None)"
  shows "fst (mock_Remove rs W k) = Inr (m k \<noteq> None) \<and> known base rs m' a b c d n' (snd (mock_Remove rs W k))"
proof -
  have inv: "test_inv base rs m W" and within: "chains_within 1 16 (table W)"
    using assms(1) by (simp_all add: known_def)
  show ?thesis
    using assms(1,3,4) test_Remove [OF inv, of k] test_Remove_chains [OF inv within assms(2), of k]
      test_Remove_counters [OF inv, of BucketsCount k] test_Remove_counters [OF inv, of MinKeySize k] test_Remove_counters [OF inv, of MaxKeySize k]
      test_Remove_counters [OF inv, of MinValueSize k] test_Remove_counters [OF inv, of MaxValueSize k]
    by (simp add: known_def Let_def)
qed

lemma known_inv: "known base rs m a b c d n W \<Longrightarrow> test_inv base rs m W"
  by (simp add: known_def)

lemma known_counters:
  assumes "known base rs m a b c d n W"
  shows "ValidateCounters (m_perfData (table W)) (expected_counters (of_nat (card (dom m))) (of_nat (\<Sum>k\<in>dom m. length k))
    (of_nat (\<Sum>k\<in>dom m. length (the (m k)))) a b c d)"
proof -
  have "length es = 1" if "es \<in> set (m_buckets (table W))" for es
    using assms that by (force simp: known_def chains_within_def c_numDataPerEntry_def)
  then have "chained (table W) = 0"
    by (simp add: chained_def)
  then have "m_perfData (table W) ChainingEntriesCount = 0"
    using known_inv [OF assms] unfolding test_inv_def perf_ok_def Let_def by simp
  moreover have "m_perfData (table W) BucketsCount = 100" "m_perfData (table W) MinKeySize = a" "m_perfData (table W) MaxKeySize = b"
      "m_perfData (table W) MinValueSize = c" "m_perfData (table W) MaxValueSize = d"
    using assms by (simp_all add: known_def Let_def)
  ultimately show ?thesis
    unfolding ValidateCounters_def expected_counters_def pc_Get_def list.pred_inject prod.case
    using test_totals [OF known_inv [OF assms]] by (simp only: list.pred_inject(1) simp_thms)
qed

lemma HashTableTest_passes:
  assumes "good_alloc alloc"
  shows "HashTableTest sm st alloc"
proof -
  define s where "s = \<lparr>m_numBuckets = 100, m_numBucketsPerMutex = 5, s_fixedKeySize = 0, s_fixedValueSize = 0\<rparr>"
  define start where "start = test_world sm st s"
  define rs where "rs = default_serializer (table start)"
  define base where "base = unat (m_numBuckets s) * sizeof_Entry + unat (num_mutexes s) * sm + st"
  have "rs = \<lparr>m_fixedKeySize = 0, m_fixedValueSize = 0, m_metadataSize = 0\<rparr>"
    by (simp add: rs_def start_def s_def default_serializer_def test_world_def SharedHashTable_new_def Let_def)
  then have add: "addable rs alloc k v" if "valid_key k" "valid_value v" for k v
    using that assms by (simp add: addable_def Validate_def)
  define k1 k2 v1 v2 v3 v4 where keys: "k1 = ConvertFromString ''hello''" "k2 = ConvertFromString ''hello2''"
    and vals: "v1 = ConvertFromString ''world''" "v2 = ConvertFromString ''world2''"
      "v3 = ConvertFromString ''world long string''" "v4 = ConvertFromString ''wo''"
  have len: "length k1 = 5" "length k2 = 6" "length v1 = 5" "length v2 = 6" "length v3 = 17" "length v4 = 2" and ne: "k1 \<noteq> k2" "k2 \<noteq> k1"
    unfolding keys vals by code_simp+
  have addable: "addable rs alloc k1 v1" "addable rs alloc k2 v2" "addable rs alloc k1 v3" "addable rs alloc k2 v4"
    by (rule add; simp add: valid_key_def valid_value_def len)+
  have nonempty: "v1 \<noteq> []" "v2 \<noteq> []" "v3 \<noteq> []" "v4 \<noteq> []"
    using len by auto
  define A1 where "A1 = mock_Add rs alloc start k1 v1"
  define A2 where "A2 = mock_Add rs alloc (snd A1) k2 v2"
  define A3 where "A3 = mock_Add rs alloc (snd A2) k1 v3"
  define A4 where "A4 = mock_Add rs alloc (snd A3) k2 v4"
  define R5 where "R5 = mock_Remove rs (snd A4) k1"
  define R6 where "R6 = mock_Remove rs (snd R5) k2"
  define R7 where "R7 = mock_Remove rs (snd R6) k2"
  have k0: "known base rs Map.empty TValue_max 0 TValue_max 0 0 start"
    using test_inv_new [of s sm st rs] chains_within_new [of s 16 sm st]
    by (simp add: known_def base_def start_def test_world_def s_def SharedHashTable_new_def HashTablePerfData_init_def PerfCounters_init_def pc_Set_def Let_def)
  have k1: "fst A1 = Inr () \<and> known base rs [k1 \<mapsto> v1] 5 5 5 5 0 (snd A1)"
    unfolding A1_def by (rule known_Add [OF k0 addable(1) nonempty(1)]) (simp_all add: len lower_def higher_def TValue_max_def)
  have k2: "fst A2 = Inr () \<and> known base rs [k1 \<mapsto> v1, k2 \<mapsto> v2] 5 6 5 6 0 (snd A2)"
    unfolding A2_def by (rule known_Add [OF k1 [THEN conjunct2] addable(2) nonempty(2)]) (simp_all add: len ne lower_def higher_def)
  have k3: "fst A3 = Inr () \<and> known base rs [k1 \<mapsto> v3, k2 \<mapsto> v2] 5 6 5 17 1 (snd A3)"
    unfolding A3_def by (rule known_Add [OF k2 [THEN conjunct2] addable(3) nonempty(3)]) (simp_all add: len ne lower_def higher_def fun_upd_twist)
  have k4: "fst A4 = Inr () \<and> known base rs [k1 \<mapsto> v3, k2 \<mapsto> v4] 5 6 2 17 2 (snd A4)"
    unfolding A4_def by (rule known_Add [OF k3 [THEN conjunct2] addable(4) nonempty(4)]) (simp_all add: len ne lower_def higher_def)
  have k5: "fst R5 = Inr True \<and> known base rs [k2 \<mapsto> v4] 5 6 2 17 3 (snd R5)"
    unfolding R5_def using known_Remove [OF k4 [THEN conjunct2], where n' = 3 and k = k1 and m' = "[k2 \<mapsto> v4]"] by (simp add: ne fun_upd_twist)
  have k6: "fst R6 = Inr True \<and> known base rs Map.empty 5 6 2 17 4 (snd R6)"
    unfolding R6_def using known_Remove [OF k5 [THEN conjunct2], where n' = 4 and k = k2 and m' = Map.empty] by simp
  have k7: "fst R7 = Inr False \<and> known base rs Map.empty 5 6 2 17 4 (snd R7)"
    unfolding R7_def using known_Remove [OF k6 [THEN conjunct2], where n' = 4 and k = k2 and m' = Map.empty] by simp
  note checks = test_Get [OF known_inv [OF k0], of k1] known_counters [OF k0]
    test_Get [OF known_inv [OF k1 [THEN conjunct2]], of k1] known_counters [OF k1 [THEN conjunct2]]
    test_Get [OF known_inv [OF k2 [THEN conjunct2]], of k2] known_counters [OF k2 [THEN conjunct2]]
    test_Get [OF known_inv [OF k3 [THEN conjunct2]], of k1] known_counters [OF k3 [THEN conjunct2]]
    test_Get [OF known_inv [OF k4 [THEN conjunct2]], of k2] known_counters [OF k4 [THEN conjunct2]]
    known_counters [OF k5 [THEN conjunct2]] known_counters [OF k6 [THEN conjunct2]] known_counters [OF k7 [THEN conjunct2]]
    test_destroy [OF known_inv [OF k7 [THEN conjunct2]]]
  have calls: "fst (manager (snd A3)) = 1" "fst (manager (snd A4)) = 2" "fst (manager (snd R5)) = 3" "fst (manager (snd R6)) = 4"
    using k3 k4 k5 k6 by (simp_all add: known_def)
  show ?thesis
    unfolding HashTableTest_def Let_def split_beta s_def [symmetric] start_def [symmetric] rs_def [symmetric] keys [symmetric] vals [symmetric]
      A1_def [symmetric] A2_def [symmetric] A3_def [symmetric] A4_def [symmetric] R5_def [symmetric] R6_def [symmetric] R7_def [symmetric]
    using k1 k2 k3 k4 k5 k6 k7 checks calls by (simp add: len ne)
qed
end
