(* ===== verification/L4_ChainTest.thy ===== *)
theory L4_ChainTest
  imports L4_HashTableTest L4_Names
begin

text \<open>
  \<open>HashTableWithOneBucketTest\<close> and \<open>HashTableIteratorTest\<close> of \<open>Unittests/ReadWriteHashTableTest.cpp\<close>.
\<close>

section \<open>Numbered records\<close>

lemma no_nul_to_string: "no_nul (to_string n)"
proof (induction n rule: to_string.induct)
  case (1 n)
  have "char_of (48 + n mod 10) \<noteq> (CHR 0x00)"
  proof
    assume "char_of (48 + n mod 10) = (CHR 0x00)"
    then have "of_char (char_of (48 + n mod 10) :: char) = (0 :: nat)"
      by simp
    moreover have "(48 + n mod 10) mod 256 = 48 + n mod 10"
      by (rule mod_less) (simp add: less_le_trans [OF mod_less_divisor [of 10 n]])
    ultimately show False
      by (simp add: of_char_of)
  qed
  then show ?case
    using 1 to_string.simps [of n] by (auto simp: no_nul_def split: if_splits)
qed

lemma length_to_string: "length (to_string n) \<le> Suc n"
proof (induction n rule: to_string.induct)
  case (1 n)
  show ?case
  proof (cases "n < 10")
    case False
    then have "Suc (n div 10) < Suc n"
      by simp
    then show ?thesis
      using 1 [OF False] False by (simp add: to_string.simps [of n])
  qed (simp add: to_string.simps [of n])
qed

lemma of_char_inj: "(of_char c :: u8) = of_char d \<longleftrightarrow> c = d"
proof
  assume eq: "(of_char c :: u8) = of_char d"
  have "unat (of_char c :: u8) = of_char c" for c
  proof -
    have "unat (of_nat (of_char c) :: u8) = of_char c"
      using nat_of_char_less_256 [of c] by (simp only: unat_of_nat) simp
    then show ?thesis
      by (simp only: of_nat_of_char)
  qed
  with eq have "(of_char c :: nat) = of_char d"
    by metis
  then show "c = d"
    by simp
qed simp

definition numbered :: "string \<Rightarrow> nat \<Rightarrow> (Key \<times> Value) list" where
  "numbered val n = map (\<lambda>i. (ConvertFromString (''key'' @ to_string i), ConvertFromString (val @ to_string i))) [0..<n]"

lemma ConvertFromString_number:
  assumes "no_nul val"
  shows "ConvertFromString (val @ to_string i) = map of_char (val @ to_string i)"
  using assms no_nul_to_string [of i] by (simp add: ConvertFromString_def no_nul_def)

lemma numbered_keys: "map fst (numbered val n) = map (\<lambda>i. map of_char (''key'' @ to_string i)) [0..<n]"
  using ConvertFromString_number [of "''key''"] by (simp add: numbered_def no_nul_def)

lemma numbered_length [simp]: "length (numbered val n) = n"
  by (simp add: numbered_def)

lemma numbered_distinct: "distinct (map fst (numbered val n))"
proof -
  have "inj (\<lambda>i. map of_char (''key'' @ to_string i) :: u8 list)"
    by (rule injI) (simp add: inj_map_eq_map [OF injI [of of_char, OF of_char_inj [THEN iffD1]]] to_string_inj)
  then show ?thesis
    unfolding numbered_keys using inj_on_subset [OF _ subset_UNIV] by (simp only: distinct_map distinct_upt simp_thms)
qed

lemma numbered_sizes:
  assumes "no_nul val" "val \<noteq> []" "length val \<le> 10" "n \<le> 1000" "(k, v) \<in> set (numbered val n)"
  shows "valid_key k \<and> valid_value v \<and> v \<noteq> []"
proof -
  obtain i where i: "i < n" "k = ConvertFromString (''key'' @ to_string i)" "v = ConvertFromString (val @ to_string i)"
    using assms(5) by (auto simp: numbered_def)
  have "length (to_string i) \<le> 1000"
    using length_to_string [of i] i(1) assms(4) by simp
  then show ?thesis
    using assms(1-3) ConvertFromString_number [of "''key''" i] ConvertFromString_number [OF assms(1), of i]
    by (simp add: i(2,3) valid_key_def valid_value_def no_nul_def)
qed

section \<open>The loops of the tests\<close>

text \<open>A loop adds records, and looks each up; another removes them.\<close>

fun add_check_all :: "RecordSerializer \<Rightarrow> allocator \<Rightarrow> (Key \<times> Value) list \<Rightarrow> MockEpochManager World \<Rightarrow> bool \<times> MockEpochManager World" where
  "add_check_all rs alloc [] W = (True, W)"
| "add_check_all rs alloc ((key, val) # kvs) W =
     (let (r, W) = mock_Add rs alloc W key val; found = Get rs W key; (rest, W) = add_check_all rs alloc kvs W
      in (r = Inr () \<and> found = Inr (Some val) \<and> rest, W))"

fun remove_check_all :: "RecordSerializer \<Rightarrow> (Key \<times> Value) list \<Rightarrow> MockEpochManager World \<Rightarrow> bool \<times> MockEpochManager World" where
  "remove_check_all rs [] W = (True, W)"
| "remove_check_all rs ((key, val) # kvs) W =
     (let (r, W) = mock_Remove rs W key; found = Get rs W key; (rest, W) = remove_check_all rs kvs W
      in (r = Inr True \<and> found = Inr None \<and> rest, W))"

definition test_ok :: "nat \<Rightarrow> RecordSerializer \<Rightarrow> nat \<Rightarrow> nat \<Rightarrow> (Key \<rightharpoonup> Value) \<Rightarrow> MockEpochManager World \<Rightarrow> MockEpochManager World \<Rightarrow> bool" where
  "test_ok base rs l p m W W' \<longleftrightarrow> test_inv base rs m W' \<and> chains_within l p (table W') \<and>
     length (m_buckets (table W')) = length (m_buckets (table W)) \<and> m_perfData (table W') BucketsCount = m_perfData (table W) BucketsCount"

lemma add_check_all_ok:
  assumes "test_ok base rs l p m W0 W" "\<forall>(k, v)\<in>set kvs. addable rs alloc k v \<and> v \<noteq> []" "distinct (map fst kvs)"
    and "card (dom m \<union> fst ` set kvs) \<le> p" "finite (dom m)" "p < 2 ^ 32" "m' = m ++ map_of kvs"
  shows "fst (add_check_all rs alloc kvs W) \<and> test_ok base rs l p m' W0 (snd (add_check_all rs alloc kvs W))"
  using assms
proof (induction kvs arbitrary: W m)
  case (Cons kv kvs)
  obtain k v where kv: "kv = (k, v)"
    by (cases kv)
  have add: "addable rs alloc k v" "v \<noteq> []"
    using Cons.prems(2) kv by simp_all
  have inv: "test_inv base rs m W" and within: "chains_within l p (table W)"
    using Cons.prems(1) by (simp_all add: test_ok_def)
  have "card (dom (m(k \<mapsto> v))) \<le> card (dom m \<union> fst ` set (kv # kvs))"
    using Cons.prems(5) kv by (intro card_mono) auto
  with Cons.prems(4) have few: "card (dom (m(k \<mapsto> v))) \<le> p"
    by simp
  note added = test_Add [OF inv add] test_Add_chains [OF inv add(1) within few Cons.prems(6)] test_Add_counters(1) [OF inv add(1)]
  let ?W = "snd (mock_Add rs alloc W k v)"
  have ok: "test_ok base rs l p (m(k \<mapsto> v)) W0 ?W"
    using added Cons.prems(1) by (simp add: test_ok_def)
  have "k \<notin> dom (map_of kvs)"
    using Cons.prems(3) kv by (simp add: dom_map_of_conv_image_fst)
  then have eq: "m' = m(k \<mapsto> v) ++ map_of kvs"
    unfolding Cons.prems(7) by (auto simp: kv fun_eq_iff map_add_def domIff split: option.splits)
  have rest: "\<forall>(k, v)\<in>set kvs. addable rs alloc k v \<and> v \<noteq> []" "distinct (map fst kvs)" "card (dom (m(k \<mapsto> v)) \<union> fst ` set kvs) \<le> p"
      "finite (dom (m(k \<mapsto> v)))"
    using Cons.prems(2-5) by (simp_all add: kv)
  have "fst (add_check_all rs alloc kvs ?W) \<and> test_ok base rs l p m' W0 (snd (add_check_all rs alloc kvs ?W))"
    by (rule Cons.IH [OF ok rest Cons.prems(6) eq])
  moreover have "Get rs ?W k = Inr (Some v)"
    using test_Get [of base rs "m(k \<mapsto> v)" ?W k] added(1) by simp
  ultimately show ?case
    using added(1) by (simp add: kv split_beta Let_def)
qed (simp add: test_ok_def)

lemma remove_check_all_ok:
  assumes "test_ok base rs l p m W0 W" "fst ` set kvs \<subseteq> dom m" "distinct (map fst kvs)"
    and "card (dom m) \<le> p" "finite (dom m)" "p < 2 ^ 32" "m' = m |` (- fst ` set kvs)"
  shows "fst (remove_check_all rs kvs W) \<and> test_ok base rs l p m' W0 (snd (remove_check_all rs kvs W))"
  using assms
proof (induction kvs arbitrary: W m)
  case (Cons kv kvs)
  obtain k v where kv: "kv = (k, v)"
    by (cases kv)
  have inv: "test_inv base rs m W" and within: "chains_within l p (table W)"
    using Cons.prems(1) by (simp_all add: test_ok_def)
  note removed = test_Remove [OF inv, of k] test_Remove_chains [OF inv within Cons.prems(4,6), of k] test_Remove_counters [OF inv, of BucketsCount k]
  let ?W = "snd (mock_Remove rs W k)"
  have ok: "test_ok base rs l p (m(k := None)) W0 ?W"
    using removed Cons.prems(1) by (simp add: test_ok_def)
  have here: "m k \<noteq> None"
    using Cons.prems(2) kv by auto
  have eq: "m' = m(k := None) |` (- fst ` set kvs)"
    unfolding Cons.prems(7) by (auto simp: kv fun_eq_iff restrict_map_def)
  have "card (dom m - {k}) \<le> p"
    using Cons.prems(4,5) card_Diff1_le [of "dom m" k] by linarith
  then have rest: "fst ` set kvs \<subseteq> dom (m(k := None))" "distinct (map fst kvs)" "card (dom (m(k := None))) \<le> p" "finite (dom (m(k := None)))"
    using Cons.prems(2,3,5) kv by auto
  have "fst (remove_check_all rs kvs ?W) \<and> test_ok base rs l p m' W0 (snd (remove_check_all rs kvs ?W))"
    by (rule Cons.IH [OF ok rest Cons.prems(6) eq])
  moreover have "Get rs ?W k = Inr None"
    using test_Get [of base rs "m(k := None)" ?W k] removed(1) by simp
  ultimately show ?case
    using removed(1) here by (simp add: kv split_beta Let_def)
qed (simp add: test_ok_def restrict_map_def)

text \<open>The records do not fit in fewer entries than they need.\<close>

lemma table_capacity:
  assumes "table_ok rs W"
  shows "card (dom (table_map rs W)) \<le> c_numDataPerEntry * sum_list (map length (m_buckets (table W)))"
proof -
  have each: "length (bucket_kvs rs (heap W) es) \<le> c_numDataPerEntry * length es" if mem: "es \<in> set (m_buckets (table W))" for es
  proof -
    obtain b where b: "b < length (m_buckets (table W))" "es = m_buckets (table W) ! b"
      using mem unfolding in_set_conv_nth by blast
    have "length (bucket_kvs rs (heap W) es) = bucket_load (table W) (table_map rs W) b"
      unfolding b(2) length_bucket_kvs [OF table_ok_bucket [OF assms b(1)]] by (rule bucket_load_slots [OF assms b(1), symmetric])
    then show ?thesis
      unfolding b(2) using bucket_load_bound(1) [OF assms b(1)] by (rule ord_eq_le_trans)
  qed
  have "length (concat (map (bucket_kvs rs (heap W)) bs)) \<le> c_numDataPerEntry * sum_list (map length bs)"
    if "set bs \<subseteq> set (m_buckets (table W))" for bs
    using that by (induction bs) (auto simp: add_mult_distrib2 intro!: add_mono each)
  moreover have "card (dom (table_map rs W)) = length (table_kvs rs (heap W) (table W))"
    using distinct_card [OF distinct_table_kvs [OF assms]] by (simp add: table_map_def dom_map_of_conv_image_fst)
  ultimately show ?thesis
    by (simp add: table_kvs_def)
qed

section \<open>HashTableWithOneBucketTest\<close>

definition sum_sizes :: "'a list list \<Rightarrow> u64" where
  "sum_sizes xs = foldl (\<lambda>total x. total + of_nat (length x)) 0 xs"

definition one_bucket_counters :: "u64 \<Rightarrow> u64 \<Rightarrow> u64 \<Rightarrow> u64 \<Rightarrow> (HashTablePerfCounter \<times> u64) list" where
  "one_bucket_counters records keySize valueSize indexSize =
     [(RecordsCount, records), (BucketsCount, 1), (MaxBucketChainLength, 2), (ChainingEntriesCount, 1),
      (TotalKeySize, keySize), (TotalValueSize, valueSize), (TotalIndexSize, indexSize)]"

definition HashTableWithOneBucketTest :: "nat \<Rightarrow> nat \<Rightarrow> allocator \<Rightarrow> bool" where
  "HashTableWithOneBucketTest sm st alloc \<longleftrightarrow>
     (let W0 = test_world sm st \<lparr>m_numBuckets = 1, m_numBucketsPerMutex = 1, s_fixedKeySize = 0, s_fixedValueSize = 0\<rparr>;
          rs = default_serializer (table W0); perfData = (\<lambda>W. m_perfData (table W));
          initialTotalIndexSize = pc_Get (perfData W0) TotalIndexSize; c_dataSetSize = c_numDataPerEntry + 5;
          recordOverhead = CalculateRecordOverhead \<lparr>m_fixedKeySize = 0, m_fixedValueSize = 0, m_metadataSize = 0\<rparr>;
          full = initialTotalIndexSize + of_nat sizeof_Entry + of_nat (c_dataSetSize * recordOverhead);
          kvs = numbered ''value'' c_dataSetSize; newer = numbered ''val'' c_dataSetSize;
          keySize = sum_sizes (map fst kvs);
          (ok1, W1) = add_check_all rs alloc kvs W0; (ok2, W2) = add_check_all rs alloc newer W1;
          (ok3, W3) = remove_check_all rs kvs W2; (ok4, W4) = add_check_all rs alloc kvs W3
      in ValidateCounters (perfData W0) [(ChainingEntriesCount, 0)] \<and>
         ok1 \<and> ValidateCounters (perfData W1) (one_bucket_counters (of_nat c_dataSetSize) keySize (sum_sizes (map snd kvs)) full) \<and>
         ok2 \<and> ValidateCounters (perfData W2) (one_bucket_counters (of_nat c_dataSetSize) keySize (sum_sizes (map snd newer)) full) \<and>
         ok3 \<and> ValidateCounters (perfData W3) (one_bucket_counters 0 0 0 (initialTotalIndexSize + of_nat sizeof_Entry)) \<and>
         ok4 \<and> ValidateCounters (perfData W4) (one_bucket_counters (of_nat c_dataSetSize) keySize (sum_sizes (map snd kvs)) full) \<and>
         SharedHashTable_destroy (table W4) (heap W4) = Inr Map.empty)"

lemma sum_sizes_eq: "sum_sizes xs = of_nat (sum_list (map length xs))"
proof -
  have "foldl (\<lambda>total x. total + of_nat (length x)) t xs = t + of_nat (sum_list (map length xs))" for t :: u64
    by (induction xs arbitrary: t) (simp_all add: algebra_simps)
  then show ?thesis
    by (simp add: sum_sizes_def)
qed

lemma sums_map_of:
  assumes "distinct (map fst kvs)"
  shows "card (dom (map_of kvs)) = length kvs" "(\<Sum>k\<in>dom (map_of kvs). length k) = sum_list (map length (map fst kvs))"
    "(\<Sum>k\<in>dom (map_of kvs). length (the (map_of kvs k))) = sum_list (map length (map snd kvs))"
proof -
  have dom: "dom (map_of kvs) = set (map fst kvs)"
    by (simp add: dom_map_of_conv_image_fst)
  show "card (dom (map_of kvs)) = length kvs"
    using distinct_card [OF assms] by (simp add: dom)
  show "(\<Sum>k\<in>dom (map_of kvs). length k) = sum_list (map length (map fst kvs))"
    unfolding dom by (rule sum_list_distinct_conv_sum_set [OF assms, symmetric])
  have "map (\<lambda>k. length (the (map_of kvs k))) (map fst kvs) = map length (map snd kvs)"
    using assms by auto
  then show "(\<Sum>k\<in>dom (map_of kvs). length (the (map_of kvs k))) = sum_list (map length (map snd kvs))"
    unfolding dom by (simp only: sum_list_distinct_conv_sum_set [OF assms, symmetric])
qed

text \<open>With one bucket, 21 records and no more at any time, the chain has two entries.\<close>

lemma two_entries:
  assumes inv: "test_inv base rs m W" and within: "chains_within l (c_numDataPerEntry + 5) (table W)" and one: "length (m_buckets (table W)) = 1"
    and two: "2 \<le> l \<or> c_numDataPerEntry < card (dom m)"
  shows "chains_within 2 (c_numDataPerEntry + 5) (table W)" "chained (table W) = 1" "m_perfData (table W) MaxBucketChainLength = 2"
proof -
  obtain es where es: "m_buckets (table W) = [es]"
    using one by (metis One_nat_def length_0_conv length_Suc_conv)
  have "card (dom m) \<le> c_numDataPerEntry * length es"
    using inv table_capacity [of rs W] by (simp add: test_inv_def es)
  then have "length es = 2"
    using two within by (auto simp: chains_within_def es c_numDataPerEntry_def)
  then show "chains_within 2 (c_numDataPerEntry + 5) (table W)" "chained (table W) = 1" "m_perfData (table W) MaxBucketChainLength = 2"
    using within by (simp_all add: chains_within_def es chained_def chain_counter_def longest_chain_def c_numDataPerEntry_def)
qed

text \<open>What the counters are then, when the table holds the given records.\<close>

lemma one_bucket_checked:
  assumes ok: "test_ok base rs l (c_numDataPerEntry + 5) (map_of kvs) W0 W" and kvs: "distinct (map fst kvs)"
    and one: "length (m_buckets (table W0)) = 1" "m_perfData (table W0) BucketsCount = 1" and two: "2 \<le> l \<or> c_numDataPerEntry < length kvs"
  shows "test_ok base rs 2 (c_numDataPerEntry + 5) (map_of kvs) W0 W"
    "ValidateCounters (m_perfData (table W)) (one_bucket_counters (of_nat (length kvs)) (sum_sizes (map fst kvs)) (sum_sizes (map snd kvs))
      (of_nat (base + sizeof_Entry + length kvs * CalculateRecordOverhead rs)))"
proof -
  have inv: "test_inv base rs (map_of kvs) W" and within: "chains_within l (c_numDataPerEntry + 5) (table W)"
    and len: "length (m_buckets (table W)) = 1" and buckets: "m_perfData (table W) BucketsCount = 1"
    using ok one by (simp_all add: test_ok_def)
  have more: "2 \<le> l \<or> c_numDataPerEntry < card (dom (map_of kvs))"
    using two by (simp add: sums_map_of(1) [OF kvs])
  note chain = two_entries [OF inv within len more]
  show "test_ok base rs 2 (c_numDataPerEntry + 5) (map_of kvs) W0 W"
    using ok chain(1) by (simp add: test_ok_def)
  have "m_perfData (table W) ChainingEntriesCount = 1"
    "m_perfData (table W) TotalIndexSize = of_nat (base + CalculateRecordOverhead rs * length kvs + sizeof_Entry)"
    using inv chain(2) unfolding test_inv_def perf_ok_def Let_def by (simp_all add: sums_map_of(1) [OF kvs])
  then show "ValidateCounters (m_perfData (table W)) (one_bucket_counters (of_nat (length kvs)) (sum_sizes (map fst kvs)) (sum_sizes (map snd kvs))
      (of_nat (base + sizeof_Entry + length kvs * CalculateRecordOverhead rs)))"
    using buckets chain(3) test_totals [OF inv, unfolded sums_map_of [OF kvs]]
    by (simp add: ValidateCounters_def one_bucket_counters_def pc_Get_def sum_sizes_eq algebra_simps)
qed

lemma HashTableWithOneBucketTest_passes:
  assumes "good_alloc alloc"
  shows "HashTableWithOneBucketTest sm st alloc"
proof -
  define s where "s = \<lparr>m_numBuckets = 1, m_numBucketsPerMutex = 1, s_fixedKeySize = 0, s_fixedValueSize = 0\<rparr>"
  define start where "start = test_world sm st s"
  define rs where "rs = default_serializer (table start)"
  define base where "base = unat (m_numBuckets s) * sizeof_Entry + unat (num_mutexes s) * sm + st"
  define kvs where "kvs = numbered ''value'' (c_numDataPerEntry + 5)"
  define newer where "newer = numbered ''val'' (c_numDataPerEntry + 5)"
  have rs: "rs = \<lparr>m_fixedKeySize = 0, m_fixedValueSize = 0, m_metadataSize = 0\<rparr>"
    by (simp add: rs_def start_def s_def default_serializer_def test_world_def SharedHashTable_new_def Let_def)
  then have add: "\<forall>(k, v)\<in>set kvs. addable rs alloc k v \<and> v \<noteq> []" "\<forall>(k, v)\<in>set newer. addable rs alloc k v \<and> v \<noteq> []"
    using numbered_sizes [of "''value''" "c_numDataPerEntry + 5"] numbered_sizes [of "''val''" "c_numDataPerEntry + 5"] assms
    by (auto simp: kvs_def newer_def addable_def Validate_def no_nul_def c_numDataPerEntry_def)
  have keys: "map fst newer = map fst kvs" "distinct (map fst kvs)" "length kvs = c_numDataPerEntry + 5" "length newer = c_numDataPerEntry + 5"
    unfolding kvs_def newer_def by (simp_all only: numbered_keys numbered_distinct [unfolded numbered_keys] numbered_length)
  have card: "card (fst ` set kvs) = c_numDataPerEntry + 5" "fst ` set newer = fst ` set kvs"
    using distinct_card [OF keys(2)] keys(3) arg_cong [OF keys(1), of set] by simp_all
  have one: "length (m_buckets (table start)) = 1" "m_perfData (table start) BucketsCount = 1"
    by (simp_all add: start_def test_world_def s_def SharedHashTable_new_def Let_def)
  have ok0: "test_ok base rs 1 (c_numDataPerEntry + 5) Map.empty start start"
    using test_inv_new [of s sm st rs] chains_within_new [of s "c_numDataPerEntry + 5" sm st]
    by (simp add: test_ok_def base_def start_def test_world_def s_def)
  define A1 where "A1 = add_check_all rs alloc kvs start"
  define A2 where "A2 = add_check_all rs alloc newer (snd A1)"
  define R3 where "R3 = remove_check_all rs kvs (snd A2)"
  define A4 where "A4 = add_check_all rs alloc kvs (snd R3)"
  have small: "(c_numDataPerEntry + 5 :: nat) < 2 ^ 32"
    by (simp add: c_numDataPerEntry_def)
  have a1: "fst A1 \<and> test_ok base rs 1 (c_numDataPerEntry + 5) (map_of kvs) start (snd A1)"
    unfolding A1_def by (rule add_check_all_ok [OF ok0 add(1) keys(2) _ _ small]) (simp_all add: card)
  have two: "2 \<le> (2 :: nat) \<or> n" for n
    by simp
  have more: "2 \<le> (1 :: nat) \<or> c_numDataPerEntry < length kvs"
    by (simp add: keys(3))
  note checked1 = one_bucket_checked [OF a1 [THEN conjunct2] keys(2) one more]
  have dom: "dom (map_of kvs) = fst ` set kvs" "dom (map_of newer) = fst ` set kvs"
    by (simp_all add: dom_map_of_conv_image_fst card(2))
  have newer_keys: "distinct (map fst newer)"
    by (simp only: keys)
  have newest: "map_of newer = map_of kvs ++ map_of newer"
  proof
    fix k
    have "map_of newer k = None \<longleftrightarrow> map_of kvs k = None"
      using dom by blast
    then show "map_of newer k = (map_of kvs ++ map_of newer) k"
      by (cases "map_of newer k") (simp_all add: map_add_def)
  qed
  have a2: "fst A2 \<and> test_ok base rs 2 (c_numDataPerEntry + 5) (map_of newer) start (snd A2)"
    unfolding A2_def by (rule add_check_all_ok [OF checked1(1) add(2) newer_keys _ _ small newest]) (simp_all add: dom card finite_dom_map_of)
  note checked2 = one_bucket_checked [OF a2 [THEN conjunct2] newer_keys one two]
  have none: "map_of [] = map_of newer |` (- fst ` set kvs)"
    unfolding dom(2) [symmetric] by (intro ext) (simp add: restrict_map_def domIff)
  have r3: "fst R3 \<and> test_ok base rs 2 (c_numDataPerEntry + 5) (map_of []) start (snd R3)"
    unfolding R3_def by (rule remove_check_all_ok [OF a2 [THEN conjunct2] _ keys(2) _ _ small none]) (simp_all add: dom card finite_dom_map_of)
  note checked3 = one_bucket_checked [OF r3 [THEN conjunct2] _ one two, simplified]
  have a4: "fst A4 \<and> test_ok base rs 2 (c_numDataPerEntry + 5) (map_of kvs) start (snd A4)"
    unfolding A4_def by (rule add_check_all_ok [OF r3 [THEN conjunct2] add(1) keys(2) _ _ small]) (simp_all add: card)
  note checked4 = one_bucket_checked [OF a4 [THEN conjunct2] keys(2) one two]
  have index: "m_perfData (table start) TotalIndexSize = of_nat base" "m_perfData (table start) ChainingEntriesCount = 0"
    by (simp_all add: start_def test_world_def s_def base_def SharedHashTable_new_def HashTablePerfData_init_def PerfCounters_init_def pc_Set_def Let_def)
  have full: "of_nat base + of_nat sizeof_Entry + of_nat ((c_numDataPerEntry + 5) * CalculateRecordOverhead rs) =
      (of_nat (base + sizeof_Entry + (c_numDataPerEntry + 5) * CalculateRecordOverhead rs) :: u64)"
    by (simp only: of_nat_add)
  have destroyed: "SharedHashTable_destroy (table (snd A4)) (heap (snd A4)) = Inr Map.empty"
    using a4 test_destroy unfolding test_ok_def by blast
  show ?thesis
    unfolding HashTableWithOneBucketTest_def Let_def split_beta s_def [symmetric] start_def [symmetric] rs_def [symmetric] rs [symmetric]
      kvs_def [symmetric] newer_def [symmetric] A1_def [symmetric] A2_def [symmetric] R3_def [symmetric] A4_def [symmetric]
      pc_Get_def index full
    using a1 a2 r3 a4 checked1(2) checked2(2) checked3(2) checked4(2) destroyed index(2)
    unfolding keys
    by (simp add: ValidateCounters_def pc_Get_def sum_sizes_def)
qed
end
