(* ===== verification/L4_IteratorTest.thy ===== *)
theory L4_IteratorTest
  imports L4_ChainTest
begin

text \<open>
  \<open>HashTableIteratorTest\<close> of \<open>Unittests/ReadWriteHashTableTest.cpp\<close>: the iterator moves exactly as often as the
  table has records, gives the records that were added, and starts again after \<open>Reset\<close>.
\<close>

section \<open>The loops of the test\<close>

text \<open>
  \<open>n\<close> moves: whether all of them succeeded, the records in a map that starts as \<open>m\<close>, and the iterator. The map
  stands for \<open>std::map\<close> of buffers.
\<close>

fun collect :: "RecordSerializer \<Rightarrow> memory \<Rightarrow> SharedHashTable \<Rightarrow> nat \<Rightarrow> Iterator \<Rightarrow> (Key \<rightharpoonup> Value) \<Rightarrow> (bool \<times> (Key \<rightharpoonup> Value) \<times> Iterator) res" where
  "collect rs h T 0 it m = Inr (True, m, it)"
| "collect rs h T (Suc n) it m =
     bind_res (MoveNext T it) (\<lambda>(moved, it).
     bind_res (GetKey rs h T it) (\<lambda>key.
     bind_res (GetValue rs h T it) (\<lambda>val.
     bind_res (collect rs h T n it (m(key \<mapsto> val))) (\<lambda>(ok, m, it). Inr (moved \<and> ok, m, it)))))"

fun move_times :: "SharedHashTable \<Rightarrow> nat \<Rightarrow> Iterator \<Rightarrow> (bool \<times> Iterator) res" where
  "move_times T 0 it = Inr (True, it)"
| "move_times T (Suc n) it =
     bind_res (MoveNext T it) (\<lambda>(moved, it). bind_res (move_times T n it) (\<lambda>(ok, it). Inr (moved \<and> ok, it)))"

definition no_more :: "SharedHashTable \<Rightarrow> Iterator \<Rightarrow> bool" where
  "no_more T it \<longleftrightarrow> returns (MoveNext T it) (\<lambda>(moved, it). \<not> moved)"

fun remove_each :: "RecordSerializer \<Rightarrow> Key list \<Rightarrow> MockEpochManager World \<Rightarrow> bool \<times> MockEpochManager World" where
  "remove_each rs [] W = (True, W)"
| "remove_each rs (key # keys) W = (let (r, W) = mock_Remove rs W key; (rest, W) = remove_each rs keys W in (r = Inr True \<and> rest, W))"

text \<open>The constructor leaves \<open>m_currentRecord\<close> as it is; the test has three iterators.\<close>

definition HashTableIteratorTest :: "nat \<Rightarrow> nat \<Rightarrow> allocator \<Rightarrow> (nat \<Rightarrow> addr option) \<Rightarrow> bool" where
  "HashTableIteratorTest sm st alloc junk \<longleftrightarrow>
     (let c_numBuckets = 10; message = ''HashTableIterator is not correctly used.'';
          W0 = test_world sm st \<lparr>m_numBuckets = of_nat c_numBuckets, m_numBucketsPerMutex = 1, s_fixedKeySize = 0, s_fixedValueSize = 0\<rparr>;
          rs = default_serializer (table W0);
          c_numRecords = c_numDataPerEntry * c_numBuckets + 1; kvs = numbered ''value'' c_numRecords;
          (ok1, W1) = add_all rs alloc kvs W0; keyValueMap = map_of kvs;
          removed = map (\<lambda>i. fst (kvs ! i)) (filter (\<lambda>i. i mod 2 = 0) [0..<c_numRecords]);
          (ok2, W2) = remove_each rs removed W1; keyValueMap2 = keyValueMap |` (- set removed)
      in returns (MoveNext (table W0) (Iterator_new (junk 0))) (\<lambda>(moved, it). \<not> moved \<and>
           throws_message (GetKey rs (heap W0) (table W0) it) message \<and> throws_message (GetValue rs (heap W0) (table W0) it) message) \<and>
         ok1 \<and> 2 \<le> sint (pc_Get (m_perfData (table W1)) MaxBucketChainLength) \<and> card (dom keyValueMap) = c_numRecords \<and>
         returns (collect rs (heap W1) (table W1) c_numRecords (Iterator_new (junk 1)) Map.empty) (\<lambda>(ok, keyValueMapFromIterator, it).
           ok \<and> no_more (table W1) it \<and> keyValueMap = keyValueMapFromIterator \<and>
           returns (MoveNext (table W1) it) (\<lambda>(_, it). returns (move_times (table W1) c_numRecords (Reset it)) (\<lambda>(ok, it). ok \<and> no_more (table W1) it))) \<and>
         ok2 \<and> card (dom keyValueMap2) = c_numRecords div 2 \<and>
         returns (collect rs (heap W2) (table W2) (c_numRecords div 2) (Iterator_new (junk 2)) Map.empty) (\<lambda>(ok, keyValueMapFromIterator, it).
           ok \<and> no_more (table W2) it \<and> keyValueMap2 = keyValueMapFromIterator) \<and>
         SharedHashTable_destroy (table W2) (heap W2) = Inr Map.empty)"

section \<open>What the loops do\<close>

lemma fold_upd_map_of: "distinct (map fst kvs) \<Longrightarrow> fold (\<lambda>(k, v) m. m(k \<mapsto> v)) kvs m = m ++ map_of kvs"
proof (induction kvs arbitrary: m)
  case (Cons kv kvs)
  obtain k v where kv: "kv = (k, v)"
    by (cases kv)
  then have "map_of kvs k = None"
    using Cons.prems by (simp add: map_of_eq_None_iff)
  then show ?case
    using Cons by (auto simp: kv fun_eq_iff map_add_def split: option.split)
qed simp

lemma no_more_end:
  assumes "iter_ok T it" "L4_Iterator.pending T it = []"
  shows "no_more T it \<and> (\<exists>it'. MoveNext T it = Inr (False, it') \<and> \<not> IsValid T it')"
  using MoveNext_moved [OF assms(1)] assms(2) by (auto simp: moved_def no_more_def IsValid_def)

lemma collect_pending:
  "iter_ok T it \<Longrightarrow> \<forall>a\<in>set (L4_Iterator.pending T it). \<exists>r. load_record rs h a = Inr r \<Longrightarrow>
    \<exists>it'. collect rs h T (length (L4_Iterator.pending T it)) it m =
        Inr (True, fold (\<lambda>(k, v) m. m(k \<mapsto> v)) (concat (map (rec_of rs h) (L4_Iterator.pending T it))) m, it') \<and> iter_ok T it' \<and> L4_Iterator.pending T it' = []"
proof (induction "L4_Iterator.pending T it" arbitrary: it m)
  case Nil
  then show ?case
    by (metis (no_types, lifting) collect.simps(1) concat.simps(1) fold_simps(1) list.map(1) list.size(3))
next
  case (Cons a rest)
  obtain it' where move: "MoveNext T it = Inr (True, it')" "iter_ok T it'" "IsValid T it'"
      "m_currentRecord it' = Some a" "ahead T (MoveToNextData T it') = rest"
    using MoveNext_moved [OF Cons.prems(1)] Cons.hyps(2) [symmetric] by (auto simp: moved_def)
  then have rest: "rest = L4_Iterator.pending T it'"
    by (auto simp: L4_Iterator.pending_def IsValid_def)
  obtain r where r: "load_record rs h a = Inr r"
    using Cons.prems(2) Cons.hyps(2) [symmetric] by auto
  have "\<forall>a\<in>set (L4_Iterator.pending T it'). \<exists>r. load_record rs h a = Inr r"
    using Cons.prems(2) Cons.hyps(2) [symmetric] rest by simp
  from Cons.hyps(1) [OF rest move(2) this, of "m(m_key r \<mapsto> m_value r)"] show ?case
    using move(1) r GetRecord_valid [OF move(3,4), of rs h] Cons.hyps(2) [symmetric] rest
    by (auto simp: GetKey_def GetValue_def rec_of_load)
qed

lemma move_times_pending:
  "iter_ok T it \<Longrightarrow> \<exists>it'. move_times T (length (L4_Iterator.pending T it)) it = Inr (True, it') \<and> iter_ok T it' \<and> L4_Iterator.pending T it' = []"
proof (induction "L4_Iterator.pending T it" arbitrary: it)
  case Nil
  then show ?case
    by simp
next
  case (Cons a rest)
  obtain it' where move: "MoveNext T it = Inr (True, it')" "iter_ok T it'" "IsValid T it'" "ahead T (MoveToNextData T it') = rest"
    using MoveNext_moved [OF Cons.prems(1)] Cons.hyps(2) [symmetric] by (auto simp: moved_def)
  then have rest: "rest = L4_Iterator.pending T it'"
    by (auto simp: L4_Iterator.pending_def IsValid_def)
  from Cons.hyps(1) [OF rest move(2)] show ?case
    using move(1) Cons.hyps(2) [symmetric] rest by auto
qed

text \<open>On a well-formed table, a fresh or reset iterator.\<close>

lemma collect_table:
  assumes ok: "table_ok rs W" and n: "n = card (dom (table_map rs W))" and start: "at_start it"
  shows "\<exists>it'. collect rs (heap W) (table W) n it Map.empty = Inr (True, table_map rs W, it') \<and> iter_ok (table W) it' \<and> L4_Iterator.pending (table W) it' = []"
    "\<exists>it'. move_times (table W) n it = Inr (True, it') \<and> iter_ok (table W) it' \<and> L4_Iterator.pending (table W) it' = []"
proof -
  note it = iter_ok_start [OF table_ok_chains [OF ok] start]
  have kvs: "concat (map (rec_of rs (heap W)) (table_addrs (table W))) = table_kvs rs (heap W) (table W)"
    by (rule table_kvs_addrs [symmetric])
  have "length (rec_of rs (heap W) a) = 1" if "a \<in> set (table_addrs (table W))" for a
    using table_ok_load [OF ok that] by (auto simp: rec_of_load)
  then have "length (concat (map (rec_of rs (heap W)) as)) = length as" if "set as \<subseteq> set (table_addrs (table W))" for as
    using that by (induction as) simp_all
  then have "length (table_kvs rs (heap W) (table W)) = length (table_addrs (table W))"
    using kvs by (metis order_refl)
  then have len: "n = length (L4_Iterator.pending (table W) it)"
    using distinct_card [OF distinct_table_kvs [OF ok]] it by (simp add: n table_map_def dom_map_of_conv_image_fst)
  have "fold (\<lambda>(k, v) m. m(k \<mapsto> v)) (table_kvs rs (heap W) (table W)) Map.empty = table_map rs W"
    by (simp add: fold_upd_map_of [OF distinct_table_kvs [OF ok]] table_map_def)
  then show "\<exists>it'. collect rs (heap W) (table W) n it Map.empty = Inr (True, table_map rs W, it') \<and> iter_ok (table W) it' \<and> L4_Iterator.pending (table W) it' = []"
    using collect_pending [of "table W" it rs "heap W" Map.empty] it table_ok_load [OF ok] kvs unfolding len by simp
  show "\<exists>it'. move_times (table W) n it = Inr (True, it') \<and> iter_ok (table W) it' \<and> L4_Iterator.pending (table W) it' = []"
    using move_times_pending [of "table W" it] it unfolding len by simp
qed

text \<open>The loops that change the table are those of the other tests without the look-ups.\<close>

lemma add_all_checked:
  "snd (add_all rs alloc kvs W) = snd (add_check_all rs alloc kvs W) \<and> (fst (add_check_all rs alloc kvs W) \<longrightarrow> fst (add_all rs alloc kvs W))"
  by (induction kvs arbitrary: W) (auto simp: split_beta Let_def)

lemma remove_each_checked:
  "snd (remove_each rs (map fst kvs) W) = snd (remove_check_all rs kvs W) \<and>
    (fst (remove_check_all rs kvs W) \<longrightarrow> fst (remove_each rs (map fst kvs) W))"
  by (induction kvs arbitrary: W) (auto simp: split_beta Let_def)

section \<open>The test passes\<close>

text \<open>In ten buckets that hold one record more than their first entries, a chain has two entries.\<close>

lemma some_chain_grew:
  assumes inv: "test_inv base rs m W" and within: "chains_within l p (table W)" and p: "p < 2 ^ 32"
    and many: "c_numDataPerEntry * length (m_buckets (table W)) < card (dom m)"
  shows "2 \<le> sint (pc_Get (m_perfData (table W)) MaxBucketChainLength)"
proof -
  have ok: "table_ok rs W" and m: "table_map rs W = m"
    using inv by (simp_all add: test_inv_def)
  have ne: "m_buckets (table W) \<noteq> []"
    using ok by (simp add: table_ok_def)
  have "2 \<le> longest_chain (table W)"
  proof (rule ccontr)
    assume "\<not> 2 \<le> longest_chain (table W)"
    then have "\<forall>es\<in>set (m_buckets (table W)). length es \<le> 1"
      using longest_chain_least [OF ne, of 1] by simp
    then have "sum_list (map length (m_buckets (table W))) \<le> length (m_buckets (table W))"
      using sum_list_mono [of "m_buckets (table W)" length "\<lambda>_. 1"] by (simp add: sum_list_triv)
    then show False
      using many table_capacity [OF ok] unfolding m by (simp add: c_numDataPerEntry_def)
  qed
  moreover have "longest_chain (table W) < 2 ^ 32"
    using within p longest_chain_least [OF ne, of "2 ^ 32 - 1"] by (fastforce simp: chains_within_def c_numDataPerEntry_def)
  moreover have "pc_Get (m_perfData (table W)) MaxBucketChainLength = of_nat (longest_chain (table W))"
    using within by (simp add: chains_within_def chain_counter_def pc_Get_def)
  ultimately show ?thesis
    by (simp add: sint_of_nat_small)
qed

text \<open>The first iterator, on the empty table.\<close>

lemma empty_iterator:
  assumes ok: "table_ok rs W" and empty: "table_map rs W = Map.empty"
  shows "returns (MoveNext (table W) (Iterator_new j)) (\<lambda>(moved, it). \<not> moved \<and>
    throws_message (GetKey rs h (table W) it) ''HashTableIterator is not correctly used.'' \<and>
    throws_message (GetValue rs h (table W) it) ''HashTableIterator is not correctly used.'')"
proof -
  obtain it where it: "collect rs (heap W) (table W) 0 (Iterator_new j) Map.empty = Inr (True, Map.empty, it)"
      "iter_ok (table W) it" "L4_Iterator.pending (table W) it = []"
    using collect_table(1) [OF ok, of 0 "Iterator_new j"] by (auto simp: empty)
  then obtain it' where "MoveNext (table W) (Iterator_new j) = Inr (False, it')" "\<not> IsValid (table W) it'"
    using no_more_end [of "table W" it] by auto
  then show ?thesis
    by (simp add: GetKey_def GetValue_def GetRecord_def throws_message_def)
qed

lemma HashTableIteratorTest_passes:
  assumes "good_alloc alloc"
  shows "HashTableIteratorTest sm st alloc junk"
proof -
  define s where "s = \<lparr>m_numBuckets = 10, m_numBucketsPerMutex = 1, s_fixedKeySize = 0, s_fixedValueSize = 0\<rparr>"
  define start where "start = test_world sm st s"
  define rs where "rs = default_serializer (table start)"
  define base where "base = unat (m_numBuckets s) * sizeof_Entry + unat (num_mutexes s) * sm + st"
  define kvs where "kvs = numbered ''value'' 161"
  define removed where "removed = map (\<lambda>i. kvs ! i) (filter (\<lambda>i. i mod 2 = 0) [0..<161])"
  have "rs = \<lparr>m_fixedKeySize = 0, m_fixedValueSize = 0, m_metadataSize = 0\<rparr>"
    by (simp add: rs_def start_def s_def default_serializer_def test_world_def SharedHashTable_new_def Let_def)
  then have add: "\<forall>(k, v)\<in>set kvs. addable rs alloc k v \<and> v \<noteq> []"
    using numbered_sizes [of "''value''" 161] assms by (auto simp: kvs_def addable_def Validate_def no_nul_def)
  have keys: "distinct (map fst kvs)" "length kvs = 161"
    unfolding kvs_def by (simp_all only: numbered_distinct numbered_length)
  have distinct: "distinct kvs"
    using keys(1) by (simp add: distinct_map)
  have dom: "dom (map_of kvs) = fst ` set kvs" "card (fst ` set kvs) = 161"
    using distinct_card [OF keys(1)] keys(2) by (simp_all add: dom_map_of_conv_image_fst)
  have sub: "set removed \<subseteq> set kvs" and "distinct removed"
    using keys(2) distinct by (auto simp: removed_def distinct_map inj_on_def nth_eq_iff_index_eq)
  then have removed_keys: "distinct (map fst removed)"
    using keys(1) by (auto simp: distinct_map intro: inj_on_subset)
  have "length (filter (\<lambda>i. i mod 2 = 0) [0..<161 :: nat]) = 81"
    by code_simp
  then have "length (map fst removed) = 81"
    by (simp only: removed_def length_map)
  then have removed_card: "card (fst ` set removed) = 81"
    using distinct_card [OF removed_keys] by (simp only: set_map)
  have ok0: "test_ok base rs 1 161 Map.empty start start"
    using test_inv_new [of s sm st rs] chains_within_new [of s 161 sm st]
    by (simp add: test_ok_def base_def start_def test_world_def s_def)
  define A1 where "A1 = add_check_all rs alloc kvs start"
  define R2 where "R2 = remove_check_all rs removed (snd A1)"
  have a1: "fst A1 \<and> test_ok base rs 1 161 (map_of kvs) start (snd A1)"
    unfolding A1_def by (rule add_check_all_ok [OF ok0 add keys(1)]) (simp_all add: dom)
  have r2: "fst R2 \<and> test_ok base rs 1 161 (map_of kvs |` (- fst ` set removed)) start (snd R2)"
    unfolding R2_def by (rule remove_check_all_ok [OF a1 [THEN conjunct2] _ removed_keys]) (use sub in \<open>auto simp: dom finite_dom_map_of\<close>)
  have removed_names: "map (\<lambda>i. fst (kvs ! i)) (filter (\<lambda>i. i mod 2 = 0) [0..<161]) = map fst removed"
    by (simp only: removed_def map_map comp_def)
  have worlds: "snd (add_all rs alloc kvs start) = snd A1" "fst (add_all rs alloc kvs start)"
    "snd (remove_each rs (map fst removed) (snd A1)) = snd R2" "fst (remove_each rs (map fst removed) (snd A1))"
    using add_all_checked [of rs alloc kvs start] remove_each_checked [of rs removed "snd A1"] a1 r2 by (simp_all add: A1_def R2_def)
  have inv: "test_inv base rs Map.empty start" "test_inv base rs (map_of kvs) (snd A1)" "test_inv base rs (map_of kvs |` (- fst ` set removed)) (snd R2)"
    and within: "chains_within 1 161 (table (snd A1))" and ten: "length (m_buckets (table (snd A1))) = 10"
    using ok0 a1 r2 by (simp_all add: test_ok_def) (simp add: start_def test_world_def s_def SharedHashTable_new_def Let_def)
  have ok: "table_ok rs start" "table_map rs start = Map.empty" "table_ok rs (snd A1)" "table_map rs (snd A1) = map_of kvs"
    "table_ok rs (snd R2)" "table_map rs (snd R2) = map_of kvs |` (- fst ` set removed)"
    using inv by (simp_all add: test_inv_def)
  have cards: "card (dom (map_of kvs)) = 161" "card (dom (map_of kvs |` (- fst ` set removed))) = 80"
  proof -
    show "card (dom (map_of kvs)) = 161"
      by (simp add: dom)
    have "dom (map_of kvs |` (- fst ` set removed)) = fst ` set kvs - fst ` set removed"
      by (auto simp: dom(1) [symmetric])
    moreover have "fst ` set removed \<subseteq> fst ` set kvs"
      using sub by blast
    ultimately show "card (dom (map_of kvs |` (- fst ` set removed))) = 80"
      by (simp only: card_Diff_subset [OF finite_imageI [OF finite_set]] dom removed_card)
  qed
  note grown = some_chain_grew [OF inv(2) within, unfolded ten cards(1)]
  obtain it1 where it1: "collect rs (heap (snd A1)) (table (snd A1)) 161 (Iterator_new (junk 1)) Map.empty = Inr (True, map_of kvs, it1)"
      "iter_ok (table (snd A1)) it1" "L4_Iterator.pending (table (snd A1)) it1 = []"
    using collect_table(1) [OF ok(3), of 161 "Iterator_new (junk 1)"] by (auto simp: ok(4) cards(1))
  obtain end1 where end1: "MoveNext (table (snd A1)) it1 = Inr (False, end1)"
    using no_more_end [OF it1(2,3)] by blast
  obtain it2 where it2: "move_times (table (snd A1)) 161 (Reset end1) = Inr (True, it2)"
      "iter_ok (table (snd A1)) it2" "L4_Iterator.pending (table (snd A1)) it2 = []"
    using collect_table(2) [OF ok(3), of 161 "Reset end1"] by (auto simp: ok(4) cards(1))
  obtain it3 where it3: "collect rs (heap (snd R2)) (table (snd R2)) 80 (Iterator_new (junk 2)) Map.empty =
        Inr (True, map_of kvs |` (- fst ` set removed), it3)"
      "iter_ok (table (snd R2)) it3" "L4_Iterator.pending (table (snd R2)) it3 = []"
    using collect_table(1) [OF ok(5), unfolded ok(6) cards(2), OF refl, of "Iterator_new (junk 2)"] by auto
  note ends = no_more_end [OF it1(2,3), THEN conjunct1] no_more_end [OF it2(2,3), THEN conjunct1] no_more_end [OF it3(2,3), THEN conjunct1]
  have numbers: "c_numDataPerEntry * 10 + 1 = (161 :: nat)" "(of_nat 10 :: u32) = 10" "161 div 2 = (80 :: nat)"
    by (simp_all add: c_numDataPerEntry_def)
  note empty = empty_iterator [OF ok(1,2), of "junk 0" "heap start", unfolded case_prod_beta']
  show ?thesis
    unfolding HashTableIteratorTest_def Let_def case_prod_beta' numbers s_def [symmetric] start_def [symmetric] rs_def [symmetric]
      kvs_def [symmetric] removed_names worlds
    unfolding set_map cards it1(1) it3(1)
    using worlds(2,4) grown empty it2(1) ends end1 test_destroy [OF inv(3)]
    by (simp add: c_numDataPerEntry_def)
qed

end
