(* ===== verification/L4_CacheCounters.thy ===== *)
theory L4_CacheCounters
  imports L4_CacheSpec
begin

text \<open>
  The counters of a cache against what its operations did: an eviction is counted for every record that \<open>Add\<close> pushed out,
  and for no other.
\<close>

lemma evicted_count:
  assumes ok: "cache_ok ok queued base rs t W" "cache_ok ok queued base rs t' W2" and balance: "same_balance W W2"
    and sub: "dom (table_map rs W2) \<subseteq> dom (table_map rs W)"
  shows "m_perfData (table W2) EvictedRecordsCount =
    m_perfData (table W) EvictedRecordsCount + of_nat (card (dom (table_map rs W) - dom (table_map rs W2)))"
proof -
  let ?m = "table_map rs W" and ?m2 = "table_map rs W2"
  have "card (dom ?m) = card (dom ?m2) + card (dom ?m - dom ?m2)"
    using card_Diff_subset [OF finite_table_map sub] card_mono [OF finite_table_map sub] by simp
  moreover have "m_perfData (table W) RecordsCount = of_nat (card (dom ?m))" "m_perfData (table W2) RecordsCount = of_nat (card (dom ?m2))"
    using ok by (simp_all add: cache_ok_def perf_ok_def Let_def)
  ultimately show ?thesis
    using balance by (simp add: same_balance_def Let_def add.assoc add.left_cancel)
qed

text \<open>
  What \<open>Add\<close> leaves of the records before it stores the new one: the eviction by time, if it is forced, and then \<open>m\<close> steps
  of the clock. The record of the key that is added is treated as any other.
\<close>

definition after_evictions :: "RecordSerializer \<Rightarrow> seconds \<Rightarrow> seconds \<Rightarrow> 'e Cache \<Rightarrow> Key \<Rightarrow> nat \<Rightarrow> (Key \<rightharpoonup> Value)" where
  "after_evictions rs t1 t2 C key m = (\<lambda>k. visited_times (clock_visit (m_recordTimeToLive C) t2)
     (visits (length (m_buckets (table (base_world C)))) (key_bucket (table (base_world C)) k) m (unat (m_currentEvictBucketIndex C)))
     (time_evicted rs t1 C key k))"

lemma after_evictions_dom: "dom (after_evictions rs t1 t2 C key m) \<subseteq> dom (table_map rs (base_world C))"
proof -
  have "time_evicted rs t1 C key k = None" if "table_map rs (base_world C) k = None" for k
    using map_le_implies_dom_le [OF time_evicted_sub, of rs t1 C key] that by (auto simp: domIff subset_iff)
  then have "after_evictions rs t1 t2 C key m k = None" if "table_map rs (base_world C) k = None" for k
    using that by (simp add: after_evictions_def)
  then show ?thesis
    by (metis domIff subsetI)
qed

context action_registry
begin

lemma Cache_Add_counters:
  fixes C :: "'e Cache"
  assumes ok_C: "cache_ok ok queued base rs t1 (base_world C)" and add: "cache_addable rs alloc key v"
    and times: "0 \<le> sint t3" "sint t1 \<le> sint t2" "sint t2 \<le> sint t3"
    and fits: "cache_bytes base rs (base_world C) + (length key + c_metaDataSize + length v) < 2 ^ 64"
    and hand: "unat (m_currentEvictBucketIndex C) + length (m_buckets (table (base_world C))) * 2 < 2 ^ 64"
  obtains m C' where "Cache_Add rs alloc register t1 t2 t3 C key v = (Inr (), C')" "m \<le> length (m_buckets (table (base_world C))) * 2"
    "m_currentEvictBucketIndex C' = m_currentEvictBucketIndex C + of_nat m"
    "table_map rs (base_world C') = (after_evictions rs t1 t2 C key m)(key \<mapsto> Metadata_new t3 @ v)"
    "m_perfData (table (base_world C')) EvictedRecordsCount = m_perfData (table (base_world C)) EvictedRecordsCount +
      of_nat (card (dom (table_map rs (base_world C)) - dom (after_evictions rs t1 t2 C key m)))"
    "\<forall>c\<in>{CacheHitCount, CacheMissCount}. m_perfData (table (base_world C')) c = m_perfData (table (base_world C)) c"
    "cache_ok ok queued base rs t3 (base_world C')" "m_recordTimeToLive C' = m_recordTimeToLive C"
proof (rule Cache_Add_parts [OF assms])
  fix m and W2 W' :: "'e World"
  let ?W = "base_world C" and ?C' = "C\<lparr>base_world := W', m_currentEvictBucketIndex := m_currentEvictBucketIndex C + of_nat m\<rparr>"
  assume run: "Cache_Add rs alloc register t1 t2 t3 C key v = (Inr (), ?C')" and m: "m \<le> length (m_buckets (table ?W)) * 2"
    and ok2: "cache_ok ok queued base rs t2 W2" and ok': "cache_ok ok queued base rs t3 W'"
    and evicted: "table_map rs W2 = (\<lambda>k. visited_times (clock_visit (m_recordTimeToLive C) t2)
      (visits (length (m_buckets (table ?W))) (key_bucket (table ?W) k) m (unat (m_currentEvictBucketIndex C))) (time_evicted rs t1 C key k))"
    and balance: "same_balance ?W W2" and map: "table_map rs W' = (table_map rs W2)(key \<mapsto> Metadata_new t3 @ v)"
    and counters: "\<forall>c. cache_counter c \<longrightarrow> m_perfData (table W') c = m_perfData (table W2) c"
  note left = evicted [folded after_evictions_def]
  have "dom (table_map rs W2) \<subseteq> dom (table_map rs ?W)"
    unfolding left by (rule after_evictions_dom)
  from evicted_count [OF ok_C ok2 balance this] show ?thesis
    using counters balance ok' by (intro that [OF run m]) (simp_all add: map left cache_counter_def same_balance_def Let_def)
qed

end

section \<open>Properties\<close>

text \<open>C20: The eviction counter of a cache is exact: \<open>Add\<close> counts one for each of the records that its two evictions pushed
  out, that of the added key among them if it was expired or not accessed, and none for the record that it replaces. \<open>m\<close>, the steps of
  the clock, is how far the hand has moved. \<open>Add\<close> counts neither hits nor misses, and the number of records is that of the keys that
  are left.
\<close>

theorem Cache_Add_counts_evictions:
  assumes "cache_inv base rs H t1 C" "cache_addable rs alloc key v"
    and "0 \<le> sint t3" "sint t1 \<le> sint t2" "sint t2 \<le> sint t3"
    and "cache_bytes base rs (base_world C) + (length key + c_metaDataSize + length v) < 2 ^ 64"
    and "unat (m_currentEvictBucketIndex C) + length (m_buckets (table (base_world C))) * 2 < 2 ^ 64"
    and "Cache_Add rs alloc RegisterAction t1 t2 t3 C key v = (r, C')"
  defines "pd \<equiv> m_perfData (table (base_world C))" and "pd' \<equiv> m_perfData (table (base_world C'))"
    and "old \<equiv> table_map rs (base_world C)" and "now \<equiv> table_map rs (base_world C')"
    and "m \<equiv> unat (m_currentEvictBucketIndex C') - unat (m_currentEvictBucketIndex C)"
  shows "r = Inr () \<and> now = (after_evictions rs t1 t2 C key m)(key \<mapsto> Metadata_new t3 @ v) \<and>
    pd' EvictedRecordsCount = pd EvictedRecordsCount + of_nat (card (dom old - dom (after_evictions rs t1 t2 C key m))) \<and>
    pd' RecordsCount = of_nat (card (dom now)) \<and> pd' CacheHitCount = pd CacheHitCount \<and> pd' CacheMissCount = pd CacheMissCount"
proof (rule em.Cache_Add_counters [OF assms(1) [unfolded cache_inv_def] assms(2-7)])
  fix n C1
  assume "Cache_Add rs alloc RegisterAction t1 t2 t3 C key v = (Inr (), C1)"
    and n: "n \<le> length (m_buckets (table (base_world C))) * 2" "m_currentEvictBucketIndex C1 = m_currentEvictBucketIndex C + of_nat n"
    and *: "table_map rs (base_world C1) = (after_evictions rs t1 t2 C key n)(key \<mapsto> Metadata_new t3 @ v)"
      "m_perfData (table (base_world C1)) EvictedRecordsCount = m_perfData (table (base_world C)) EvictedRecordsCount +
        of_nat (card (dom (table_map rs (base_world C)) - dom (after_evictions rs t1 t2 C key n)))"
      "\<forall>c\<in>{CacheHitCount, CacheMissCount}. m_perfData (table (base_world C1)) c = m_perfData (table (base_world C)) c"
      "cache_ok (\<lambda>E. manager_ok E H) queued_buffers base rs t3 (base_world C1)"
  then have C1: "r = Inr ()" "C1 = C'"
    using assms(8) by simp_all
  have "unat (m_currentEvictBucketIndex C1) = unat (m_currentEvictBucketIndex C) + n"
    unfolding n(2) using n(1) assms(7) by (simp add: unat_word_ariths unat_of_nat take_bit_nat_eq_self)
  then have "m = n"
    by (simp add: m_def C1(2))
  then show ?thesis
    using * unfolding pd_def pd'_def old_def now_def cache_ok_def perf_ok_def Let_def C1 by blast
qed

theorem Cache_Add_counts_evictions_witness:
  "\<exists>C. Cache_Add demo_cache_rs first_fit RegisterAction 5 5 5 demo_cache [1] [7] = (Inr (), C) \<and>
    m_perfData (table (base_world C)) RecordsCount = 1 \<and> m_perfData (table (base_world C)) EvictedRecordsCount = 0"
proof -
  obtain r C where run: "Cache_Add demo_cache_rs first_fit RegisterAction 5 5 5 demo_cache [1] [7] = (r, C)"
    by (meson surj_pair)
  have "length [1 :: u8] + c_metaDataSize + length [7 :: u8] < 2 ^ 32"
    by (simp add: c_metaDataSize_def)
  note counts = Cache_Add_counts_evictions [OF demo_cache_inv demo_cache_addable _ _ _ demo_fits [OF this] demo_bucket_bound run]
  have "m_perfData (table (base_world demo_cache)) EvictedRecordsCount = 0"
    by (simp add: demo_cache_def Cache_new_def SharedHashTable_new_def Let_def HashTablePerfData_init_def PerfCounters_init_def)
  moreover have "after_evictions demo_cache_rs 5 5 demo_cache [1] m = Map.empty" for m
    using after_evictions_dom [of demo_cache_rs 5 5 demo_cache "[1]" m] by (simp add: demo_cache_map)
  ultimately show ?thesis
    using run counts by (simp add: demo_cache_map)
qed

end
