(* ===== verification/L4_CacheLife.thy ===== *)
theory L4_CacheLife
  imports L4_CacheCounters
begin

text \<open>
  The life of a record in a cache: what the operations on other keys leave of it until its time to live has passed.
\<close>

section \<open>The contents with their times\<close>

definition entry_of :: "Value \<Rightarrow> seconds \<times> Value" where
  "entry_of v = (GetEpochTime (take c_metaDataSize v), drop c_metaDataSize v)"

definition contents :: "RecordSerializer \<Rightarrow> 'e World \<Rightarrow> Key \<Rightarrow> (seconds \<times> Value) option" where
  "contents rs W k = map_option entry_of (table_map rs W k)"

definition look :: "seconds \<Rightarrow> seconds \<Rightarrow> (Key \<Rightarrow> (seconds \<times> Value) option) \<Rightarrow> Key \<Rightarrow> Value option" where
  "look ttl t m k = (case m k of None \<Rightarrow> None | Some (s, v) \<Rightarrow> if sint ttl < sint t - sint s then None else Some v)"

lemma entry_of_accessed: "c_metaDataSize \<le> length v \<Longrightarrow> entry_of (accessed v) = entry_of v"
  by (simp add: entry_of_def accessed_def c_metaDataSize_def)

lemma entry_of_new: "0 \<le> sint t \<Longrightarrow> sint t < 2 ^ 31 \<Longrightarrow> entry_of (Metadata_new t @ v) = (t, v)"
  by (simp add: entry_of_def c_metaDataSize_def GetEpochTime_new_small)

lemma look_contents: "look ttl t (contents rs W) k = cache_lookup ttl t (table_map rs W) k"
  by (simp add: look_def contents_def cache_lookup_def entry_of_def expired_def split: option.split)

lemma contents_touched:
  assumes "\<And>v. table_map rs W k = Some v \<Longrightarrow> c_metaDataSize \<le> length v" "table_map rs W' = cache_touch ttl t (table_map rs W) k"
  shows "contents rs W' = contents rs W"
  using assms entry_of_accessed by (auto simp: fun_eq_iff contents_def cache_touch_def split: option.split)

lemma contents_nonempty:
  assumes "contents rs W k = Some (s, v)" "v \<noteq> []" "table_map rs W k = Some w"
  shows "c_metaDataSize < length w"
proof -
  have "drop c_metaDataSize w \<noteq> []"
    using assms by (simp add: contents_def entry_of_def)
  then show ?thesis
    by simp
qed

section \<open>Operations that leave a record alone\<close>

text \<open>
  Look-ups of any key, removals of other keys, and additions of other keys that find room: the hand of the clock stands
  still. The times at which they run do not decrease.
\<close>

inductive cache_run :: "nat \<Rightarrow> RecordSerializer \<Rightarrow> allocator \<Rightarrow> Key \<Rightarrow> seconds \<Rightarrow> addr EpochManager Cache \<Rightarrow> seconds \<Rightarrow> addr EpochManager Cache \<Rightarrow> bool"
  for base rs alloc key t C where
  run_here: "cache_run base rs alloc key t C t C"
| run_Get: "cache_run base rs alloc key t C t1 C1 \<Longrightarrow> sint t1 \<le> sint t2 \<Longrightarrow>
    \<forall>w. table_map rs (base_world C1) k = Some w \<longrightarrow> c_metaDataSize < length w \<Longrightarrow>
    Cache_Get rs (m_recordTimeToLive C1) t2 (base_world C1) k = (r, W) \<Longrightarrow>
    cache_run base rs alloc key t C t2 (C1\<lparr>base_world := W\<rparr>)"
| run_Remove: "cache_run base rs alloc key t C t1 C1 \<Longrightarrow> k \<noteq> key \<Longrightarrow> Remove rs RegisterAction (base_world C1) k = (r', W) \<Longrightarrow>
    cache_run base rs alloc key t C t1 (C1\<lparr>base_world := W\<rparr>)"
| run_Add: "cache_run base rs alloc key t C t1 C1 \<Longrightarrow> k \<noteq> key \<Longrightarrow> cache_addable rs alloc k w \<Longrightarrow>
    0 \<le> sint t4 \<Longrightarrow> sint t1 \<le> sint t2 \<Longrightarrow> sint t2 \<le> sint t3 \<Longrightarrow> sint t3 \<le> sint t4 \<Longrightarrow>
    cache_bytes base rs (base_world C1) + (length k + c_metaDataSize + length w) < 2 ^ 64 \<Longrightarrow>
    unat (m_currentEvictBucketIndex C1) + length (m_buckets (table (base_world C1))) * 2 < 2 ^ 64 \<Longrightarrow>
    Cache_Add rs alloc RegisterAction t2 t3 t4 C1 k w = (r'', C2) \<Longrightarrow>
    m_currentEvictBucketIndex C2 = m_currentEvictBucketIndex C1 \<Longrightarrow>
    cache_run base rs alloc key t C t4 C2"

text \<open>The record of time \<open>s\<close> is there, or it is gone and expired.\<close>

definition kept :: "RecordSerializer \<Rightarrow> Key \<Rightarrow> seconds \<Rightarrow> Value \<Rightarrow> seconds \<Rightarrow> 'e Cache \<Rightarrow> bool" where
  "kept rs key s v t C \<longleftrightarrow> contents rs (base_world C) key = Some (s, v) \<or>
     contents rs (base_world C) key = None \<and> sint (m_recordTimeToLive C) < sint t - sint s"

lemma kept_later: "kept rs key s v t C \<Longrightarrow> sint t \<le> sint t' \<Longrightarrow> kept rs key s v t' C"
  by (auto simp: kept_def)

lemma kept_look:
  assumes "kept rs key s v t C" "sint t \<le> sint t'"
  shows "look (m_recordTimeToLive C) t' (contents rs (base_world C)) key = (if sint (m_recordTimeToLive C) < sint t' - sint s then None else Some v)"
  using kept_later [OF assms] by (auto simp: kept_def look_def)

lemma kept_time_evicted:
  assumes "kept rs key s v t C" "sint t \<le> sint t'" and map: "table_map rs W key = time_evicted rs t' C k key"
    and "m_recordTimeToLive C' = m_recordTimeToLive C" "base_world C' = W" "sint t' \<le> sint t''"
  shows "kept rs key s v t'' C'"
proof -
  have "contents rs W key = contents rs (base_world C) key \<or>
      contents rs W key = None \<and> (\<forall>a b. contents rs (base_world C) key = Some (a, b) \<longrightarrow> sint (m_recordTimeToLive C) < sint t' - sint a)"
    unfolding contents_def map time_evicted_def bucket_visited_def expire_visit_def expired_def entry_of_def Let_def
    by (cases "table_map rs (base_world C) key") auto
  then show ?thesis
    using assms(1,2,4-6) by (auto simp: kept_def)
qed

lemma cache_run_kept:
  "cache_run base rs alloc key t C t' C' \<Longrightarrow> cache_inv base rs H t C \<Longrightarrow> kept rs key s v t C \<Longrightarrow>
    cache_inv base rs H t' C' \<and> kept rs key s v t' C' \<and> m_recordTimeToLive C' = m_recordTimeToLive C"
proof (induction rule: cache_run.induct)
  case run_here
  then show ?case
    by simp
next
  case (run_Get t1 C1 t2 k r W)
  then have C1: "cache_inv base rs H t1 C1" "kept rs key s v t1 C1" "m_recordTimeToLive C1 = m_recordTimeToLive C"
    by simp_all
  have inv: "cache_ok (\<lambda>E. manager_ok E H) queued_buffers base rs t2 (base_world C1)"
    using cache_ok_later [OF C1(1) [unfolded cache_inv_def] run_Get.hyps(2)] .
  then have long: "c_metaDataSize \<le> length w" if "table_map rs (base_world C1) k = Some w" for w
    using that by (auto simp: cache_ok_def cache_values_def)
  obtain W1 where W1: "Cache_Get rs (m_recordTimeToLive C1) t2 (base_world C1) k =
        (Inr (cache_lookup (m_recordTimeToLive C1) t2 (table_map rs (base_world C1)) k), W1)"
      "cache_ok (\<lambda>E. manager_ok E H) queued_buffers base rs t2 W1"
      "table_map rs W1 = cache_touch (m_recordTimeToLive C1) t2 (table_map rs (base_world C1)) k"
    by (rule Cache_Get_result [OF inv run_Get.hyps(3), of "m_recordTimeToLive C1"])
  then have "contents rs W = contents rs (base_world C1)" "W1 = W"
    using contents_touched [OF long W1(3)] run_Get.hyps(4) by simp_all
  then show ?case
    using W1(2) kept_later [OF C1(2) run_Get.hyps(2)] C1(3) by (simp add: cache_inv_def kept_def)
next
  case (run_Remove t1 C1 k r' W)
  then have C1: "cache_inv base rs H t1 C1" "kept rs key s v t1 C1" "m_recordTimeToLive C1 = m_recordTimeToLive C"
    by simp_all
  obtain W1 where "Remove rs RegisterAction (base_world C1) k = (Inr (table_map rs (base_world C1) k \<noteq> None), W1)"
      "cache_ok (\<lambda>E. manager_ok E H) queued_buffers base rs t1 W1" "table_map rs W1 = (table_map rs (base_world C1))(k := None)"
    by (rule em.Cache_Remove_result [OF C1(1) [unfolded cache_inv_def], of k])
  then show ?case
    using C1 run_Remove.hyps(2,3) by (simp add: cache_inv_def kept_def contents_def)
next
  case (run_Add t1 C1 k w t4 t2 t3 r'' C2)
  then have C1: "cache_inv base rs H t1 C1" "kept rs key s v t1 C1" "m_recordTimeToLive C1 = m_recordTimeToLive C"
    by simp_all
  note inv = cache_ok_later [OF C1(1) [unfolded cache_inv_def] run_Add.hyps(5)]
  obtain m C3 where run: "Cache_Add rs alloc RegisterAction t2 t3 t4 C1 k w = (Inr (), C3)"
      "m \<le> length (m_buckets (table (base_world C1))) * 2" "m_currentEvictBucketIndex C3 = m_currentEvictBucketIndex C1 + of_nat m"
    and C3: "table_map rs (base_world C3) = (after_evictions rs t2 t3 C1 k m)(k \<mapsto> Metadata_new t4 @ w)"
      "cache_ok (\<lambda>E. manager_ok E H) queued_buffers base rs t4 (base_world C3)" "m_recordTimeToLive C3 = m_recordTimeToLive C1"
    by (rule em.Cache_Add_counters [OF inv run_Add.hyps(3,4,6-9)])
  have eq: "C3 = C2"
    using run(1) run_Add.hyps(10) by simp
  have "(of_nat m :: u64) = 0"
    using run(3) run_Add.hyps(11) eq by simp
  moreover have "m < 2 ^ 64"
    using run(2) run_Add.hyps(9) by simp
  ultimately have "m = 0"
    using dvd_imp_le [of "2 ^ 64" m] by (auto simp: word_of_nat_eq_0_iff)
  then have map: "table_map rs (base_world C2) key = time_evicted rs t2 C1 k key"
    using C3(1) run_Add.hyps(2) by (simp add: eq after_evictions_def)
  have "kept rs key s v t4 C2"
    by (rule kept_time_evicted [OF C1(2) run_Add.hyps(5) map]) (use run_Add.hyps(6,7) C3(3) in \<open>simp_all add: eq\<close>)
  then show ?case
    using C1(3) C3(2,3) by (simp add: eq cache_inv_def)
qed

lemma Cache_Add_ttl:
  assumes "cache_inv base rs H t1 C" "cache_addable rs alloc key v" and "0 \<le> sint t3" "sint t1 \<le> sint t2" "sint t2 \<le> sint t3"
    and "cache_bytes base rs (base_world C) + (length key + c_metaDataSize + length v) < 2 ^ 64"
    and "unat (m_currentEvictBucketIndex C) + length (m_buckets (table (base_world C))) * 2 < 2 ^ 64"
    and "Cache_Add rs alloc RegisterAction t1 t2 t3 C key v = (r, C')"
  shows "m_recordTimeToLive C' = m_recordTimeToLive C"
  by (rule em.Cache_Add_counters [OF assms(1) [unfolded cache_inv_def] assms(2-7)]) (use assms(8) in simp)

section \<open>Properties\<close>


lemma demo_cache_ttl: "m_recordTimeToLive demo_cache = 10"
  by (simp add: demo_cache_def Cache_new_def)


end
