(* ===== verification/L4_CacheIterator.thy ===== *)
theory L4_CacheIterator
  imports L4_CacheSpec
begin

text \<open>
  The iterator of a cache, \<open>ReadOnlyHashTable::Iterator\<close> of \<open>inc/L4/HashTable/Cache/HashTable.h\<close>: it gives what \<open>Get\<close> would
  return at the time the iterator was made, each record once.
\<close>

section \<open>The loop of a client\<close>

lemma Cache_MoveNext_dist:
  "Cache_MoveNext rs h T ttl cur it = Inr (True, it') \<Longrightarrow> (iter_dist T it', iter_dist T it) \<in> iter_less"
proof (induction rs h T ttl cur it rule: Cache_MoveNext.induct)
  case (1 rs h T ttl cur it)
  note unfold = 1(2) [unfolded Cache_MoveNext.simps [of rs h T ttl cur it]]
  obtain found i1 where some: "MoveNext T it = Inr (found, i1)"
    using unfold by (cases "MoveNext T it") (simp, metis surj_pair)
  then have move: "MoveNext T it = Inr (True, i1)"
    using unfold by (cases found) simp_all
  consider "it' = i1" | "Cache_MoveNext rs h T ttl cur i1 = Inr (True, it')"
      "bind_res (bind_res (GetValue rs h T i1) metadata_of) (\<lambda>md. IsExpired md cur ttl) = Inr True"
  proof (cases "bind_res (bind_res (GetValue rs h T i1) metadata_of) (\<lambda>md. IsExpired md cur ttl)")
    case (Inr expired)
    then show ?thesis
      using unfold move that by (cases expired) simp_all
  qed (use unfold move in simp)
  then show ?case
  proof cases
    case 2
    then have "(iter_dist T it', iter_dist T i1) \<in> iter_less"
      using 1(1) move by simp
    then show ?thesis
      using MoveNext_dist [OF move] trans_iter_less by (auto dest: transD)
  qed (simp add: MoveNext_dist [OF move])
qed

function cache_iterate :: "RecordSerializer \<Rightarrow> memory \<Rightarrow> SharedHashTable \<Rightarrow> seconds \<Rightarrow> seconds \<Rightarrow> Iterator \<Rightarrow> (Key \<times> Value) list res" where
  "cache_iterate rs h T timeToLive curEpochTime it = (case Cache_MoveNext rs h T timeToLive curEpochTime it of
     Inl e \<Rightarrow> Inl e
   | Inr (found, it') \<Rightarrow>
       if \<not> found then Inr []
       else bind_res (GetKey rs h T it') (\<lambda>key. bind_res (Cache_GetValue rs h T it') (\<lambda>value.
         bind_res (cache_iterate rs h T timeToLive curEpochTime it') (\<lambda>kvs. Inr ((key, value) # kvs)))))"
  by pat_completeness auto
termination
  by (relation "inv_image iter_less (\<lambda>(rs, h, T, ttl, cur, it). iter_dist T it)") (auto intro: Cache_MoveNext_dist)

declare cache_iterate.simps [simp del]

section \<open>What a move finds\<close>

definition live_kvs :: "seconds \<Rightarrow> seconds \<Rightarrow> (Key \<times> Value) list \<Rightarrow> (Key \<times> Value) list" where
  "live_kvs ttl cur kvs = map (\<lambda>(k, v). (k, drop c_metaDataSize v)) (filter (\<lambda>(k, v). \<not> expired ttl cur v) kvs)"

text \<open>The record at an address can be read, its metadata too, and the clock is not behind it.\<close>

definition readable_at :: "RecordSerializer \<Rightarrow> memory \<Rightarrow> seconds \<Rightarrow> addr \<Rightarrow> bool" where
  "readable_at rs h cur a \<longleftrightarrow> (\<exists>k v. load_record rs h a = Inr \<lparr>m_key = k, m_value = v\<rparr> \<and> c_metaDataSize \<le> length v \<and>
     sint (GetEpochTime (take c_metaDataSize v)) \<le> sint cur)"

definition live_at :: "RecordSerializer \<Rightarrow> memory \<Rightarrow> seconds \<Rightarrow> seconds \<Rightarrow> addr \<Rightarrow> (Key \<times> Value) list" where
  "live_at rs h ttl cur a = live_kvs ttl cur (rec_of rs h a)"

lemma expired_at:
  assumes "IsValid T it" "m_currentRecord it = Some a" "readable_at rs h cur a"
  shows "bind_res (bind_res (GetValue rs h T it) metadata_of) (\<lambda>md. IsExpired md cur ttl) = Inr (live_at rs h ttl cur a = [])"
    "live_at rs h ttl cur a = [(k, v)] \<Longrightarrow> GetKey rs h T it = Inr k \<and> Cache_GetValue rs h T it = Inr v"
  using assms GetRecord_valid [OF assms(1,2), of rs h]
  by (auto simp: readable_at_def GetValue_def GetKey_def Cache_GetValue_def metadata_of_value IsExpired_age expired_def live_at_def live_kvs_def
      rec_of_load split: if_splits)

lemma live_at_cases: "live_at rs h ttl cur a = [] \<or> (\<exists>k v. live_at rs h ttl cur a = [(k, v)])"
  by (auto simp: live_at_def live_kvs_def rec_of_def split: sum.split)

text \<open>The records that are still to be given, after a move that found one or none.\<close>

definition live_moved :: "RecordSerializer \<Rightarrow> memory \<Rightarrow> SharedHashTable \<Rightarrow> seconds \<Rightarrow> seconds \<Rightarrow> addr list \<Rightarrow> (bool \<times> Iterator) res \<Rightarrow> bool" where
  "live_moved rs h T ttl cur as r \<longleftrightarrow> (\<exists>it'. iter_ok T it' \<and>
     (if concat (map (live_at rs h ttl cur) as) = [] then r = Inr (False, it')
      else r = Inr (True, it') \<and> set (L4_Iterator.pending T it') \<subseteq> set as \<and>
        (\<exists>k v. GetKey rs h T it' = Inr k \<and> Cache_GetValue rs h T it' = Inr v \<and>
          concat (map (live_at rs h ttl cur) as) = (k, v) # concat (map (live_at rs h ttl cur) (L4_Iterator.pending T it')))))"

lemma Cache_MoveNext_moved:
  "iter_ok T it \<Longrightarrow> \<forall>a\<in>set (L4_Iterator.pending T it). readable_at rs h cur a \<Longrightarrow>
    live_moved rs h T ttl cur (L4_Iterator.pending T it) (Cache_MoveNext rs h T ttl cur it)"
proof (induction "L4_Iterator.pending T it" arbitrary: it)
  case Nil
  then show ?case
    using MoveNext_moved [OF Nil.prems(1)] by (auto simp: moved_def live_moved_def Cache_MoveNext.simps [of rs h T ttl cur it])
next
  case (Cons a rest)
  note as = Cons.hyps(2) [symmetric]
  obtain it' where move: "MoveNext T it = Inr (True, it')" "iter_ok T it'" "IsValid T it'" "m_currentRecord it' = Some a"
      "ahead T (MoveToNextData T it') = rest"
    using MoveNext_moved [OF Cons.prems(1)] as by (auto simp: moved_def)
  then have rest: "rest = L4_Iterator.pending T it'"
    by (auto simp: L4_Iterator.pending_def IsValid_def)
  have a: "readable_at rs h cur a" and later: "\<forall>b\<in>set (L4_Iterator.pending T it'). readable_at rs h cur b"
    using Cons.prems(2) as rest by simp_all
  note exp = expired_at [OF move(3,4) a, of ttl]
  show ?case
  proof (cases "live_at rs h ttl cur a = []")
    case skip: True
    then have "Cache_MoveNext rs h T ttl cur it = Cache_MoveNext rs h T ttl cur it'"
      using move(1) exp(1) by (simp add: Cache_MoveNext.simps [of rs h T ttl cur it])
    moreover have "live_moved rs h T ttl cur (L4_Iterator.pending T it') (Cache_MoveNext rs h T ttl cur it')"
      by (rule Cons.hyps(1) [OF rest move(2) later])
    ultimately show ?thesis
      unfolding as live_moved_def by (auto simp: skip rest split: if_splits)
  next
    case False
    then obtain k v where here: "live_at rs h ttl cur a = [(k, v)]"
      using live_at_cases by blast
    then have "Cache_MoveNext rs h T ttl cur it = Inr (True, it')"
      using move(1) exp(1) by (simp add: Cache_MoveNext.simps [of rs h T ttl cur it])
    then show ?thesis
      unfolding as live_moved_def using move(2) exp(2) [OF here] here rest by auto
  qed
qed

lemma cache_iterate_pending:
  "iter_ok T it \<Longrightarrow> \<forall>a\<in>set (L4_Iterator.pending T it). readable_at rs h cur a \<Longrightarrow>
    cache_iterate rs h T ttl cur it = Inr (concat (map (live_at rs h ttl cur) (L4_Iterator.pending T it)))"
proof (induction "length (concat (map (live_at rs h ttl cur) (L4_Iterator.pending T it)))" arbitrary: it)
  case 0
  then show ?case
    using Cache_MoveNext_moved [OF 0(2,3), of ttl] by (auto simp: live_moved_def cache_iterate.simps [of rs h T ttl cur it])
next
  case (Suc n)
  then obtain it' k v where move: "Cache_MoveNext rs h T ttl cur it = Inr (True, it')" "iter_ok T it'" "set (L4_Iterator.pending T it') \<subseteq> set (L4_Iterator.pending T it)"
      "GetKey rs h T it' = Inr k" "Cache_GetValue rs h T it' = Inr v"
      "concat (map (live_at rs h ttl cur) (L4_Iterator.pending T it)) = (k, v) # concat (map (live_at rs h ttl cur) (L4_Iterator.pending T it'))"
    using Cache_MoveNext_moved [OF Suc.prems, of ttl] unfolding live_moved_def by (metis list.size(3) nat.distinct(1))
  have "cache_iterate rs h T ttl cur it' = Inr (concat (map (live_at rs h ttl cur) (L4_Iterator.pending T it')))"
    using Suc.hyps(2) move(2,3,6) Suc.prems(2) by (intro Suc.hyps(1)) auto
  then show ?case
    using move by (simp add: cache_iterate.simps [of rs h T ttl cur it])
qed

text \<open>On a well-formed cache, a fresh or reset iterator.\<close>

lemma readable_in_cache:
  assumes "cache_ok ok queued base rs cur W" "a \<in> set (table_addrs (table W))"
  shows "readable_at rs (heap W) cur a"
proof -
  have tab: "table_ok rs W" and vals: "cache_values cur (table_map rs W)"
    using assms(1) by (simp_all add: cache_ok_def)
  obtain r where r: "load_record rs (heap W) a = Inr r"
    using table_ok_load [OF tab assms(2)] by blast
  then have "load_record rs (heap W) a = Inr \<lparr>m_key = m_key r, m_value = m_value r\<rparr>"
    by simp
  moreover from this have "table_map rs W (m_key r) = Some (m_value r)"
    using table_map_iff [OF tab] assms(2) by blast
  ultimately show ?thesis
    using vals unfolding readable_at_def cache_values_def by blast
qed

lemma live_kvs_concat: "live_kvs ttl cur (concat kvss) = concat (map (live_kvs ttl cur) kvss)"
  by (simp add: live_kvs_def [abs_def] filter_concat map_concat comp_def)

lemma map_of_live:
  assumes "distinct (map fst kvs)"
  shows "distinct (map fst (live_kvs ttl cur kvs)) \<and> map_of (live_kvs ttl cur kvs) = cache_lookup ttl cur (map_of kvs)"
proof -
  have keys: "fst ` set (live_kvs ttl cur kvs) \<subseteq> fst ` set kvs" for kvs
    by (force simp: live_kvs_def)
  show ?thesis
    using assms
  proof (induction kvs)
    case (Cons kv kvs)
    obtain k v where kv: "kv = (k, v)"
      by (cases kv)
    have "k \<notin> fst ` set (live_kvs ttl cur kvs)"
      using Cons.prems keys [of kvs] by (auto simp: kv)
    moreover from this have "map_of (live_kvs ttl cur kvs) k = None"
      by (simp add: map_of_eq_None_iff)
    moreover have "live_kvs ttl cur (kv # kvs) = (if expired ttl cur v then [] else [(k, drop c_metaDataSize v)]) @ live_kvs ttl cur kvs"
      by (simp add: live_kvs_def kv)
    ultimately show ?case
      using Cons by (auto simp: kv cache_lookup_def fun_eq_iff)
  qed (simp add: live_kvs_def cache_lookup_def fun_eq_iff)
qed

lemma cache_iterate_table:
  assumes ok: "cache_ok ok queued base rs cur W" and it: "at_start it"
  shows "cache_iterate rs (heap W) (table W) ttl cur it = Inr (live_kvs ttl cur (table_kvs rs (heap W) (table W)))"
proof -
  note start = iter_ok_start [OF table_ok_chains [OF cache_ok_table [OF ok]] it]
  have "live_at rs (heap W) ttl cur = (\<lambda>a. live_kvs ttl cur (rec_of rs (heap W) a))"
    by (rule ext) (simp add: live_at_def)
  then show ?thesis
    using cache_iterate_pending [of "table W" it rs "heap W" cur ttl] start readable_in_cache [OF ok]
    by (simp add: table_kvs_addrs live_kvs_concat comp_def)
qed

text \<open>
  The iterator keeps the time it was made at. When the cache has got a record since, of a later second, the
  comparison of the times fails an assertion.
\<close>

lemma stale_iterator_asserts:
  assumes tab: "table_ok rs W" and one: "table_map rs W = [k \<mapsto> v]" and "c_metaDataSize \<le> length v"
    and later: "sint cur < sint (GetEpochTime (take c_metaDataSize v))" and it: "at_start it"
  shows "Cache_MoveNext rs (heap W) (table W) ttl cur it = Inl (AssertFailed ''curEpochTime >= GetEpochTime()'')"
proof -
  note start = iter_ok_start [OF table_ok_chains [OF tab] it]
  obtain a0 where "a0 \<in> set (table_addrs (table W))"
    using table_map_iff [OF tab, of k v] one by auto
  then obtain a as where as: "table_addrs (table W) = a # as"
    by (cases "table_addrs (table W)") auto
  then obtain r where r: "load_record rs (heap W) a = Inr r"
    using table_ok_load [OF tab] by auto
  then have "load_record rs (heap W) a = Inr \<lparr>m_key = m_key r, m_value = m_value r\<rparr>"
    by simp
  then have "table_map rs W (m_key r) = Some (m_value r)"
    using table_map_iff [OF tab] as by auto
  then have v: "m_value r = v"
    by (auto simp: one split: if_splits)
  obtain it' where "MoveNext (table W) it = Inr (True, it')" "IsValid (table W) it'" "m_currentRecord it' = Some a"
    using MoveNext_moved [of "table W" it] start as by (auto simp: moved_def)
  then show ?thesis
    using r v assms(3) later
    by (simp add: Cache_MoveNext.simps [of rs "heap W" "table W" ttl cur it] GetValue_def GetRecord_valid metadata_of_value IsExpired_def)
qed

section \<open>Properties\<close>

text \<open>C19: An iterator of a cache, fresh or reset, gives every record that is not expired exactly once, without its metadata:
  what it gives are the keys and values that \<open>Get\<close> finds at the time of the iterator. It ends, and no assertion fails.
\<close>

theorem cache_iterator_agrees_with_Get:
  assumes "cache_inv base rs H cur C" and "it = Iterator_new junk \<or> it = Reset it0"
  shows "\<exists>kvs. cache_iterate rs (heap (base_world C)) (table (base_world C)) ttl cur it = Inr kvs \<and> distinct (map fst kvs) \<and>
    map_of kvs = cache_lookup ttl cur (table_map rs (base_world C))"
proof -
  have ok: "cache_ok (\<lambda>E. manager_ok E H) queued_buffers base rs cur (base_world C)"
    using assms(1) by (simp add: cache_inv_def)
  have "at_start it"
    using assms(2) by auto
  then show ?thesis
    using cache_iterate_table [OF ok] map_of_live [OF distinct_table_kvs [OF cache_ok_table [OF ok]]]
    by (auto simp: table_map_def)
qed

theorem cache_iterator_agrees_with_Get_witness:
  "\<exists>C kvs. C = snd (Cache_Add demo_cache_rs first_fit RegisterAction 5 5 5 demo_cache [1] [7]) \<and>
    cache_iterate demo_cache_rs (heap (base_world C)) (table (base_world C)) 10 8 (Iterator_new None) = Inr kvs \<and> map_of kvs [1] = Some [7]"
proof -
  obtain C where C: "Cache_Add demo_cache_rs first_fit RegisterAction 5 5 5 demo_cache [1] [7] = (Inr (), C)"
      "cache_inv demo_base demo_cache_rs {#} 8 C" "table_map demo_cache_rs (base_world C) [1] = Some (Metadata_new 5 @ [7])"
      "\<not> expired 10 8 (Metadata_new 5 @ [7])"
    using demo_added [of "[7]" 8 10] by auto
  obtain kvs where "cache_iterate demo_cache_rs (heap (base_world C)) (table (base_world C)) 10 8 (Iterator_new None) = Inr kvs"
      "map_of kvs = cache_lookup 10 8 (table_map demo_cache_rs (base_world C))"
    using cache_iterator_agrees_with_Get [OF C(2), of "Iterator_new None" None undefined 10] by blast
  then show ?thesis
    using C by (intro exI [of _ C] exI [of _ kvs]) (simp add: cache_lookup_def c_metaDataSize_def)
qed

end
