(* ===== verification/L4_CacheMock.thy ===== *)
theory L4_CacheMock
  imports L4_CacheLife L4_CacheIterator L4_ChainTest
begin

text \<open>
  A cache with the test doubles of \<open>Mocks.h\<close> and \<open>CheckedAllocator.h\<close>, as the fixture of
  \<open>Unittests/CacheHashTableTest.cpp\<close> makes it: what an operation does to the contents and the counters, and the
  loops that the tests have in common.
\<close>

section \<open>An Add that has room\<close>

lemma cache_bytes_added:
  assumes "table_map rs W' = (table_map rs W)(key \<mapsto> v)" "chained (table W') = chained (table W)"
  shows "cache_bytes base rs W' \<le> cache_bytes base rs W + (length key + length v) + CalculateRecordOverhead rs"
proof -
  have "card (dom (table_map rs W')) \<le> card (dom (table_map rs W)) + 1"
    using assms(1) finite_table_map [of rs W] by (simp add: card_insert_le_m1 card_insert_if)
  then have "CalculateRecordOverhead rs * card (dom (table_map rs W')) \<le> CalculateRecordOverhead rs * card (dom (table_map rs W)) + CalculateRecordOverhead rs"
    by (metis add_mult_distrib2 mult.right_neutral mult_le_mono2)
  then show ?thesis
    using data_size_added [OF finite_table_map, of rs W key v] by (simp add: cache_bytes_def assms)
qed

context action_registry
begin

lemma Cache_Add_roomy:
  fixes C :: "'e Cache"
  assumes ok_C: "cache_ok ok queued base rs t (base_world C)" and add: "cache_addable rs alloc key v" and t: "0 \<le> sint t"
    and room: "cache_bytes base rs (base_world C) + (length key + c_metaDataSize + length v) \<le> unat (m_maxCacheSizeInBytes C)"
      "length key + c_metaDataSize + length v < unat (m_maxCacheSizeInBytes C)"
  obtains W' where "Cache_Add rs alloc register t t t C key v = (Inr (), C\<lparr>base_world := W'\<rparr>)" "cache_ok ok queued base rs t W'"
    "table_map rs W' = (time_evicted rs t C key)(key \<mapsto> Metadata_new t @ v)"
    "length (m_buckets (table W')) = length (m_buckets (table (base_world C)))"
    "m_perfData (table W') EvictedRecordsCount = m_perfData (table (base_world C)) EvictedRecordsCount +
      of_nat (card (dom (table_map rs (base_world C)) - dom (time_evicted rs t C key)))"
    "\<forall>c\<in>{CacheHitCount, CacheMissCount}. m_perfData (table W') c = m_perfData (table (base_world C)) c"
    "card (dom (table_map rs (base_world C))) < c_numDataPerEntry \<Longrightarrow> chained (table W') = chained (table (base_world C)) \<and>
      cache_bytes base rs W' \<le> cache_bytes base rs (base_world C) + (length key + c_metaDataSize + length v) + CalculateRecordOverhead rs"
    "\<not> m_forceTimeBasedEviction C \<Longrightarrow> \<exists>stat chain. add_stat key (Metadata_new t @ v) (table_map rs (base_world C) key) chain stat \<and>
      m_perfData (table W') = UpdatePerfDataForAdd rs stat (m_perfData (table (base_world C)))"
proof -
  let ?W = "base_world C" and ?n = "length key + c_metaDataSize + length v"
  let ?need = "ucast (ucast (ksize key) + vsize v + of_nat c_metaDataSize :: u32) :: u64"
  obtain W1 where W1: "(if m_forceTimeBasedEviction C then EvictBasedOnTime rs register (m_recordTimeToLive C) t key ?W
        else (Inr (), ?W)) = (Inr (), W1)"
      "cache_ok ok queued base rs t W1" "same_shape ?W W1" "table_map rs W1 = time_evicted rs t C key" "same_balance ?W W1"
      "cache_bytes base rs W1 \<le> cache_bytes base rs ?W" "\<not> m_forceTimeBasedEviction C \<longrightarrow> W1 = ?W"
    by (rule time_eviction_step [OF ok_C, of key], rule that) blast+
  note less = W1(6)
  have need: "unat ?need = ?n"
    by (rule cache_bytes_needed [OF add])
  have "cache_bytes base rs W1 + unat ?need \<le> unat (m_maxCacheSizeInBytes C)"
    using less room(1) need by simp
  then have fits: "cache_bytes base rs W1 + unat ?need < 2 ^ 64"
    using unsigned_less [of "m_maxCacheSizeInBytes C", where 'a = nat] by simp
  have "perf_ok base rs W1"
    using W1(2) by (simp add: cache_ok_def)
  from CalculateNumBytesToFree_nat [OF this fits, of "m_maxCacheSizeInBytes C"]
  have "unat (CalculateNumBytesToFree (m_maxCacheSizeInBytes C) (m_perfData (table W1)) ?need) = 0"
    using less room need by simp
  then have "CalculateNumBytesToFree (m_maxCacheSizeInBytes C) (m_perfData (table W1)) ?need = 0"
    using unsigned_eq_0_iff by blast
  then have stay: "Evict rs register t ?need (C\<lparr>base_world := W1\<rparr>) = (Inr (), C\<lparr>base_world := W1\<rparr>)"
    by (simp add: Evict_def)
  obtain a h W' where W': "Cache_CreateRecordBuffer rs alloc t key v (heap W1) = (Inr a, h)"
      "Add_record rs register a (W1\<lparr>heap := h\<rparr>) = (Inr (), W')" "cache_ok ok queued base rs t W'"
      "table_map rs W' = (table_map rs W1)(key \<mapsto> Metadata_new t @ v)"
      "cache_bytes base rs W' \<le> cache_bytes base rs W1 + ?n + CalculateRecordOverhead rs + sizeof_Entry"
      "\<forall>c. cache_counter c \<longrightarrow> m_perfData (table W') c = m_perfData (table W1) c"
      "length (m_buckets (table W')) = length (m_buckets (table W1))"
      "card (dom (table_map rs W1)) < c_numDataPerEntry \<longrightarrow> chained (table W') = chained (table W1)"
      "\<exists>stat chain. add_stat key (Metadata_new t @ v) (table_map rs W1 key) chain stat \<and>
        m_perfData (table W') = UpdatePerfDataForAdd rs stat (m_perfData (table W1))"
    by (rule add_record_step [OF W1(2) add t order_refl], rule that; blast)
  have sub: "dom (table_map rs W1) \<subseteq> dom (table_map rs ?W)"
    unfolding W1(4) by (rule map_le_implies_dom_le [OF time_evicted_sub])
  have short: "chained (table W') = chained (table ?W) \<and> cache_bytes base rs W' \<le> cache_bytes base rs ?W + ?n + CalculateRecordOverhead rs"
    if "card (dom (table_map rs ?W)) < c_numDataPerEntry"
  proof -
    have "chained (table W') = chained (table W1)" "chained (table W1) = chained (table ?W)"
      using W'(8) card_mono [OF finite_table_map sub] that W1(3) by (simp_all add: same_shape_chained)
    then show ?thesis
      using cache_bytes_added [OF W'(4), of base] less by (simp add: c_metaDataSize_def)
  qed
  have stats: "\<exists>stat chain. add_stat key (Metadata_new t @ v) (table_map rs ?W key) chain stat \<and>
      m_perfData (table W') = UpdatePerfDataForAdd rs stat (m_perfData (table ?W))" if "\<not> m_forceTimeBasedEviction C"
    using W'(9) W1(7) that by simp
  note count = evicted_count [OF ok_C W1(2,5) sub, unfolded W1(4)]
  have run: "Cache_Add rs alloc register t t t C key v = (Inr (), C\<lparr>base_world := W'\<rparr>)"
    unfolding Cache_Add_def W1(1) sum.case prod.case stay using W'(1,2) by simp
  show ?thesis
    using that [OF run W'(3) _ _ _ _ short stats] W'(4,6,7) W1(4,5) same_shape_length [OF W1(3)] count
    by (simp add: cache_counter_def same_balance_def Let_def)
qed

end

section \<open>The cache of the tests\<close>

text \<open>
  The action of an eviction frees a buffer that the operation does not touch again, so the registered actions are run
  when it returns, as in the tests of the table underneath. The clock of the tests stands still during an operation.
\<close>

definition mock_cache_Add :: "RecordSerializer \<Rightarrow> allocator \<Rightarrow> seconds \<Rightarrow> MockEpochManager Cache \<Rightarrow> Key \<Rightarrow> Value \<Rightarrow> unit res \<times> MockEpochManager Cache" where
  "mock_cache_Add rs alloc t C key value =
     (let (r, C) = Cache_Add rs alloc Mock_RegisterAction t t t C key value; (r, W) = run_registered r (base_world C)
      in (r, C\<lparr>base_world := W\<rparr>))"

definition mock_cache_Get :: "RecordSerializer \<Rightarrow> seconds \<Rightarrow> MockEpochManager Cache \<Rightarrow> Key \<Rightarrow> Value option res \<times> MockEpochManager Cache" where
  "mock_cache_Get rs t C key =
     (let (r, W) = Cache_Get rs (m_recordTimeToLive C) t (base_world C) key in (r, C\<lparr>base_world := W\<rparr>))"

definition mock_cache_Remove :: "RecordSerializer \<Rightarrow> MockEpochManager Cache \<Rightarrow> Key \<Rightarrow> bool res \<times> MockEpochManager Cache" where
  "mock_cache_Remove rs C key = (let (r, W) = mock_Remove rs (base_world C) key in (r, C\<lparr>base_world := W\<rparr>))"

text \<open>What is known between two steps: the contents with their times, and the counters of the cache.\<close>

definition cache_test :: "nat \<Rightarrow> RecordSerializer \<Rightarrow> nat \<Rightarrow> seconds \<Rightarrow> (Key \<Rightarrow> (seconds \<times> Value) option) \<Rightarrow> nat \<Rightarrow> nat \<Rightarrow> nat \<Rightarrow>
    MockEpochManager Cache \<Rightarrow> MockEpochManager Cache \<Rightarrow> bool" where
  "cache_test base rs bytes t m hits misses evicted C0 C \<longleftrightarrow>
     cache_ok (\<lambda>E. True) (\<lambda>E. mset (snd E)) base rs t (base_world C) \<and> snd (manager (base_world C)) = [] \<and> contents rs (base_world C) = m \<and>
     (\<forall>k s v. m k = Some (s, v) \<longrightarrow> v \<noteq> []) \<and> cache_bytes base rs (base_world C) \<le> bytes \<and> chained (table (base_world C)) = 0 \<and>
     C = C0\<lparr>base_world := base_world C\<rparr> \<and> length (m_buckets (table (base_world C))) = length (m_buckets (table (base_world C0))) \<and>
     (let pd = m_perfData (table (base_world C)) in
       pd CacheHitCount = of_nat hits \<and> pd CacheMissCount = of_nat misses \<and> pd EvictedRecordsCount = of_nat evicted)"

section \<open>Steps of a test\<close>

lemma cache_testD:
  assumes "cache_test base rs bytes t m hits misses evicted C0 C"
  shows "cache_ok (\<lambda>E. True) (\<lambda>E. mset (snd E)) base rs t (base_world C)" "snd (manager (base_world C)) = []" "contents rs (base_world C) = m"
    "m k = Some (s, v) \<Longrightarrow> v \<noteq> []" "cache_bytes base rs (base_world C) \<le> bytes"
    "m_recordTimeToLive C = m_recordTimeToLive C0" "m_maxCacheSizeInBytes C = m_maxCacheSizeInBytes C0"
    "m_forceTimeBasedEviction C = m_forceTimeBasedEviction C0" "C\<lparr>base_world := W\<rparr> = C0\<lparr>base_world := W\<rparr>"
    "length (m_buckets (table (base_world C))) = length (m_buckets (table (base_world C0)))" "chained (table (base_world C)) = 0"
proof -
  show "cache_ok (\<lambda>E. True) (\<lambda>E. mset (snd E)) base rs t (base_world C)" "snd (manager (base_world C)) = []" "contents rs (base_world C) = m"
    "m k = Some (s, v) \<Longrightarrow> v \<noteq> []" "cache_bytes base rs (base_world C) \<le> bytes"
    "length (m_buckets (table (base_world C))) = length (m_buckets (table (base_world C0)))" "chained (table (base_world C)) = 0"
    using assms unfolding cache_test_def by blast+
  have C: "C = C0\<lparr>base_world := base_world C\<rparr>"
    using assms unfolding cache_test_def by blast
  show "m_recordTimeToLive C = m_recordTimeToLive C0" "m_maxCacheSizeInBytes C = m_maxCacheSizeInBytes C0"
    "m_forceTimeBasedEviction C = m_forceTimeBasedEviction C0" "C\<lparr>base_world := W\<rparr> = C0\<lparr>base_world := W\<rparr>"
    by (subst C, simp)+
qed

lemma run_registered_cache:
  assumes ok: "cache_ok (\<lambda>E. True) (\<lambda>E. mset (snd E)) base rs t W"
  obtains W' where "run_registered r W = (r, W')" "cache_ok (\<lambda>E. True) (\<lambda>E. mset (snd E)) base rs t W'" "table W' = table W"
    "table_map rs W' = table_map rs W" "snd (manager W') = []"
proof -
  have parts: "table_ok rs W" "perf_ok base rs W" "accounted (\<lambda>E. True) (\<lambda>E. mset (snd E)) W" "cache_values t (table_map rs W)"
    using ok by (simp_all add: cache_ok_def)
  show ?thesis
    by (rule run_registered_parts [OF parts(1-3), of r]) (use parts(4) in \<open>intro that; simp add: cache_ok_def\<close>)
qed

lemma cache_testI:
  assumes "cache_ok (\<lambda>E. True) (\<lambda>E. mset (snd E)) base rs t W" "snd (manager W) = []" "contents rs W = m"
    and "\<And>k s a v. m k = Some (s, v) \<Longrightarrow> v \<noteq> []" "cache_bytes base rs W \<le> bytes" "chained (table W) = 0"
    and "length (m_buckets (table W)) = length (m_buckets (table (base_world C0)))"
    and "m_perfData (table W) CacheHitCount = of_nat hits" "m_perfData (table W) CacheMissCount = of_nat misses"
      "m_perfData (table W) EvictedRecordsCount = of_nat evicted"
  shows "cache_test base rs bytes t m hits misses evicted C0 (C0\<lparr>base_world := W\<rparr>)"
  using assms unfolding cache_test_def Let_def by simp

lemma cache_test_counters:
  assumes "cache_test base rs bytes t m hits misses evicted C0 C"
  shows "m_perfData (table (base_world C)) CacheHitCount = of_nat hits" "m_perfData (table (base_world C)) CacheMissCount = of_nat misses"
    "m_perfData (table (base_world C)) EvictedRecordsCount = of_nat evicted"
    "m_perfData (table (base_world C)) RecordsCount = of_nat (card (dom m))"
    "m_perfData (table (base_world C)) TotalIndexSize = of_nat (base + CalculateRecordOverhead rs * card (dom m))"
proof -
  show "m_perfData (table (base_world C)) CacheHitCount = of_nat hits" "m_perfData (table (base_world C)) CacheMissCount = of_nat misses"
    "m_perfData (table (base_world C)) EvictedRecordsCount = of_nat evicted"
    using assms unfolding cache_test_def Let_def by blast+
  have "dom m = dom (table_map rs (base_world C))"
    unfolding cache_testD(3) [OF assms, symmetric] contents_def by (auto simp: dom_def)
  then show "m_perfData (table (base_world C)) RecordsCount = of_nat (card (dom m))"
    "m_perfData (table (base_world C)) TotalIndexSize = of_nat (base + CalculateRecordOverhead rs * card (dom m))"
    using cache_testD(1,11) [OF assms] by (simp_all add: cache_ok_def perf_ok_def Let_def)
qed

lemma Cache_Get_buckets: "m_buckets (table (snd (Cache_Get rs ttl t W k))) = m_buckets (table W)"
  by (auto simp: Cache_Get_def GetInternal_def count_perf_def split: sum.split option.split prod.split)

lemma cache_bytes_touched:
  assumes ok: "cache_ok ok queued base rs t W" and touch: "table_map rs W' = cache_touch ttl t (table_map rs W) k"
    and "m_buckets (table W') = m_buckets (table W)"
  shows "cache_bytes base rs W' = cache_bytes base rs W"
proof -
  have "dom (table_map rs W') = dom (table_map rs W)"
    unfolding touch by (auto simp: cache_touch_def split: option.splits)
  moreover have "data_size (table_map rs W') = data_size (table_map rs W)"
  proof (cases "table_map rs W k")
    case (Some v)
    then have "c_metaDataSize \<le> length v"
      using ok by (auto simp: cache_ok_def cache_values_def)
    then have "length (accessed v) = length v"
      by (simp add: accessed_def c_metaDataSize_def)
    then show ?thesis
      unfolding touch using Some by (simp add: cache_touch_def data_size_upd)
  qed (simp add: touch cache_touch_def)
  moreover have "chained (table W') = chained (table W)"
    using assms(3) by (simp add: chained_def)
  ultimately show ?thesis
    by (simp add: cache_bytes_def)
qed

lemma cache_test_Get:
  assumes test: "cache_test base rs bytes t m hits misses evicted C0 C" and found: "found = look (m_recordTimeToLive C0) t m k"
    and "hits' = hits + (if found = None then 0 else 1)" "misses' = misses + (if found = None then 1 else 0)"
  shows "fst (mock_cache_Get rs t C k) = Inr found \<and> cache_test base rs bytes t m hits' misses' evicted C0 (snd (mock_cache_Get rs t C k))"
proof -
  note C = cache_testD [OF test]
  have vals: "cache_values t (table_map rs (base_world C))"
    using C(1) by (simp add: cache_ok_def)
  have "c_metaDataSize < length v" if v: "table_map rs (base_world C) k = Some v" for v
  proof -
    have "m k = Some (entry_of v)"
      by (simp add: C(3) [symmetric] contents_def v)
    then have "drop c_metaDataSize v \<noteq> []"
      using C(4) by (cases "entry_of v") (auto simp: entry_of_def)
    then show ?thesis
      by simp
  qed
  then have big: "\<forall>v. table_map rs (base_world C) k = Some v \<longrightarrow> c_metaDataSize < length v"
    by blast
  obtain r W' where run: "Cache_Get rs (m_recordTimeToLive C0) t (base_world C) k = (r, W')"
    by (cases "Cache_Get rs (m_recordTimeToLive C0) t (base_world C) k")
  show ?thesis
  proof (rule Cache_Get_result [OF C(1) big, of "m_recordTimeToLive C0"])
    fix W1
    assume "Cache_Get rs (m_recordTimeToLive C0) t (base_world C) k =
        (Inr (cache_lookup (m_recordTimeToLive C0) t (table_map rs (base_world C)) k), W1)"
      and ok1: "cache_ok (\<lambda>E. True) (\<lambda>E. mset (snd E)) base rs t W1"
      and map1: "table_map rs W1 = cache_touch (m_recordTimeToLive C0) t (table_map rs (base_world C)) k"
      and perf1: "m_perfData (table W1) = pc_Increment (m_perfData (table (base_world C)))
        (if cache_lookup (m_recordTimeToLive C0) t (table_map rs (base_world C)) k = None then CacheMissCount else CacheHitCount)"
      and man1: "manager W1 = manager (base_world C)"
    then have run: "r = Inr found" "W1 = W'"
      using run by (simp_all add: found C(3) [symmetric] look_contents)
    have buckets: "m_buckets (table W') = m_buckets (table (base_world C))"
      using Cache_Get_buckets [of rs "m_recordTimeToLive C0" t "base_world C" k] \<open>Cache_Get rs _ t _ k = (r, W')\<close> by simp
    have m': "contents rs W' = m"
      unfolding C(3) [symmetric]
      by (rule contents_touched [OF _ map1 [unfolded run(2)]]) (use vals in \<open>auto simp: cache_values_def\<close>)
    have found': "found = cache_lookup (m_recordTimeToLive C0) t (table_map rs (base_world C)) k"
      by (simp add: found C(3) [symmetric] look_contents)
    have "cache_test base rs bytes t m hits' misses' evicted C0 (C0\<lparr>base_world := W'\<rparr>)"
    proof (rule cache_testI)
      show "v \<noteq> []" if "m x = Some (s, v)" for x s v
        using that by (rule C(4))
      show "cache_bytes base rs W' \<le> bytes"
        using cache_bytes_touched [OF C(1) map1 [unfolded run(2)] buckets] C(5) by simp
    qed (use ok1 man1 run(2) C(2,10,11) m' perf1 buckets cache_test_counters [OF test] found' assms(3,4) in
        \<open>auto simp: pc_Increment_def chained_def\<close>)
    then show ?thesis
      using \<open>Cache_Get rs _ t _ k = (r, W')\<close> run(1) C(6,9) by (simp add: mock_cache_Get_def)
  qed
qed

lemma cache_test_later:
  assumes "cache_test base rs bytes t m hits misses evicted C0 C" "sint t \<le> sint t'"
  shows "cache_test base rs bytes t' m hits misses evicted C0 C"
  using assms cache_ok_later unfolding cache_test_def by blast

lemma cache_test_destroy:
  assumes "cache_test base rs bytes t m hits misses evicted C0 C"
  shows "SharedHashTable_destroy (table (base_world C)) (heap (base_world C)) = Inr Map.empty"
  using cache_testD(1,2) [OF assms] by (intro destroy_accounted [of rs]) (simp_all add: cache_ok_def)

text \<open>The eviction by time, in a table with one bucket.\<close>

definition without_expired :: "seconds \<Rightarrow> seconds \<Rightarrow> (Key \<Rightarrow> (seconds \<times> Value) option) \<Rightarrow> Key \<Rightarrow> (seconds \<times> Value) option" where
  "without_expired ttl t m k = (case m k of None \<Rightarrow> None | Some (s, v) \<Rightarrow> if sint ttl < sint t - sint s then None else m k)"

lemma contents_evicted:
  assumes "\<not> m_forceTimeBasedEviction C \<or> length (m_buckets (table (base_world C))) = 1" "table_ok rs (base_world C)"
  shows "(\<lambda>k. map_option entry_of (time_evicted rs t C key k)) =
    (if m_forceTimeBasedEviction C then without_expired (m_recordTimeToLive C) t (contents rs (base_world C)) else contents rs (base_world C))"
proof (cases "m_forceTimeBasedEviction C")
  case True
  then have "key_bucket (table (base_world C)) k = 0" for k
    using table_ok_range [OF assms(2), of k] assms(1) by simp
  then show ?thesis
    using True by (auto simp: fun_eq_iff time_evicted_def Let_def bucket_visited_def expire_visit_def without_expired_def contents_def
        entry_of_def expired_def split: option.split)
qed (simp add: time_evicted_def Let_def contents_def fun_eq_iff)

lemma cache_test_Add:
  assumes test: "cache_test base rs bytes t m hits misses evicted C0 C" and add: "cache_addable rs alloc k v" "v \<noteq> []"
    and t: "0 \<le> sint t" "sint t < 2 ^ 31" and few: "card (dom m) < c_numDataPerEntry"
    and room: "bytes + (length k + c_metaDataSize + length v) \<le> unat (m_maxCacheSizeInBytes C0)"
      "length k + c_metaDataSize + length v < unat (m_maxCacheSizeInBytes C0)"
    and one: "\<not> m_forceTimeBasedEviction C0 \<or> length (m_buckets (table (base_world C0))) = 1"
    and m1: "m1 = (if m_forceTimeBasedEviction C0 then without_expired (m_recordTimeToLive C0) t m else m)"
    and after: "m' = m1(k \<mapsto> (t, v))" "evicted' = evicted + card (dom m - dom m1)"
      "bytes' = bytes + (length k + c_metaDataSize + length v) + CalculateRecordOverhead rs"
  shows "fst (mock_cache_Add rs alloc t C k v) = Inr () \<and> cache_test base rs bytes' t m' hits misses evicted' C0 (snd (mock_cache_Add rs alloc t C k v))"
proof -
  note C = cache_testD [OF test]
  have tab: "table_ok rs (base_world C)"
    by (rule cache_ok_table [OF C(1)])
  have roomy: "cache_bytes base rs (base_world C) + (length k + c_metaDataSize + length v) \<le> unat (m_maxCacheSizeInBytes C)"
    "length k + c_metaDataSize + length v < unat (m_maxCacheSizeInBytes C)"
    using room C(5,7) by simp_all
  have evicted: "(\<lambda>x. map_option entry_of (time_evicted rs t C k x)) = m1"
    using contents_evicted [OF _ tab, where key = k and t = t] one by (simp add: C(3,6,8,10) m1)
  have doms: "dom (time_evicted rs t C k) = dom m1" "dom (table_map rs (base_world C)) = dom m"
    by (auto simp: evicted [symmetric] C(3) [symmetric] contents_def dom_def)
  show ?thesis
  proof (rule mock.Cache_Add_roomy [OF C(1) add(1) t(1) roomy])
    fix W1
    assume run: "Cache_Add rs alloc Mock_RegisterAction t t t C k v = (Inr (), C\<lparr>base_world := W1\<rparr>)"
      and ok1: "cache_ok (\<lambda>E. True) (\<lambda>E. mset (snd E)) base rs t W1" and map1: "table_map rs W1 = (time_evicted rs t C k)(k \<mapsto> Metadata_new t @ v)"
      and short: "card (dom (table_map rs (base_world C))) < c_numDataPerEntry \<Longrightarrow> chained (table W1) = chained (table (base_world C)) \<and>
        cache_bytes base rs W1 \<le> cache_bytes base rs (base_world C) + (length k + c_metaDataSize + length v) + CalculateRecordOverhead rs"
      and len1: "length (m_buckets (table W1)) = length (m_buckets (table (base_world C)))"
      and count1: "m_perfData (table W1) EvictedRecordsCount = m_perfData (table (base_world C)) EvictedRecordsCount +
        of_nat (card (dom (table_map rs (base_world C)) - dom (time_evicted rs t C k)))"
      and perf1: "\<forall>c\<in>{CacheHitCount, CacheMissCount}. m_perfData (table W1) c = m_perfData (table (base_world C)) c"
    obtain W2 where W2: "run_registered (Inr () :: unit res) W1 = (Inr (), W2)" "cache_ok (\<lambda>E. True) (\<lambda>E. mset (snd E)) base rs t W2"
        "table W2 = table W1" "table_map rs W2 = table_map rs W1" "snd (manager W2) = []"
      by (rule run_registered_cache [OF ok1])
    have same_bytes: "cache_bytes base rs W2 = cache_bytes base rs W1"
      by (simp add: cache_bytes_def W2(3,4))
    have m': "contents rs W2 = m'"
      using entry_of_new [OF t] by (auto simp: contents_def W2(4) map1 after(1) evicted [symmetric] fun_eq_iff)
    have "cache_test base rs bytes' t m' hits misses evicted' C0 (C0\<lparr>base_world := W2\<rparr>)"
    proof (rule cache_testI [OF W2(2,5) m'])
      show "w \<noteq> []" if "m' x = Some (s, w)" for x s w
        using that C(4) [of x s w] add(2) by (auto simp: after(1) m1 without_expired_def split: if_splits option.splits prod.splits)
      show "cache_bytes base rs W2 \<le> bytes'"
        using short few doms(2) C(5) same_bytes by (simp add: after(3))
      show "chained (table W2) = 0"
        using short few doms(2) C(11) W2(3) by simp
    qed (use W2(3) len1 C(10) perf1 count1 doms cache_test_counters [OF test] in \<open>simp_all add: after(2)\<close>)
    then show ?thesis
      using run W2(1) C(9) by (simp add: mock_cache_Add_def)
  qed
qed

lemma cache_test_Remove:
  assumes test: "cache_test base rs bytes t m hits misses evicted C0 C"
  shows "fst (mock_cache_Remove rs C k) = Inr (m k \<noteq> None) \<and>
    cache_test base rs bytes t (m(k := None)) hits misses evicted C0 (snd (mock_cache_Remove rs C k)) \<and>
    m_perfData (table (base_world (snd (mock_cache_Remove rs C k)))) BucketsCount = m_perfData (table (base_world C)) BucketsCount"
proof -
  note C = cache_testD [OF test]
  show ?thesis
  proof (rule mock.Cache_Remove_result [OF C(1), of k])
    fix W1
    assume run: "Remove rs Mock_RegisterAction (base_world C) k = (Inr (table_map rs (base_world C) k \<noteq> None), W1)"
      and ok1: "cache_ok (\<lambda>E. True) (\<lambda>E. mset (snd E)) base rs t W1" and map1: "table_map rs W1 = (table_map rs (base_world C))(k := None)"
      and lens: "map length (m_buckets (table W1)) = map length (m_buckets (table (base_world C)))"
      and perf1: "\<forall>c. cache_counter c \<or> c = BucketsCount \<longrightarrow> m_perfData (table W1) c = m_perfData (table (base_world C)) c"
    obtain W2 where W2: "run_registered (Inr (table_map rs (base_world C) k \<noteq> None)) W1 = (Inr (table_map rs (base_world C) k \<noteq> None), W2)"
        "cache_ok (\<lambda>E. True) (\<lambda>E. mset (snd E)) base rs t W2" "table W2 = table W1" "table_map rs W2 = table_map rs W1" "snd (manager W2) = []"
      by (rule run_registered_cache [OF ok1])
    have found: "table_map rs (base_world C) k \<noteq> None \<longleftrightarrow> m k \<noteq> None"
      by (simp add: C(3) [symmetric] contents_def)
    have now: "contents rs W2 = m(k := None)"
      by (auto simp: contents_def W2(4) map1 C(3) [symmetric] fun_eq_iff)
    have chained: "chained (table W2) = chained (table (base_world C))"
      using chained_same [OF lens] W2(3) by simp
    have "table_map rs W2 \<subseteq>\<^sub>m table_map rs (base_world C)"
      by (auto simp: W2(4) map1 map_le_def)
    then have "cache_bytes base rs W2 \<le> bytes"
      using cache_bytes_le [OF _ chained, of rs base] C(5) by (meson order_trans)
    then have "cache_test base rs bytes t (m(k := None)) hits misses evicted C0 (C0\<lparr>base_world := W2\<rparr>)"
    proof (intro cache_testI [OF W2(2,5) now])
      show "v \<noteq> []" if "(m(k := None)) x = Some (s, v)" for x s v
        using that C(4) by (auto split: if_splits)
    qed (use chained C(10,11) arg_cong [OF lens, of length] perf1 W2(3) cache_test_counters [OF test] in \<open>simp_all add: cache_counter_def\<close>)
    then show ?thesis
      using run W2(1,3) C(9) found perf1 by (simp add: mock_cache_Remove_def mock_Remove_def split_beta Let_def)
  qed
qed

text \<open>The smallest and largest sizes, when nothing is evicted by time.\<close>

lemma cache_Add_sizes:
  assumes test: "cache_test base rs bytes t m hits misses evicted C0 C" and add: "cache_addable rs alloc k v" and t: "0 \<le> sint t"
    and room: "bytes + (length k + c_metaDataSize + length v) \<le> unat (m_maxCacheSizeInBytes C0)"
      "length k + c_metaDataSize + length v < unat (m_maxCacheSizeInBytes C0)"
    and new: "\<not> m_forceTimeBasedEviction C0" "m k = None" "length k = 4" "c_metaDataSize + length v = n" "n \<le> 100"
    and known: "sizes_known n added (m_perfData (table (base_world C)))"
  shows "sizes_known n True (m_perfData (table (base_world (snd (mock_cache_Add rs alloc t C k v)))))"
proof -
  note C = cache_testD [OF test]
  have roomy: "cache_bytes base rs (base_world C) + (length k + c_metaDataSize + length v) \<le> unat (m_maxCacheSizeInBytes C)"
    "length k + c_metaDataSize + length v < unat (m_maxCacheSizeInBytes C)"
    using room C(5,7) by simp_all
  have none: "table_map rs (base_world C) k = None"
    using new(2) unfolding C(3) [symmetric] contents_def by simp
  show ?thesis
  proof (rule mock.Cache_Add_roomy [OF C(1) add t roomy])
    fix W1
    assume run: "Cache_Add rs alloc Mock_RegisterAction t t t C k v = (Inr (), C\<lparr>base_world := W1\<rparr>)"
      and "\<not> m_forceTimeBasedEviction C \<Longrightarrow> \<exists>stat chain. add_stat k (Metadata_new t @ v) (table_map rs (base_world C) k) chain stat \<and>
        m_perfData (table W1) = UpdatePerfDataForAdd rs stat (m_perfData (table (base_world C)))"
    then obtain stat chain where stat: "add_stat k (Metadata_new t @ v) None chain stat"
        "m_perfData (table W1) = UpdatePerfDataForAdd rs stat (m_perfData (table (base_world C)))"
      using new(1) C(8) none by auto
    have "table (base_world (snd (mock_cache_Add rs alloc t C k v))) = table W1"
      using run_registered_table [of "Inr ()" W1] by (simp add: mock_cache_Add_def run split_beta Let_def)
    then show ?thesis
      using sizes_known_add [OF stat(1) new(3) _ new(5) known] new(4) stat(2) by (simp add: c_metaDataSize_def)
  qed
qed

section \<open>The loops of the tests\<close>

definition test_cache :: "nat \<Rightarrow> nat \<Rightarrow> Setting \<Rightarrow> u64 \<Rightarrow> seconds \<Rightarrow> bool \<Rightarrow> MockEpochManager Cache" where
  "test_cache sm st setting maxCacheSizeInBytes timeToLive force = Cache_new (test_world sm st setting) maxCacheSizeInBytes timeToLive force"

definition default_setting :: "u32 \<Rightarrow> Setting" where
  "default_setting numBuckets = \<lparr>m_numBuckets = numBuckets, m_numBucketsPerMutex = 1, s_fixedKeySize = 0, s_fixedValueSize = 0\<rparr>"

definition c_keyValuePairs :: "(Key \<times> Value) list" where
  "c_keyValuePairs = map (\<lambda>(k, v). (ConvertFromString k, ConvertFromString v))
     [(''key1'', ''value1''), (''key2'', ''value2''), (''key3'', ''value3''), (''key4'', ''value4''), (''key5'', ''value5'')]"

text \<open>Records are added with \<open>increment\<close> seconds before each and, with \<open>check\<close>, looked up at once; the clock comes last.\<close>

fun add_records :: "bool \<Rightarrow> RecordSerializer \<Rightarrow> allocator \<Rightarrow> seconds \<Rightarrow> (Key \<times> Value) list \<Rightarrow> seconds \<Rightarrow> MockEpochManager Cache \<Rightarrow>
    bool \<times> seconds \<times> MockEpochManager Cache" where
  "add_records check rs alloc increment [] t C = (True, t, C)"
| "add_records check rs alloc increment ((k, v) # kvs) t C =
     (let t = t + increment; (r, C) = mock_cache_Add rs alloc t C k v;
          (found, C) = (if check then mock_cache_Get rs t C k else (Inr (Some v), C));
          (rest, t, C) = add_records check rs alloc increment kvs t C
      in (r = Inr () \<and> found = Inr (Some v) \<and> rest, t, C))"

fun check_each :: "RecordSerializer \<Rightarrow> seconds \<Rightarrow> (Key \<Rightarrow> Value option) \<Rightarrow> Key list \<Rightarrow> MockEpochManager Cache \<Rightarrow> bool \<times> MockEpochManager Cache" where
  "check_each rs t expected [] C = (True, C)"
| "check_each rs t expected (k # ks) C =
     (let (found, C) = mock_cache_Get rs t C k; (rest, C) = check_each rs t expected ks C in (found = Inr (expected k) \<and> rest, C))"

text \<open>What is in the cache then.\<close>

fun filled :: "seconds \<Rightarrow> (Key \<times> Value) list \<Rightarrow> seconds \<Rightarrow> (Key \<Rightarrow> (seconds \<times> Value) option) \<Rightarrow>
    Key \<Rightarrow> (seconds \<times> Value) option" where
  "filled increment [] t m = m"
| "filled increment ((k, v) # kvs) t m = filled increment kvs (t + increment) (m(k \<mapsto> (t + increment, v)))"

lemma sint_plus:
  fixes a b :: seconds
  assumes "0 \<le> sint a" "0 \<le> sint b" "sint a + sint b < 2 ^ 31"
  shows "sint (a + b) = sint a + sint b"
proof -
  have "signed_take_bit 63 (sint a + sint b) = sint a + sint b"
    using assms by (intro signed_take_bit_int_eq_self) simp_all
  then show ?thesis
    by (simp add: sint_word_ariths)
qed

lemma check_each_ok:
  assumes "cache_test base rs bytes t m hits misses evicted C0 C" "\<forall>k\<in>set ks. look (m_recordTimeToLive C0) t m k = expected k"
    and "hits' = hits + length (filter (\<lambda>k. expected k \<noteq> None) ks)" "misses' = misses + length (filter (\<lambda>k. expected k = None) ks)"
  shows "fst (check_each rs t expected ks C) \<and> cache_test base rs bytes t m hits' misses' evicted C0 (snd (check_each rs t expected ks C))"
  using assms
proof (induction ks arbitrary: C hits misses)
  case (Cons k ks)
  have k: "expected k = look (m_recordTimeToLive C0) t m k"
    using Cons.prems(2) by simp
  note got = cache_test_Get [OF Cons.prems(1) k refl refl]
  show ?case
    using Cons.IH [OF got [THEN conjunct2]] Cons.prems(2-4) got [THEN conjunct1]
    by (cases "expected k") (simp_all add: split_beta Let_def)
qed simp

text \<open>With forced eviction the records of a test are added at one time, to the only bucket: none of them expires.\<close>

definition nothing_expires :: "seconds \<Rightarrow> seconds \<Rightarrow> (Key \<Rightarrow> (seconds \<times> Value) option) \<Rightarrow> MockEpochManager Cache \<Rightarrow> bool" where
  "nothing_expires inc t m C0 \<longleftrightarrow> (m_forceTimeBasedEviction C0 \<longrightarrow>
     inc = 0 \<and> length (m_buckets (table (base_world C0))) = 1 \<and> (\<forall>k s v. m k = Some (s, v) \<longrightarrow> s = t))"

lemma nothing_expires_kept:
  assumes "nothing_expires inc t m C0" "0 \<le> sint (m_recordTimeToLive C0)"
  shows "m = (if m_forceTimeBasedEviction C0 then without_expired (m_recordTimeToLive C0) (t + inc) m else m)"
    "nothing_expires inc (t + inc) (m(k \<mapsto> (t + inc, v))) C0"
proof -
  have "s = t \<and> inc = 0" if "m_forceTimeBasedEviction C0" "m x = Some (s, w)" for x s w
    using that assms(1) unfolding nothing_expires_def by blast
  then show "m = (if m_forceTimeBasedEviction C0 then without_expired (m_recordTimeToLive C0) (t + inc) m else m)"
    using assms(2) by (fastforce simp: without_expired_def fun_eq_iff split: option.split)
  show "nothing_expires inc (t + inc) (m(k \<mapsto> (t + inc, v))) C0"
    using assms(1) by (auto simp: nothing_expires_def)
qed

definition small_records :: "RecordSerializer \<Rightarrow> allocator \<Rightarrow> nat \<Rightarrow> (Key \<times> Value) list \<Rightarrow> bool" where
  "small_records rs alloc d kvs \<longleftrightarrow>
     (\<forall>(k, v)\<in>set kvs. cache_addable rs alloc k v \<and> v \<noteq> [] \<and> length k + c_metaDataSize + length v \<le> d)"

definition fresh_records :: "nat \<Rightarrow> (Key \<times> Value) list \<Rightarrow> (Key \<Rightarrow> (seconds \<times> Value) option) \<Rightarrow> bool" where
  "fresh_records n kvs m \<longleftrightarrow> n \<le> 100 \<and> distinct (map fst kvs) \<and>
     (\<forall>(k, v)\<in>set kvs. m k = None \<and> length k = 4 \<and> c_metaDataSize + length v = n)"

lemma fresh_records_tail: "fresh_records n ((k, v) # kvs) m \<Longrightarrow> fresh_records n kvs (m(k \<mapsto> x))"
proof -
  assume fresh: "fresh_records n ((k, v) # kvs) m"
  then have "k \<notin> fst ` set kvs"
    by (simp add: fresh_records_def)
  then have "y \<noteq> k" if "(y, w) \<in> set kvs" for y w
    using that by force
  then show ?thesis
    using fresh by (auto simp: fresh_records_def)
qed

lemma add_records_ok:
  assumes "cache_test base rs bytes t m hits misses evicted C0 C" "small_records rs alloc d kvs"
    and "0 \<le> sint t" "0 \<le> sint inc" "sint t + int (length kvs) * sint inc < 2 ^ 31" "0 \<le> sint (m_recordTimeToLive C0)"
    and "bytes + length kvs * (d + CalculateRecordOverhead rs) \<le> unat (m_maxCacheSizeInBytes C0)" "d < unat (m_maxCacheSizeInBytes C0)"
    and "card (dom m) + length kvs \<le> c_numDataPerEntry" "nothing_expires inc t m C0"
  shows "fst (add_records check rs alloc inc kvs t C) \<and> fst (snd (add_records check rs alloc inc kvs t C)) = t + of_nat (length kvs) * inc \<and>
    cache_test base rs (bytes + length kvs * (d + CalculateRecordOverhead rs)) (t + of_nat (length kvs) * inc) (filled inc kvs t m)
      (hits + (if check then length kvs else 0)) misses evicted C0 (snd (snd (add_records check rs alloc inc kvs t C))) \<and>
    (\<not> check \<and> \<not> m_forceTimeBasedEviction C0 \<and> fresh_records n kvs m \<and> sizes_known n added (m_perfData (table (base_world C))) \<longrightarrow>
      sizes_known n (added \<or> kvs \<noteq> []) (m_perfData (table (base_world (snd (snd (add_records check rs alloc inc kvs t C)))))))"
  using assms
proof (induction kvs arbitrary: C t m bytes hits added)
  case (Cons kv kvs)
  obtain k v where kv: "kv = (k, v)"
    by (cases kv)
  let ?t = "t + inc" and ?m = "m(k \<mapsto> (t + inc, v))" and ?d = "d + CalculateRecordOverhead rs"
  have k: "cache_addable rs alloc k v" "v \<noteq> []" "length k + c_metaDataSize + length v \<le> d" and rest: "small_records rs alloc d kvs"
    using Cons.prems(2) by (auto simp: kv small_records_def)
  have "sint inc \<le> int (length (kv # kvs)) * sint inc"
    using Cons.prems(4) by (simp add: mult_le_cancel_right1)
  then have t: "sint ?t = sint t + sint inc" "sint ?t < 2 ^ 31"
    using sint_plus [OF Cons.prems(3,4)] Cons.prems(5) by simp_all
  then have late: "0 \<le> sint ?t" "sint t \<le> sint ?t"
    using Cons.prems(3,4) by simp_all
  have room: "bytes + (length k + c_metaDataSize + length v) \<le> unat (m_maxCacheSizeInBytes C0)"
    "length k + c_metaDataSize + length v < unat (m_maxCacheSizeInBytes C0)"
    using Cons.prems(7,8) k(3) by simp_all
  have few: "card (dom m) < c_numDataPerEntry" "card (dom ?m) + length kvs \<le> c_numDataPerEntry"
    using Cons.prems(9) card_insert_le_m1 [of "Suc (card (dom m))" "dom m" k] by simp_all
  have one: "\<not> m_forceTimeBasedEviction C0 \<or> length (m_buckets (table (base_world C0))) = 1"
    using Cons.prems(10) by (auto simp: nothing_expires_def)
  obtain r C1 where add: "mock_cache_Add rs alloc ?t C k v = (r, C1)"
    by (cases "mock_cache_Add rs alloc ?t C k v")
  note added = cache_test_Add [OF cache_test_later [OF Cons.prems(1) late(2)] k(1,2) late(1) t(2) few(1) room one
      nothing_expires_kept(1) [OF Cons.prems(10,6)] refl refl refl, unfolded add fst_conv snd_conv]
  obtain g C2 where get: "(if check then mock_cache_Get rs ?t C1 k else (Inr (Some v), C1)) = (g, C2)"
    by (cases "if check then mock_cache_Get rs ?t C1 k else (Inr (Some v), C1)")
  have "Some v = look (m_recordTimeToLive C0) ?t ?m k"
    using Cons.prems(6) by (simp add: look_def)
  note got = cache_test_Get [OF added [THEN conjunct2] this refl refl]
  have "g = Inr (Some v) \<and> cache_test base rs (bytes + (length k + c_metaDataSize + length v) + CalculateRecordOverhead rs) ?t ?m
      (hits + (if check then 1 else 0)) misses evicted C0 C2"
    using got get added by (cases check) simp_all
  then have g: "g = Inr (Some v)" and test: "cache_test base rs (bytes + ?d) ?t ?m (hits + (if check then 1 else 0)) misses evicted C0 C2"
    using k(3) unfolding cache_test_def by (auto intro: order_trans)
  have "sint ?t + int (length kvs) * sint inc < 2 ^ 31" "bytes + ?d + length kvs * ?d \<le> unat (m_maxCacheSizeInBytes C0)"
    using Cons.prems(5,7) t(1) by (simp_all add: algebra_simps)
  note IH = Cons.IH [OF test rest late(1) Cons.prems(4) this(1) Cons.prems(6) this(2) Cons.prems(8) few(2) nothing_expires_kept(2) [OF Cons.prems(10,6)], of True]
  have run: "add_records check rs alloc inc (kv # kvs) t C = add_records check rs alloc inc kvs ?t C2"
    using added [THEN conjunct1] g get by (cases check) (simp_all add: kv add split_beta Let_def)
  have sums: "?t + of_nat (length kvs) * inc = t + of_nat (length (kv # kvs)) * inc"
    "bytes + ?d + length kvs * ?d = bytes + length (kv # kvs) * ?d"
    "hits + (if check then 1 else 0) + (if check then length kvs else 0) = hits + (if check then length (kv # kvs) else 0)"
    "filled inc (kv # kvs) t m = filled inc kvs ?t ?m"
    by (simp_all add: algebra_simps kv)
  have simps: "(True \<or> kvs \<noteq> []) = True" "(added \<or> kv # kvs \<noteq> []) = True"
    by simp_all
  have "sizes_known n True (m_perfData (table (base_world C2)))"
    if "\<not> check" "\<not> m_forceTimeBasedEviction C0" "fresh_records n (kv # kvs) m" "sizes_known n added (m_perfData (table (base_world C)))"
    using cache_Add_sizes [OF cache_test_later [OF Cons.prems(1) late(2)] k(1) late(1) room that(2) _ _ _ _ that(4)] that(1,3) get add
    by (simp add: fresh_records_def kv)
  moreover have "fresh_records n kvs ?m" if "fresh_records n (kv # kvs) m"
    using fresh_records_tail that kv by blast
  ultimately have "\<not> check \<and> \<not> m_forceTimeBasedEviction C0 \<and> fresh_records n (kv # kvs) m \<and>
      sizes_known n added (m_perfData (table (base_world C))) \<longrightarrow>
    sizes_known n (added \<or> kv # kvs \<noteq> []) (m_perfData (table (base_world (snd (snd (add_records check rs alloc inc kvs ?t C2))))))"
    unfolding simps(2) using IH [unfolded simps(1), THEN conjunct2, THEN conjunct2, THEN conjunct2] by blast
  then show ?case
    unfolding run sums(4) sums(1-3) [symmetric] using IH by blast
qed simp

lemma cache_test_new:
  fixes sm st :: nat
  assumes "0 < m_numBuckets s"
  defines "base \<equiv> unat (m_numBuckets s) * sizeof_Entry + unat (num_mutexes s) * sm + st"
  shows "cache_test base rs base t Map.empty 0 0 0 (test_cache sm st s cap ttl force) (test_cache sm st s cap ttl force)"
proof -
  let ?C = "test_cache sm st s cap ttl force" and ?W = "test_world sm st s"
  have tab: "table_ok rs ?W" "table_map rs ?W = Map.empty"
    unfolding test_world_def by (rule table_ok_new [OF assms(1)]; simp)+
  have "perf_ok base rs ?W"
    unfolding test_world_def base_def by (rule perf_ok_new [OF assms(1)]) simp
  moreover have "accounted (\<lambda>E. True) (\<lambda>E. mset (snd E)) ?W"
    using table_addrs_new [of sm st s] by (simp add: accounted_def test_world_def)
  ultimately have "cache_ok (\<lambda>E. True) (\<lambda>E. mset (snd E)) base rs t ?W"
    using tab by (simp add: cache_ok_def cache_values_def)
  moreover have chained: "chained (table ?W) = 0"
    using cache_inv_new(3) [OF assms(1)] by (simp add: test_world_def chained_def SharedHashTable_new_def Let_def sum_list_replicate)
  then have "cache_bytes base rs ?W = base"
    using tab(2) by (simp add: cache_bytes_def data_size_def)
  moreover have "m_perfData (table ?W) c = 0" if "cache_counter c" for c
    using that by (auto simp: cache_counter_def test_world_def SharedHashTable_new_def HashTablePerfData_init_def PerfCounters_init_def pc_Set_def Let_def)
  moreover have "contents rs ?W = Map.empty"
    using tab(2) by (simp add: contents_def fun_eq_iff)
  moreover note chained
  ultimately show ?thesis
    using cache_testI [of base rs t ?W Map.empty base ?C 0 0 0]
    by (simp add: test_cache_def Cache_new_def cache_counter_def) (simp add: test_world_def)
qed

lemma test_cache_simps [simp]:
  "m_recordTimeToLive (test_cache sm st s cap ttl force) = ttl" "m_maxCacheSizeInBytes (test_cache sm st s cap ttl force) = cap"
  "m_forceTimeBasedEviction (test_cache sm st s cap ttl force) = force"
  "length (m_buckets (table (base_world (test_cache sm st s cap ttl force)))) = unat (m_numBuckets s)"
  by (simp_all add: test_cache_def Cache_new_def test_world_def SharedHashTable_new_def Let_def)

definition test_serializer :: RecordSerializer where
  "test_serializer = \<lparr>m_fixedKeySize = 0, m_fixedValueSize = 0, m_metadataSize = 4\<rparr>"

lemma default_serializer_of_cache: "cache_serializer (table (base_world (test_cache sm st (default_setting n) cap ttl force))) = test_serializer"
  by (simp add: cache_serializer_def test_cache_def Cache_new_def test_world_def SharedHashTable_new_def Let_def default_setting_def
      test_serializer_def c_metaDataSize_def)

lemma test_overhead: "CalculateRecordOverhead test_serializer = CalculateRecordOverhead \<lparr>m_fixedKeySize = 0, m_fixedValueSize = 0, m_metadataSize = 0\<rparr>"
  "CalculateRecordOverhead test_serializer \<le> 16"
  by code_simp+

lemma pairs_small: "good_alloc alloc \<Longrightarrow> small_records test_serializer alloc 14 c_keyValuePairs"
proof -
  assume "good_alloc alloc"
  moreover have "list_all (\<lambda>(k, v). length k = 4 \<and> length v = 6) c_keyValuePairs"
    by code_simp
  ultimately show ?thesis
    by (auto simp: small_records_def list_all_iff cache_addable_def test_serializer_def Validate_def valid_key_def c_metaDataSize_def)
qed

lemma pairs_facts: "length c_keyValuePairs = 5" "distinct (map fst c_keyValuePairs)"
  by code_simp+

text \<open>What is known after the records have been added to an empty cache.\<close>

definition test_base :: "nat \<Rightarrow> nat \<Rightarrow> Setting \<Rightarrow> nat" where
  "test_base sm st s = unat (m_numBuckets s) * sizeof_Entry + unat (num_mutexes s) * sm + st"

lemma records_added:
  fixes inc :: seconds
  assumes "0 < m_numBuckets s" "small_records rs alloc d kvs" "0 \<le> sint inc" "int (length kvs) * sint inc < 2 ^ 31" "0 \<le> sint ttl"
    and "test_base sm st s + length kvs * (d + CalculateRecordOverhead rs) \<le> unat cap" "d < unat cap" "length kvs \<le> c_numDataPerEntry"
    and "force \<longrightarrow> inc = 0 \<and> m_numBuckets s = 1"
  defines "C0 \<equiv> test_cache sm st s cap ttl force"
  shows "fst (add_records check rs alloc inc kvs 0 C0)" "fst (snd (add_records check rs alloc inc kvs 0 C0)) = of_nat (length kvs) * inc"
    "cache_test (test_base sm st s) rs (test_base sm st s + length kvs * (d + CalculateRecordOverhead rs)) (of_nat (length kvs) * inc)
      (filled inc kvs 0 Map.empty) (if check then length kvs else 0) 0 0 C0 (snd (snd (add_records check rs alloc inc kvs 0 C0)))"
    "\<not> check \<Longrightarrow> \<not> force \<Longrightarrow> m_numBuckets s = 100 \<Longrightarrow> kvs \<noteq> [] \<Longrightarrow> fresh_records n kvs Map.empty \<Longrightarrow>
      sizes_known n True (m_perfData (table (base_world (snd (snd (add_records check rs alloc inc kvs 0 C0))))))"
proof -
  have new: "cache_test (test_base sm st s) rs (test_base sm st s) 0 Map.empty 0 0 0 C0 C0"
    using cache_test_new [OF assms(1), of sm st rs 0] by (simp add: C0_def test_base_def)
  have "nothing_expires inc 0 Map.empty C0"
    using assms(9) by (simp add: nothing_expires_def C0_def)
  note added = add_records_ok [OF new assms(2) _ assms(3) _ _ _ _ _ this]
  have sizes: "sizes_known n False (m_perfData (table (base_world C0)))" if "m_numBuckets s = 100"
    using that by (simp add: sizes_known_def C0_def test_cache_def Cache_new_def test_world_def SharedHashTable_new_def HashTablePerfData_init_def
        PerfCounters_init_def pc_Set_def Let_def)
  show "sizes_known n True (m_perfData (table (base_world (snd (snd (add_records check rs alloc inc kvs 0 C0))))))"
    if "\<not> check" "\<not> force" "m_numBuckets s = 100" "kvs \<noteq> []" "fresh_records n kvs Map.empty"
    using added [of check n False] assms(4-8) that sizes by (simp add: C0_def)
  show "fst (add_records check rs alloc inc kvs 0 C0)" "fst (snd (add_records check rs alloc inc kvs 0 C0)) = of_nat (length kvs) * inc"
    "cache_test (test_base sm st s) rs (test_base sm st s + length kvs * (d + CalculateRecordOverhead rs)) (of_nat (length kvs) * inc)
      (filled inc kvs 0 Map.empty) (if check then length kvs else 0) 0 0 C0 (snd (snd (add_records check rs alloc inc kvs 0 C0)))"
    using added assms(4-8) by (simp_all add: C0_def)
qed

lemma default_buckets [simp]: "m_numBuckets (default_setting n) = n"
  by (simp add: default_setting_def)

lemma default_base: "0 < n \<Longrightarrow> test_base sm st (default_setting n) = unat n * sizeof_Entry + unat n * sm + st"
  by (simp add: test_base_def num_mutexes_def default_setting_def max_def word_le_nat_alt word_less_nat_alt)

lemma dom_filled: "dom (filled inc kvs t m) = set (map fst kvs) \<union> dom m"
proof (induction kvs arbitrary: t m)
  case (Cons kv kvs)
  then show ?case
    by (cases kv) (auto simp: Cons.IH split: if_splits)
qed simp

lemma filled_time: "filled 0 kvs t m k = Some (s, v) \<Longrightarrow> s = t \<or> m k = Some (s, v)"
  by (induction "0 :: seconds" kvs t m rule: filled.induct) (auto split: if_splits)

lemma filled_at_once:
  "distinct (map fst kvs) \<Longrightarrow> filled 0 kvs t m k = (case map_of kvs k of None \<Rightarrow> m k | Some v \<Rightarrow> Some (t, v))"
proof (induction kvs arbitrary: m)
  case (Cons kv kvs)
  obtain x v where kv: "kv = (x, v)"
    by (cases kv)
  have "map_of kvs x = None"
    using Cons.prems by (simp add: kv map_of_eq_None_iff)
  have "filled 0 (kv # kvs) t m k = filled 0 kvs t (m(x \<mapsto> (t, v))) k"
    by (simp add: kv)
  also have "\<dots> = (case map_of kvs k of None \<Rightarrow> (m(x \<mapsto> (t, v))) k | Some v \<Rightarrow> Some (t, v))"
    by (rule Cons.IH) (use Cons.prems in simp)
  finally show ?case
    using \<open>map_of kvs x = None\<close> by (simp add: kv split: option.split)
qed simp

lemma cache_test_totals:
  assumes test: "cache_test base rs bytes t m hits misses evicted C0 C" and len: "\<And>k s v. m k = Some (s, v) \<Longrightarrow> length k = 4 \<and> length v = 6"
  shows "m_perfData (table (base_world C)) TotalKeySize = of_nat (card (dom m) * 4)"
    "m_perfData (table (base_world C)) TotalValueSize = of_nat (card (dom m) * 10)"
proof -
  let ?m = "table_map rs (base_world C)"
  have perf: "perf_ok base rs (base_world C)" and vals: "cache_values t ?m"
    using cache_testD(1) [OF test] by (simp_all add: cache_ok_def)
  have dom: "dom ?m = dom m"
    unfolding cache_testD(3) [OF test, symmetric] contents_def by (auto simp: dom_def)
  have each: "length k = 4 \<and> length (the (?m k)) = 10" if k: "k \<in> dom m" for k
  proof -
    obtain v where v: "?m k = Some v"
      using k unfolding dom [symmetric] by blast
    have "m k = Some (entry_of v)"
      unfolding cache_testD(3) [OF test, symmetric] contents_def by (simp add: v)
    then have "length k = 4 \<and> length (snd (entry_of v)) = 6"
      using len [of k "fst (entry_of v)" "snd (entry_of v)"] by simp
    moreover have "snd (entry_of v) = drop c_metaDataSize v"
      by (simp add: entry_of_def)
    moreover have "c_metaDataSize \<le> length v"
      using vals v unfolding cache_values_def by blast
    ultimately show ?thesis
      by (auto simp: v c_metaDataSize_def)
  qed
  have "(\<Sum>k\<in>dom m. length k) = card (dom m) * 4" "(\<Sum>k\<in>dom m. length (the (?m k))) = card (dom m) * 10"
    using each by simp_all
  then show "m_perfData (table (base_world C)) TotalKeySize = of_nat (card (dom m) * 4)"
    "m_perfData (table (base_world C)) TotalValueSize = of_nat (card (dom m) * 10)"
    using perf unfolding perf_ok_def Let_def dom by simp_all
qed

end
