(* ===== verification/L4_CacheTest.thy ===== *)
theory L4_CacheTest
  imports L4_CacheMock
begin

text \<open>
  Unit tests of the cache, \<open>Unittests/CacheHashTableTest.cpp\<close>, with the action manager of \<open>Mocks.h\<close>. They are proved
  for every allocator that keeps its contract.
\<close>

section \<open>MetadataTest\<close>

definition MetadataTest :: bool where
  "MetadataTest \<longleftrightarrow>
     (let currentEpochTime = 0x7FABCDEF; metadata = Metadata_new currentEpochTime; later = currentEpochTime + 10;
          accessed = snd (UpdateAccessStatus True metadata)
      in GetEpochTime metadata = currentEpochTime \<and>
         IsExpired metadata later 15 = Inr False \<and> IsExpired metadata later 10 = Inr False \<and> IsExpired metadata later 5 = Inr True \<and>
         \<not> IsAccessed metadata \<and> IsAccessed accessed \<and> \<not> IsAccessed (snd (UpdateAccessStatus False accessed)))"

lemma MetadataTest_passes: MetadataTest
proof -
  have "GetEpochTime (Metadata_new 0x7FABCDEF) = 0x7FABCDEF"
    by (rule GetEpochTime_new_small) simp_all
  then show ?thesis
    by (simp add: MetadataTest_def Let_def IsExpired_age)
qed

section \<open>ExpirationTest\<close>

definition ExpirationTest :: "nat \<Rightarrow> nat \<Rightarrow> allocator \<Rightarrow> bool" where
  "ExpirationTest sm st alloc \<longleftrightarrow>
     (let C0 = test_cache sm st (default_setting 100) 0xFFFFFFFF 20 False; rs = cache_serializer (table (base_world C0));
          perfData = (\<lambda>C. m_perfData (table (base_world C))); keys = map fst c_keyValuePairs;
          (ok1, t1, C1) = add_records True rs alloc 10 c_keyValuePairs 0 C0;
          expiredKeys = {ConvertFromString ''key1'', ConvertFromString ''key2''};
          (ok2, C2) = check_each rs t1 (\<lambda>key. if key \<in> expiredKeys then None else map_of c_keyValuePairs key) keys C1;
          (ok3, C3) = check_each rs (t1 + 100) (\<lambda>_. None) keys C2
      in ok1 \<and> ValidateCounters (perfData C1) [(CacheHitCount, 5)] \<and>
         ok2 \<and> ValidateCounters (perfData C2) [(CacheHitCount, 8), (CacheMissCount, 2)] \<and>
         ok3 \<and> ValidateCounters (perfData C3) [(CacheHitCount, 8), (CacheMissCount, 7)] \<and>
         SharedHashTable_destroy (table (base_world C3)) (heap (base_world C3)) = Inr Map.empty)"

lemma aged_pairs:
  "\<forall>k\<in>set (map fst c_keyValuePairs). look 20 50 (filled 10 c_keyValuePairs 0 Map.empty) k =
    (if k \<in> {ConvertFromString ''key1'', ConvertFromString ''key2''} then None else map_of c_keyValuePairs k)"
  "\<forall>k\<in>set (map fst c_keyValuePairs). look 20 150 (filled 10 c_keyValuePairs 0 Map.empty) k = None"
  by code_simp+

lemma aged_pairs_counts:
  "length (filter (\<lambda>k. (if k \<in> {ConvertFromString ''key1'', ConvertFromString ''key2''} then None else map_of c_keyValuePairs k) \<noteq> None)
    (map fst c_keyValuePairs)) = 3"
  "length (filter (\<lambda>k. (if k \<in> {ConvertFromString ''key1'', ConvertFromString ''key2''} then None else map_of c_keyValuePairs k) = None)
    (map fst c_keyValuePairs)) = 2"
  by code_simp+

theorem ExpirationTest_passes:
  assumes "good_alloc alloc" "100 * sizeof_Entry + 100 * sm + st \<le> 2 ^ 31"
  shows "ExpirationTest sm st alloc"
proof -
  let ?C0 = "test_cache sm st (default_setting 100) 0xFFFFFFFF 20 False" and ?rs = test_serializer and ?m = "filled 10 c_keyValuePairs 0 Map.empty"
  let ?base = "test_base sm st (default_setting 100)" and ?keys = "map fst c_keyValuePairs"
  let ?bytes = "?base + 5 * (14 + CalculateRecordOverhead ?rs)"
  let ?expected = "\<lambda>k. if k \<in> {ConvertFromString ''key1'', ConvertFromString ''key2''} then None else map_of c_keyValuePairs k"
  define A where "A = add_records True ?rs alloc 10 c_keyValuePairs 0 ?C0"
  define B where "B = check_each ?rs 50 ?expected ?keys (snd (snd A))"
  define D where "D = check_each ?rs 150 (\<lambda>_. None) ?keys (snd B)"
  have added: "fst A" "fst (snd A) = 50" "cache_test ?base ?rs ?bytes 50 ?m 5 0 0 ?C0 (snd (snd A))"
    using records_added [of "default_setting 100" ?rs alloc 14 c_keyValuePairs 10 20 sm st "0xFFFFFFFF" False True] pairs_small [OF assms(1)] assms(2)
      test_overhead(2) by (simp_all add: A_def pairs_facts c_numDataPerEntry_def default_base)
  have aged: "fst B \<and> cache_test ?base ?rs ?bytes 50 ?m 8 2 0 ?C0 (snd B)"
    unfolding B_def
  proof (rule check_each_ok [OF added(3)])
    show "\<forall>k\<in>set ?keys. look (m_recordTimeToLive ?C0) 50 ?m k = ?expected k"
      unfolding test_cache_simps by (rule aged_pairs(1))
  qed (use aged_pairs_counts in linarith)+
  have "cache_test ?base ?rs ?bytes 150 ?m 8 2 0 ?C0 (snd B)"
    by (rule cache_test_later [OF aged [THEN conjunct2]]) simp
  then have gone: "fst D \<and> cache_test ?base ?rs ?bytes 150 ?m 8 7 0 ?C0 (snd D)"
    unfolding D_def
  proof (rule check_each_ok)
    show "\<forall>k\<in>set ?keys. look (m_recordTimeToLive ?C0) 150 ?m k = None"
      unfolding test_cache_simps by (rule aged_pairs(2))
  qed (simp_all add: pairs_facts)
  have later: "50 + 100 = (150 :: seconds)"
    by simp
  show ?thesis
    using added aged gone cache_test_counters [OF added(3)] cache_test_counters [OF aged [THEN conjunct2]]
      cache_test_counters [OF gone [THEN conjunct2]] cache_test_destroy [OF gone [THEN conjunct2]]
    unfolding ExpirationTest_def Let_def default_serializer_of_cache split_beta A_def [symmetric] added(2) B_def [symmetric] later D_def [symmetric]
    by (simp add: ValidateCounters_def pc_Get_def)
qed

section \<open>TimeBasedEvictionTest\<close>

definition TimeBasedEvictionTest :: "nat \<Rightarrow> nat \<Rightarrow> allocator \<Rightarrow> bool" where
  "TimeBasedEvictionTest sm st alloc \<longleftrightarrow>
     (let C0 = test_cache sm st (default_setting 1) 0xFFFFFFFF 10 True; rs = cache_serializer (table (base_world C0));
          perfData = (\<lambda>C. m_perfData (table (base_world C)));
          (ok1, t1, C1) = add_records True rs alloc 0 c_keyValuePairs 0 C0;
          (ok2, C2) = check_each rs (t1 + 20) (\<lambda>_. None) (map fst c_keyValuePairs) C1;
          (key, value1) = hd c_keyValuePairs; (r3, C3) = mock_cache_Add rs alloc (t1 + 20) C2 key value1
      in ok1 \<and> ValidateCounters (perfData C1) [(CacheHitCount, 5), (RecordsCount, 5), (EvictedRecordsCount, 0)] \<and>
         ok2 \<and> ValidateCounters (perfData C2) [(CacheHitCount, 5), (CacheMissCount, 5), (RecordsCount, 5), (EvictedRecordsCount, 0)] \<and>
         r3 = Inr () \<and> ValidateCounters (perfData C3) [(RecordsCount, 1), (EvictedRecordsCount, 5)] \<and>
         SharedHashTable_destroy (table (base_world C3)) (heap (base_world C3)) = Inr Map.empty)"

lemma old_pairs:
  "\<forall>k\<in>set (map fst c_keyValuePairs). look 10 20 (filled 0 c_keyValuePairs 0 Map.empty) k = None"
  "without_expired 10 20 (filled 0 c_keyValuePairs 0 Map.empty) = Map.empty"
proof -
  have "look 10 20 (filled 0 c_keyValuePairs 0 Map.empty) k = None" for k
    using filled_time [of c_keyValuePairs 0 Map.empty k] by (fastforce simp: look_def split: option.split)
  then show "\<forall>k\<in>set (map fst c_keyValuePairs). look 10 20 (filled 0 c_keyValuePairs 0 Map.empty) k = None"
    by blast
  show "without_expired 10 20 (filled 0 c_keyValuePairs 0 Map.empty) = Map.empty"
    using filled_time [of c_keyValuePairs 0 Map.empty] by (fastforce simp: without_expired_def fun_eq_iff split: option.split)
qed

lemma card_filled_pairs: "card (dom (filled inc c_keyValuePairs t Map.empty)) = 5"
  using distinct_card [OF pairs_facts(2)] by (simp add: dom_filled pairs_facts(1))

theorem TimeBasedEvictionTest_passes:
  assumes "good_alloc alloc" "sizeof_Entry + sm + st \<le> 2 ^ 31"
  shows "TimeBasedEvictionTest sm st alloc"
proof -
  let ?C0 = "test_cache sm st (default_setting 1) 0xFFFFFFFF 10 True" and ?rs = test_serializer and ?m = "filled 0 c_keyValuePairs 0 Map.empty"
  let ?base = "test_base sm st (default_setting 1)" and ?bytes = "test_base sm st (default_setting 1) + 5 * (14 + CalculateRecordOverhead test_serializer)"
  let ?key = "fst (hd c_keyValuePairs)" and ?v = "snd (hd c_keyValuePairs)"
  define A where "A = add_records True ?rs alloc 0 c_keyValuePairs 0 ?C0"
  define B where "B = check_each ?rs 20 (\<lambda>_. None) (map fst c_keyValuePairs) (snd (snd A))"
  define D where "D = mock_cache_Add ?rs alloc 20 (snd B) ?key ?v"
  let ?m' = "Map.empty(?key \<mapsto> (20, ?v))"
  have added: "fst A" "fst (snd A) = 0" "cache_test ?base ?rs ?bytes 0 ?m 5 0 0 ?C0 (snd (snd A))"
    using records_added [of "default_setting 1" ?rs alloc 14 c_keyValuePairs 0 10 sm st "0xFFFFFFFF" True True] pairs_small [OF assms(1)] assms(2)
      test_overhead(2) by (simp_all add: A_def pairs_facts c_numDataPerEntry_def default_base)
  have "cache_test ?base ?rs ?bytes 20 ?m 5 0 0 ?C0 (snd (snd A))"
    by (rule cache_test_later [OF added(3)]) simp
  then have aged: "fst B \<and> cache_test ?base ?rs ?bytes 20 ?m 5 5 0 ?C0 (snd B)"
    unfolding B_def
  proof (rule check_each_ok)
    show "\<forall>k\<in>set (map fst c_keyValuePairs). look (m_recordTimeToLive ?C0) 20 ?m k = None"
      unfolding test_cache_simps by (rule old_pairs(1))
  qed (simp_all add: pairs_facts)
  have first: "hd c_keyValuePairs \<in> set c_keyValuePairs"
    using pairs_facts(1) by (intro hd_in_set) auto
  then have key: "cache_addable ?rs alloc ?key ?v" "?v \<noteq> []" "length ?key + c_metaDataSize + length ?v \<le> 14"
    using pairs_small [OF assms(1)] by (auto simp: split_beta small_records_def)
  have "?bytes + 100 \<le> unat (0xFFFFFFFF :: u64)"
    using test_overhead(2) assms(2) by (simp add: default_base)
  then have replaced: "fst D = Inr () \<and> cache_test ?base ?rs (?bytes + (length ?key + c_metaDataSize + length ?v) +
      CalculateRecordOverhead ?rs) 20 ?m' 5 5 5 ?C0 (snd D)"
    unfolding D_def using key(3)
    by (intro cache_test_Add [OF aged [THEN conjunct2] key(1,2), where ?m1.0 = Map.empty]) (simp_all add: old_pairs card_filled_pairs c_numDataPerEntry_def default_setting_def)
  have later: "0 + 20 = (20 :: seconds)"
    by simp
  show ?thesis
    using added aged replaced cache_test_counters [OF added(3)] cache_test_counters [OF aged [THEN conjunct2]]
      cache_test_counters [OF replaced [THEN conjunct2]] cache_test_destroy [OF replaced [THEN conjunct2]]
    unfolding TimeBasedEvictionTest_def Let_def default_serializer_of_cache split_beta A_def [symmetric] added(2) later B_def [symmetric] D_def [symmetric]
    by (simp add: ValidateCounters_def pc_Get_def card_filled_pairs)
qed

section \<open>EvcitAllRecordsTest\<close>

text \<open>A record that does not fit beside any other one pushes all of them out.\<close>

lemma cache_test_Add_big:
  assumes test: "cache_test base rs bytes t m hits misses evicted C0 C" and add: "cache_addable rs alloc k v" "v \<noteq> []"
    and t: "0 \<le> sint t" "sint t < 2 ^ 31"
    and big: "unat (m_maxCacheSizeInBytes C0) < base + (length k + c_metaDataSize + length v)"
    and fits: "bytes + (length k + c_metaDataSize + length v) < 2 ^ 64"
    and hand: "unat (m_currentEvictBucketIndex C0) + length (m_buckets (table (base_world C0))) * 2 < 2 ^ 64"
  shows "fst (mock_cache_Add rs alloc t C k v) = Inr () \<and>
    (\<exists>hand'. cache_test base rs (base + (length k + c_metaDataSize + length v) + CalculateRecordOverhead rs) t [k \<mapsto> (t, v)] hits misses
      (evicted + card (dom m)) (C0\<lparr>m_currentEvictBucketIndex := hand'\<rparr>) (snd (mock_cache_Add rs alloc t C k v)))"
proof -
  note C = cache_testD [OF test]
  have index: "m_currentEvictBucketIndex C = m_currentEvictBucketIndex C0"
    using arg_cong [OF C(9) [of "base_world C"], of m_currentEvictBucketIndex] by simp
  have "cache_bytes base rs (base_world C) + (length k + c_metaDataSize + length v) < 2 ^ 64"
    using fits C(5) by simp
  moreover have "unat (m_currentEvictBucketIndex C) + length (m_buckets (table (base_world C))) * 2 < 2 ^ 64"
    using hand C(10) index by simp
  ultimately show ?thesis
  proof (rule mock.Cache_Add_parts [OF C(1) add(1) t(1) order_refl order_refl])
    fix n W2 W1
    let ?hand = "m_currentEvictBucketIndex C + of_nat n"
    assume run: "Cache_Add rs alloc Mock_RegisterAction t t t C k v = (Inr (), C\<lparr>base_world := W1, m_currentEvictBucketIndex := ?hand\<rparr>)"
      and ok2: "cache_ok (\<lambda>E. True) (\<lambda>E. mset (snd E)) base rs t W2" and ok1: "cache_ok (\<lambda>E. True) (\<lambda>E. mset (snd E)) base rs t W1"
      and shape: "same_shape (base_world C) W2" and balance: "same_balance (base_world C) W2"
      and room: "table_map rs W2 = Map.empty \<or> cache_bytes base rs W2 + (length k + c_metaDataSize + length v) \<le> unat (m_maxCacheSizeInBytes C)"
      and map1: "table_map rs W1 = (table_map rs W2)(k \<mapsto> Metadata_new t @ v)"
      and perf1: "\<forall>c. cache_counter c \<longrightarrow> m_perfData (table W1) c = m_perfData (table W2) c"
      and len1: "length (m_buckets (table W1)) = length (m_buckets (table W2))"
      and chain1: "card (dom (table_map rs W2)) < c_numDataPerEntry \<Longrightarrow> chained (table W1) = chained (table W2)"
    have empty: "table_map rs W2 = Map.empty"
      using room big C(7) by (simp add: cache_bytes_def)
    have chained: "chained (table W1) = 0" "chained (table W2) = 0"
      using chain1 same_shape_chained [OF shape] C(11) by (simp_all add: empty c_numDataPerEntry_def)
    obtain W' where W': "run_registered (Inr () :: unit res) W1 = (Inr (), W')" "cache_ok (\<lambda>E. True) (\<lambda>E. mset (snd E)) base rs t W'"
        "table W' = table W1" "table_map rs W' = table_map rs W1" "snd (manager W') = []"
      by (rule run_registered_cache [OF ok1])
    have now: "contents rs W' = [k \<mapsto> (t, v)]"
      using entry_of_new [OF t] by (auto simp: contents_def W'(4) map1 empty fun_eq_iff)
    have "cache_bytes base rs W1 \<le> cache_bytes base rs W2 + (length k + length (Metadata_new t @ v)) + CalculateRecordOverhead rs"
      by (rule cache_bytes_added [OF map1]) (simp add: chained)
    then have bytes: "cache_bytes base rs W' \<le> base + (length k + c_metaDataSize + length v) + CalculateRecordOverhead rs"
      by (simp add: cache_bytes_def W'(3,4) chained data_size_def empty c_metaDataSize_def)
    have "dom (table_map rs (base_world C)) = dom m"
      unfolding C(3) [symmetric] contents_def by (auto simp: dom_def)
    then have count: "m_perfData (table W2) EvictedRecordsCount = m_perfData (table (base_world C)) EvictedRecordsCount + of_nat (card (dom m))"
      using evicted_count [OF C(1) ok2 balance] by (simp add: empty)
    have after: "cache_test base rs (base + (length k + c_metaDataSize + length v) + CalculateRecordOverhead rs) t [k \<mapsto> (t, v)] hits misses
        (evicted + card (dom m)) (C0\<lparr>m_currentEvictBucketIndex := ?hand\<rparr>) (C0\<lparr>m_currentEvictBucketIndex := ?hand, base_world := W'\<rparr>)"
    proof (rule cache_testI [OF W'(2,5) now _ bytes])
      show "length (m_buckets (table W')) = length (m_buckets (table (base_world (C0\<lparr>m_currentEvictBucketIndex := ?hand\<rparr>))))"
        using W'(3) len1 same_shape_length [OF shape] C(10) by simp
    qed (use W'(3) chained perf1 balance count cache_test_counters [OF test] add(2) in
        \<open>auto simp: cache_counter_def same_balance_def Let_def split: if_splits\<close>)
    have "C\<lparr>m_currentEvictBucketIndex := ?hand, base_world := W'\<rparr> = C0\<lparr>m_currentEvictBucketIndex := ?hand, base_world := W'\<rparr>"
      using arg_cong [OF C(9) [of W'], of "m_currentEvictBucketIndex_update (\<lambda>_. ?hand)"] unfolding Cache_update_swap by simp
    then show ?thesis
      using run W'(1) after by (auto simp: mock_cache_Add_def)
  qed
qed

definition EvcitAllRecordsTest :: "nat \<Rightarrow> nat \<Rightarrow> allocator \<Rightarrow> bool" where
  "EvcitAllRecordsTest sm st alloc \<longleftrightarrow>
     (let setting = default_setting 100; perfData = (\<lambda>C. m_perfData (table (base_world C))); keys = map fst c_keyValuePairs;
          initialTotalIndexSize = pc_Get (m_perfData (SharedHashTable_new sm st setting)) TotalIndexSize;
          C0 = test_cache sm st setting (500 + initialTotalIndexSize) 5 False; rs = cache_serializer (table (base_world C0));
          (ok1, t1, C1) = add_records False rs alloc 0 c_keyValuePairs 0 C0;
          recordOverhead = of_nat (CalculateRecordOverhead \<lparr>m_fixedKeySize = 0, m_fixedValueSize = 0, m_metadataSize = 0\<rparr>);
          (ok2, C2) = check_each rs t1 (map_of c_keyValuePairs) keys C1;
          bigRecordKey = ConvertFromString (replicate 10 CHR ''k''); bigRecordVal = ConvertFromString (replicate 500 CHR ''v'');
          (r3, C3) = mock_cache_Add rs alloc t1 C2 bigRecordKey bigRecordVal;
          (ok4, C4) = check_each rs t1 (\<lambda>_. None) keys C3; (found, C5) = mock_cache_Get rs t1 C4 bigRecordKey
      in ValidateCounters (perfData C0) [(EvictedRecordsCount, 0)] \<and> ok1 \<and>
         ValidateCounters (perfData C1) [(RecordsCount, of_nat (length c_keyValuePairs)),
           (TotalIndexSize, initialTotalIndexSize + of_nat (length c_keyValuePairs) * recordOverhead), (EvictedRecordsCount, 0)] \<and>
         ok2 \<and> r3 = Inr () \<and> ok4 \<and> found = Inr (Some bigRecordVal) \<and>
         ValidateCounters (perfData C5) [(RecordsCount, 1), (TotalIndexSize, initialTotalIndexSize + 1 * recordOverhead),
           (EvictedRecordsCount, of_nat (length c_keyValuePairs))] \<and>
         SharedHashTable_destroy (table (base_world C5)) (heap (base_world C5)) = Inr Map.empty)"

lemma fresh_pairs:
  "\<forall>k\<in>set (map fst c_keyValuePairs). look 5 0 (filled 0 c_keyValuePairs 0 Map.empty) k = map_of c_keyValuePairs k"
  by code_simp

lemma fresh_pairs_counts:
  "length (filter (\<lambda>k. map_of c_keyValuePairs k \<noteq> None) (map fst c_keyValuePairs)) = 5"
  "length (filter (\<lambda>k. map_of c_keyValuePairs k = None) (map fst c_keyValuePairs)) = 0"
  by code_simp+

lemma big_record:
  defines "key \<equiv> ConvertFromString (replicate 10 CHR ''k'')" and "val \<equiv> ConvertFromString (replicate 500 CHR ''v'')"
  shows "length key = 10" "length val = 500" "key \<notin> set (map fst c_keyValuePairs)"
    "good_alloc alloc \<Longrightarrow> cache_addable test_serializer alloc key val" "val \<noteq> []"
proof -
  show len: "length key = 10" "length val = 500"
    by (simp_all add: key_def val_def ConvertFromString_def c_str_def)
  show "key \<notin> set (map fst c_keyValuePairs)"
    unfolding key_def by code_simp
  show "cache_addable test_serializer alloc key val" if "good_alloc alloc"
    using that len by (simp add: cache_addable_def test_serializer_def Validate_def valid_key_def c_metaDataSize_def)
  show "val \<noteq> []"
    using len(2) by auto
qed

lemma index_size_new: "pc_Get (m_perfData (SharedHashTable_new sm st s)) TotalIndexSize = of_nat (test_base sm st s)"
  by (simp add: SharedHashTable_new_def Let_def pc_Set_def pc_Get_def test_base_def)

theorem EvcitAllRecordsTest_passes:
  assumes "good_alloc alloc" "100 * sizeof_Entry + 100 * sm + st \<le> 2 ^ 31"
  shows "EvcitAllRecordsTest sm st alloc"
proof -
  let ?rs = test_serializer and ?m = "filled 0 c_keyValuePairs 0 Map.empty" and ?keys = "map fst c_keyValuePairs"
  let ?base = "test_base sm st (default_setting 100)"
  let ?C0 = "test_cache sm st (default_setting 100) (500 + of_nat ?base) 5 False"
  let ?key = "ConvertFromString (replicate 10 CHR ''k'')" and ?val = "ConvertFromString (replicate 500 CHR ''v'')"
  let ?bytes = "?base + 5 * (14 + CalculateRecordOverhead ?rs)"
  define A where "A = add_records False ?rs alloc 0 c_keyValuePairs 0 ?C0"
  define B where "B = check_each ?rs 0 (map_of c_keyValuePairs) ?keys (snd (snd A))"
  define D where "D = mock_cache_Add ?rs alloc 0 (snd B) ?key ?val"
  define E where "E = check_each ?rs 0 (\<lambda>_. None) ?keys (snd D)"
  define F where "F = mock_cache_Get ?rs 0 (snd E) ?key"
  have base: "?base \<le> 2 ^ 31"
    using assms(2) by (simp add: default_base)
  then have cap: "unat (500 + of_nat ?base :: u64) = 500 + ?base"
    by (simp add: unat_word_ariths unat_of_nat)
  have added: "fst A" "fst (snd A) = 0" "cache_test ?base ?rs ?bytes 0 ?m 0 0 0 ?C0 (snd (snd A))"
    using records_added [of "default_setting 100" ?rs alloc 14 c_keyValuePairs 0 5 sm st "500 + of_nat ?base" False False] pairs_small [OF assms(1)]
      test_overhead(2) cap by (simp_all add: A_def pairs_facts c_numDataPerEntry_def)
  have there: "fst B \<and> cache_test ?base ?rs ?bytes 0 ?m 5 0 0 ?C0 (snd B)"
    unfolding B_def
  proof (rule check_each_ok [OF added(3)])
    show "\<forall>k\<in>set ?keys. look (m_recordTimeToLive ?C0) 0 ?m k = map_of c_keyValuePairs k"
      unfolding test_cache_simps by (rule fresh_pairs)
  qed (use fresh_pairs_counts in linarith)+
  have "m_currentEvictBucketIndex ?C0 = 0"
    by (simp add: test_cache_def Cache_new_def)
  then obtain hand where big: "fst D = Inr ()" "cache_test ?base ?rs (?base + 514 + CalculateRecordOverhead ?rs) 0 [?key \<mapsto> (0, ?val)] 5 0 5
      (?C0\<lparr>m_currentEvictBucketIndex := hand\<rparr>) (snd D)"
    using cache_test_Add_big [OF there [THEN conjunct2] big_record(4) [OF assms(1)] big_record(5)] cap base test_overhead(2)
    by (auto simp: big_record(1,2) card_filled_pairs c_metaDataSize_def D_def)
  have others: "k \<noteq> ?key" if "k \<in> set ?keys" for k
    using that big_record(3) by blast
  have gone: "fst E \<and> cache_test ?base ?rs (?base + 514 + CalculateRecordOverhead ?rs) 0 [?key \<mapsto> (0, ?val)] 5 5 5
      (?C0\<lparr>m_currentEvictBucketIndex := hand\<rparr>) (snd E)"
    unfolding E_def
  proof (rule check_each_ok [OF big(2)])
    show "\<forall>k\<in>set ?keys. look (m_recordTimeToLive (?C0\<lparr>m_currentEvictBucketIndex := hand\<rparr>)) 0 [?key \<mapsto> (0, ?val)] k = None"
      using others by (simp add: look_def del: set_map)
  qed (simp_all add: pairs_facts)
  have got: "fst F = Inr (Some ?val) \<and> cache_test ?base ?rs (?base + 514 + CalculateRecordOverhead ?rs) 0 [?key \<mapsto> (0, ?val)] 6 5 5
      (?C0\<lparr>m_currentEvictBucketIndex := hand\<rparr>) (snd F)"
    unfolding F_def by (rule cache_test_Get [OF gone [THEN conjunct2]]) (simp_all add: look_def)
  have new: "m_perfData (table (base_world ?C0)) EvictedRecordsCount = 0"
    using cache_test_counters(3) [OF cache_test_new [of "default_setting 100" sm st ?rs 0 "500 + of_nat ?base" 5 False]] by simp
  show ?thesis
    using new added there big gone got cache_test_counters [OF added(3)] cache_test_counters [OF got [THEN conjunct2]] cache_test_destroy [OF got [THEN conjunct2]]
    unfolding EvcitAllRecordsTest_def Let_def default_serializer_of_cache split_beta index_size_new A_def [symmetric] added(2) B_def [symmetric]
      D_def [symmetric] E_def [symmetric] F_def [symmetric] test_overhead(1) [symmetric]
    by (simp add: ValidateCounters_def pc_Get_def card_filled_pairs pairs_facts)
qed

section \<open>CacheHashTableIteratorTest\<close>

text \<open>The loop over an iterator, with what it checks of every record.\<close>

definition iterator_gives :: "(Key \<times> Value) list res \<Rightarrow> Key list \<Rightarrow> Value list \<Rightarrow> nat \<Rightarrow> bool" where
  "iterator_gives r keys vals numRecords \<longleftrightarrow>
     (case r of Inl _ \<Rightarrow> False | Inr kvs \<Rightarrow> list_all (\<lambda>(k, v). k \<in> set keys \<and> v \<in> set vals) kvs \<and> length kvs = numRecords)"

definition iterator_pairs :: "(Key \<times> Value) list" where
  "iterator_pairs = zip (map ConvertFromString [''key1'', ''key2'', ''key3'', ''key4'', ''key5''])
     (map ConvertFromString [''val1'', ''val2'', ''val3'', ''val4'', ''val5''])"

definition CacheHashTableIteratorTest :: "addr option \<Rightarrow> nat \<Rightarrow> nat \<Rightarrow> allocator \<Rightarrow> bool" where
  "CacheHashTableIteratorTest junk sm st alloc \<longleftrightarrow>
     (let C0 = test_cache sm st (default_setting 100) 0xFFFFFFFF 20 False; rs = cache_serializer (table (base_world C0));
          c_keys = map fst iterator_pairs; c_vals = map snd iterator_pairs;
          (ok, t, C) = add_records False rs alloc 3 iterator_pairs 0 C0;
          iterate = (\<lambda>cur. cache_iterate rs (heap (base_world C)) (table (base_world C)) (m_recordTimeToLive C) cur (Iterator_new junk))
      in ok \<and> iterator_gives (iterate t) c_keys c_vals 5 \<and>
         iterator_gives (iterate (t + 15)) (drop 2 c_keys) (drop 2 c_vals) 2 \<and>
         iterate (t + 15 + 10) = Inr [] \<and>
         SharedHashTable_destroy (table (base_world C)) (heap (base_world C)) = Inr Map.empty)"

lemma cache_test_iterate:
  assumes "cache_test base rs bytes t m hits misses evicted C0 C" "sint t \<le> sint cur" "look (m_recordTimeToLive C0) cur m = map_of L" "distinct (map fst L)"
  shows "\<exists>kvs. cache_iterate rs (heap (base_world C)) (table (base_world C)) (m_recordTimeToLive C) cur (Iterator_new junk) = Inr kvs \<and>
    set kvs = set L \<and> length kvs = length L"
proof -
  note C = cache_testD [OF cache_test_later [OF assms(1,2)]]
  let ?kvs = "live_kvs (m_recordTimeToLive C0) cur (table_kvs rs (heap (base_world C)) (table (base_world C)))"
  have "distinct (map fst ?kvs) \<and> map_of ?kvs = cache_lookup (m_recordTimeToLive C0) cur (table_map rs (base_world C))"
    unfolding table_map_def by (rule map_of_live [OF distinct_table_kvs [OF cache_ok_table [OF C(1)]]])
  then have kvs: "distinct (map fst ?kvs)" "map_of ?kvs = map_of L"
    unfolding assms(3) [symmetric] C(3) [symmetric] look_contents by (simp_all add: fun_eq_iff look_contents)
  then have sets: "set ?kvs = set L"
    using map_of_inject_set [OF kvs(1) assms(4)] by simp
  have "length ?kvs = length L"
    using distinct_card [OF kvs(1)] distinct_card [OF assms(4)] by (simp add: sets)
  with sets show ?thesis
    using cache_iterate_table [OF C(1), of "Iterator_new junk"] C(6) by simp
qed

lemma look_filled:
  assumes "\<forall>k\<in>set (map fst kvs). look ttl cur (filled inc kvs t Map.empty) k = map_of L k" "set (map fst L) \<subseteq> set (map fst kvs)"
  shows "look ttl cur (filled inc kvs t Map.empty) = map_of L"
proof
  fix k
  show "look ttl cur (filled inc kvs t Map.empty) k = map_of L k"
  proof (cases "k \<in> set (map fst kvs)")
    case False
    then have "filled inc kvs t Map.empty k = None" "map_of L k = None"
      using dom_filled [of inc kvs t Map.empty] assms(2) by (auto simp: map_of_eq_None_iff)
    then show ?thesis
      by (simp add: look_def)
  qed (use assms(1) in blast)
qed

lemma iterator_pairs_aged:
  "\<forall>k\<in>set (map fst iterator_pairs). look 20 15 (filled 3 iterator_pairs 0 Map.empty) k = map_of iterator_pairs k"
  "\<forall>k\<in>set (map fst iterator_pairs). look 20 30 (filled 3 iterator_pairs 0 Map.empty) k = map_of (drop 3 iterator_pairs) k"
  "\<forall>k\<in>set (map fst iterator_pairs). look 20 40 (filled 3 iterator_pairs 0 Map.empty) k = map_of [] k"
  by code_simp+

lemma iterator_pairs_facts: "length iterator_pairs = 5" "distinct (map fst iterator_pairs)"
  by code_simp+

lemma iterator_pairs_small: "good_alloc alloc \<Longrightarrow> small_records test_serializer alloc 12 iterator_pairs"
proof -
  assume "good_alloc alloc"
  moreover have "list_all (\<lambda>(k, v). length k = 4 \<and> length v = 4) iterator_pairs"
    by code_simp
  ultimately show ?thesis
    by (auto simp: small_records_def list_all_iff cache_addable_def test_serializer_def Validate_def valid_key_def c_metaDataSize_def)
qed

lemma iterator_gives_list:
  assumes "set kvs = set (drop n L)" "length kvs = length (drop n L)" "m \<le> n"
  shows "iterator_gives (Inr kvs) (drop m (map fst L)) (drop m (map snd L)) (length L - n)"
proof -
  have "set (drop n L) \<subseteq> set (drop m L)"
    using assms(3) by (metis drop_drop le_add_diff_inverse2 set_drop_subset)
  then show ?thesis
    using assms(1,2) by (force simp: iterator_gives_def list_all_iff drop_map)
qed

theorem CacheHashTableIteratorTest_passes:
  assumes "good_alloc alloc" "100 * sizeof_Entry + 100 * sm + st \<le> 2 ^ 31"
  shows "CacheHashTableIteratorTest junk sm st alloc"
proof -
  let ?C0 = "test_cache sm st (default_setting 100) 0xFFFFFFFF 20 False" and ?rs = test_serializer and ?L = iterator_pairs
  define A where "A = add_records False ?rs alloc 3 ?L 0 ?C0"
  let ?cache = "snd (snd A)" and ?base = "test_base sm st (default_setting 100)"
  define it where "it cur = cache_iterate ?rs (heap (base_world ?cache)) (table (base_world ?cache)) (m_recordTimeToLive ?cache) cur (Iterator_new junk)" for cur
  have added: "fst A" "fst (snd A) = 15"
    "cache_test ?base ?rs (?base + 5 * (12 + CalculateRecordOverhead ?rs)) 15 (filled 3 ?L 0 Map.empty) 0 0 0 ?C0 ?cache"
    using records_added [of "default_setting 100" ?rs alloc 12 ?L 3 20 sm st "0xFFFFFFFF" False False] iterator_pairs_small [OF assms(1)] assms(2)
      test_overhead(2) by (simp_all add: A_def iterator_pairs_facts c_numDataPerEntry_def default_base)
  have step: "\<exists>kvs. it cur = Inr kvs \<and> set kvs = set (drop n ?L) \<and> length kvs = length (drop n ?L)"
    if "15 \<le> sint cur" "\<forall>k\<in>set (map fst ?L). look 20 cur (filled 3 ?L 0 Map.empty) k = map_of (drop n ?L) k" for cur n
  proof -
    have "set (map fst (drop n ?L)) \<subseteq> set (map fst ?L)" "distinct (map fst (drop n ?L))"
      using iterator_pairs_facts(2) set_drop_subset [of n "map fst ?L"] by (simp_all add: drop_map [symmetric])
    then show ?thesis
      unfolding it_def using look_filled [OF that(2)] that(1) by (intro cache_test_iterate [OF added(3)]) simp_all
  qed
  have none: "map_of (drop 5 ?L) = map_of ([] :: (Key \<times> Value) list)"
    using iterator_pairs_facts(1) by simp
  obtain kvs1 where kvs1: "it 15 = Inr kvs1" "set kvs1 = set (drop 0 ?L)" "length kvs1 = length (drop 0 ?L)"
    using step [of 15 0] iterator_pairs_aged(1) by auto
  obtain kvs2 where kvs2: "it 30 = Inr kvs2" "set kvs2 = set (drop 3 ?L)" "length kvs2 = length (drop 3 ?L)"
    using step [of 30 3] iterator_pairs_aged(2) by auto
  obtain kvs3 where kvs3: "it 40 = Inr kvs3" "length kvs3 = length (drop 5 ?L)"
    using step [of 40 5] iterator_pairs_aged(3) none by auto
  note gives = iterator_gives_list [OF kvs1(2,3), of 0] iterator_gives_list [OF kvs2(2,3), of 2]
  have times: "15 + 15 = (30 :: seconds)" "30 + 10 = (40 :: seconds)"
    by simp_all
  show ?thesis
    using added gives kvs3 cache_test_destroy [OF added(3)]
    unfolding CacheHashTableIteratorTest_def Let_def default_serializer_of_cache split_beta A_def [symmetric] it_def [symmetric] added(2) times
    by (simp add: kvs1(1) kvs2(1) kvs3(1) iterator_pairs_facts(1))
qed

section \<open>FixedKeyValueHashTableTest\<close>

fun remove_records :: "RecordSerializer \<Rightarrow> Key list \<Rightarrow> MockEpochManager Cache \<Rightarrow> bool \<times> MockEpochManager Cache" where
  "remove_records rs [] C = (True, C)"
| "remove_records rs (k # ks) C =
     (let (r, C) = mock_cache_Remove rs C k; (rest, C) = remove_records rs ks C in (returns r (\<lambda>_. True) \<and> rest, C))"

text \<open>In the source what \<open>CheckRecord\<close> returns is dropped; here it is checked.\<close>

definition run_fixed_cache :: "nat \<Rightarrow> nat \<Rightarrow> allocator \<Rightarrow> Setting \<Rightarrow> bool" where
  "run_fixed_cache sm st alloc setting \<longleftrightarrow>
     (let C0 = test_cache sm st setting 0xFFFFFFFF 20 False; rs = cache_serializer (table (base_world C0));
          perfData = (\<lambda>C. m_perfData (table (base_world C))); kvs = test_records 10; keys = map fst kvs;
          (ok1, t, C1) = add_records False rs alloc 0 kvs 0 C0;
          (ok2, C2) = check_each rs t (map_of kvs) keys C1;
          (ok3, C3) = remove_records rs (take 5 keys) C2;
          (ok4, C4) = check_each rs t (map_of (drop 5 kvs)) keys C3;
          (ok5, C5) = check_each rs (t + 100) (\<lambda>_. None) keys C4
      in ok1 \<and>
         ValidateCounters (perfData C1) [(RecordsCount, 10), (BucketsCount, 100), (TotalKeySize, 40), (TotalValueSize, 100),
           (MinKeySize, 4), (MaxKeySize, 4), (MinValueSize, 10), (MaxValueSize, 10)] \<and>
         ok2 \<and> ok3 \<and>
         ValidateCounters (perfData C3) [(RecordsCount, 5), (BucketsCount, 100), (TotalKeySize, 20), (TotalValueSize, 50)] \<and>
         ok4 \<and> ok5 \<and> SharedHashTable_destroy (table (base_world C5)) (heap (base_world C5)) = Inr Map.empty)"

definition CacheFixedKeyValueHashTableTest :: "nat \<Rightarrow> nat \<Rightarrow> allocator \<Rightarrow> bool" where
  "CacheFixedKeyValueHashTableTest sm st alloc \<longleftrightarrow>
     list_all (\<lambda>(k, v). run_fixed_cache sm st alloc \<lparr>m_numBuckets = 100, m_numBucketsPerMutex = 200, s_fixedKeySize = k, s_fixedValueSize = v\<rparr>)
       [(4, 0), (0, 6), (4, 6)]"

lemma Cache_Get_BucketsCount: "m_perfData (table (snd (Cache_Get rs ttl t W k))) BucketsCount = m_perfData (table W) BucketsCount"
  by (auto simp: Cache_Get_def GetInternal_def count_perf_def pc_Increment_def split: sum.split option.split prod.split)

lemma check_each_BucketsCount:
  "m_perfData (table (base_world (snd (check_each rs t expected ks C)))) BucketsCount = m_perfData (table (base_world C)) BucketsCount"
  by (induction rs t expected ks C rule: check_each.induct) (simp_all add: mock_cache_Get_def Cache_Get_BucketsCount split_beta Let_def)

lemma remove_records_ok:
  assumes "cache_test base rs bytes t m hits misses evicted C0 C" "m' = (\<lambda>k. if k \<in> set ks then None else m k)"
  shows "fst (remove_records rs ks C) \<and> cache_test base rs bytes t m' hits misses evicted C0 (snd (remove_records rs ks C)) \<and>
    m_perfData (table (base_world (snd (remove_records rs ks C)))) BucketsCount = m_perfData (table (base_world C)) BucketsCount"
  using assms
proof (induction ks arbitrary: C m)
  case (Cons k ks)
  note removed = cache_test_Remove [OF Cons.prems(1), of k]
  have "m' = (\<lambda>x. if x \<in> set ks then None else (m(k := None)) x)"
    using Cons.prems(2) by auto
  then show ?case
    using Cons.IH [OF removed [THEN conjunct2, THEN conjunct1]] removed by (simp add: split_beta Let_def returns_def)
qed simp

lemma test_records_small:
  assumes "good_alloc alloc" "s_fixedKeySize s = 0 \<or> s_fixedKeySize s = 4" "s_fixedValueSize s = 0 \<or> s_fixedValueSize s = 6"
  shows "small_records (cache_serializer (table (base_world (test_cache sm st s cap ttl force)))) alloc 14 (test_records 10)"
    "fresh_records 10 (test_records 10) Map.empty"
proof -
  have rs: "cache_serializer (table (base_world (test_cache sm st s cap ttl force))) =
      \<lparr>m_fixedKeySize = s_fixedKeySize s, m_fixedValueSize = s_fixedValueSize s, m_metadataSize = 4\<rparr>"
    by (simp add: cache_serializer_def test_cache_def Cache_new_def test_world_def SharedHashTable_new_def Let_def c_metaDataSize_def)
  show "small_records (cache_serializer (table (base_world (test_cache sm st s cap ttl force)))) alloc 14 (test_records 10)"
    unfolding rs small_records_def using test_records_facts(2) assms
    by (auto simp: cache_addable_def Validate_def valid_key_def ksize_def vsize_def c_metaDataSize_def)
  show "fresh_records 10 (test_records 10) Map.empty"
    using test_records_facts(1,2) by (auto simp: fresh_records_def c_metaDataSize_def)
qed

lemma cut_keys:
  assumes "distinct ks"
  shows "set ks - set (take n ks) = set (drop n ks)" "filter (\<lambda>k. k \<in> set (drop n ks)) ks = drop n ks"
    "filter (\<lambda>k. k \<notin> set (drop n ks)) ks = take n ks"
proof -
  have disjoint: "set (take n ks) \<inter> set (drop n ks) = {}"
    using assms by (simp add: set_take_disj_set_drop_if_distinct)
  have split: "ks = take n ks @ drop n ks"
    by simp
  have "set ks = set (take n ks) \<union> set (drop n ks)"
    by (subst split, simp only: set_append)
  then show "set ks - set (take n ks) = set (drop n ks)"
    using disjoint by blast
  have "filter (\<lambda>k. k \<in> set (drop n ks)) (take n ks) = []" "filter (\<lambda>k. k \<notin> set (drop n ks)) (take n ks) = take n ks"
    using disjoint by (auto simp: filter_empty_conv filter_id_conv)
  moreover have "filter (\<lambda>k. k \<in> set (drop n ks)) (drop n ks) = drop n ks" "filter (\<lambda>k. k \<notin> set (drop n ks)) (drop n ks) = []"
    by (simp_all add: filter_empty_conv filter_id_conv)
  ultimately show "filter (\<lambda>k. k \<in> set (drop n ks)) ks = drop n ks" "filter (\<lambda>k. k \<notin> set (drop n ks)) ks = take n ks"
    using filter_append [of _ "take n ks" "drop n ks"] by simp_all
qed

lemma cut_map:
  assumes "distinct (map fst kvs)"
  shows "map_of (drop n kvs) k = (if k \<in> set (take n (map fst kvs)) then None else map_of kvs k)"
    "map_of (drop n kvs) k \<noteq> None \<longleftrightarrow> k \<in> set (drop n (map fst kvs))"
proof -
  have dom: "map_of (drop n kvs) k \<noteq> None \<longleftrightarrow> k \<in> set (drop n (map fst kvs))"
    by (simp add: drop_map map_of_eq_None_iff)
  have whole: "map_of kvs = map_of (drop n kvs) ++ map_of (take n kvs)"
    using map_of_append [of "take n kvs" "drop n kvs"] by simp
  show "map_of (drop n kvs) k = (if k \<in> set (take n (map fst kvs)) then None else map_of kvs k)"
  proof (cases "k \<in> set (take n (map fst kvs))")
    case True
    then show ?thesis
      using dom set_take_disj_set_drop_if_distinct [OF assms order_refl, of n] by auto
  next
    case False
    then have "map_of (take n kvs) k = None"
      by (simp add: take_map map_of_eq_None_iff)
    then show ?thesis
      using False by (simp add: whole map_add_def)
  qed
  show "map_of (drop n kvs) k \<noteq> None \<longleftrightarrow> k \<in> set (drop n (map fst kvs))"
    by (rule dom)
qed

lemma run_fixed_cache_ok:
  assumes "good_alloc alloc" "m_numBuckets s = 100" "num_mutexes s = 1" "s_fixedKeySize s = 0 \<or> s_fixedKeySize s = 4"
    "s_fixedValueSize s = 0 \<or> s_fixedValueSize s = 6" "100 * sizeof_Entry + sm + st \<le> 2 ^ 31"
  shows "run_fixed_cache sm st alloc s"
proof -
  let ?C0 = "test_cache sm st s 0xFFFFFFFF 20 False" and ?kvs = "test_records 10" and ?keys = "map fst (test_records 10)"
  let ?rs = "cache_serializer (table (base_world ?C0))" and ?base = "test_base sm st s"
  let ?bytes = "?base + 10 * (14 + CalculateRecordOverhead ?rs)"
  define m1 where "m1 = filled 0 ?kvs 0 Map.empty"
  define m3 where "m3 = (\<lambda>k. if k \<in> set (take 5 ?keys) then None else m1 k)"
  define A where "A = add_records False ?rs alloc 0 ?kvs 0 ?C0"
  define B where "B = check_each ?rs 0 (map_of ?kvs) ?keys (snd (snd A))"
  define D where "D = remove_records ?rs (take 5 ?keys) (snd B)"
  define E where "E = check_each ?rs 0 (map_of (drop 5 ?kvs)) ?keys (snd D)"
  define F where "F = check_each ?rs 100 (\<lambda>_. None) ?keys (snd E)"
  note small = test_records_small [OF assms(1,4,5)] and facts = test_records_facts
  note cut = cut_map [OF facts(1), of 5] cut_keys [OF facts(1), of 5]
  have m1: "m1 k = map_option (Pair 0) (map_of ?kvs k)" for k
    using filled_at_once [OF facts(1), of 0 Map.empty k] by (simp add: m1_def split: option.split)
  have overhead: "CalculateRecordOverhead ?rs \<le> 16"
    by (simp add: CalculateRecordOverhead_def sizeof_KeySize_def sizeof_ValueSize_def)
  have "?base \<le> 2 ^ 31"
    using assms(2,3,6) by (simp add: test_base_def)
  then have added: "fst A" "fst (snd A) = 0" "cache_test ?base ?rs ?bytes 0 m1 0 0 0 ?C0 (snd (snd A))"
      "sizes_known 10 True (m_perfData (table (base_world (snd (snd A)))))"
    using records_added(1-3) [of s ?rs alloc 14 ?kvs 0 20 sm st "0xFFFFFFFF" False False]
      records_added(4) [where n = 10, of s ?rs alloc 14 ?kvs 0 20 sm st "0xFFFFFFFF" False False] small overhead assms(2)
    by (simp_all add: A_def m1_def facts c_numDataPerEntry_def)
  have there: "fst B \<and> cache_test ?base ?rs ?bytes 0 m1 10 0 0 ?C0 (snd B)"
    unfolding B_def by (rule check_each_ok [OF added(3)]) (simp_all add: look_def m1 facts map_of_eq_None_iff filter_id_conv filter_empty_conv comp_def split: option.split)
  have removed: "fst D \<and> cache_test ?base ?rs ?bytes 0 m3 10 0 0 ?C0 (snd D) \<and>
      m_perfData (table (base_world (snd D))) BucketsCount = m_perfData (table (base_world (snd B))) BucketsCount"
    unfolding D_def by (rule remove_records_ok [OF there [THEN conjunct2]]) (simp add: m3_def)
  have m3: "m3 k = map_option (Pair 0) (map_of (drop 5 ?kvs) k)" for k
    by (simp add: m3_def m1 cut(1))
  have left: "fst E \<and> cache_test ?base ?rs ?bytes 0 m3 15 5 0 ?C0 (snd E)"
    unfolding E_def
  proof (rule check_each_ok [OF removed [THEN conjunct2, THEN conjunct1]])
    show "\<forall>k\<in>set ?keys. look (m_recordTimeToLive ?C0) 0 m3 k = map_of (drop 5 ?kvs) k"
      by (auto simp: look_def m3 split: option.split)
    have "map_of (drop 5 ?kvs) k = None \<longleftrightarrow> k \<notin> set (drop 5 ?keys)" for k
      using cut(2) [of k] by blast
    then show "15 = 10 + length (filter (\<lambda>k. map_of (drop 5 ?kvs) k \<noteq> None) ?keys)"
      "5 = 0 + length (filter (\<lambda>k. map_of (drop 5 ?kvs) k = None) ?keys)"
      using cut(4,5) by (simp_all add: facts del: set_map)
  qed
  have gone: "fst F \<and> cache_test ?base ?rs ?bytes 100 m3 15 15 0 ?C0 (snd F)"
    unfolding F_def
  proof (rule check_each_ok [OF cache_test_later [OF left [THEN conjunct2]]])
    show "\<forall>k\<in>set ?keys. look (m_recordTimeToLive ?C0) 100 m3 k = None"
      by (auto simp: look_def m3 split: option.split)
  qed (simp_all add: facts)
  have doms: "dom m1 = set ?keys" "dom m3 = set (drop 5 ?keys)"
    by (auto simp: m1 m3 dom_def map_of_eq_None_iff drop_map)
  have cards: "card (dom m1) = 10" "card (dom m3) = 5"
    unfolding doms using distinct_card [OF facts(1)] distinct_card [of "drop 5 ?keys"] facts(1,3) by simp_all
  have "length k = 4 \<and> length v = 6" if "m1 k = Some (x, v)" for k x v
    using that facts(2) by (auto simp: m1 dest!: map_of_SomeD)
  moreover from this have "length k = 4 \<and> length v = 6" if "m3 k = Some (x, v)" for k x v
    using that by (auto simp: m3_def split: if_splits)
  ultimately have totals: "m_perfData (table (base_world (snd (snd A)))) TotalKeySize = 40" "m_perfData (table (base_world (snd (snd A)))) TotalValueSize = 100"
      "m_perfData (table (base_world (snd D))) TotalKeySize = 20" "m_perfData (table (base_world (snd D))) TotalValueSize = 50"
    using cache_test_totals [OF added(3)] cache_test_totals [OF removed [THEN conjunct2, THEN conjunct1]] cards by auto
  have "m_perfData (table (base_world (snd D))) BucketsCount = 100"
    using removed check_each_BucketsCount [of ?rs 0 "map_of ?kvs" ?keys "snd (snd A)"] added(4) by (simp add: B_def sizes_known_def)
  then show ?thesis
    using added there removed left gone totals cards cache_test_counters(4) [OF added(3)]
      cache_test_counters(4) [OF removed [THEN conjunct2, THEN conjunct1]] cache_test_destroy [OF gone [THEN conjunct2]]
    unfolding run_fixed_cache_def Let_def split_beta A_def [symmetric] added(2) B_def [symmetric] D_def [symmetric] E_def [symmetric] add_0
      F_def [symmetric]
    by (simp add: ValidateCounters_def pc_Get_def sizes_known_def)
qed

theorem CacheFixedKeyValueHashTableTest_passes:
  assumes "good_alloc alloc" "100 * sizeof_Entry + sm + st \<le> 2 ^ 31"
  shows "CacheFixedKeyValueHashTableTest sm st alloc"
  using assms by (simp add: CacheFixedKeyValueHashTableTest_def run_fixed_cache_ok num_mutexes_def)

end
