(* ===== verification/Spec2Isabelle.thy ===== *)
theory Spec2Isabelle
  imports L4_EpochSafety L4_ServiceSpec L4_Network L4_LockFreeMain L4_Thread L4_Time L4_AccessBit L4_Offset L4_IteratorTest L4_CacheTest
begin

text \<open>
  L4 is a C++ library of hash tables for many readers and writers in one process. A service keeps named
  tables and one epoch manager. A reader opens a context, which holds a reference to the current epoch, and
  looks keys up without a lock; a writer locks the bucket of its key, stores a pointer to a new record and
  registers the deallocation of the old record with the epoch manager; the processing thread of the epoch
  manager runs the registered deallocations once no reader can have a pointer to the record. A cache is a
  table with metadata in front of every value, a bound on its size and a time to live. A table can be saved to a
  stream and loaded back. Apart from that, a connection monitor watches other processes.

  This development models these parts and proves what makes them correct. Paths are relative to
  \<open>src/\<close>; \<open>L4/\<close> stands for \<open>inc/L4/\<close>. The definitions have the names of the code where they can; the
  properties are the theorems that follow a text block with an identifier \<open>C1\<close>, \<open>C2\<close> and so on.

  Conventions. Machine integers are words of their width, so that they wrap around. A byte buffer, a key and a
  value are lists of bytes, the memory is a map from addresses to buffers, and the allocator, of which is
  only assumed that it gives unused addresses and the size asked for, is a parameter. Operations that can fail
  return a value of type \<open>'a res\<close>: exceptions are \<open>RuntimeException\<close> with the message, failed assertions
  \<open>AssertFailed\<close> with the condition, and an access outside the memory is \<open>BadAccess\<close>. A state change before
  an exception stays. Hosts are little-endian.

  The theories, from the bottom:

  \<^item> \<open>L4_Prelude\<close>: word types, outcomes, bytes of integers. \<open>L4_Math\<close>: \<open>L4/Utils/Math.h\<close>.
    \<open>L4_Murmur\<close>: \<open>src/MurmurHash3.cpp\<close>; no mixing step loses information. \<open>L4_Names\<close>: the
    case-insensitive comparers and hashers, string-keyed maps and properties of \<open>L4/Utils\<close>. \<open>L4_Time\<close>,
    \<open>L4_Thread\<close>: \<open>Clock.h\<close>, \<open>Time.h\<close> and the steps of a \<open>RunningThread\<close> and its owner. \<open>L4_Offset\<close>:
    \<open>AtomicOffsetPtr.h\<close>; which pointers mean the same object wherever the memory is mapped.
  \<^item> \<open>L4_PerfCounter\<close>: \<open>L4/Log/PerfCounter.h\<close>. The counters of a table are a function from the
    enumeration, which is ordered as in the code; \<open>Max\<close> and \<open>Min\<close> are compare-and-exchange loops among other threads.
  \<^item> \<open>L4_Record\<close>: blobs and \<open>L4/HashTable/Common/Record.h\<close>: layout, round trip, errors.
  \<^item> \<open>L4_SharedHashTable\<close>, \<open>L4_ReadWrite\<close>: the data structure of \<open>Common/SharedHashTable.h\<close> (a bucket is a list of
    entries of sixteen tags and pointers) and \<open>Get\<close>, \<open>Add\<close>, \<open>Remove\<close> of \<open>ReadWrite/HashTable.h\<close> with buffers and counters.
    \<open>L4_TableOps\<close> has the invariant \<open>table_ok\<close>, the map \<open>table_map\<close> that a table stands for and what the loops
    compute; \<open>L4_KeyValue\<close> is the contract of the interfaces of \<open>IHashTable.h\<close> as the locale \<open>kv_table\<close>, which
    \<open>L4_TableMap\<close> interprets with the table and uses for sequences of operations. \<open>L4_TablePerf\<close>: the counters are exact,
    and the destructor frees each buffer once. \<open>L4_ChainGrowth\<close>: how long the chains of a bucket get.
    \<open>L4_Iterator\<close>: the iterator visits every record once.
  \<^item> \<open>L4_Registry\<close>: the contract of \<open>IEpochActionManager.h\<close> as the locale \<open>action_registry\<close>: every buffer is in the
    table or queued once. It is interpreted with the epoch manager, with the epoch manager of a service that has other
    tables, and with the test double of the unit tests.
  \<^item> \<open>L4_LockFree\<close> to \<open>L4_LockFreeMain\<close>: one bucket with a reader and writers as steps, one for each access to shared
    memory. \<open>L4_LockFreeProps\<close> has the invariant, \<open>L4_LockFreeSpec\<close> what a reader that overtakes or is overtaken by
    writers returns. Buffers that the reader can have a pointer to are not freed, which is what \<open>L4_EpochSafety\<close> proves
    of the epochs.
  \<^item> \<open>L4_Serializer\<close>, \<open>L4_SerializerProps\<close>: \<open>ReadWrite/Serializer.h\<close> and \<open>SerializerHelper.h\<close>, with the state of the input
    stream. A saved table loads as the same map; loading ends on every stream, also on one whose settings it should reject.
  \<^item> \<open>L4_Metadata\<close>, \<open>L4_Cache\<close>: \<open>Cache/Metadata.h\<close> and \<open>Cache/HashTable.h\<close>. \<open>L4_CacheHeap\<close>, \<open>L4_CacheProps\<close> and \<open>L4_CacheEvict\<close> are
    about records that change in place and the two evictions, for any action manager; \<open>L4_CacheAdd\<close> and \<open>L4_CacheSpec\<close>
    about the bound on the size, \<open>L4_CacheStats\<close> and \<open>L4_CacheCounters\<close> about the counters, \<open>L4_CacheLife\<close> about
    how long a record is found, \<open>L4_CacheIterator\<close> about the iterator. \<open>L4_AccessBit\<close>: the accesses of \<open>UpdateAccessStatus\<close>, which are not atomic, interleaved.
  \<^item> \<open>L4_EpochQueue\<close>, \<open>L4_EpochActions\<close>, \<open>L4_EpochManager\<close>: \<open>L4/Epoch/\<close>, \<open>src/EpochActionManager.cpp\<close> and
    \<open>LocalMemory/EpochManager.h\<close>. The locale \<open>epoch_refs\<close> is the contract of the ring of reference counts: it represents
    the multiset of the epochs held. \<open>L4_EpochSafety\<close> interleaves the steps of readers, writers and the processing thread.
  \<^item> \<open>L4_Manager\<close>, \<open>L4_Service\<close>, \<open>L4_ServiceSpec\<close>: \<open>HashTable/Config.h\<close>, \<open>SettingAdapter.h\<close>, \<open>LocalMemory/\<close> and \<open>PerfLogger\<close>.
    A service of read-write tables, of any or of fixed sizes, refines an abstract machine on names and maps.
  \<^item> \<open>L4_Connection\<close>, \<open>L4_MonitorLife\<close>, \<open>L4_Network\<close>: \<open>src/Interprocess/Connection/\<close>, the monitor as a step relation of a client
    and of the callbacks of a thread pool, the end of the monitor with its shared and weak references, and the monitors
    of several processes with their named events: which disconnections they learn of. A registration has the waiter of the
    event before that of the process, and \<open>OpenProcess\<close> fails when the process has exited.
  \<^item> \<open>L4_UnitTests\<close>, \<open>L4_TableTest\<close>, \<open>L4_HashTableTest\<close>, \<open>L4_ChainTest\<close>, \<open>L4_IteratorTest\<close>, \<open>L4_CacheMock\<close>, \<open>L4_CacheTest\<close>:
    unit tests of the repository, translated and passed by the model, for every allocator. They are evidence that the definitions are those of the code.

  Loops that are structural are \<open>fun\<close>, the others have a termination proof, so they end on every state: \<open>add_chain\<close>
  because a new entry has a free slot, the compare-and-exchange loops because finitely many other writes come in between,
  the clock hand because it stops after two rounds. Only \<open>load_loop\<close> has fuel, the number of records it may read:
  \<open>Deserialize_total\<close> shows that three more than the bytes of the stream are always enough, and \<open>serializer_round_trip\<close> that the
  bytes of a saved table are. The service is proved for fewer than \<open>2 ^ 32\<close> calls, since a reference count and the counter of
  the action manager have 32 bits. The queue of epochs may be of any size but 0, also when its epochs wrap around it.

  Concurrency. Tables, caches and services are proved operation by operation, as the locks of the buckets and of the
  manager serialize the writers. Where the code runs without a lock, steps interleave: readers and frees
  (\<open>L4_EpochSafety\<close>), \<open>Get\<close> and writers (\<open>L4_LockFree\<close>), counters, the connection monitor and the thread. The memory is
  sequentially consistent there; the tags are plain bytes in the code, so their concurrent reads are data races for C++,
  which are outside of the model.

  Not modelled. Locks, which are the atomicity of the steps they protect; the pointers of the tables are addresses. Containers in
  shared memory are aliases of boost. \<open>hash_combine\<close>, \<open>lexical_convert\<close>, the form of a uuid, clocks, counters
  and handles of the platform are parameters. The \<open>Get\<close> of a cache among writers: it writes the access bit in place, without
  a lock. Clients of a connection monitor with several threads, and process identifiers or uuids that are used again. Output streams
  do not fail. Benchmarks and examples are programs that use the library.
\<close>

end
